(* ===== verification/Prelude.thy ===== *)
theory Prelude
  imports Main "HOL-Library.Word"
begin

text \<open>
  Shared vocabulary of the development: the machine-integer types of the Rust sources, the
  Rust iterator and arithmetic operations that every crate uses (\<open>position\<close>, \<open>find\<close>,
  \<open>checked_add\<close>, \<open>saturating_add\<close>), the generic facts about fixed-size arrays updated by
  index, and the interface \<open>slot_store\<close> of the fixed-capacity tables of the nucleus.

  A fixed-size Rust array \<open>[T; N]\<close> is a list; the const generic \<open>N\<close> is its length, which no
  operation changes. A \<open>usize\<close> used as an index or a count is a \<open>nat\<close>; a \<open>u64\<close> that is
  data (an object, an identity, an address) is a \<open>64 word\<close>.
\<close>

unbundle bit_operations_syntax

type_synonym u8 = "8 word"
type_synonym u16 = "16 word"
type_synonym u32 = "32 word"
type_synonym u64 = "64 word"
type_synonym usize = nat

named_theorems table_simps \<open>rewriting facts on tables searched and updated by index\<close>

section \<open>Rust arithmetic on machine words\<close>

definition checked_add :: "'a::len word \<Rightarrow> 'a word \<Rightarrow> 'a word option" where
  "checked_add x y = (if unat x + unat y < 2 ^ LENGTH('a) then Some (x + y) else None)"

definition checked_mul :: "'a::len word \<Rightarrow> 'a word \<Rightarrow> 'a word option" where
  "checked_mul x y = (if unat x * unat y < 2 ^ LENGTH('a) then Some (x * y) else None)"

definition saturating_add :: "'a::len word \<Rightarrow> 'a word \<Rightarrow> 'a word" where
  "saturating_add x y = (case checked_add x y of Some z \<Rightarrow> z | None \<Rightarrow> - 1)"

lemma checked_add_Some:
  "checked_add x y = Some z \<longleftrightarrow> unat x + unat y < 2 ^ LENGTH('a) \<and> z = (x + y :: 'a::len word)"
  by (auto simp: checked_add_def)

lemma unat_checked_add:
  assumes "checked_add x y = Some (z :: 'a::len word)"
  shows "unat z = unat x + unat y"
  using assms by (auto simp: checked_add_Some unat_word_ariths)

lemma checked_add_None:
  "checked_add x y = None \<longleftrightarrow> 2 ^ LENGTH('a) \<le> unat (x :: 'a::len word) + unat y"
  by (auto simp: checked_add_def)

lemma unat_saturating_add:
  "unat (saturating_add x y) = min (unat x + unat y) (2 ^ LENGTH('a) - 1)"
  for x y :: "'a::len word"
proof (cases "checked_add x y")
  case None
  then have "2 ^ LENGTH('a) \<le> unat x + unat y" by (simp add: checked_add_None)
  then show ?thesis
    by (simp add: saturating_add_def None unsigned_minus_1_eq_mask mask_eq_exp_minus_1)
next
  case (Some z)
  then have "unat x + unat y < 2 ^ LENGTH('a)" by (simp add: checked_add_Some)
  with unat_checked_add [OF Some] show ?thesis by (simp add: saturating_add_def Some)
qed

section \<open>Searching arrays: Rust's position, find and any\<close>

primrec position :: "('a \<Rightarrow> bool) \<Rightarrow> 'a list \<Rightarrow> nat option" where
  "position P [] = None"
| "position P (x # xs) = (if P x then Some 0 else map_option Suc (position P xs))"

lemma position_None: "position P xs = None \<longleftrightarrow> (\<forall>x\<in>set xs. \<not> P x)"
  by (induction xs) auto

lemma position_None_nth: "position P xs = None \<longleftrightarrow> (\<forall>i<length xs. \<not> P (xs ! i))"
  by (auto simp: position_None all_set_conv_all_nth)

lemma position_Some:
  "position P xs = Some i \<longleftrightarrow> i < length xs \<and> P (xs ! i) \<and> (\<forall>j<i. \<not> P (xs ! j))"
proof (induction xs arbitrary: i)
  case Nil
  then show ?case by simp
next
  case (Cons x xs)
  show ?case
  proof (cases i)
    case 0
    then show ?thesis by auto
  next
    case (Suc k)
    then show ?thesis
      by (auto simp: Cons.IH all_conj_distrib less_Suc_eq_0_disj)
  qed
qed

lemma position_SomeD:
  assumes "position P xs = Some i"
  shows "i < length xs" and "P (xs ! i)" and "\<And>j. j < i \<Longrightarrow> \<not> P (xs ! j)"
  using assms by (auto simp: position_Some)

lemma position_not_None: "position P xs \<noteq> None \<longleftrightarrow> (\<exists>x\<in>set xs. P x)"
  by (simp add: position_None)

lemma position_map: "position P (map f xs) = position (\<lambda>x. P (f x)) xs"
  by (induction xs) auto

lemma position_cong: "(\<And>x. x \<in> set xs \<Longrightarrow> P x = Q x) \<Longrightarrow> position P xs = position Q xs"
  by (induction xs) auto

lemma position_update_same:
  assumes "i < length xs" and "P y = P (xs ! i)"
  shows "position P (xs[i := y]) = position P xs"
  using assms by (induction xs arbitrary: i) (auto split: nat.splits)

lemma position_update_fresh:
  assumes "position P xs = None" and "i < length xs" and "P y"
  shows "position P (xs[i := y]) = Some i"
  using assms by (auto simp: position_Some position_None_nth nth_list_update)

text \<open>At most one element satisfies the predicate, by index.\<close>

definition unique_by :: "('a \<Rightarrow> bool) \<Rightarrow> 'a list \<Rightarrow> bool" where
  "unique_by P xs \<longleftrightarrow> (\<forall>i<length xs. \<forall>j<length xs. P (xs ! i) \<and> P (xs ! j) \<longrightarrow> i = j)"

lemma unique_byD: "unique_by P xs \<Longrightarrow> i < length xs \<Longrightarrow> j < length xs \<Longrightarrow> P (xs ! i) \<Longrightarrow> P (xs ! j) \<Longrightarrow> i = j"
  by (simp add: unique_by_def)

lemma position_unique:
  assumes "unique_by P xs"
  shows "position P xs = Some i \<longleftrightarrow> i < length xs \<and> P (xs ! i)"
proof
  assume "i < length xs \<and> P (xs ! i)"
  then have "i < length xs" "P (xs ! i)" and "\<not> P (xs ! j)" if "j < i" for j
    using that unique_byD [OF assms, of j i] by auto
  then show "position P xs = Some i" unfolding position_Some using \<open>i < length xs \<and> P (xs ! i)\<close> by blast
qed (auto dest: position_SomeD)

lemma unique_by_mono:
  assumes "unique_by P xs" and "length ys = length xs" and "\<And>i. i < length xs \<Longrightarrow> P (ys ! i) \<Longrightarrow> P (xs ! i)"
  shows "unique_by P ys"
  using assms by (simp add: unique_by_def)

lemma unique_by_update_fresh:
  assumes "position P xs = None"
  shows "unique_by P (xs[i := y])"
proof -
  have "P (xs[i := y] ! k) \<Longrightarrow> k = i" if "k < length xs" for k
    using assms that by (cases "k = i") (auto simp: position_None_nth)
  then show ?thesis unfolding unique_by_def by (metis length_list_update)
qed

lemma unique_by_update_not:
  assumes "unique_by P xs" and "\<not> P y"
  shows "unique_by P (xs[i := y])"
proof (rule unique_by_mono [OF assms(1)])
  fix k assume "k < length xs" "P (xs[i := y] ! k)"
  then show "P (xs ! k)" using assms(2) by (cases "k = i") auto
qed simp

lemma position_remove_unique:
  assumes "unique_by P xs" and "position P xs = Some i" and "\<not> P y"
  shows "position P (xs[i := y]) = None"
  using assms by (auto simp: position_unique position_None_nth nth_list_update dest: unique_byD)

lemma find_position: "find P xs = map_option (\<lambda>i. xs ! i) (position P xs)"
  by (induction xs) (auto simp: option.map_comp o_def)

lemma set_map_filter: "x \<in> set (List.map_filter f xs) \<longleftrightarrow> (\<exists>y \<in> set xs. f y = Some x)"
  by (force simp: List.map_filter_def)

section \<open>Counting and updating by index\<close>

definition count_by :: "('a \<Rightarrow> bool) \<Rightarrow> 'a list \<Rightarrow> nat" where
  "count_by P xs = length (filter P xs)"

lemma count_by_Nil [simp]: "count_by P [] = 0"
  and count_by_Cons [simp]: "count_by P (x # xs) = (if P x then Suc (count_by P xs) else count_by P xs)"
  by (simp_all add: count_by_def)

lemma count_by_le: "count_by P xs \<le> length xs"
  by (simp add: count_by_def)

lemma count_by_0: "count_by P xs = 0 \<longleftrightarrow> (\<forall>x\<in>set xs. \<not> P x)"
  by (induction xs) auto

lemma count_by_full: "count_by P xs = length xs \<longleftrightarrow> (\<forall>x\<in>set xs. P x)"
proof (induction xs)
  case (Cons x xs)
  then show ?case using count_by_le [of P xs] by auto
qed simp

lemma count_by_lt: "count_by P xs < length xs \<longleftrightarrow> (\<exists>x\<in>set xs. \<not> P x)"
  using count_by_le [of P xs] count_by_full [of P xs] by (auto simp: le_less)

lemma count_by_update:
  "i < length xs \<Longrightarrow>
     count_by P (xs[i := y]) + (if P (xs ! i) then 1 else 0) = count_by P xs + (if P y then 1 else 0)"
proof (induction xs arbitrary: i)
  case Nil
  then show ?case by simp
next
  case (Cons x xs)
  then show ?case by (cases i) (auto split: if_splits)
qed

lemma count_by_set [table_simps]:
  assumes "i < length xs" and "\<not> P (xs ! i)" and "P y"
  shows "count_by P (xs[i := y]) = Suc (count_by P xs)"
  using count_by_update [OF assms(1), of P y] assms by simp

lemma count_by_unset [table_simps]:
  assumes "i < length xs" and "P (xs ! i)" and "\<not> P y"
  shows "Suc (count_by P (xs[i := y])) = count_by P xs"
  using count_by_update [OF assms(1), of P y] assms by simp

lemma count_by_replicate [simp]: "count_by P (replicate n x) = (if P x then n else 0)"
  by (induction n) auto

lemma count_by_card: "count_by P xs = card {i. i < length xs \<and> P (xs ! i)}"
  by (simp add: count_by_def length_filter_conv_card)

lemma set_update_subset: "set (xs[i := y]) \<subseteq> insert y (set xs)"
  by (rule set_update_subset_insert)

lemma nth_update [table_simps]:
  "i < length xs \<Longrightarrow> xs[i := y] ! j = (if i = j then y else xs ! j)"
  by (auto simp: nth_list_update)

section \<open>The interface of a fixed-capacity table\<close>

text \<open>
  Every table of the nucleus (a capability space, the delegation ledger, the region table, the
  grants and mappings of a DMA domain) is an array whose free entries are recognised by a
  sentinel, filled at the first free index and emptied by index. The interface says what a
  client may rely on: insertion uses the least free index and changes nothing else, it is
  refused exactly when the value is not storable or no index is free, and removal empties
  exactly the named index.
\<close>

locale slot_store =
  fixes capacity :: "'t \<Rightarrow> nat"
    and lookup :: "'t \<Rightarrow> nat \<Rightarrow> 'v option"
    and insert :: "'v \<Rightarrow> 't \<Rightarrow> (nat \<times> 't) option"
    and remove :: "nat \<Rightarrow> 't \<Rightarrow> 't"
    and storable :: "'v \<Rightarrow> bool"
  assumes lookup_capacity: "lookup t i = Some v \<Longrightarrow> i < capacity t"
    and insert_None: "insert v t = None \<longleftrightarrow> \<not> storable v \<or> (\<forall>i<capacity t. lookup t i \<noteq> None)"
    and insert_least: "insert v t = Some (i, t') \<Longrightarrow> j < i \<Longrightarrow> lookup t j \<noteq> None"
    and insert_free: "insert v t = Some (i, t') \<Longrightarrow> i < capacity t \<and> lookup t i = None"
    and lookup_insert: "insert v t = Some (i, t') \<Longrightarrow> lookup t' = (lookup t)(i := Some v)"
    and capacity_insert: "insert v t = Some (i, t') \<Longrightarrow> capacity t' = capacity t"
    and lookup_remove: "lookup (remove i t) = (lookup t)(i := None)"
    and capacity_remove: "capacity (remove i t) = capacity t"
begin

lemma finite_live: "finite (dom (lookup t))"
  by (rule finite_subset [of _ "{..<capacity t}"]) (auto dest: lookup_capacity)

lemma live_bounded: "card (dom (lookup t)) \<le> capacity t"
proof -
  have "dom (lookup t) \<subseteq> {..<capacity t}" by (auto dest: lookup_capacity)
  from card_mono [OF _ this] show ?thesis by simp
qed

lemma insert_count:
  assumes "insert v t = Some (i, t')"
  shows "card (dom (lookup t')) = Suc (card (dom (lookup t)))"
  using lookup_insert [OF assms] insert_free [OF assms] finite_live [of t]
  by (simp add: domIff)

lemma remove_count:
  assumes "lookup t i \<noteq> None"
  shows "Suc (card (dom (lookup (remove i t)))) = card (dom (lookup t))"
proof -
  have "i \<in> dom (lookup t)" using assms by (simp add: domIff)
  from card.remove [OF finite_live this] show ?thesis by (simp add: lookup_remove)
qed

lemma insert_remove:
  assumes "insert v t = Some (i, t')"
  shows "lookup (remove i t') = lookup t"
  using lookup_insert [OF assms] insert_free [OF assms] by (auto simp: lookup_remove)

text \<open>A freed index is handed out again when every lower one is taken, and carries only the new value.\<close>

lemma reuse_freed:
  assumes "storable v" and "i < capacity t" and "\<And>j. j < i \<Longrightarrow> lookup t j \<noteq> None"
  shows "\<exists>t'. insert v (remove i t) = Some (i, t') \<and> lookup t' = (lookup t)(i := Some v)"
proof -
  have "insert v (remove i t) \<noteq> None"
    using assms by (auto simp: insert_None capacity_remove lookup_remove)
  then obtain k t' where ins: "insert v (remove i t) = Some (k, t')" by auto
  have "\<not> k < i" using assms(3) [of k] insert_free [OF ins] by (auto simp: lookup_remove)
  moreover have "\<not> i < k" using insert_least [OF ins, of i] by (auto simp: lookup_remove)
  ultimately have "k = i" by simp
  with ins lookup_insert [OF ins] show ?thesis by (simp add: lookup_remove)
qed

text \<open>
  Filling an empty table from a list puts entry \<open>k\<close> at index \<open>k\<close>, as long as every entry is
  storable and the list fits: the order of the list is the numbering a client sees.
\<close>

primrec insert_all :: "'v list \<Rightarrow> 't \<Rightarrow> 't" where
  "insert_all [] t = t"
| "insert_all (v # vs) t = insert_all vs (case insert v t of Some (_, t') \<Rightarrow> t' | None \<Rightarrow> t)"

lemma insert_at_frontier:
  assumes "storable v" and "n < capacity t" and "dom (lookup t) = {..<n}"
  obtains t' where "insert v t = Some (n, t')" and "dom (lookup t') = {..<Suc n}"
    and "lookup t' = (lookup t)(n := Some v)" and "capacity t' = capacity t"
proof -
  have free: "lookup t n = None" and below: "\<And>j. j < n \<Longrightarrow> lookup t j \<noteq> None"
    using assms(3) by (auto simp: set_eq_iff domIff)
  have "insert v t \<noteq> None"
    using assms(1,2) free by (auto simp: insert_None)
  then obtain k t' where ins: "insert v t = Some (k, t')" by auto
  have "k = n"
    using below [of k] insert_free [OF ins] insert_least [OF ins, of n] free by (cases k n rule: linorder_cases) auto
  with ins show thesis
    using that [of t'] lookup_insert [OF ins] capacity_insert [OF ins] assms(3) by (simp add: lessThan_Suc)
qed

lemma insert_all_in_order:
  assumes "\<forall>v\<in>set vs. storable v" and "dom (lookup t) = {..<n}" and "n + length vs \<le> capacity t"
  shows "lookup (insert_all vs t) =
           (\<lambda>i. if n \<le> i \<and> i < n + length vs then Some (vs ! (i - n)) else lookup t i)"
  using assms
proof (induction vs arbitrary: t n)
  case Nil
  have "(\<lambda>i. if n \<le> i \<and> i < n + length [] then Some ([] ! (i - n)) else lookup t i) = lookup t"
    by (rule ext) auto
  then show ?case by simp
next
  case (Cons v vs)
  from Cons.prems obtain t' where t': "insert v t = Some (n, t')" "dom (lookup t') = {..<Suc n}"
      "lookup t' = (lookup t)(n := Some v)" "capacity t' = capacity t"
    by (auto elim: insert_at_frontier [of v n t])
  have "lookup (insert_all vs t') =
      (\<lambda>i. if Suc n \<le> i \<and> i < Suc n + length vs then Some (vs ! (i - Suc n)) else lookup t' i)"
  proof (rule Cons.IH)
    show "\<forall>v\<in>set vs. storable v" using Cons.prems(1) by simp
    show "dom (lookup t') = {..<Suc n}" by (rule t'(2))
    show "Suc n + length vs \<le> capacity t'" using Cons.prems(3) t'(4) by simp
  qed
  then show ?case
    using t' by (auto simp: fun_eq_iff nth_Cons diff_Suc split: nat.splits)
qed

end

end
