(* ===== verification/Abi.thy ===== *)
theory Abi
  imports Prelude
begin

text \<open>
  The shared vocabulary of the nucleus crates (src/crates/abi): pages and addresses, the boot
  memory map, capability types and rights, IPC message headers, syscall numbers and result
  codes. \<open>PhysAddr\<close>, \<open>VirtAddr\<close>, \<open>CapId\<close> and \<open>ThreadId\<close> are newtypes of the integer they
  wrap and are modelled by it. The theorems are the rights lattice (attenuation never amplifies)
  and the disjointness of result codes from ordinary results.
\<close>

unbundle bit_operations_syntax

section \<open>Pages and addresses\<close>

definition PAGE_SIZE :: u64 where "PAGE_SIZE = 4096"
definition PAGE_SHIFT :: nat where "PAGE_SHIFT = 12"

type_synonym PhysAddr = u64
type_synonym VirtAddr = u64

definition frame_number :: "PhysAddr \<Rightarrow> u64" where
  "frame_number pa = drop_bit PAGE_SHIFT pa"

definition is_page_aligned :: "u64 \<Rightarrow> bool" where
  "is_page_aligned a \<longleftrightarrow> a AND (PAGE_SIZE - 1) = 0"

definition table_index :: "VirtAddr \<Rightarrow> nat \<Rightarrow> usize" where
  "table_index va level = unat (drop_bit (PAGE_SHIFT + 9 * level) va AND 0x1ff)"

section \<open>The boot memory map\<close>

datatype MemoryKind = Usable | Reserved | AcpiReclaimable | AcpiNvs | Unusable

record MemoryRegion =
  mr_start :: u64
  mr_len :: u64
  mr_kind :: MemoryKind

text \<open>\<open>start + len\<close> on \<open>u64\<close>: the release build wraps.\<close>

definition MemoryRegion_end :: "MemoryRegion \<Rightarrow> u64" where
  "MemoryRegion_end r = mr_start r + mr_len r"

section \<open>Capability types and rights\<close>

datatype CapType =
    CapNull | Untyped | CapFrame | CapPageTable | CapEndpoint | Notification | Tcb | IommuDomain
  | Mmio | CapRegion | Irq

type_synonym CapRights = u8

definition RIGHTS_NONE :: CapRights where "RIGHTS_NONE = 0"
definition RIGHTS_READ :: CapRights where "RIGHTS_READ = 1"
definition RIGHTS_WRITE :: CapRights where "RIGHTS_WRITE = 2"
definition RIGHTS_GRANT :: CapRights where "RIGHTS_GRANT = 4"
definition RIGHTS_ALL :: CapRights where "RIGHTS_ALL = 7"

lemmas rights_defs = RIGHTS_NONE_def RIGHTS_READ_def RIGHTS_WRITE_def RIGHTS_GRANT_def RIGHTS_ALL_def

definition CapRights_contains :: "CapRights \<Rightarrow> CapRights \<Rightarrow> bool" where
  "CapRights_contains r other \<longleftrightarrow> r AND other = other"

definition CapRights_intersect :: "CapRights \<Rightarrow> CapRights \<Rightarrow> CapRights" where
  "CapRights_intersect r other = r AND other"

definition CapRights_from_user :: "u64 \<Rightarrow> CapRights" where
  "CapRights_from_user w = ucast w AND RIGHTS_ALL"

type_synonym CapId = usize

section \<open>Threads, messages, result codes\<close>

definition MAX_MSG_BYTES :: usize where "MAX_MSG_BYTES = 128"
definition REGION_QUOTA :: usize where "REGION_QUOTA = 6"

type_synonym ThreadId = usize

record MessageInfo =
  mi_label :: u64
  mi_length :: u16

definition sys_DEBUG_WRITE :: u64 where "sys_DEBUG_WRITE = 0"
definition sys_EXIT :: u64 where "sys_EXIT = 1"
definition sys_GET_INFO :: u64 where "sys_GET_INFO = 2"
definition sys_MAP_BAR :: u64 where "sys_MAP_BAR = 3"
definition sys_YIELD :: u64 where "sys_YIELD = 5"
definition sys_SEND :: u64 where "sys_SEND = 6"
definition sys_RECV :: u64 where "sys_RECV = 7"
definition sys_SPAWN :: u64 where "sys_SPAWN = 8"
definition NO_DELEGATE :: u64 where "NO_DELEGATE = - 1"
definition sys_POLL_IRQ :: u64 where "sys_POLL_IRQ = 11"
definition sys_WAIT_IRQ :: u64 where "sys_WAIT_IRQ = 12"
definition sys_MAKE_REGION :: u64 where "sys_MAKE_REGION = 13"
definition sys_MAP_REGION :: u64 where "sys_MAP_REGION = 14"
definition sys_UNMAP_REGION :: u64 where "sys_UNMAP_REGION = 15"
definition sys_FREE_REGION :: u64 where "sys_FREE_REGION = 16"
definition sys_MAP_DMA :: u64 where "sys_MAP_DMA = 17"
definition sys_UNMAP_DMA :: u64 where "sys_UNMAP_DMA = 18"
definition sys_REVOKE :: u64 where "sys_REVOKE = 10"

definition err_OK :: u64 where "err_OK = 0"
definition err_BAD_SYSCALL :: u64 where "err_BAD_SYSCALL = - 1"
definition err_NO_CAP :: u64 where "err_NO_CAP = - 1 - 1"
definition err_NO_MEM :: u64 where "err_NO_MEM = - 1 - 2"
definition err_FAULT :: u64 where "err_FAULT = - 1 - 3"

lemmas err_defs = err_OK_def err_BAD_SYSCALL_def err_NO_CAP_def err_NO_MEM_def err_FAULT_def

definition spawn_NO_CAP :: u64 where "spawn_NO_CAP = - 1"
definition spawn_NO_DELEGATE :: u64 where "spawn_NO_DELEGATE = - 1 - 1"
definition spawn_NO_SLOT :: u64 where "spawn_NO_SLOT = - 1 - 2"
definition spawn_NO_MEM :: u64 where "spawn_NO_MEM = - 1 - 3"

definition spawn_failed :: "u64 \<Rightarrow> bool" where
  "spawn_failed ret \<longleftrightarrow> ret \<ge> spawn_NO_MEM"

record GpuInfo =
  pci_vendor :: u16
  pci_device :: u16
  gfx_version :: u32
  vram_bytes :: u64

record MapBarResp =
  bar_user_va :: u64
  bar_size :: u64

section \<open>The rights lattice\<close>

lemma contains_bits:
  "CapRights_contains r q \<longleftrightarrow> (\<forall>n<8. bit q n \<longrightarrow> bit r n)"
  by (auto simp: CapRights_contains_def bit_eq_iff bit_and_iff)

lemma contains_refl [simp]: "CapRights_contains r r"
  by (simp add: CapRights_contains_def)

lemma contains_trans:
  "CapRights_contains r q \<Longrightarrow> CapRights_contains q p \<Longrightarrow> CapRights_contains r p"
  by (simp add: contains_bits)

lemma contains_NONE [simp]: "CapRights_contains r RIGHTS_NONE"
  by (simp add: CapRights_contains_def RIGHTS_NONE_def)

lemma intersect_bits: "bit (CapRights_intersect r q) n \<longleftrightarrow> bit r n \<and> bit q n"
  by (simp add: CapRights_intersect_def bit_and_iff)

lemma from_user_ALL: "CapRights_contains RIGHTS_ALL (CapRights_from_user w)"
  by (auto simp: contains_bits CapRights_from_user_def bit_and_iff)

text \<open>
  Attenuation is the greatest lower bound of the rights lattice: the rights a delegation
  hands over are covered by what the parent holds and by what was asked for, they are the widest
  such rights, and rights built from an untrusted user word never leave the defined rights.
\<close>

theorem rights_attenuation_glb:
  "CapRights_contains r (CapRights_intersect r q)
   \<and> CapRights_contains q (CapRights_intersect r q)
   \<and> (CapRights_contains r p \<and> CapRights_contains q p
        \<longleftrightarrow> CapRights_contains (CapRights_intersect r q) p)
   \<and> CapRights_contains RIGHTS_ALL (CapRights_intersect r (CapRights_from_user w))"
proof -
  have "CapRights_contains RIGHTS_ALL (CapRights_intersect r (CapRights_from_user w))"
    using from_user_ALL [of w] by (auto simp: contains_bits intersect_bits)
  then show ?thesis by (auto simp: contains_bits intersect_bits)
qed

end
