(* ===== verification/Capabilities.thy ===== *)
theory Capabilities
  imports Abi
begin

text \<open>
  Capability spaces (src/crates/capabilities): a fixed array of slots addressed by index, free
  slots marked by the null type. The model follows the crate operation by operation; the laws of
  a table are discharged here for it (the interpretation \<open>capspace\<close>), which gives the round
  trips, the exactness of revocation and the numbering of a table of grants.
\<close>

section \<open>Slots and spaces\<close>

record CapSlot =
  cap_type :: CapType
  rights :: CapRights
  object :: u64

definition CapSlot_EMPTY :: CapSlot where
  "CapSlot_EMPTY = \<lparr>cap_type = CapNull, rights = RIGHTS_NONE, object = 0\<rparr>"

definition CapSlot_is_free :: "CapSlot \<Rightarrow> bool" where
  "CapSlot_is_free s \<longleftrightarrow> cap_type s = CapNull"

record CapSpace =
  slots :: "CapSlot list"

section \<open>Operations\<close>

definition CapSpace_new :: "nat \<Rightarrow> CapSpace" where
  "CapSpace_new n = \<lparr>slots = replicate n CapSlot_EMPTY\<rparr>"

definition CapSpace_capacity :: "CapSpace \<Rightarrow> nat" where
  "CapSpace_capacity cs = length (slots cs)"

definition CapSpace_len :: "CapSpace \<Rightarrow> nat" where
  "CapSpace_len cs = count_by (\<lambda>s. \<not> CapSlot_is_free s) (slots cs)"

definition CapSpace_is_empty :: "CapSpace \<Rightarrow> bool" where
  "CapSpace_is_empty cs \<longleftrightarrow> CapSpace_len cs = 0"

definition CapSpace_first_free :: "CapSpace \<Rightarrow> nat option" where
  "CapSpace_first_free cs = position CapSlot_is_free (slots cs)"

text \<open>Insertion: \<open>None\<close> leaves the space as it was.\<close>

definition CapSpace_insert ::
    "CapType \<Rightarrow> CapRights \<Rightarrow> u64 \<Rightarrow> CapSpace \<Rightarrow> (CapId \<times> CapSpace) option" where
  "CapSpace_insert t r ob cs =
     (if t = CapNull then None
      else case CapSpace_first_free cs of
        None \<Rightarrow> None
      | Some idx \<Rightarrow>
          Some (idx, cs\<lparr>slots := (slots cs)[idx := \<lparr>cap_type = t, rights = r, object = ob\<rparr>]\<rparr>))"

definition CapSpace_lookup :: "CapSpace \<Rightarrow> CapId \<Rightarrow> CapSlot option" where
  "CapSpace_lookup cs idx =
     (if idx < length (slots cs) \<and> \<not> CapSlot_is_free (slots cs ! idx) then Some (slots cs ! idx)
      else None)"

definition CapSpace_revoke :: "CapId \<Rightarrow> CapSpace \<Rightarrow> CapSpace" where
  "CapSpace_revoke idx cs =
     (if idx \<ge> length (slots cs) then cs else cs\<lparr>slots := (slots cs)[idx := CapSlot_EMPTY]\<rparr>)"

lemmas CapSpace_defs = CapSpace_capacity_def CapSpace_first_free_def CapSpace_insert_def
  CapSpace_lookup_def CapSpace_revoke_def

lemma EMPTY_is_free [simp]: "CapSlot_is_free CapSlot_EMPTY"
  by (simp add: CapSlot_is_free_def CapSlot_EMPTY_def)

lemma is_free_make [simp]:
  "CapSlot_is_free \<lparr>cap_type = t, rights = r, object = ob\<rparr> \<longleftrightarrow> t = CapNull"
  by (simp add: CapSlot_is_free_def)

lemma lookup_new [simp]: "CapSpace_lookup (CapSpace_new n) i = None"
  by (simp add: CapSpace_lookup_def CapSpace_new_def)

lemma lookup_live:
  "CapSpace_lookup cs i = Some s \<Longrightarrow> \<not> CapSlot_is_free s \<and> i < CapSpace_capacity cs"
  by (auto simp: CapSpace_defs split: if_splits)

section \<open>The laws of a table\<close>

lemma insert_SomeD:
  assumes "CapSpace_insert t r ob cs = Some (i, cs')"
  shows "t \<noteq> CapNull" and "i < length (slots cs)" and "CapSlot_is_free (slots cs ! i)"
    and "\<And>j. j < i \<Longrightarrow> \<not> CapSlot_is_free (slots cs ! j)"
    and "cs' = cs\<lparr>slots := (slots cs)[i := \<lparr>cap_type = t, rights = r, object = ob\<rparr>]\<rparr>"
  using assms
  by (auto simp: CapSpace_insert_def CapSpace_first_free_def position_Some
      split: if_splits option.splits)

interpretation capspace: slot_store CapSpace_capacity CapSpace_lookup
  "\<lambda>s. CapSpace_insert (cap_type s) (rights s) (object s)" CapSpace_revoke
  "\<lambda>s. \<not> CapSlot_is_free s"
proof (unfold_locales, goal_cases)
  case (1 cs i v)
  then show ?case by (auto simp: CapSpace_defs split: if_splits)
next
  case (2 v cs)
  then show ?case
    using position_None_nth [of CapSlot_is_free "slots cs"]
    by (auto simp: CapSpace_insert_def CapSpace_first_free_def CapSpace_lookup_def
        CapSpace_capacity_def CapSlot_is_free_def [of v] split: option.splits)
next
  case (3 v cs i cs' j)
  then show ?case using insert_SomeD(2,4) [OF 3(1)] by (auto simp: CapSpace_lookup_def)
next
  case (4 v cs i cs')
  from insert_SomeD [OF 4] show ?case by (auto simp: CapSpace_defs)
next
  case (5 v cs i cs')
  from insert_SomeD [OF 5] show ?case
    by (auto simp: CapSpace_lookup_def fun_eq_iff nth_list_update)
next
  case (6 v cs i cs')
  from insert_SomeD [OF 6] show ?case by (simp add: CapSpace_capacity_def)
next
  case (7 i cs)
  show ?case by (auto simp: CapSpace_lookup_def CapSpace_revoke_def fun_eq_iff nth_list_update)
next
  case (8 i cs)
  show ?case by (simp add: CapSpace_defs)
qed

lemma CapSpace_len_card: "CapSpace_len cs = card (dom (CapSpace_lookup cs))"
  by (auto simp: CapSpace_len_def count_by_card CapSpace_lookup_def dom_def intro!: arg_cong [of _ _ card])

lemma lookup_insert_as:
  assumes "CapSpace_insert t r ob cs = Some (i, cs')"
  shows "CapSpace_lookup cs' = (CapSpace_lookup cs)(i := Some \<lparr>cap_type = t, rights = r, object = ob\<rparr>)"
  using capspace.lookup_insert [of "\<lparr>cap_type = t, rights = r, object = ob\<rparr>" cs i cs'] assms by simp

section \<open>Properties\<close>

text \<open>
  A capability space behaves as a partial map: insertion stores exactly the given type,
  rights and object at the least free index and disturbs no other slot; it is refused exactly for
  the null type or a full space; the number of live capabilities grows by one.
\<close>

theorem CapSpace_insert_correct:
  "case CapSpace_insert t r ob cs of
     None \<Rightarrow> t = CapNull \<or> CapSpace_len cs = CapSpace_capacity cs
   | Some (i, cs') \<Rightarrow>
       t \<noteq> CapNull \<and> CapSpace_lookup cs i = None
       \<and> (\<forall>j. j < i \<longrightarrow> CapSpace_lookup cs j \<noteq> None)
       \<and> CapSpace_lookup cs' = (CapSpace_lookup cs)(i := Some \<lparr>cap_type = t, rights = r, object = ob\<rparr>)
       \<and> CapSpace_len cs' = Suc (CapSpace_len cs) \<and> CapSpace_capacity cs' = CapSpace_capacity cs"
proof (cases "CapSpace_insert t r ob cs")
  case None
  then have "t = CapNull \<or> (\<forall>i<CapSpace_capacity cs. CapSpace_lookup cs i \<noteq> None)"
    using capspace.insert_None [of "\<lparr>cap_type = t, rights = r, object = ob\<rparr>" cs] by simp
  then have "t = CapNull \<or> dom (CapSpace_lookup cs) = {..<CapSpace_capacity cs}"
    by (auto dest: capspace.lookup_capacity)
  then show ?thesis using None by (auto simp: CapSpace_len_card)
next
  case (Some p)
  obtain i cs' where p: "p = (i, cs')" by (cases p)
  let ?s = "\<lparr>cap_type = t, rights = r, object = ob\<rparr>"
  have ins: "CapSpace_insert (cap_type ?s) (rights ?s) (object ?s) cs = Some (i, cs')"
    using Some p by simp
  from insert_SomeD(1) [OF ins] capspace.insert_free [OF ins] capspace.insert_least [OF ins]
    capspace.lookup_insert [OF ins] capspace.insert_count [OF ins] capspace.capacity_insert [OF ins]
  show ?thesis by (simp add: Some p CapSpace_len_card)
qed

theorem CapSpace_insert_correct_witness:
  "CapSpace_insert Mmio RIGHTS_ALL 7 (CapSpace_new 2)
     = Some (0, \<lparr>slots = [\<lparr>cap_type = Mmio, rights = RIGHTS_ALL, object = 7\<rparr>, CapSlot_EMPTY]\<rparr>)
   \<and> CapSpace_len \<lparr>slots = [\<lparr>cap_type = Mmio, rights = RIGHTS_ALL, object = 7\<rparr>, CapSlot_EMPTY]\<rparr> = 1"
proof -
  have ins: "CapSpace_insert Mmio RIGHTS_ALL 7 (CapSpace_new 2)
     = Some (0, \<lparr>slots = [\<lparr>cap_type = Mmio, rights = RIGHTS_ALL, object = 7\<rparr>, CapSlot_EMPTY]\<rparr>)"
    by (simp add: CapSpace_insert_def CapSpace_first_free_def CapSpace_new_def numeral_2_eq_2)
  moreover have "CapSpace_len (CapSpace_new 2) = 0"
    by (simp add: CapSpace_len_def CapSpace_new_def)
  ultimately show ?thesis
    using CapSpace_insert_correct
      [where t = Mmio and r = RIGHTS_ALL and ob = 7 and cs = "CapSpace_new 2"] by simp
qed

text \<open>
  Revocation is exact: it empties the named slot, leaves every other slot (a sibling naming
  the same object included) as it was, ignores an index out of range, and the freed slot carries
  nothing over: when it is the least free one, the next insertion lands there with its own rights.
\<close>

theorem CapSpace_revoke_exact:
  "CapSpace_lookup (CapSpace_revoke i cs) = (CapSpace_lookup cs)(i := None)
   \<and> CapSpace_capacity (CapSpace_revoke i cs) = CapSpace_capacity cs
   \<and> (i < CapSpace_capacity cs \<longrightarrow> slots (CapSpace_revoke i cs) ! i = CapSlot_EMPTY)
   \<and> (t \<noteq> CapNull \<and> i < CapSpace_capacity cs \<and> (\<forall>j<i. CapSpace_lookup cs j \<noteq> None) \<longrightarrow>
       (\<exists>cs'. CapSpace_insert t r ob (CapSpace_revoke i cs) = Some (i, cs')
          \<and> CapSpace_lookup cs' = (CapSpace_lookup cs)(i := Some \<lparr>cap_type = t, rights = r, object = ob\<rparr>)))"
  using capspace.lookup_remove [of i cs] capspace.capacity_remove [of i cs]
    capspace.reuse_freed [of "\<lparr>cap_type = t, rights = r, object = ob\<rparr>" i cs]
  by (auto simp: CapSpace_revoke_def CapSpace_capacity_def)

theorem CapSpace_revoke_exact_witness:
  "let cs = \<lparr>slots = [\<lparr>cap_type = Mmio, rights = 7, object = 9\<rparr>, \<lparr>cap_type = Mmio, rights = 2, object = 9\<rparr>]\<rparr>
   in CapSpace_lookup (CapSpace_revoke 0 cs) 0 = None
      \<and> CapSpace_lookup (CapSpace_revoke 0 cs) 1 = Some \<lparr>cap_type = Mmio, rights = 2, object = 9\<rparr>
      \<and> (\<exists>cs'. CapSpace_insert Irq 1 4 (CapSpace_revoke 0 cs) = Some (0, cs'))"
proof -
  let ?cs = "\<lparr>slots = [\<lparr>cap_type = Mmio, rights = 7, object = 9\<rparr>, \<lparr>cap_type = Mmio, rights = 2, object = 9\<rparr>]\<rparr>"
  have "CapSpace_lookup ?cs 1 = Some \<lparr>cap_type = Mmio, rights = 2, object = 9\<rparr>"
    and "CapSpace_capacity ?cs = 2"
    by (simp_all add: CapSpace_lookup_def CapSpace_capacity_def)
  with CapSpace_revoke_exact [where i = 0 and cs = ?cs and t = Irq and r = 1 and ob = 4]
  show ?thesis by (auto simp: Let_def)
qed

end
