(* ===== verification/Deleg.thy ===== *)
theory Deleg
  imports Prelude
begin

text \<open>
  The delegation ledger (src/crates/deleg): a fixed array of edges from the capability a process
  delegated to the capability the child received, both ends carrying the process identity.
  \<open>revoke_from\<close> is the fixpoint of full passes over the array, \<open>splice_out\<close> re-parents the edges
  of a dead process. The theorems compare them with the transitive closure of the live edges.
\<close>

section \<open>Endpoints, edges and the ledger\<close>

record DEndpoint =
  ep_proc :: usize
  ep_id :: u64
  ep_cap :: usize

definition DEndpoint_new :: "usize \<Rightarrow> u64 \<Rightarrow> usize \<Rightarrow> DEndpoint" where
  "DEndpoint_new p i c = \<lparr>ep_proc = p, ep_id = i, ep_cap = c\<rparr>"

definition same_proc :: "DEndpoint \<Rightarrow> usize \<Rightarrow> u64 \<Rightarrow> bool" where
  "same_proc e p i \<longleftrightarrow> ep_proc e = p \<and> ep_id e = i"

record Edge =
  parent :: DEndpoint
  child :: DEndpoint
  live :: bool

definition DEAD :: Edge where
  "DEAD = \<lparr>parent = DEndpoint_new 0 0 0, child = DEndpoint_new 0 0 0, live = False\<rparr>"

record Ledger =
  edges :: "Edge list"

section \<open>Operations\<close>

definition Ledger_new :: "nat \<Rightarrow> Ledger" where
  "Ledger_new n = \<lparr>edges = replicate n DEAD\<rparr>"

definition Ledger_capacity :: "Ledger \<Rightarrow> nat" where
  "Ledger_capacity l = length (edges l)"

definition Ledger_len :: "Ledger \<Rightarrow> nat" where
  "Ledger_len l = count_by live (edges l)"

definition Ledger_is_empty :: "Ledger \<Rightarrow> bool" where
  "Ledger_is_empty l \<longleftrightarrow> Ledger_len l = 0"

definition Ledger_record :: "DEndpoint \<Rightarrow> DEndpoint \<Rightarrow> Ledger \<Rightarrow> bool \<times> Ledger" where
  "Ledger_record p c l =
     (case position (\<lambda>e. \<not> live e) (edges l) of
        Some i \<Rightarrow> (True, l\<lparr>edges := (edges l)[i := \<lparr>parent = p, child = c, live = True\<rparr>]\<rparr>)
      | None \<Rightarrow> (False, l))"

text \<open>
  One pass of the revocation loop over the array. The output slice \<open>out[..n]\<close> is the list of
  endpoints written so far and \<open>cap\<close> its capacity \<open>out.len()\<close>; the flag is the loop's
  \<open>progress\<close>.
\<close>

fun revoke_pass ::
    "DEndpoint \<Rightarrow> nat \<Rightarrow> DEndpoint list \<Rightarrow> Edge list \<Rightarrow> bool \<times> DEndpoint list \<times> Edge list" where
  "revoke_pass root cap out [] = (False, out, [])"
| "revoke_pass root cap out (e # es) =
     (if \<not> live e \<or> (parent e \<noteq> root \<and> parent e \<notin> set out)
      then (case revoke_pass root cap out es of (pr, out', es') \<Rightarrow> (pr, out', e # es'))
      else (case revoke_pass root cap (if length out < cap then out @ [child e] else out) es of
              (pr, out', es') \<Rightarrow> (True, out', e\<lparr>live := False\<rparr> # es')))"

lemma revoke_pass_live_le:
  "revoke_pass root cap out es = (pr, out', es') \<Longrightarrow> count_by live es' \<le> count_by live es"
  by (induction es arbitrary: out pr out' es') (auto split: if_splits prod.splits intro: le_SucI)

lemma revoke_pass_progress:
  "revoke_pass root cap out es = (True, out', es') \<Longrightarrow> count_by live es' < count_by live es"
proof (induction es arbitrary: out out' es')
  case (Cons e es)
  then show ?case
    by (fastforce split: if_splits prod.splits dest: revoke_pass_live_le simp: less_Suc_eq_le)
qed simp

function revoke_loop ::
    "DEndpoint \<Rightarrow> nat \<Rightarrow> DEndpoint list \<Rightarrow> Edge list \<Rightarrow> DEndpoint list \<times> Edge list" where
  "revoke_loop root cap out es =
     (case revoke_pass root cap out es of
        (pr, out', es') \<Rightarrow> if pr then revoke_loop root cap out' es' else (out', es'))"
  by pat_completeness auto
termination
  by (relation "measure (\<lambda>(root, cap, out, es). count_by live es)") (auto dest: revoke_pass_progress [OF sym])

declare revoke_loop.simps [simp del]

definition Ledger_revoke_from :: "DEndpoint \<Rightarrow> nat \<Rightarrow> Ledger \<Rightarrow> DEndpoint list \<times> Ledger" where
  "Ledger_revoke_from root cap l =
     (case revoke_loop root cap [] (edges l) of (out, es) \<Rightarrow> (out, l\<lparr>edges := es\<rparr>))"

definition reparent :: "Edge \<Rightarrow> Edge \<Rightarrow> Edge" where
  "reparent inc out =
     (if live out \<and> parent out = child inc then out\<lparr>parent := parent inc\<rparr> else out)"

definition splice_step :: "usize \<Rightarrow> u64 \<Rightarrow> nat \<Rightarrow> Edge list \<Rightarrow> Edge list" where
  "splice_step p i k es =
     (let inc = es ! k in
      if \<not> live inc \<or> \<not> same_proc (child inc) p i then es
      else (map (reparent inc) es)[k := (map (reparent inc) es ! k)\<lparr>live := False\<rparr>])"

definition drop_rooted :: "usize \<Rightarrow> u64 \<Rightarrow> Edge \<Rightarrow> Edge" where
  "drop_rooted p i e = (if live e \<and> same_proc (parent e) p i then e\<lparr>live := False\<rparr> else e)"

definition Ledger_splice_out :: "usize \<Rightarrow> u64 \<Rightarrow> Ledger \<Rightarrow> Ledger" where
  "Ledger_splice_out p i l =
     l\<lparr>edges := map (drop_rooted p i) (fold (splice_step p i) [0..<length (edges l)] (edges l))\<rparr>"

definition Ledger_forget :: "DEndpoint \<Rightarrow> Ledger \<Rightarrow> Ledger" where
  "Ledger_forget end l =
     l\<lparr>edges := map (\<lambda>e. if live e \<and> (parent e = end \<or> child e = end)
                         then e\<lparr>live := False\<rparr> else e) (edges l)\<rparr>"

definition Ledger_live_edges :: "Ledger \<Rightarrow> (DEndpoint \<times> DEndpoint) list" where
  "Ledger_live_edges l = map (\<lambda>e. (parent e, child e)) (filter live (edges l))"


section \<open>The graph of live delegations\<close>

abbreviation graph :: "Ledger \<Rightarrow> (DEndpoint \<times> DEndpoint) set" where
  "graph l \<equiv> set (Ledger_live_edges l)"

abbreviation reach :: "Ledger \<Rightarrow> DEndpoint \<Rightarrow> DEndpoint set" where
  "reach l root \<equiv> {c. (root, c) \<in> (graph l)\<^sup>+}"

definition live_pairs :: "Edge list \<Rightarrow> (DEndpoint \<times> DEndpoint) list" where
  "live_pairs es = map (\<lambda>e. (parent e, child e)) (filter live es)"

lemma live_edges_pairs: "Ledger_live_edges l = live_pairs (edges l)"
  by (simp add: Ledger_live_edges_def live_pairs_def)

lemma live_pairs_simps [simp]:
  "live_pairs [] = []"
  "live_pairs (e # es) = (if live e then (parent e, child e) # live_pairs es else live_pairs es)"
  by (simp_all add: live_pairs_def)

lemma length_live_pairs: "length (live_pairs es) = count_by live es"
  by (simp add: live_pairs_def count_by_def)

lemma set_live_pairs: "set (live_pairs es) = {(parent e, child e) | e. e \<in> set es \<and> live e}"
  by (auto simp: live_pairs_def)

section \<open>Revocation computes the closure\<close>

text \<open>What a pass may do to one edge: nothing, or kill it because its parent was reached.\<close>

definition killed_by :: "DEndpoint \<Rightarrow> DEndpoint set \<Rightarrow> Edge \<Rightarrow> Edge \<Rightarrow> bool" where
  "killed_by root X e0 e \<longleftrightarrow>
     e = e0 \<or> (live e0 \<and> e = e0\<lparr>live := False\<rparr> \<and> parent e0 \<in> insert root X \<and> child e0 \<in> X)"

lemma killed_by_refl [simp]: "killed_by root X e e"
  by (simp add: killed_by_def)

lemma killed_by_mono: "killed_by root X e0 e \<Longrightarrow> X \<subseteq> Y \<Longrightarrow> killed_by root Y e0 e"
  by (auto simp: killed_by_def)

lemma killed_by_trans:
  "killed_by root X e0 e1 \<Longrightarrow> killed_by root X e1 e2 \<Longrightarrow> killed_by root X e0 e2"
  by (auto simp: killed_by_def)

lemma revoke_pass_kills:
  assumes "revoke_pass root cap out es = (pr, out', es')" and "length out + count_by live es \<le> cap"
  shows "set out \<subseteq> set out' \<and> list_all2 (killed_by root (set out')) es es'
         \<and> length out' + count_by live es' = length out + count_by live es"
  using assms
proof (induction es arbitrary: out pr out' es')
  case (Cons e es)
  show ?case
  proof (cases "\<not> live e \<or> (parent e \<noteq> root \<and> parent e \<notin> set out)")
    case True
    with Cons.prems obtain es1 where "revoke_pass root cap out es = (pr, out', es1)" "es' = e # es1"
      by (auto split: prod.splits)
    with Cons.IH [of out pr out' es1] Cons.prems(2) show ?thesis by (auto split: if_splits)
  next
    case False
    with Cons.prems obtain pr1 es1 where pass: "revoke_pass root cap (out @ [child e]) es = (pr1, out', es1)"
      and es': "es' = e\<lparr>live := False\<rparr> # es1" by (auto split: prod.splits)
    from Cons.IH [OF pass] False Cons.prems(2)
    show ?thesis by (auto simp: es' killed_by_def)
  qed
qed auto

lemma revoke_pass_sound:
  assumes "revoke_pass root cap out es = (pr, out', es')" and "set out \<subseteq> S"
    and "\<And>e. e \<in> set es \<Longrightarrow> live e \<Longrightarrow> parent e \<in> insert root S \<Longrightarrow> child e \<in> S"
  shows "set out' \<subseteq> S"
  using assms
proof (induction es arbitrary: out pr out' es')
  case (Cons e es)
  show ?case
  proof (cases "\<not> live e \<or> (parent e \<noteq> root \<and> parent e \<notin> set out)")
    case True
    with Cons.prems(1) obtain es1 where "revoke_pass root cap out es = (pr, out', es1)"
      by (auto split: prod.splits)
    then show ?thesis by (rule Cons.IH) (use Cons.prems in auto)
  next
    case False
    with Cons.prems(1) obtain pr1 es1 where pass:
      "revoke_pass root cap (if length out < cap then out @ [child e] else out) es = (pr1, out', es1)"
      by (auto split: prod.splits)
    have "child e \<in> S" using False Cons.prems(2,3) by auto
    then show ?thesis by (intro Cons.IH [OF pass]) (use Cons.prems in auto)
  qed
qed auto

lemma revoke_pass_done:
  assumes "revoke_pass root cap out es = (False, out', es')"
  shows "out' = out \<and> es' = es \<and> (\<forall>e\<in>set es. live e \<longrightarrow> parent e \<noteq> root \<and> parent e \<notin> set out)"
  using assms by (induction es arbitrary: out' es') (auto split: if_splits prod.splits)

lemma killed_by_live: "killed_by root X e0 e \<Longrightarrow> live e \<Longrightarrow> e = e0"
  by (auto simp: killed_by_def)

lemma killed_by_pairs:
  "list_all2 (killed_by root X) es0 es \<Longrightarrow> set (live_pairs es) \<subseteq> set (live_pairs es0)"
  by (induction rule: list_all2_induct) (auto dest: killed_by_live)

lemma revoke_loop_inv:
  assumes "revoke_loop root cap out es = (out', es')" and "length out + count_by live es \<le> cap"
    and "set out \<subseteq> S"
    and "\<And>p c. (p, c) \<in> set (live_pairs es) \<Longrightarrow> p \<in> insert root S \<Longrightarrow> c \<in> S"
  shows "list_all2 (killed_by root (set out')) es es' \<and> set out \<subseteq> set out' \<and> set out' \<subseteq> S
         \<and> length out' + count_by live es' = length out + count_by live es
         \<and> (\<forall>e\<in>set es'. live e \<longrightarrow> parent e \<notin> insert root (set out'))"
  using assms
proof (induction root cap out es arbitrary: out' es' rule: revoke_loop.induct)
  case (1 root cap out es)
  obtain pr out1 es1 where pass: "revoke_pass root cap out es = (pr, out1, es1)"
    by (cases "revoke_pass root cap out es") auto
  note kills = revoke_pass_kills [OF pass "1.prems"(2)]
  have sound: "set out1 \<subseteq> S"
    by (rule revoke_pass_sound [OF pass "1.prems"(3)]) (use "1.prems"(4) in \<open>auto simp: set_live_pairs\<close>)
  show ?case
  proof (cases pr)
    case False
    with pass "1.prems"(1) have "out' = out1" "es' = es1"
      by (auto simp: revoke_loop.simps [of root cap out es])
    with kills sound revoke_pass_done [of root cap out es out1 es1] pass False
    show ?thesis by auto
  next
    case True
    from True pass "1.prems"(1) have loop: "revoke_loop root cap out1 es1 = (out', es')"
      by (simp add: revoke_loop.simps [of root cap out es])
    have pairs: "set (live_pairs es1) \<subseteq> set (live_pairs es)" using kills killed_by_pairs by blast
    have IH: "list_all2 (killed_by root (set out')) es1 es' \<and> set out1 \<subseteq> set out' \<and> set out' \<subseteq> S
         \<and> length out' + count_by live es' = length out1 + count_by live es1
         \<and> (\<forall>e\<in>set es'. live e \<longrightarrow> parent e \<notin> insert root (set out'))"
      by (rule "1.IH" [OF pass [symmetric] refl True loop])
        (use kills sound pairs "1.prems"(2,4) in auto)
    have "list_all2 (killed_by root (set out')) es es1"
      using kills IH by (auto elim: list_all2_mono killed_by_mono)
    with IH have "list_all2 (killed_by root (set out')) es es'"
      by (auto intro: list_all2_trans killed_by_trans)
    with IH kills show ?thesis by auto
  qed
qed


lemma killed_by_filter:
  assumes "list_all2 (killed_by root X) es0 es"
    and "\<forall>e\<in>set es. live e \<longrightarrow> parent e \<notin> insert root X"
  shows "live_pairs es = filter (\<lambda>(p, c). p \<notin> insert root X) (live_pairs es0)"
  using assms by (induction rule: list_all2_induct) (auto simp: killed_by_def)

lemma reach_closed:
  assumes "set (live_pairs es) = E" and "list_all2 (killed_by root X) es es'"
    and "\<forall>e\<in>set es'. live e \<longrightarrow> parent e \<notin> insert root X"
  shows "{c. (root, c) \<in> E\<^sup>+} \<subseteq> X"
proof -
  have edge: "c \<in> X" if "(p, c) \<in> E" "p \<in> insert root X" for p c
    using assms(2) assms(3) that unfolding assms(1) [symmetric]
    by (induction rule: list_all2_induct) (auto simp: killed_by_def split: if_splits)
  have "c \<in> X" if "(root, c) \<in> E\<^sup>+" for c
    using that by (induction rule: trancl_induct) (auto intro: edge)
  then show ?thesis by auto
qed

lemma revoke_from_closure:
  assumes "Ledger_revoke_from root cap l = (out, l')" and "Ledger_len l \<le> cap"
  shows "set out = reach l root"
    and "Ledger_live_edges l' = filter (\<lambda>(p, c). p \<notin> insert root (reach l root)) (Ledger_live_edges l)"
    and "length out + Ledger_len l' = Ledger_len l"
    and "Ledger_capacity l' = Ledger_capacity l"
proof -
  let ?S = "reach l root"
  from assms(1) have loop: "revoke_loop root cap [] (edges l) = (out, edges l')"
    and l': "l' = l\<lparr>edges := edges l'\<rparr>"
    by (auto simp: Ledger_revoke_from_def split: prod.splits)
  have closed: "c \<in> ?S" if "(p, c) \<in> set (live_pairs (edges l))" "p \<in> insert root ?S" for p c
    using that by (auto simp: live_edges_pairs intro: trancl_into_trancl)
  from revoke_loop_inv [OF loop _ _ closed] assms(2)
  have inv: "list_all2 (killed_by root (set out)) (edges l) (edges l')" "set out \<subseteq> ?S"
      "length out + count_by live (edges l') = count_by live (edges l)"
      "\<forall>e\<in>set (edges l'). live e \<longrightarrow> parent e \<notin> insert root (set out)"
    by (auto simp: Ledger_len_def)
  have "?S \<subseteq> set out" by (rule reach_closed [OF _ inv(1,4)]) (simp add: live_edges_pairs)
  with inv(2) show out: "set out = ?S" by simp
  show "Ledger_live_edges l' = filter (\<lambda>(p, c). p \<notin> insert root ?S) (Ledger_live_edges l)"
    using killed_by_filter [OF inv(1,4)] by (simp add: out live_edges_pairs)
  show "length out + Ledger_len l' = Ledger_len l" using inv(3) by (simp add: Ledger_len_def)
  show "Ledger_capacity l' = Ledger_capacity l"
    using inv(1) by (auto simp: Ledger_capacity_def dest: list_all2_lengthD)
qed

section \<open>Splicing keeps reachability between survivors\<close>

text \<open>Contracting one node \<open>d\<close> whose only in-edge comes from \<open>a\<close>.\<close>

definition contract :: "'a \<Rightarrow> 'a \<Rightarrow> ('a \<times> 'a) set \<Rightarrow> ('a \<times> 'a) set" where
  "contract a d E = (\<lambda>(x, c). (if x = d then a else x, c)) ` (E - {(a, d)})"

lemma contract_sound:
  assumes "(a, d) \<in> E"
  shows "(contract a d E)\<^sup>+ \<subseteq> E\<^sup>+"
proof -
  have "(if x = d then a else x, c) \<in> E\<^sup>+" if "(x, c) \<in> E" for x c
    using that assms by (auto intro: trancl_into_trancl [OF r_into_trancl])
  then have "contract a d E \<subseteq> E\<^sup>+" by (auto simp: contract_def)
  from trancl_mono [OF _ this] show ?thesis by auto
qed

lemma contract_complete:
  assumes "(u, v) \<in> E\<^sup>+" and "u \<noteq> d" and "\<And>x. (x, d) \<in> E \<Longrightarrow> x = a"
  shows "(v \<noteq> d \<longrightarrow> (u, v) \<in> (contract a d E)\<^sup>+) \<and> (v = d \<longrightarrow> (u, a) \<in> (contract a d E)\<^sup>*)"
  using assms(1)
proof (induction rule: trancl_induct)
  case (base y)
  have "(u, y) \<in> contract a d E" if "y \<noteq> d"
    using base that assms(2) by (force simp: contract_def)
  then show ?case using base assms(3) by auto
next
  case (step y z)
  have edge: "(if y = d then a else y, z) \<in> contract a d E" if "z \<noteq> d"
    using step.hyps(2) that by (force simp: contract_def)
  show ?case
  proof (cases "z = d")
    case True
    with step.hyps(2) assms(3) have "y = a" by blast
    with True step.IH show ?thesis by (auto intro: trancl_into_rtrancl)
  next
    case False
    with edge step.IH show ?thesis
      by (cases "y = d") (auto intro: rtrancl_into_trancl1 trancl_into_trancl)
  qed
qed

lemma contract_iff:
  assumes "(a, d) \<in> E" and "\<And>x. (x, d) \<in> E \<Longrightarrow> x = a" and "u \<noteq> d" and "v \<noteq> d"
  shows "(u, v) \<in> (contract a d E)\<^sup>+ \<longleftrightarrow> (u, v) \<in> E\<^sup>+"
  using contract_sound [OF assms(1)] contract_complete [OF _ assms(3,2)] assms(4) by blast


text \<open>Each live edge has its own child endpoint: the shape the kernel's delegations have.\<close>

definition uniq :: "Edge list \<Rightarrow> bool" where
  "uniq es \<longleftrightarrow> (\<forall>i<length es. \<forall>j<length es.
     live (es ! i) \<longrightarrow> live (es ! j) \<longrightarrow> child (es ! i) = child (es ! j) \<longrightarrow> i = j)"

lemma uniq_Cons:
  "uniq (e # es) \<longleftrightarrow> (live e \<longrightarrow> (\<forall>x\<in>set es. live x \<longrightarrow> child x \<noteq> child e)) \<and> uniq es"
  unfolding uniq_def length_Cons All_less_Suc2 by (auto simp: all_set_conv_all_nth)

lemma uniq_distinct: "uniq es \<longleftrightarrow> distinct (map snd (live_pairs es))"
proof (induction es)
  case (Cons e es)
  then show ?case by (auto simp: uniq_Cons set_live_pairs image_iff)
qed (simp add: uniq_def)

lemma live_pairs_nth:
  "set (live_pairs es) = {(parent (es ! j), child (es ! j)) | j. j < length es \<and> live (es ! j)}"
  by (auto simp: set_live_pairs in_set_conv_nth)

lemma reparent_simps [simp]:
  "live (reparent inc e) = live e" "child (reparent inc e) = child e"
  by (simp_all add: reparent_def)

lemma splice_step_shape:
  assumes "k < length es"
  shows "length (splice_step p i k es) = length es"
    and "j < length es \<Longrightarrow> child (splice_step p i k es ! j) = child (es ! j)"
    and "j < length es \<Longrightarrow> live (splice_step p i k es ! j) \<Longrightarrow> live (es ! j)"
    and "\<not> (live (splice_step p i k es ! k) \<and> same_proc (child (es ! k)) p i)"
  using assms by (auto simp: splice_step_def Let_def nth_list_update split: if_splits)

lemma splice_step_uniq:
  assumes "k < length es" and "uniq es"
  shows "uniq (splice_step p i k es)"
  using assms splice_step_shape [OF assms(1), where p = p and i = i] unfolding uniq_def by simp

lemma splice_step_contract:
  assumes "k < length es" and "uniq es" and "live (es ! k)" and "same_proc (child (es ! k)) p i"
  shows "set (live_pairs (splice_step p i k es))
         = contract (parent (es ! k)) (child (es ! k)) (set (live_pairs es))"
proof -
  let ?inc = "es ! k" and ?es' = "splice_step p i k es"
  have other: "j = k \<or> child (es ! j) \<noteq> child ?inc" if "j < length es" "live (es ! j)" for j
    using assms that by (auto simp: uniq_def)
  have nth: "?es' ! j = (if j = k then (reparent ?inc ?inc)\<lparr>live := False\<rparr> else reparent ?inc (es ! j))"
    if "j < length es" for j
    using assms that by (simp add: splice_step_def Let_def nth_list_update)
  have "set (live_pairs ?es') = {(if parent (es ! j) = child ?inc then parent ?inc else parent (es ! j),
      child (es ! j)) | j. j < length es \<and> live (es ! j) \<and> j \<noteq> k}"
    unfolding live_pairs_nth splice_step_shape(1) [OF assms(1)]
    by (intro Collect_cong ex_cong1) (auto simp: nth reparent_def split: if_splits)
  also have "\<dots> = contract (parent ?inc) (child ?inc) (set (live_pairs es))"
    unfolding contract_def live_pairs_nth using other assms(1) by (fastforce simp: image_iff)
  finally show ?thesis .
qed

lemma splice_step_reach:
  assumes "k < length es" and "uniq es" and "\<not> same_proc u p i" and "\<not> same_proc v p i"
  shows "(u, v) \<in> (set (live_pairs (splice_step p i k es)))\<^sup>+ \<longleftrightarrow> (u, v) \<in> (set (live_pairs es))\<^sup>+"
proof (cases "live (es ! k) \<and> same_proc (child (es ! k)) p i")
  case False
  then have "splice_step p i k es = es" by (auto simp: splice_step_def Let_def)
  then show ?thesis by simp
next
  case True
  let ?a = "parent (es ! k)" and ?d = "child (es ! k)"
  have "(?a, ?d) \<in> set (live_pairs es)" using True assms(1) by (auto simp: live_pairs_nth)
  moreover have "x = ?a" if "(x, ?d) \<in> set (live_pairs es)" for x
    using that True assms(1,2) by (auto simp: live_pairs_nth uniq_def)
  moreover have "u \<noteq> ?d" "v \<noteq> ?d" using True assms(3,4) by auto
  ultimately have "(u, v) \<in> (contract ?a ?d (set (live_pairs es)))\<^sup>+ \<longleftrightarrow> (u, v) \<in> (set (live_pairs es))\<^sup>+"
    by (rule contract_iff)
  then show ?thesis
    using splice_step_contract [OF assms(1,2), of p i] True by simp
qed

lemma splice_fold:
  fixes p :: usize and i :: u64
  assumes "set ks \<subseteq> {..<length es}" and "uniq es"
  defines "es' \<equiv> fold (splice_step p i) ks es"
  shows "length es' = length es \<and> uniq es'
    \<and> (\<forall>j<length es. child (es' ! j) = child (es ! j) \<and> (live (es' ! j) \<longrightarrow> live (es ! j)))
    \<and> (\<forall>k\<in>set ks. \<not> (live (es' ! k) \<and> same_proc (child (es ! k)) p i))
    \<and> (\<forall>u v. \<not> same_proc u p i \<longrightarrow> \<not> same_proc v p i \<longrightarrow>
         ((u, v) \<in> (set (live_pairs es'))\<^sup>+ \<longleftrightarrow> (u, v) \<in> (set (live_pairs es))\<^sup>+))"
  using assms(1,2) unfolding es'_def
proof (induction ks arbitrary: es)
  case (Cons k ks)
  let ?e1 = "splice_step p i k es"
  have k: "k < length es" using Cons.prems(1) by simp
  note shape = splice_step_shape [OF k, where p = p and i = i]
  have "set ks \<subseteq> {..<length ?e1}" using Cons.prems(1) shape(1) by simp
  note IH = Cons.IH [OF this splice_step_uniq [OF k Cons.prems(2)]]
  have ch: "\<forall>j\<in>set ks. child (?e1 ! j) = child (es ! j)" using shape(2) Cons.prems(1) by auto
  from IH shape splice_step_reach [OF k Cons.prems(2)] k ch show ?case by auto
qed auto


lemma drop_rooted_pairs:
  "live_pairs (map (drop_rooted p i) es) = filter (\<lambda>(x, c). \<not> same_proc x p i) (live_pairs es)"
  by (induction es) (auto simp: drop_rooted_def)

lemma trancl_filter_parents:
  assumes "(u, v) \<in> E\<^sup>+" and "\<not> D u" and "\<And>x c. (x, c) \<in> E \<Longrightarrow> \<not> D c"
  shows "(u, v) \<in> {(x, c) \<in> E. \<not> D x}\<^sup>+ \<and> \<not> D v"
  using assms(1)
proof (induction rule: trancl_induct)
  case (base y)
  then show ?case using assms(2,3) by auto
next
  case (step y z)
  then have "(y, z) \<in> {(x, c) \<in> E. \<not> D x}" by auto
  with step assms(3) show ?case by (auto intro: trancl_into_trancl)
qed

lemma splice_out_facts:
  fixes p :: usize and i :: u64
  assumes "distinct (map snd (Ledger_live_edges l))"
  defines "l' \<equiv> Ledger_splice_out p i l"
  shows "distinct (map snd (Ledger_live_edges l'))"
    and "(x, c) \<in> graph l' \<Longrightarrow> \<not> same_proc x p i \<and> \<not> same_proc c p i"
    and "\<not> same_proc u p i \<Longrightarrow> \<not> same_proc v p i \<Longrightarrow> (u, v) \<in> (graph l')\<^sup>+ \<longleftrightarrow> (u, v) \<in> (graph l)\<^sup>+"
    and "Ledger_capacity l' = Ledger_capacity l"
proof -
  let ?es = "edges l"
  let ?f = "fold (splice_step p i) [0..<length ?es] ?es"
  have "uniq ?es" using assms(1) by (simp add: uniq_distinct live_edges_pairs)
  moreover have "set [0..<length ?es] \<subseteq> {..<length ?es}" by auto
  ultimately have len: "length ?f = length ?es" and uniq: "uniq ?f"
    and ch: "\<And>j. j < length ?es \<Longrightarrow> child (?f ! j) = child (?es ! j)"
    and dead: "\<And>k. k < length ?es \<Longrightarrow> live (?f ! k) \<Longrightarrow> \<not> same_proc (child (?es ! k)) p i"
    and keep: "\<And>u v. \<not> same_proc u p i \<Longrightarrow> \<not> same_proc v p i \<Longrightarrow>
         (u, v) \<in> (set (live_pairs ?f))\<^sup>+ \<longleftrightarrow> (u, v) \<in> (set (live_pairs ?es))\<^sup>+"
    using splice_fold [of "[0..<length ?es]" ?es p i] by auto
  have pairs: "Ledger_live_edges l' = filter (\<lambda>(x, c). \<not> same_proc x p i) (live_pairs ?f)"
    by (simp add: l'_def Ledger_splice_out_def live_edges_pairs drop_rooted_pairs)
  have child: "\<not> same_proc c p i" if "(x, c) \<in> set (live_pairs ?f)" for x c
    using that len ch dead by (auto simp: live_pairs_nth)
  show "distinct (map snd (Ledger_live_edges l'))"
    using uniq by (auto simp: pairs uniq_distinct intro: distinct_map_filter)
  show "(x, c) \<in> graph l' \<Longrightarrow> \<not> same_proc x p i \<and> \<not> same_proc c p i"
    using child by (auto simp: pairs)
  show "(u, v) \<in> (graph l')\<^sup>+ \<longleftrightarrow> (u, v) \<in> (graph l)\<^sup>+"
    if uv: "\<not> same_proc u p i" "\<not> same_proc v p i"
  proof -
    have graph': "graph l' = {(x, c) \<in> set (live_pairs ?f). \<not> same_proc x p i}"
      by (auto simp: pairs)
    have "(u, v) \<in> (graph l')\<^sup>+ \<longleftrightarrow> (u, v) \<in> (set (live_pairs ?f))\<^sup>+"
      unfolding graph' using uv(1) child
      by (auto intro: trancl_mono [of _ _ "set (live_pairs ?f)"]
          dest: trancl_filter_parents [where D = "\<lambda>e. same_proc e p i"])
    then show ?thesis using keep [OF uv] by (simp add: live_edges_pairs)
  qed
  show "Ledger_capacity l' = Ledger_capacity l"
    using len by (simp add: l'_def Ledger_splice_out_def Ledger_capacity_def)
qed

lemma record_facts:
  assumes "Ledger_record p c l = (ok, l')"
  shows "ok \<longleftrightarrow> Ledger_len l < Ledger_capacity l"
    and "\<not> ok \<Longrightarrow> l' = l"
    and "ok \<Longrightarrow> graph l' = insert (p, c) (graph l)"
    and "ok \<Longrightarrow> Ledger_len l' = Suc (Ledger_len l)"
    and "Ledger_capacity l' = Ledger_capacity l"
    and "distinct (map snd (Ledger_live_edges l)) \<Longrightarrow> c \<notin> snd ` graph l
           \<Longrightarrow> distinct (map snd (Ledger_live_edges l'))"
proof -
  let ?P = "position (\<lambda>e. \<not> live e) (edges l)"
  have rec: "ok \<longleftrightarrow> ?P \<noteq> None" "?P = None \<Longrightarrow> l' = l"
    and upd: "?P = Some k \<Longrightarrow> edges l' = (edges l)[k := \<lparr>parent = p, child = c, live = True\<rparr>]" for k
    using assms by (auto simp: Ledger_record_def split: option.splits)
  show "ok \<longleftrightarrow> Ledger_len l < Ledger_capacity l"
    by (simp add: rec(1) position_None count_by_lt Ledger_len_def Ledger_capacity_def)
  show "\<not> ok \<Longrightarrow> l' = l" using rec by simp
  show "graph l' = insert (p, c) (graph l)" if ok
  proof -
    from that rec obtain k where k: "?P = Some k" by auto
    from position_SomeD [OF k] have "k < length (edges l)" "\<not> live (edges l ! k)" by auto
    then show ?thesis
      by (fastforce simp: live_edges_pairs live_pairs_nth upd [OF k] nth_list_update)
  qed
  show "Ledger_len l' = Suc (Ledger_len l)" if ok
  proof -
    from that rec obtain k where k: "?P = Some k" by auto
    from position_SomeD [OF k] show ?thesis by (simp add: Ledger_len_def upd [OF k] count_by_set)
  qed
  show "Ledger_capacity l' = Ledger_capacity l"
    using rec upd by (cases ?P) (auto simp: Ledger_capacity_def)
  show "distinct (map snd (Ledger_live_edges l'))"
    if "distinct (map snd (Ledger_live_edges l))" "c \<notin> snd ` graph l"
  proof (cases ?P)
    case None
    then show ?thesis using that rec by simp
  next
    case (Some k)
    from that(2) have new: "child (edges l ! j) \<noteq> c" if "j < length (edges l)" "live (edges l ! j)" for j
      using that by (force simp: live_edges_pairs live_pairs_nth)
    from that(1) new position_SomeD(1) [OF Some] show ?thesis
      by (auto simp: live_edges_pairs uniq_distinct [symmetric] uniq_def upd [OF Some] nth_list_update
          split: if_splits)
  qed
qed

lemma forget_pairs:
  "Ledger_live_edges (Ledger_forget e l) = filter (\<lambda>(p, c). p \<noteq> e \<and> c \<noteq> e) (Ledger_live_edges l)"
proof -
  have "live_pairs (map (\<lambda>x. if live x \<and> (parent x = e \<or> child x = e) then x\<lparr>live := False\<rparr> else x) es)
      = filter (\<lambda>(p, c). p \<noteq> e \<and> c \<noteq> e) (live_pairs es)" for es
    by (induction es) auto
  then show ?thesis by (simp add: Ledger_forget_def live_edges_pairs)
qed


section \<open>Properties\<close>

text \<open>A small ledger for the witnesses: A handed a capability to B, B passed it on to C.\<close>

definition chain_ledger :: Ledger where
  "chain_ledger = snd (Ledger_record (DEndpoint_new 1 200 0) (DEndpoint_new 2 300 0)
     (snd (Ledger_record (DEndpoint_new 0 100 0) (DEndpoint_new 1 200 0) (Ledger_new 3))))"

lemma chain_ledger_edges:
  "Ledger_live_edges chain_ledger =
     [(DEndpoint_new 0 100 0, DEndpoint_new 1 200 0), (DEndpoint_new 1 200 0, DEndpoint_new 2 300 0)]"
  by (simp add: chain_ledger_def Ledger_record_def Ledger_new_def DEAD_def Ledger_live_edges_def
      numeral_3_eq_3)

lemma chain_ledger_len: "Ledger_len chain_ledger = 2"
  using chain_ledger_edges by (simp add: live_edges_pairs Ledger_len_def length_live_pairs [symmetric])

text \<open>
  (C22) Revocation reports exactly the transitive closure of the delegations from the root, marks
  exactly the edges leaving the root or a reached capability dead, keeps every other edge in
  place, and reports one endpoint per edge it kills, whenever the output slice has room for the
  live edges.
\<close>

theorem revoke_from_exact_closure:
  assumes "Ledger_revoke_from root cap l = (out, l')" and "Ledger_len l \<le> cap"
  shows "set out = {c. (root, c) \<in> (set (Ledger_live_edges l))\<^sup>+}
    \<and> Ledger_live_edges l' = filter (\<lambda>(p, c). p \<noteq> root \<and> p \<notin> set out) (Ledger_live_edges l)
    \<and> length out + Ledger_len l' = Ledger_len l"
  using revoke_from_closure [OF assms] by (auto intro!: filter_cong)

theorem revoke_from_exact_closure_witness:
  "\<exists>out l'. Ledger_revoke_from (DEndpoint_new 0 100 0) 3 chain_ledger = (out, l')
     \<and> set out = {c. (DEndpoint_new 0 100 0, c) \<in> (set (Ledger_live_edges chain_ledger))\<^sup>+}
     \<and> DEndpoint_new 2 300 0 \<in> set out"
proof -
  obtain out l' where r: "Ledger_revoke_from (DEndpoint_new 0 100 0) 3 chain_ledger = (out, l')"
    by (cases "Ledger_revoke_from (DEndpoint_new 0 100 0) 3 chain_ledger")
  have "Ledger_len chain_ledger \<le> 3" by (simp add: chain_ledger_len)
  note exact = revoke_from_exact_closure [OF r this]
  have "(DEndpoint_new 0 100 0, DEndpoint_new 2 300 0) \<in> (set (Ledger_live_edges chain_ledger))\<^sup>+"
    by (rule trancl_into_trancl [OF r_into_trancl [of _ "DEndpoint_new 1 200 0"]])
      (simp_all add: chain_ledger_edges)
  with exact r show ?thesis by auto
qed

text \<open>
  (C29) The death of a process splices rather than cuts: when every delegated capability has one
  source, the edges that remain name no incarnation of the dead process, reachability between any
  two survivors is exactly what it was, so a later revocation by a surviving ancestor reaches
  precisely the surviving capabilities it reached before, and each capability still has one source.
\<close>

theorem splice_out_preserves_revocation:
  assumes "distinct (map snd (Ledger_live_edges l))"
    and "\<not> same_proc root p i" and "Ledger_len l \<le> cap"
    and "Ledger_revoke_from root cap l = (out, l1)"
    and "Ledger_revoke_from root cap (Ledger_splice_out p i l) = (out', l2)"
    and "Ledger_len (Ledger_splice_out p i l) \<le> cap"
  shows "set out' = {c \<in> set out. \<not> same_proc c p i}
    \<and> (\<forall>(x, c)\<in>set (Ledger_live_edges (Ledger_splice_out p i l)). \<not> same_proc x p i \<and> \<not> same_proc c p i)
    \<and> distinct (map snd (Ledger_live_edges (Ledger_splice_out p i l)))"
proof -
  note F = splice_out_facts [OF assms(1), where p = p and i = i]
  have child: "\<not> same_proc c p i" if "(root, c) \<in> (graph (Ledger_splice_out p i l))\<^sup>+" for c
    using that F(2) by (auto elim: tranclE)
  have "set out' = {c \<in> set out. \<not> same_proc c p i}"
    using revoke_from_closure(1) [OF assms(4,3)] revoke_from_closure(1) [OF assms(5,6)]
      F(3) [OF assms(2)] child by auto
  with F(1,2) show ?thesis by auto
qed

theorem splice_out_preserves_revocation_witness:
  "\<exists>out l1 out' l2.
     Ledger_revoke_from (DEndpoint_new 0 100 0) 3 chain_ledger = (out, l1)
   \<and> Ledger_revoke_from (DEndpoint_new 0 100 0) 3 (Ledger_splice_out 1 200 chain_ledger) = (out', l2)
   \<and> set out' = {c \<in> set out. \<not> same_proc c 1 200}"
proof -
  let ?r = "DEndpoint_new 0 100 0" and ?l = "chain_ledger"
  obtain out l1 out' l2 where r: "Ledger_revoke_from ?r 3 ?l = (out, l1)"
      "Ledger_revoke_from ?r 3 (Ledger_splice_out 1 200 ?l) = (out', l2)"
    by (meson surj_pair)
  have "distinct (map snd (Ledger_live_edges ?l))" "\<not> same_proc ?r 1 200" "Ledger_len ?l \<le> 3"
    by (simp_all add: chain_ledger_edges chain_ledger_len same_proc_def DEndpoint_new_def)
  moreover have "Ledger_len (Ledger_splice_out 1 200 ?l) \<le> 3"
  proof -
    have "Ledger_capacity ?l = 3"
      by (simp add: chain_ledger_def Ledger_record_def Ledger_new_def Ledger_capacity_def split: option.splits)
    then show ?thesis
      using splice_out_facts(4) [of ?l 1 200] calculation(1)
        count_by_le [of live "edges (Ledger_splice_out 1 200 ?l)"]
      by (simp add: Ledger_len_def Ledger_capacity_def)
  qed
  ultimately show ?thesis
    using splice_out_preserves_revocation [of ?l ?r 1 200 3 out l1 out' l2] r by blast
qed

text \<open>
  The operations of the ledger as the kernel uses them: a delegation lands in the capability slot of
  a process created a moment before, so no live edge already ends there.
\<close>

inductive ledger_step :: "Ledger \<Rightarrow> Ledger \<Rightarrow> bool" where
  recorded: "c \<notin> snd ` graph l \<Longrightarrow> Ledger_record p c l = (ok, l') \<Longrightarrow> ledger_step l l'"
| revoke: "Ledger_len l \<le> cap \<Longrightarrow> Ledger_revoke_from root cap l = (out, l') \<Longrightarrow> ledger_step l l'"
| splice: "ledger_step l (Ledger_splice_out p i l)"
| forget: "ledger_step l (Ledger_forget e l)"

inductive ledger_reachable :: "nat \<Rightarrow> Ledger \<Rightarrow> bool" for n where
  start: "ledger_reachable n (Ledger_new n)"
| step: "ledger_reachable n l \<Longrightarrow> ledger_step l l' \<Longrightarrow> ledger_reachable n l'"

lemma forget_capacity: "Ledger_capacity (Ledger_forget e l) = Ledger_capacity l"
  by (simp add: Ledger_forget_def Ledger_capacity_def)

lemma ledger_step_inv:
  assumes "ledger_step l l'" and "distinct (map snd (Ledger_live_edges l))"
  shows "distinct (map snd (Ledger_live_edges l')) \<and> Ledger_capacity l' = Ledger_capacity l"
  using assms
proof (induction rule: ledger_step.induct)
  case (recorded c l p ok l')
  then show ?case using record_facts(5,6) [OF recorded(2)] by simp
next
  case (revoke l cap root out l')
  then show ?case using revoke_from_closure(2,4) [OF revoke(2,1)] by (simp add: distinct_map_filter)
next
  case (splice l p i)
  then show ?case using splice_out_facts(1,4) by blast
next
  case (forget l e)
  then show ?case by (simp add: forget_pairs forget_capacity distinct_map_filter)
qed

text \<open>
  In every ledger the kernel can build by recording delegations to fresh capabilities, revoking,
  splicing out dead processes and forgetting freed slots, each delegated capability has exactly one
  source and the table holds at most its capacity of edges.
\<close>

theorem ledger_reachable_forest:
  assumes "ledger_reachable n l"
  shows "distinct (map snd (Ledger_live_edges l)) \<and> Ledger_capacity l = n \<and> Ledger_len l \<le> n"
  using assms
proof (induction rule: ledger_reachable.induct)
  case start
  then show ?case
    by (simp add: Ledger_new_def Ledger_live_edges_def Ledger_capacity_def Ledger_len_def DEAD_def)
next
  case (step l l')
  then show ?case
    using ledger_step_inv [OF step(2)] count_by_le [of live "edges l'"]
    by (auto simp: Ledger_len_def Ledger_capacity_def)
qed

theorem ledger_reachable_forest_witness:
  "ledger_reachable 3 chain_ledger \<and> distinct (map snd (Ledger_live_edges chain_ledger))"
proof -
  let ?a = "DEndpoint_new 0 100 0" and ?b = "DEndpoint_new 1 200 0" and ?c = "DEndpoint_new 2 300 0"
  let ?l1 = "snd (Ledger_record ?a ?b (Ledger_new 3))"
  have "ledger_step (Ledger_new 3) ?l1"
    by (rule ledger_step.recorded [of ?b _ ?a "fst (Ledger_record ?a ?b (Ledger_new 3))"])
      (simp_all add: Ledger_new_def DEAD_def Ledger_live_edges_def)
  moreover have "ledger_step ?l1 chain_ledger"
    unfolding chain_ledger_def
    by (rule ledger_step.recorded [of ?c _ ?b "fst (Ledger_record ?b ?c ?l1)"])
      (simp_all add: Ledger_record_def Ledger_new_def DEAD_def Ledger_live_edges_def DEndpoint_new_def
        numeral_3_eq_3)
  ultimately have "ledger_reachable 3 chain_ledger"
    by (blast intro: ledger_reachable.intros)
  with ledger_reachable_forest [OF this] show ?thesis by simp
qed

end
