(* ===== verification/Sched.thy ===== *)
theory Sched
  imports Abi
begin

text \<open>
  The cooperative round-robin run queue (src/crates/sched): threads packed in a prefix of a fixed
  array and a cursor. \<open>run_queue\<close> is the interface the kernel relies on (a duplicate-free queue with
  a current element); the scheduler is interpreted as one, and the fairness of \<open>next\<close> is proved on
  its list view.
\<close>

section \<open>The scheduler\<close>

record Scheduler =
  sq_slots :: "ThreadId option list"
  sq_len :: usize
  sq_cur :: usize

definition Scheduler_new :: "nat \<Rightarrow> Scheduler" where
  "Scheduler_new n = \<lparr>sq_slots = replicate n None, sq_len = 0, sq_cur = 0\<rparr>"

definition Scheduler_capacity :: "Scheduler \<Rightarrow> nat" where
  "Scheduler_capacity s = length (sq_slots s)"

definition Scheduler_is_empty :: "Scheduler \<Rightarrow> bool" where
  "Scheduler_is_empty s \<longleftrightarrow> sq_len s = 0"

definition Scheduler_contains :: "ThreadId \<Rightarrow> Scheduler \<Rightarrow> bool" where
  "Scheduler_contains t s \<longleftrightarrow> (\<exists>x\<in>set (take (sq_len s) (sq_slots s)). x = Some t)"

definition Scheduler_add :: "ThreadId \<Rightarrow> Scheduler \<Rightarrow> bool \<times> Scheduler" where
  "Scheduler_add t s =
     (if sq_len s = length (sq_slots s) \<or> Scheduler_contains t s then (False, s)
      else (True, s\<lparr>sq_slots := (sq_slots s)[sq_len s := Some t], sq_len := sq_len s + 1\<rparr>))"

definition Scheduler_current :: "Scheduler \<Rightarrow> ThreadId option" where
  "Scheduler_current s = (if sq_len s = 0 then None else sq_slots s ! sq_cur s)"

definition Scheduler_next :: "Scheduler \<Rightarrow> ThreadId option \<times> Scheduler" where
  "Scheduler_next s =
     (if sq_len s = 0 then (None, s)
      else let c = (sq_cur s + 1) mod sq_len s in (sq_slots s ! c, s\<lparr>sq_cur := c\<rparr>))"

text \<open>The compaction loop \<open>for i in idx..len-1 \{ slots[i] = slots[i+1] \}\<close>.\<close>

definition shift_down :: "nat \<Rightarrow> nat \<Rightarrow> 'a list \<Rightarrow> 'a list" where
  "shift_down idx hi xs = fold (\<lambda>i ys. ys[i := ys ! (i + 1)]) [idx..<hi] xs"

definition Scheduler_remove :: "ThreadId \<Rightarrow> Scheduler \<Rightarrow> bool \<times> Scheduler" where
  "Scheduler_remove t s =
     (case position (\<lambda>x. x = Some t) (take (sq_len s) (sq_slots s)) of
        None \<Rightarrow> (False, s)
      | Some idx \<Rightarrow>
          let len = sq_len s - 1;
              xs = (shift_down idx len (sq_slots s))[len := None];
              c = (if len = 0 then 0
                   else if idx < sq_cur s then sq_cur s - 1
                   else if sq_cur s \<ge> len then 0 else sq_cur s)
          in (True, s\<lparr>sq_slots := xs, sq_len := len, sq_cur := c\<rparr>))"

section \<open>The interface of a run queue\<close>

locale run_queue =
  fixes inv :: "'s \<Rightarrow> bool"
    and queue :: "'s \<Rightarrow> ThreadId list"
    and capacity :: "'s \<Rightarrow> nat"
    and add :: "ThreadId \<Rightarrow> 's \<Rightarrow> bool \<times> 's"
    and remove :: "ThreadId \<Rightarrow> 's \<Rightarrow> bool \<times> 's"
    and current :: "'s \<Rightarrow> ThreadId option"
  assumes queue_distinct: "inv s \<Longrightarrow> distinct (queue s)"
    and queue_bound: "inv s \<Longrightarrow> length (queue s) \<le> capacity s"
    and inv_add: "inv s \<Longrightarrow> inv (snd (add t s))"
    and capacity_add: "capacity (snd (add t s)) = capacity s"
    and add_ok: "inv s \<Longrightarrow> fst (add t s) \<longleftrightarrow> length (queue s) < capacity s \<and> t \<notin> set (queue s)"
    and queue_add: "inv s \<Longrightarrow> queue (snd (add t s)) = (if fst (add t s) then queue s @ [t] else queue s)"
    and inv_remove: "inv s \<Longrightarrow> inv (snd (remove t s))"
    and capacity_remove: "inv s \<Longrightarrow> capacity (snd (remove t s)) = capacity s"
    and remove_ok: "inv s \<Longrightarrow> fst (remove t s) \<longleftrightarrow> t \<in> set (queue s)"
    and queue_remove: "inv s \<Longrightarrow> queue (snd (remove t s)) = remove1 t (queue s)"
    and current_None: "inv s \<Longrightarrow> current s = None \<longleftrightarrow> queue s = []"
    and current_mem: "inv s \<Longrightarrow> current s = Some t \<Longrightarrow> t \<in> set (queue s)"
begin

text \<open>
  When the queue has a place for every thread number, adding a thread cannot fail: afterwards it is
  queued. The kernel ignores the result of \<open>add\<close> on the strength of this.
\<close>

lemma add_queues:
  assumes "inv s" and "set (queue s) \<subseteq> {..<capacity s}" and "t < capacity s"
  shows "set (queue (snd (add t s))) = insert t (set (queue s))"
proof (cases "t \<in> set (queue s)")
  case True
  then show ?thesis using assms(1) by (auto simp: queue_add add_ok)
next
  case False
  have "card (set (queue s)) = length (queue s)"
    by (rule distinct_card) (rule queue_distinct [OF assms(1)])
  moreover have "card (set (queue s)) < card {..<capacity s}"
    using assms(2,3) False by (intro psubset_card_mono) auto
  ultimately show ?thesis using assms(1) False by (simp add: queue_add add_ok)
qed

lemma remove_unqueues:
  assumes "inv s"
  shows "set (queue (snd (remove t s))) = set (queue s) - {t}"
  using assms queue_distinct [OF assms] by (simp add: queue_remove)

lemma wake_all:
  assumes "inv s" and "set (queue s) \<subseteq> {..<capacity s}" and "set ts \<subseteq> {..<capacity s}"
  shows "set (queue (fold (\<lambda>t s. snd (add t s)) ts s)) = set (queue s) \<union> set ts
    \<and> inv (fold (\<lambda>t s. snd (add t s)) ts s)"
  using assms
proof (induction ts arbitrary: s)
  case (Cons t ts)
  let ?s = "snd (add t s)"
  have "set (queue ?s) = insert t (set (queue s))" using Cons.prems by (simp add: add_queues)
  moreover have "inv ?s" "capacity ?s = capacity s" using Cons.prems by (simp_all add: inv_add capacity_add)
  ultimately show ?case using Cons.IH [of ?s] Cons.prems by auto
qed simp

end

section \<open>The list view of the scheduler\<close>

definition sched_queue :: "Scheduler \<Rightarrow> ThreadId list" where
  "sched_queue s = map the (take (sq_len s) (sq_slots s))"

definition sched_inv :: "Scheduler \<Rightarrow> bool" where
  "sched_inv s \<longleftrightarrow> sq_len s \<le> length (sq_slots s)
     \<and> (if sq_len s = 0 then sq_cur s = 0 else sq_cur s < sq_len s)
     \<and> (\<forall>i<length (sq_slots s). sq_slots s ! i \<noteq> None \<longleftrightarrow> i < sq_len s)
     \<and> distinct (take (sq_len s) (sq_slots s))"

lemma shift_down_nth:
  assumes "idx \<le> hi" and "hi < length xs" and "j < length xs"
  shows "length (shift_down idx hi xs) = length xs
    \<and> shift_down idx hi xs ! j = (if idx \<le> j \<and> j < hi then xs ! (j + 1) else xs ! j)"
  using assms
proof (induction hi arbitrary: j)
  case 0
  then show ?case by (simp add: shift_down_def)
next
  case (Suc hi)
  show ?case
  proof (cases "idx \<le> hi")
    case True
    have fold: "shift_down idx (Suc hi) xs = (shift_down idx hi xs)[hi := shift_down idx hi xs ! (hi + 1)]"
      using True by (simp add: shift_down_def)
    show ?thesis
      using Suc.IH [OF True, of j] Suc.IH [OF True, of "hi + 1"] Suc.prems True
      by (auto simp: fold nth_list_update less_Suc_eq)
  next
    case False
    then show ?thesis using Suc.prems by (auto simp: shift_down_def)
  qed
qed

lemma sched_take_Some:
  assumes "sched_inv s"
  shows "take (sq_len s) (sq_slots s) = map Some (sched_queue s)"
  using assms by (auto simp: sched_inv_def sched_queue_def intro!: nth_equalityI)

lemma sched_queue_length: "sched_inv s \<Longrightarrow> length (sched_queue s) = sq_len s"
  by (simp add: sched_inv_def sched_queue_def)

lemma sched_queue_distinct: "sched_inv s \<Longrightarrow> distinct (sched_queue s)"
  using sched_take_Some [of s] by (auto simp: sched_inv_def distinct_map)

lemma sched_slot: "sched_inv s \<Longrightarrow> i < sq_len s \<Longrightarrow> sq_slots s ! i = Some (sched_queue s ! i)"
  by (simp add: sched_inv_def sched_queue_def)

lemma contains_queue: "sched_inv s \<Longrightarrow> Scheduler_contains t s \<longleftrightarrow> t \<in> set (sched_queue s)"
  by (auto simp: Scheduler_contains_def sched_take_Some)


lemma remove1_at:
  assumes "idx < length q" and "q ! idx = t" and "\<And>j. j < idx \<Longrightarrow> q ! j \<noteq> t"
  shows "remove1 t q = take idx q @ drop (Suc idx) q"
proof -
  have "t \<notin> set (take idx q)" using assms by (auto simp: in_set_conv_nth)
  then show ?thesis
    using id_take_nth_drop [OF assms(1)] assms(2) by (metis remove1.simps(2) remove1_append)
qed

lemma scheduler_add_facts:
  assumes "sched_inv s"
  shows "sched_inv (snd (Scheduler_add t s))"
    and "fst (Scheduler_add t s) \<longleftrightarrow> length (sched_queue s) < Scheduler_capacity s \<and> t \<notin> set (sched_queue s)"
    and "sched_queue (snd (Scheduler_add t s)) =
           (if fst (Scheduler_add t s) then sched_queue s @ [t] else sched_queue s)"
proof -
  have len: "sq_len s \<le> length (sq_slots s)" using assms by (simp add: sched_inv_def)
  note q = sched_queue_length [OF assms] contains_queue [OF assms, of t] sched_take_Some [OF assms]
  show ok: "fst (Scheduler_add t s) \<longleftrightarrow> length (sched_queue s) < Scheduler_capacity s \<and> t \<notin> set (sched_queue s)"
    using len q by (auto simp: Scheduler_add_def Scheduler_capacity_def)
  show "sched_queue (snd (Scheduler_add t s)) =
           (if fst (Scheduler_add t s) then sched_queue s @ [t] else sched_queue s)"
    using len by (auto simp: Scheduler_add_def sched_queue_def take_Suc_conv_app_nth)
  show "sched_inv (snd (Scheduler_add t s))"
  proof (cases "sq_len s = length (sq_slots s) \<or> Scheduler_contains t s")
    case False
    then have lt: "sq_len s < length (sq_slots s)" using len by simp
    have "take (sq_len s + 1) ((sq_slots s)[sq_len s := Some t]) = take (sq_len s) (sq_slots s) @ [Some t]"
      using lt by (simp add: take_Suc_conv_app_nth)
    moreover have "Some t \<notin> set (take (sq_len s) (sq_slots s))" using False q by auto
    ultimately show ?thesis
      using assms lt False by (auto simp: sched_inv_def Scheduler_add_def nth_list_update split: if_splits)
  qed (use assms in \<open>simp add: Scheduler_add_def\<close>)
qed

lemma remove_at_slots:
  assumes "sched_inv s" and "idx < sq_len s"
  defines "len \<equiv> sq_len s - 1"
  defines "xs \<equiv> (shift_down idx len (sq_slots s))[len := None]"
  shows "length xs = length (sq_slots s)"
    and "j < length (sq_slots s) \<Longrightarrow>
           xs ! j = (if j < len then Some ((take idx (sched_queue s) @ drop (Suc idx) (sched_queue s)) ! j) else None)"
proof -
  have b: "sq_len s \<le> length (sq_slots s)" "length (sched_queue s) = sq_len s"
    using assms(1) by (simp_all add: sched_inv_def sched_queue_def)
  have hi: "idx \<le> len" "len < length (sq_slots s)" using assms(2) b by (simp_all add: len_def)
  show "length xs = length (sq_slots s)"
    using shift_down_nth [OF hi hi(2)] by (simp add: xs_def)
  show "xs ! j = (if j < len then Some ((take idx (sched_queue s) @ drop (Suc idx) (sched_queue s)) ! j) else None)"
    if j: "j < length (sq_slots s)"
  proof -
    have tail: "sq_slots s ! j = None" if "sq_len s \<le> j" using assms(1) j that by (auto simp: sched_inv_def)
    have slot: "sq_slots s ! k = Some (sched_queue s ! k)" if "k < sq_len s" for k
      by (rule sched_slot [OF assms(1) that])
    show ?thesis
      using shift_down_nth [OF hi j] hi j b tail slot
      by (auto simp: xs_def nth_list_update nth_append len_def)
  qed
qed

lemma scheduler_remove_facts:
  assumes "sched_inv s"
  shows "sched_inv (snd (Scheduler_remove t s))"
    and "fst (Scheduler_remove t s) \<longleftrightarrow> t \<in> set (sched_queue s)"
    and "sched_queue (snd (Scheduler_remove t s)) = remove1 t (sched_queue s)"
    and "Scheduler_capacity (snd (Scheduler_remove t s)) = Scheduler_capacity s"
proof -
  let ?pos = "position (\<lambda>x. x = Some t) (take (sq_len s) (sq_slots s))"
  have take: "take (sq_len s) (sq_slots s) = map Some (sched_queue s)" by (rule sched_take_Some [OF assms])
  have iff: "?pos = None \<longleftrightarrow> t \<notin> set (sched_queue s)" by (auto simp: position_None take)
  show "fst (Scheduler_remove t s) \<longleftrightarrow> t \<in> set (sched_queue s)"
    using iff by (auto simp: Scheduler_remove_def Let_def split: option.splits)
  have "sched_inv (snd (Scheduler_remove t s)) \<and> sched_queue (snd (Scheduler_remove t s)) = remove1 t (sched_queue s)
     \<and> Scheduler_capacity (snd (Scheduler_remove t s)) = Scheduler_capacity s"
  proof (cases ?pos)
    case None
    then show ?thesis using iff assms by (simp add: Scheduler_remove_def remove1_idem)
  next
    case (Some idx)
    let ?len = "sq_len s - 1" and ?q = "sched_queue s"
    let ?xs = "(shift_down idx ?len (sq_slots s))[?len := None]"
    let ?s = "snd (Scheduler_remove t s)"
    have q: "length ?q = sq_len s" by (rule sched_queue_length [OF assms])
    have idx: "idx < sq_len s" "?q ! idx = t" "\<And>j. j < idx \<Longrightarrow> ?q ! j \<noteq> t"
      using position_SomeD [OF Some] q by (auto simp: take)
    note rem = remove1_at [of idx ?q t, OF _ idx(2,3)]
    note xs = remove_at_slots [OF assms idx(1)]
    have s: "sq_slots ?s = ?xs" "sq_len ?s = ?len" "Scheduler_capacity ?s = Scheduler_capacity s"
      using xs(1) by (simp_all add: Scheduler_remove_def Some Let_def Scheduler_capacity_def)
    have cur: "if ?len = 0 then sq_cur ?s = 0 else sq_cur ?s < ?len"
      using assms idx(1) by (auto simp: Scheduler_remove_def Some Let_def sched_inv_def)
    have r: "remove1 t ?q = take idx ?q @ drop (Suc idx) ?q" using rem idx q by simp
    have lr: "length (remove1 t ?q) = ?len" using r q idx(1) by simp
    have le: "?len < length (sq_slots s)" using assms idx(1) by (auto simp: sched_inv_def)
    have tk: "take ?len ?xs = map Some (remove1 t ?q)"
    proof (rule nth_equalityI)
      fix j assume "j < length (take ?len ?xs)"
      then have "j < ?len" "j < length (sq_slots s)" using le by auto
      then show "take ?len ?xs ! j = map Some (remove1 t ?q) ! j" using xs(2) [of j] lr by (simp add: r [symmetric])
    qed (use xs(1) le lr in simp)
    have qs: "sched_queue ?s = remove1 t ?q" using tk s by (simp add: sched_queue_def o_def)
    have "sched_inv ?s"
      unfolding sched_inv_def s(1,2) using cur xs le tk sched_queue_distinct [OF assms]
      by (auto simp: distinct_map distinct_remove1)
    with qs s show ?thesis by simp
  qed
  then show "sched_inv (snd (Scheduler_remove t s))" "sched_queue (snd (Scheduler_remove t s)) = remove1 t (sched_queue s)"
    "Scheduler_capacity (snd (Scheduler_remove t s)) = Scheduler_capacity s" by auto
qed

interpretation sched_rq: run_queue sched_inv sched_queue Scheduler_capacity Scheduler_add
  Scheduler_remove Scheduler_current
proof (unfold_locales, goal_cases)
  case (1 s) then show ?case by (rule sched_queue_distinct)
next
  case (2 s) then show ?case by (simp add: sched_queue_length Scheduler_capacity_def) (simp add: sched_inv_def)
next
  case (3 s t) then show ?case by (rule scheduler_add_facts(1))
next
  case (4 t s) show ?case by (simp add: Scheduler_add_def Scheduler_capacity_def)
next
  case (5 s t) then show ?case by (rule scheduler_add_facts(2))
next
  case (6 s t) then show ?case by (rule scheduler_add_facts(3))
next
  case (7 s t) then show ?case by (rule scheduler_remove_facts(1))
next
  case (8 s t) then show ?case by (rule scheduler_remove_facts(4))
next
  case (9 s t) then show ?case by (rule scheduler_remove_facts(2))
next
  case (10 s t) then show ?case by (rule scheduler_remove_facts(3))
next
  case (11 s)
  then show ?case
    using sched_queue_length [of s] sched_slot [of s "sq_cur s"]
    by (auto simp: Scheduler_current_def sched_inv_def split: if_splits)
next
  case (12 s t)
  then show ?case
    using sched_queue_length [of s] sched_slot [of s "sq_cur s"]
    by (auto simp: Scheduler_current_def sched_inv_def split: if_splits)
qed


section \<open>Round robin\<close>

primrec next_n :: "nat \<Rightarrow> Scheduler \<Rightarrow> ThreadId option list" where
  "next_n 0 s = []"
| "next_n (Suc n) s = fst (Scheduler_next s) # next_n n (snd (Scheduler_next s))"

lemma scheduler_next_facts:
  assumes "sched_inv s" and "sq_len s > 0"
  shows "sched_inv (snd (Scheduler_next s))"
    and "sched_queue (snd (Scheduler_next s)) = sched_queue s"
    and "sq_len (snd (Scheduler_next s)) = sq_len s"
    and "sq_cur (snd (Scheduler_next s)) = (sq_cur s + 1) mod sq_len s"
    and "fst (Scheduler_next s) = Some (sched_queue s ! ((sq_cur s + 1) mod sq_len s))"
  using assms sched_slot [OF assms(1), of "(sq_cur s + 1) mod sq_len s"]
  by (auto simp: Scheduler_next_def Let_def sched_inv_def sched_queue_def)

lemma next_n_rotates:
  assumes "sched_inv s" and "sq_len s > 0"
  shows "next_n n s = map (\<lambda>k. Some (sched_queue s ! ((sq_cur s + 1 + k) mod sq_len s))) [0..<n]"
  using assms
proof (induction n arbitrary: s)
  case (Suc n)
  let ?s = "snd (Scheduler_next s)"
  note nf = scheduler_next_facts [OF Suc.prems]
  have "next_n n ?s = map (\<lambda>k. Some (sched_queue ?s ! ((sq_cur ?s + 1 + k) mod sq_len ?s))) [0..<n]"
    using Suc.IH [of ?s] nf(1,3) Suc.prems(2) by simp
  also have "\<dots> = map (\<lambda>k. Some (sched_queue s ! ((sq_cur s + 1 + Suc k) mod sq_len s))) [0..<n]"
  proof -
    have "((sq_cur s + 1) mod sq_len s + 1 + k) mod sq_len s = (sq_cur s + 1 + Suc k) mod sq_len s" for k
      using mod_add_left_eq [of "sq_cur s + 1" "sq_len s" "1 + k"] by (simp add: ac_simps)
    then show ?thesis by (simp add: nf del: One_nat_def)
  qed
  finally show ?case using nf(5) by (simp add: upt_conv_Cons map_Suc_upt [symmetric] o_def del: upt_Suc)
qed simp

text \<open>A queue of three threads for the witnesses.\<close>

definition three_threads :: Scheduler where
  "three_threads = \<lparr>sq_slots = [Some 4, Some 2, Some 7, None], sq_len = 3, sq_cur = 1\<rparr>"

lemma three_threads_inv: "sched_inv three_threads" "sched_queue three_threads = [4, 2, 7]"
  by (auto simp: three_threads_def sched_inv_def sched_queue_def numeral_eq_Suc less_Suc_eq)

text \<open>
  (C37) Round-robin fairness: from any reachable queue, as many consecutive calls of \<open>next\<close> as there
  are queued threads return every queued thread exactly once, in queue order starting after the
  current one, and the current thread last.
\<close>

theorem round_robin_no_starvation:
  assumes "sched_inv s" and "sq_len s > 0"
  shows "next_n (sq_len s) s = map Some (rotate (sq_cur s + 1) (sched_queue s))
    \<and> distinct (next_n (sq_len s) s)
    \<and> set (next_n (sq_len s) s) = Some ` set (sched_queue s)
    \<and> last (next_n (sq_len s) s) = Scheduler_current s"
proof -
  let ?q = "sched_queue s" and ?c = "sq_cur s + 1"
  have len: "length ?q = sq_len s" by (rule sched_queue_length [OF assms(1)])
  have rot: "next_n (sq_len s) s = map Some (rotate ?c ?q)"
  proof (rule nth_equalityI)
    fix k assume "k < length (next_n (sq_len s) s)"
    then have k: "k < sq_len s" by (simp add: next_n_rotates [OF assms])
    have "rotate ?c ?q ! k = ?q ! ((?c + k) mod sq_len s)"
      using nth_rotate [of k ?q ?c] k len by simp
    then show "next_n (sq_len s) s ! k = map Some (rotate ?c ?q) ! k"
      using k by (simp add: next_n_rotates [OF assms] len del: rotate_Suc)
  qed (simp add: next_n_rotates [OF assms] len)
  have cur: "sq_cur s < sq_len s" using assms by (auto simp: sched_inv_def split: if_splits)
  have "(?c + (sq_len s - 1)) mod sq_len s = sq_cur s" using cur assms(2) by simp
  then have "last (next_n (sq_len s) s) = Some (?q ! sq_cur s)"
    using assms(2) by (simp add: next_n_rotates [OF assms] last_map)
  also have "\<dots> = Scheduler_current s" using sched_slot [OF assms(1) cur] assms(2)
    by (simp add: Scheduler_current_def)
  finally show ?thesis
    using rot sched_queue_distinct [OF assms(1)] by (simp add: distinct_map)
qed

theorem round_robin_no_starvation_witness:
  "next_n 3 three_threads = [Some 7, Some 4, Some 2]"
proof -
  have "sq_len three_threads > 0" by (simp add: three_threads_def)
  from round_robin_no_starvation [OF three_threads_inv(1) this] three_threads_inv(2)
  show ?thesis by (simp add: three_threads_def numeral_eq_Suc)
qed

section \<open>The order of turns\<close>

text \<open>
  The abstract scheduler: the threads in the order they have their turns, the current one first.
  The array and its cursor are a rotation of it.
\<close>

definition turns :: "Scheduler \<Rightarrow> ThreadId list" where
  "turns s = rotate (sq_cur s) (sched_queue s)"

lemma turns_props [simp]:
  "set (turns s) = set (sched_queue s)" "length (turns s) = length (sched_queue s)" "distinct (turns s) = distinct (sched_queue s)"
  by (simp_all add: turns_def)

lemma cursor_in_range: "sched_inv s \<Longrightarrow> sq_len s \<noteq> 0 \<Longrightarrow> sq_cur s < sq_len s"
  by (simp add: sched_inv_def)

lemma turns_split: "sched_inv s \<Longrightarrow> turns s = drop (sq_cur s) (sched_queue s) @ take (sq_cur s) (sched_queue s)"
  using sched_queue_length [of s] cursor_in_range [of s]
  by (cases "sq_len s = 0") (simp_all add: turns_def rotate_drop_take)

lemma current_turn:
  assumes "sched_inv s"
  shows "Scheduler_current s = (case turns s of [] \<Rightarrow> None | t # ts \<Rightarrow> Some t)"
proof (cases "sq_len s = 0")
  case True
  then have "turns s = []" using sched_queue_length [OF assms] turns_props(2) [of s] by (simp del: turns_props)
  then show ?thesis using True by (simp add: Scheduler_current_def)
next
  case False
  note c = cursor_in_range [OF assms False]
  then have "turns s = sched_queue s ! sq_cur s # drop (Suc (sq_cur s)) (sched_queue s) @ take (sq_cur s) (sched_queue s)"
    using turns_split [OF assms] sched_queue_length [OF assms] by (simp add: Cons_nth_drop_Suc [symmetric])
  then show ?thesis using False sched_slot [OF assms c] by (simp add: Scheduler_current_def)
qed

lemma next_turn:
  assumes "sched_inv s"
  shows "turns (snd (Scheduler_next s)) = rotate1 (turns s)" and "fst (Scheduler_next s) = Scheduler_current (snd (Scheduler_next s))"
    and "sched_inv (snd (Scheduler_next s))" and "Scheduler_capacity (snd (Scheduler_next s)) = Scheduler_capacity s"
proof -
  show "turns (snd (Scheduler_next s)) = rotate1 (turns s)"
  proof (cases "sq_len s = 0")
    case False
    note n = scheduler_next_facts [OF assms, of]
    from False have "turns (snd (Scheduler_next s)) = rotate ((sq_cur s + 1) mod length (sched_queue s)) (sched_queue s)"
      using n sched_queue_length [OF assms] by (simp add: turns_def)
    then show ?thesis by (simp add: turns_def rotate_conv_mod [symmetric])
  qed (use sched_queue_length [OF assms] in \<open>simp add: turns_def Scheduler_next_def\<close>)
  show "fst (Scheduler_next s) = Scheduler_current (snd (Scheduler_next s))"
    by (simp add: Scheduler_next_def Scheduler_current_def Let_def)
  show "sched_inv (snd (Scheduler_next s))"
    using assms scheduler_next_facts(1) [OF assms] by (cases "sq_len s = 0") (simp_all add: Scheduler_next_def)
  show "Scheduler_capacity (snd (Scheduler_next s)) = Scheduler_capacity s"
    by (simp add: Scheduler_next_def Scheduler_capacity_def Let_def)
qed

lemma add_turn:
  assumes "sched_inv s" and "fst (Scheduler_add t s)"
  shows "turns (snd (Scheduler_add t s)) = take (sq_len s - sq_cur s) (turns s) @ t # drop (sq_len s - sq_cur s) (turns s)"
proof -
  have l: "length (sched_queue s) = sq_len s" "sq_cur s \<le> sq_len s"
    using sched_queue_length [OF assms(1)] cursor_in_range [OF assms(1)] assms(1) by (auto simp: sched_inv_def split: if_splits)
  have "sq_cur (snd (Scheduler_add t s)) = sq_cur s" by (simp add: Scheduler_add_def)
  then have "turns (snd (Scheduler_add t s)) = drop (sq_cur s) (sched_queue s @ [t]) @ take (sq_cur s) (sched_queue s @ [t])"
    using turns_split [OF scheduler_add_facts(1) [OF assms(1)]] scheduler_add_facts(3) [OF assms(1)] assms(2) by simp
  then show ?thesis using turns_split [OF assms(1)] l by simp
qed

lemma remove_turn:
  assumes "sched_inv s"
  shows "turns (snd (Scheduler_remove t s)) = remove1 t (turns s)"
proof (cases "position (\<lambda>x. x = Some t) (take (sq_len s) (sq_slots s))")
  case None
  then have "t \<notin> set (sched_queue s)" by (auto simp: position_None sched_take_Some [OF assms])
  then show ?thesis using None by (simp add: Scheduler_remove_def remove1_idem)
next
  case (Some idx)
  let ?q = "sched_queue s" and ?c = "sq_cur s" and ?s = "snd (Scheduler_remove t s)"
  have l: "length ?q = sq_len s" by (rule sched_queue_length [OF assms])
  have idx: "idx < sq_len s" "?q ! idx = t"
    using position_SomeD [OF Some] l by (auto simp: sched_take_Some [OF assms])
  then have c: "?c < sq_len s" using cursor_in_range [OF assms] by simp
  have q': "sched_queue ?s = remove1 t ?q" by (rule scheduler_remove_facts(3) [OF assms])
  have d: "distinct (take ?c ?q @ drop ?c ?q)" using sched_queue_distinct [OF assms] by simp
  have split: "remove1 t ?q = (if t \<in> set (take ?c ?q) then remove1 t (take ?c ?q) @ drop ?c ?q
      else take ?c ?q @ remove1 t (drop ?c ?q))"
    using remove1_append [of t "take ?c ?q" "drop ?c ?q"] by simp
  have T: "turns s = drop ?c ?q @ take ?c ?q" by (rule turns_split [OF assms])
  show ?thesis
  proof (cases "idx < ?c")
    case True
    then have t: "t \<in> set (take ?c ?q)" using idx l c by (auto simp: in_set_conv_nth)
    then have nt: "t \<notin> set (drop ?c ?q)" using d unfolding distinct_append by blast
    have c': "sq_cur ?s = ?c - 1" using True c by (simp add: Scheduler_remove_def Some Let_def)
    have "remove1 t ?q = remove1 t (take ?c ?q) @ drop ?c ?q" by (simp only: split t if_True)
    moreover have "length (remove1 t (take ?c ?q)) = ?c - 1" using t l c by (simp add: length_remove1)
    ultimately have "turns ?s = drop ?c ?q @ remove1 t (take ?c ?q)"
      unfolding turns_def q' c' by (metis rotate_append)
    then show ?thesis using T nt by (simp add: remove1_append)
  next
    case False
    then have t: "t \<in> set (drop ?c ?q)" using idx l by (auto simp: in_set_conv_nth intro!: exI [of _ "idx - ?c"])
    then have nt: "t \<notin> set (take ?c ?q)" using d unfolding distinct_append by blast
    have r: "remove1 t ?q = take ?c ?q @ remove1 t (drop ?c ?q)" by (simp only: split nt if_False)
    have c': "sq_cur ?s = (if sq_len s - 1 \<le> ?c then 0 else ?c)" using False by (simp add: Scheduler_remove_def Some Let_def)
    have "turns ?s = remove1 t (drop ?c ?q) @ take ?c ?q"
    proof (cases "sq_len s - 1 \<le> ?c")
      case True
      then have "remove1 t (drop ?c ?q) = []" using t l c by (simp add: length_remove1 flip: length_0_conv)
      then show ?thesis using True c' r by (simp add: turns_def q')
    next
      case False
      have "length (take ?c ?q) = ?c" using l c by simp
      then show ?thesis using False c' r unfolding turns_def q' by (metis rotate_append)
    qed
    then show ?thesis using T t by (simp add: remove1_append)
  qed
qed

text \<open>
  (C38) The array and its cursor refine the order of turns, the current thread first: \<open>next\<close> moves the
  first thread to the end and returns the new first one; removing takes out exactly the named thread
  and leaves the order of the others, so the current thread stays current unless it is the one
  removed, and then its successor is; adding fails exactly when there is no room or the thread is
  queued already, and otherwise gives it the turn after the last slot of the array. Every operation
  keeps the representation invariant and the capacity, and where every thread number has a place,
  adding a thread cannot leave it out, so a wake-up is never lost.
\<close>

theorem scheduler_queue_discipline:
  assumes "sched_inv s"
  shows "distinct (turns s) \<and> Scheduler_current s = (case turns s of [] \<Rightarrow> None | t # ts \<Rightarrow> Some t)
    \<and> (let (r, s') = Scheduler_next s
       in sched_inv s' \<and> Scheduler_capacity s' = Scheduler_capacity s \<and> turns s' = rotate1 (turns s) \<and> r = Scheduler_current s')
    \<and> (let (r, s') = Scheduler_remove t s
       in sched_inv s' \<and> Scheduler_capacity s' = Scheduler_capacity s \<and> (r \<longleftrightarrow> t \<in> set (turns s))
         \<and> turns s' = remove1 t (turns s))
    \<and> (let (r, s') = Scheduler_add t s; k = sq_len s - sq_cur s
       in sched_inv s' \<and> Scheduler_capacity s' = Scheduler_capacity s
         \<and> (r \<longleftrightarrow> length (turns s) < Scheduler_capacity s \<and> t \<notin> set (turns s))
         \<and> turns s' = (if r then take k (turns s) @ t # drop k (turns s) else turns s)
         \<and> (set (turns s) \<subseteq> {..<Scheduler_capacity s} \<and> t < Scheduler_capacity s \<longrightarrow> set (turns s') = insert t (set (turns s))))"
proof -
  obtain rn sn where n: "Scheduler_next s = (rn, sn)" by fastforce
  obtain rr sr where r: "Scheduler_remove t s = (rr, sr)" by fastforce
  obtain ra sa where a: "Scheduler_add t s = (ra, sa)" by fastforce
  have "turns sa = turns s" if "\<not> ra"
    using that a by (auto simp: Scheduler_add_def split: if_splits)
  moreover have "set (turns sa) = insert t (set (turns s))"
    if "set (turns s) \<subseteq> {..<Scheduler_capacity s}" "t < Scheduler_capacity s"
    using sched_rq.add_queues [OF assms _ that(2)] that(1) a by simp
  ultimately show ?thesis
    using next_turn [OF assms] remove_turn [OF assms, of t] add_turn [OF assms, of t] current_turn [OF assms]
      sched_queue_distinct [OF assms] scheduler_remove_facts [OF assms, of t] scheduler_add_facts [OF assms, of t]
      sched_rq.capacity_add [of t s]
    unfolding n r a by simp
qed

theorem scheduler_queue_discipline_witness:
  "turns three_threads = [2, 7, 4] \<and> turns (snd (Scheduler_remove 4 three_threads)) = [2, 7]
    \<and> turns (snd (Scheduler_next three_threads)) = [7, 4, 2] \<and> turns (snd (Scheduler_add 1 three_threads)) = [2, 7, 1, 4]"
proof -
  have t: "turns three_threads = [2, 7, 4]"
    unfolding turns_def three_threads_inv(2) by (simp add: three_threads_def)
  have f: "sq_len three_threads - sq_cur three_threads = 2" "Scheduler_capacity three_threads = 4"
    by (simp_all add: three_threads_def Scheduler_capacity_def)
  note d = scheduler_queue_discipline [OF three_threads_inv(1), unfolded t f]
  show ?thesis using d [of 4] d [of 1] by (simp add: t split: prod.splits)
qed

end
