(* ===== verification/Ipc.thy ===== *)
theory Ipc
  imports Abi
begin

text \<open>
  Synchronous endpoints (src/crates/ipc): two fixed-capacity ring buffers of blocked senders and
  receivers. The ring buffer is interpreted as a bounded FIFO queue; over that interface the
  endpoint refines a pair of lists, never holds both kinds of waiter, and delivers exactly the
  messages that were sent, once each and in order.
\<close>

section \<open>The ring buffer\<close>

record 'a RQueue =
  rq_buf :: "'a option list"
  rq_head :: usize
  rq_len :: usize

definition Queue_new :: "nat \<Rightarrow> 'a RQueue" where
  "Queue_new n = \<lparr>rq_buf = replicate n None, rq_head = 0, rq_len = 0\<rparr>"

definition Queue_is_empty :: "'a RQueue \<Rightarrow> bool" where
  "Queue_is_empty q \<longleftrightarrow> rq_len q = 0"

definition Queue_is_full :: "'a RQueue \<Rightarrow> bool" where
  "Queue_is_full q \<longleftrightarrow> rq_len q = length (rq_buf q)"

text \<open>\<open>Inl v\<close> is \<open>Err(v)\<close>: the queue was full and is unchanged.\<close>

definition Queue_push_back :: "'a \<Rightarrow> 'a RQueue \<Rightarrow> 'a + 'a RQueue" where
  "Queue_push_back v q =
     (if Queue_is_full q then Inl v
      else let idx = (rq_head q + rq_len q) mod length (rq_buf q)
           in Inr (q\<lparr>rq_buf := (rq_buf q)[idx := Some v], rq_len := rq_len q + 1\<rparr>))"

definition Queue_pop_front :: "'a RQueue \<Rightarrow> 'a option \<times> 'a RQueue" where
  "Queue_pop_front q =
     (if rq_len q = 0 then (None, q)
      else (rq_buf q ! rq_head q,
            q\<lparr>rq_buf := (rq_buf q)[rq_head q := None],
              rq_head := (rq_head q + 1) mod length (rq_buf q), rq_len := rq_len q - 1\<rparr>))"

section \<open>The interface of a bounded queue\<close>

locale bounded_queue =
  fixes inv :: "'q \<Rightarrow> bool"
    and contents :: "'q \<Rightarrow> 'a list"
    and capacity :: "'q \<Rightarrow> nat"
    and push :: "'a \<Rightarrow> 'q \<Rightarrow> 'a + 'q"
    and pop :: "'q \<Rightarrow> 'a option \<times> 'q"
  assumes push_full: "inv q \<Longrightarrow> length (contents q) = capacity q \<Longrightarrow> push v q = Inl v"
    and push_room: "inv q \<Longrightarrow> length (contents q) < capacity q \<Longrightarrow>
          \<exists>q'. push v q = Inr q' \<and> inv q' \<and> contents q' = contents q @ [v] \<and> capacity q' = capacity q"
    and pop_empty: "inv q \<Longrightarrow> contents q = [] \<Longrightarrow> pop q = (None, q)"
    and pop_cons: "inv q \<Longrightarrow> contents q = v # vs \<Longrightarrow>
          \<exists>q'. pop q = (Some v, q') \<and> inv q' \<and> contents q' = vs \<and> capacity q' = capacity q"
    and bound: "inv q \<Longrightarrow> length (contents q) \<le> capacity q"
begin

lemma push_cases:
  assumes "inv q"
  obtains (full) "length (contents q) = capacity q" "push v q = Inl v"
  | (room) q' where "length (contents q) < capacity q" "push v q = Inr q'" "inv q'"
      "contents q' = contents q @ [v]" "capacity q' = capacity q"
  using push_full [OF assms] push_room [OF assms] bound [OF assms] by (cases "length (contents q) = capacity q") force+

lemma pop_cases:
  assumes "inv q"
  obtains (empty) "contents q = []" "pop q = (None, q)"
  | (front) v vs q' where "contents q = v # vs" "pop q = (Some v, q')" "inv q'"
      "contents q' = vs" "capacity q' = capacity q"
  using pop_empty [OF assms] pop_cons [OF assms] by (cases "contents q") force+

end

definition ring_inv :: "'a RQueue \<Rightarrow> bool" where
  "ring_inv q \<longleftrightarrow> rq_len q \<le> length (rq_buf q)
     \<and> (rq_buf q \<noteq> [] \<longrightarrow> rq_head q < length (rq_buf q))
     \<and> (\<forall>i<rq_len q. rq_buf q ! ((rq_head q + i) mod length (rq_buf q)) \<noteq> None)"

definition ring_contents :: "'a RQueue \<Rightarrow> 'a list" where
  "ring_contents q = map (\<lambda>i. the (rq_buf q ! ((rq_head q + i) mod length (rq_buf q)))) [0..<rq_len q]"

definition ring_capacity :: "'a RQueue \<Rightarrow> nat" where
  "ring_capacity q = length (rq_buf q)"

lemma mod_add_inj:
  fixes h i j n :: nat
  assumes "(h + i) mod n = (h + j) mod n" and "i < n" and "j < n"
  shows "i = j"
proof -
  have le: "a = b" if "a \<le> b" "b < n" "(h + a) mod n = (h + b) mod n" for a b
  proof -
    have "n dvd (h + b) - (h + a)" using that mod_eq_dvd_iff_nat [of "h + a" "h + b" n] by simp
    then have "n dvd b - a" by simp
    then show ?thesis using that dvd_imp_le [of n "b - a"] by (cases "b - a = 0") auto
  qed
  show ?thesis using le [of i j] le [of j i] assms by (cases "i \<le> j") auto
qed

lemma ring_push_room:
  assumes "ring_inv q" and "rq_len q < length (rq_buf q)"
  shows "\<exists>q'. Queue_push_back v q = Inr q' \<and> ring_inv q' \<and> ring_contents q' = ring_contents q @ [v]
    \<and> ring_capacity q' = ring_capacity q"
proof -
  let ?n = "length (rq_buf q)" and ?h = "rq_head q"
  let ?idx = "(?h + rq_len q) mod ?n"
  let ?q = "q\<lparr>rq_buf := (rq_buf q)[?idx := Some v], rq_len := rq_len q + 1\<rparr>"
  have idx: "?idx < ?n" using assms(2) by (cases "rq_buf q") simp_all
  have ne: "(?h + i) mod ?n \<noteq> ?idx" if "i < rq_len q" for i
    using mod_add_inj [of ?h i ?n "rq_len q"] that assms(2) by auto
  have "Queue_push_back v q = Inr ?q"
    using assms(2) by (simp add: Queue_push_back_def Queue_is_full_def Let_def)
  moreover have "ring_inv ?q"
    using assms idx ne by (auto simp: ring_inv_def less_Suc_eq nth_list_update)
  moreover have "ring_contents ?q = ring_contents q @ [v]"
    using idx ne [symmetric] by (simp add: ring_contents_def)
  ultimately show ?thesis by (simp add: ring_capacity_def)
qed

lemma ring_pop_cons:
  assumes "ring_inv q" and "rq_len q > 0"
  shows "\<exists>q'. Queue_pop_front q = (Some (hd (ring_contents q)), q') \<and> ring_inv q'
    \<and> ring_contents q' = tl (ring_contents q) \<and> ring_capacity q' = ring_capacity q"
proof -
  let ?n = "length (rq_buf q)" and ?h = "rq_head q"
  let ?q = "snd (Queue_pop_front q)"
  have n: "0 < ?n" "?h < ?n" using assms by (auto simp: ring_inv_def)
  have head: "rq_buf q ! ?h \<noteq> None" using assms n by (auto simp: ring_inv_def dest: spec [of _ 0])
  have ne: "(?h + Suc i) mod ?n \<noteq> ?h" if "Suc i < rq_len q" for i
    using mod_add_inj [of ?h "Suc i" ?n 0] that n assms(1) by (auto simp: ring_inv_def)
  have shift: "(Suc ?h mod ?n + i) mod ?n = (?h + Suc i) mod ?n" for i
    by (simp add: mod_simps)
  have hd: "hd (ring_contents q) = the (rq_buf q ! ?h)"
    using assms(2) n by (simp add: ring_contents_def hd_map upt_conv_Cons)
  have tl: "tl (ring_contents q) = map (\<lambda>i. the (rq_buf q ! ((?h + Suc i) mod ?n))) [0..<rq_len q - 1]"
    using assms(2) by (cases "rq_len q") (simp_all add: ring_contents_def upt_conv_Cons map_Suc_upt [symmetric] o_def del: upt_Suc)
  have q: "Queue_pop_front q = (rq_buf q ! ?h, ?q)" "rq_buf ?q = (rq_buf q)[?h := None]"
      "rq_head ?q = Suc ?h mod ?n" "rq_len ?q = rq_len q - 1"
    using assms(2) by (simp_all add: Queue_pop_front_def)
  have "ring_contents ?q = tl (ring_contents q)"
    unfolding tl unfolding ring_contents_def q(2-4) by (rule map_cong) (use ne [symmetric] in \<open>simp_all add: shift del: add_Suc_right\<close>)
  moreover have "ring_inv ?q"
    using assms n ne [symmetric] unfolding ring_inv_def q(2-4) by (simp add: shift le_diff_conv le_SucI del: add_Suc_right)
  ultimately show ?thesis using q hd head by (auto simp: ring_capacity_def)
qed

interpretation ring: bounded_queue ring_inv ring_contents ring_capacity Queue_push_back Queue_pop_front
proof (unfold_locales, goal_cases)
  case (1 q v)
  then show ?case by (simp add: ring_contents_def ring_capacity_def Queue_push_back_def Queue_is_full_def)
next
  case (2 q v)
  then show ?case using ring_push_room [of q v] by (simp add: ring_contents_def ring_capacity_def)
next
  case (3 q)
  then show ?case by (simp add: ring_contents_def Queue_pop_front_def)
next
  case (4 q v vs)
  then have "rq_len q \<noteq> 0" by (cases "rq_len q = 0") (simp_all add: ring_contents_def)
  then have "rq_len q > 0" by simp
  from ring_pop_cons [OF 4(1) this] 4(2) show ?case by simp
next
  case (5 q)
  then show ?case by (simp add: ring_inv_def ring_contents_def ring_capacity_def)
qed

section \<open>Endpoints\<close>

definition MAX_WORDS :: usize where "MAX_WORDS = 8"

datatype IpcAction =
    Deliver (act_to: ThreadId) (act_from: ThreadId) (act_msg: MessageInfo) (act_words: "u64 list")
      (act_wake_sender: bool)
  | Block ThreadId
  | QueueFull ThreadId
  | Nothing

record BlockedSender =
  bs_tid :: ThreadId
  bs_msg :: MessageInfo
  bs_words :: "u64 list"

record IpcEndpoint =
  send_q :: "BlockedSender RQueue"
  recv_q :: "ThreadId RQueue"

definition Endpoint_new :: "nat \<Rightarrow> IpcEndpoint" where
  "Endpoint_new n = \<lparr>send_q = Queue_new n, recv_q = Queue_new n\<rparr>"

definition Endpoint_is_idle :: "IpcEndpoint \<Rightarrow> bool" where
  "Endpoint_is_idle e \<longleftrightarrow> Queue_is_empty (send_q e) \<and> Queue_is_empty (recv_q e)"

definition has_blocked_senders :: "IpcEndpoint \<Rightarrow> bool" where
  "has_blocked_senders e \<longleftrightarrow> \<not> Queue_is_empty (send_q e)"

definition has_blocked_receivers :: "IpcEndpoint \<Rightarrow> bool" where
  "has_blocked_receivers e \<longleftrightarrow> \<not> Queue_is_empty (recv_q e)"

definition copy_words :: "u64 list \<Rightarrow> u64 list" where
  "copy_words src =
     (let n = (if length src < MAX_WORDS then length src else MAX_WORDS)
      in take n src @ replicate (MAX_WORDS - n) 0)"

definition Endpoint_send ::
    "ThreadId \<Rightarrow> MessageInfo \<Rightarrow> u64 list \<Rightarrow> IpcEndpoint \<Rightarrow> IpcAction \<times> IpcEndpoint" where
  "Endpoint_send from msg words e =
     (let buf = copy_words words in
      case Queue_pop_front (recv_q e) of
        (Some to, q) \<Rightarrow> (Deliver to from msg buf False, e\<lparr>recv_q := q\<rparr>)
      | (None, _) \<Rightarrow>
          (case Queue_push_back \<lparr>bs_tid = from, bs_msg = msg, bs_words = buf\<rparr> (send_q e) of
             Inr q \<Rightarrow> (Block from, e\<lparr>send_q := q\<rparr>)
           | Inl _ \<Rightarrow> (QueueFull from, e)))"

definition Endpoint_recv :: "ThreadId \<Rightarrow> IpcEndpoint \<Rightarrow> IpcAction \<times> IpcEndpoint" where
  "Endpoint_recv by' e =
     (case Queue_pop_front (send_q e) of
        (Some s, q) \<Rightarrow> (Deliver by' (bs_tid s) (bs_msg s) (bs_words s) True, e\<lparr>send_q := q\<rparr>)
      | (None, _) \<Rightarrow>
          (case Queue_push_back by' (recv_q e) of
             Inr q \<Rightarrow> (Block by', e\<lparr>recv_q := q\<rparr>)
           | Inl _ \<Rightarrow> (QueueFull by', e)))"

section \<open>The abstract endpoint\<close>

text \<open>
  The contract: an endpoint is a list of captured messages and a list of waiting receivers, each
  bounded by the capacity; a rendezvous takes the oldest of the other side.
\<close>

type_synonym AbsEndpoint = "BlockedSender list \<times> ThreadId list"

definition ep_abs :: "IpcEndpoint \<Rightarrow> AbsEndpoint" where
  "ep_abs e = (ring_contents (send_q e), ring_contents (recv_q e))"

definition ep_inv :: "nat \<Rightarrow> IpcEndpoint \<Rightarrow> bool" where
  "ep_inv n e \<longleftrightarrow> ring_inv (send_q e) \<and> ring_inv (recv_q e) \<and> ring_capacity (send_q e) = n
     \<and> ring_capacity (recv_q e) = n
     \<and> (ring_contents (send_q e) = [] \<or> ring_contents (recv_q e) = [])"

fun abs_send :: "nat \<Rightarrow> BlockedSender \<Rightarrow> AbsEndpoint \<Rightarrow> IpcAction \<times> AbsEndpoint" where
  "abs_send n s (ss, r # rs) = (Deliver r (bs_tid s) (bs_msg s) (bs_words s) False, (ss, rs))"
| "abs_send n s (ss, []) =
     (if length ss < n then (Block (bs_tid s), (ss @ [s], [])) else (QueueFull (bs_tid s), (ss, [])))"

fun abs_recv :: "nat \<Rightarrow> ThreadId \<Rightarrow> AbsEndpoint \<Rightarrow> IpcAction \<times> AbsEndpoint" where
  "abs_recv n r (s # ss, rs) = (Deliver r (bs_tid s) (bs_msg s) (bs_words s) True, (ss, rs))"
| "abs_recv n r ([], rs) =
     (if length rs < n then (Block r, ([], rs @ [r])) else (QueueFull r, ([], rs)))"

lemma Endpoint_send_refines:
  assumes "ep_inv n e"
  shows "ep_inv n (snd (Endpoint_send from msg ws e))"
    and "map_prod id ep_abs (Endpoint_send from msg ws e)
         = abs_send n \<lparr>bs_tid = from, bs_msg = msg, bs_words = copy_words ws\<rparr> (ep_abs e)"
proof -
  let ?s = "\<lparr>bs_tid = from, bs_msg = msg, bs_words = copy_words ws\<rparr>"
  have i: "ring_inv (recv_q e)" "ring_inv (send_q e)" "ring_capacity (send_q e) = n"
    using assms by (auto simp: ep_inv_def)
  have "ep_inv n (snd (Endpoint_send from msg ws e)) \<and>
    map_prod id ep_abs (Endpoint_send from msg ws e) = abs_send n ?s (ep_abs e)"
  proof (cases rule: ring.pop_cases [OF i(1)])
    case 1
    then show ?thesis using i assms
      by (cases rule: ring.push_cases [OF i(2), of ?s]) (simp_all add: Endpoint_send_def ep_abs_def ep_inv_def Let_def)
  next
    case (2 v vs q')
    then show ?thesis using i assms by (simp add: Endpoint_send_def ep_abs_def ep_inv_def Let_def)
  qed
  then show "ep_inv n (snd (Endpoint_send from msg ws e))"
    and "map_prod id ep_abs (Endpoint_send from msg ws e) = abs_send n ?s (ep_abs e)" by blast+
qed

lemma Endpoint_recv_refines:
  assumes "ep_inv n e"
  shows "ep_inv n (snd (Endpoint_recv r e))"
    and "map_prod id ep_abs (Endpoint_recv r e) = abs_recv n r (ep_abs e)"
proof -
  have i: "ring_inv (recv_q e)" "ring_inv (send_q e)" "ring_capacity (recv_q e) = n"
    using assms by (auto simp: ep_inv_def)
  have "ep_inv n (snd (Endpoint_recv r e)) \<and>
    map_prod id ep_abs (Endpoint_recv r e) = abs_recv n r (ep_abs e)"
  proof (cases rule: ring.pop_cases [OF i(2)])
    case 1
    then show ?thesis using i assms
      by (cases rule: ring.push_cases [OF i(1), of r]) (simp_all add: Endpoint_recv_def ep_abs_def ep_inv_def)
  next
    case (2 v vs q')
    then show ?thesis using i assms by (simp add: Endpoint_recv_def ep_abs_def ep_inv_def)
  qed
  then show "ep_inv n (snd (Endpoint_recv r e))"
    and "map_prod id ep_abs (Endpoint_recv r e) = abs_recv n r (ep_abs e)" by blast+
qed

lemma ep_inv_new: "ep_inv n (Endpoint_new n)" "ep_abs (Endpoint_new n) = ([], [])"
  by (auto simp: ep_inv_def ep_abs_def Endpoint_new_def Queue_new_def ring_inv_def ring_capacity_def ring_contents_def)

section \<open>Sequences of sends and receives\<close>

datatype IpcEvent = SendEv ThreadId MessageInfo "u64 list" | RecvEv ThreadId

fun ipc_step :: "IpcEvent \<Rightarrow> IpcEndpoint \<Rightarrow> IpcAction \<times> IpcEndpoint" where
  "ipc_step (SendEv from msg ws) e = Endpoint_send from msg ws e"
| "ipc_step (RecvEv r) e = Endpoint_recv r e"

fun ipc_run :: "IpcEvent list \<Rightarrow> IpcEndpoint \<Rightarrow> IpcAction list \<times> IpcEndpoint" where
  "ipc_run [] e = ([], e)"
| "ipc_run (ev # evs) e =
     (let (a, e1) = ipc_step ev e; (as, e2) = ipc_run evs e1 in (a # as, e2))"

text \<open>
  What went in: the messages of the sends that were not refused, and the receivers of the receives
  that were not refused. What came out: the messages and the receivers of the deliveries.
\<close>

fun accepted_sends :: "IpcEvent list \<Rightarrow> IpcAction list \<Rightarrow> BlockedSender list" where
  "accepted_sends (SendEv from msg ws # evs) (a # as) =
     (if a = QueueFull from then accepted_sends evs as
      else \<lparr>bs_tid = from, bs_msg = msg, bs_words = copy_words ws\<rparr> # accepted_sends evs as)"
| "accepted_sends (RecvEv r # evs) (a # as) = accepted_sends evs as"
| "accepted_sends _ _ = []"

fun accepted_recvs :: "IpcEvent list \<Rightarrow> IpcAction list \<Rightarrow> ThreadId list" where
  "accepted_recvs (RecvEv r # evs) (a # as) =
     (if a = QueueFull r then accepted_recvs evs as else r # accepted_recvs evs as)"
| "accepted_recvs (SendEv from msg ws # evs) (a # as) = accepted_recvs evs as"
| "accepted_recvs _ _ = []"

fun deliveries :: "IpcAction list \<Rightarrow> (BlockedSender \<times> ThreadId) list" where
  "deliveries (Deliver to from msg ws w # as) = (\<lparr>bs_tid = from, bs_msg = msg, bs_words = ws\<rparr>, to) # deliveries as"
| "deliveries (_ # as) = deliveries as"
| "deliveries [] = []"

lemma no_both_waiters: "ep_inv n e \<Longrightarrow> \<not> (has_blocked_senders e \<and> has_blocked_receivers e)"
  by (auto simp: has_blocked_senders_def has_blocked_receivers_def Queue_is_empty_def ep_inv_def ring_contents_def)

lemma ipc_step_inv: "ep_inv n e \<Longrightarrow> ep_inv n (snd (ipc_step ev e))"
  by (cases ev) (simp_all add: Endpoint_send_refines Endpoint_recv_refines)

lemma ipc_run_inv: "ep_inv n e \<Longrightarrow> ep_inv n (snd (ipc_run evs e))"
  by (induction evs arbitrary: e) (auto simp: split_def Let_def ipc_step_inv)

lemma sender_eta [simp]: "\<lparr>bs_tid = bs_tid s, bs_msg = bs_msg s, bs_words = bs_words s\<rparr> = (s :: BlockedSender)"
  by simp

lemma ipc_run_conserves:
  assumes "ep_inv n e"
  shows "fst (ep_abs e) @ accepted_sends evs (fst (ipc_run evs e))
         = map fst (deliveries (fst (ipc_run evs e))) @ fst (ep_abs (snd (ipc_run evs e)))
     \<and> snd (ep_abs e) @ accepted_recvs evs (fst (ipc_run evs e))
         = map snd (deliveries (fst (ipc_run evs e))) @ snd (ep_abs (snd (ipc_run evs e)))"
  using assms
proof (induction evs arbitrary: e)
  case Nil
  then show ?case by simp
next
  case (Cons ev evs)
  obtain a e1 where st: "ipc_step ev e = (a, e1)" by (cases "ipc_step ev e")
  obtain as e2 where run: "ipc_run evs e1 = (as, e2)" by (cases "ipc_run evs e1")
  have inv1: "ep_inv n e1" using ipc_step_inv [OF Cons.prems, of ev] st by simp
  note ih = Cons.IH [OF inv1, unfolded run fst_conv snd_conv]
  have step: "ipc_run (ev # evs) e = (a # as, e2)" by (simp add: st run)
  have one: "fst (ep_abs e) = [] \<or> snd (ep_abs e) = []"
    using Cons.prems by (simp add: ep_inv_def ep_abs_def)
  obtain ss rs where ab: "ep_abs e = (ss, rs)" by (cases "ep_abs e")
  show ?case
  proof (cases ev)
    case (SendEv snd_tid msg ws)
    let ?s = "\<lparr>bs_tid = snd_tid, bs_msg = msg, bs_words = copy_words ws\<rparr>"
    have r: "(a, ep_abs e1) = abs_send n ?s (ss, rs)"
      using Endpoint_send_refines(2) [OF Cons.prems, of snd_tid msg ws] st SendEv ab by simp
    show ?thesis using r ih one ab SendEv
      unfolding step by (cases rs) (auto split: if_splits)
  next
    case (RecvEv r)
    have r: "(a, ep_abs e1) = abs_recv n r (ss, rs)"
      using Endpoint_recv_refines(2) [OF Cons.prems, of r] st RecvEv ab by simp
    show ?thesis using r ih one ab RecvEv
      unfolding step by (cases ss) (auto split: if_splits)
  qed
qed

section \<open>Properties\<close>

text \<open>
  The ring-buffer endpoint refines the pair of lists: on an endpoint whose rings are well
  formed and whose two queues are not both occupied, send and recv return the action of the
  abstract operation and leave its state, and both keep the invariant, so an endpoint never holds
  a blocked sender and a blocked receiver at once.
\<close>

theorem endpoint_refines_queues:
  assumes "ep_inv n e"
  shows "map_prod id ep_abs (Endpoint_send sender msg ws e)
           = abs_send n \<lparr>bs_tid = sender, bs_msg = msg, bs_words = copy_words ws\<rparr> (ep_abs e)
         \<and> map_prod id ep_abs (Endpoint_recv receiver e) = abs_recv n receiver (ep_abs e)
         \<and> ep_inv n (snd (Endpoint_send sender msg ws e)) \<and> ep_inv n (snd (Endpoint_recv receiver e))
         \<and> \<not> (has_blocked_senders e \<and> has_blocked_receivers e)"
  using Endpoint_send_refines [OF assms] Endpoint_recv_refines [OF assms] no_both_waiters [OF assms]
  by blast+

definition sample_msg :: MessageInfo where
  "sample_msg = \<lparr>mi_label = 7, mi_length = 1\<rparr>"

theorem endpoint_refines_queues_witness:
  "map_prod id ep_abs (Endpoint_recv 5 (Endpoint_new 2)) = (Block 5, ([], [5]))"
  using endpoint_refines_queues [OF ep_inv_new(1), where n = 2 and receiver = 5]
  by (simp add: ep_inv_new)

text \<open>
  (C32) No message is lost, forged, duplicated or reordered: over any sequence of sends and receives
  on a fresh endpoint, the messages of the accepted sends, as captured, are exactly the delivered
  messages followed by the ones still queued, in order; in the same way the accepted receivers are
  the receivers that got a message followed by the ones still waiting, and the two kinds of waiter
  never coexist.
\<close>

theorem ipc_conservation:
  "accepted_sends evs (fst (ipc_run evs (Endpoint_new n)))
     = map fst (deliveries (fst (ipc_run evs (Endpoint_new n))))
       @ ring_contents (send_q (snd (ipc_run evs (Endpoint_new n))))
   \<and> accepted_recvs evs (fst (ipc_run evs (Endpoint_new n)))
     = map snd (deliveries (fst (ipc_run evs (Endpoint_new n))))
       @ ring_contents (recv_q (snd (ipc_run evs (Endpoint_new n))))
   \<and> \<not> (has_blocked_senders (snd (ipc_run evs (Endpoint_new n)))
        \<and> has_blocked_receivers (snd (ipc_run evs (Endpoint_new n))))"
proof (intro conjI)
  note c = ipc_run_conserves [OF ep_inv_new(1) [of n], of evs, unfolded ep_inv_new(2) fst_conv snd_conv append_Nil]
  from c show "accepted_sends evs (fst (ipc_run evs (Endpoint_new n)))
         = map fst (deliveries (fst (ipc_run evs (Endpoint_new n))))
           @ ring_contents (send_q (snd (ipc_run evs (Endpoint_new n))))"
    and "accepted_recvs evs (fst (ipc_run evs (Endpoint_new n)))
         = map snd (deliveries (fst (ipc_run evs (Endpoint_new n))))
           @ ring_contents (recv_q (snd (ipc_run evs (Endpoint_new n))))"
    by (simp_all add: ep_abs_def)
qed (rule no_both_waiters [OF ipc_run_inv [OF ep_inv_new(1)]])

text \<open>
  The captured message has exactly the inline width: whatever the caller passes, the buffer is
  MAX_WORDS long, carries the first words verbatim and zero after them, and copying it again
  changes nothing.
\<close>

theorem copy_words_exact:
  "length (copy_words ws) = MAX_WORDS
   \<and> (i < MAX_WORDS \<longrightarrow> copy_words ws ! i = (if i < length ws then ws ! i else 0))
   \<and> copy_words (copy_words ws) = copy_words ws"
  by (auto simp: copy_words_def Let_def nth_append MAX_WORDS_def)

theorem copy_words_exact_witness:
  "copy_words [4, 5] ! 1 = 5 \<and> copy_words [4, 5] ! 7 = 0"
  using copy_words_exact [of "[4, 5]" 1] copy_words_exact [of "[4, 5]" 7] by (simp add: MAX_WORDS_def)

end
