(* ===== verification/Runstate.thy ===== *)
theory Runstate
  imports Prelude
begin

text \<open>
  Decisions over the process-state vector (src/crates/runstate): what to do when nothing is
  runnable, whom a rendezvous pairs with, and which vectors the kernel may be in. The lemmas
  characterise each decision by the slots alone and show which changes of one slot keep the
  vector well formed; the kernel model uses them for its system calls.
\<close>

datatype Blocked = BlkNo | BlkSend u64 | BlkRecv u64 | BlkIrq u64

record Slot =
  slot_live :: bool
  slot_blocked :: Blocked

definition Slot_FREE :: Slot where
  "Slot_FREE = \<lparr>slot_live = False, slot_blocked = BlkNo\<rparr>"

definition Slot_ready :: Slot where
  "Slot_ready = \<lparr>slot_live = True, slot_blocked = BlkNo\<rparr>"

definition Slot_blocked :: "Blocked \<Rightarrow> Slot" where
  "Slot_blocked b = \<lparr>slot_live = True, slot_blocked = b\<rparr>"

datatype Next = Park | Deadlock | AllDone

definition uncreditable :: "Slot list \<Rightarrow> (usize \<Rightarrow> u64 \<Rightarrow> bool) \<Rightarrow> usize list" where
  "uncreditable slots creditable =
     List.map_filter (\<lambda>(i, s). case slot_blocked s of
         BlkIrq line \<Rightarrow> (if slot_live s \<and> \<not> creditable i line then Some i else None)
       | _ \<Rightarrow> None) (enumerate 0 slots)"

definition classify_scan :: "(usize \<Rightarrow> u64 \<Rightarrow> bool) \<Rightarrow> usize \<times> Slot \<Rightarrow> bool \<times> bool \<Rightarrow> bool \<times> bool" where
  "classify_scan creditable = (\<lambda>(i, s) (any_live, any_park).
     if \<not> slot_live s then (any_live, any_park)
     else (True, case slot_blocked s of
                   BlkIrq line \<Rightarrow> any_park \<or> creditable i line
                 | _ \<Rightarrow> any_park))"

definition classify :: "Slot list \<Rightarrow> (usize \<Rightarrow> u64 \<Rightarrow> bool) \<Rightarrow> Next" where
  "classify slots creditable =
     (let (any_live, any_park) = fold (classify_scan creditable) (enumerate 0 slots) (False, False)
      in if any_park then Park else if any_live then Deadlock else AllDone)"

definition find_recv :: "Slot list \<Rightarrow> u64 \<Rightarrow> usize option" where
  "find_recv slots ep = position (\<lambda>s. slot_live s \<and> slot_blocked s = BlkRecv ep) slots"

definition find_send :: "Slot list \<Rightarrow> u64 \<Rightarrow> usize option" where
  "find_send slots ep = position (\<lambda>s. slot_live s \<and> slot_blocked s = BlkSend ep) slots"

fun well_formed_from :: "Slot list \<Rightarrow> Slot list \<Rightarrow> bool" where
  "well_formed_from slots [] = True"
| "well_formed_from slots (s # rest) =
     (if \<not> slot_live s then well_formed_from slots rest
      else case slot_blocked s of
             BlkSend ep \<Rightarrow> (if find_recv slots ep \<noteq> None then False else well_formed_from slots rest)
           | _ \<Rightarrow> well_formed_from slots rest)"

definition well_formed :: "Slot list \<Rightarrow> bool" where
  "well_formed slots = well_formed_from slots slots"

section \<open>What the decisions compute\<close>

definition irq_waiter :: "Slot list \<Rightarrow> usize \<Rightarrow> u64 \<Rightarrow> bool" where
  "irq_waiter slots i line \<longleftrightarrow> i < length slots \<and> slot_live (slots ! i) \<and> slot_blocked (slots ! i) = BlkIrq line"

lemma classify_fold:
  "fold (classify_scan creditable) (enumerate k xs) (a, p)
   = (a \<or> (\<exists>i<length xs. slot_live (xs ! i)),
      p \<or> (\<exists>i<length xs. \<exists>line. slot_live (xs ! i) \<and> slot_blocked (xs ! i) = BlkIrq line \<and> creditable (k + i) line))"
proof (induction xs arbitrary: k a p)
  case Nil
  then show ?case by simp
next
  case (Cons s xs)
  have step: "classify_scan creditable (k, s) (a, p)
    = (a \<or> slot_live s, p \<or> (\<exists>line. slot_live s \<and> slot_blocked s = BlkIrq line \<and> creditable k line))"
    by (auto simp: classify_scan_def split: Blocked.splits)
  show ?case unfolding enumerate_simps fold_Cons comp_def step Cons.IH
    by (simp add: Ex_less_Suc2 disj_assoc)
qed

lemma classify_eq:
  "classify slots creditable =
     (if \<exists>i line. irq_waiter slots i line \<and> creditable i line then Park
      else if \<exists>s \<in> set slots. slot_live s then Deadlock else AllDone)"
proof -
  have live: "(\<exists>s \<in> set slots. slot_live s) \<longleftrightarrow> (\<exists>i<length slots. slot_live (slots ! i))"
    by (metis in_set_conv_nth)
  have wait: "(\<exists>i line. irq_waiter slots i line \<and> creditable i line) \<longleftrightarrow> (\<exists>i<length slots. \<exists>line.
      slot_live (slots ! i) \<and> slot_blocked (slots ! i) = BlkIrq line \<and> creditable (0 + i) line)"
    unfolding irq_waiter_def by auto
  show ?thesis unfolding classify_def classify_fold live wait by simp
qed

lemma uncreditable_iff:
  "i \<in> set (uncreditable slots creditable) \<longleftrightarrow> (\<exists>line. irq_waiter slots i line \<and> \<not> creditable i line)"
proof -
  have sel: "(case slot_blocked s of BlkIrq line \<Rightarrow> if slot_live s \<and> \<not> creditable k line then Some k else None
      | _ \<Rightarrow> None) = Some i \<longleftrightarrow> k = i \<and> (\<exists>line. slot_blocked s = BlkIrq line \<and> slot_live s \<and> \<not> creditable i line)"
    for k s by (cases "slot_blocked s") auto
  show ?thesis unfolding uncreditable_def set_map_filter
    by (auto simp: sel irq_waiter_def in_set_enumerate_eq intro!: bexI [of _ "(i, slots ! i)"])
qed

lemma find_recv_None: "find_recv slots ep = None \<longleftrightarrow> (\<forall>s \<in> set slots. \<not> (slot_live s \<and> slot_blocked s = BlkRecv ep))"
  by (simp add: find_recv_def position_None)

lemma find_send_None: "find_send slots ep = None \<longleftrightarrow> (\<forall>s \<in> set slots. \<not> (slot_live s \<and> slot_blocked s = BlkSend ep))"
  by (simp add: find_send_def position_None)

lemma well_formed_from_iff:
  "well_formed_from slots xs \<longleftrightarrow>
     (\<forall>s \<in> set xs. \<forall>ep. slot_live s \<and> slot_blocked s = BlkSend ep \<longrightarrow> find_recv slots ep = None)"
  by (induction xs) (auto split: Blocked.splits)

lemma well_formed_iff: "well_formed slots \<longleftrightarrow> (\<forall>ep. find_send slots ep = None \<or> find_recv slots ep = None)"
  unfolding well_formed_def well_formed_from_iff find_send_None by auto

lemma find_recv_SomeD:
  "find_recv slots ep = Some i \<Longrightarrow> i < length slots \<and> slot_live (slots ! i) \<and> slot_blocked (slots ! i) = BlkRecv ep"
  unfolding find_recv_def by (auto dest: position_SomeD)

lemma find_send_SomeD:
  "find_send slots ep = Some i \<Longrightarrow> i < length slots \<and> slot_live (slots ! i) \<and> slot_blocked (slots ! i) = BlkSend ep"
  unfolding find_send_def by (auto dest: position_SomeD)

text \<open>
  One slot changes. The vector stays well formed when the slot stops waiting on an endpoint, and
  when it starts to wait on one whose other side has nobody.
\<close>

definition clash :: "Slot \<Rightarrow> Slot \<Rightarrow> bool" where
  "clash a b \<longleftrightarrow> slot_live a \<and> slot_live b \<and> (\<exists>ep. slot_blocked a = BlkSend ep \<and> slot_blocked b = BlkRecv ep)"

lemma well_formed_clash: "well_formed slots \<longleftrightarrow> (\<forall>a \<in> set slots. \<forall>b \<in> set slots. \<not> clash a b)"
  unfolding well_formed_def well_formed_from_iff find_recv_None clash_def by blast

lemma well_formed_update:
  assumes "well_formed slots" and "\<not> clash s s" and "\<And>a. a \<in> set slots \<Longrightarrow> \<not> clash a s \<and> \<not> clash s a"
  shows "well_formed (slots[i := s])"
proof -
  have "\<not> clash a b" if "a \<in> insert s (set slots)" "b \<in> insert s (set slots)" for a b
    using that assms unfolding well_formed_clash by blast
  moreover have "set (slots[i := s]) \<subseteq> insert s (set slots)" by (rule set_update_subset_insert)
  ultimately show ?thesis unfolding well_formed_clash by blast
qed

lemma well_formed_update_other:
  assumes "well_formed slots" and "slot_live s \<Longrightarrow> (case slot_blocked s of BlkSend _ \<Rightarrow> False | BlkRecv _ \<Rightarrow> False | _ \<Rightarrow> True)"
  shows "well_formed (slots[i := s])"
  by (rule well_formed_update [OF assms(1)]) (use assms(2) in \<open>auto simp: clash_def\<close>)

lemma well_formed_update_send:
  assumes "well_formed slots" and "find_recv slots ep = None"
  shows "well_formed (slots[i := Slot_blocked (BlkSend ep)])"
  by (rule well_formed_update [OF assms(1)]) (use assms(2) in \<open>auto simp: clash_def find_recv_None Slot_blocked_def\<close>)

lemma well_formed_update_recv:
  assumes "well_formed slots" and "find_send slots ep = None"
  shows "well_formed (slots[i := Slot_blocked (BlkRecv ep)])"
  by (rule well_formed_update [OF assms(1)]) (use assms(2) in \<open>auto simp: clash_def find_send_None Slot_blocked_def\<close>)

section \<open>Properties\<close>

text \<open>
  The idle decision is exact. With the waiters that can never be credited reported by
  uncreditable (no more and no fewer): the kernel parks exactly when some live process waits for a
  line that can still be credited, declares a deadlock exactly when live processes remain and none
  of them is such a waiter, and finishes exactly when every slot is free.
\<close>

theorem classify_exact:
  "(classify slots creditable = Park \<longleftrightarrow> (\<exists>i line. irq_waiter slots i line \<and> creditable i line))
   \<and> (classify slots creditable = Deadlock \<longleftrightarrow> (\<exists>s \<in> set slots. slot_live s)
        \<and> {i. \<exists>line. irq_waiter slots i line} = set (uncreditable slots creditable))
   \<and> (classify slots creditable = AllDone \<longleftrightarrow> \<not> (\<exists>s \<in> set slots. slot_live s))"
proof (intro conjI)
  show "classify slots creditable = Park \<longleftrightarrow> (\<exists>i line. irq_waiter slots i line \<and> creditable i line)"
    by (simp add: classify_eq)
  have waiter_live: "\<exists>s \<in> set slots. slot_live s" if "irq_waiter slots i line" for i line
    using that by (auto simp: irq_waiter_def)
  then show "classify slots creditable = AllDone \<longleftrightarrow> \<not> (\<exists>s \<in> set slots. slot_live s)"
    unfolding classify_eq by auto
  have one: "line = line'" if "irq_waiter slots i line" "irq_waiter slots i line'" for i line line'
    using that by (simp add: irq_waiter_def)
  have "{i. \<exists>line. irq_waiter slots i line} = set (uncreditable slots creditable)
      \<longleftrightarrow> \<not> (\<exists>i line. irq_waiter slots i line \<and> creditable i line)"
    (is "?A \<longleftrightarrow> ?B")
  proof
    assume a: ?A
    show ?B
    proof clarify
      fix i line assume w: "irq_waiter slots i line" "creditable i line"
      then have "i \<in> set (uncreditable slots creditable)" unfolding a [symmetric] by auto
      then show False using one w unfolding uncreditable_iff by metis
    qed
  next
    assume ?B
    then show ?A unfolding set_eq_iff uncreditable_iff by blast
  qed
  then show "classify slots creditable = Deadlock \<longleftrightarrow> (\<exists>s \<in> set slots. slot_live s)
      \<and> {i. \<exists>line. irq_waiter slots i line} = set (uncreditable slots creditable)"
    unfolding classify_eq by auto
qed

text \<open>
  The vector check is exact, and the matcher's discipline keeps it: a vector is well formed
  exactly when no endpoint has both a blocked sender and a blocked receiver; a slot may block
  sending on an endpoint with no blocked receiver, block receiving on one with no blocked sender,
  or become ready or free, and the vector stays well formed.
\<close>

theorem rendezvous_discipline:
  "(well_formed slots \<longleftrightarrow> (\<forall>ep. find_send slots ep = None \<or> find_recv slots ep = None))
   \<and> (well_formed slots \<longrightarrow>
        (find_recv slots ep = None \<longrightarrow> well_formed (slots[i := Slot_blocked (BlkSend ep)]))
        \<and> (find_send slots ep = None \<longrightarrow> well_formed (slots[i := Slot_blocked (BlkRecv ep)]))
        \<and> well_formed (slots[i := Slot_ready]) \<and> well_formed (slots[i := Slot_FREE]))"
proof (intro conjI impI)
  show "well_formed slots \<longleftrightarrow> (\<forall>ep. find_send slots ep = None \<or> find_recv slots ep = None)"
    by (rule well_formed_iff)
qed (simp_all add: well_formed_update_send well_formed_update_recv well_formed_update_other Slot_ready_def Slot_FREE_def)

theorem rendezvous_discipline_witness:
  "well_formed [Slot_ready, Slot_blocked (BlkRecv 3)]
   \<and> find_recv [Slot_ready, Slot_blocked (BlkRecv 3)] 4 = None
   \<and> well_formed ([Slot_ready, Slot_blocked (BlkRecv 3)][0 := Slot_blocked (BlkSend 4)])
   \<and> \<not> well_formed ([Slot_ready, Slot_blocked (BlkRecv 3)][0 := Slot_blocked (BlkSend 3)])"
proof -
  have w: "well_formed [Slot_ready, Slot_blocked (BlkRecv 3)]"
    and f: "find_recv [Slot_ready, Slot_blocked (BlkRecv 3)] 4 = None" by code_simp+
  have "\<not> well_formed ([Slot_ready, Slot_blocked (BlkRecv 3)][0 := Slot_blocked (BlkSend 3)])" by code_simp
  with w f rendezvous_discipline [of "[Slot_ready, Slot_blocked (BlkRecv 3)]" 4 0] show ?thesis by blast
qed

end
