(* ===== verification/Regions.thy ===== *)
theory Regions
  imports Prelude
begin

text \<open>
  The lifetime plans of shared memory (src/crates/regions): which steps destroy a region or tear
  down a process, and in which order. A bounded plan is shown to be the prefix of an unbounded
  list of steps, so that the theorems can speak about lists: plans are well ordered, no region is
  released while a live process maps it, and the kernel's bound is enough for every teardown.
\<close>

record Region =
  r_live :: bool
  r_id :: u64
  r_owner :: u64

definition Region_EMPTY :: Region where
  "Region_EMPTY = \<lparr>r_live = False, r_id = 0, r_owner = 0\<rparr>"

definition Region_new :: "u64 \<Rightarrow> u64 \<Rightarrow> Region" where
  "Region_new i owner = \<lparr>r_live = True, r_id = i, r_owner = owner\<rparr>"

record Holder =
  h_live :: bool
  h_id :: u64
  h_slots :: "u64 list"

definition Holder_FREE :: "nat \<Rightarrow> Holder" where
  "Holder_FREE S = \<lparr>h_live = False, h_id = 0, h_slots = replicate S 0\<rparr>"

definition Holder_new :: "u64 \<Rightarrow> u64 list \<Rightarrow> Holder" where
  "Holder_new i slots = \<lparr>h_live = True, h_id = i, h_slots = slots\<rparr>"

datatype Step = Unmap usize usize u64 | ForgetCaps u64 | Release u64

record Plan =
  p_steps :: "Step option list"
  p_len :: usize
  p_truncated :: bool

definition Plan_new :: "nat \<Rightarrow> Plan" where
  "Plan_new N = \<lparr>p_steps = replicate N None, p_len = 0, p_truncated = False\<rparr>"

definition Plan_push :: "Step \<Rightarrow> Plan \<Rightarrow> Plan" where
  "Plan_push s pl =
     (if p_len pl < length (p_steps pl)
      then pl\<lparr>p_steps := (p_steps pl)[p_len pl := Some s], p_len := p_len pl + 1\<rparr>
      else pl\<lparr>p_truncated := True\<rparr>)"

definition Plan_is_empty :: "Plan \<Rightarrow> bool" where
  "Plan_is_empty pl \<longleftrightarrow> p_len pl = 0"

definition Plan_steps :: "Plan \<Rightarrow> Step list" where
  "Plan_steps pl = List.map_filter (\<lambda>s. s) (take (p_len pl) (p_steps pl))"

fun steps_ordered :: "Step list \<Rightarrow> bool" where
  "steps_ordered [] = True"
| "steps_ordered (s # later) =
     ((case s of
         Release region \<Rightarrow> list_all (\<lambda>l. case l of Unmap p i r \<Rightarrow> r \<noteq> region | _ \<Rightarrow> True) later
       | _ \<Rightarrow> True) \<and> steps_ordered later)"

definition well_ordered :: "Plan \<Rightarrow> bool" where
  "well_ordered pl = steps_ordered (Plan_steps pl)"

definition holders_of :: "Holder list \<Rightarrow> u64 \<Rightarrow> (usize \<times> usize) list" where
  "holders_of holders region =
     concat (map (\<lambda>(p, h).
       map (\<lambda>(s, _). (p, s))
         (filter (\<lambda>(_, r). h_live h \<and> r = region \<and> r \<noteq> 0) (enumerate 0 (h_slots h))))
       (enumerate 0 holders))"

definition destroy :: "nat \<Rightarrow> Region list \<Rightarrow> Holder list \<Rightarrow> u64 \<Rightarrow> Plan" where
  "destroy N regions holders region =
     (if region = 0 \<or> \<not> list_ex (\<lambda>r. r_live r \<and> r_id r = region) regions then Plan_new N
      else let plan = fold (\<lambda>(p, s). Plan_push (Unmap p s region)) (holders_of holders region) (Plan_new N);
               plan = Plan_push (ForgetCaps region) plan
           in Plan_push (Release region) plan)"

definition teardown_region :: "nat \<Rightarrow> Region list \<Rightarrow> Holder list \<Rightarrow> u64 \<Rightarrow> Region \<Rightarrow> Plan \<Rightarrow> Plan" where
  "teardown_region N regions holders i r plan =
     (if \<not> r_live r \<or> r_owner r \<noteq> i then plan
      else let sub = destroy N regions holders (r_id r);
               plan = fold Plan_push (Plan_steps sub) plan
           in if p_truncated sub then plan\<lparr>p_truncated := True\<rparr> else plan)"

definition teardown_slot :: "Region list \<Rightarrow> usize \<Rightarrow> u64 \<Rightarrow> usize \<times> u64 \<Rightarrow> Plan \<Rightarrow> Plan" where
  "teardown_slot regions proc i = (\<lambda>(s, r) plan.
     if r = 0 then plan
     else let owned = list_ex (\<lambda>x. r_live x \<and> r_id x = r \<and> r_owner x = i) regions;
              already = list_ex (\<lambda>st. case st of Unmap p slot _ \<Rightarrow> p = proc \<and> slot = s | _ \<Rightarrow> False)
                          (Plan_steps plan)
          in if \<not> owned \<and> \<not> already then Plan_push (Unmap proc s r) plan else plan)"

definition teardown :: "nat \<Rightarrow> Region list \<Rightarrow> Holder list \<Rightarrow> usize \<Rightarrow> u64 \<Rightarrow> Plan" where
  "teardown N regions holders proc i =
     (let plan = fold (teardown_region N regions holders i) regions (Plan_new N)
      in if proc < length holders
         then let h = holders ! proc
              in if h_live h \<and> h_id h = i
                 then fold (teardown_slot regions proc i) (enumerate 0 (h_slots h)) plan
                 else plan
         else plan)"

section \<open>A bounded plan is the prefix of a list of steps\<close>

definition plan_of :: "nat \<Rightarrow> Step list \<Rightarrow> Plan" where
  "plan_of N xs = \<lparr>p_steps = map Some (take N xs) @ replicate (N - length xs) None,
     p_len = min N (length xs), p_truncated = (N < length xs)\<rparr>"

abbreviation plan_rep :: "nat \<Rightarrow> Plan \<Rightarrow> Step list \<Rightarrow> bool" where
  "plan_rep N pl xs \<equiv> pl = plan_of N xs"

lemma map_filter_map_Some [simp]: "List.map_filter (\<lambda>s. s) (map Some xs) = xs"
  by (induction xs) (simp_all add: List.map_filter_simps)

lemma plan_rep_steps: "plan_rep N pl xs \<Longrightarrow> Plan_steps pl = take N xs"
proof -
  have "take (min N (length xs)) (map Some (take N xs) @ replicate (N - length xs) None) = map Some (take N xs)"
    by (simp add: min_def)
  then show "plan_rep N pl xs \<Longrightarrow> Plan_steps pl = take N xs"
    by (simp only: plan_of_def Plan_steps_def Plan.simps map_filter_map_Some)
qed

lemma plan_rep_truncated: "plan_rep N pl xs \<Longrightarrow> p_truncated pl \<longleftrightarrow> N < length xs"
  by (simp add: plan_of_def)

lemma plan_rep_new: "plan_rep N (Plan_new N) []"
  by (simp add: plan_of_def Plan_new_def)

lemma plan_rep_push:
  assumes "plan_rep N pl xs"
  shows "plan_rep N (Plan_push s pl) (xs @ [s])"
proof (cases "length xs < N")
  case True
  then obtain k where "N = Suc (length xs + k)" using less_iff_Suc_add by blast
  then show ?thesis by (simp add: assms plan_of_def Plan_push_def list_update_append)
next
  case False
  then show ?thesis by (simp add: assms plan_of_def Plan_push_def)
qed

lemma plan_rep_pushes:
  assumes "plan_rep N pl xs"
  shows "plan_rep N (fold Plan_push ys pl) (xs @ ys)"
  using assms
proof (induction ys arbitrary: pl xs)
  case (Cons y ys)
  from Cons.IH [OF plan_rep_push [OF Cons.prems]] show ?case by simp
qed simp

text \<open>The lists of steps the two planners mean.\<close>

definition destroy_list :: "Region list \<Rightarrow> Holder list \<Rightarrow> u64 \<Rightarrow> Step list" where
  "destroy_list regions holders region =
     (if region = 0 \<or> \<not> list_ex (\<lambda>r. r_live r \<and> r_id r = region) regions then []
      else map (\<lambda>(p, s). Unmap p s region) (holders_of holders region) @ [ForgetCaps region, Release region])"

definition owned :: "Region list \<Rightarrow> u64 \<Rightarrow> u64 \<Rightarrow> bool" where
  "owned regions i r \<longleftrightarrow> (\<exists>x \<in> set regions. r_live x \<and> r_id x = r \<and> r_owner x = i)"

definition owned_list :: "Region list \<Rightarrow> Holder list \<Rightarrow> u64 \<Rightarrow> Step list" where
  "owned_list regions holders i =
     concat (map (\<lambda>r. destroy_list regions holders (r_id r)) (filter (\<lambda>r. r_live r \<and> r_owner r = i) regions))"

definition own_unmaps :: "Region list \<Rightarrow> Holder list \<Rightarrow> usize \<Rightarrow> u64 \<Rightarrow> Step list" where
  "own_unmaps regions holders proc i =
     (if proc < length holders \<and> h_live (holders ! proc) \<and> h_id (holders ! proc) = i
      then map (\<lambda>(s, r). Unmap proc s r)
             (filter (\<lambda>(s, r). r \<noteq> 0 \<and> \<not> owned regions i r) (enumerate 0 (h_slots (holders ! proc))))
      else [])"

definition teardown_list :: "Region list \<Rightarrow> Holder list \<Rightarrow> usize \<Rightarrow> u64 \<Rightarrow> Step list" where
  "teardown_list regions holders proc i = owned_list regions holders i @ own_unmaps regions holders proc i"

lemma plan_rep_destroy: "plan_rep N (destroy N regions holders region) (destroy_list regions holders region)"
proof -
  have f: "fold (\<lambda>(p, s). Plan_push (Unmap p s region)) hs pl = fold Plan_push (map (\<lambda>(p, s). Unmap p s region) hs) pl"
    for hs pl by (induction hs arbitrary: pl) auto
  have "plan_rep N (fold Plan_push (map (\<lambda>(p, s). Unmap p s region) (holders_of holders region)) (Plan_new N))
     (map (\<lambda>(p, s). Unmap p s region) (holders_of holders region))"
    using plan_rep_pushes [OF plan_rep_new] by simp
  from plan_rep_push [OF plan_rep_push [OF this, of "ForgetCaps region"], of "Release region"]
  show ?thesis by (simp add: destroy_def destroy_list_def f plan_rep_new Let_def)
qed

lemma plan_rep_append_sub:
  assumes "plan_rep N pl xs" and "plan_rep N sub ys"
  shows "plan_rep N (let plan = fold Plan_push (Plan_steps sub) pl
                     in if p_truncated sub then plan\<lparr>p_truncated := True\<rparr> else plan) (xs @ ys)"
proof (cases "length ys \<le> N")
  case True
  then have "Plan_steps sub = ys" "\<not> p_truncated sub"
    using plan_rep_steps [OF assms(2)] plan_rep_truncated [OF assms(2)] by simp_all
  then show ?thesis using plan_rep_pushes [OF assms(1), of ys] by simp
next
  case False
  then have "p_truncated sub" using plan_rep_truncated [OF assms(2)] by simp
  moreover have "fold Plan_push (Plan_steps sub) pl = plan_of N (xs @ take N ys)"
    using plan_rep_pushes [OF assms(1), of "take N ys"] plan_rep_steps [OF assms(2)] by simp
  moreover have "(plan_of N (xs @ take N ys))\<lparr>p_truncated := True\<rparr> = plan_of N (xs @ ys)"
    using False by (simp add: plan_of_def)
  ultimately show ?thesis by simp
qed

lemma plan_rep_owned:
  "plan_rep N (fold (teardown_region N regions holders i) rs pl)
     (xs @ concat (map (\<lambda>r. destroy_list regions holders (r_id r)) (filter (\<lambda>r. r_live r \<and> r_owner r = i) rs)))"
  if "plan_rep N pl xs"
  using that
proof (induction rs arbitrary: pl xs)
  case Nil
  then show ?case by simp
next
  case (Cons r rs)
  show ?case
  proof (cases "r_live r \<and> r_owner r = i")
    case True
    then have "teardown_region N regions holders i r pl =
      (let plan = fold Plan_push (Plan_steps (destroy N regions holders (r_id r))) pl
       in if p_truncated (destroy N regions holders (r_id r)) then plan\<lparr>p_truncated := True\<rparr> else plan)"
      by (simp add: teardown_region_def Let_def)
    with plan_rep_append_sub [OF Cons.prems plan_rep_destroy]
    have "plan_rep N (teardown_region N regions holders i r pl) (xs @ destroy_list regions holders (r_id r))"
      by simp
    from Cons.IH [OF this] True show ?thesis by simp
  next
    case False
    then have "teardown_region N regions holders i r pl = pl" by (auto simp: teardown_region_def)
    with Cons False show ?thesis by auto
  qed
qed

section \<open>The mapped cells\<close>

text \<open>A cell is a process slot, one of its share slots, and the region mapped there.\<close>

type_synonym Cell = "usize \<times> usize \<times> u64"

definition cells :: "Holder list \<Rightarrow> Cell list" where
  "cells holders = concat (map (\<lambda>(p, h).
     if h_live h then map (\<lambda>(s, r). (p, s, r)) (filter (\<lambda>(s, r). r \<noteq> 0) (enumerate 0 (h_slots h))) else [])
     (enumerate 0 holders))"

lemma in_cells:
  "(p, s, r) \<in> set (cells holders) \<longleftrightarrow> p < length holders \<and> h_live (holders ! p)
     \<and> s < length (h_slots (holders ! p)) \<and> h_slots (holders ! p) ! s = r \<and> r \<noteq> 0"
  by (auto simp: cells_def in_set_enumerate_eq image_iff split: if_splits)

lemma holders_of_cells:
  "map (\<lambda>(p, s). Unmap p s r) (holders_of holders r)
   = map (\<lambda>(p, s, r). Unmap p s r) (filter (\<lambda>(p, s, q). q = r) (cells holders))"
proof -
  have one: "map (\<lambda>(p, s). Unmap p s r) (map (\<lambda>(s, _). (p, s)) (filter (\<lambda>(_, q). h_live h \<and> q = r \<and> q \<noteq> 0) xs))
    = map (\<lambda>(p, s, r). Unmap p s r) (filter (\<lambda>(p, s, q). q = r)
        (if h_live h then map (\<lambda>(s, r). (p, s, r)) (filter (\<lambda>(s, r). r \<noteq> 0) xs) else []))" for p h xs
    by (induction xs) auto
  have "map (\<lambda>(p, s). Unmap p s r) (concat (map (\<lambda>(p, h). map (\<lambda>(s, _). (p, s))
         (filter (\<lambda>(_, q). h_live h \<and> q = r \<and> q \<noteq> 0) (enumerate 0 (h_slots h)))) es))
    = map (\<lambda>(p, s, r). Unmap p s r) (filter (\<lambda>(p, s, q). q = r) (concat (map (\<lambda>(p, h).
         if h_live h then map (\<lambda>(s, r). (p, s, r)) (filter (\<lambda>(s, r). r \<noteq> 0) (enumerate 0 (h_slots h))) else []) es)))"
    for es :: "(nat \<times> Holder) list"
  proof (induction es)
    case (Cons e es)
    then show ?case by (cases e) (simp only: list.map concat.simps filter_append map_append prod.case one)
  qed simp
  then show ?thesis unfolding holders_of_def cells_def .
qed

lemma destroy_list_unmaps:
  "Unmap p s q \<in> set (destroy_list regions holders r) \<Longrightarrow> q = r \<and> (p, s, r) \<in> set (cells holders)"
  unfolding destroy_list_def holders_of_cells by (auto split: if_splits)

lemma owned_list_unmaps:
  "Unmap p s q \<in> set (owned_list regions holders i) \<Longrightarrow> owned regions i q \<and> (p, s, q) \<in> set (cells holders)"
  by (auto simp: owned_list_def owned_def dest: destroy_list_unmaps)

lemma plan_rep_slots:
  assumes "plan_rep N pl ys" and "distinct (map fst ps)"
    and "\<And>s r q. (s, r) \<in> set ps \<Longrightarrow> r \<noteq> 0 \<Longrightarrow> \<not> owned regions i r \<Longrightarrow> Unmap proc s q \<notin> set ys"
  shows "plan_rep N (fold (teardown_slot regions proc i) ps pl)
     (ys @ map (\<lambda>(s, r). Unmap proc s r) (filter (\<lambda>(s, r). r \<noteq> 0 \<and> \<not> owned regions i r) ps))"
  using assms
proof (induction ps arbitrary: pl ys)
  case Nil
  then show ?case by simp
next
  case (Cons sr ps)
  obtain s r where sr: "sr = (s, r)" by (cases sr)
  have own: "list_ex (\<lambda>x. r_live x \<and> r_id x = r \<and> r_owner x = i) regions = owned regions i r"
    by (simp add: owned_def list_ex_iff)
  have d: "distinct (map fst ps)" "\<And>r'. (s, r') \<notin> set ps" using Cons.prems(2) sr by (auto simp: image_iff)
  show ?case
  proof (cases "r \<noteq> 0 \<and> \<not> owned regions i r")
    case True
    have "\<not> list_ex (\<lambda>st. case st of Unmap p slot _ \<Rightarrow> p = proc \<and> slot = s | _ \<Rightarrow> False) (Plan_steps pl)"
      using Cons.prems(3) [of s r] True sr plan_rep_steps [OF Cons.prems(1)]
      by (auto simp: list_ex_iff split: Step.splits dest: in_set_takeD)
    then have st: "teardown_slot regions proc i sr pl = Plan_push (Unmap proc s r) pl"
      using True sr own by (simp add: teardown_slot_def)
    have "plan_rep N (fold (teardown_slot regions proc i) ps (Plan_push (Unmap proc s r) pl))
      ((ys @ [Unmap proc s r]) @ map (\<lambda>(s, r). Unmap proc s r) (filter (\<lambda>(s, r). r \<noteq> 0 \<and> \<not> owned regions i r) ps))"
      by (rule Cons.IH [OF plan_rep_push [OF Cons.prems(1)] d(1)]) (use Cons.prems(3) d(2) in auto)
    then show ?thesis using True sr st by simp
  next
    case False
    then have "teardown_slot regions proc i sr pl = pl" using sr own by (auto simp: teardown_slot_def)
    moreover have "plan_rep N (fold (teardown_slot regions proc i) ps pl)
      (ys @ map (\<lambda>(s, r). Unmap proc s r) (filter (\<lambda>(s, r). r \<noteq> 0 \<and> \<not> owned regions i r) ps))"
      by (rule Cons.IH [OF Cons.prems(1) d(1)]) (use Cons.prems(3) in auto)
    ultimately show ?thesis using False sr by auto
  qed
qed

lemma plan_rep_teardown:
  "plan_rep N (teardown N regions holders proc i) (teardown_list regions holders proc i)"
proof -
  have o: "plan_rep N (fold (teardown_region N regions holders i) regions (Plan_new N)) (owned_list regions holders i)"
    using plan_rep_owned [OF plan_rep_new] by (simp add: owned_list_def)
  show ?thesis
  proof (cases "proc < length holders \<and> h_live (holders ! proc) \<and> h_id (holders ! proc) = i")
    case True
    have "plan_rep N (fold (teardown_slot regions proc i) (enumerate 0 (h_slots (holders ! proc)))
        (fold (teardown_region N regions holders i) regions (Plan_new N)))
      (owned_list regions holders i @ own_unmaps regions holders proc i)"
      unfolding own_unmaps_def if_P [OF True]
      by (rule plan_rep_slots [OF o]) (auto simp: in_set_enumerate_eq in_cells dest!: owned_list_unmaps)
    then show ?thesis using True by (simp add: teardown_def teardown_list_def)
  next
    case False
    then show ?thesis using o by (auto simp: teardown_def teardown_list_def own_unmaps_def Let_def)
  qed
qed

section \<open>Executing a plan\<close>

text \<open>
  Unmap removes a cell, and a release is safe when no cell maps the region any more.
\<close>

fun plan_left :: "Step list \<Rightarrow> Cell list \<Rightarrow> Cell list" where
  "plan_left [] cs = cs"
| "plan_left (Unmap p s r # steps) cs = plan_left steps (removeAll (p, s, r) cs)"
| "plan_left (_ # steps) cs = plan_left steps cs"

fun plan_safe :: "Step list \<Rightarrow> Cell list \<Rightarrow> bool" where
  "plan_safe [] cs = True"
| "plan_safe (Unmap p s r # steps) cs = plan_safe steps (removeAll (p, s, r) cs)"
| "plan_safe (ForgetCaps r # steps) cs = plan_safe steps cs"
| "plan_safe (Release r # steps) cs = (list_all (\<lambda>(p, s, q). q \<noteq> r) cs \<and> plan_safe steps cs)"

lemma plan_left_filter: "plan_left steps cs = filter (\<lambda>(p, s, r). Unmap p s r \<notin> set steps) cs"
  by (induction steps cs rule: plan_left.induct)
     (auto simp: removeAll_filter_not_eq intro!: filter_cong)

lemma plan_left_append: "plan_left (xs @ ys) cs = plan_left ys (plan_left xs cs)"
  by (induction xs cs rule: plan_left.induct) auto

lemma plan_safe_append: "plan_safe (xs @ ys) cs \<longleftrightarrow> plan_safe xs cs \<and> plan_safe ys (plan_left xs cs)"
  by (induction xs cs rule: plan_safe.induct) auto

lemma plan_safe_unmaps: "\<forall>st \<in> set xs. \<exists>p s r. st = Unmap p s r \<Longrightarrow> plan_safe xs cs"
  by (induction xs cs rule: plan_safe.induct) auto

lemma plan_safe_take: "plan_safe xs cs \<Longrightarrow> plan_safe (take n xs) cs"
  by (metis append_take_drop_id plan_safe_append)

lemma destroy_list_safe:
  assumes "set cs \<subseteq> set (cells holders)"
  shows "plan_safe (destroy_list regions holders r) cs"
proof -
  let ?u = "map (\<lambda>(p, s). Unmap p s r) (holders_of holders r)"
  have u: "plan_safe ?u cs" by (rule plan_safe_unmaps) auto
  have "q \<noteq> r" if "(p, s, q) \<in> set (plan_left ?u cs)" for p s q
    using that assms unfolding plan_left_filter holders_of_cells by (auto simp: image_iff)
  then show ?thesis using u by (auto simp: destroy_list_def plan_safe_append list_all_iff)
qed

lemma owned_list_safe:
  "set cs \<subseteq> set (cells holders) \<Longrightarrow> plan_safe (concat (map (\<lambda>r. destroy_list regions holders (r_id r)) rs)) cs"
proof (induction rs arbitrary: cs)
  case (Cons r rs)
  have "set (plan_left (destroy_list regions holders (r_id r)) cs) \<subseteq> set (cells holders)"
    using Cons.prems by (auto simp: plan_left_filter)
  then show ?case using Cons destroy_list_safe by (simp add: plan_safe_append)
qed simp

lemma teardown_list_safe: "plan_safe (teardown_list regions holders proc i) (cells holders)"
  unfolding teardown_list_def plan_safe_append owned_list_def own_unmaps_def
  by (auto simp: owned_list_safe intro!: plan_safe_unmaps)

lemma own_unmaps_iff:
  "Unmap p s r \<in> set (own_unmaps regions holders proc i) \<longleftrightarrow>
     p = proc \<and> (p, s, r) \<in> set (cells holders) \<and> h_id (holders ! proc) = i \<and> \<not> owned regions i r"
  by (auto simp: own_unmaps_def in_cells in_set_enumerate_eq image_iff)

lemma owned_list_iff:
  "Unmap p s r \<in> set (owned_list regions holders i) \<longleftrightarrow> (p, s, r) \<in> set (cells holders) \<and> owned regions i r"
proof
  assume a: "(p, s, r) \<in> set (cells holders) \<and> owned regions i r"
  then obtain x where x: "x \<in> set regions" "r_live x" "r_owner x = i" "r_id x = r" by (auto simp: owned_def)
  have "r \<noteq> 0" using a by (auto simp: in_cells)
  then have "Unmap p s r \<in> set (destroy_list regions holders r)"
    using a x unfolding destroy_list_def holders_of_cells by (force simp: list_ex_iff)
  then show "Unmap p s r \<in> set (owned_list regions holders i)" using x by (auto simp: owned_list_def)
qed (rule conjI; use owned_list_unmaps in blast)

lemma teardown_left:
  "plan_left (teardown_list regions holders proc i) (cells holders)
   = filter (\<lambda>(p, s, r). \<not> owned regions i r \<and> \<not> (p = proc \<and> h_id (holders ! proc) = i)) (cells holders)"
  unfolding plan_left_filter by (rule filter_cong) (auto simp: teardown_list_def owned_list_iff own_unmaps_iff)

lemma teardown_releases:
  "Release r \<in> set (teardown_list regions holders proc i) \<longleftrightarrow> r \<noteq> 0 \<and> owned regions i r"
proof -
  have "Release r \<in> set (destroy_list regions holders q) \<longleftrightarrow> q = r \<and> q \<noteq> 0 \<and> (\<exists>x \<in> set regions. r_live x \<and> r_id x = q)" for q
    by (auto simp: destroy_list_def list_ex_iff)
  then show ?thesis by (auto simp: teardown_list_def own_unmaps_def owned_list_def owned_def)
qed

section \<open>Order and length\<close>

lemma steps_ordered_append:
  "steps_ordered (xs @ ys) \<longleftrightarrow> steps_ordered xs \<and> steps_ordered ys
     \<and> (\<forall>r p s. Release r \<in> set xs \<longrightarrow> Unmap p s r \<notin> set ys)"
proof (induction xs)
  case (Cons st xs)
  have later: "list_all (\<lambda>l. case l of Unmap p i r \<Rightarrow> r \<noteq> q | _ \<Rightarrow> True) zs \<longleftrightarrow> (\<forall>p s. Unmap p s q \<notin> set zs)"
    for q zs by (induction zs) (auto split: Step.splits)
  show ?case using Cons by (cases st) (auto simp: later)
qed simp

lemma steps_ordered_unmaps: "(\<And>r. Release r \<notin> set xs) \<Longrightarrow> steps_ordered xs"
  by (induction xs) (auto split: Step.splits)

lemma steps_ordered_take: "steps_ordered xs \<Longrightarrow> steps_ordered (take n xs)"
  by (metis append_take_drop_id steps_ordered_append)

lemma destroy_list_ordered: "steps_ordered (destroy_list regions holders r)"
  by (auto simp: destroy_list_def steps_ordered_append intro!: steps_ordered_unmaps)

lemma destroy_list_release: "Release q \<in> set (destroy_list regions holders r) \<Longrightarrow> q = r"
  by (auto simp: destroy_list_def split: if_splits)

lemma owned_list_ordered:
  "distinct (map r_id rs) \<Longrightarrow> steps_ordered (concat (map (\<lambda>r. destroy_list regions holders (r_id r)) rs))"
  by (induction rs) (auto simp: steps_ordered_append destroy_list_ordered dest!: destroy_list_release destroy_list_unmaps)

definition distinct_ids :: "Region list \<Rightarrow> bool" where
  "distinct_ids regions \<longleftrightarrow> distinct (map r_id (filter r_live regions))"

lemma distinct_owned: "distinct_ids regions \<Longrightarrow> distinct (map r_id (filter (\<lambda>r. r_live r \<and> r_owner r = i) regions))"
  unfolding distinct_ids_def by (induction regions) (auto split: if_splits)

lemma teardown_list_ordered:
  assumes "distinct_ids regions"
  shows "steps_ordered (teardown_list regions holders proc i)"
proof -
  have "steps_ordered (own_unmaps regions holders proc i)"
    by (rule steps_ordered_unmaps) (auto simp: own_unmaps_def)
  moreover have "\<not> (Release r \<in> set (owned_list regions holders i) \<and> Unmap p s r \<in> set (own_unmaps regions holders proc i))"
    for r p s
    using teardown_releases [of r regions holders proc i] by (auto simp: own_unmaps_iff teardown_list_def)
  ultimately show ?thesis using owned_list_ordered [OF distinct_owned [OF assms]]
    unfolding teardown_list_def steps_ordered_append owned_list_def by blast
qed

lemma partition_bound:
  "distinct ids \<Longrightarrow> (\<Sum>x\<leftarrow>ids. length (filter (\<lambda>c. f c = x) cs)) + length (filter (\<lambda>c. f c \<notin> set ids \<and> Q c) cs) \<le> length cs"
proof (induction ids arbitrary: cs)
  case Nil
  then show ?case by simp
next
  case (Cons x ids)
  let ?rest = "filter (\<lambda>c. f c \<noteq> x) cs"
  have "filter (\<lambda>c. f c = y) ?rest = filter (\<lambda>c. f c = y) cs" if "y \<in> set ids" for y
    using that Cons.prems by (auto intro: filter_cong)
  then have "(\<Sum>x\<leftarrow>ids. length (filter (\<lambda>c. f c = x) ?rest)) = (\<Sum>x\<leftarrow>ids. length (filter (\<lambda>c. f c = x) cs))"
    by (metis (mono_tags, lifting) map_eq_conv)
  moreover have "filter (\<lambda>c. f c \<notin> set ids \<and> Q c) ?rest = filter (\<lambda>c. f c \<notin> set (x # ids) \<and> Q c) cs"
    by (auto intro: filter_cong)
  moreover have "length (filter (\<lambda>c. f c = x) cs) + length ?rest = length cs"
    by (rule sum_length_filter_compl)
  ultimately show ?case using Cons.IH [of ?rest] Cons.prems by simp
qed

lemma length_cells:
  assumes "\<forall>h \<in> set holders. length (h_slots h) = S"
  shows "length (cells holders) \<le> length holders * S"
proof -
  have "length (concat (map (\<lambda>(p, h).
     if h_live h then map (\<lambda>(s, r). (p, s, r)) (filter (\<lambda>(s, r). r \<noteq> 0) (enumerate 0 (h_slots h))) else [])
     (enumerate k holders))) \<le> length holders * S" for k
    using assms
  proof (induction holders arbitrary: k)
    case (Cons h hs)
    have "length (filter (\<lambda>(s, r). r \<noteq> 0) (enumerate 0 (h_slots h))) \<le> S"
      using length_filter_le [of _ "enumerate 0 (h_slots h)"] Cons.prems by simp
    then show ?case using Cons.IH [of "Suc k"] Cons.prems by (auto intro: add_mono le_trans)
  qed simp
  then show ?thesis by (simp add: cells_def)
qed

lemma own_unmaps_cells:
  "length (own_unmaps regions holders proc i) \<le> length (filter (\<lambda>(p, s, r). \<not> owned regions i r) (cells holders))"
proof -
  let ?o = "own_unmaps regions holders proc i"
  let ?c = "map (\<lambda>(p, s, r). Unmap p s r) (filter (\<lambda>(p, s, r). \<not> owned regions i r) (cells holders))"
  have "distinct ?o"
    by (auto simp: own_unmaps_def distinct_map inj_on_def distinct_enumerate)
  moreover have "set ?o \<subseteq> set ?c"
  proof
    fix st assume st: "st \<in> set ?o"
    then obtain p s r where "st = Unmap p s r" by (auto simp: own_unmaps_def split: if_splits)
    with st show "st \<in> set ?c" by (force simp: own_unmaps_iff)
  qed
  ultimately have "length ?o \<le> card (set ?c)"
    using distinct_card [of ?o] card_mono [of "set ?c" "set ?o"] by simp
  also have "\<dots> \<le> length ?c" by (rule card_length)
  finally show ?thesis by simp
qed

lemma teardown_length:
  assumes "distinct_ids regions"
  shows "length (teardown_list regions holders proc i) \<le> length (cells holders) + 2 * length regions"
proof -
  let ?rs = "filter (\<lambda>r. r_live r \<and> r_owner r = i) regions"
  let ?n = "\<lambda>x. length (filter (\<lambda>c. snd (snd c) = x) (cells holders))"
  have d: "length (destroy_list regions holders r) \<le> ?n r + 2" for r
    using arg_cong [OF holders_of_cells [of r holders], of length]
    by (simp add: destroy_list_def split_def)
  have "length (concat (map (\<lambda>r. destroy_list regions holders (r_id r)) rs)) \<le> (\<Sum>x\<leftarrow>map r_id rs. ?n x) + 2 * length rs" for rs
  proof (induction rs)
    case (Cons r rs)
    then show ?case using d [of "r_id r"] by simp
  qed simp
  then have o: "length (owned_list regions holders i) \<le> (\<Sum>x\<leftarrow>map r_id ?rs. ?n x) + 2 * length ?rs"
    by (simp add: owned_list_def)
  have "owned regions i r \<longleftrightarrow> r \<in> set (map r_id ?rs)" for r by (auto simp: owned_def)
  then have u: "length (own_unmaps regions holders proc i)
    \<le> length (filter (\<lambda>c. snd (snd c) \<notin> set (map r_id ?rs) \<and> True) (cells holders))"
    using own_unmaps_cells [of regions holders proc i] by (simp add: split_def)
  have "length ?rs \<le> length regions" by simp
  moreover note partition_bound [OF distinct_owned [OF assms, of i], of "\<lambda>c. snd (snd c)" "cells holders" "\<lambda>_. True"]
  ultimately have "length (owned_list regions holders i) + length (own_unmaps regions holders proc i)
     \<le> length (cells holders) + 2 * length regions"
    using o u by linarith
  then show ?thesis by (simp add: teardown_list_def)
qed

section \<open>Properties\<close>

text \<open>
  Plans are well ordered: when no two live regions share an id, no teardown plan, complete or
  truncated, releases a region and later unmaps it; a destroy plan never does, whatever the table.
\<close>

theorem plans_well_ordered:
  "(distinct_ids regions \<longrightarrow> well_ordered (teardown N regions holders proc i))
   \<and> well_ordered (destroy N regions holders r)"
  unfolding well_ordered_def plan_rep_steps [OF plan_rep_teardown] plan_rep_steps [OF plan_rep_destroy]
  by (simp_all add: steps_ordered_take teardown_list_ordered destroy_list_ordered)

definition sample_regions :: "Region list" where
  "sample_regions = [Region_new 7 1, Region_EMPTY, Region_new 8 2]"

definition sample_holders :: "Holder list" where
  "sample_holders = [Holder_new 1 [7, 8], Holder_FREE 2, Holder_new 2 [0, 7]]"

theorem plans_well_ordered_witness:
  "distinct_ids sample_regions \<and> well_ordered (teardown 8 sample_regions sample_holders 0 1)
   \<and> Plan_steps (teardown 8 sample_regions sample_holders 0 1)
     = [Unmap 0 0 7, Unmap 2 1 7, ForgetCaps 7, Release 7, Unmap 0 1 8]"
proof (intro conjI)
  show d: "distinct_ids sample_regions" by code_simp
  show "well_ordered (teardown 8 sample_regions sample_holders 0 1)" using plans_well_ordered d by blast
  show "Plan_steps (teardown 8 sample_regions sample_holders 0 1)
     = [Unmap 0 0 7, Unmap 2 1 7, ForgetCaps 7, Release 7, Unmap 0 1 8]" by code_simp
qed

text \<open>
  (C31) A teardown is safe and complete: executing the plan of a dying process, truncated or not, no
  region is released while a live process still maps it; when the plan is not truncated, the
  mappings left are exactly those of other processes in regions the dead process does not own, and
  the regions released are exactly the ones it owns by identity.
\<close>

theorem teardown_safe_and_complete:
  "plan_safe (Plan_steps (teardown N regions holders proc i)) (cells holders)
   \<and> (\<not> p_truncated (teardown N regions holders proc i) \<longrightarrow>
        plan_left (Plan_steps (teardown N regions holders proc i)) (cells holders)
          = filter (\<lambda>(p, s, r). \<not> owned regions i r \<and> \<not> (p = proc \<and> h_id (holders ! proc) = i)) (cells holders)
        \<and> {r. Release r \<in> set (Plan_steps (teardown N regions holders proc i))} = {r. r \<noteq> 0 \<and> owned regions i r})"
  unfolding plan_rep_steps [OF plan_rep_teardown] plan_rep_truncated [OF plan_rep_teardown]
  by (simp_all add: plan_safe_take teardown_list_safe teardown_left teardown_releases)

theorem teardown_safe_and_complete_witness:
  "plan_left (Plan_steps (teardown 8 sample_regions sample_holders 2 2)) (cells sample_holders) = [(0, 0, 7)]"
proof -
  have "\<not> p_truncated (teardown 8 sample_regions sample_holders 2 2)" by code_simp
  with teardown_safe_and_complete [of 8 sample_regions sample_holders 2 2] show ?thesis
    by (simp add: sample_regions_def sample_holders_def Region_new_def Region_EMPTY_def Holder_new_def
        Holder_FREE_def owned_def cells_def)
qed

lemma plan_fits:
  assumes "distinct_ids regions" and "\<forall>h \<in> set holders. length (h_slots h) = S"
    and "length holders * S + 2 * length regions \<le> N"
  shows "\<not> p_truncated (teardown N regions holders proc i)" and "\<not> p_truncated (destroy N regions holders r)"
proof -
  have t: "length (teardown_list regions holders proc i) \<le> N" for proc i
    using teardown_length [OF assms(1), of holders proc i] length_cells [OF assms(2)] assms(3) by linarith
  then show "\<not> p_truncated (teardown N regions holders proc i)"
    unfolding plan_rep_truncated [OF plan_rep_teardown] by (simp add: not_less)
  have "length (destroy_list regions holders r) \<le> N"
  proof (cases "\<exists>x \<in> set regions. r_live x \<and> r_id x = r")
    case True
    then obtain x where x: "x \<in> set regions" "r_live x" "r_id x = r" by blast
    then have "length (destroy_list regions holders r) \<le> length (owned_list regions holders (r_owner x))"
      unfolding owned_list_def length_concat
      by (intro member_le_sum_list) (auto simp: image_iff)
    then show ?thesis using t [of 0 "r_owner x"] by (simp add: teardown_list_def)
  qed (auto simp: destroy_list_def list_ex_iff)
  then show "\<not> p_truncated (destroy N regions holders r)"
    unfolding plan_rep_truncated [OF plan_rep_destroy] by (simp add: not_less)
qed

text \<open>
  The kernel's bound is enough: with P holder slots of S share slots each, R region slots and
  no live id used twice, a plan of P * S + 2 * R steps or more is never truncated, neither for a
  teardown nor for the destruction of one region.
\<close>

theorem plan_bound_sufficient:
  assumes "distinct_ids regions" and "\<forall>h \<in> set holders. length (h_slots h) = S"
    and "length holders * S + 2 * length regions \<le> N"
  shows "\<not> p_truncated (teardown N regions holders proc i) \<and> \<not> p_truncated (destroy N regions holders r)"
  using plan_fits [OF assms] by blast

theorem plan_bound_sufficient_witness:
  "\<not> p_truncated (teardown 12 sample_regions sample_holders 0 1)"
  by (rule conjunct1 [OF plan_bound_sufficient [where S = 2]])
     (simp_all add: distinct_ids_def sample_regions_def sample_holders_def Region_new_def Region_EMPTY_def
        Holder_new_def Holder_FREE_def)

end
