(* ===== verification/Iommu.thy ===== *)
theory Iommu
  imports Abi
begin

text \<open>
  The containment logic behind an IOMMU domain capability (src/crates/iommu): what a device may
  reach (grants) and what it can reach (mappings). The tables refine two partial functions, from
  frames to rights and from device addresses to a frame with rights, and the crux
  \<open>device_reachable \<subseteq> granted\<close> holds in every state the operations can produce.
\<close>

record Grant =
  g_live :: bool
  g_frame :: u64
  g_rights :: CapRights

definition Grant_EMPTY :: Grant where
  "Grant_EMPTY = \<lparr>g_live = False, g_frame = 0, g_rights = RIGHTS_NONE\<rparr>"

record Mapping =
  m_live :: bool
  m_iova :: u64
  m_frame :: u64
  m_rights :: CapRights

definition Mapping_EMPTY :: Mapping where
  "Mapping_EMPTY = \<lparr>m_live = False, m_iova = 0, m_frame = 0, m_rights = RIGHTS_NONE\<rparr>"

datatype MapErr = NotGranted | RightsExceedGrant | IovaInUse | MapsFull

record Domain =
  d_grants :: "Grant list"
  d_maps :: "Mapping list"

definition Domain_new :: "nat \<Rightarrow> nat \<Rightarrow> Domain" where
  "Domain_new G M = \<lparr>d_grants = replicate G Grant_EMPTY, d_maps = replicate M Mapping_EMPTY\<rparr>"

definition Domain_granted :: "Domain \<Rightarrow> u64 \<Rightarrow> CapRights option" where
  "Domain_granted d frame = map_option g_rights (find (\<lambda>g. g_live g \<and> g_frame g = frame) (d_grants d))"

definition withdraw_uncovered :: "u64 \<Rightarrow> CapRights \<Rightarrow> Domain \<Rightarrow> Domain" where
  "withdraw_uncovered frame rts d = d\<lparr>d_maps := map (\<lambda>m.
     if m_live m \<and> m_frame m = frame \<and> \<not> CapRights_contains rts (m_rights m) then Mapping_EMPTY else m) (d_maps d)\<rparr>"

definition Domain_grant :: "u64 \<Rightarrow> CapRights \<Rightarrow> Domain \<Rightarrow> bool \<times> Domain" where
  "Domain_grant frame rts d =
     (case position (\<lambda>g. g_live g \<and> g_frame g = frame) (d_grants d) of
        Some i \<Rightarrow> (True, withdraw_uncovered frame rts
                    (d\<lparr>d_grants := (d_grants d)[i := (d_grants d ! i)\<lparr>g_rights := rts\<rparr>]\<rparr>))
      | None \<Rightarrow>
          (case position (\<lambda>g. \<not> g_live g) (d_grants d) of
             Some i \<Rightarrow> (True, d\<lparr>d_grants :=
                 (d_grants d)[i := \<lparr>g_live = True, g_frame = frame, g_rights = rts\<rparr>]\<rparr>)
           | None \<Rightarrow> (False, d)))"

definition Domain_revoke :: "u64 \<Rightarrow> Domain \<Rightarrow> usize \<times> Domain" where
  "Domain_revoke frame d =
     (let hit = (\<lambda>m. m_live m \<and> m_frame m = frame);
          n = count_by hit (d_maps d);
          d1 = d\<lparr>d_maps := map (\<lambda>m. if hit m then Mapping_EMPTY else m) (d_maps d)\<rparr>
      in (n, d1\<lparr>d_grants := map (\<lambda>g. if g_live g \<and> g_frame g = frame then Grant_EMPTY else g) (d_grants d1)\<rparr>))"

definition Domain_map :: "u64 \<Rightarrow> u64 \<Rightarrow> CapRights \<Rightarrow> Domain \<Rightarrow> (MapErr + unit) \<times> Domain" where
  "Domain_map iova frame rts d =
     (case Domain_granted d frame of
        None \<Rightarrow> (Inl NotGranted, d)
      | Some have \<Rightarrow>
          if \<not> CapRights_contains have rts then (Inl RightsExceedGrant, d)
          else if list_ex (\<lambda>m. m_live m \<and> m_iova m = iova) (d_maps d) then (Inl IovaInUse, d)
          else (case position (\<lambda>m. \<not> m_live m) (d_maps d) of
                  Some i \<Rightarrow> (Inr (), d\<lparr>d_maps := (d_maps d)[i :=
                      \<lparr>m_live = True, m_iova = iova, m_frame = frame, m_rights = rts\<rparr>]\<rparr>)
                | None \<Rightarrow> (Inl MapsFull, d)))"

definition Domain_unmap :: "u64 \<Rightarrow> Domain \<Rightarrow> bool \<times> Domain" where
  "Domain_unmap iova d =
     (case position (\<lambda>m. m_live m \<and> m_iova m = iova) (d_maps d) of
        Some i \<Rightarrow> (True, d\<lparr>d_maps := (d_maps d)[i := Mapping_EMPTY]\<rparr>)
      | None \<Rightarrow> (False, d))"

definition Domain_grants :: "Domain \<Rightarrow> (u64 \<times> CapRights) list" where
  "Domain_grants d = map (\<lambda>g. (g_frame g, g_rights g)) (filter g_live (d_grants d))"

definition Domain_reachable :: "Domain \<Rightarrow> (u64 \<times> u64 \<times> CapRights) list" where
  "Domain_reachable d = map (\<lambda>m. (m_iova m, m_frame m, m_rights m)) (filter m_live (d_maps d))"

definition Domain_contained :: "Domain \<Rightarrow> bool" where
  "Domain_contained d \<longleftrightarrow> list_all (\<lambda>m. case Domain_granted d (m_frame m) of
       None \<Rightarrow> False | Some have \<Rightarrow> CapRights_contains have (m_rights m)) (filter m_live (d_maps d))"

definition grant_count :: "Domain \<Rightarrow> usize" where
  "grant_count d = length (filter g_live (d_grants d))"

definition mapping_count :: "Domain \<Rightarrow> usize" where
  "mapping_count d = length (filter m_live (d_maps d))"

section \<open>The interface of a containing domain\<close>

locale dma_domain =
  fixes inv :: "'d \<Rightarrow> bool"
    and granted :: "'d \<Rightarrow> 'f \<Rightarrow> 'r option"
    and trans :: "'d \<Rightarrow> 'v \<Rightarrow> ('f \<times> 'r) option"
    and covers :: "'r \<Rightarrow> 'r \<Rightarrow> bool"
    and grant :: "'f \<Rightarrow> 'r \<Rightarrow> 'd \<Rightarrow> bool \<times> 'd"
    and revoke :: "'f \<Rightarrow> 'd \<Rightarrow> nat \<times> 'd"
    and install :: "'v \<Rightarrow> 'f \<Rightarrow> 'r \<Rightarrow> 'd \<Rightarrow> ('e + unit) \<times> 'd"
    and unmap :: "'v \<Rightarrow> 'd \<Rightarrow> bool \<times> 'd"
  assumes inv_contained: "inv d \<Longrightarrow> trans d v = Some (f, r) \<Longrightarrow> \<exists>h. granted d f = Some h \<and> covers h r"
    and grant_laws: "inv d \<Longrightarrow> inv (snd (grant f r d))"
      "inv d \<Longrightarrow> granted (snd (grant f r d)) = (if fst (grant f r d) then (granted d)(f \<mapsto> r) else granted d)"
      "inv d \<Longrightarrow> trans (snd (grant f r d)) v = (case trans d v of None \<Rightarrow> None
          | Some (g, q) \<Rightarrow> if g = f \<and> \<not> covers r q then None else Some (g, q))"
    and revoke_laws: "inv d \<Longrightarrow> inv (snd (revoke f d))"
      "inv d \<Longrightarrow> granted (snd (revoke f d)) = (granted d)(f := None)"
      "inv d \<Longrightarrow> trans (snd (revoke f d)) v = (case trans d v of None \<Rightarrow> None
          | Some (g, q) \<Rightarrow> if g = f then None else Some (g, q))"
    and install_laws: "inv d \<Longrightarrow> inv (snd (install v f r d))"
      "inv d \<Longrightarrow> granted (snd (install v f r d)) = granted d"
      "inv d \<Longrightarrow> fst (install v f r d) = Inl e \<Longrightarrow> snd (install v f r d) = d"
      "inv d \<Longrightarrow> fst (install v f r d) = Inr () \<Longrightarrow>
          trans d v = None \<and> (\<exists>h. granted d f = Some h \<and> covers h r)
          \<and> trans (snd (install v f r d)) = (trans d)(v \<mapsto> (f, r))"
    and unmap_laws: "inv d \<Longrightarrow> inv (snd (unmap v d))"
      "inv d \<Longrightarrow> granted (snd (unmap v d)) = granted d"
      "inv d \<Longrightarrow> trans (snd (unmap v d)) = (trans d)(v := None)"
begin

definition out_of_reach :: "'f \<Rightarrow> 'd \<Rightarrow> bool" where
  "out_of_reach f d \<longleftrightarrow> granted d f = None \<and> (\<forall>v r. trans d v \<noteq> Some (f, r))"

lemma ungranted_out_of_reach: "inv d \<Longrightarrow> granted d f = None \<Longrightarrow> out_of_reach f d"
  using inv_contained by (fastforce simp: out_of_reach_def)

lemma revoke_out_of_reach: "inv d \<Longrightarrow> out_of_reach f (snd (revoke f d))"
  by (simp add: ungranted_out_of_reach revoke_laws)

lemma out_of_reach_stays:
  assumes "inv d" and "out_of_reach f d"
  shows "g \<noteq> f \<Longrightarrow> out_of_reach f (snd (grant g r d))"
    and "out_of_reach f (snd (revoke g d))"
    and "out_of_reach f (snd (install v g r d))"
    and "out_of_reach f (snd (unmap v d))"
  using assms
  by (auto simp: grant_laws revoke_laws install_laws unmap_laws out_of_reach_def [of f d]
      intro!: ungranted_out_of_reach)

lemma remap_refused:
  assumes "inv d" and "out_of_reach f d"
  shows "\<exists>e. fst (install v f r d) = Inl e"
proof (cases "fst (install v f r d)")
  case (Inr u)
  then show ?thesis using install_laws(4) [OF assms(1), of v f r] assms(2) by (auto simp: out_of_reach_def)
qed simp

end

section \<open>The tables as partial functions\<close>

abbreviation grant_for :: "u64 \<Rightarrow> Grant \<Rightarrow> bool" where
  "grant_for f \<equiv> \<lambda>g. g_live g \<and> g_frame g = f"

abbreviation map_for :: "u64 \<Rightarrow> Mapping \<Rightarrow> bool" where
  "map_for v \<equiv> \<lambda>m. m_live m \<and> m_iova m = v"

definition Domain_trans :: "Domain \<Rightarrow> u64 \<Rightarrow> (u64 \<times> CapRights) option" where
  "Domain_trans d v = map_option (\<lambda>m. (m_frame m, m_rights m)) (find (map_for v) (d_maps d))"

definition domain_inv :: "Domain \<Rightarrow> bool" where
  "domain_inv d \<longleftrightarrow> (\<forall>v. unique_by (map_for v) (d_maps d)) \<and> Domain_contained d"

lemma granted_position:
  "Domain_granted d f = map_option (\<lambda>i. g_rights (d_grants d ! i)) (position (grant_for f) (d_grants d))"
  by (simp add: Domain_granted_def find_position option.map_comp o_def)

lemma trans_position:
  "Domain_trans d v = map_option (\<lambda>i. (m_frame (d_maps d ! i), m_rights (d_maps d ! i))) (position (map_for v) (d_maps d))"
  by (simp add: Domain_trans_def find_position option.map_comp o_def)

lemma contained_iff:
  "Domain_contained d \<longleftrightarrow> (\<forall>m \<in> set (d_maps d). m_live m \<longrightarrow>
     (\<exists>h. Domain_granted d (m_frame m) = Some h \<and> CapRights_contains h (m_rights m)))"
  by (auto simp: Domain_contained_def list_all_iff split: option.splits)

lemma trans_None: "Domain_trans d v = None \<longleftrightarrow> (\<forall>m \<in> set (d_maps d). \<not> map_for v m)"
  by (auto simp: Domain_trans_def find_None_iff)

lemma trans_SomeD:
  "Domain_trans d v = Some (f, r) \<Longrightarrow> \<exists>m \<in> set (d_maps d). m_live m \<and> m_iova m = v \<and> m_frame m = f \<and> m_rights m = r"
  by (auto simp: Domain_trans_def find_Some_iff)

lemma reachable_trans:
  assumes "\<forall>v. unique_by (map_for v) (d_maps d)"
  shows "(v, f, r) \<in> set (Domain_reachable d) \<longleftrightarrow> Domain_trans d v = Some (f, r)"
proof
  assume "(v, f, r) \<in> set (Domain_reachable d)"
  then obtain i where i: "i < length (d_maps d)" "map_for v (d_maps d ! i)" "m_frame (d_maps d ! i) = f"
      "m_rights (d_maps d ! i) = r"
    by (auto simp: Domain_reachable_def in_set_conv_nth)
  then have "position (map_for v) (d_maps d) = Some i" using assms position_unique by blast
  then show "Domain_trans d v = Some (f, r)" using i by (simp add: trans_position)
qed (force simp: Domain_reachable_def dest!: trans_SomeD)

text \<open>Withdrawing the mappings that satisfy a condition.\<close>

definition withdraw :: "(Mapping \<Rightarrow> bool) \<Rightarrow> Domain \<Rightarrow> Domain" where
  "withdraw Q d = d\<lparr>d_maps := map (\<lambda>m. if Q m then Mapping_EMPTY else m) (d_maps d)\<rparr>"

lemma withdraw_unique:
  assumes "unique_by (map_for v) (d_maps d)"
  shows "unique_by (map_for v) (d_maps (withdraw Q d))"
  by (rule unique_by_mono [OF assms]) (auto simp: withdraw_def Mapping_EMPTY_def split: if_splits)

lemma withdraw_trans:
  assumes "\<forall>v. unique_by (map_for v) (d_maps d)"
  shows "Domain_trans (withdraw Q d) v = (case position (map_for v) (d_maps d) of None \<Rightarrow> None
     | Some i \<Rightarrow> if Q (d_maps d ! i) then None else Domain_trans d v)"
proof -
  let ?ms = "d_maps d"
  have pos: "position (map_for v) (d_maps (withdraw Q d)) = position (\<lambda>m. map_for v m \<and> \<not> Q m) ?ms"
    by (auto simp: withdraw_def position_map Mapping_EMPTY_def intro!: position_cong)
  have u: "unique_by (map_for v) ?ms" "unique_by (\<lambda>m. map_for v m \<and> \<not> Q m) ?ms"
    using assms by (auto simp: unique_by_def)
  show ?thesis
  proof (cases "position (map_for v) ?ms")
    case None
    then have "position (\<lambda>m. map_for v m \<and> \<not> Q m) ?ms = None" by (auto simp: position_None)
    then show ?thesis using pos None by (simp add: trans_position)
  next
    case (Some i)
    then have i: "i < length ?ms" "map_for v (?ms ! i)" by (auto dest: position_SomeD)
    show ?thesis
    proof (cases "Q (?ms ! i)")
      case True
      have "position (\<lambda>m. map_for v m \<and> \<not> Q m) ?ms = None"
        unfolding position_None_nth using True unique_byD [OF u(1) _ i(1) _ i(2)] by blast
      then show ?thesis using Some True pos by (simp add: trans_position)
    next
      case False
      then have "position (\<lambda>m. map_for v m \<and> \<not> Q m) ?ms = Some i"
        using i unfolding position_unique [OF u(2)] by simp
      then show ?thesis using Some False pos i by (simp add: trans_position withdraw_def)
    qed
  qed
qed

lemma withdraw_granted [simp]: "Domain_granted (withdraw Q d) = Domain_granted d"
  by (simp add: fun_eq_iff Domain_granted_def withdraw_def)

lemma withdraw_members: "m \<in> set (d_maps (withdraw Q d)) \<Longrightarrow> m_live m \<Longrightarrow> m \<in> set (d_maps d) \<and> \<not> Q m"
  by (auto simp: withdraw_def Mapping_EMPTY_def split: if_splits)

section \<open>What each operation does to the two functions\<close>

lemma granted_replace:
  assumes "position (grant_for f) (d_grants d) = Some i"
  shows "Domain_granted (d\<lparr>d_grants := (d_grants d)[i := (d_grants d ! i)\<lparr>g_rights := r\<rparr>]\<rparr>) = (Domain_granted d)(f \<mapsto> r)"
proof
  fix f'
  have i: "i < length (d_grants d)" "grant_for f (d_grants d ! i)" using assms by (auto dest: position_SomeD)
  have "position (grant_for f') ((d_grants d)[i := (d_grants d ! i)\<lparr>g_rights := r\<rparr>]) = position (grant_for f') (d_grants d)"
    using i by (simp add: position_update_same)
  moreover have "j \<noteq> i" if "position (grant_for f') (d_grants d) = Some j" "f' \<noteq> f" for j
    using that i by (auto dest: position_SomeD)
  ultimately show "Domain_granted (d\<lparr>d_grants := (d_grants d)[i := (d_grants d ! i)\<lparr>g_rights := r\<rparr>]\<rparr>) f'
      = ((Domain_granted d)(f \<mapsto> r)) f'"
    using assms i by (cases "position (grant_for f') (d_grants d)") (auto simp: granted_position nth_list_update)
qed

lemma granted_fresh:
  assumes "position (grant_for f) (d_grants d) = None" and "position (\<lambda>g. \<not> g_live g) (d_grants d) = Some i"
  shows "Domain_granted (d\<lparr>d_grants := (d_grants d)[i := \<lparr>g_live = True, g_frame = f, g_rights = r\<rparr>]\<rparr>)
    = (Domain_granted d)(f \<mapsto> r)"
proof
  fix f'
  let ?g = "\<lparr>g_live = True, g_frame = f, g_rights = r\<rparr>"
  have i: "i < length (d_grants d)" "\<not> g_live (d_grants d ! i)" using assms(2) by (auto dest: position_SomeD)
  show "Domain_granted (d\<lparr>d_grants := (d_grants d)[i := ?g]\<rparr>) f' = ((Domain_granted d)(f \<mapsto> r)) f'"
  proof (cases "f' = f")
    case True
    then have "position (grant_for f') ((d_grants d)[i := ?g]) = Some i"
      using assms(1) i by (simp add: position_update_fresh)
    then show ?thesis using True i by (simp add: granted_position)
  next
    case False
    then have "position (grant_for f') ((d_grants d)[i := ?g]) = position (grant_for f') (d_grants d)"
      using i by (intro position_update_same) auto
    moreover have "j \<noteq> i" if "position (grant_for f') (d_grants d) = Some j" for j
      using that i by (auto dest: position_SomeD)
    ultimately show ?thesis using False
      by (cases "position (grant_for f') (d_grants d)") (auto simp: granted_position)
  qed
qed

lemma withdraw_uncovered_eq:
  "withdraw_uncovered f r d = withdraw (\<lambda>m. m_live m \<and> m_frame m = f \<and> \<not> CapRights_contains r (m_rights m)) d"
  by (simp add: withdraw_uncovered_def withdraw_def)

lemma grant_cases:
  obtains (replace) i where "position (grant_for f) (d_grants d) = Some i" "Domain_granted d f \<noteq> None"
      "Domain_grant f r d = (True, withdraw (\<lambda>m. m_live m \<and> m_frame m = f \<and> \<not> CapRights_contains r (m_rights m))
         (d\<lparr>d_grants := (d_grants d)[i := (d_grants d ! i)\<lparr>g_rights := r\<rparr>]\<rparr>))"
  | (fresh) i where "position (grant_for f) (d_grants d) = None" "Domain_granted d f = None"
      "position (\<lambda>g. \<not> g_live g) (d_grants d) = Some i"
      "Domain_grant f r d = (True, d\<lparr>d_grants := (d_grants d)[i := \<lparr>g_live = True, g_frame = f, g_rights = r\<rparr>]\<rparr>)"
  | (full) "Domain_granted d f = None" "position (\<lambda>g. \<not> g_live g) (d_grants d) = None" "Domain_grant f r d = (False, d)"
  by (cases "position (grant_for f) (d_grants d)"; cases "position (\<lambda>g. \<not> g_live g) (d_grants d)")
     (auto simp: Domain_grant_def withdraw_uncovered_eq granted_position)

lemma grant_granted:
  "Domain_granted (snd (Domain_grant f r d)) = (if fst (Domain_grant f r d) then (Domain_granted d)(f \<mapsto> r) else Domain_granted d)"
  by (cases rule: grant_cases [of f d r]) (simp_all add: granted_replace granted_fresh)

lemma trans_grants_irrelevant [simp]: "Domain_trans (d\<lparr>d_grants := gs\<rparr>) = Domain_trans d"
  by (simp add: fun_eq_iff Domain_trans_def)

lemma inv_mapped: "domain_inv d \<Longrightarrow> Domain_trans d v = Some (f, r) \<Longrightarrow>
    \<exists>h. Domain_granted d f = Some h \<and> CapRights_contains h r"
  by (auto simp: domain_inv_def contained_iff dest!: trans_SomeD)

lemma trans_at:
  "position (map_for v) (d_maps d) = Some i \<Longrightarrow> Domain_trans d v = Some (m_frame (d_maps d ! i), m_rights (d_maps d ! i))
     \<and> i < length (d_maps d) \<and> m_live (d_maps d ! i)"
  by (auto simp: trans_position dest: position_SomeD)

lemma grant_trans:
  assumes "domain_inv d"
  shows "Domain_trans (snd (Domain_grant f r d)) v = (case Domain_trans d v of None \<Rightarrow> None
     | Some (g, q) \<Rightarrow> if g = f \<and> \<not> CapRights_contains r q then None else Some (g, q))"
proof (cases rule: grant_cases [of f d r])
  case (replace i)
  let ?d = "d\<lparr>d_grants := (d_grants d)[i := (d_grants d ! i)\<lparr>g_rights := r\<rparr>]\<rparr>"
  have "\<forall>v. unique_by (map_for v) (d_maps ?d)" using assms by (simp add: domain_inv_def)
  from withdraw_trans [OF this] replace(3) show ?thesis
    by (cases "position (map_for v) (d_maps d)") (auto dest: trans_at simp: trans_position)
next
  case (fresh i)
  then show ?thesis using inv_mapped [OF assms, of v] by (auto split: option.splits)
next
  case full
  then show ?thesis using inv_mapped [OF assms, of v] by (auto split: option.splits)
qed

lemma grant_inv:
  assumes "domain_inv d"
  shows "domain_inv (snd (Domain_grant f r d))"
proof (cases rule: grant_cases [of f d r])
  case (replace i)
  have "Domain_granted (d\<lparr>d_grants := (d_grants d)[i := (d_grants d ! i)\<lparr>g_rights := r\<rparr>]\<rparr>) = (Domain_granted d)(f \<mapsto> r)"
    using replace(1) by (rule granted_replace)
  then show ?thesis using assms replace(3)
    by (auto simp: domain_inv_def contained_iff withdraw_unique dest!: withdraw_members)
next
  case (fresh i)
  have "Domain_granted (snd (Domain_grant f r d)) = (Domain_granted d)(f \<mapsto> r)" using fresh by (simp add: granted_fresh)
  then show ?thesis using assms fresh by (auto simp: domain_inv_def contained_iff)
next
  case full
  then show ?thesis using assms by simp
qed

lemma revoke_eq:
  "snd (Domain_revoke f d) = (withdraw (\<lambda>m. m_live m \<and> m_frame m = f) d)
     \<lparr>d_grants := map (\<lambda>g. if grant_for f g then Grant_EMPTY else g) (d_grants d)\<rparr>"
  by (simp add: Domain_revoke_def withdraw_def)

lemma revoke_granted: "Domain_granted (snd (Domain_revoke f d)) = (Domain_granted d)(f := None)"
proof
  fix f'
  let ?e = "\<lambda>g. if grant_for f g then Grant_EMPTY else g"
  have p: "position (grant_for f') (map ?e (d_grants d)) = (if f' = f then None else position (grant_for f') (d_grants d))"
    by (auto simp: position_map position_None Grant_EMPTY_def intro!: position_cong split: if_splits)
  have "?e (d_grants d ! i) = d_grants d ! i" "i < length (d_grants d)"
    if "f' \<noteq> f" "position (grant_for f') (d_grants d) = Some i" for i
    using that by (auto dest: position_SomeD)
  then show "Domain_granted (snd (Domain_revoke f d)) f' = ((Domain_granted d)(f := None)) f'"
    using p by (cases "position (grant_for f') (d_grants d)") (auto simp: revoke_eq granted_position)
qed

lemma revoke_trans:
  assumes "domain_inv d"
  shows "Domain_trans (snd (Domain_revoke f d)) v = (case Domain_trans d v of None \<Rightarrow> None
     | Some (g, q) \<Rightarrow> if g = f then None else Some (g, q))"
proof -
  have "\<forall>v. unique_by (map_for v) (d_maps d)" using assms by (simp add: domain_inv_def)
  from withdraw_trans [OF this] show ?thesis
    by (cases "position (map_for v) (d_maps d)") (auto simp: revoke_eq trans_position dest: position_SomeD)
qed

lemma revoke_inv:
  assumes "domain_inv d"
  shows "domain_inv (snd (Domain_revoke f d))"
proof -
  have "unique_by (map_for v) (d_maps (snd (Domain_revoke f d)))" for v
    using assms by (simp add: revoke_eq withdraw_unique domain_inv_def)
  moreover have "Domain_contained (snd (Domain_revoke f d))"
    unfolding contained_iff revoke_granted
    using assms by (auto simp: revoke_eq domain_inv_def contained_iff dest!: withdraw_members)
  ultimately show ?thesis by (simp add: domain_inv_def)
qed

lemma map_granted: "Domain_granted (snd (Domain_map v f r d)) = Domain_granted d"
  by (auto simp: fun_eq_iff Domain_map_def Domain_granted_def split: option.splits)

lemma map_error: "fst (Domain_map v f r d) = Inl e \<Longrightarrow> snd (Domain_map v f r d) = d"
  by (auto simp: Domain_map_def split: option.splits if_splits)

lemma map_ok:
  assumes "fst (Domain_map v f r d) = Inr u"
  obtains i h where "Domain_granted d f = Some h" "CapRights_contains h r" "position (map_for v) (d_maps d) = None"
    "i < length (d_maps d)" "\<not> m_live (d_maps d ! i)"
    "snd (Domain_map v f r d) = d\<lparr>d_maps := (d_maps d)[i := \<lparr>m_live = True, m_iova = v, m_frame = f, m_rights = r\<rparr>]\<rparr>"
proof -
  from assms obtain h i where a: "Domain_granted d f = Some h" "CapRights_contains h r"
      "\<not> list_ex (map_for v) (d_maps d)" "position (\<lambda>m. \<not> m_live m) (d_maps d) = Some i"
    by (auto simp: Domain_map_def split: option.splits if_splits)
  have n: "position (map_for v) (d_maps d) = None" using a(3) by (auto simp: list_ex_iff position_None)
  have "snd (Domain_map v f r d) = d\<lparr>d_maps := (d_maps d)[i := \<lparr>m_live = True, m_iova = v, m_frame = f, m_rights = r\<rparr>]\<rparr>"
    using a by (simp add: Domain_map_def)
  from that [OF a(1,2) n position_SomeD(1,2) [OF a(4)] this] show ?thesis .
qed

lemma trans_install:
  assumes "position (map_for v) (d_maps d) = None" "i < length (d_maps d)" "\<not> m_live (d_maps d ! i)"
  shows "Domain_trans (d\<lparr>d_maps := (d_maps d)[i := \<lparr>m_live = True, m_iova = v, m_frame = f, m_rights = r\<rparr>]\<rparr>)
    = (Domain_trans d)(v \<mapsto> (f, r))"
proof
  fix v'
  let ?m = "\<lparr>m_live = True, m_iova = v, m_frame = f, m_rights = r\<rparr>"
  show "Domain_trans (d\<lparr>d_maps := (d_maps d)[i := ?m]\<rparr>) v' = ((Domain_trans d)(v \<mapsto> (f, r))) v'"
  proof (cases "v' = v")
    case True
    then have "position (map_for v') ((d_maps d)[i := ?m]) = Some i"
      using assms by (simp add: position_update_fresh)
    then show ?thesis using True assms by (simp add: trans_position)
  next
    case False
    then have "position (map_for v') ((d_maps d)[i := ?m]) = position (map_for v') (d_maps d)"
      using assms by (intro position_update_same) auto
    moreover have "j \<noteq> i" if "position (map_for v') (d_maps d) = Some j" for j
      using that assms by (auto dest: position_SomeD)
    ultimately show ?thesis using False
      by (cases "position (map_for v') (d_maps d)") (auto simp: trans_position)
  qed
qed

lemma map_inv:
  assumes "domain_inv d"
  shows "domain_inv (snd (Domain_map v f r d))"
proof (cases "fst (Domain_map v f r d)")
  case (Inl e)
  then show ?thesis using assms by (simp add: map_error)
next
  case (Inr u)
  from map_ok [OF Inr] obtain i h where m: "Domain_granted d f = Some h" "CapRights_contains h r"
    "position (map_for v) (d_maps d) = None" "i < length (d_maps d)" "\<not> m_live (d_maps d ! i)"
    "snd (Domain_map v f r d) = d\<lparr>d_maps := (d_maps d)[i := \<lparr>m_live = True, m_iova = v, m_frame = f, m_rights = r\<rparr>]\<rparr>"
    by blast
  let ?ms = "(d_maps d)[i := \<lparr>m_live = True, m_iova = v, m_frame = f, m_rights = r\<rparr>]"
  have "unique_by (map_for w) ?ms" for w
  proof (cases "w = v")
    case True
    then show ?thesis using unique_by_update_fresh [OF m(3)] by simp
  next
    case False
    then show ?thesis using assms by (intro unique_by_update_not) (auto simp: domain_inv_def)
  qed
  moreover have "\<exists>h. Domain_granted d (m_frame x) = Some h \<and> CapRights_contains h (m_rights x)"
    if "x \<in> set ?ms" "m_live x" for x
  proof -
    have "x = \<lparr>m_live = True, m_iova = v, m_frame = f, m_rights = r\<rparr> \<or> x \<in> set (d_maps d)"
      using that(1) set_update_subset_insert by fastforce
    then show ?thesis using that(2) m(1,2) assms by (auto simp: domain_inv_def contained_iff)
  qed
  ultimately show ?thesis using m(6) map_granted [of v f r d] by (simp add: domain_inv_def contained_iff)
qed

lemma unmap_granted: "Domain_granted (snd (Domain_unmap v d)) = Domain_granted d"
  by (auto simp: fun_eq_iff Domain_unmap_def Domain_granted_def split: option.splits)

lemma unmap_trans:
  assumes "domain_inv d"
  shows "Domain_trans (snd (Domain_unmap v d)) = (Domain_trans d)(v := None)"
proof (cases "position (map_for v) (d_maps d)")
  case None
  then show ?thesis by (auto simp: Domain_unmap_def trans_position fun_eq_iff)
next
  case (Some i)
  then have i: "i < length (d_maps d)" "map_for v (d_maps d ! i)" by (auto dest: position_SomeD)
  have u: "unique_by (map_for v) (d_maps d)" using assms by (simp add: domain_inv_def)
  show ?thesis
  proof
    fix v'
    show "Domain_trans (snd (Domain_unmap v d)) v' = ((Domain_trans d)(v := None)) v'"
    proof (cases "v' = v")
      case True
      then show ?thesis using Some position_remove_unique [OF u Some, of Mapping_EMPTY]
        by (simp add: Domain_unmap_def trans_position Mapping_EMPTY_def)
    next
      case False
      then have "position (map_for v') ((d_maps d)[i := Mapping_EMPTY]) = position (map_for v') (d_maps d)"
        using i by (intro position_update_same) (auto simp: Mapping_EMPTY_def)
      moreover have "j \<noteq> i" if "position (map_for v') (d_maps d) = Some j" for j
        using that i False by (auto dest: position_SomeD)
      ultimately show ?thesis using False Some
        by (cases "position (map_for v') (d_maps d)") (auto simp: Domain_unmap_def trans_position)
    qed
  qed
qed

lemma unmap_inv:
  assumes "domain_inv d"
  shows "domain_inv (snd (Domain_unmap v d))"
proof (cases "position (map_for v) (d_maps d)")
  case (Some i)
  have "unique_by (map_for w) ((d_maps d)[i := Mapping_EMPTY])" for w
    using assms by (intro unique_by_update_not) (auto simp: domain_inv_def Mapping_EMPTY_def)
  moreover have "x \<in> set (d_maps d)" if "x \<in> set ((d_maps d)[i := Mapping_EMPTY])" "m_live x" for x
    using that set_update_subset_insert [of "d_maps d" i Mapping_EMPTY] by (auto simp: Mapping_EMPTY_def)
  ultimately show ?thesis using assms Some unmap_granted [of v d]
    by (auto simp: domain_inv_def contained_iff Domain_unmap_def)
qed (use assms in \<open>simp add: Domain_unmap_def\<close>)

interpretation dd: dma_domain domain_inv Domain_granted Domain_trans CapRights_contains
  Domain_grant Domain_revoke Domain_map Domain_unmap
proof (unfold_locales, goal_cases)
  case (11 d v f r)
  then show ?case using trans_install by (elim map_ok) (auto simp: trans_position)
qed (simp_all add: inv_mapped grant_inv grant_granted grant_trans revoke_inv revoke_granted revoke_trans
       map_inv map_granted map_error unmap_inv unmap_granted unmap_trans)

section \<open>Sequences of operations\<close>

datatype DomainOp = OpGrant u64 CapRights | OpRevoke u64 | OpMap u64 u64 CapRights | OpUnmap u64

fun Domain_step :: "DomainOp \<Rightarrow> Domain \<Rightarrow> Domain" where
  "Domain_step (OpGrant f r) d = snd (Domain_grant f r d)"
| "Domain_step (OpRevoke f) d = snd (Domain_revoke f d)"
| "Domain_step (OpMap v f r) d = snd (Domain_map v f r d)"
| "Domain_step (OpUnmap v) d = snd (Domain_unmap v d)"

definition Domain_run :: "DomainOp list \<Rightarrow> Domain \<Rightarrow> Domain" where
  "Domain_run ops d = fold Domain_step ops d"

lemma domain_new_inv: "domain_inv (Domain_new G M)"
  by (auto simp: domain_inv_def contained_iff Domain_new_def unique_by_def Mapping_EMPTY_def)

lemma step_inv: "domain_inv d \<Longrightarrow> domain_inv (Domain_step op d)"
  by (cases op) (simp_all add: dd.grant_laws dd.revoke_laws dd.install_laws dd.unmap_laws)

lemma run_inv: "domain_inv d \<Longrightarrow> domain_inv (Domain_run ops d)"
  by (induction ops arbitrary: d) (simp_all add: Domain_run_def step_inv)

lemma step_out_of_reach:
  assumes "domain_inv d" and "dd.out_of_reach f d" and "\<And>r. op \<noteq> OpGrant f r"
  shows "dd.out_of_reach f (Domain_step op d)"
proof (cases op)
  case (OpGrant g r)
  then have "g \<noteq> f" using assms(3) by blast
  then show ?thesis using OpGrant assms by (simp add: dd.out_of_reach_stays)
qed (simp_all add: dd.out_of_reach_stays assms)

lemma run_out_of_reach:
  assumes "domain_inv d" and "dd.out_of_reach f d" and "\<And>r. OpGrant f r \<notin> set ops"
  shows "dd.out_of_reach f (Domain_run ops d)"
  using assms
proof (induction ops arbitrary: d)
  case (Cons op ops)
  have "dd.out_of_reach f (Domain_step op d)" using Cons.prems by (intro step_out_of_reach) auto
  then show ?case using Cons.IH [OF step_inv] Cons.prems by (simp add: Domain_run_def)
qed (simp add: Domain_run_def)

section \<open>Properties\<close>

text \<open>
  (C34) Containment, the crux of the DMA design: after any sequence of grant, revoke, map and unmap
  on a fresh domain, the check contained succeeds, and it means that every device address that
  translates reaches a frame under a live grant with rights no wider than the grant's, and that no
  device address translates to two things.
\<close>

theorem domain_always_contained:
  fixes ops G M
  defines "d \<equiv> Domain_run ops (Domain_new G M)"
  shows "Domain_contained d
         \<and> (\<forall>v f r. (v, f, r) \<in> set (Domain_reachable d) \<longrightarrow>
              (\<exists>h. Domain_granted d f = Some h \<and> CapRights_contains h r)
              \<and> (\<forall>f' r'. (v, f', r') \<in> set (Domain_reachable d) \<longrightarrow> f = f' \<and> r = r'))"
proof -
  have inv: "domain_inv d" unfolding d_def by (rule run_inv [OF domain_new_inv])
  then have c: "Domain_contained d" by (simp add: domain_inv_def)
  have t: "(v, f, r) \<in> set (Domain_reachable d) \<longleftrightarrow> Domain_trans d v = Some (f, r)" for v f r
    using inv by (intro reachable_trans) (simp add: domain_inv_def)
  show ?thesis unfolding t using c dd.inv_contained [OF inv] by simp
qed

theorem domain_always_contained_witness:
  "(9, 5, 1) \<in> set (Domain_reachable (Domain_run [OpGrant 5 3, OpMap 9 5 1, OpMap 8 6 1] (Domain_new 2 2)))
   \<and> (\<exists>h. Domain_granted (Domain_run [OpGrant 5 3, OpMap 9 5 1, OpMap 8 6 1] (Domain_new 2 2)) 5 = Some h
        \<and> CapRights_contains h 1)"
proof -
  have m: "(9, 5, 1) \<in> set (Domain_reachable (Domain_run [OpGrant 5 3, OpMap 9 5 1, OpMap 8 6 1] (Domain_new 2 2)))"
    by code_simp
  with domain_always_contained show ?thesis by blast
qed

text \<open>
  (C39) Revocation is final until the frame is granted again: after revoke, whatever operations
  follow that do not grant the frame, no device address reaches it and every attempt to map it is
  refused.
\<close>

theorem revoked_stays_out_of_reach:
  assumes "domain_inv d" and "\<And>r. OpGrant f r \<notin> set ops"
  shows "(v, f, r) \<notin> set (Domain_reachable (Domain_run ops (snd (Domain_revoke f d))))
         \<and> fst (Domain_map v f r (Domain_run ops (snd (Domain_revoke f d)))) = Inl NotGranted"
proof
  let ?d = "Domain_run ops (snd (Domain_revoke f d))"
  have inv: "domain_inv ?d" by (intro run_inv dd.revoke_laws assms)
  have out: "dd.out_of_reach f ?d"
    by (intro run_out_of_reach dd.revoke_laws dd.revoke_out_of_reach assms)
  show "(v, f, r) \<notin> set (Domain_reachable ?d)"
    using reachable_trans [of ?d v f r] inv out by (auto simp: domain_inv_def dd.out_of_reach_def)
  show "fst (Domain_map v f r ?d) = Inl NotGranted"
    using out by (simp add: Domain_map_def dd.out_of_reach_def)
qed

theorem revoked_stays_out_of_reach_witness:
  "(9, 5, 1) \<notin> set (Domain_reachable
      (Domain_run [OpMap 9 5 1] (snd (Domain_revoke 5 (Domain_run [OpGrant 5 3, OpMap 9 5 1] (Domain_new 2 2))))))"
  by (rule conjunct1 [OF revoked_stays_out_of_reach]) (auto intro: run_inv domain_new_inv)

text \<open>
  The operations refine updates of two partial functions, granted frames and translated device
  addresses: grant sets a frame's rights and drops exactly the mappings of that frame the new
  rights do not cover, revoke removes a frame from both, map adds one translation exactly when the
  frame is granted widely enough, the address is free and there is a slot, and unmap removes one.
\<close>

theorem domain_refines_maps:
  assumes "domain_inv d"
  shows "Domain_granted (snd (Domain_grant f r d))
         = (if fst (Domain_grant f r d) then (Domain_granted d)(f \<mapsto> r) else Domain_granted d)
    \<and> Domain_trans (snd (Domain_grant f r d)) v = (case Domain_trans d v of None \<Rightarrow> None
         | Some (g, q) \<Rightarrow> if g = f \<and> \<not> CapRights_contains r q then None else Some (g, q))
    \<and> Domain_granted (snd (Domain_revoke f d)) = (Domain_granted d)(f := None)
    \<and> Domain_trans (snd (Domain_revoke f d)) v = (case Domain_trans d v of None \<Rightarrow> None
         | Some (g, q) \<Rightarrow> if g = f then None else Some (g, q))
    \<and> (fst (Domain_map v f r d) = Inr () \<longleftrightarrow> (\<exists>h. Domain_granted d f = Some h \<and> CapRights_contains h r)
         \<and> Domain_trans d v = None \<and> mapping_count d < length (d_maps d))
    \<and> Domain_trans (snd (Domain_map v f r d))
         = (if fst (Domain_map v f r d) = Inr () then (Domain_trans d)(v \<mapsto> (f, r)) else Domain_trans d)
    \<and> Domain_trans (snd (Domain_unmap v d)) = (Domain_trans d)(v := None)"
proof (intro conjI)
  have full: "position (\<lambda>m. \<not> m_live m) ms = None \<longleftrightarrow> \<not> length (filter m_live ms) < length ms" for ms
    by (metis length_filter_le length_filter_less linorder_not_less nless_le position_None filter_True)
  show "fst (Domain_map v f r d) = Inr () \<longleftrightarrow> (\<exists>h. Domain_granted d f = Some h \<and> CapRights_contains h r)
           \<and> Domain_trans d v = None \<and> mapping_count d < length (d_maps d)"
    using full [of "d_maps d"]
    by (auto simp: Domain_map_def trans_None list_ex_iff mapping_count_def split: option.splits)
  show "Domain_trans (snd (Domain_map v f r d))
         = (if fst (Domain_map v f r d) = Inr () then (Domain_trans d)(v \<mapsto> (f, r)) else Domain_trans d)"
    using dd.install_laws(3,4) [OF assms, of v f r] by (cases "fst (Domain_map v f r d)") auto
qed (simp_all add: dd.grant_laws dd.revoke_laws dd.unmap_laws assms)

theorem domain_refines_maps_witness:
  "Domain_trans (snd (Domain_unmap 9 (Domain_run [OpGrant 5 3, OpMap 9 5 1] (Domain_new 2 2)))) 9 = None"
proof -
  have inv: "domain_inv (Domain_run [OpGrant 5 3, OpMap 9 5 1] (Domain_new 2 2))" by (rule run_inv [OF domain_new_inv])
  show ?thesis using domain_refines_maps [OF inv, where v = 9] by simp
qed

end
