(* ===== verification/Mm.thy ===== *)
theory Mm
  imports Abi
begin

text \<open>
  Physical frame allocation (src/crates/mm): one bit per frame over a bitmap of 64-bit words, a
  general pool and a DMA arena that partition memory. The bitmap is read as the set of free
  frames; the word-at-a-time search is shown equal to a search for the least free frame, and the
  allocator is interpreted as a frame source that never hands out a frame twice.
\<close>

unbundle bit_operations_syntax

section \<open>The allocator\<close>

definition BITS_PER_WORD :: usize where "BITS_PER_WORD = 64"

record BitmapAllocator =
  bitmap :: "u64 list"
  ba_total :: usize
  ba_free :: usize
  ba_cursor :: usize
  general_floor :: usize
  dma_top :: u64
  reserve_below :: u64

definition frame_addr :: "usize \<Rightarrow> u64" where
  "frame_addr frame = push_bit PAGE_SHIFT (of_nat frame)"

definition word_bit :: "usize \<Rightarrow> usize \<times> u64" where
  "word_bit frame = (frame div BITS_PER_WORD, push_bit (frame mod BITS_PER_WORD) 1)"

definition is_used :: "BitmapAllocator \<Rightarrow> usize \<Rightarrow> bool" where
  "is_used a frame = (let (w, mask) = word_bit frame in bitmap a ! w AND mask \<noteq> 0)"

definition set_used :: "usize \<Rightarrow> BitmapAllocator \<Rightarrow> BitmapAllocator" where
  "set_used frame a = (let (w, mask) = word_bit frame in a\<lparr>bitmap := (bitmap a)[w := bitmap a ! w OR mask]\<rparr>)"

definition set_free :: "usize \<Rightarrow> BitmapAllocator \<Rightarrow> BitmapAllocator" where
  "set_free frame a = (let (w, mask) = word_bit frame in a\<lparr>bitmap := (bitmap a)[w := bitmap a ! w AND NOT mask]\<rparr>)"

definition trailing_zeros :: "u64 \<Rightarrow> nat" where
  "trailing_zeros x = (case position (bit x) [0..<64] of Some i \<Rightarrow> i | None \<Rightarrow> 64)"

definition U64_MAX :: u64 where "U64_MAX = - 1"

lemma next_word_gt: "f < (f div BITS_PER_WORD + 1) * BITS_PER_WORD"
  unfolding BITS_PER_WORD_def by (simp add: algebra_simps)

function first_free :: "BitmapAllocator \<Rightarrow> usize \<Rightarrow> usize option" where
  "first_free a f =
     (if f < ba_total a
      then let w = f div BITS_PER_WORD; word = bitmap a ! w
           in if word = U64_MAX then first_free a ((w + 1) * BITS_PER_WORD)
              else let start_bit = f mod BITS_PER_WORD;
                       masked = word OR (push_bit start_bit 1 - 1)
                   in if masked \<noteq> U64_MAX
                      then let frame = w * BITS_PER_WORD + trailing_zeros (NOT masked)
                           in if frame < ba_total a then Some frame else None
                      else first_free a ((w + 1) * BITS_PER_WORD)
      else None)"
  by pat_completeness auto

termination
  by (relation "measure (\<lambda>(a, f). ba_total a - f)") (auto intro!: diff_less_mono2 next_word_gt simp del: One_nat_def add_Suc_right mult_Suc mult_Suc_right)

declare first_free.simps [simp del]

definition highest_usable_step :: "u64 option \<Rightarrow> MemoryRegion \<Rightarrow> u64 option" where
  "highest_usable_step hi region =
     (if mr_kind region \<noteq> Usable then hi
      else let end' = MemoryRegion_end region
           in if end' < PAGE_SIZE then hi
              else let f_lo = drop_bit PAGE_SHIFT (mr_start region + PAGE_SIZE - 1);
                       f_hi = drop_bit PAGE_SHIFT end' - 1
                   in if f_lo > f_hi then hi
                      else Some (case hi of None \<Rightarrow> f_hi | Some h \<Rightarrow> max h f_hi))"

definition highest_usable_frame :: "MemoryRegion list \<Rightarrow> u64 option" where
  "highest_usable_frame regions = foldl highest_usable_step None regions"

definition bitmap_words_needed :: "MemoryRegion list \<Rightarrow> usize" where
  "bitmap_words_needed regions =
     (case highest_usable_frame regions of
        Some hi \<Rightarrow> unat ((hi + 1 + of_nat BITS_PER_WORD - 1) div of_nat BITS_PER_WORD)
      | None \<Rightarrow> 0)"

definition free_region :: "MemoryRegion \<Rightarrow> BitmapAllocator \<Rightarrow> BitmapAllocator" where
  "free_region region a =
     (if mr_kind region \<noteq> Usable then a
      else let end' = MemoryRegion_end region
           in if end' < PAGE_SIZE then a
              else let f_lo = unat (drop_bit PAGE_SHIFT (mr_start region + PAGE_SIZE - 1));
                       f_hi = unat (drop_bit PAGE_SHIFT end' - 1)
                   in if f_lo > f_hi then a
                      else fold set_free [f_lo..<Suc (min f_hi (ba_total a - 1))] a)"

definition reserve_region :: "MemoryRegion \<Rightarrow> BitmapAllocator \<Rightarrow> BitmapAllocator" where
  "reserve_region region a =
     (if mr_kind region = Usable \<or> mr_len region = 0 then a
      else let f_lo = unat (drop_bit PAGE_SHIFT (mr_start region));
               f_hi = unat (max (drop_bit PAGE_SHIFT (MemoryRegion_end region + PAGE_SIZE - 1)) 1 - 1)
           in if f_lo > ba_total a - 1 then a
              else fold set_used [f_lo..<Suc (min f_hi (ba_total a - 1))] a)"

definition saturating_mul64 :: "nat \<Rightarrow> nat \<Rightarrow> nat" where
  "saturating_mul64 x y = min (x * y) (2 ^ 64 - 1)"

definition BitmapAllocator_new :: "MemoryRegion list \<Rightarrow> u64 list \<Rightarrow> u64 \<Rightarrow> u64 \<Rightarrow> BitmapAllocator" where
  "BitmapAllocator_new regions bm reserve_below' dma_top' =
     (let frames_from_regions = (case highest_usable_frame regions of None \<Rightarrow> 0 | Some h \<Rightarrow> unat (h + 1));
          capacity_frames = saturating_mul64 (length bm) BITS_PER_WORD;
          total = min frames_from_regions capacity_frames;
          a = \<lparr>bitmap = map (\<lambda>_. U64_MAX) bm, ba_total = total, ba_free = 0, ba_cursor = 0,
               general_floor = unat (drop_bit PAGE_SHIFT (dma_top' + PAGE_SIZE - 1)),
               dma_top = dma_top', reserve_below = reserve_below'\<rparr>;
          a = (if total > 0 then fold free_region regions a else a);
          a = (if total > 0 then fold reserve_region regions a else a);
          a = fold set_used (takeWhile (\<lambda>f. frame_addr f < reserve_below') [0..<total]) a
      in a\<lparr>ba_free := length (filter (\<lambda>f. \<not> is_used a f) [0..<total])\<rparr>)"

function contiguous_scan :: "BitmapAllocator \<Rightarrow> usize \<Rightarrow> usize \<Rightarrow> usize option" where
  "contiguous_scan a pages start =
     (if start + pages \<le> ba_total a
      then case find (is_used a) [start..<start + pages] of
             Some bad \<Rightarrow> contiguous_scan a pages (bad + 1)
           | None \<Rightarrow> Some start
      else None)"
  by pat_completeness auto

termination
  by (relation "measure (\<lambda>(a, pages, start). ba_total a - start)") (auto simp: find_Some_iff)

declare contiguous_scan.simps [simp del]

definition alloc_contiguous :: "usize \<Rightarrow> BitmapAllocator \<Rightarrow> u64 option \<times> BitmapAllocator" where
  "alloc_contiguous pages a =
     (if pages = 0 \<or> pages > ba_total a then (None, a)
      else case contiguous_scan a pages (max (general_floor a) (unat (drop_bit PAGE_SHIFT (reserve_below a)))) of
             None \<Rightarrow> (None, a)
           | Some start \<Rightarrow>
               let a1 = fold set_used [start..<start + pages] a;
                   a2 = a1\<lparr>ba_free := ba_free a1 - pages\<rparr>;
                   a3 = (if ba_cursor a2 < start + pages then a2\<lparr>ba_cursor := start + pages\<rparr> else a2)
               in (Some (frame_addr start), a3))"

definition alloc_dma_frame :: "BitmapAllocator \<Rightarrow> u64 option \<times> BitmapAllocator" where
  "alloc_dma_frame a =
     (case find (\<lambda>f. \<not> is_used a f) (takeWhile (\<lambda>f. frame_addr f < dma_top a)
             [unat (drop_bit PAGE_SHIFT (reserve_below a))..<ba_total a]) of
        None \<Rightarrow> (None, a)
      | Some f \<Rightarrow> let a1 = set_used f a in (Some (frame_addr f), a1\<lparr>ba_free := ba_free a1 - 1\<rparr>))"

definition alloc_frame :: "BitmapAllocator \<Rightarrow> u64 option \<times> BitmapAllocator" where
  "alloc_frame a =
     (case first_free a (max (ba_cursor a) (general_floor a)) of
        None \<Rightarrow> (None, a)
      | Some frame \<Rightarrow>
          let a1 = set_used frame a
          in (Some (frame_addr frame), a1\<lparr>ba_free := ba_free a1 - 1, ba_cursor := frame + 1\<rparr>))"

definition free_frame :: "u64 \<Rightarrow> BitmapAllocator \<Rightarrow> BitmapAllocator" where
  "free_frame frame a =
     (if frame < reserve_below a then a
      else let f = unat (drop_bit PAGE_SHIFT frame)
           in if f \<ge> ba_total a \<or> \<not> is_used a f then a
              else let a1 = set_free f a;
                       a2 = a1\<lparr>ba_free := ba_free a1 + 1\<rparr>
                   in if f < ba_cursor a2 then a2\<lparr>ba_cursor := f\<rparr> else a2)"

section \<open>The interface of a frame source\<close>

datatype FrameEv = EvAlloc bool | EvFree nat

text \<open>
  A client's run: it allocates from one of two pools and frees by index what it holds.
\<close>

fun frame_run ::
    "(bool \<Rightarrow> 'a \<Rightarrow> 'p option \<times> 'a) \<Rightarrow> ('p \<Rightarrow> 'a \<Rightarrow> 'a) \<Rightarrow> FrameEv list \<Rightarrow> 'p list \<times> 'a \<Rightarrow> 'p list \<times> 'a" where
  "frame_run alloc release [] s = s"
| "frame_run alloc release (EvAlloc k # evs) (held, a) =
     frame_run alloc release evs (case alloc k a of (Some p, a') \<Rightarrow> (p # held, a') | (None, a') \<Rightarrow> (held, a'))"
| "frame_run alloc release (EvFree i # evs) (held, a) =
     frame_run alloc release evs
       (if i < length held then (take i held @ drop (Suc i) held, release (held ! i) a) else (held, a))"

locale frame_source =
  fixes inv :: "'a \<Rightarrow> bool"
    and frames :: "'a \<Rightarrow> 'p set"
    and avail :: "'a \<Rightarrow> 'p set"
    and alloc :: "bool \<Rightarrow> 'a \<Rightarrow> 'p option \<times> 'a"
    and release :: "'p \<Rightarrow> 'a \<Rightarrow> 'a"
  assumes avail_frames: "inv a \<Longrightarrow> avail a \<subseteq> frames a"
    and alloc_None: "inv a \<Longrightarrow> alloc k a = (None, a') \<Longrightarrow> a' = a"
    and alloc_Some: "inv a \<Longrightarrow> alloc k a = (Some p, a') \<Longrightarrow>
          p \<in> avail a \<and> avail a' = avail a - {p} \<and> frames a' = frames a \<and> inv a'"
    and release_laws: "inv a \<Longrightarrow> p \<in> frames a - avail a \<Longrightarrow>
          avail (release p a) = insert p (avail a) \<and> frames (release p a) = frames a \<and> inv (release p a)"
begin

definition account :: "'p list \<times> 'a \<Rightarrow> bool" where
  "account = (\<lambda>(held, a). inv a \<and> distinct held \<and> set held \<inter> avail a = {} \<and> set held \<subseteq> frames a)"

lemma account_alloc:
  assumes "account (held, a)" and "alloc k a = (Some p, a')"
  shows "account (p # held, a') \<and> set (p # held) \<union> avail a' = set held \<union> avail a \<and> p \<notin> set held"
  using assms alloc_Some [OF _ assms(2)] avail_frames [of a] by (auto simp: account_def)

lemma account_release:
  assumes "account (held, a)" and "i < length held"
  shows "account (take i held @ drop (Suc i) held, release (held ! i) a)
     \<and> set (take i held @ drop (Suc i) held) \<union> avail (release (held ! i) a) = set held \<union> avail a"
proof -
  have held: "held = take i held @ held ! i # drop (Suc i) held" using assms(2) by (rule id_take_nth_drop)
  then have "distinct (take i held @ held ! i # drop (Suc i) held)" and s: "set held = insert (held ! i) (set (take i held @ drop (Suc i) held))"
    using assms(1) by (simp add: account_def, metis (no_types) Un_insert_right list.simps(15) set_append)
  then have d: "distinct (take i held @ drop (Suc i) held)" "held ! i \<notin> set (take i held @ drop (Suc i) held)"
    by auto
  have "held ! i \<in> frames a - avail a" using assms(1) nth_mem [OF assms(2)] by (auto simp: account_def)
  from release_laws [OF _ this] d s assms(1) show ?thesis by (auto simp: account_def)
qed

lemma run_account:
  "account s \<Longrightarrow> account (frame_run alloc release evs s)
     \<and> set (fst (frame_run alloc release evs s)) \<union> avail (snd (frame_run alloc release evs s)) = set (fst s) \<union> avail (snd s)"
proof (induction evs arbitrary: s)
  case (Cons e evs)
  obtain held a where s: "s = (held, a)" by (cases s)
  show ?case
  proof (cases e)
    case (EvAlloc k)
    obtain r a' where r: "alloc k a = (r, a')" by (cases "alloc k a")
    show ?thesis
    proof (cases r)
      case None
      then have "a' = a" using alloc_None r Cons.prems s by (auto simp: account_def)
      then show ?thesis using Cons.IH [OF Cons.prems] r None s EvAlloc by simp
    next
      case (Some p)
      note acc = account_alloc [OF Cons.prems [unfolded s] r [unfolded Some]]
      show ?thesis using Cons.IH [of "(p # held, a')"] acc r Some s EvAlloc by simp
    qed
  next
    case (EvFree i)
    show ?thesis
    proof (cases "i < length held")
      case True
      note acc = account_release [OF Cons.prems [unfolded s] True]
      show ?thesis using Cons.IH [of "(take i held @ drop (Suc i) held, release (held ! i) a)"] acc s EvFree True by simp
    next
      case False
      then show ?thesis using Cons.IH [OF Cons.prems] s EvFree by simp
    qed
  qed
qed simp

end

section \<open>The bitmap as a set of frames\<close>

text \<open>Two states that differ only in bookkeeping have the same frames.\<close>

definition ba_wf :: "BitmapAllocator \<Rightarrow> bool" where
  "ba_wf a \<longleftrightarrow> ba_total a \<le> 64 * length (bitmap a) \<and> ba_total a < 2 ^ 52"

definition free_frames :: "BitmapAllocator \<Rightarrow> nat set" where
  "free_frames a = {f. f < ba_total a \<and> \<not> is_used a f}"

lemma is_used_bit: "is_used a f \<longleftrightarrow> bit (bitmap a ! (f div 64)) (f mod 64)"
  by (simp add: is_used_def word_bit_def BITS_PER_WORD_def push_bit_of_1 and_exp_eq_0_iff_not_bit)

lemma ba_fields_simps [simp]:
  "length (bitmap (set_used f a)) = length (bitmap a)" "length (bitmap (set_free f a)) = length (bitmap a)"
  "ba_total (set_used f a) = ba_total a" "ba_total (set_free f a) = ba_total a"
  "ba_free (set_used f a) = ba_free a" "ba_free (set_free f a) = ba_free a"
  "ba_cursor (set_used f a) = ba_cursor a" "ba_cursor (set_free f a) = ba_cursor a"
  "general_floor (set_used f a) = general_floor a" "general_floor (set_free f a) = general_floor a"
  "dma_top (set_used f a) = dma_top a" "dma_top (set_free f a) = dma_top a"
  "reserve_below (set_used f a) = reserve_below a" "reserve_below (set_free f a) = reserve_below a"
  by (simp_all add: set_used_def set_free_def word_bit_def)

lemma is_used_bookkeeping [simp]:
  "is_used (a\<lparr>ba_free := n\<rparr>) f = is_used a f" "is_used (a\<lparr>ba_cursor := n\<rparr>) f = is_used a f"
  by (simp_all add: is_used_def word_bit_def)

lemma frame_cell: "f div 64 = g div 64 \<and> f mod 64 = g mod 64 \<longleftrightarrow> f = (g :: nat)"
  by (metis mult_div_mod_eq)

lemma is_used_set_used:
  assumes "f < 64 * length (bitmap a)"
  shows "is_used (set_used f a) g \<longleftrightarrow> g = f \<or> is_used a g"
proof -
  have "f div 64 < length (bitmap a)" using assms by (simp add: less_mult_imp_div_less mult.commute)
  then show ?thesis
    by (cases "f div 64 = g div 64")
       (auto simp: is_used_bit set_used_def word_bit_def BITS_PER_WORD_def bit_or_iff push_bit_of_1 bit_exp_iff nth_list_update
        frame_cell [symmetric, of g f])
qed

lemma is_used_set_free:
  assumes "f < 64 * length (bitmap a)"
  shows "is_used (set_free f a) g \<longleftrightarrow> g \<noteq> f \<and> is_used a g"
proof -
  have "f div 64 < length (bitmap a)" using assms by (simp add: less_mult_imp_div_less mult.commute)
  then show ?thesis
    by (cases "f div 64 = g div 64")
       (auto simp: is_used_bit set_free_def word_bit_def BITS_PER_WORD_def bit_and_iff bit_not_iff push_bit_of_1 bit_exp_iff nth_list_update
        frame_cell [symmetric, of g f])
qed

lemma fold_set_used:
  assumes "\<forall>f \<in> set fs. f < 64 * length (bitmap a)"
  shows "is_used (fold set_used fs a) g \<longleftrightarrow> g \<in> set fs \<or> is_used a g"
  using assms by (induction fs arbitrary: a) (auto simp: is_used_set_used)

lemma fold_set_free:
  assumes "\<forall>f \<in> set fs. f < 64 * length (bitmap a)"
  shows "is_used (fold set_free fs a) g \<longleftrightarrow> g \<notin> set fs \<and> is_used a g"
  using assms by (induction fs arbitrary: a) (auto simp: is_used_set_free)

lemma fold_set_fields [simp]:
  "length (bitmap (fold set_used fs a)) = length (bitmap a)" "length (bitmap (fold set_free fs a)) = length (bitmap a)"
  "ba_total (fold set_used fs a) = ba_total a" "ba_total (fold set_free fs a) = ba_total a"
  "ba_free (fold set_used fs a) = ba_free a" "ba_cursor (fold set_used fs a) = ba_cursor a"
  "general_floor (fold set_used fs a) = general_floor a" "dma_top (fold set_used fs a) = dma_top a"
  "reserve_below (fold set_used fs a) = reserve_below a"
  "general_floor (fold set_free fs a) = general_floor a" "dma_top (fold set_free fs a) = dma_top a"
  "reserve_below (fold set_free fs a) = reserve_below a" "ba_cursor (fold set_free fs a) = ba_cursor a"
  by (induction fs arbitrary: a) simp_all

section \<open>The word scan finds the least free frame\<close>

lemma U64_MAX_bit: "bit U64_MAX i \<longleftrightarrow> i < 64"
  by (simp add: U64_MAX_def)

lemma not_max_bit: "x \<noteq> U64_MAX \<longleftrightarrow> (\<exists>i<64. \<not> bit x i)"
  by (auto simp: bit_eq_iff U64_MAX_bit)

lemma low_mask_bit: "bit (push_bit s 1 - 1 :: u64) i \<longleftrightarrow> i < s \<and> i < 64"
  by (simp add: push_bit_of_1 mask_eq_exp_minus_1 [symmetric] bit_mask_iff conj_commute)

lemma low_exp_bit: "bit (2 ^ s - 1 :: u64) i \<longleftrightarrow> i < s \<and> i < 64"
  using low_mask_bit [of s i] by (simp add: push_bit_of_1)

lemma trailing_zeros_least:
  assumes "x \<noteq> (0 :: u64)"
  shows "trailing_zeros x < 64" and "bit x (trailing_zeros x)" and "i < trailing_zeros x \<Longrightarrow> \<not> bit x i"
proof -
  obtain i where i: "i < 64" "bit x i" using assms by (auto simp: bit_eq_iff)
  then have "position (bit x) [0..<64] \<noteq> None" unfolding position_not_None by auto
  then obtain k where k: "position (bit x) [0..<64] = Some k" by blast
  then have t: "trailing_zeros x = k" by (simp add: trailing_zeros_def)
  note p = position_SomeD [OF k]
  show "trailing_zeros x < 64" "bit x (trailing_zeros x)" using p(1,2) t by simp_all
  show "\<not> bit x i" if "i < trailing_zeros x" for i using p(1) p(3) [of i] that t by simp
qed

lemma word_frames: "w * 64 \<le> g \<Longrightarrow> g < (w + 1) * 64 \<Longrightarrow> g div 64 = w \<and> g mod 64 = g - w * (64::nat)"
  by (simp add: div_nat_eqI modulo_nat_def mult.commute)

lemma first_free_skip:
  assumes "\<And>i. i < 64 \<Longrightarrow> f mod 64 \<le> i \<Longrightarrow> bit (bitmap a ! (f div 64)) i"
    and "f \<le> g" "g < (f div 64 + 1) * 64"
  shows "is_used a g"
proof -
  have g: "g div 64 = f div 64" using assms(2,3) by (intro div_nat_eqI) (auto simp: algebra_simps intro: le_trans [OF _ assms(2)])
  then have "f mod 64 \<le> g mod 64" using assms(2) by (metis add_le_cancel_left mult_div_mod_eq)
  then show ?thesis unfolding is_used_bit g by (intro assms(1)) simp_all
qed

definition least_free :: "BitmapAllocator \<Rightarrow> usize \<Rightarrow> usize option" where
  "least_free a from' = find (\<lambda>f. \<not> is_used a f) [from'..<ba_total a]"

lemma find_upt_Some:
  "find P [m..<n] = Some k \<longleftrightarrow> m \<le> k \<and> k < n \<and> P k \<and> (\<forall>j. m \<le> j \<and> j < k \<longrightarrow> \<not> P j)"
proof
  assume "find P [m..<n] = Some k"
  then obtain i where i: "i < n - m" "P (m + i)" "k = m + i" "\<forall>j<i. \<not> P ([m..<n] ! j)"
    by (auto simp: find_Some_iff)
  have "\<not> P j" if "m \<le> j" "j < k" for j
    using that i(1,3) i(4) [rule_format, of "j - m"] by simp
  then show "m \<le> k \<and> k < n \<and> P k \<and> (\<forall>j. m \<le> j \<and> j < k \<longrightarrow> \<not> P j)" using i by auto
next
  assume "m \<le> k \<and> k < n \<and> P k \<and> (\<forall>j. m \<le> j \<and> j < k \<longrightarrow> \<not> P j)"
  then show "find P [m..<n] = Some k" unfolding find_Some_iff by (intro exI [of _ "k - m"]) auto
qed

lemma find_upt_None: "find P [m..<n] = None \<longleftrightarrow> (\<forall>j. m \<le> j \<and> j < n \<longrightarrow> \<not> P j)"
  by (auto simp: find_None_iff)

lemma find_upt_skip:
  assumes "m \<le> m'" and "\<And>j. m \<le> j \<Longrightarrow> j < m' \<Longrightarrow> j < n \<Longrightarrow> \<not> P j"
  shows "find P [m..<n] = find P [m'..<n]"
proof (cases "find P [m'..<n]")
  case None
  then have "find P [m..<n] = None" using assms(2) unfolding find_upt_None by (metis not_le)
  with None show ?thesis by simp
next
  case (Some k)
  then have k: "m' \<le> k" "k < n" "P k" "\<And>j. m' \<le> j \<Longrightarrow> j < k \<Longrightarrow> \<not> P j" unfolding find_upt_Some by auto
  have "\<not> P j" if "m \<le> j" "j < k" for j
    using that k(2) k(4) [of j] assms(2) [of j] by (cases "j < m'") auto
  then have "find P [m..<n] = Some k" unfolding find_upt_Some using k(1-3) assms(1) by auto
  with Some show ?thesis by simp
qed

lemma first_free_hit:
  assumes m: "masked = bitmap a ! (f div 64) OR (push_bit (f mod 64) 1 - 1)" and ne: "masked \<noteq> U64_MAX"
    and k: "k = f div 64 * 64 + trailing_zeros (NOT masked)"
  shows "f \<le> k" and "\<not> is_used a k" and "f \<le> h \<Longrightarrow> h < k \<Longrightarrow> is_used a h"
proof -
  let ?t = "trailing_zeros (NOT masked)"
  have nz: "NOT masked \<noteq> 0" using ne unfolding U64_MAX_def by (metis bit.double_compl bit.compl_zero)
  note t = trailing_zeros_least [OF nz]
  have cell: "k div 64 = f div 64" "k mod 64 = ?t" using t(1) k by simp_all
  have tb: "\<not> bit masked ?t" using t(1,2) by (simp add: bit_not_iff)
  then have ge: "f mod 64 \<le> ?t" and clear: "\<not> bit (bitmap a ! (f div 64)) ?t"
    using t(1) unfolding m bit_or_iff low_mask_bit by auto
  show "f \<le> k" using ge unfolding k by (metis add_le_cancel_left div_mult_mod_eq)
  show "\<not> is_used a k" using clear cell by (simp add: is_used_bit)
  show "is_used a h" if h: "f \<le> h" "h < k"
  proof -
    have hd: "h div 64 = f div 64" using h cell by (metis div_le_mono le_antisym less_imp_le)
    then have lt: "h mod 64 < ?t" and le: "f mod 64 \<le> h mod 64"
      using h k by (metis add_less_cancel_left div_mult_mod_eq) (use hd h in \<open>metis add_le_cancel_left div_mult_mod_eq\<close>)
    have "bit masked (h mod 64)" using t(3) [OF lt] by (simp add: bit_not_iff)
    then show ?thesis using le hd unfolding m is_used_bit bit_or_iff low_mask_bit by auto
  qed
qed

lemma first_free_least: "first_free a f = least_free a f"
proof (induction a f rule: first_free.induct)
  case (1 a f)
  let ?w = "f div BITS_PER_WORD" and ?next = "(f div BITS_PER_WORD + 1) * BITS_PER_WORD"
  let ?word = "bitmap a ! ?w"
  let ?masked = "?word OR (push_bit (f mod BITS_PER_WORD) 1 - 1)"
  let ?k = "?w * BITS_PER_WORD + trailing_zeros (NOT ?masked)"
  have le: "f \<le> ?next" using next_word_gt [of f] by simp
  consider (out) "\<not> f < ba_total a" | (full) "f < ba_total a" "?word = U64_MAX"
    | (skip) "f < ba_total a" "?word \<noteq> U64_MAX" "?masked = U64_MAX"
    | (hit) "f < ba_total a" "?word \<noteq> U64_MAX" "?masked \<noteq> U64_MAX" by blast
  then show ?case
  proof cases
    case out
    then show ?thesis by (simp add: first_free.simps least_free_def)
  next
    case full
    have "is_used a j" if "f \<le> j" "j < ?next" for j
      using that full(2) by (intro first_free_skip [of f a j]) (simp_all add: BITS_PER_WORD_def U64_MAX_bit)
    then have "least_free a f = least_free a ?next" unfolding least_free_def by (intro find_upt_skip le) auto
    moreover have "first_free a ?next = least_free a ?next" by (rule "1.IH"(1)) (use full in simp_all)
    moreover have "first_free a f = first_free a ?next" using full by (subst first_free.simps) simp
    ultimately show ?thesis by simp
  next
    case skip
    have "bit (bitmap a ! (f div 64)) i" if "i < 64" "f mod 64 \<le> i" for i
    proof -
      have "bit ?masked i" using skip(3) that(1) U64_MAX_bit by metis
      moreover have "\<not> bit (push_bit (f mod 64) 1 - 1 :: u64) i" unfolding low_mask_bit using that by simp
      ultimately show ?thesis unfolding bit_or_iff BITS_PER_WORD_def by blast
    qed
    then have "is_used a j" if "f \<le> j" "j < ?next" for j
      using that by (intro first_free_skip [of f a j]) (simp_all add: BITS_PER_WORD_def)
    then have "least_free a f = least_free a ?next" unfolding least_free_def by (intro find_upt_skip le) auto
    moreover have "first_free a ?next = least_free a ?next" by (rule "1.IH"(2) [OF skip(1) refl refl skip(2) refl refl]) (use skip(3) in blast)
    moreover have "first_free a f = first_free a ?next" using skip by (subst first_free.simps) simp
    ultimately show ?thesis by simp
  next
    case hit
    note h = first_free_hit [OF _ hit(3) [unfolded BITS_PER_WORD_def] refl, of a f]
    have e: "first_free a f = (if ?k < ba_total a then Some ?k else None)"
      using hit by (subst first_free.simps) (simp add: Let_def)
    show ?thesis
    proof (cases "?k < ba_total a")
      case True
      then show ?thesis using e h unfolding least_free_def BITS_PER_WORD_def
        by (simp add: find_upt_Some eq_commute [of "Some _"])
    next
      case False
      then show ?thesis using e h unfolding least_free_def BITS_PER_WORD_def
        by (simp add: find_upt_None eq_commute [of None])
    qed
  qed
qed

section \<open>The invariant and the operations\<close>

lemma PAGE_SHIFT_12 [simp]: "PAGE_SHIFT = 12"
  by (simp add: PAGE_SHIFT_def)

lemma unat_frame_addr: "f < 2 ^ 52 \<Longrightarrow> unat (frame_addr f) = f * 4096"
  by (simp add: frame_addr_def unat_of_nat push_bit_eq_mult unat_word_ariths)

lemma frame_of_addr: "f < 2 ^ 52 \<Longrightarrow> unat (drop_bit 12 (frame_addr f)) = f"
  by (simp add: drop_bit_eq_div unat_div unat_frame_addr)

lemma frame_addr_inj: "f < 2 ^ 52 \<Longrightarrow> g < 2 ^ 52 \<Longrightarrow> frame_addr f = frame_addr g \<longleftrightarrow> f = g"
  by (metis frame_of_addr)

definition ba_inv :: "BitmapAllocator \<Rightarrow> bool" where
  "ba_inv a \<longleftrightarrow> ba_wf a \<and> ba_free a = card (free_frames a)
     \<and> (\<forall>f \<in> free_frames a. reserve_below a \<le> frame_addr f)"

lemma free_frames_finite [simp]: "finite (free_frames a)"
  by (simp add: free_frames_def)

lemma free_frames_bookkeeping [simp]:
  "free_frames (a\<lparr>ba_free := n\<rparr>) = free_frames a" "free_frames (a\<lparr>ba_cursor := n\<rparr>) = free_frames a"
  by (simp_all add: free_frames_def)

lemma ba_wf_in: "ba_wf a \<Longrightarrow> f < ba_total a \<Longrightarrow> f < 64 * length (bitmap a) \<and> f < 2 ^ 52"
  by (auto simp: ba_wf_def)

lemma ba_wf_same: "length (bitmap b) = length (bitmap a) \<Longrightarrow> ba_total b = ba_total a \<Longrightarrow> ba_wf b = ba_wf a"
  by (simp add: ba_wf_def)

lemma free_frames_set_used:
  "ba_wf a \<Longrightarrow> f < ba_total a \<Longrightarrow> free_frames (set_used f a) = free_frames a - {f}"
  by (auto simp: free_frames_def is_used_set_used dest: ba_wf_in)

lemma free_frames_set_free:
  "ba_wf a \<Longrightarrow> f < ba_total a \<Longrightarrow> free_frames (set_free f a) = insert f (free_frames a)"
  by (auto simp: free_frames_def is_used_set_free dest: ba_wf_in)

text \<open>Taking one free frame, as both pools do.\<close>

lemma take_one:
  assumes "ba_inv a" and "f \<in> free_frames a"
    and "b = (set_used f a)\<lparr>ba_free := ba_free a - 1, ba_cursor := c\<rparr>"
  shows "ba_inv b" and "free_frames b = free_frames a - {f}" and "ba_total b = ba_total a"
    and "reserve_below b = reserve_below a" and "general_floor b = general_floor a" and "dma_top b = dma_top a"
proof -
  have f: "f < ba_total a" using assms(2) by (simp add: free_frames_def)
  have wf: "ba_wf a" using assms(1) by (simp add: ba_inv_def)
  show ff: "free_frames b = free_frames a - {f}" by (simp add: assms(3) free_frames_set_used [OF wf f])
  have "ba_free a = card (free_frames a)" using assms(1) by (simp add: ba_inv_def)
  then have "ba_free b = card (free_frames b)" using assms(2) ff by (simp add: assms(3))
  then show "ba_inv b" using assms(1) ff by (auto simp: ba_inv_def assms(3) ba_wf_def)
qed (simp_all add: assms(3))

lemma free_framesI: "f < ba_total a \<Longrightarrow> \<not> is_used a f \<Longrightarrow> f \<in> free_frames a"
  by (simp add: free_frames_def)

lemma alloc_frame_cases:
  obtains (none) "alloc_frame a = (None, a)" "\<forall>f \<in> free_frames a. f < max (ba_cursor a) (general_floor a)"
  | (some) f where "f \<in> free_frames a" "max (ba_cursor a) (general_floor a) \<le> f"
      "\<forall>g \<in> free_frames a. max (ba_cursor a) (general_floor a) \<le> g \<longrightarrow> f \<le> g"
      "alloc_frame a = (Some (frame_addr f), (set_used f a)\<lparr>ba_free := ba_free a - 1, ba_cursor := f + 1\<rparr>)"
proof (cases "first_free a (max (ba_cursor a) (general_floor a))")
  case None
  then have "\<forall>f \<in> free_frames a. f < max (ba_cursor a) (general_floor a)"
    unfolding first_free_least least_free_def find_upt_None by (auto simp: free_frames_def not_le [symmetric])
  with None show ?thesis by (intro none) (simp_all add: alloc_frame_def)
next
  case (Some f)
  then have "f \<in> free_frames a" "max (ba_cursor a) (general_floor a) \<le> f"
      "\<forall>g \<in> free_frames a. max (ba_cursor a) (general_floor a) \<le> g \<longrightarrow> f \<le> g"
    unfolding first_free_least least_free_def find_upt_Some free_frames_def by (auto simp: not_le [symmetric])
  with Some show ?thesis by (intro some) (simp_all add: alloc_frame_def)
qed

lemma in_takeWhile_upt:
  "m \<le> f \<Longrightarrow> f < n \<Longrightarrow> (\<And>g. m \<le> g \<Longrightarrow> g \<le> f \<Longrightarrow> Q g) \<Longrightarrow> f \<in> set (takeWhile Q [m..<n])"
proof (induction "f - m" arbitrary: m)
  case (Suc d)
  then have "f \<in> set (takeWhile Q [Suc m..<n])" by simp
  moreover have "[m..<n] = m # [Suc m..<n]" using Suc by (simp add: upt_conv_Cons)
  ultimately show ?case using Suc.prems by simp
qed (simp add: upt_conv_Cons)

lemma frame_addr_less: "f < 2 ^ 52 \<Longrightarrow> frame_addr f < x \<longleftrightarrow> f * 4096 < unat x"
  by (simp add: word_less_nat_alt unat_frame_addr)

lemma reserve_frame:
  assumes "ba_inv a" and "f \<in> free_frames a"
  shows "unat (drop_bit 12 (reserve_below a)) \<le> f"
proof -
  have "f < 2 ^ 52" "reserve_below a \<le> frame_addr f"
    using assms by (auto simp: ba_inv_def ba_wf_def free_frames_def)
  then have "unat (reserve_below a) \<le> f * 4096" by (simp add: word_le_nat_alt unat_frame_addr)
  then show ?thesis by (simp add: drop_bit_eq_div unat_div)
qed

lemma alloc_dma_cases:
  assumes "ba_inv a"
  obtains (none) "alloc_dma_frame a = (None, a)" "\<forall>f \<in> free_frames a. dma_top a \<le> frame_addr f"
  | (some) f where "f \<in> free_frames a" "frame_addr f < dma_top a"
      "alloc_dma_frame a = (Some (frame_addr f), (set_used f a)\<lparr>ba_free := ba_free a - 1, ba_cursor := ba_cursor a\<rparr>)"
proof -
  let ?scan = "takeWhile (\<lambda>f. frame_addr f < dma_top a) [unat (drop_bit PAGE_SHIFT (reserve_below a))..<ba_total a]"
  show ?thesis
  proof (cases "find (\<lambda>f. \<not> is_used a f) ?scan")
    case None
    have "dma_top a \<le> frame_addr f" if f: "f \<in> free_frames a" for f
    proof (rule ccontr)
      assume "\<not> dma_top a \<le> frame_addr f"
      then have lt: "frame_addr f < dma_top a" by simp
      have b: "f < ba_total a" "f < 2 ^ 52" using f assms by (auto simp: free_frames_def ba_inv_def ba_wf_def)
      have "frame_addr g < dma_top a" if "g \<le> f" for g
        using lt that b by (simp add: frame_addr_less)
      then have "f \<in> set ?scan" using reserve_frame [OF assms f] b by (intro in_takeWhile_upt) auto
      then show False using None f by (auto simp: find_None_iff free_frames_def)
    qed
    with None show ?thesis by (intro none) (simp_all add: alloc_dma_frame_def)
  next
    case (Some f)
    then have "f \<in> set ?scan" "\<not> is_used a f" by (auto simp: find_Some_iff)
    then have "f \<in> free_frames a" "frame_addr f < dma_top a"
      by (auto simp: free_frames_def dest: set_takeWhileD)
    with Some show ?thesis
      by (intro some) (simp_all add: alloc_dma_frame_def set_used_def word_bit_def)
  qed
qed

text \<open>The two pools behind one allocation call, for a client that uses both.\<close>

definition alloc_pool :: "bool \<Rightarrow> BitmapAllocator \<Rightarrow> u64 option \<times> BitmapAllocator" where
  "alloc_pool dma a = (if dma then alloc_dma_frame a else alloc_frame a)"

definition tracked :: "BitmapAllocator \<Rightarrow> u64 set" where
  "tracked a = {frame_addr f |f. f < ba_total a \<and> reserve_below a \<le> frame_addr f}"

definition available :: "BitmapAllocator \<Rightarrow> u64 set" where
  "available a = frame_addr ` free_frames a"

lemma available_iff:
  assumes "ba_inv a" and "f < ba_total a"
  shows "frame_addr f \<in> available a \<longleftrightarrow> f \<in> free_frames a"
proof -
  have "f < 2 ^ 52" "\<forall>g \<in> free_frames a. g < 2 ^ 52"
    using assms by (auto simp: ba_inv_def ba_wf_def free_frames_def)
  then show ?thesis by (auto simp: available_def frame_addr_inj)
qed

lemma available_minus:
  assumes "ba_inv a" and "free_frames b = free_frames a - {f}" and "f \<in> free_frames a"
  shows "available b = available a - {frame_addr f}"
proof -
  have "\<forall>g \<in> free_frames a. g < 2 ^ 52" using assms(1) by (auto simp: ba_inv_def ba_wf_def free_frames_def)
  then show ?thesis using assms(2,3) by (auto simp: available_def frame_addr_inj)
qed

lemma alloc_pool_Some:
  assumes "ba_inv a" and "alloc_pool k a = (Some p, a')"
  obtains f where "p = frame_addr f" "f \<in> free_frames a" "ba_inv a'" "free_frames a' = free_frames a - {f}"
    "ba_total a' = ba_total a" "reserve_below a' = reserve_below a" "general_floor a' = general_floor a" "dma_top a' = dma_top a"
    "if k then frame_addr f < dma_top a else general_floor a \<le> f"
proof (cases k)
  case True
  show ?thesis
  proof (cases rule: alloc_dma_cases [OF assms(1)])
    case 1
    then show ?thesis using assms(2) True by (simp add: alloc_pool_def)
  next
    case (2 f)
    then have "p = frame_addr f" and a': "a' = (set_used f a)\<lparr>ba_free := ba_free a - 1, ba_cursor := ba_cursor a\<rparr>"
      using assms(2) True by (simp_all add: alloc_pool_def)
    from that [OF this(1) 2(1) take_one [OF assms(1) 2(1) a']] 2 True show ?thesis by simp
  qed
next
  case False
  show ?thesis
  proof (cases rule: alloc_frame_cases [of a])
    case none
    then show ?thesis using assms(2) False by (simp add: alloc_pool_def)
  next
    case (some f)
    then have "p = frame_addr f" and a': "a' = (set_used f a)\<lparr>ba_free := ba_free a - 1, ba_cursor := f + 1\<rparr>"
      using assms(2) False by (simp_all add: alloc_pool_def)
    from that [OF this(1) some(1) take_one [OF assms(1) some(1) a']] some False show ?thesis by simp
  qed
qed

lemma free_frame_facts:
  assumes "ba_inv a" and "f < ba_total a" and "reserve_below a \<le> frame_addr f" and "f \<notin> free_frames a"
  shows "ba_inv (free_frame (frame_addr f) a)"
    and "free_frames (free_frame (frame_addr f) a) = insert f (free_frames a)"
    and "ba_total (free_frame (frame_addr f) a) = ba_total a"
    and "reserve_below (free_frame (frame_addr f) a) = reserve_below a"
proof -
  have wf: "ba_wf a" using assms(1) by (simp add: ba_inv_def)
  have f: "f < 2 ^ 52" "unat (drop_bit 12 (frame_addr f)) = f" "is_used a f"
    using assms wf by (auto simp: ba_wf_def free_frames_def intro!: frame_of_addr)
  let ?b = "(set_free f a)\<lparr>ba_free := ba_free a + 1\<rparr>"
  have e: "free_frame (frame_addr f) a = (if f < ba_cursor a then ?b\<lparr>ba_cursor := f\<rparr> else ?b)"
    using assms f by (simp add: free_frame_def not_less)
  show ff: "free_frames (free_frame (frame_addr f) a) = insert f (free_frames a)"
    by (simp add: e free_frames_set_free [OF wf assms(2)])
  show t: "ba_total (free_frame (frame_addr f) a) = ba_total a" "reserve_below (free_frame (frame_addr f) a) = reserve_below a"
    by (simp_all add: e)
  have "ba_free (free_frame (frame_addr f) a) = Suc (ba_free a)" by (simp add: e)
  moreover have "card (insert f (free_frames a)) = Suc (card (free_frames a))" using assms(4) by simp
  moreover have "ba_wf (free_frame (frame_addr f) a)" using wf by (simp add: e ba_wf_def)
  ultimately show "ba_inv (free_frame (frame_addr f) a)" using assms(1,3) by (simp add: ba_inv_def ff t)
qed

interpretation pools: frame_source ba_inv tracked available alloc_pool free_frame
proof (unfold_locales, goal_cases)
  case (1 a)
  then show ?case by (auto simp: available_def tracked_def ba_inv_def free_frames_def)
next
  case (2 a k a')
  then show ?case
    by (auto simp: alloc_pool_def alloc_frame_def alloc_dma_frame_def Let_def split: if_splits option.splits)
next
  case (3 a k p a')
  show ?case
  proof (rule alloc_pool_Some [OF 3])
    fix f assume f: "p = frame_addr f" "f \<in> free_frames a" "ba_inv a'" "free_frames a' = free_frames a - {f}"
      "ba_total a' = ba_total a" "reserve_below a' = reserve_below a"
    have "available a' = available a - {p}" using available_minus [OF 3(1) f(4,2)] f(1) by simp
    moreover have "p \<in> available a" using f(1,2) by (simp add: available_def)
    moreover have "tracked a' = tracked a" using f(5,6) by (simp add: tracked_def)
    ultimately show ?thesis using f(3) by blast
  qed
next
  case (4 a p)
  then obtain f where f: "p = frame_addr f" "f < ba_total a" "reserve_below a \<le> frame_addr f" "f \<notin> free_frames a"
    by (auto simp: tracked_def available_def)
  from free_frame_facts [OF 4(1) f(2-4)] f(1) show ?case by (auto simp: available_def tracked_def)
qed

section \<open>Contiguous runs\<close>

lemma contiguous_scan_None:
  "contiguous_scan a pages start = None \<Longrightarrow> start \<le> s \<Longrightarrow> s + pages \<le> ba_total a \<Longrightarrow>
     \<exists>f. s \<le> f \<and> f < s + pages \<and> is_used a f"
proof (induction a pages start rule: contiguous_scan.induct)
  case (1 a pages start)
  have fit: "start + pages \<le> ba_total a" using "1.prems"(2,3) by simp
  show ?case
  proof (cases "find (is_used a) [start..<start + pages]")
    case None
    then show ?thesis using "1.prems"(1) fit by (simp add: contiguous_scan.simps)
  next
    case (Some bad)
    then have bad: "start \<le> bad" "bad < start + pages" "is_used a bad" by (auto simp: find_upt_Some)
    show ?thesis
    proof (cases "bad < s")
      case True
      have "contiguous_scan a pages (bad + 1) = None"
        using "1.prems"(1) fit Some by (subst (asm) contiguous_scan.simps) simp
      from "1.IH" [OF fit Some this] True "1.prems"(3) show ?thesis by simp
    next
      case False
      then show ?thesis using bad "1.prems"(2) by (intro exI [of _ bad]) simp
    qed
  qed
qed

lemma contiguous_scan_Some:
  "contiguous_scan a pages start = Some s \<Longrightarrow> start \<le> s \<and> s + pages \<le> ba_total a \<and> (\<forall>f. s \<le> f \<and> f < s + pages \<longrightarrow> \<not> is_used a f)"
proof (induction a pages start rule: contiguous_scan.induct)
  case (1 a pages start)
  have fit: "start + pages \<le> ba_total a"
    using "1.prems" by (subst (asm) contiguous_scan.simps) (simp split: if_splits)
  show ?case
  proof (cases "find (is_used a) [start..<start + pages]")
    case None
    then have "s = start" using "1.prems" fit by (simp add: contiguous_scan.simps)
    then show ?thesis using None fit by (auto simp: find_upt_None)
  next
    case (Some bad)
    have "contiguous_scan a pages (bad + 1) = Some s"
      using "1.prems" fit Some by (subst (asm) contiguous_scan.simps) simp
    from "1.IH" [OF fit Some this] Some show ?thesis by (auto simp: find_upt_Some)
  qed
qed

lemma free_frames_fold_used:
  assumes "ba_wf a" and "\<forall>f \<in> set fs. f < ba_total a"
  shows "free_frames (fold set_used fs a) = free_frames a - set fs"
proof -
  have "\<forall>f \<in> set fs. f < 64 * length (bitmap a)" using assms by (auto simp: ba_wf_def)
  from fold_set_used [OF this] show ?thesis by (auto simp: free_frames_def)
qed

definition contiguous_floor :: "BitmapAllocator \<Rightarrow> nat" where
  "contiguous_floor a = max (general_floor a) (unat (drop_bit 12 (reserve_below a)))"

lemma alloc_contiguous_Some:
  assumes "ba_inv a" and "alloc_contiguous pages a = (Some p, a')"
  obtains s where "p = frame_addr s" "contiguous_floor a \<le> s" "{s..<s + pages} \<subseteq> free_frames a"
    "free_frames a' = free_frames a - {s..<s + pages}" "ba_inv a'" "0 < pages"
proof -
  from assms(2) obtain s where sc: "contiguous_scan a pages (contiguous_floor a) = Some s" and p: "p = frame_addr s" "0 < pages"
    and a': "a' = (if ba_cursor a < s + pages then (fold set_used [s..<s + pages] a)\<lparr>ba_free := ba_free a - pages, ba_cursor := s + pages\<rparr>
             else (fold set_used [s..<s + pages] a)\<lparr>ba_free := ba_free a - pages\<rparr>)"
    by (auto simp: alloc_contiguous_def contiguous_floor_def Let_def split: if_splits option.splits)
  note sp = contiguous_scan_Some [OF sc]
  have sub: "{s..<s + pages} \<subseteq> free_frames a" using sp by (auto simp: free_frames_def)
  have wf: "ba_wf a" using assms(1) by (simp add: ba_inv_def)
  have ff: "free_frames a' = free_frames a - {s..<s + pages}"
    using sp by (simp add: a' free_frames_fold_used [OF wf])
  have "ba_free a' = ba_free a - pages" "ba_wf a'" "reserve_below a' = reserve_below a" using wf by (simp_all add: a' ba_wf_def)
  moreover have "card (free_frames a - {s..<s + pages}) = card (free_frames a) - pages"
    using sub by (simp add: card_Diff_subset)
  ultimately have "ba_inv a'" using assms(1) ff by (auto simp: ba_inv_def)
  from that [OF p(1) _ sub ff this p(2)] sp show ?thesis by blast
qed

lemma alloc_contiguous_None:
  assumes "alloc_contiguous pages a = (None, a')" and "0 < pages"
  shows "a' = a" and "contiguous_floor a \<le> s \<Longrightarrow> \<not> {s..<s + pages} \<subseteq> free_frames a"
proof -
  show "a' = a" using assms(1) by (auto simp: alloc_contiguous_def Let_def split: if_splits option.splits)
  show "\<not> {s..<s + pages} \<subseteq> free_frames a" if s: "contiguous_floor a \<le> s"
  proof
    assume sub: "{s..<s + pages} \<subseteq> free_frames a"
    then have "s + pages - 1 \<in> free_frames a" using assms(2) by auto
    then have "s + pages - 1 < ba_total a" by (simp add: free_frames_def)
    then have fit: "s + pages \<le> ba_total a" using assms(2) by linarith
    then have "contiguous_scan a pages (contiguous_floor a) = None"
      using assms by (auto simp: alloc_contiguous_def contiguous_floor_def Let_def split: if_splits option.splits)
    from contiguous_scan_None [OF this s fit] sub show False by (auto simp: free_frames_def)
  qed
qed

section \<open>Construction\<close>

definition region_ok :: "MemoryRegion \<Rightarrow> bool" where
  "region_ok r \<longleftrightarrow> unat (mr_start r) + unat (mr_len r) + 4096 \<le> 2 ^ 64"

definition inside_usable :: "MemoryRegion \<Rightarrow> nat \<Rightarrow> bool" where
  "inside_usable r f \<longleftrightarrow> mr_kind r = Usable \<and> unat (mr_start r) \<le> f * 4096
     \<and> (f + 1) * 4096 \<le> unat (mr_start r) + unat (mr_len r)"

definition touches_reserved :: "MemoryRegion \<Rightarrow> nat \<Rightarrow> bool" where
  "touches_reserved r f \<longleftrightarrow> mr_kind r \<noteq> Usable \<and> mr_len r \<noteq> 0 \<and> unat (mr_start r) < (f + 1) * 4096
     \<and> f * 4096 < unat (mr_start r) + unat (mr_len r)"

lemma unat_page_up:
  fixes x :: u64
  assumes "unat x + 4096 \<le> 2 ^ 64"
  shows "unat (drop_bit 12 (x + PAGE_SIZE - 1)) = (unat x + 4095) div 4096"
proof -
  have "x + PAGE_SIZE - 1 = x + 4095" by (simp add: PAGE_SIZE_def)
  moreover have "unat (x + 4095) = unat x + 4095" using assms by (simp add: unat_word_ariths)
  ultimately have "unat (x + PAGE_SIZE - 1) = unat x + 4095" by metis
  then show ?thesis unfolding drop_bit_eq_div unat_div by simp
qed

lemma region_words:
  assumes "region_ok r"
  shows "unat (MemoryRegion_end r) = unat (mr_start r) + unat (mr_len r)"
    and "unat (drop_bit 12 (mr_start r + PAGE_SIZE - 1)) = (unat (mr_start r) + 4095) div 4096"
    and "unat (drop_bit 12 (MemoryRegion_end r + PAGE_SIZE - 1)) = (unat (mr_start r) + unat (mr_len r) + 4095) div 4096"
    and "unat (drop_bit 12 (mr_start r)) = unat (mr_start r) div 4096"
proof -
  show e: "unat (MemoryRegion_end r) = unat (mr_start r) + unat (mr_len r)"
    using assms by (simp add: MemoryRegion_end_def region_ok_def unat_word_ariths)
  show "unat (drop_bit 12 (mr_start r + PAGE_SIZE - 1)) = (unat (mr_start r) + 4095) div 4096"
    by (rule unat_page_up) (use assms in \<open>simp add: region_ok_def\<close>)
  show "unat (drop_bit 12 (MemoryRegion_end r + PAGE_SIZE - 1)) = (unat (mr_start r) + unat (mr_len r) + 4095) div 4096"
    using unat_page_up [of "MemoryRegion_end r"] e assms by (simp add: region_ok_def)
  show "unat (drop_bit 12 (mr_start r)) = unat (mr_start r) div 4096" by (simp add: drop_bit_eq_div unat_div)
qed

lemma usable_top:
  assumes "region_ok r" and "PAGE_SIZE \<le> MemoryRegion_end r"
  shows "unat (drop_bit 12 (MemoryRegion_end r) - 1) = (unat (mr_start r) + unat (mr_len r)) div 4096 - 1"
proof -
  have e: "4096 \<le> unat (MemoryRegion_end r)" using assms(2) by (simp add: word_le_nat_alt PAGE_SIZE_def)
  have u: "unat (drop_bit 12 (MemoryRegion_end r)) = unat (MemoryRegion_end r) div 4096"
    by (simp add: drop_bit_eq_div unat_div)
  have "1 \<le> unat (MemoryRegion_end r) div 4096" using e by (simp add: div_le_mono [of 4096, simplified])
  then have "1 \<le> drop_bit 12 (MemoryRegion_end r)" by (simp add: word_le_nat_alt u)
  then show ?thesis by (simp add: unat_sub u region_words(1) [OF assms(1)])
qed

lemma div_page_le: "x div 4096 \<le> g \<longleftrightarrow> x < (g + 1) * (4096 :: nat)"
  using div_less_iff_less_mult [of 4096 x "g + 1"] by (simp add: less_Suc_eq_le)

lemma le_div_page: "g \<le> x div 4096 \<longleftrightarrow> g * (4096 :: nat) \<le> x"
  by (simp add: less_eq_div_iff_mult_less_eq)

lemma ceil_page: "(s + 4095) div 4096 \<le> g \<longleftrightarrow> s \<le> g * (4096 :: nat)"
  unfolding div_page_le by auto

lemma le_minus_one: "0 < (m :: nat) \<Longrightarrow> g \<le> m - 1 \<longleftrightarrow> g + 1 \<le> m"
  by linarith

lemma floor_page: "4096 \<le> e \<Longrightarrow> g \<le> e div 4096 - 1 \<longleftrightarrow> (g + 1) * (4096 :: nat) \<le> e"
  using le_div_page [of 1 e] by (simp only: le_minus_one le_div_page)

lemma ceil_page_gt: "0 < e \<Longrightarrow> g \<le> (e + 4095) div 4096 - 1 \<longleftrightarrow> g * (4096 :: nat) < e"
  using le_div_page [of 1 "e + 4095"] le_minus_one [of "(e + 4095) div 4096" g] le_div_page [of "g + 1" "e + 4095"]
  by auto

lemma mem_span: "0 < T \<Longrightarrow> h \<in> set [lo..<Suc (min hi (T - 1))] \<longleftrightarrow> lo \<le> h \<and> h \<le> hi \<and> h < T"
  by (auto simp: less_Suc_eq_le)

lemma region_fields [simp]:
  "ba_cursor (free_region r a) = ba_cursor a" "ba_cursor (reserve_region r a) = ba_cursor a"
  "ba_total (free_region r a) = ba_total a" "length (bitmap (free_region r a)) = length (bitmap a)"
  "ba_total (reserve_region r a) = ba_total a" "length (bitmap (reserve_region r a)) = length (bitmap a)"
  "reserve_below (free_region r a) = reserve_below a" "reserve_below (reserve_region r a) = reserve_below a"
  "general_floor (free_region r a) = general_floor a" "general_floor (reserve_region r a) = general_floor a"
  "dma_top (free_region r a) = dma_top a" "dma_top (reserve_region r a) = dma_top a"
  by (simp_all add: free_region_def reserve_region_def Let_def)

lemma fold_region_fields [simp]:
  "ba_cursor (fold free_region rs a) = ba_cursor a" "ba_cursor (fold reserve_region rs a) = ba_cursor a"
  "reserve_below (fold free_region rs a) = reserve_below a" "reserve_below (fold reserve_region rs a) = reserve_below a"
  "general_floor (fold free_region rs a) = general_floor a" "general_floor (fold reserve_region rs a) = general_floor a"
  "dma_top (fold free_region rs a) = dma_top a" "dma_top (fold reserve_region rs a) = dma_top a"
  by (induction rs arbitrary: a) simp_all

lemma free_region_used:
  assumes "region_ok r" and "ba_total a \<le> 64 * length (bitmap a)" and "0 < ba_total a"
  shows "is_used (free_region r a) g \<longleftrightarrow> is_used a g \<and> \<not> (inside_usable r g \<and> g < ba_total a)"
proof -
  let ?lo = "unat (drop_bit 12 (mr_start r + PAGE_SIZE - 1))" and ?hi = "unat (drop_bit 12 (MemoryRegion_end r) - 1)"
  let ?s = "unat (mr_start r)" and ?e = "unat (mr_start r) + unat (mr_len r)"
  consider (kind) "mr_kind r \<noteq> Usable" | (small) "mr_kind r = Usable" "MemoryRegion_end r < PAGE_SIZE"
    | (page) "mr_kind r = Usable" "PAGE_SIZE \<le> MemoryRegion_end r" by fastforce
  then show ?thesis
  proof cases
    case small
    then have "?e < 4096" by (simp add: word_less_nat_alt region_words(1) [OF assms(1)] PAGE_SIZE_def)
    then show ?thesis using small by (simp add: free_region_def inside_usable_def)
  next
    case page
    then have e: "4096 \<le> ?e" by (simp add: word_le_nat_alt region_words(1) [OF assms(1)] PAGE_SIZE_def)
    have lo: "?lo \<le> h \<longleftrightarrow> ?s \<le> h * 4096" for h by (simp add: region_words [OF assms(1)] ceil_page)
    have hi: "h \<le> ?hi \<longleftrightarrow> (h + 1) * 4096 \<le> ?e" for h
      using floor_page [OF e] usable_top [OF assms(1) page(2)] by simp
    have mem: "h \<in> set [?lo..<Suc (min ?hi (ba_total a - 1))] \<longleftrightarrow> inside_usable r h \<and> h < ba_total a" for h
      unfolding mem_span [OF assms(3)] lo hi inside_usable_def using page(1) by blast
    have "free_region r a = fold set_free [?lo..<Suc (min ?hi (ba_total a - 1))] a"
      using page by (auto simp: free_region_def Let_def)
    moreover have "\<forall>f \<in> set [?lo..<Suc (min ?hi (ba_total a - 1))]. f < 64 * length (bitmap a)"
      using mem assms(2) by auto
    ultimately show ?thesis using fold_set_free [of "[?lo..<Suc (min ?hi (ba_total a - 1))]" a g] mem [of g] by metis
  qed (simp add: free_region_def inside_usable_def)
qed

lemma reserve_region_used:
  assumes "region_ok r" and "ba_total a \<le> 64 * length (bitmap a)" and "0 < ba_total a"
  shows "is_used (reserve_region r a) g \<longleftrightarrow> is_used a g \<or> (touches_reserved r g \<and> g < ba_total a)"
proof (cases "mr_kind r = Usable \<or> mr_len r = 0")
  case False
  let ?lo = "unat (drop_bit 12 (mr_start r))"
    and ?hi = "unat (max (drop_bit 12 (MemoryRegion_end r + PAGE_SIZE - 1)) 1 - 1)"
  let ?s = "unat (mr_start r)" and ?e = "unat (mr_start r) + unat (mr_len r)"
  have e: "0 < ?e" using False by (simp add: unat_gt_0)
  then have "1 \<le> (?e + 4095) div 4096" unfolding le_div_page by linarith
  then have one: "1 \<le> drop_bit 12 (MemoryRegion_end r + PAGE_SIZE - 1)"
    by (simp add: word_le_nat_alt region_words [OF assms(1)])
  then have "?hi = (?e + 4095) div 4096 - 1"
    by (simp add: max_absorb1 unat_sub region_words [OF assms(1)])
  then have hi: "h \<le> ?hi \<longleftrightarrow> h * 4096 < ?e" for h using ceil_page_gt [OF e] by simp
  have lo: "?lo \<le> h \<longleftrightarrow> ?s < (h + 1) * 4096" for h by (simp add: region_words [OF assms(1)] div_page_le)
  have mem: "h \<in> set [?lo..<Suc (min ?hi (ba_total a - 1))] \<longleftrightarrow> touches_reserved r h \<and> h < ba_total a" for h
    unfolding mem_span [OF assms(3)] lo hi touches_reserved_def using False by blast
  have "reserve_region r a = fold set_used [?lo..<Suc (min ?hi (ba_total a - 1))] a"
    using False by (auto simp: reserve_region_def Let_def)
  moreover have "\<forall>f \<in> set [?lo..<Suc (min ?hi (ba_total a - 1))]. f < 64 * length (bitmap a)"
    using mem assms(2) by auto
  ultimately show ?thesis using fold_set_used [of "[?lo..<Suc (min ?hi (ba_total a - 1))]" a g] mem [of g] by metis
qed (auto simp: reserve_region_def touches_reserved_def)

lemma fold_free_region:
  assumes "\<forall>r \<in> set rs. region_ok r" and "ba_total a \<le> 64 * length (bitmap a)" and "0 < ba_total a"
  shows "is_used (fold free_region rs a) g \<longleftrightarrow> is_used a g \<and> \<not> ((\<exists>r \<in> set rs. inside_usable r g) \<and> g < ba_total a)"
    and "ba_total (fold free_region rs a) = ba_total a" and "length (bitmap (fold free_region rs a)) = length (bitmap a)"
  using assms by (induction rs arbitrary: a) (auto simp: free_region_used)

lemma fold_reserve_region:
  assumes "\<forall>r \<in> set rs. region_ok r" and "ba_total a \<le> 64 * length (bitmap a)" and "0 < ba_total a"
  shows "is_used (fold reserve_region rs a) g \<longleftrightarrow> is_used a g \<or> ((\<exists>r \<in> set rs. touches_reserved r g) \<and> g < ba_total a)"
    and "ba_total (fold reserve_region rs a) = ba_total a" and "length (bitmap (fold reserve_region rs a)) = length (bitmap a)"
  using assms by (induction rs arbitrary: a) (auto simp: reserve_region_used)

lemma highest_usable_bound:
  assumes "foldl highest_usable_step hi rs = Some h" and "\<And>h. hi = Some h \<Longrightarrow> unat h < 2 ^ 52 - 1"
  shows "unat h < 2 ^ 52 - 1"
  using assms
proof (induction rs arbitrary: hi)
  case (Cons r rs)
  have top: "unat (drop_bit 12 e - 1) < 2 ^ 52 - 1" if "PAGE_SIZE \<le> e" for e :: u64
  proof -
    have u: "unat (drop_bit 12 e) = unat e div 4096" by (simp add: drop_bit_eq_div unat_div)
    have "4096 \<le> unat e" using that by (simp add: word_le_nat_alt PAGE_SIZE_def)
    then have "1 \<le> unat e div 4096" unfolding le_div_page by simp
    moreover have "unat e div 4096 < 2 ^ 52" using unsigned_less [of e] by (simp add: div_less_iff_less_mult)
    moreover have "1 \<le> drop_bit 12 e" using calculation(1) by (simp add: word_le_nat_alt u)
    ultimately show ?thesis by (simp add: unat_sub u)
  qed
  show ?case
  proof (rule Cons.IH)
    show "foldl highest_usable_step (highest_usable_step hi r) rs = Some h" using Cons.prems(1) by simp
    show "unat k < 2 ^ 52 - 1" if k: "highest_usable_step hi r = Some k" for k
    proof -
      have "hi = Some k \<or> (k = drop_bit 12 (MemoryRegion_end r) - 1 \<and> PAGE_SIZE \<le> MemoryRegion_end r)"
        using k by (simp add: highest_usable_step_def Let_def max_def not_less split: if_splits option.splits)
      then show ?thesis using Cons.prems(2) top by blast
    qed
  qed
qed simp

lemma highest_usable_ge:
  assumes "region_ok r" and "inside_usable r f" and "r \<in> set rs"
  shows "\<exists>h. foldl highest_usable_step hi rs = Some h \<and> f \<le> unat h"
  using assms(3)
proof (induction rs arbitrary: hi rule: rev_induct)
  case (snoc x rs)
  have keep: "\<exists>k. highest_usable_step (Some h) y = Some k \<and> unat h \<le> unat k" for h y
    by (auto simp: highest_usable_step_def Let_def word_le_nat_alt [symmetric])
  show ?case
  proof (cases "r \<in> set rs")
    case True
    then obtain h where "foldl highest_usable_step hi rs = Some h" "f \<le> unat h" using snoc.IH by blast
    then show ?thesis using keep [of h x] by auto
  next
    case False
    then have x: "x = r" using snoc.prems by simp
    have e: "(f + 1) * 4096 \<le> unat (mr_start r) + unat (mr_len r)" "unat (mr_start r) \<le> f * 4096" "mr_kind r = Usable"
      using assms(2) by (auto simp: inside_usable_def)
    then have e1: "4096 \<le> unat (mr_start r) + unat (mr_len r)" by simp
    then have p: "PAGE_SIZE \<le> MemoryRegion_end r" by (simp add: word_le_nat_alt PAGE_SIZE_def region_words(1) [OF assms(1)])
    have hi': "f \<le> unat (drop_bit 12 (MemoryRegion_end r) - 1)"
      using e(1) floor_page [OF e1, of f] usable_top [OF assms(1) p] by simp
    moreover have "unat (drop_bit 12 (mr_start r + PAGE_SIZE - 1)) \<le> f"
      using e(2) by (simp add: region_words(2) [OF assms(1)] ceil_page)
    ultimately have "drop_bit 12 (mr_start r + PAGE_SIZE - 1) \<le> drop_bit 12 (MemoryRegion_end r) - 1"
      by (simp add: word_le_nat_alt)
    then have "\<exists>k. highest_usable_step o' r = Some k \<and> drop_bit 12 (MemoryRegion_end r) - 1 \<le> k" for o'
      using e(3) p by (auto simp: highest_usable_step_def Let_def not_less split: option.splits)
    then obtain k where "highest_usable_step (foldl highest_usable_step hi rs) r = Some k"
        "unat (drop_bit 12 (MemoryRegion_end r) - 1) \<le> unat k"
      unfolding word_le_nat_alt by blast
    then show ?thesis using hi' x by simp
  qed
qed simp

definition new_total :: "MemoryRegion list \<Rightarrow> u64 list \<Rightarrow> nat" where
  "new_total regions bm = min (case highest_usable_frame regions of None \<Rightarrow> 0 | Some h \<Rightarrow> unat (h + 1))
     (saturating_mul64 (length bm) BITS_PER_WORD)"

lemma new_total_bounds: "new_total regions bm \<le> 64 * length bm" "new_total regions bm < 2 ^ 52"
proof -
  show "new_total regions bm \<le> 64 * length bm"
    by (simp add: new_total_def saturating_mul64_def BITS_PER_WORD_def min_le_iff_disj)
  have "unat (h + 1) < 2 ^ 52" if "highest_usable_frame regions = Some h" for h
    using highest_usable_bound [of None regions h] that by (simp add: highest_usable_frame_def unat_word_ariths)
  then show "new_total regions bm < 2 ^ 52"
    by (auto simp: new_total_def min_less_iff_disj split: option.splits)
qed

lemma new_total_covers:
  assumes "region_ok r" and "inside_usable r f" and "r \<in> set regions" and "bitmap_words_needed regions \<le> length bm"
  shows "f < new_total regions bm"
proof -
  obtain h where h: "highest_usable_frame regions = Some h" "f \<le> unat h"
    using highest_usable_ge [OF assms(1-3)] by (auto simp: highest_usable_frame_def)
  have b: "unat h < 2 ^ 52 - 1" using highest_usable_bound [of None regions h] h(1) by (simp add: highest_usable_frame_def)
  have w: "h + 1 + of_nat BITS_PER_WORD - 1 = 64 + h" by (simp add: BITS_PER_WORD_def)
  have "unat (64 + h) = unat h + 64" using b by (simp add: unat_word_ariths)
  then have n: "bitmap_words_needed regions = (unat h + 64) div 64"
    unfolding bitmap_words_needed_def h(1) option.case w unat_div BITS_PER_WORD_def by simp
  then have "unat h < 64 * length bm" using assms(4) dividend_less_times_div [of 64 "unat h"] by simp
  moreover have "unat (h + 1) = unat h + 1" using b by (simp add: unat_word_ariths)
  ultimately show ?thesis using h b
    by (simp add: new_total_def saturating_mul64_def BITS_PER_WORD_def)
qed

lemma low_frames_used:
  assumes "n < 2 ^ 52"
  shows "set (takeWhile (\<lambda>f. frame_addr f < x) [0..<n]) = {f. f < n \<and> frame_addr f < x}"
proof -
  have "f \<in> set (takeWhile (\<lambda>f. frame_addr f < x) [0..<n])" if "f < n" "frame_addr f < x" for f
    using that assms by (intro in_takeWhile_upt) (auto simp: frame_addr_less)
  then show ?thesis by (auto dest: set_takeWhileD)
qed

lemma all_used: "f < 64 * length bm \<Longrightarrow> bitmap a = map (\<lambda>_. U64_MAX) bm \<Longrightarrow> is_used a f"
  by (simp add: is_used_bit U64_MAX_bit less_mult_imp_div_less mult.commute)

lemma new_frames:
  assumes "\<forall>r \<in> set regions. region_ok r"
  shows "free_frames (BitmapAllocator_new regions bm rb dt) = {f. f < new_total regions bm
      \<and> (\<exists>r \<in> set regions. inside_usable r f) \<and> \<not> (\<exists>r \<in> set regions. touches_reserved r f) \<and> rb \<le> frame_addr f}"
    and "ba_total (BitmapAllocator_new regions bm rb dt) = new_total regions bm"
    and "length (bitmap (BitmapAllocator_new regions bm rb dt)) = length bm"
    and "ba_free (BitmapAllocator_new regions bm rb dt) = card (free_frames (BitmapAllocator_new regions bm rb dt))"
proof -
  let ?T = "new_total regions bm"
  define a0 where "a0 = \<lparr>bitmap = map (\<lambda>_. U64_MAX) bm, ba_total = ?T, ba_free = 0, ba_cursor = 0,
     general_floor = unat (drop_bit PAGE_SHIFT (dt + PAGE_SIZE - 1)), dma_top = dt, reserve_below = rb\<rparr>"
  define a1 where "a1 = (if ?T > 0 then fold free_region regions a0 else a0)"
  define a2 where "a2 = (if ?T > 0 then fold reserve_region regions a1 else a1)"
  define a3 where "a3 = fold set_used (takeWhile (\<lambda>f. frame_addr f < rb) [0..<?T]) a2"
  have new: "BitmapAllocator_new regions bm rb dt = a3\<lparr>ba_free := length (filter (\<lambda>f. \<not> is_used a3 f) [0..<?T])\<rparr>"
    unfolding BitmapAllocator_new_def Let_def new_total_def [symmetric] a3_def a2_def a1_def a0_def by (rule refl)
  note T = new_total_bounds [of regions bm]
  have s0: "ba_total a0 = ?T" "length (bitmap a0) = length bm" by (simp_all add: a0_def)
  have s1: "ba_total a1 = ?T" "length (bitmap a1) = length bm"
    using fold_free_region(2,3) [OF assms, of a0] s0 T(1) by (simp_all add: a1_def)
  have s2: "ba_total a2 = ?T" "length (bitmap a2) = length bm"
    using fold_reserve_region(2,3) [OF assms, of a1] s1 T(1) by (simp_all add: a2_def)
  have u0: "is_used a0 f" if "f < ?T" for f using that T(1) by (intro all_used [of f bm]) (auto simp: a0_def)
  have u1: "is_used a1 f \<longleftrightarrow> \<not> (\<exists>r \<in> set regions. inside_usable r f)" if "f < ?T" for f
    using fold_free_region(1) [OF assms, of a0 f] s0 T(1) that u0 by (auto simp: a1_def)
  have u2: "is_used a2 f \<longleftrightarrow> is_used a1 f \<or> (\<exists>r \<in> set regions. touches_reserved r f)" if "f < ?T" for f
    using fold_reserve_region(1) [OF assms, of a1 f] s1 T(1) that by (auto simp: a2_def)
  have low: "set (takeWhile (\<lambda>f. frame_addr f < rb) [0..<?T]) = {f. f < ?T \<and> frame_addr f < rb}"
    by (rule low_frames_used [OF T(2)])
  have "\<forall>f \<in> set (takeWhile (\<lambda>f. frame_addr f < rb) [0..<?T]). f < 64 * length (bitmap a2)"
    unfolding low s2 using T(1) by auto
  note u3 = fold_set_used [OF this, folded a3_def, unfolded low]
  have s3: "ba_total a3 = ?T" "length (bitmap a3) = length bm" by (simp_all add: a3_def s2)
  show "ba_total (BitmapAllocator_new regions bm rb dt) = ?T" "length (bitmap (BitmapAllocator_new regions bm rb dt)) = length bm"
    by (simp_all add: new s3)
  have "card (set (filter (\<lambda>f. \<not> is_used a3 f) [0..<?T])) = length (filter (\<lambda>f. \<not> is_used a3 f) [0..<?T])"
    by (intro distinct_card) simp
  moreover have "set (filter (\<lambda>f. \<not> is_used a3 f) [0..<?T]) = free_frames a3" by (auto simp: free_frames_def s3)
  ultimately show "ba_free (BitmapAllocator_new regions bm rb dt) = card (free_frames (BitmapAllocator_new regions bm rb dt))"
    by (simp add: new)
  have "free_frames (BitmapAllocator_new regions bm rb dt) = free_frames a3" by (simp add: new)
  also have "\<dots> = {f. f < ?T \<and> (\<exists>r \<in> set regions. inside_usable r f)
      \<and> \<not> (\<exists>r \<in> set regions. touches_reserved r f) \<and> rb \<le> frame_addr f}"
    unfolding free_frames_def s3 u3 using u1 u2 by (auto simp: not_less)
  finally show "free_frames (BitmapAllocator_new regions bm rb dt) = {f. f < ?T
      \<and> (\<exists>r \<in> set regions. inside_usable r f) \<and> \<not> (\<exists>r \<in> set regions. touches_reserved r f) \<and> rb \<le> frame_addr f}" .
qed

lemma new_fields:
  "reserve_below (BitmapAllocator_new regions bm rb dt) = rb" "dma_top (BitmapAllocator_new regions bm rb dt) = dt"
  "general_floor (BitmapAllocator_new regions bm rb dt) = unat (drop_bit 12 (dt + PAGE_SIZE - 1))"
  by (simp_all add: BitmapAllocator_new_def Let_def)

lemma new_cursor: "ba_cursor (BitmapAllocator_new regions bm rb dt) = 0"
  by (simp add: BitmapAllocator_new_def Let_def)

lemma allocator_new_inv: "\<forall>r \<in> set regions. region_ok r \<Longrightarrow> ba_inv (BitmapAllocator_new regions bm rb dt)"
  using new_frames [of regions bm rb dt] new_total_bounds [of regions bm] by (simp add: ba_inv_def ba_wf_def new_fields)

section \<open>The pools and the cursor over a run\<close>

text \<open>
  The two pools do not meet, and the search hint of the general pool is honest: no free general
  frame lies below it.
\<close>

definition pools_ok :: "BitmapAllocator \<Rightarrow> bool" where
  "pools_ok a \<longleftrightarrow> ba_inv a \<and> unat (dma_top a) \<le> general_floor a * 4096
     \<and> (\<forall>f \<in> free_frames a. general_floor a \<le> f \<longrightarrow> ba_cursor a \<le> f)"

lemma pools_ok_new:
  assumes "\<forall>r \<in> set regions. region_ok r" and "unat dt + 4096 \<le> 2 ^ 64"
  shows "pools_ok (BitmapAllocator_new regions bm rb dt)"
proof -
  have "unat (drop_bit 12 (dt + PAGE_SIZE - 1)) = (unat dt + 4095) div 4096" by (rule unat_page_up [OF assms(2)])
  then have "unat dt \<le> unat (drop_bit 12 (dt + PAGE_SIZE - 1)) * 4096"
    using ceil_page [of "unat dt" "(unat dt + 4095) div 4096"] by simp
  then show ?thesis using allocator_new_inv [OF assms(1)] by (simp add: pools_ok_def new_fields new_cursor)
qed

lemma alloc_frame_pools_ok:
  assumes "pools_ok a" shows "pools_ok (snd (alloc_frame a))"
proof (cases rule: alloc_frame_cases [of a])
  case none
  then show ?thesis using assms by simp
next
  case (some f)
  let ?b = "(set_used f a)\<lparr>ba_free := ba_free a - 1, ba_cursor := f + 1\<rparr>"
  have inv: "ba_inv a" and cur: "\<And>g. g \<in> free_frames a \<Longrightarrow> general_floor a \<le> g \<Longrightarrow> ba_cursor a \<le> g"
    using assms by (auto simp: pools_ok_def)
  note t = take_one [OF inv some(1) refl, of "f + 1"]
  have "f + 1 \<le> g" if "g \<in> free_frames a" "g \<noteq> f" "general_floor a \<le> g" for g
    using some(3) cur that by fastforce
  then show ?thesis using assms t some(4) by (auto simp: pools_ok_def)
qed

lemma alloc_dma_pools_ok:
  assumes "pools_ok a" shows "pools_ok (snd (alloc_dma_frame a))"
proof -
  have inv: "ba_inv a" using assms by (simp add: pools_ok_def)
  show ?thesis
  proof (cases rule: alloc_dma_cases [OF inv])
    case 1
    then show ?thesis using assms by simp
  next
    case (2 f)
    note t = take_one [OF inv 2(1) refl, of "ba_cursor a"]
    show ?thesis using assms t 2(3) by (auto simp: pools_ok_def)
  qed
qed

lemma free_frame_pools_ok:
  assumes "pools_ok a" and "p \<in> tracked a - available a"
  shows "pools_ok (free_frame p a)"
proof -
  obtain f where f: "p = frame_addr f" "f < ba_total a" "reserve_below a \<le> frame_addr f" "f \<notin> free_frames a"
    using assms(2) by (auto simp: tracked_def available_def)
  have inv: "ba_inv a" using assms(1) by (simp add: pools_ok_def)
  have u: "is_used a f" "f < 2 ^ 52" using f inv by (auto simp: free_frames_def ba_inv_def ba_wf_def)
  then have e: "free_frame p a = (if f < ba_cursor a then (set_free f a)\<lparr>ba_free := ba_free a + 1, ba_cursor := f\<rparr>
      else (set_free f a)\<lparr>ba_free := ba_free a + 1\<rparr>)"
    using f frame_of_addr [OF u(2)] by (simp add: free_frame_def not_less)
  note facts = free_frame_facts [OF inv f(2-4), folded f(1)]
  have "ba_cursor (free_frame p a) = min f (ba_cursor a)" "general_floor (free_frame p a) = general_floor a"
    "dma_top (free_frame p a) = dma_top a" by (simp_all add: e min_def)
  then show ?thesis using assms(1) facts by (auto simp: pools_ok_def)
qed

lemma frame_run_pools_ok:
  assumes "pools_ok a" and "pools.account (held, a)"
  shows "pools_ok (snd (frame_run alloc_pool free_frame evs (held, a)))"
  using assms
proof (induction evs arbitrary: held a)
  case (Cons e evs)
  show ?case
  proof (cases e)
    case (EvAlloc k)
    obtain r a' where r: "alloc_pool k a = (r, a')" by (cases "alloc_pool k a")
    have ok: "pools_ok a'"
      using alloc_frame_pools_ok [OF Cons.prems(1)] alloc_dma_pools_ok [OF Cons.prems(1)] r
      by (cases k) (simp_all add: alloc_pool_def)
    show ?thesis
    proof (cases r)
      case None
      then have "a' = a" using pools.alloc_None r Cons.prems(1) by (auto simp: pools_ok_def)
      then show ?thesis using Cons.IH [OF Cons.prems] r None EvAlloc by simp
    next
      case (Some p)
      then have "pools.account (p # held, a')" using pools.account_alloc [OF Cons.prems(2)] r by simp
      from Cons.IH [OF ok this] show ?thesis using r Some EvAlloc by simp
    qed
  next
    case (EvFree i)
    show ?thesis
    proof (cases "i < length held")
      case True
      have "held ! i \<in> tracked a - available a"
        using nth_mem [OF True] Cons.prems(2) by (auto simp: pools.account_def)
      from Cons.IH [OF free_frame_pools_ok [OF Cons.prems(1) this] conjunct1 [OF pools.account_release [OF Cons.prems(2) True]]]
      show ?thesis using EvFree True by simp
    next
      case False
      then show ?thesis using Cons EvFree by simp
    qed
  qed
qed simp

lemma account_new:
  "\<forall>r \<in> set regions. region_ok r \<Longrightarrow> pools.account ([], BitmapAllocator_new regions bm rb dt)"
  by (simp add: pools.account_def allocator_new_inv)

section \<open>Properties\<close>

text \<open>A small boot map: frames 0, 2 and 3 are usable, frame 1 is a hole.\<close>

definition sample_map :: "MemoryRegion list" where
  "sample_map = [\<lparr>mr_start = 0, mr_len = 4096, mr_kind = Usable\<rparr>, \<lparr>mr_start = 8192, mr_len = 8192, mr_kind = Usable\<rparr>]"

definition sample_alloc :: BitmapAllocator where
  "sample_alloc = BitmapAllocator_new sample_map [0] 0 0"

lemma sample_map_ok: "\<forall>r \<in> set sample_map. region_ok r"
  by (simp add: sample_map_def region_ok_def)

lemma sample_total: "new_total sample_map [0] = 4"
proof -
  have "highest_usable_frame sample_map = Some 3"
    by (simp add: highest_usable_frame_def highest_usable_step_def sample_map_def MemoryRegion_end_def PAGE_SIZE_def)
  then show ?thesis by (simp add: new_total_def saturating_mul64_def BITS_PER_WORD_def)
qed

lemma sample_facts: "free_frames sample_alloc = {0, 2, 3}" "ba_total sample_alloc = 4" "ba_inv sample_alloc"
  "general_floor sample_alloc = 0" "reserve_below sample_alloc = 0"
proof -
  have "f < 4 \<and> (\<exists>r \<in> set sample_map. inside_usable r f) \<and> \<not> (\<exists>r \<in> set sample_map. touches_reserved r f) \<longleftrightarrow> f \<in> {0, 2, 3}" for f
    by (auto simp: sample_map_def inside_usable_def touches_reserved_def)
  then show "free_frames sample_alloc = {0, 2, 3}"
    using new_frames(1) [OF sample_map_ok, of "[0]" 0 0] unfolding sample_alloc_def sample_total by auto
  show "ba_total sample_alloc = 4" using new_frames(2) [OF sample_map_ok] by (simp add: sample_alloc_def sample_total)
  show "ba_inv sample_alloc" unfolding sample_alloc_def by (rule allocator_new_inv [OF sample_map_ok])
qed (simp_all add: sample_alloc_def new_fields PAGE_SIZE_def)

lemma sample_used: "f < 4 \<Longrightarrow> is_used sample_alloc f \<longleftrightarrow> f = 1"
proof -
  assume "f < 4"
  then have "is_used sample_alloc f \<longleftrightarrow> f \<notin> free_frames sample_alloc" by (simp add: free_frames_def sample_facts)
  then show ?thesis using \<open>f < 4\<close> by (auto simp: sample_facts)
qed

lemma sample_run: "alloc_contiguous 2 sample_alloc = (Some 8192, (fold set_used [2..<4] sample_alloc)
    \<lparr>ba_free := ba_free sample_alloc - 2, ba_cursor := 4\<rparr>)"
proof -
  have u: "[0..<2] = [0, 1]" "[2..<4] = [2, 3::nat]" by (simp_all add: upt_rec)
  have "contiguous_scan sample_alloc 2 2 = Some 2"
    by (subst contiguous_scan.simps) (simp add: sample_facts u sample_used)
  then have "contiguous_scan sample_alloc 2 0 = Some 2"
    by (subst contiguous_scan.simps) (simp add: sample_facts u sample_used numeral_2_eq_2 [symmetric])
  moreover have "ba_cursor sample_alloc = 0" by (simp add: sample_alloc_def new_cursor)
  ultimately show ?thesis by (simp add: alloc_contiguous_def sample_facts frame_addr_def u)
qed

text \<open>
  (C40) No frame is handed out twice: starting from an allocator built over any boot map whose
  regions do not wrap, whatever sequence of allocations from the general pool and the DMA arena and
  of frees of held frames a client runs, the frames it holds are distinct, none of them is still
  available, and held and available frames together are exactly the ones available at the start;
  the free count is the number of clear bits.
\<close>

theorem no_double_allocation:
  assumes "\<forall>r \<in> set regions. region_ok r"
    and "frame_run alloc_pool free_frame evs ([], BitmapAllocator_new regions bm rb dt) = (held, a)"
  shows "distinct held \<and> set held \<inter> available a = {}
         \<and> set held \<union> available a = available (BitmapAllocator_new regions bm rb dt)
         \<and> ba_free a = card (free_frames a)"
  using pools.run_account [OF account_new [OF assms(1), of bm rb dt], of evs] assms(2)
  by (auto simp: pools.account_def ba_inv_def)

theorem no_double_allocation_witness:
  "distinct (fst (frame_run alloc_pool free_frame [EvAlloc False, EvAlloc False, EvFree 0, EvAlloc False]
      ([], BitmapAllocator_new sample_map [0] 0 0)))"
  using no_double_allocation [OF sample_map_ok, of "[EvAlloc False, EvAlloc False, EvFree 0, EvAlloc False]" "[0]" 0 0]
  by (metis prod.collapse)

text \<open>
  The allocator offers exactly the safe frames: over a boot map whose regions do not wrap, the
  frames free after construction are the tracked ones that lie wholly inside some usable region,
  touch no byte of a reserved one and start at or above the reserve floor, whatever overlaps the
  map has; and a bitmap of the size the integrator is told to provide tracks every usable frame.
\<close>

theorem new_offers_safe_frames:
  assumes "\<forall>r \<in> set regions. region_ok r"
  shows "(f \<in> free_frames (BitmapAllocator_new regions bm rb dt) \<longleftrightarrow> f < new_total regions bm
      \<and> (\<exists>r \<in> set regions. inside_usable r f) \<and> \<not> (\<exists>r \<in> set regions. touches_reserved r f) \<and> rb \<le> frame_addr f)
    \<and> (bitmap_words_needed regions \<le> length bm \<longrightarrow> (\<exists>r \<in> set regions. inside_usable r f) \<longrightarrow> f < new_total regions bm)"
  using new_frames(1) [OF assms] new_total_covers assms by blast

theorem new_offers_safe_frames_witness:
  "2 \<in> free_frames (BitmapAllocator_new sample_map [0] 0 0) \<and> 1 \<notin> free_frames (BitmapAllocator_new sample_map [0] 0 0)"
  using new_offers_safe_frames [OF sample_map_ok, of 2 "[0]" 0 0]
    new_offers_safe_frames [OF sample_map_ok, of 1 "[0]" 0 0]
  unfolding sample_total by (simp add: sample_map_def inside_usable_def touches_reserved_def)

text \<open>
  The pools partition memory and the general pool is exhausted only when it is empty: over any
  run from a fresh allocator, a frame from the DMA arena lies below the arena's top, a general
  frame or a contiguous run lies at or above it, and an allocation from either pool fails only when
  no free frame of that pool is left.
\<close>

theorem pools_partition_and_complete:
  assumes "\<forall>r \<in> set regions. region_ok r" and "unat dt + 4096 \<le> 2 ^ 64"
    and "frame_run alloc_pool free_frame evs ([], BitmapAllocator_new regions bm rb dt) = (held, a)"
  shows "(fst (alloc_frame a) = Some p \<longrightarrow> dma_top a \<le> p)
    \<and> (fst (alloc_contiguous n a) = Some p \<longrightarrow> dma_top a \<le> p)
    \<and> (fst (alloc_dma_frame a) = Some p \<longrightarrow> p < dma_top a)
    \<and> (fst (alloc_frame a) = None \<longleftrightarrow> (\<forall>f \<in> free_frames a. f < general_floor a))
    \<and> (fst (alloc_dma_frame a) = None \<longleftrightarrow> (\<forall>f \<in> free_frames a. dma_top a \<le> frame_addr f))"
proof (intro conjI impI)
  have "pools_ok (snd (frame_run alloc_pool free_frame evs ([], BitmapAllocator_new regions bm rb dt)))"
    by (rule frame_run_pools_ok [OF pools_ok_new [OF assms(1,2)] account_new [OF assms(1)]])
  then have ok: "pools_ok a" by (simp add: assms(3))
  then have inv: "ba_inv a" and floor: "unat (dma_top a) \<le> general_floor a * 4096" by (auto simp: pools_ok_def)
  have above: "dma_top a \<le> frame_addr f" if "f \<in> free_frames a" "general_floor a \<le> f" for f
  proof -
    have "f < 2 ^ 52" using that(1) inv by (auto simp: free_frames_def ba_inv_def ba_wf_def)
    moreover have "unat (dma_top a) \<le> f * 4096" using floor that(2) by (meson le_trans mult_le_mono1)
    ultimately show ?thesis by (simp add: word_le_nat_alt unat_frame_addr)
  qed
  show "dma_top a \<le> p" if "fst (alloc_frame a) = Some p"
    using that above by (cases rule: alloc_frame_cases [of a]) auto
  show "fst (alloc_frame a) = None \<longleftrightarrow> (\<forall>f \<in> free_frames a. f < general_floor a)"
    using ok by (cases rule: alloc_frame_cases [of a]) (auto simp: pools_ok_def not_le [symmetric])
  show "p < dma_top a" if "fst (alloc_dma_frame a) = Some p"
    using that by (cases rule: alloc_dma_cases [OF inv]) auto
  show "fst (alloc_dma_frame a) = None \<longleftrightarrow> (\<forall>f \<in> free_frames a. dma_top a \<le> frame_addr f)"
    by (cases rule: alloc_dma_cases [OF inv]) (auto simp: not_le [symmetric])
  show "dma_top a \<le> p" if "fst (alloc_contiguous n a) = Some p"
  proof -
    have run: "alloc_contiguous n a = (Some p, snd (alloc_contiguous n a))" using that by (metis prod.collapse)
    show ?thesis
    proof (rule alloc_contiguous_Some [OF inv run])
      fix s assume s: "p = frame_addr s" "contiguous_floor a \<le> s" "{s..<s + n} \<subseteq> free_frames a" "0 < n"
      then have "s \<in> free_frames a" "general_floor a \<le> s" by (auto simp: contiguous_floor_def)
      then show ?thesis using above s(1) by blast
    qed
  qed
qed

theorem pools_partition_and_complete_witness:
  "fst (alloc_frame (BitmapAllocator_new sample_map [0] 0 4096)) = None
   \<longleftrightarrow> (\<forall>f \<in> free_frames (BitmapAllocator_new sample_map [0] 0 4096).
          f < general_floor (BitmapAllocator_new sample_map [0] 0 4096))"
  using pools_partition_and_complete [OF sample_map_ok, of 4096 "[]" "[0]" 0 "[]"
      "BitmapAllocator_new sample_map [0] 0 4096"] by simp

text \<open>
  Contiguous allocation is all or nothing and complete: on success exactly the requested run,
  every frame of it free before and at or above the pool's floor, is marked used and the invariant
  holds; on failure nothing changes and no such run exists.
\<close>

theorem contiguous_all_or_nothing:
  assumes "ba_inv a" and "0 < pages"
  shows "(alloc_contiguous pages a = (Some p, a') \<longrightarrow> (\<exists>s. p = frame_addr s \<and> contiguous_floor a \<le> s
           \<and> {s..<s + pages} \<subseteq> free_frames a \<and> free_frames a' = free_frames a - {s..<s + pages} \<and> ba_inv a'))
    \<and> (alloc_contiguous pages a = (None, a') \<longrightarrow>
           a' = a \<and> \<not> (\<exists>s\<ge>contiguous_floor a. {s..<s + pages} \<subseteq> free_frames a))"
proof (intro conjI [of "_ \<longrightarrow> _"] impI)
  show "\<exists>s. p = frame_addr s \<and> contiguous_floor a \<le> s \<and> {s..<s + pages} \<subseteq> free_frames a
      \<and> free_frames a' = free_frames a - {s..<s + pages} \<and> ba_inv a'" if "alloc_contiguous pages a = (Some p, a')"
    by (rule alloc_contiguous_Some [OF assms(1) that]) blast
  show "a' = a \<and> \<not> (\<exists>s\<ge>contiguous_floor a. {s..<s + pages} \<subseteq> free_frames a)" if "alloc_contiguous pages a = (None, a')"
    using alloc_contiguous_None [OF that assms(2)] by blast
qed

theorem contiguous_all_or_nothing_witness:
  "\<exists>s. 8192 = frame_addr s \<and> {s..<s + 2} \<subseteq> free_frames sample_alloc"
  using contiguous_all_or_nothing [OF sample_facts(3), of 2] sample_run by fastforce

text \<open>
  The search a word at a time is the search a frame at a time: skipping full words, masking the
  bits below the start and taking the trailing zeros of the complement finds exactly the least free
  frame at or above the start.
\<close>

theorem first_free_is_least: "first_free a from' = least_free a from'"
  by (rule first_free_least)

text \<open>
  A contiguous allocation can strand free frames: it moves the search hint of the general pool
  past the run, over free frames too few to serve it, and the general pool then reports exhaustion
  while a frame at or above its floor is still free. The hint is documented as a bound below which
  no free frame is known to exist.
\<close>

theorem contiguous_strands_free_frames:
  defines "a \<equiv> snd (alloc_contiguous 2 sample_alloc)"
  shows "ba_inv a \<and> ba_free a = 1 \<and> 0 \<in> free_frames a \<and> general_floor a = 0 \<and> fst (alloc_frame a) = None"
proof (intro conjI)
  have ff: "free_frames a = {0}" and inv: "ba_inv a"
  proof -
    obtain s where "(8192 :: u64) = frame_addr s" "free_frames a = free_frames sample_alloc - {s..<s + 2}" "ba_inv a"
        "{s..<s + 2} \<subseteq> free_frames sample_alloc"
      using alloc_contiguous_Some [OF sample_facts(3) sample_run] sample_run unfolding a_def by (metis snd_conv)
    moreover have "s = 2"
    proof -
      have "s \<in> {s..<s + 2}" "s + 1 \<in> {s..<s + 2}" by auto
      then have "s \<in> {0, 2, 3}" "s + 1 \<in> {0, 2, 3 :: nat}" using calculation(4) sample_facts(1) by blast+
      then show ?thesis by auto
    qed
    ultimately show "free_frames a = {0}" "ba_inv a" by (auto simp: sample_facts)
  qed
  then show "ba_inv a" "ba_free a = 1" "0 \<in> free_frames a" by (simp_all add: ba_inv_def)
  have cur: "ba_cursor a = 4" by (simp add: a_def sample_run)
  show "general_floor a = 0" by (simp add: a_def sample_run sample_facts)
  show "fst (alloc_frame a) = None"
    by (cases rule: alloc_frame_cases [of a]) (auto simp: ff cur)
qed

end
