(* ===== verification/Radix.thy ===== *)
theory Radix
  imports Abi
begin

text \<open>
  The radix trees behind both page-table crates (src/crates/vspace, src/crates/vspace-riscv), as
  an interface: a memory of tables read by frame and index, entries that link to a next table or
  do not, and frames still available to become tables. Over it: tables reached by different index
  paths never alias, a leaf write changes one path, and linking a fresh table changes no leaf.
\<close>

type_synonym ptmem = "u64 \<Rightarrow> nat \<Rightarrow> u64"

text \<open>A source of frames for tables: it never hands out a frame that is not available.\<close>

definition fresh_source :: "('s \<Rightarrow> bool) \<Rightarrow> ('s \<Rightarrow> u64 set) \<Rightarrow> ('s \<Rightarrow> u64 option \<times> 's) \<Rightarrow> bool" where
  "fresh_source ok avail fa \<longleftrightarrow> (\<forall>s. ok s \<longrightarrow> (case fa s of
       (None, s') \<Rightarrow> ok s' \<and> avail s' \<subseteq> avail s
     | (Some f, s') \<Rightarrow> ok s' \<and> f \<in> avail s \<and> avail s' \<subseteq> avail s - {f}))"

lemma fresh_source_None: "fresh_source ok avail fa \<Longrightarrow> ok s \<Longrightarrow> fa s = (None, s') \<Longrightarrow> ok s' \<and> avail s' \<subseteq> avail s"
  by (fastforce simp: fresh_source_def)

lemma fresh_source_Some:
  "fresh_source ok avail fa \<Longrightarrow> ok s \<Longrightarrow> fa s = (Some f, s') \<Longrightarrow> ok s' \<and> f \<in> avail s \<and> avail s' \<subseteq> avail s - {f}"
  by (fastforce simp: fresh_source_def)

text \<open>The simplest such source, a list of frames.\<close>

definition list_source :: "u64 list \<Rightarrow> u64 option \<times> u64 list" where
  "list_source fs = (case fs of [] \<Rightarrow> (None, []) | f # fs' \<Rightarrow> (Some f, fs'))"

lemma list_source_fresh: "fresh_source distinct set list_source"
  by (auto simp: fresh_source_def list_source_def split: list.splits)

fun tab_at :: "('e \<Rightarrow> u64 option) \<Rightarrow> (u64 \<Rightarrow> nat \<Rightarrow> 'e) \<Rightarrow> u64 \<Rightarrow> nat list \<Rightarrow> u64 option" where
  "tab_at nx rd p [] = Some p"
| "tab_at nx rd p (i # is) = (case nx (rd p i) of None \<Rightarrow> None | Some q \<Rightarrow> tab_at nx rd q is)"

text \<open>The entry where a walk stops, with the number of levels below it.\<close>

fun stop_entry :: "('e \<Rightarrow> u64 option) \<Rightarrow> (u64 \<Rightarrow> nat \<Rightarrow> 'e) \<Rightarrow> u64 \<Rightarrow> nat list \<Rightarrow> nat \<times> 'e" where
  "stop_entry nx rd p [i] = (0, rd p i)"
| "stop_entry nx rd p (i # j # is) =
     (case nx (rd p i) of None \<Rightarrow> (Suc (length is), rd p i) | Some q \<Rightarrow> stop_entry nx rd q (j # is))"
| "stop_entry nx rd p [] = (0, rd p 0)"

lemma tab_at_append:
  "tab_at nx rd p (is @ js) = (case tab_at nx rd p is of None \<Rightarrow> None | Some q \<Rightarrow> tab_at nx rd q js)"
  by (induction "is" arbitrary: p) (auto split: option.splits)

lemma tab_at_snoc: "tab_at nx rd p (is @ [i]) = (case tab_at nx rd p is of None \<Rightarrow> None | Some q \<Rightarrow> nx (rd q i))"
  by (auto simp: tab_at_append split: option.splits)

lemma stop_entry_append:
  "js \<noteq> [] \<Longrightarrow> tab_at nx rd p is = Some q \<Longrightarrow> stop_entry nx rd p (is @ js) = stop_entry nx rd q js"
proof (induction "is" arbitrary: p)
  case (Cons i "is")
  obtain j ks where "is @ js = j # ks" using Cons.prems(1) by (cases "is @ js") auto
  then show ?case using Cons by (auto split: option.splits)
qed simp

lemma stop_entry_here:
  "js \<noteq> [] \<Longrightarrow> nx (rd p j) = None \<Longrightarrow> stop_entry nx rd p (j # js) = (length js, rd p j)"
  by (cases js) auto

locale radix =
  fixes nx :: "'e \<Rightarrow> u64 option"
    and dead :: "'e \<Rightarrow> bool"
    and zero :: 'e
    and link :: "u64 \<Rightarrow> 'e"
    and good :: "u64 \<Rightarrow> bool"
  assumes dead_nx: "dead e \<Longrightarrow> nx e = None"
    and dead_zero: "dead zero"
    and nx_link: "good f \<Longrightarrow> nx (link f) = Some f"
begin

definition tree :: "nat \<Rightarrow> (u64 \<Rightarrow> nat \<Rightarrow> 'e) \<Rightarrow> u64 \<Rightarrow> bool" where
  "tree D rd root \<longleftrightarrow> (\<forall>P Q p. length P \<le> D \<and> length Q \<le> D \<and> tab_at nx rd root P = Some p
     \<and> tab_at nx rd root Q = Some p \<longrightarrow> P = Q)"

definition outside :: "nat \<Rightarrow> (u64 \<Rightarrow> nat \<Rightarrow> 'e) \<Rightarrow> u64 \<Rightarrow> u64 set \<Rightarrow> bool" where
  "outside D rd root F \<longleftrightarrow> (\<forall>f \<in> F. good f \<and> (\<forall>Q. length Q \<le> D \<longrightarrow> tab_at nx rd root Q \<noteq> Some f))"

text \<open>The two walks end alike: at the same entry, or both at one that maps nothing.\<close>

definition same_leaf :: "nat \<times> 'e \<Rightarrow> nat \<times> 'e \<Rightarrow> bool" where
  "same_leaf x y \<longleftrightarrow> x = y \<or> (dead (snd x) \<and> dead (snd y))"

definition same_leaves :: "nat \<Rightarrow> (u64 \<Rightarrow> nat \<Rightarrow> 'e) \<Rightarrow> (u64 \<Rightarrow> nat \<Rightarrow> 'e) \<Rightarrow> u64 \<Rightarrow> bool" where
  "same_leaves D rd rd' root \<longleftrightarrow> (\<forall>Q. length Q = Suc D \<longrightarrow> same_leaf (stop_entry nx rd root Q) (stop_entry nx rd' root Q))"

lemma same_leaves_refl [simp]: "same_leaves D rd rd root"
  by (simp add: same_leaves_def same_leaf_def)

lemma same_leaves_trans: "same_leaves D rd rd' root \<Longrightarrow> same_leaves D rd' rd'' root \<Longrightarrow> same_leaves D rd rd'' root"
  unfolding same_leaves_def same_leaf_def by metis

lemma tree_inj: "tree D rd root \<Longrightarrow> tab_at nx rd root P = Some p \<Longrightarrow> tab_at nx rd root Q = Some p \<Longrightarrow>
    length P \<le> D \<Longrightarrow> length Q \<le> D \<Longrightarrow> P = Q"
  by (auto simp: tree_def)

text \<open>A walk depends only on the entries it reads.\<close>

lemma tab_at_cong:
  assumes "\<And>R q j S. Q = R @ j # S \<Longrightarrow> tab_at nx rd root R = Some q \<Longrightarrow> rd' q j = rd q j"
  shows "tab_at nx rd' root Q = tab_at nx rd root Q"
  using assms
proof (induction Q arbitrary: root)
  case (Cons i Q)
  have "rd' root i = rd root i" using Cons.prems [of "[]" i Q root] by simp
  moreover have "tab_at nx rd' q Q = tab_at nx rd q Q" if "nx (rd root i) = Some q" for q
    using Cons.prems [of "i # R" for R] that by (intro Cons.IH) force
  ultimately show ?case by (auto split: option.splits)
qed simp

lemma stop_entry_cong:
  assumes "Q \<noteq> []" and "\<And>R q j S. Q = R @ j # S \<Longrightarrow> tab_at nx rd root R = Some q \<Longrightarrow> rd' q j = rd q j"
  shows "stop_entry nx rd' root Q = stop_entry nx rd root Q"
  using assms
proof (induction nx rd root Q rule: stop_entry.induct)
  case (1 nx rd p i)
  then show ?case using "1.prems"(2) [of "[]" i "[]"] by simp
next
  case (2 nx' rd p i j "is")
  have "rd' p i = rd p i" using "2.prems"(2) [of "[]" i "j # is"] by simp
  moreover have "stop_entry nx' rd' q (j # is) = stop_entry nx' rd q (j # is)" if "nx' (rd p i) = Some q" for q
    using that "2.prems"(2) [of "i # R" for R] by (intro "2.IH") force+
  ultimately show ?case by (auto split: option.splits)
qed simp

text \<open>One entry changes: walks that never read it are the same.\<close>

lemma write_unread:
  assumes "tree D rd root" and "tab_at nx rd root P = Some p" and "length P \<le> D"
    and "length Q \<le> Suc D" and "\<nexists>S. Q = P @ i # S"
    and "Q = R @ j # S" and "tab_at nx rd root R = Some q"
  shows "(rd(p := (rd p)(i := e))) q j = rd q j"
proof -
  have "\<not> (q = p \<and> j = i)"
  proof
    assume "q = p \<and> j = i"
    then have "R = P" using tree_inj [OF assms(1) assms(7) _ _ assms(3)] assms(2,4,6) by auto
    then show False using assms(5,6) \<open>q = p \<and> j = i\<close> by auto
  qed
  then show ?thesis by auto
qed

lemma write_other:
  assumes "tree D rd root" and "tab_at nx rd root P = Some p" and "length P \<le> D" and "\<nexists>S. Q = P @ i # S"
  shows "length Q \<le> Suc D \<Longrightarrow> tab_at nx (rd(p := (rd p)(i := e))) root Q = tab_at nx rd root Q"
    and "length Q = Suc D \<Longrightarrow> stop_entry nx (rd(p := (rd p)(i := e))) root Q = stop_entry nx rd root Q"
proof -
  show "length Q \<le> Suc D \<Longrightarrow> tab_at nx (rd(p := (rd p)(i := e))) root Q = tab_at nx rd root Q"
    using write_unread [OF assms(1-3) _ assms(4)] by (intro tab_at_cong) blast
  show "length Q = Suc D \<Longrightarrow> stop_entry nx (rd(p := (rd p)(i := e))) root Q = stop_entry nx rd root Q"
    using write_unread [OF assms(1-3) _ assms(4)] by (intro stop_entry_cong) auto
qed

lemma leaf_write:
  fixes i :: nat and e :: 'e
  assumes "tree D rd root" and "tab_at nx rd root P = Some p" and "length P = D"
  defines "rd' \<equiv> rd(p := (rd p)(i := e))"
  shows "tree D rd' root"
    and "outside D rd root F \<Longrightarrow> outside D rd' root F"
    and "stop_entry nx rd' root (P @ [i]) = (0, e)"
    and "length Q = Suc D \<Longrightarrow> Q \<noteq> P @ [i] \<Longrightarrow> stop_entry nx rd' root Q = stop_entry nx rd root Q"
proof -
  have same: "tab_at nx rd' root Q = tab_at nx rd root Q" if "length Q \<le> D" for Q
    unfolding rd'_def using that assms(3) by (intro write_other(1) [OF assms(1,2)]) auto
  then show "tree D rd' root" "outside D rd root F \<Longrightarrow> outside D rd' root F"
    using assms(1) by (auto simp: tree_def outside_def)
  have "tab_at nx rd' root P = Some p" using same [of P] assms(2,3) by simp
  then show "stop_entry nx rd' root (P @ [i]) = (0, e)" by (simp add: stop_entry_append rd'_def)
  show "stop_entry nx rd' root Q = stop_entry nx rd root Q" if "length Q = Suc D" "Q \<noteq> P @ [i]"
    unfolding rd'_def using that assms(3) by (intro write_other(2) [OF assms(1,2)]) auto
qed

text \<open>A fresh table is linked in below an entry that mapped nothing.\<close>

lemma link_write:
  fixes i :: nat and f :: u64
  assumes t: "tree D rd root" and p: "tab_at nx rd root P = Some p" "length P < D" "dead (rd p i)"
    and out: "outside D rd root F" "f \<in> F"
  defines "rd' \<equiv> (rd(f := \<lambda>_. zero))(p := (rd p)(i := link f))"
  shows "tree D rd' root" and "outside D rd' root (F - {f})" and "tab_at nx rd' root (P @ [i]) = Some f"
    and "same_leaves D rd rd' root"
proof -
  let ?z = "rd(f := \<lambda>_. zero)"
  have nf: "tab_at nx rd root Q \<noteq> Some f" if "length Q \<le> D" for Q using out that by (auto simp: outside_def)
  have fp: "f \<noteq> p" using nf [of P] p by auto
  have z: "tab_at nx ?z root Q = tab_at nx rd root Q" if "length Q \<le> Suc D" for Q
    using that nf by (intro tab_at_cong) (metis fun_upd_other length_append length_Cons not_less_eq_eq nat_le_linear add_Suc_right Suc_leD le_add1 le_trans)
  have zs: "stop_entry nx ?z root Q = stop_entry nx rd root Q" if "length Q = Suc D" for Q
    using that nf by (intro stop_entry_cong) auto
  have tz: "tree D ?z root" using t z unfolding tree_def by (metis le_SucI)
  have pz: "tab_at nx ?z root P = Some p" using p z by simp
  have rd': "rd' = ?z(p := (?z p)(i := link f))" using fp by (simp add: rd'_def)
  have pre: "tab_at nx rd' root P = Some p"
    unfolding rd' using p(2) pz by (subst write_other(1) [OF tz pz]) auto
  have fz: "rd' f k = zero" for k using fp by (simp add: rd'_def)
  have gf: "good f" using out by (auto simp: outside_def)
  have ent: "rd' p i = link f" by (simp add: rd'_def)
  have below: "tab_at nx rd' root (P @ i # S) = (if S = [] then Some f else None)" for S
    using pre ent nx_link [OF gf] fz dead_nx [OF dead_zero] by (cases S) (simp_all add: tab_at_append)
  have other: "tab_at nx rd' root Q = tab_at nx rd root Q" if "length Q \<le> D" "\<nexists>S. Q = P @ i # S" for Q
    unfolding rd' using that p(2) z [of Q] by (subst write_other(1) [OF tz pz]) auto
  show "tab_at nx rd' root (P @ [i]) = Some f" by (simp add: below)
  show "tree D rd' root"
    unfolding tree_def
  proof (intro allI impI)
    fix Q R q
    assume a: "length Q \<le> D \<and> length R \<le> D \<and> tab_at nx rd' root Q = Some q \<and> tab_at nx rd' root R = Some q"
    then have "(\<exists>S. Q = P @ i # S) \<longrightarrow> q = f \<and> Q = P @ [i]" "(\<exists>S. R = P @ i # S) \<longrightarrow> q = f \<and> R = P @ [i]"
      by (auto simp: below split: if_splits)
    moreover have "(\<nexists>S. Q = P @ i # S) \<longrightarrow> tab_at nx rd root Q = Some q" "(\<nexists>S. R = P @ i # S) \<longrightarrow> tab_at nx rd root R = Some q"
      using a other by metis+
    ultimately show "Q = R" using nf a tree_inj [OF t] by metis
  qed
  show "outside D rd' root (F - {f})"
    using out(1) other below unfolding outside_def by (metis Diff_iff option.inject option.discI singletonI)
  show "same_leaves D rd rd' root"
    unfolding same_leaves_def
  proof (intro allI impI)
    fix Q :: "nat list" assume len: "length Q = Suc D"
    show "same_leaf (stop_entry nx rd root Q) (stop_entry nx rd' root Q)"
    proof (cases "\<exists>S. Q = P @ i # S")
      case False
      then have "stop_entry nx rd' root Q = stop_entry nx ?z root Q"
        unfolding rd' using len p(2) by (intro write_other(2) [OF tz pz]) auto
      then show ?thesis using zs [OF len] by (simp add: same_leaf_def)
    next
      case True
      then obtain S where "Q = P @ i # S" by blast
      then obtain k S' where Q: "Q = P @ i # k # S'" using len p(2) by (cases S) auto
      have "stop_entry nx rd root Q = (Suc (length S'), rd p i)"
        using p dead_nx [OF p(3)] by (simp add: Q stop_entry_append)
      moreover have "stop_entry nx rd' root Q = stop_entry nx rd' f (k # S')"
        using pre ent nx_link [OF gf] by (simp add: Q stop_entry_append)
      moreover have "snd (stop_entry nx rd' f (k # S')) = zero"
        using fz dead_nx [OF dead_zero] by (cases S') simp_all
      ultimately show ?thesis using p(3) dead_zero by (simp add: same_leaf_def)
    qed
  qed
qed

lemma outside_mono: "outside D rd root F \<Longrightarrow> G \<subseteq> F \<Longrightarrow> outside D rd root G"
  by (auto simp: outside_def)

end

end
