(* ===== verification/Vspace.thy ===== *)
theory Vspace
  imports Radix Mm
begin

text \<open>
  x86-64 four-level page tables (src/crates/vspace). Table memory is read by pointer and index,
  the pointer being the physical address plus the offset of the address space; the frame
  allocator is an argument. The entry format is interpreted as the links of a radix tree, and over
  that the concrete walks refine a partial function from pages to entries.
\<close>

section \<open>Entries\<close>

definition ADDR_MASK :: u64 where "ADDR_MASK = 0x000FFFFFFFFFF000"
definition FLAG_MASK :: u64 where "FLAG_MASK = NOT ADDR_MASK"

type_synonym PageFlags = u64

definition PRESENT :: PageFlags where "PRESENT = push_bit 0 1"
definition WRITABLE :: PageFlags where "WRITABLE = push_bit 1 1"
definition USER :: PageFlags where "USER = push_bit 2 1"
definition HUGE :: PageFlags where "HUGE = push_bit 7 1"
definition NO_EXEC :: PageFlags where "NO_EXEC = push_bit 63 1"
definition NO_CACHE :: PageFlags where "NO_CACHE = push_bit 3 1 OR push_bit 4 1"

definition PageFlags_empty :: PageFlags where "PageFlags_empty = 0"

definition from_bits_truncate :: "u64 \<Rightarrow> PageFlags" where
  "from_bits_truncate b = b AND FLAG_MASK"

definition PageFlags_contains :: "PageFlags \<Rightarrow> PageFlags \<Rightarrow> bool" where
  "PageFlags_contains x other \<longleftrightarrow> x AND other = other"

definition PageFlags_union :: "PageFlags \<Rightarrow> PageFlags \<Rightarrow> PageFlags" where
  "PageFlags_union x other = x OR other"

definition PageFlags_not :: "PageFlags \<Rightarrow> PageFlags" where
  "PageFlags_not x = NOT x AND FLAG_MASK"

type_synonym PageTableEntry = u64

definition PTE_EMPTY :: PageTableEntry where "PTE_EMPTY = 0"

definition PTE_new :: "PhysAddr \<Rightarrow> PageFlags \<Rightarrow> PageTableEntry" where
  "PTE_new pa flags = (pa AND ADDR_MASK) OR (flags AND FLAG_MASK)"

definition PTE_addr :: "PageTableEntry \<Rightarrow> PhysAddr" where
  "PTE_addr e = e AND ADDR_MASK"

definition PTE_flags :: "PageTableEntry \<Rightarrow> PageFlags" where
  "PTE_flags e = e AND FLAG_MASK"

definition is_present :: "PageTableEntry \<Rightarrow> bool" where
  "is_present e \<longleftrightarrow> e AND PRESENT \<noteq> 0"

definition is_huge :: "PageTableEntry \<Rightarrow> bool" where
  "is_huge e \<longleftrightarrow> e AND HUGE \<noteq> 0"

text \<open>A page table is a function from its 512 indices to entries.\<close>

definition PageTable_new :: "nat \<Rightarrow> PageTableEntry" where
  "PageTable_new = (\<lambda>_. PTE_EMPTY)"

datatype MapError = UnalignedVirt | UnalignedPhys | OutOfFrames | AlreadyMapped | HugePagePresent

section \<open>Address spaces\<close>

record AddressSpace =
  pml4 :: PhysAddr
  phys_offset :: u64

definition AddressSpace_new :: "PhysAddr \<Rightarrow> u64 \<Rightarrow> AddressSpace" where
  "AddressSpace_new pml4_phys off = \<lparr>pml4 = pml4_phys, phys_offset = off\<rparr>"

definition table_ptr :: "AddressSpace \<Rightarrow> PhysAddr \<Rightarrow> u64" where
  "table_ptr sp pa = phys_offset sp + pa"

definition read_entry :: "AddressSpace \<Rightarrow> ptmem \<Rightarrow> PhysAddr \<Rightarrow> usize \<Rightarrow> PageTableEntry" where
  "read_entry sp mem table_pa idx = mem (table_ptr sp table_pa) idx"

definition write_entry :: "AddressSpace \<Rightarrow> PhysAddr \<Rightarrow> usize \<Rightarrow> PageTableEntry \<Rightarrow> ptmem \<Rightarrow> ptmem" where
  "write_entry sp table_pa idx e mem =
     mem(table_ptr sp table_pa := (mem (table_ptr sp table_pa))(idx := e))"

definition AddressSpace_create ::
    "('s \<Rightarrow> u64 option \<times> 's) \<Rightarrow> u64 \<Rightarrow> ptmem \<times> 's \<Rightarrow> AddressSpace option \<times> ptmem \<times> 's" where
  "AddressSpace_create fa off = (\<lambda>(mem, s).
     case fa s of
       (None, s') \<Rightarrow> (None, mem, s')
     | (Some root, s') \<Rightarrow>
         let space = AddressSpace_new root off
         in (Some space, mem(table_ptr space root := PageTable_new), s'))"

text \<open>The loop of map over the three upper levels: the table of the leaf, creating links.\<close>

fun map_descend ::
    "('s \<Rightarrow> u64 option \<times> 's) \<Rightarrow> AddressSpace \<Rightarrow> VirtAddr \<Rightarrow> nat list \<Rightarrow> PhysAddr \<Rightarrow> ptmem \<times> 's
     \<Rightarrow> (MapError + PhysAddr) \<times> ptmem \<times> 's" where
  "map_descend fa sp va [] table_pa st = (Inr table_pa, st)"
| "map_descend fa sp va (level # levels) table_pa (mem, s) =
     (let idx = table_index va level; entry = read_entry sp mem table_pa idx
      in if is_present entry
         then if is_huge entry then (Inl HugePagePresent, mem, s)
              else map_descend fa sp va levels (PTE_addr entry) (mem, s)
         else case fa s of
                (None, s') \<Rightarrow> (Inl OutOfFrames, mem, s')
              | (Some frame, s') \<Rightarrow>
                  let mem1 = mem(table_ptr sp frame := PageTable_new);
                      link = PTE_new frame (PRESENT OR WRITABLE OR USER);
                      mem2 = write_entry sp table_pa idx link mem1
                  in map_descend fa sp va levels frame (mem2, s'))"

definition AddressSpace_map ::
    "('s \<Rightarrow> u64 option \<times> 's) \<Rightarrow> AddressSpace \<Rightarrow> VirtAddr \<Rightarrow> PhysAddr \<Rightarrow> PageFlags \<Rightarrow> ptmem \<times> 's
     \<Rightarrow> (MapError + unit) \<times> ptmem \<times> 's" where
  "AddressSpace_map fa sp va pa flags = (\<lambda>(mem, s).
     if \<not> is_page_aligned va then (Inl UnalignedVirt, mem, s)
     else if \<not> is_page_aligned pa then (Inl UnalignedPhys, mem, s)
     else case map_descend fa sp va [3, 2, 1] (pml4 sp) (mem, s) of
            (Inl err, mem', s') \<Rightarrow> (Inl err, mem', s')
          | (Inr table_pa, mem', s') \<Rightarrow>
              let idx = table_index va 0; leaf = read_entry sp mem' table_pa idx
              in if is_present leaf then (Inl AlreadyMapped, mem', s')
                 else (Inr (), write_entry sp table_pa idx (PTE_new pa (flags OR PRESENT)) mem', s'))"

text \<open>The loop of unmap: the table of the leaf, or None at a missing link or a huge page.\<close>

fun unmap_descend :: "AddressSpace \<Rightarrow> VirtAddr \<Rightarrow> ptmem \<Rightarrow> nat list \<Rightarrow> PhysAddr \<Rightarrow> PhysAddr option" where
  "unmap_descend sp va mem [] table_pa = Some table_pa"
| "unmap_descend sp va mem (level # levels) table_pa =
     (let entry = read_entry sp mem table_pa (table_index va level)
      in if \<not> is_present entry \<or> is_huge entry then None
         else unmap_descend sp va mem levels (PTE_addr entry))"

definition AddressSpace_unmap :: "AddressSpace \<Rightarrow> VirtAddr \<Rightarrow> ptmem \<Rightarrow> PhysAddr option \<times> ptmem" where
  "AddressSpace_unmap sp va mem =
     (case unmap_descend sp va mem [3, 2, 1] (pml4 sp) of
        None \<Rightarrow> (None, mem)
      | Some table_pa \<Rightarrow>
          let idx = table_index va 0; leaf = read_entry sp mem table_pa idx
          in if \<not> is_present leaf then (None, mem)
             else (Some (PTE_addr leaf), write_entry sp table_pa idx PTE_EMPTY mem))"

fun leaf_flags_walk :: "AddressSpace \<Rightarrow> VirtAddr \<Rightarrow> ptmem \<Rightarrow> nat list \<Rightarrow> PhysAddr \<Rightarrow> PageFlags option" where
  "leaf_flags_walk sp va mem [] table_pa = None"
| "leaf_flags_walk sp va mem (level # levels) table_pa =
     (let entry = read_entry sp mem table_pa (table_index va level)
      in if \<not> is_present entry then None
         else if level = 0 \<or> is_huge entry then Some (PTE_flags entry)
         else leaf_flags_walk sp va mem levels (PTE_addr entry))"

definition leaf_flags :: "AddressSpace \<Rightarrow> VirtAddr \<Rightarrow> ptmem \<Rightarrow> PageFlags option" where
  "leaf_flags sp va mem = leaf_flags_walk sp va mem [3, 2, 1, 0] (pml4 sp)"

fun translate_walk :: "AddressSpace \<Rightarrow> VirtAddr \<Rightarrow> ptmem \<Rightarrow> nat list \<Rightarrow> PhysAddr \<Rightarrow> PhysAddr option" where
  "translate_walk sp va mem [] table_pa = None"
| "translate_walk sp va mem (level # levels) table_pa =
     (let entry = read_entry sp mem table_pa (table_index va level)
      in if \<not> is_present entry then None
         else if level = 0 then Some (PTE_addr entry + (va AND (PAGE_SIZE - 1)))
         else if is_huge entry
         then let page_shift = 12 + 9 * level;
                  page_mask = push_bit page_shift 1 - 1;
                  base = PTE_addr entry AND NOT page_mask;
                  offset = va AND page_mask
              in Some (base + offset)
         else translate_walk sp va mem levels (PTE_addr entry))"

definition translate :: "AddressSpace \<Rightarrow> VirtAddr \<Rightarrow> ptmem \<Rightarrow> PhysAddr option" where
  "translate sp va mem = translate_walk sp va mem [3, 2, 1, 0] (pml4 sp)"

section \<open>The entry format\<close>

lemma ADDR_MASK_bit: "bit ADDR_MASK i \<longleftrightarrow> 12 \<le> i \<and> i < 52"
proof -
  have m: "ADDR_MASK = mask 52 AND NOT (mask 12)" by (simp add: ADDR_MASK_def mask_eq_exp_minus_1)
  show ?thesis unfolding m by (auto simp: bit_simps)
qed

lemma PTE_new_bit:
  "bit (PTE_new pa flags) i \<longleftrightarrow> i < 64 \<and> (if 12 \<le> i \<and> i < 52 then bit pa i else bit flags i)"
  by (auto simp: PTE_new_def FLAG_MASK_def bit_simps ADDR_MASK_bit dest: bit_imp_le_length)

lemma is_present_bit: "is_present e \<longleftrightarrow> bit e 0"
  using and_exp_eq_0_iff_not_bit [of e 0] by (simp add: is_present_def PRESENT_def)

lemma is_huge_bit: "is_huge e \<longleftrightarrow> bit e 7"
  using and_exp_eq_0_iff_not_bit [of e 7] by (simp add: is_huge_def HUGE_def push_bit_of_1)

lemma flag_bits: "bit PRESENT i \<longleftrightarrow> i = 0" "bit (PRESENT OR WRITABLE OR USER) i \<longleftrightarrow> i = 0 \<or> i = 1 \<or> i = 2"
  unfolding PRESENT_def WRITABLE_def USER_def push_bit_of_1 bit_or_iff bit_exp_iff possible_bit_word by auto

lemma PTE_new_addr: "PTE_addr (PTE_new pa flags) = pa AND ADDR_MASK"
  by (rule bit_word_eqI) (auto simp: PTE_addr_def bit_and_iff PTE_new_bit ADDR_MASK_bit)

lemma PTE_new_flags: "PTE_flags (PTE_new pa flags) = from_bits_truncate flags"
  by (rule bit_word_eqI) (auto simp: PTE_flags_def from_bits_truncate_def FLAG_MASK_def bit_and_iff bit_not_iff PTE_new_bit ADDR_MASK_bit)

lemma PTE_new_present: "is_present (PTE_new pa (flags OR PRESENT))"
  by (simp add: is_present_bit PTE_new_bit bit_or_iff flag_bits)

definition next_table :: "PageTableEntry \<Rightarrow> u64 option" where
  "next_table e = (if is_present e \<and> \<not> is_huge e then Some (PTE_addr e) else None)"

definition link_entry :: "u64 \<Rightarrow> PageTableEntry" where
  "link_entry f = PTE_new f (PRESENT OR WRITABLE OR USER)"

definition table_frame :: "u64 \<Rightarrow> bool" where
  "table_frame f \<longleftrightarrow> f AND ADDR_MASK = f"

lemma next_link: "table_frame f \<Longrightarrow> next_table (link_entry f) = Some f"
  by (simp add: next_table_def link_entry_def is_present_bit is_huge_bit PTE_new_bit flag_bits PTE_new_addr table_frame_def)

interpretation x86: radix next_table "\<lambda>e. \<not> is_present e" 0 link_entry table_frame
proof
  show "next_table (link_entry f) = Some f" if "table_frame f" for f by (rule next_link [OF that])
qed (simp_all add: next_table_def is_present_bit)

section \<open>The memory of one address space\<close>

definition view :: "AddressSpace \<Rightarrow> ptmem \<Rightarrow> u64 \<Rightarrow> nat \<Rightarrow> PageTableEntry" where
  "view sp mem = read_entry sp mem"

lemma view_simps [simp]:
  "read_entry sp mem = view sp mem"
  "view sp (write_entry sp p i e mem) = (view sp mem)(p := (view sp mem p)(i := e))"
  "view sp (mem(table_ptr sp f := PageTable_new)) = (view sp mem)(f := \<lambda>_. 0)"
  by (auto simp: view_def fun_eq_iff read_entry_def write_entry_def table_ptr_def PageTable_new_def PTE_EMPTY_def)

definition space_ok :: "AddressSpace \<Rightarrow> ptmem \<Rightarrow> u64 set \<Rightarrow> bool" where
  "space_ok sp mem F \<longleftrightarrow> x86.tree 3 (view sp mem) (pml4 sp) \<and> x86.outside 3 (view sp mem) (pml4 sp) F"

definition va_path :: "VirtAddr \<Rightarrow> nat list" where
  "va_path va = map (table_index va) [3, 2, 1, 0]"

text \<open>What a stopped walk means.\<close>

definition decode :: "VirtAddr \<Rightarrow> nat \<times> PageTableEntry \<Rightarrow> PhysAddr option" where
  "decode va = (\<lambda>(level, e).
     if \<not> is_present e then None
     else if level = 0 then Some (PTE_addr e + (va AND (PAGE_SIZE - 1)))
     else let page_mask = push_bit (12 + 9 * level) 1 - 1
          in Some ((PTE_addr e AND NOT page_mask) + (va AND page_mask)))"

lemma translate_eq: "translate sp va mem = decode va (stop_entry next_table (view sp mem) (pml4 sp) (va_path va))"
  by (auto simp: translate_def va_path_def decode_def next_table_def Let_def split: option.splits)

lemma leaf_flags_eq:
  "leaf_flags sp va mem = (let (level, e) = stop_entry next_table (view sp mem) (pml4 sp) (va_path va)
     in if is_present e then Some (PTE_flags e) else None)"
  by (auto simp: leaf_flags_def va_path_def next_table_def Let_def split: option.splits)

lemma decode_dead: "\<not> is_present (snd x) \<Longrightarrow> decode va x = None"
  by (auto simp: decode_def split: prod.splits)

lemma decode_same_leaf: "x86.same_leaf x y \<Longrightarrow> decode va x = decode va y"
  by (auto simp: x86.same_leaf_def decode_def split: prod.splits)

section \<open>The loops refine walks of the tree\<close>

lemma map_descend_facts:
  assumes "fresh_source ok avail fa" and "ok s" and "space_ok sp mem (avail s)"
    and "tab_at next_table (view sp mem) (pml4 sp) P = Some p" and "length P + length levels = 3"
    and "map_descend fa sp va levels p (mem, s) = (r, mem', s')"
  shows "ok s' \<and> space_ok sp mem' (avail s') \<and> x86.same_leaves 3 (view sp mem) (view sp mem') (pml4 sp)
    \<and> (\<forall>q. r = Inr q \<longrightarrow> tab_at next_table (view sp mem') (pml4 sp) (P @ map (table_index va) levels) = Some q)"
  using assms(2-6)
proof (induction levels arbitrary: P p mem s)
  case Nil
  then show ?case by auto
next
  case (Cons level levels)
  let ?i = "table_index va level" and ?rd = "view sp mem" and ?root = "pml4 sp"
  let ?e = "?rd p ?i"
  show ?case
  proof (cases "is_present ?e")
    case True
    show ?thesis
    proof (cases "is_huge ?e")
      case True
      then show ?thesis using Cons.prems \<open>is_present ?e\<close> by (auto simp: Let_def)
    next
      case False
      have "tab_at next_table ?rd ?root (P @ [?i]) = Some (PTE_addr ?e)"
      proof -
        have "next_table ?e = Some (PTE_addr ?e)" using True False by (simp add: next_table_def)
        then show ?thesis using Cons.prems(3) by (simp add: tab_at_snoc)
      qed
      moreover have "map_descend fa sp va levels (PTE_addr ?e) (mem, s) = (r, mem', s')"
        using Cons.prems(5) True False by (simp add: Let_def)
      ultimately show ?thesis using Cons.IH [OF Cons.prems(1,2), of "P @ [?i]" "PTE_addr ?e"] Cons.prems(4) by simp
    qed
  next
    case False
    obtain a s1 where fa: "fa s = (a, s1)" by (cases "fa s")
    show ?thesis
    proof (cases a)
      case None
      then have "ok s1" "avail s1 \<subseteq> avail s" using fresh_source_None [OF assms(1) Cons.prems(1)] fa by auto
      then show ?thesis using Cons.prems(2,5) False fa None
        by (auto simp: Let_def space_ok_def intro: x86.outside_mono)
    next
      case (Some f)
      let ?rd1 = "(?rd(f := \<lambda>_. 0))(p := (?rd p)(?i := link_entry f))"
      let ?mem1 = "write_entry sp p ?i (link_entry f) (mem(table_ptr sp f := PageTable_new))"
      have src: "ok s1" "f \<in> avail s" "avail s1 \<subseteq> avail s - {f}"
        using fresh_source_Some [OF assms(1) Cons.prems(1)] fa Some by auto
      have t: "x86.tree 3 ?rd ?root" "x86.outside 3 ?rd ?root (avail s)" using Cons.prems(2) by (auto simp: space_ok_def)
      have len: "length P < 3" using Cons.prems(4) by simp
      note lw = x86.link_write [OF t(1) Cons.prems(3) len False t(2) src(2)]
      have ne: "f \<noteq> p" using t(2) src(2) Cons.prems(3) len by (auto simp: x86.outside_def)
      have v: "view sp ?mem1 = ?rd1" using ne by simp
      have step: "map_descend fa sp va levels f (?mem1, s1) = (r, mem', s')"
        using Cons.prems(5) False fa Some by (simp add: Let_def link_entry_def)
      have sp1: "space_ok sp ?mem1 (avail s1)"
        unfolding space_ok_def v using lw(1,2) src(3) x86.outside_mono by blast
      have tab1: "tab_at next_table (view sp ?mem1) ?root (P @ [?i]) = Some f" unfolding v by (rule lw(3))
      have sl: "x86.same_leaves 3 ?rd (view sp ?mem1) ?root" unfolding v by (rule lw(4))
      have "length (P @ [?i]) + length levels = 3" using Cons.prems(4) by simp
      note ih = Cons.IH [OF src(1) sp1 tab1 this step]
      have "x86.same_leaves 3 ?rd (view sp mem') ?root" using ih by (blast intro: x86.same_leaves_trans [OF sl])
      then show ?thesis using ih by simp
    qed
  qed
qed

lemma unmap_descend_tab:
  "unmap_descend sp va mem levels p = tab_at next_table (view sp mem) p (map (table_index va) levels)"
  by (induction levels arbitrary: p) (auto simp: Let_def next_table_def)

lemma va_path_split: "va_path va = map (table_index va) [3, 2, 1] @ [table_index va 0]"
  by (simp add: va_path_def)

lemma walk_leaf:
  assumes "tab_at next_table rd root (map (table_index va) [3, 2, 1]) = Some q"
  shows "stop_entry next_table rd root (va_path va) = (0, rd q (table_index va 0))"
  unfolding va_path_split by (subst stop_entry_append [OF _ assms]) simp_all

lemma offset_aligned: "is_page_aligned va \<Longrightarrow> va AND (PAGE_SIZE - 1) = 0"
  by (simp add: is_page_aligned_def)

lemma map_facts:
  assumes "fresh_source ok avail fa" and "ok s" and "space_ok sp mem (avail s)"
    and "AddressSpace_map fa sp va pa flags (mem, s) = (r, mem', s')"
  shows "ok s'" and "space_ok sp mem' (avail s')"
    and "r = Inl e \<Longrightarrow> x86.same_leaves 3 (view sp mem) (view sp mem') (pml4 sp)"
    and "r = Inr () \<Longrightarrow> stop_entry next_table (view sp mem') (pml4 sp) (va_path va) = (0, PTE_new pa (flags OR PRESENT))
       \<and> \<not> is_present (snd (stop_entry next_table (view sp mem) (pml4 sp) (va_path va)))
       \<and> is_page_aligned va \<and> is_page_aligned pa
       \<and> (\<forall>Q. length Q = 4 \<and> Q \<noteq> va_path va \<longrightarrow>
            x86.same_leaf (stop_entry next_table (view sp mem) (pml4 sp) Q) (stop_entry next_table (view sp mem') (pml4 sp) Q))"
proof -
  let ?root = "pml4 sp" and ?i = "table_index va 0"
  consider (unal) "mem' = mem" "s' = s" "\<exists>e. r = Inl e"
    | (walk) "is_page_aligned va" "is_page_aligned pa" using assms(4)
    by (cases "is_page_aligned va"; cases "is_page_aligned pa") (auto simp: AddressSpace_map_def)
  then have "ok s' \<and> space_ok sp mem' (avail s')
    \<and> (\<forall>e. r = Inl e \<longrightarrow> x86.same_leaves 3 (view sp mem) (view sp mem') ?root)
    \<and> (r = Inr () \<longrightarrow> stop_entry next_table (view sp mem') ?root (va_path va) = (0, PTE_new pa (flags OR PRESENT))
       \<and> \<not> is_present (snd (stop_entry next_table (view sp mem) ?root (va_path va)))
       \<and> is_page_aligned va \<and> is_page_aligned pa
       \<and> (\<forall>Q. length Q = 4 \<and> Q \<noteq> va_path va \<longrightarrow>
            x86.same_leaf (stop_entry next_table (view sp mem) ?root Q) (stop_entry next_table (view sp mem') ?root Q)))"
  proof cases
    case unal
    then show ?thesis using assms by auto
  next
    case walk
    obtain d mem1 s1 where d: "map_descend fa sp va [3, 2, 1] ?root (mem, s) = (d, mem1, s1)" by (metis prod_cases3)
    note f = map_descend_facts [OF assms(1-3), of "[]" ?root "[3, 2, 1]", OF _ _ d, simplified]
    show ?thesis
    proof (cases d)
      case (Inl e)
      then show ?thesis using f assms(4) walk d by (auto simp: AddressSpace_map_def)
    next
      case (Inr q)
      let ?leaf = "view sp mem1 q ?i"
      have q: "tab_at next_table (view sp mem1) ?root (map (table_index va) [3, 2, 1]) = Some q" using f Inr by simp
      note sl = walk_leaf [OF q]
      have before: "x86.same_leaf (stop_entry next_table (view sp mem) ?root Q) (stop_entry next_table (view sp mem1) ?root Q)"
        if "length Q = 4" for Q using f that by (simp add: x86.same_leaves_def)
      show ?thesis
      proof (cases "is_present ?leaf")
        case True
        then show ?thesis using f assms(4) walk d Inr by (auto simp: AddressSpace_map_def Let_def)
      next
        case False
        have t: "x86.tree 3 (view sp mem1) ?root" "x86.outside 3 (view sp mem1) ?root (avail s1)"
          using f by (auto simp: space_ok_def)
        note lw = x86.leaf_write [OF t(1) q, where i = ?i and e = "PTE_new pa (flags OR PRESENT)"]
        have m: "mem' = write_entry sp q ?i (PTE_new pa (flags OR PRESENT)) mem1" "s' = s1" "r = Inr ()"
          using assms(4) walk d Inr False by (auto simp: AddressSpace_map_def Let_def)
        have nl: "\<not> is_present (snd (stop_entry next_table (view sp mem) ?root (va_path va)))"
          using before [of "va_path va"] sl False by (auto simp: x86.same_leaf_def va_path_def)
        show ?thesis using f lw t(2) nl walk before m by (simp add: space_ok_def va_path_split)
      qed
    qed
  qed
  then show "ok s'" and "space_ok sp mem' (avail s')"
    and "r = Inl e \<Longrightarrow> x86.same_leaves 3 (view sp mem) (view sp mem') (pml4 sp)"
    and "r = Inr () \<Longrightarrow> stop_entry next_table (view sp mem') (pml4 sp) (va_path va) = (0, PTE_new pa (flags OR PRESENT))
       \<and> \<not> is_present (snd (stop_entry next_table (view sp mem) (pml4 sp) (va_path va)))
       \<and> is_page_aligned va \<and> is_page_aligned pa
       \<and> (\<forall>Q. length Q = 4 \<and> Q \<noteq> va_path va \<longrightarrow>
            x86.same_leaf (stop_entry next_table (view sp mem) (pml4 sp) Q) (stop_entry next_table (view sp mem') (pml4 sp) Q))"
    by blast+
qed

lemma unmap_facts:
  assumes "space_ok sp mem F" and "AddressSpace_unmap sp va mem = (r, mem')"
  shows "space_ok sp mem' F"
    and "r = None \<Longrightarrow> mem' = mem \<and> (\<forall>e. stop_entry next_table (view sp mem) (pml4 sp) (va_path va) = (0, e) \<longrightarrow> \<not> is_present e)"
    and "r = Some q \<Longrightarrow> (\<exists>e. stop_entry next_table (view sp mem) (pml4 sp) (va_path va) = (0, e) \<and> is_present e \<and> q = PTE_addr e)
       \<and> stop_entry next_table (view sp mem') (pml4 sp) (va_path va) = (0, 0)
       \<and> (\<forall>Q. length Q = 4 \<and> Q \<noteq> va_path va \<longrightarrow>
            stop_entry next_table (view sp mem') (pml4 sp) Q = stop_entry next_table (view sp mem) (pml4 sp) Q)"
proof -
  let ?root = "pml4 sp" and ?i = "table_index va 0" and ?rd = "view sp mem"
  have "space_ok sp mem' F
    \<and> (r = None \<longrightarrow> mem' = mem \<and> (\<forall>e. stop_entry next_table ?rd ?root (va_path va) = (0, e) \<longrightarrow> \<not> is_present e))
    \<and> (\<forall>q. r = Some q \<longrightarrow> (\<exists>e. stop_entry next_table ?rd ?root (va_path va) = (0, e) \<and> is_present e \<and> q = PTE_addr e)
       \<and> stop_entry next_table (view sp mem') ?root (va_path va) = (0, 0)
       \<and> (\<forall>Q. length Q = 4 \<and> Q \<noteq> va_path va \<longrightarrow> stop_entry next_table (view sp mem') ?root Q = stop_entry next_table ?rd ?root Q))"
  proof (cases "tab_at next_table ?rd ?root (map (table_index va) [3, 2, 1])")
    case None
    then have "r = None" "mem' = mem" using assms(2) by (auto simp: AddressSpace_unmap_def unmap_descend_tab)
    moreover have "fst (stop_entry next_table ?rd ?root (va_path va)) \<noteq> 0"
      using None by (auto simp: va_path_def split: option.splits)
    ultimately show ?thesis using assms(1) by auto
  next
    case (Some t)
    note sl = walk_leaf [OF Some]
    show ?thesis
    proof (cases "is_present (?rd t ?i)")
      case False
      then have "r = None" "mem' = mem" using assms(2) Some by (auto simp: AddressSpace_unmap_def unmap_descend_tab Let_def)
      then show ?thesis using assms(1) sl False by auto
    next
      case True
      then have m: "r = Some (PTE_addr (?rd t ?i))" "mem' = write_entry sp t ?i 0 mem"
        using assms(2) Some by (auto simp: AddressSpace_unmap_def unmap_descend_tab Let_def PTE_EMPTY_def)
      have tr: "x86.tree 3 ?rd ?root" "x86.outside 3 ?rd ?root F" using assms(1) by (auto simp: space_ok_def)
      note lw = x86.leaf_write [OF tr(1) Some, where i = ?i and e = 0]
      show ?thesis using lw tr(2) m sl True by (simp add: space_ok_def va_path_split)
    qed
  qed
  then show "space_ok sp mem' F"
    and "r = None \<Longrightarrow> mem' = mem \<and> (\<forall>e. stop_entry next_table (view sp mem) (pml4 sp) (va_path va) = (0, e) \<longrightarrow> \<not> is_present e)"
    and "r = Some q \<Longrightarrow> (\<exists>e. stop_entry next_table (view sp mem) (pml4 sp) (va_path va) = (0, e) \<and> is_present e \<and> q = PTE_addr e)
       \<and> stop_entry next_table (view sp mem') (pml4 sp) (va_path va) = (0, 0)
       \<and> (\<forall>Q. length Q = 4 \<and> Q \<noteq> va_path va \<longrightarrow>
            stop_entry next_table (view sp mem') (pml4 sp) Q = stop_entry next_table (view sp mem) (pml4 sp) Q)"
    by blast+
qed

text \<open>A zeroed root table starts an empty address space.\<close>

lemma empty_root:
  assumes "\<And>i. view sp mem (pml4 sp) i = 0" and "\<forall>f \<in> F. table_frame f \<and> f \<noteq> pml4 sp"
  shows "space_ok sp mem F" and "translate sp va mem = None"
proof -
  have tab: "tab_at next_table (view sp mem) (pml4 sp) Q = (if Q = [] then Some (pml4 sp) else None)" for Q
    by (cases Q) (simp_all add: assms(1) next_table_def is_present_bit)
  show "space_ok sp mem F" using assms(2) by (auto simp: space_ok_def x86.tree_def x86.outside_def tab split: if_splits)
  show "translate sp va mem = None"
    by (simp add: translate_eq va_path_def assms(1) next_table_def is_present_bit decode_def)
qed

text \<open>What a map does to every translation.\<close>

lemma map_outcome:
  assumes "fresh_source ok avail fa" and "ok s" and "space_ok sp mem (avail s)"
    and "AddressSpace_map fa sp va pa flags (mem, s) = (Inr (), mem', s')"
  shows "translate sp va mem = None
    \<and> (\<forall>va'. translate sp va' mem' =
         (if va_path va' = va_path va then Some ((pa AND ADDR_MASK) + (va' AND (PAGE_SIZE - 1))) else translate sp va' mem))
    \<and> leaf_flags sp va mem' = Some (from_bits_truncate (flags OR PRESENT))
    \<and> ok s' \<and> space_ok sp mem' (avail s')"
proof -
  note f = map_facts [OF assms]
  have len: "length (va_path va') = 4" for va' by (simp add: va_path_def)
  have "translate sp va' mem' = translate sp va' mem" if "va_path va' \<noteq> va_path va" for va'
    unfolding translate_eq using f(4) that len by (intro decode_same_leaf [symmetric]) auto
  moreover have "translate sp va' mem' = Some ((pa AND ADDR_MASK) + (va' AND (PAGE_SIZE - 1)))"
    if "va_path va' = va_path va" for va'
    using f(4) that by (simp add: translate_eq decode_def PTE_new_present PTE_new_addr)
  moreover have "leaf_flags sp va mem' = Some (from_bits_truncate (flags OR PRESENT))"
    using f(4) by (simp add: leaf_flags_eq PTE_new_present PTE_new_flags)
  moreover have "translate sp va mem = None"
    using f(4) by (simp add: translate_eq decode_dead)
  ultimately show ?thesis using f(1,2) by simp
qed

lemma map_failure:
  assumes "fresh_source ok avail fa" and "ok s" and "space_ok sp mem (avail s)"
    and "AddressSpace_map fa sp va pa flags (mem, s) = (Inl e, mem', s')"
  shows "translate sp va' mem' = translate sp va' mem \<and> ok s' \<and> space_ok sp mem' (avail s')"
proof -
  note f = map_facts [OF assms]
  have "translate sp va' mem' = translate sp va' mem"
  proof -
    have "length (va_path va') = Suc 3" by (simp add: va_path_def)
    then show ?thesis unfolding translate_eq using f(3) [OF refl] x86.same_leaves_def
      by (intro decode_same_leaf [symmetric]) blast
  qed
  then show ?thesis using f(1,2) by simp
qed

section \<open>Properties\<close>

text \<open>
  Entries round-trip: decoding an encoded entry gives back the address field and the flag
  field, neither bleeding into the other, and an entry written with PRESENT is present; for an
  address inside the field the round trip is exact.
\<close>

theorem entry_roundtrip:
  "PTE_addr (PTE_new pa flags) = pa AND ADDR_MASK \<and> PTE_flags (PTE_new pa flags) = from_bits_truncate flags
   \<and> is_present (PTE_new pa (flags OR PRESENT)) \<and> (is_huge (PTE_new pa flags) = is_huge flags)
   \<and> (table_frame pa \<longrightarrow> PTE_addr (PTE_new pa flags) = pa)"
  using PTE_new_addr PTE_new_flags PTE_new_present
  by (simp add: is_huge_bit PTE_new_bit table_frame_def)

theorem entry_roundtrip_witness: "PTE_addr (PTE_new 0x5000 (PRESENT OR WRITABLE)) = 0x5000"
  using entry_roundtrip [of "0x5000" "PRESENT OR WRITABLE"] by (simp add: table_frame_def ADDR_MASK_def)

text \<open>
  A successful map inserts exactly one page: with an allocator that hands out frames that are
  not tables of this space, the page was unmapped before, every address in it now translates into
  the given frame with the given flags, every other page translates as before, links created on the
  way notwithstanding, and tables of different paths still do not alias.
\<close>

theorem map_inserts_one_page:
  assumes "fresh_source ok avail fa" and "ok s" and "space_ok sp mem (avail s)"
    and "AddressSpace_map fa sp va pa flags (mem, s) = (Inr (), mem', s')"
  shows "translate sp va mem = None
    \<and> (\<forall>va'. translate sp va' mem' =
         (if va_path va' = va_path va then Some ((pa AND ADDR_MASK) + (va' AND (PAGE_SIZE - 1))) else translate sp va' mem))
    \<and> leaf_flags sp va mem' = Some (from_bits_truncate (flags OR PRESENT))
    \<and> ok s' \<and> space_ok sp mem' (avail s')"
  by (rule map_outcome [OF assms])

text \<open>
  A failed map changes no translation, even when it has already created intermediate tables
  before running out of frames.
\<close>

theorem failed_map_changes_nothing:
  assumes "fresh_source ok avail fa" and "ok s" and "space_ok sp mem (avail s)"
    and "AddressSpace_map fa sp va pa flags (mem, s) = (Inl e, mem', s')"
  shows "translate sp va' mem' = translate sp va' mem \<and> ok s' \<and> space_ok sp mem' (avail s')"
  by (rule map_failure [OF assms])

text \<open>
  Unmap removes exactly one page: it returns the frame the page's leaf named and afterwards the
  page does not translate while every other page translates as before; when it returns nothing the
  memory is unchanged and the page had no 4 KiB leaf.
\<close>

theorem unmap_removes_one_page:
  assumes "space_ok sp mem F" and "AddressSpace_unmap sp va mem = (r, mem')"
  shows "space_ok sp mem' F \<and> (case r of
      None \<Rightarrow> mem' = mem
    | Some pa \<Rightarrow> translate sp va mem = Some (pa + (va AND (PAGE_SIZE - 1)))
        \<and> (\<forall>va'. translate sp va' mem' = (if va_path va' = va_path va then None else translate sp va' mem)))"
proof (cases r)
  case None
  then show ?thesis using unmap_facts(1,2) [OF assms] by simp
next
  case (Some pa)
  note f = unmap_facts(3) [OF assms Some]
  have len: "length (va_path va') = 4" for va' by (simp add: va_path_def)
  have "translate sp va' mem' = translate sp va' mem" if "va_path va' \<noteq> va_path va" for va'
    using f that len by (simp add: translate_eq)
  moreover have "translate sp va' mem' = None" if "va_path va' = va_path va" for va'
    using f that by (simp add: translate_eq decode_def is_present_bit)
  moreover have "translate sp va mem = Some (pa + (va AND (PAGE_SIZE - 1)))"
    using f by (auto simp: translate_eq decode_def)
  ultimately show ?thesis using unmap_facts(1) [OF assms] Some by simp
qed

text \<open>
  A fresh address space is empty: create takes one frame from the allocator, zeroes it as the
  root, and in the resulting space no address translates and no table aliases an available frame;
  without a frame it fails and changes no memory.
\<close>

theorem create_is_empty:
  assumes "fresh_source ok avail fa" and "ok s" and "\<forall>f \<in> avail s. table_frame f"
    and "AddressSpace_create fa off (mem, s) = (r, mem', s')"
  shows "case r of None \<Rightarrow> mem' = mem \<and> fst (fa s) = None
    | Some sp \<Rightarrow> pml4 sp \<in> avail s \<and> phys_offset sp = off \<and> ok s' \<and> space_ok sp mem' (avail s') \<and> translate sp va mem' = None"
proof (cases "fa s")
  case (Pair a s1)
  show ?thesis
  proof (cases a)
    case None
    then show ?thesis using Pair assms(4) by (auto simp: AddressSpace_create_def)
  next
    case (Some root)
    let ?sp = "AddressSpace_new root off"
    have src: "ok s1" "root \<in> avail s" "avail s1 \<subseteq> avail s - {root}"
      using fresh_source_Some [OF assms(1,2)] Pair Some by auto
    have m: "r = Some ?sp" "mem' = mem(table_ptr ?sp root := PageTable_new)" "s' = s1"
      using Pair Some assms(4) by (auto simp: AddressSpace_create_def Let_def)
    have "pml4 ?sp = root" "phys_offset ?sp = off" by (simp_all add: AddressSpace_new_def)
    moreover have "view ?sp mem' (pml4 ?sp) i = 0" for i using m(2) by (simp add: AddressSpace_new_def)
    ultimately show ?thesis using m src empty_root [of ?sp mem' "avail s1"] assms(3) by auto
  qed
qed

section \<open>The bitmap allocator and a concrete space\<close>

lemma alloc_frame_fresh_source: "fresh_source ba_inv available alloc_frame"
proof -
  have "case alloc_frame a of (None, a') \<Rightarrow> ba_inv a' \<and> available a' \<subseteq> available a
      | (Some f, a') \<Rightarrow> ba_inv a' \<and> f \<in> available a \<and> available a' \<subseteq> available a - {f}" if "ba_inv a" for a
    using pools.alloc_None [of a False] pools.alloc_Some [of a False] that
    by (auto simp: alloc_pool_def split: prod.splits option.splits)
  then show ?thesis by (simp add: fresh_source_def)
qed

definition demo_space :: AddressSpace where
  "demo_space = AddressSpace_new 0x1000 0"

definition demo_mapped :: "(MapError + unit) \<times> ptmem \<times> u64 list" where
  "demo_mapped = AddressSpace_map list_source demo_space 0x40000000 0x9000 (WRITABLE OR USER)
     (\<lambda>_ _. 0, [0x2000, 0x3000, 0x4000])"

lemma demo_empty: "space_ok demo_space (\<lambda>_ _. 0) (set [0x2000, 0x3000, 0x4000])"
proof (rule empty_root(1))
  show "view demo_space (\<lambda>_ _. 0) (pml4 demo_space) i = 0" for i by (simp only: view_def read_entry_def)
qed (simp add: table_frame_def ADDR_MASK_def demo_space_def AddressSpace_new_def)

lemma demo_ok: "fst demo_mapped = Inr ()"
  by (simp add: demo_mapped_def AddressSpace_map_def is_page_aligned_def PAGE_SIZE_def Let_def list_source_def
      is_present_bit read_entry_def demo_space_def AddressSpace_new_def write_entry_def table_ptr_def
      PageTable_new_def PTE_EMPTY_def del: view_simps)

lemma demo_run: "AddressSpace_map list_source demo_space 0x40000000 0x9000 (WRITABLE OR USER)
    (\<lambda>_ _. 0, [0x2000, 0x3000, 0x4000]) = (Inr (), fst (snd demo_mapped), snd (snd demo_mapped))"
  using demo_ok by (simp add: demo_mapped_def prod_eq_iff)

theorem map_inserts_one_page_witness:
  "translate demo_space 0x40000123 (fst (snd demo_mapped)) = Some 0x9123
   \<and> translate demo_space 0x40001123 (fst (snd demo_mapped)) = None"
proof -
  have i: "distinct [0x2000, 0x3000, 0x4000 :: u64]" by simp
  note m = map_inserts_one_page [OF list_source_fresh i demo_empty demo_run]
  have p: "va_path 0x40000123 = va_path 0x40000000" "va_path 0x40001123 \<noteq> va_path 0x40000000"
    by (simp_all add: va_path_def table_index_def)
  have "translate demo_space 0x40001123 (\<lambda>_ _. 0) = None"
    by (rule empty_root(2)) (auto simp: view_def [unfolded read_entry_def] read_entry_def simp del: view_simps)
  then show ?thesis using m p by (simp add: ADDR_MASK_def PAGE_SIZE_def)
qed

theorem failed_map_changes_nothing_witness:
  "translate demo_space 0x40000000 (fst (snd (AddressSpace_map list_source demo_space 0x40000001 0x9000 0 (\<lambda>_ _. 0, [0x2000, 0x3000, 0x4000]))))
   = translate demo_space 0x40000000 (\<lambda>_ _. 0)"
proof -
  have i: "distinct [0x2000, 0x3000, 0x4000 :: u64]" by simp
  have "AddressSpace_map list_source demo_space 0x40000001 0x9000 0 (\<lambda>_ _. 0, [0x2000, 0x3000, 0x4000])
    = (Inl UnalignedVirt, \<lambda>_ _. 0, [0x2000, 0x3000, 0x4000])"
    by (simp add: AddressSpace_map_def is_page_aligned_def PAGE_SIZE_def)
  with failed_map_changes_nothing [OF list_source_fresh i demo_empty this] show ?thesis by simp
qed

theorem unmap_removes_one_page_witness:
  "\<exists>pa mem'. AddressSpace_unmap demo_space 0x40000000 (fst (snd demo_mapped)) = (pa, mem')
     \<and> translate demo_space 0x40000000 mem' = None"
proof -
  let ?m = "fst (snd demo_mapped)"
  have i: "distinct [0x2000, 0x3000, 0x4000 :: u64]" by simp
  note m = map_facts [OF list_source_fresh i demo_empty demo_run]
  obtain r mem' where u: "AddressSpace_unmap demo_space 0x40000000 ?m = (r, mem')" by (cases "AddressSpace_unmap demo_space 0x40000000 ?m")
  have "r \<noteq> None"
    using unmap_facts(2) [OF m(2) u] m(4) PTE_new_present by auto
  with unmap_removes_one_page [OF m(2) u] have "translate demo_space 0x40000000 mem' = None" by (cases r) auto
  with u show ?thesis by blast
qed

theorem create_is_empty_witness:
  "\<exists>sp mem'. AddressSpace_create list_source 0 (\<lambda>_ _. 1, [0x2000, 0x3000]) = (Some sp, mem', [0x3000]) \<and> translate sp 0 mem' = None"
proof -
  let ?sp = "AddressSpace_new 0x2000 0"
  have i: "distinct [0x2000, 0x3000 :: u64]" by simp
  have f: "\<forall>f \<in> set [0x2000, 0x3000]. table_frame f" by (simp add: table_frame_def ADDR_MASK_def)
  have run: "AddressSpace_create list_source 0 (\<lambda>_ _. 1, [0x2000, 0x3000])
    = (Some ?sp, (\<lambda>_ _. 1)(table_ptr ?sp 0x2000 := PageTable_new), [0x3000])"
    by (simp add: AddressSpace_create_def list_source_def Let_def)
  from create_is_empty [OF list_source_fresh i f run, of 0] run show ?thesis by auto
qed

end
