(* ===== verification/Vspace_Riscv.thy ===== *)
theory Vspace_Riscv
  imports Radix
begin

text \<open>
  RISC-V Sv39 page tables (src/crates/vspace-riscv): three levels, entries that hold a shifted
  page number, and the rule that an entry is a leaf exactly when it carries a permission. The
  entry format is a second interpretation of the radix tree, and the walks refine the same
  contract as the x86-64 tables.
\<close>

section \<open>Entries\<close>

definition PPN_BITS :: u64 where "PPN_BITS = push_bit 44 1 - 1"
definition PPN_SHIFT :: nat where "PPN_SHIFT = 10"
definition PPN_MASK :: u64 where "PPN_MASK = push_bit PPN_SHIFT PPN_BITS"
definition RV_FLAG_MASK :: u64 where "RV_FLAG_MASK = NOT PPN_MASK"

type_synonym RvFlags = u64

definition RV_V :: RvFlags where "RV_V = push_bit 0 1"
definition RV_R :: RvFlags where "RV_R = push_bit 1 1"
definition RV_W :: RvFlags where "RV_W = push_bit 2 1"
definition RV_X :: RvFlags where "RV_X = push_bit 3 1"
definition RV_U :: RvFlags where "RV_U = push_bit 4 1"
definition RV_G :: RvFlags where "RV_G = push_bit 5 1"
definition RV_A :: RvFlags where "RV_A = push_bit 6 1"
definition RV_D :: RvFlags where "RV_D = push_bit 7 1"
definition RWX :: RvFlags where "RWX = push_bit 1 1 OR push_bit 2 1 OR push_bit 3 1"

definition rv_from_bits_truncate :: "u64 \<Rightarrow> RvFlags" where
  "rv_from_bits_truncate b = b AND RV_FLAG_MASK"

definition rv_contains :: "RvFlags \<Rightarrow> RvFlags \<Rightarrow> bool" where
  "rv_contains x other \<longleftrightarrow> x AND other = other"

definition rv_intersects :: "RvFlags \<Rightarrow> RvFlags \<Rightarrow> bool" where
  "rv_intersects x other \<longleftrightarrow> x AND other \<noteq> 0"

definition rv_union :: "RvFlags \<Rightarrow> RvFlags \<Rightarrow> RvFlags" where
  "rv_union x other = x OR other"

definition rv_not :: "RvFlags \<Rightarrow> RvFlags" where
  "rv_not x = NOT x AND RV_FLAG_MASK"

type_synonym Pte = u64

definition Pte_EMPTY :: Pte where "Pte_EMPTY = 0"

definition Pte_new :: "PhysAddr \<Rightarrow> RvFlags \<Rightarrow> Pte" where
  "Pte_new pa flags =
     (let ppn = drop_bit PAGE_SHIFT pa AND PPN_BITS
      in push_bit PPN_SHIFT ppn OR (flags AND RV_FLAG_MASK))"

definition Pte_ppn :: "Pte \<Rightarrow> u64" where
  "Pte_ppn e = drop_bit PPN_SHIFT e AND PPN_BITS"

definition Pte_addr :: "Pte \<Rightarrow> PhysAddr" where
  "Pte_addr e = push_bit PAGE_SHIFT (Pte_ppn e)"

definition Pte_flags :: "Pte \<Rightarrow> RvFlags" where
  "Pte_flags e = e AND RV_FLAG_MASK"

definition is_valid :: "Pte \<Rightarrow> bool" where
  "is_valid e \<longleftrightarrow> e AND RV_V \<noteq> 0"

definition is_leaf :: "Pte \<Rightarrow> bool" where
  "is_leaf e \<longleftrightarrow> e AND RWX \<noteq> 0"

definition RvTable_new :: "nat \<Rightarrow> Pte" where
  "RvTable_new = (\<lambda>_. Pte_EMPTY)"

datatype RvMapError = RvUnalignedVirt | RvUnalignedPhys | RvOutOfFrames | RvAlreadyMapped | SuperpagePresent | InvalidLeafFlags

section \<open>Address spaces\<close>

record RvSpace =
  rv_root :: PhysAddr
  rv_offset :: u64

definition RvSpace_new :: "PhysAddr \<Rightarrow> u64 \<Rightarrow> RvSpace" where
  "RvSpace_new root_phys off = \<lparr>rv_root = root_phys, rv_offset = off\<rparr>"

definition root_ppn :: "RvSpace \<Rightarrow> u64" where
  "root_ppn sp = drop_bit PAGE_SHIFT (rv_root sp)"

definition satp :: "RvSpace \<Rightarrow> u64" where
  "satp sp = push_bit 60 8 OR root_ppn sp"

definition rv_table_ptr :: "RvSpace \<Rightarrow> PhysAddr \<Rightarrow> u64" where
  "rv_table_ptr sp pa = rv_offset sp + pa"

definition rv_read_entry :: "RvSpace \<Rightarrow> ptmem \<Rightarrow> PhysAddr \<Rightarrow> usize \<Rightarrow> Pte" where
  "rv_read_entry sp mem table_pa idx = mem (rv_table_ptr sp table_pa) idx"

definition rv_write_entry :: "RvSpace \<Rightarrow> PhysAddr \<Rightarrow> usize \<Rightarrow> Pte \<Rightarrow> ptmem \<Rightarrow> ptmem" where
  "rv_write_entry sp table_pa idx e mem =
     mem(rv_table_ptr sp table_pa := (mem (rv_table_ptr sp table_pa))(idx := e))"

definition RvSpace_create ::
    "('s \<Rightarrow> u64 option \<times> 's) \<Rightarrow> u64 \<Rightarrow> ptmem \<times> 's \<Rightarrow> RvSpace option \<times> ptmem \<times> 's" where
  "RvSpace_create fa off = (\<lambda>(mem, s).
     case fa s of
       (None, s') \<Rightarrow> (None, mem, s')
     | (Some root, s') \<Rightarrow>
         let space = RvSpace_new root off
         in (Some space, mem(rv_table_ptr space root := RvTable_new), s'))"

fun rv_map_descend ::
    "('s \<Rightarrow> u64 option \<times> 's) \<Rightarrow> RvSpace \<Rightarrow> VirtAddr \<Rightarrow> nat list \<Rightarrow> PhysAddr \<Rightarrow> ptmem \<times> 's
     \<Rightarrow> (RvMapError + PhysAddr) \<times> ptmem \<times> 's" where
  "rv_map_descend fa sp va [] table_pa st = (Inr table_pa, st)"
| "rv_map_descend fa sp va (level # levels) table_pa (mem, s) =
     (let idx = table_index va level; entry = rv_read_entry sp mem table_pa idx
      in if is_valid entry
         then if is_leaf entry then (Inl SuperpagePresent, mem, s)
              else rv_map_descend fa sp va levels (Pte_addr entry) (mem, s)
         else case fa s of
                (None, s') \<Rightarrow> (Inl RvOutOfFrames, mem, s')
              | (Some frame, s') \<Rightarrow>
                  let mem1 = mem(rv_table_ptr sp frame := RvTable_new);
                      link = Pte_new frame RV_V;
                      mem2 = rv_write_entry sp table_pa idx link mem1
                  in rv_map_descend fa sp va levels frame (mem2, s'))"

definition RvSpace_map ::
    "('s \<Rightarrow> u64 option \<times> 's) \<Rightarrow> RvSpace \<Rightarrow> VirtAddr \<Rightarrow> PhysAddr \<Rightarrow> RvFlags \<Rightarrow> ptmem \<times> 's
     \<Rightarrow> (RvMapError + unit) \<times> ptmem \<times> 's" where
  "RvSpace_map fa sp va pa flags = (\<lambda>(mem, s).
     if \<not> is_page_aligned va then (Inl RvUnalignedVirt, mem, s)
     else if \<not> is_page_aligned pa then (Inl RvUnalignedPhys, mem, s)
     else if \<not> rv_intersects flags RWX then (Inl InvalidLeafFlags, mem, s)
     else case rv_map_descend fa sp va [2, 1] (rv_root sp) (mem, s) of
            (Inl err, mem', s') \<Rightarrow> (Inl err, mem', s')
          | (Inr table_pa, mem', s') \<Rightarrow>
              let idx = table_index va 0; leaf = rv_read_entry sp mem' table_pa idx
              in if is_valid leaf then (Inl RvAlreadyMapped, mem', s')
                 else (Inr (), rv_write_entry sp table_pa idx (Pte_new pa (flags OR RV_V)) mem', s'))"

fun rv_unmap_descend :: "RvSpace \<Rightarrow> VirtAddr \<Rightarrow> ptmem \<Rightarrow> nat list \<Rightarrow> PhysAddr \<Rightarrow> PhysAddr option" where
  "rv_unmap_descend sp va mem [] table_pa = Some table_pa"
| "rv_unmap_descend sp va mem (level # levels) table_pa =
     (let entry = rv_read_entry sp mem table_pa (table_index va level)
      in if \<not> is_valid entry \<or> is_leaf entry then None
         else rv_unmap_descend sp va mem levels (Pte_addr entry))"

definition RvSpace_unmap :: "RvSpace \<Rightarrow> VirtAddr \<Rightarrow> ptmem \<Rightarrow> PhysAddr option \<times> ptmem" where
  "RvSpace_unmap sp va mem =
     (case rv_unmap_descend sp va mem [2, 1] (rv_root sp) of
        None \<Rightarrow> (None, mem)
      | Some table_pa \<Rightarrow>
          let idx = table_index va 0; leaf = rv_read_entry sp mem table_pa idx
          in if \<not> is_valid leaf then (None, mem)
             else (Some (Pte_addr leaf), rv_write_entry sp table_pa idx Pte_EMPTY mem))"

fun rv_leaf_flags_walk :: "RvSpace \<Rightarrow> VirtAddr \<Rightarrow> ptmem \<Rightarrow> nat list \<Rightarrow> PhysAddr \<Rightarrow> RvFlags option" where
  "rv_leaf_flags_walk sp va mem [] table_pa = None"
| "rv_leaf_flags_walk sp va mem (level # levels) table_pa =
     (let entry = rv_read_entry sp mem table_pa (table_index va level)
      in if \<not> is_valid entry then None
         else if is_leaf entry then Some (Pte_flags entry)
         else rv_leaf_flags_walk sp va mem levels (Pte_addr entry))"

definition rv_leaf_flags :: "RvSpace \<Rightarrow> VirtAddr \<Rightarrow> ptmem \<Rightarrow> RvFlags option" where
  "rv_leaf_flags sp va mem = rv_leaf_flags_walk sp va mem [2, 1, 0] (rv_root sp)"

fun rv_translate_walk :: "RvSpace \<Rightarrow> VirtAddr \<Rightarrow> ptmem \<Rightarrow> nat list \<Rightarrow> PhysAddr \<Rightarrow> PhysAddr option" where
  "rv_translate_walk sp va mem [] table_pa = None"
| "rv_translate_walk sp va mem (level # levels) table_pa =
     (let entry = rv_read_entry sp mem table_pa (table_index va level)
      in if \<not> is_valid entry then None
         else if is_leaf entry
         then let page_shift = 12 + 9 * level;
                  page_mask = push_bit page_shift 1 - 1;
                  base = Pte_addr entry AND NOT page_mask;
                  offset = va AND page_mask
              in Some (base + offset)
         else rv_translate_walk sp va mem levels (Pte_addr entry))"

definition rv_translate :: "RvSpace \<Rightarrow> VirtAddr \<Rightarrow> ptmem \<Rightarrow> PhysAddr option" where
  "rv_translate sp va mem = rv_translate_walk sp va mem [2, 1, 0] (rv_root sp)"

section \<open>The entry format\<close>

lemma PPN_BITS_mask: "PPN_BITS = mask 44"
  by (simp add: PPN_BITS_def push_bit_of_1 mask_eq_exp_minus_1)

lemma PPN_MASK_bit: "bit PPN_MASK i \<longleftrightarrow> 10 \<le> i \<and> i < 54"
  unfolding PPN_MASK_def PPN_BITS_mask PPN_SHIFT_def by (auto simp: bit_simps)

lemma RV_FLAG_MASK_bit: "bit RV_FLAG_MASK i \<longleftrightarrow> i < 64 \<and> (i < 10 \<or> 54 \<le> i)"
  unfolding RV_FLAG_MASK_def by (auto simp: bit_not_iff PPN_MASK_bit)

lemma Pte_new_bit:
  "bit (Pte_new pa flags) i \<longleftrightarrow> i < 64 \<and> (if 10 \<le> i \<and> i < 54 then bit pa (i + 2) else bit flags i)"
  unfolding Pte_new_def Let_def PPN_BITS_mask PPN_SHIFT_def PAGE_SHIFT_def
  by (auto simp: bit_or_iff bit_and_iff bit_push_bit_iff bit_mask_iff bit_drop_bit_eq RV_FLAG_MASK_bit add.commute dest: bit_imp_le_length)

lemma Pte_addr_bit: "bit (Pte_addr e) i \<longleftrightarrow> 12 \<le> i \<and> i < 56 \<and> bit e (i - 2)"
  unfolding Pte_addr_def Pte_ppn_def PPN_BITS_mask PPN_SHIFT_def PAGE_SHIFT_def
  by (auto simp: bit_and_iff bit_push_bit_iff bit_mask_iff bit_drop_bit_eq)

lemma is_valid_bit: "is_valid e \<longleftrightarrow> bit e 0"
  using and_exp_eq_0_iff_not_bit [of e 0] by (simp add: is_valid_def RV_V_def)

lemma RV_V_bit: "bit RV_V i \<longleftrightarrow> i = 0"
  unfolding RV_V_def push_bit_of_1 bit_exp_iff possible_bit_word by auto

lemma RWX_bit: "bit RWX i \<longleftrightarrow> i = 1 \<or> i = 2 \<or> i = 3"
  unfolding RWX_def push_bit_of_1 bit_or_iff bit_exp_iff possible_bit_word by auto

lemma and_RWX: "e AND RWX \<noteq> 0 \<longleftrightarrow> bit e 1 \<or> bit e 2 \<or> bit e 3"
proof -
  have "e AND RWX \<noteq> 0 \<longleftrightarrow> (\<exists>i. bit (e AND RWX) i)" by (metis bit_0_eq bot_apply bit_eqI bot_bool_def)
  then show ?thesis by (auto simp: bit_and_iff RWX_bit)
qed

lemma is_leaf_bit: "is_leaf e \<longleftrightarrow> bit e 1 \<or> bit e 2 \<or> bit e 3"
  unfolding is_leaf_def by (rule and_RWX)

definition rv_frame_field :: "u64 \<Rightarrow> u64" where
  "rv_frame_field pa = push_bit PAGE_SHIFT (drop_bit PAGE_SHIFT pa AND PPN_BITS)"

lemma rv_frame_field_bit: "bit (rv_frame_field pa) i \<longleftrightarrow> 12 \<le> i \<and> i < 56 \<and> bit pa i"
  unfolding rv_frame_field_def PPN_BITS_mask PAGE_SHIFT_def
  by (auto simp: bit_and_iff bit_push_bit_iff bit_mask_iff bit_drop_bit_eq)

lemma Pte_new_addr: "Pte_addr (Pte_new pa flags) = rv_frame_field pa"
proof (rule bit_word_eqI)
  fix n :: nat
  show "bit (Pte_addr (Pte_new pa flags)) n = bit (rv_frame_field pa) n"
  proof (cases "12 \<le> n")
    case True
    then have "n - 2 + 2 = n" "10 \<le> n - 2" by simp_all
    then show ?thesis unfolding Pte_addr_bit Pte_new_bit rv_frame_field_bit by auto
  qed (simp add: Pte_addr_bit rv_frame_field_bit)
qed

lemma Pte_new_flags: "Pte_flags (Pte_new pa flags) = rv_from_bits_truncate flags"
  by (rule bit_word_eqI) (auto simp: Pte_flags_def rv_from_bits_truncate_def bit_and_iff RV_FLAG_MASK_bit Pte_new_bit)

lemma Pte_new_valid: "is_valid (Pte_new pa (flags OR RV_V))"
  by (simp add: is_valid_bit Pte_new_bit bit_or_iff RV_V_bit)

lemma Pte_new_leaf: "is_leaf (Pte_new pa (flags OR RV_V)) \<longleftrightarrow> rv_intersects flags RWX"
  by (simp add: is_leaf_bit rv_intersects_def and_RWX Pte_new_bit bit_or_iff RV_V_bit)

definition rv_next_table :: "Pte \<Rightarrow> u64 option" where
  "rv_next_table e = (if is_valid e \<and> \<not> is_leaf e then Some (Pte_addr e) else None)"

definition rv_link :: "u64 \<Rightarrow> Pte" where
  "rv_link f = Pte_new f RV_V"

definition rv_table_frame :: "u64 \<Rightarrow> bool" where
  "rv_table_frame f \<longleftrightarrow> rv_frame_field f = f"

lemma rv_next_link: "rv_table_frame f \<Longrightarrow> rv_next_table (rv_link f) = Some f"
  by (simp add: rv_next_table_def rv_link_def is_valid_bit is_leaf_bit Pte_new_bit RV_V_bit Pte_new_addr rv_table_frame_def)

interpretation sv39: radix rv_next_table "\<lambda>e. \<not> is_valid e" 0 rv_link rv_table_frame
proof
  show "rv_next_table (rv_link f) = Some f" if "rv_table_frame f" for f by (rule rv_next_link [OF that])
qed (simp_all add: rv_next_table_def is_valid_bit)

section \<open>The memory of one address space\<close>

definition rv_view :: "RvSpace \<Rightarrow> ptmem \<Rightarrow> u64 \<Rightarrow> nat \<Rightarrow> Pte" where
  "rv_view sp mem = rv_read_entry sp mem"

lemma rv_view_simps [simp]:
  "rv_read_entry sp mem = rv_view sp mem"
  "rv_view sp (rv_write_entry sp p i e mem) = (rv_view sp mem)(p := (rv_view sp mem p)(i := e))"
  "rv_view sp (mem(rv_table_ptr sp f := RvTable_new)) = (rv_view sp mem)(f := \<lambda>_. 0)"
  by (auto simp: rv_view_def fun_eq_iff rv_read_entry_def rv_write_entry_def rv_table_ptr_def RvTable_new_def Pte_EMPTY_def)

definition rv_space_ok :: "RvSpace \<Rightarrow> ptmem \<Rightarrow> u64 set \<Rightarrow> bool" where
  "rv_space_ok sp mem F \<longleftrightarrow> sv39.tree 2 (rv_view sp mem) (rv_root sp) \<and> sv39.outside 2 (rv_view sp mem) (rv_root sp) F"

definition rv_path :: "VirtAddr \<Rightarrow> nat list" where
  "rv_path va = map (table_index va) [2, 1, 0]"

text \<open>What a stopped walk means.\<close>

definition rv_decode :: "VirtAddr \<Rightarrow> nat \<times> Pte \<Rightarrow> PhysAddr option" where
  "rv_decode va = (\<lambda>(level, e).
     if \<not> is_valid e \<or> \<not> is_leaf e then None
     else let page_mask = push_bit (12 + 9 * level) 1 - 1
          in Some ((Pte_addr e AND NOT page_mask) + (va AND page_mask)))"

lemma rv_translate_eq: "rv_translate sp va mem = rv_decode va (stop_entry rv_next_table (rv_view sp mem) (rv_root sp) (rv_path va))"
  by (auto simp: rv_translate_def rv_path_def rv_decode_def rv_next_table_def Let_def split: option.splits)

lemma rv_leaf_flags_eq:
  "rv_leaf_flags sp va mem = (let (level, e) = stop_entry rv_next_table (rv_view sp mem) (rv_root sp) (rv_path va)
     in if is_valid e \<and> is_leaf e then Some (Pte_flags e) else None)"
  by (auto simp: rv_leaf_flags_def rv_path_def rv_next_table_def Let_def split: option.splits)

lemma rv_decode_dead: "\<not> is_valid (snd x) \<Longrightarrow> rv_decode va x = None"
  by (auto simp: rv_decode_def split: prod.splits)

lemma rv_decode_same_leaf: "sv39.same_leaf x y \<Longrightarrow> rv_decode va x = rv_decode va y"
  by (auto simp: sv39.same_leaf_def rv_decode_def split: prod.splits)

section \<open>The loops refine walks of the tree\<close>

lemma rv_map_descend_facts:
  assumes "fresh_source ok avail fa" and "ok s" and "rv_space_ok sp mem (avail s)"
    and "tab_at rv_next_table (rv_view sp mem) (rv_root sp) P = Some p" and "length P + length levels = 2"
    and "rv_map_descend fa sp va levels p (mem, s) = (r, mem', s')"
  shows "ok s' \<and> rv_space_ok sp mem' (avail s') \<and> sv39.same_leaves 2 (rv_view sp mem) (rv_view sp mem') (rv_root sp)
    \<and> (\<forall>q. r = Inr q \<longrightarrow> tab_at rv_next_table (rv_view sp mem') (rv_root sp) (P @ map (table_index va) levels) = Some q)"
  using assms(2-6)
proof (induction levels arbitrary: P p mem s)
  case Nil
  then show ?case by auto
next
  case (Cons level levels)
  let ?i = "table_index va level" and ?rd = "rv_view sp mem" and ?root = "rv_root sp"
  let ?e = "?rd p ?i"
  show ?case
  proof (cases "is_valid ?e")
    case True
    show ?thesis
    proof (cases "is_leaf ?e")
      case True
      then show ?thesis using Cons.prems \<open>is_valid ?e\<close> by (auto simp: Let_def)
    next
      case False
      have "tab_at rv_next_table ?rd ?root (P @ [?i]) = Some (Pte_addr ?e)"
      proof -
        have "rv_next_table ?e = Some (Pte_addr ?e)" using True False by (simp add: rv_next_table_def)
        then show ?thesis using Cons.prems(3) by (simp add: tab_at_snoc)
      qed
      moreover have "rv_map_descend fa sp va levels (Pte_addr ?e) (mem, s) = (r, mem', s')"
        using Cons.prems(5) True False by (simp add: Let_def)
      ultimately show ?thesis using Cons.IH [OF Cons.prems(1,2), of "P @ [?i]" "Pte_addr ?e"] Cons.prems(4) by simp
    qed
  next
    case False
    obtain a s1 where fa: "fa s = (a, s1)" by (cases "fa s")
    show ?thesis
    proof (cases a)
      case None
      then have "ok s1" "avail s1 \<subseteq> avail s" using fresh_source_None [OF assms(1) Cons.prems(1)] fa by auto
      then show ?thesis using Cons.prems(2,5) False fa None
        by (auto simp: Let_def rv_space_ok_def intro: sv39.outside_mono)
    next
      case (Some f)
      let ?rd1 = "(?rd(f := \<lambda>_. 0))(p := (?rd p)(?i := rv_link f))"
      let ?mem1 = "rv_write_entry sp p ?i (rv_link f) (mem(rv_table_ptr sp f := RvTable_new))"
      have src: "ok s1" "f \<in> avail s" "avail s1 \<subseteq> avail s - {f}"
        using fresh_source_Some [OF assms(1) Cons.prems(1)] fa Some by auto
      have t: "sv39.tree 2 ?rd ?root" "sv39.outside 2 ?rd ?root (avail s)" using Cons.prems(2) by (auto simp: rv_space_ok_def)
      have len: "length P < 2" using Cons.prems(4) by simp
      note lw = sv39.link_write [OF t(1) Cons.prems(3) len False t(2) src(2)]
      have ne: "f \<noteq> p" using t(2) src(2) Cons.prems(3) len by (auto simp: sv39.outside_def)
      have v: "rv_view sp ?mem1 = ?rd1" using ne by simp
      have step: "rv_map_descend fa sp va levels f (?mem1, s1) = (r, mem', s')"
        using Cons.prems(5) False fa Some by (simp add: Let_def rv_link_def)
      have sp1: "rv_space_ok sp ?mem1 (avail s1)"
        unfolding rv_space_ok_def v using lw(1,2) src(3) sv39.outside_mono by blast
      have tab1: "tab_at rv_next_table (rv_view sp ?mem1) ?root (P @ [?i]) = Some f" unfolding v by (rule lw(3))
      have sl: "sv39.same_leaves 2 ?rd (rv_view sp ?mem1) ?root" unfolding v by (rule lw(4))
      have "length (P @ [?i]) + length levels = 2" using Cons.prems(4) by simp
      note ih = Cons.IH [OF src(1) sp1 tab1 this step]
      have "sv39.same_leaves 2 ?rd (rv_view sp mem') ?root" using ih by (blast intro: sv39.same_leaves_trans [OF sl])
      then show ?thesis using ih by simp
    qed
  qed
qed

lemma rv_unmap_descend_tab:
  "rv_unmap_descend sp va mem levels p = tab_at rv_next_table (rv_view sp mem) p (map (table_index va) levels)"
  by (induction levels arbitrary: p) (auto simp: Let_def rv_next_table_def)

lemma rv_path_split: "rv_path va = map (table_index va) [2, 1] @ [table_index va 0]"
  by (simp add: rv_path_def)

lemma rv_walk_leaf:
  assumes "tab_at rv_next_table rd root (map (table_index va) [2, 1]) = Some q"
  shows "stop_entry rv_next_table rd root (rv_path va) = (0, rd q (table_index va 0))"
  unfolding rv_path_split by (subst stop_entry_append [OF _ assms]) simp_all

lemma rv_offset_aligned: "is_page_aligned va \<Longrightarrow> va AND (PAGE_SIZE - 1) = 0"
  by (simp add: is_page_aligned_def)

lemma rv_map_facts:
  assumes "fresh_source ok avail fa" and "ok s" and "rv_space_ok sp mem (avail s)"
    and "RvSpace_map fa sp va pa flags (mem, s) = (r, mem', s')"
  shows "ok s'" and "rv_space_ok sp mem' (avail s')"
    and "r = Inl e \<Longrightarrow> sv39.same_leaves 2 (rv_view sp mem) (rv_view sp mem') (rv_root sp)"
    and "r = Inr () \<Longrightarrow> stop_entry rv_next_table (rv_view sp mem') (rv_root sp) (rv_path va) = (0, Pte_new pa (flags OR RV_V))
       \<and> \<not> is_valid (snd (stop_entry rv_next_table (rv_view sp mem) (rv_root sp) (rv_path va)))
       \<and> rv_intersects flags RWX
       \<and> (\<forall>Q. length Q = 3 \<and> Q \<noteq> rv_path va \<longrightarrow>
            sv39.same_leaf (stop_entry rv_next_table (rv_view sp mem) (rv_root sp) Q) (stop_entry rv_next_table (rv_view sp mem') (rv_root sp) Q))"
proof -
  let ?root = "rv_root sp" and ?i = "table_index va 0"
  consider (unal) "mem' = mem" "s' = s" "\<exists>e. r = Inl e"
    | (walk) "is_page_aligned va" "is_page_aligned pa" "rv_intersects flags RWX" using assms(4)
    by (cases "is_page_aligned va"; cases "is_page_aligned pa"; cases "rv_intersects flags RWX") (auto simp: RvSpace_map_def)
  then have "ok s' \<and> rv_space_ok sp mem' (avail s')
    \<and> (\<forall>e. r = Inl e \<longrightarrow> sv39.same_leaves 2 (rv_view sp mem) (rv_view sp mem') ?root)
    \<and> (r = Inr () \<longrightarrow> stop_entry rv_next_table (rv_view sp mem') ?root (rv_path va) = (0, Pte_new pa (flags OR RV_V))
       \<and> \<not> is_valid (snd (stop_entry rv_next_table (rv_view sp mem) ?root (rv_path va)))
       \<and> rv_intersects flags RWX
       \<and> (\<forall>Q. length Q = 3 \<and> Q \<noteq> rv_path va \<longrightarrow>
            sv39.same_leaf (stop_entry rv_next_table (rv_view sp mem) ?root Q) (stop_entry rv_next_table (rv_view sp mem') ?root Q)))"
  proof cases
    case unal
    then show ?thesis using assms by auto
  next
    case walk
    obtain d mem1 s1 where d: "rv_map_descend fa sp va [2, 1] ?root (mem, s) = (d, mem1, s1)" by (metis prod_cases3)
    note f = rv_map_descend_facts [OF assms(1-3), of "[]" ?root "[2, 1]", OF _ _ d, simplified]
    show ?thesis
    proof (cases d)
      case (Inl e)
      then show ?thesis using f assms(4) walk d by (auto simp: RvSpace_map_def)
    next
      case (Inr q)
      let ?leaf = "rv_view sp mem1 q ?i"
      have q: "tab_at rv_next_table (rv_view sp mem1) ?root (map (table_index va) [2, 1]) = Some q" using f Inr by simp
      note sl = rv_walk_leaf [OF q]
      have before: "sv39.same_leaf (stop_entry rv_next_table (rv_view sp mem) ?root Q) (stop_entry rv_next_table (rv_view sp mem1) ?root Q)"
        if "length Q = 3" for Q using f that by (simp add: sv39.same_leaves_def)
      show ?thesis
      proof (cases "is_valid ?leaf")
        case True
        then show ?thesis using f assms(4) walk d Inr by (auto simp: RvSpace_map_def Let_def)
      next
        case False
        have t: "sv39.tree 2 (rv_view sp mem1) ?root" "sv39.outside 2 (rv_view sp mem1) ?root (avail s1)"
          using f by (auto simp: rv_space_ok_def)
        note lw = sv39.leaf_write [OF t(1) q, where i = ?i and e = "Pte_new pa (flags OR RV_V)"]
        have m: "mem' = rv_write_entry sp q ?i (Pte_new pa (flags OR RV_V)) mem1" "s' = s1" "r = Inr ()"
          using assms(4) walk d Inr False by (auto simp: RvSpace_map_def Let_def)
        have nl: "\<not> is_valid (snd (stop_entry rv_next_table (rv_view sp mem) ?root (rv_path va)))"
          using before [of "rv_path va"] sl False by (auto simp: sv39.same_leaf_def rv_path_def)
        show ?thesis using f lw t(2) nl walk before m by (simp add: rv_space_ok_def rv_path_split)
      qed
    qed
  qed
  then show "ok s'" and "rv_space_ok sp mem' (avail s')"
    and "r = Inl e \<Longrightarrow> sv39.same_leaves 2 (rv_view sp mem) (rv_view sp mem') (rv_root sp)"
    and "r = Inr () \<Longrightarrow> stop_entry rv_next_table (rv_view sp mem') (rv_root sp) (rv_path va) = (0, Pte_new pa (flags OR RV_V))
       \<and> \<not> is_valid (snd (stop_entry rv_next_table (rv_view sp mem) (rv_root sp) (rv_path va)))
       \<and> rv_intersects flags RWX
       \<and> (\<forall>Q. length Q = 3 \<and> Q \<noteq> rv_path va \<longrightarrow>
            sv39.same_leaf (stop_entry rv_next_table (rv_view sp mem) (rv_root sp) Q) (stop_entry rv_next_table (rv_view sp mem') (rv_root sp) Q))"
    by blast+
qed

lemma rv_unmap_facts:
  assumes "rv_space_ok sp mem F" and "RvSpace_unmap sp va mem = (r, mem')"
  shows "rv_space_ok sp mem' F"
    and "r = None \<Longrightarrow> mem' = mem \<and> (\<forall>e. stop_entry rv_next_table (rv_view sp mem) (rv_root sp) (rv_path va) = (0, e) \<longrightarrow> \<not> is_valid e)"
    and "r = Some q \<Longrightarrow> (\<exists>e. stop_entry rv_next_table (rv_view sp mem) (rv_root sp) (rv_path va) = (0, e) \<and> is_valid e \<and> q = Pte_addr e)
       \<and> stop_entry rv_next_table (rv_view sp mem') (rv_root sp) (rv_path va) = (0, 0)
       \<and> (\<forall>Q. length Q = 3 \<and> Q \<noteq> rv_path va \<longrightarrow>
            stop_entry rv_next_table (rv_view sp mem') (rv_root sp) Q = stop_entry rv_next_table (rv_view sp mem) (rv_root sp) Q)"
proof -
  let ?root = "rv_root sp" and ?i = "table_index va 0" and ?rd = "rv_view sp mem"
  have "rv_space_ok sp mem' F
    \<and> (r = None \<longrightarrow> mem' = mem \<and> (\<forall>e. stop_entry rv_next_table ?rd ?root (rv_path va) = (0, e) \<longrightarrow> \<not> is_valid e))
    \<and> (\<forall>q. r = Some q \<longrightarrow> (\<exists>e. stop_entry rv_next_table ?rd ?root (rv_path va) = (0, e) \<and> is_valid e \<and> q = Pte_addr e)
       \<and> stop_entry rv_next_table (rv_view sp mem') ?root (rv_path va) = (0, 0)
       \<and> (\<forall>Q. length Q = 3 \<and> Q \<noteq> rv_path va \<longrightarrow> stop_entry rv_next_table (rv_view sp mem') ?root Q = stop_entry rv_next_table ?rd ?root Q))"
  proof (cases "tab_at rv_next_table ?rd ?root (map (table_index va) [2, 1])")
    case None
    then have "r = None" "mem' = mem" using assms(2) by (auto simp: RvSpace_unmap_def rv_unmap_descend_tab)
    moreover have "fst (stop_entry rv_next_table ?rd ?root (rv_path va)) \<noteq> 0"
      using None by (auto simp: rv_path_def split: option.splits)
    ultimately show ?thesis using assms(1) by auto
  next
    case (Some t)
    note sl = rv_walk_leaf [OF Some]
    show ?thesis
    proof (cases "is_valid (?rd t ?i)")
      case False
      then have "r = None" "mem' = mem" using assms(2) Some by (auto simp: RvSpace_unmap_def rv_unmap_descend_tab Let_def)
      then show ?thesis using assms(1) sl False by auto
    next
      case True
      then have m: "r = Some (Pte_addr (?rd t ?i))" "mem' = rv_write_entry sp t ?i 0 mem"
        using assms(2) Some by (auto simp: RvSpace_unmap_def rv_unmap_descend_tab Let_def Pte_EMPTY_def)
      have tr: "sv39.tree 2 ?rd ?root" "sv39.outside 2 ?rd ?root F" using assms(1) by (auto simp: rv_space_ok_def)
      note lw = sv39.leaf_write [OF tr(1) Some, where i = ?i and e = 0]
      show ?thesis using lw tr(2) m sl True by (simp add: rv_space_ok_def rv_path_split)
    qed
  qed
  then show "rv_space_ok sp mem' F"
    and "r = None \<Longrightarrow> mem' = mem \<and> (\<forall>e. stop_entry rv_next_table (rv_view sp mem) (rv_root sp) (rv_path va) = (0, e) \<longrightarrow> \<not> is_valid e)"
    and "r = Some q \<Longrightarrow> (\<exists>e. stop_entry rv_next_table (rv_view sp mem) (rv_root sp) (rv_path va) = (0, e) \<and> is_valid e \<and> q = Pte_addr e)
       \<and> stop_entry rv_next_table (rv_view sp mem') (rv_root sp) (rv_path va) = (0, 0)
       \<and> (\<forall>Q. length Q = 3 \<and> Q \<noteq> rv_path va \<longrightarrow>
            stop_entry rv_next_table (rv_view sp mem') (rv_root sp) Q = stop_entry rv_next_table (rv_view sp mem) (rv_root sp) Q)"
    by blast+
qed

text \<open>A zeroed root table starts an empty address space.\<close>

lemma rv_empty_root:
  assumes "\<And>i. rv_view sp mem (rv_root sp) i = 0" and "\<forall>f \<in> F. rv_table_frame f \<and> f \<noteq> rv_root sp"
  shows "rv_space_ok sp mem F" and "rv_translate sp va mem = None"
proof -
  have tab: "tab_at rv_next_table (rv_view sp mem) (rv_root sp) Q = (if Q = [] then Some (rv_root sp) else None)" for Q
    by (cases Q) (simp_all add: assms(1) rv_next_table_def is_valid_bit)
  show "rv_space_ok sp mem F" using assms(2) by (auto simp: rv_space_ok_def sv39.tree_def sv39.outside_def tab split: if_splits)
  show "rv_translate sp va mem = None"
    by (simp add: rv_translate_eq rv_path_def assms(1) rv_next_table_def is_valid_bit rv_decode_def)
qed

lemma rv_frame_field_mask: "rv_frame_field pa AND NOT (push_bit 12 1 - 1) = rv_frame_field pa"
  unfolding push_bit_of_1 mask_eq_exp_minus_1 [symmetric]
  by (rule bit_word_eqI) (auto simp: bit_and_iff bit_not_iff bit_mask_iff rv_frame_field_bit)

lemma rv_decode_page:
  assumes "is_valid e" and "is_leaf e" and "Pte_addr e = rv_frame_field pa"
  shows "rv_decode va (0, e) = Some (rv_frame_field pa + (va AND (PAGE_SIZE - 1)))"
  using assms rv_frame_field_mask [of pa] by (simp add: rv_decode_def Let_def PAGE_SIZE_def push_bit_of_1)

lemma Pte_addr_field: "rv_frame_field (Pte_addr e) = Pte_addr e"
  by (rule bit_word_eqI) (auto simp: rv_frame_field_bit Pte_addr_bit)

text \<open>What a map does to every translation.\<close>

lemma rv_map_outcome:
  assumes "fresh_source ok avail fa" and "ok s" and "rv_space_ok sp mem (avail s)"
    and "RvSpace_map fa sp va pa flags (mem, s) = (Inr (), mem', s')"
  shows "rv_translate sp va mem = None
    \<and> (\<forall>va'. rv_translate sp va' mem' =
         (if rv_path va' = rv_path va then Some (rv_frame_field pa + (va' AND (PAGE_SIZE - 1))) else rv_translate sp va' mem))
    \<and> rv_leaf_flags sp va mem' = Some (rv_from_bits_truncate (flags OR RV_V)) \<and> rv_intersects flags RWX
    \<and> ok s' \<and> rv_space_ok sp mem' (avail s')"
proof -
  note f = rv_map_facts [OF assms]
  have len: "length (rv_path va') = 3" for va' by (simp add: rv_path_def)
  have "rv_translate sp va' mem' = rv_translate sp va' mem" if "rv_path va' \<noteq> rv_path va" for va'
    unfolding rv_translate_eq using f(4) that len by (intro rv_decode_same_leaf [symmetric]) auto
  moreover have "rv_translate sp va' mem' = Some (rv_frame_field pa + (va' AND (PAGE_SIZE - 1)))"
    if "rv_path va' = rv_path va" for va'
    using f(4) that by (simp add: rv_translate_eq rv_decode_page Pte_new_valid Pte_new_leaf Pte_new_addr)
  moreover have "rv_leaf_flags sp va mem' = Some (rv_from_bits_truncate (flags OR RV_V))"
    using f(4) by (simp add: rv_leaf_flags_eq Pte_new_valid Pte_new_leaf Pte_new_flags)
  moreover have "rv_translate sp va mem = None"
    using f(4) by (simp add: rv_translate_eq rv_decode_dead)
  ultimately show ?thesis using f(1,2,4) by simp
qed

lemma rv_map_failure:
  assumes "fresh_source ok avail fa" and "ok s" and "rv_space_ok sp mem (avail s)"
    and "RvSpace_map fa sp va pa flags (mem, s) = (Inl e, mem', s')"
  shows "rv_translate sp va' mem' = rv_translate sp va' mem \<and> ok s' \<and> rv_space_ok sp mem' (avail s')"
proof -
  note f = rv_map_facts [OF assms]
  have "rv_translate sp va' mem' = rv_translate sp va' mem"
  proof -
    have "length (rv_path va') = Suc 2" by (simp add: rv_path_def)
    then show ?thesis unfolding rv_translate_eq using f(3) [OF refl] sv39.same_leaves_def
      by (intro rv_decode_same_leaf [symmetric]) blast
  qed
  then show ?thesis using f(1,2) by simp
qed

section \<open>Properties\<close>

text \<open>
  Sv39 entries round-trip through the shifted page number: decoding gives back the frame field
  of the address and the flag field, an entry written with V is valid, and it is a leaf exactly
  when the flags carry a permission, so a link written with V alone never decodes as a page.
\<close>

theorem rv_entry_roundtrip:
  "Pte_addr (Pte_new pa flags) = rv_frame_field pa \<and> Pte_flags (Pte_new pa flags) = rv_from_bits_truncate flags
   \<and> is_valid (Pte_new pa (flags OR RV_V)) \<and> (is_leaf (Pte_new pa (flags OR RV_V)) \<longleftrightarrow> rv_intersects flags RWX)
   \<and> (unat pa < 2 ^ 56 \<and> is_page_aligned pa \<longrightarrow> Pte_addr (Pte_new pa flags) = pa)"
proof -
  have "rv_frame_field pa = pa" if "unat pa < 2 ^ 56" "is_page_aligned pa"
  proof (rule bit_word_eqI)
    fix i :: nat
    have "pa AND mask 12 = 0" using that(2) by (simp add: is_page_aligned_def PAGE_SIZE_def mask_eq_exp_minus_1)
    then have "\<not> bit (pa AND mask 12) i" by simp
    then have low: "bit pa i \<Longrightarrow> 12 \<le> i" by (auto simp: bit_and_iff bit_mask_iff bit_imp_le_length not_less dest: bit_imp_le_length)
    have "take_bit 56 (unat pa) = unat pa" using that(1) by (rule take_bit_nat_eq_self)
    moreover have "bit pa i \<Longrightarrow> bit (unat pa) i" by (simp add: bit_unsigned_iff)
    ultimately have high: "bit pa i \<Longrightarrow> i < 56" by (metis bit_take_bit_iff)
    show "bit (rv_frame_field pa) i = bit pa i" unfolding rv_frame_field_bit using low high by blast
  qed
  then show ?thesis by (simp add: Pte_new_addr Pte_new_flags Pte_new_valid Pte_new_leaf)
qed

theorem rv_entry_roundtrip_witness: "Pte_addr (Pte_new 0x80005000 RV_R) = 0x80005000"
  using conjunct2 [OF conjunct2 [OF conjunct2 [OF conjunct2 [OF rv_entry_roundtrip [of "0x80005000" RV_R]]]]]
  by (simp add: is_page_aligned_def PAGE_SIZE_def)

text \<open>
  A successful map inserts exactly one page: with an allocator that hands out frames that are
  not tables of this space, the page was unmapped before, every address in it now translates into
  the given frame with the given flags, every other page translates as before, links created on the
  way notwithstanding, and tables of different paths still do not alias.
\<close>

theorem rv_map_inserts_one_page:
  assumes "fresh_source ok avail fa" and "ok s" and "rv_space_ok sp mem (avail s)"
    and "RvSpace_map fa sp va pa flags (mem, s) = (Inr (), mem', s')"
  shows "rv_translate sp va mem = None
    \<and> (\<forall>va'. rv_translate sp va' mem' =
         (if rv_path va' = rv_path va then Some (rv_frame_field pa + (va' AND (PAGE_SIZE - 1))) else rv_translate sp va' mem))
    \<and> rv_leaf_flags sp va mem' = Some (rv_from_bits_truncate (flags OR RV_V)) \<and> rv_intersects flags RWX
    \<and> ok s' \<and> rv_space_ok sp mem' (avail s')"
  by (rule rv_map_outcome [OF assms])

text \<open>
  A failed map changes no translation, even when it has already created intermediate tables
  before running out of frames.
\<close>

theorem rv_failed_map_changes_nothing:
  assumes "fresh_source ok avail fa" and "ok s" and "rv_space_ok sp mem (avail s)"
    and "RvSpace_map fa sp va pa flags (mem, s) = (Inl e, mem', s')"
  shows "rv_translate sp va' mem' = rv_translate sp va' mem \<and> ok s' \<and> rv_space_ok sp mem' (avail s')"
  by (rule rv_map_failure [OF assms])

text \<open>
  Unmap removes exactly one page: it returns the frame the page's level-0 entry named and afterwards the
  page does not rv_translate while every other page translates as before; when it returns nothing the
  memory is unchanged and the page had no 4 KiB leaf.
\<close>

theorem rv_unmap_removes_one_page:
  assumes "rv_space_ok sp mem F" and "RvSpace_unmap sp va mem = (r, mem')"
  shows "rv_space_ok sp mem' F \<and> (case r of
      None \<Rightarrow> mem' = mem
    | Some pa \<Rightarrow> rv_translate sp va mem \<in> {None, Some (pa + (va AND (PAGE_SIZE - 1)))}
        \<and> (\<forall>va'. rv_translate sp va' mem' = (if rv_path va' = rv_path va then None else rv_translate sp va' mem)))"
proof (cases r)
  case None
  then show ?thesis using rv_unmap_facts(1,2) [OF assms] by simp
next
  case (Some pa)
  note f = rv_unmap_facts(3) [OF assms Some]
  have len: "length (rv_path va') = 3" for va' by (simp add: rv_path_def)
  have "rv_translate sp va' mem' = rv_translate sp va' mem" if "rv_path va' \<noteq> rv_path va" for va'
    using f that len by (simp add: rv_translate_eq)
  moreover have "rv_translate sp va' mem' = None" if "rv_path va' = rv_path va" for va'
    using f that by (simp add: rv_translate_eq rv_decode_def is_valid_bit)
  moreover have "rv_translate sp va mem \<in> {None, Some (pa + (va AND (PAGE_SIZE - 1)))}"
  proof -
    obtain e where e: "stop_entry rv_next_table (rv_view sp mem) (rv_root sp) (rv_path va) = (0, e)" "is_valid e" "pa = Pte_addr e"
      using f by blast
    have "rv_decode va (0, e) = None" if "\<not> is_leaf e" using that by (simp add: rv_decode_def)
    moreover have "rv_decode va (0, e) = Some (pa + (va AND (PAGE_SIZE - 1)))" if "is_leaf e"
      using rv_decode_page [OF e(2) that, of "Pte_addr e" va] e(3) by (simp add: Pte_addr_field)
    ultimately show ?thesis using e(1) by (auto simp: rv_translate_eq)
  qed
  ultimately show ?thesis using rv_unmap_facts(1) [OF assms] Some by simp
qed

text \<open>
  A fresh address space is empty: create takes one frame from the allocator, zeroes it as the
  root, and in the resulting space no address translates and no table aliases an available frame;
  without a frame it fails and changes no memory.
\<close>

theorem rv_create_is_empty:
  assumes "fresh_source ok avail fa" and "ok s" and "\<forall>f \<in> avail s. rv_table_frame f"
    and "RvSpace_create fa off (mem, s) = (r, mem', s')"
  shows "case r of None \<Rightarrow> mem' = mem \<and> fst (fa s) = None
    | Some sp \<Rightarrow> rv_root sp \<in> avail s \<and> rv_offset sp = off \<and> ok s' \<and> rv_space_ok sp mem' (avail s') \<and> rv_translate sp va mem' = None"
proof (cases "fa s")
  case (Pair a s1)
  show ?thesis
  proof (cases a)
    case None
    then show ?thesis using Pair assms(4) by (auto simp: RvSpace_create_def)
  next
    case (Some root)
    let ?sp = "RvSpace_new root off"
    have src: "ok s1" "root \<in> avail s" "avail s1 \<subseteq> avail s - {root}"
      using fresh_source_Some [OF assms(1,2)] Pair Some by auto
    have m: "r = Some ?sp" "mem' = mem(rv_table_ptr ?sp root := RvTable_new)" "s' = s1"
      using Pair Some assms(4) by (auto simp: RvSpace_create_def Let_def)
    have "rv_root ?sp = root" "rv_offset ?sp = off" by (simp_all add: RvSpace_new_def)
    moreover have "rv_view ?sp mem' (rv_root ?sp) i = 0" for i using m(2) by (simp add: RvSpace_new_def)
    ultimately show ?thesis using m src rv_empty_root [of ?sp mem' "avail s1"] assms(3) by auto
  qed
qed


section \<open>A concrete space\<close>

definition rv_demo :: RvSpace where
  "rv_demo = RvSpace_new 0x1000 0"

definition rv_demo_mapped :: "(RvMapError + unit) \<times> ptmem \<times> u64 list" where
  "rv_demo_mapped = RvSpace_map list_source rv_demo 0x40000000 0x9000 (RV_R OR RV_U)
     (\<lambda>_ _. 0, [0x2000, 0x3000, 0x4000])"

lemma rv_demo_empty: "rv_space_ok rv_demo (\<lambda>_ _. 0) (set [0x2000, 0x3000, 0x4000])"
proof (rule rv_empty_root(1))
  show "rv_view rv_demo (\<lambda>_ _. 0) (rv_root rv_demo) i = 0" for i by (simp only: rv_view_def rv_read_entry_def)
qed (simp add: rv_table_frame_def rv_frame_field_def PPN_BITS_def PAGE_SHIFT_def rv_demo_def RvSpace_new_def)

lemma rv_demo_ok: "fst rv_demo_mapped = Inr ()"
  by (simp add: rv_demo_mapped_def RvSpace_map_def is_page_aligned_def PAGE_SIZE_def Let_def list_source_def
      is_valid_bit rv_intersects_def and_RWX RV_R_def RV_U_def bit_simps rv_read_entry_def rv_demo_def RvSpace_new_def rv_write_entry_def rv_table_ptr_def
      RvTable_new_def Pte_EMPTY_def del: rv_view_simps)

lemma rv_demo_run: "RvSpace_map list_source rv_demo 0x40000000 0x9000 (RV_R OR RV_U)
    (\<lambda>_ _. 0, [0x2000, 0x3000, 0x4000]) = (Inr (), fst (snd rv_demo_mapped), snd (snd rv_demo_mapped))"
  using rv_demo_ok by (simp add: rv_demo_mapped_def prod_eq_iff)

theorem rv_map_inserts_one_page_witness:
  "rv_translate rv_demo 0x40000123 (fst (snd rv_demo_mapped)) = Some 0x9123
   \<and> rv_translate rv_demo 0x40001123 (fst (snd rv_demo_mapped)) = None"
proof -
  have i: "distinct [0x2000, 0x3000, 0x4000 :: u64]" by simp
  note m = rv_map_inserts_one_page [OF list_source_fresh i rv_demo_empty rv_demo_run]
  have p: "rv_path 0x40000123 = rv_path 0x40000000" "rv_path 0x40001123 \<noteq> rv_path 0x40000000"
    by (simp_all add: rv_path_def table_index_def PAGE_SHIFT_def)
  have "rv_translate rv_demo 0x40001123 (\<lambda>_ _. 0) = None"
    by (rule rv_empty_root(2)) (auto simp: rv_view_def [unfolded rv_read_entry_def] rv_read_entry_def simp del: rv_view_simps)
  then show ?thesis using m p by (simp add: rv_frame_field_def PPN_BITS_def PAGE_SHIFT_def PAGE_SIZE_def)
qed

theorem rv_failed_map_changes_nothing_witness:
  "rv_translate rv_demo 0x40000000 (fst (snd (RvSpace_map list_source rv_demo 0x40000001 0x9000 0 (\<lambda>_ _. 0, [0x2000, 0x3000, 0x4000]))))
   = rv_translate rv_demo 0x40000000 (\<lambda>_ _. 0)"
proof -
  have i: "distinct [0x2000, 0x3000, 0x4000 :: u64]" by simp
  have "RvSpace_map list_source rv_demo 0x40000001 0x9000 0 (\<lambda>_ _. 0, [0x2000, 0x3000, 0x4000])
    = (Inl RvUnalignedVirt, \<lambda>_ _. 0, [0x2000, 0x3000, 0x4000])"
    by (simp add: RvSpace_map_def is_page_aligned_def PAGE_SIZE_def)
  with rv_failed_map_changes_nothing [OF list_source_fresh i rv_demo_empty this] show ?thesis by simp
qed

theorem rv_unmap_removes_one_page_witness:
  "\<exists>pa mem'. RvSpace_unmap rv_demo 0x40000000 (fst (snd rv_demo_mapped)) = (pa, mem')
     \<and> rv_translate rv_demo 0x40000000 mem' = None"
proof -
  let ?m = "fst (snd rv_demo_mapped)"
  have i: "distinct [0x2000, 0x3000, 0x4000 :: u64]" by simp
  note m = rv_map_facts [OF list_source_fresh i rv_demo_empty rv_demo_run]
  obtain r mem' where u: "RvSpace_unmap rv_demo 0x40000000 ?m = (r, mem')" by (cases "RvSpace_unmap rv_demo 0x40000000 ?m")
  have "r \<noteq> None"
    using rv_unmap_facts(2) [OF m(2) u] m(4) Pte_new_valid by auto
  with rv_unmap_removes_one_page [OF m(2) u] have "rv_translate rv_demo 0x40000000 mem' = None" by (cases r) auto
  with u show ?thesis by blast
qed

theorem rv_create_is_empty_witness:
  "\<exists>sp mem'. RvSpace_create list_source 0 (\<lambda>_ _. 1, [0x2000, 0x3000]) = (Some sp, mem', [0x3000]) \<and> rv_translate sp 0 mem' = None"
proof -
  let ?sp = "RvSpace_new 0x2000 0"
  have i: "distinct [0x2000, 0x3000 :: u64]" by simp
  have f: "\<forall>f \<in> set [0x2000, 0x3000]. rv_table_frame f" by (simp add: rv_table_frame_def rv_frame_field_def PPN_BITS_def PAGE_SHIFT_def)
  have run: "RvSpace_create list_source 0 (\<lambda>_ _. 1, [0x2000, 0x3000])
    = (Some ?sp, (\<lambda>_ _. 1)(rv_table_ptr ?sp 0x2000 := RvTable_new), [0x3000])"
    by (simp add: RvSpace_create_def list_source_def Let_def)
  from rv_create_is_empty [OF list_source_fresh i f run, of 0] run show ?thesis by auto
qed

end
