(* ===== verification/Pages.thy ===== *)
theory Pages
  imports Abi
begin

text \<open>
  Addresses split into a page and an offset, as the walks and the loaders split them.
\<close>

definition page_of :: "u64 \<Rightarrow> u64" where
  "page_of va = va AND NOT (PAGE_SIZE - 1)"

definition page_off :: "u64 \<Rightarrow> nat" where
  "page_off va = unat (va AND (PAGE_SIZE - 1))"

lemma page_mask: "PAGE_SIZE - 1 = mask 12"
  by (simp add: PAGE_SIZE_def mask_eq_exp_minus_1)

lemma page_off_mod: "page_off va = unat va mod 4096"
proof -
  have "va AND (PAGE_SIZE - 1) = va mod 4096" unfolding page_mask by (simp add: take_bit_eq_mask [symmetric] take_bit_eq_mod)
  then show ?thesis by (simp add: page_off_def unat_mod)
qed

lemma page_split: "page_of va + (va AND (PAGE_SIZE - 1)) = va"
  unfolding page_of_def page_mask
  by (subst disjunctive_add) (auto simp: bit_simps intro!: bit_word_eqI)

lemma unat_page_of: "unat (page_of va) = unat va - unat va mod 4096"
proof -
  have "page_of va = va - (va AND (PAGE_SIZE - 1))" using page_split [of va] by (metis add_diff_cancel_right')
  moreover have "va AND (PAGE_SIZE - 1) \<le> va" by (rule word_and_le2)
  ultimately show ?thesis using page_off_mod [of va] by (simp add: unat_sub page_off_def)
qed

lemma page_of_le: "unat (page_of va) \<le> unat va" "unat va = unat (page_of va) + page_off va" "page_off va < 4096"
  by (simp_all add: unat_page_of page_off_mod)

lemma le_page: "4096 * k \<le> n \<Longrightarrow> 4096 * k \<le> 4096 * (n div (4096 :: nat))"
  by (simp add: less_eq_div_iff_mult_less_eq)

lemma aligned_mod: "is_page_aligned va \<longleftrightarrow> unat va mod 4096 = 0"
  unfolding is_page_aligned_def page_off_mod [symmetric] page_off_def by (simp add: unat_eq_zero)

lemma page_of_aligned: "is_page_aligned (page_of va)"
  by (simp add: aligned_mod unat_page_of minus_mod_self2 mod_eq_0_iff_dvd) 

lemma page_of_eq:
  assumes "is_page_aligned p"
  shows "page_of va = p \<longleftrightarrow> unat p \<le> unat va \<and> unat va < unat p + 4096"
proof
  assume "page_of va = p"
  then show "unat p \<le> unat va \<and> unat va < unat p + 4096" using page_of_le [of va] by auto
next
  assume r: "unat p \<le> unat va \<and> unat va < unat p + 4096"
  obtain k where k: "unat p = 4096 * k" using assms by (auto simp: aligned_mod)
  obtain d where d: "unat va = 4096 * k + d" "d < 4096" using r k nat_le_iff_add by auto
  then have "unat va mod 4096 = unat va - unat p" using k by simp
  then have "unat (page_of va) = unat p" using r unfolding unat_page_of by simp
  then show "page_of va = p" by (rule unsigned_word_eqI)
qed

lemma page_of_frame:
  assumes "is_page_aligned f"
  shows "page_of (f + (va AND (PAGE_SIZE - 1))) = f" and "page_off (f + (va AND (PAGE_SIZE - 1))) = page_off va"
proof -
  let ?x = "va AND (PAGE_SIZE - 1)"
  have x: "unat ?x < 4096" using page_of_le(3) [of va] by (simp add: page_off_def)
  obtain k where k: "unat f = 4096 * k" using assms by (auto simp: aligned_mod)
  have "unat f < 2 ^ 64" using unsigned_less [of f] by simp
  then have "k < 2 ^ 52" using k by simp
  then have "unat f + 4096 \<le> 2 ^ 64" using k by simp
  then have u: "unat (f + ?x) = unat f + unat ?x" using x by (simp add: unat_word_ariths)
  show p: "page_of (f + ?x) = f" unfolding page_of_eq [OF assms] u using x by simp
  show "page_off (f + ?x) = page_off va" unfolding page_off_mod u using k x by (simp add: page_off_mod [symmetric] page_off_def)
qed

text \<open>Two addresses below a bound lie in one page when their table indices agree.\<close>

lemma table_index_eq:
  "table_index va l = table_index va' l \<longleftrightarrow> (\<forall>i. 12 + 9 * l \<le> i \<and> i < 21 + 9 * l \<longrightarrow> bit va i = bit va' i)"
proof -
  have m: "(0x1ff :: u64) = mask 9" by (simp add: mask_eq_exp_minus_1)
  have b: "bit (drop_bit (12 + 9 * l) v AND mask 9) i \<longleftrightarrow> bit v (12 + 9 * l + i) \<and> i < 9" for v :: u64 and i
    by (auto simp: bit_simps dest: bit_imp_le_length)
  have "table_index va l = table_index va' l \<longleftrightarrow> drop_bit (12 + 9 * l) va AND mask 9 = drop_bit (12 + 9 * l) va' AND mask 9"
    unfolding table_index_def m PAGE_SHIFT_def word_unat_eq_iff ..
  also have "\<dots> \<longleftrightarrow> (\<forall>i. i < 9 \<longrightarrow> bit va (12 + 9 * l + i) = bit va' (12 + 9 * l + i))"
  proof
    assume e: "drop_bit (12 + 9 * l) va AND mask 9 = drop_bit (12 + 9 * l) va' AND mask 9"
    show "\<forall>i<9. bit va (12 + 9 * l + i) = bit va' (12 + 9 * l + i)" using b [of va] b [of va'] unfolding e by blast
  next
    assume "\<forall>i<9. bit va (12 + 9 * l + i) = bit va' (12 + 9 * l + i)"
    then show "drop_bit (12 + 9 * l) va AND mask 9 = drop_bit (12 + 9 * l) va' AND mask 9"
      by (intro bit_eqI) (simp only: b, blast)
  qed
  also have "\<dots> \<longleftrightarrow> (\<forall>i. 12 + 9 * l \<le> i \<and> i < 21 + 9 * l \<longrightarrow> bit va i = bit va' i)"
  proof
    assume h: "\<forall>i<9. bit va (12 + 9 * l + i) = bit va' (12 + 9 * l + i)"
    have "bit va i = bit va' i" if "12 + 9 * l \<le> i \<and> i < 21 + 9 * l" for i
    proof -
      have "i - (12 + 9 * l) < 9" using that by linarith
      then show ?thesis using h [rule_format, of "i - (12 + 9 * l)"] that by simp
    qed
    then show "\<forall>i. 12 + 9 * l \<le> i \<and> i < 21 + 9 * l \<longrightarrow> bit va i = bit va' i" by blast
  qed simp
  finally show ?thesis .
qed

lemma page_of_bit: "bit (page_of va) i \<longleftrightarrow> 12 \<le> i \<and> bit va i"
  unfolding page_of_def page_mask by (auto simp: bit_simps dest: bit_imp_le_length)

lemma high_bit: "unat (va :: u64) < 2 ^ n \<Longrightarrow> n \<le> i \<Longrightarrow> \<not> bit va i"
proof -
  assume "unat va < 2 ^ n" "n \<le> i"
  then have "unat (take_bit n va) = unat va" by (simp add: unsigned_take_bit_eq take_bit_nat_eq_self)
  then have "take_bit n va = va" by (rule unsigned_word_eqI)
  then have "bit va i = (i < n \<and> bit va i)" by (metis bit_take_bit_iff)
  with \<open>n \<le> i\<close> show ?thesis by simp
qed

lemma page_of_indices:
  assumes "unat va < 2 ^ (12 + 9 * n)" and "unat va' < 2 ^ (12 + 9 * n)"
  shows "page_of va = page_of va' \<longleftrightarrow> (\<forall>l < n. table_index va l = table_index va' l)"
proof
  assume "page_of va = page_of va'"
  then have "12 \<le> i \<Longrightarrow> bit va i = bit va' i" for i by (metis page_of_bit)
  then show "\<forall>l < n. table_index va l = table_index va' l" unfolding table_index_eq by simp
next
  assume a: "\<forall>l < n. table_index va l = table_index va' l"
  have "bit va i = bit va' i" if "12 \<le> i" for i
  proof (cases "i < 12 + 9 * n")
    case True
    define l where "l = (i - 12) div 9"
    have l: "12 + 9 * l \<le> i" "i < 21 + 9 * l" "l < n" using that True unfolding l_def by linarith+
    then show ?thesis using a table_index_eq by blast
  next
    case False
    then show ?thesis using high_bit [OF assms(1)] high_bit [OF assms(2)] by simp
  qed
  then show "page_of va = page_of va'" by (intro bit_eqI) (auto simp: page_of_bit)
qed

end
