(* ===== verification/Loader.thy ===== *)
theory Loader
  imports Pages Radix
begin

text \<open>
  The static ELF64 loaders (src/crates/loader, src/crates/loader-riscv). The two crates differ in
  the machine number, the leaf permissions and the page tables they map into, so the parsing and
  the page loop are definitions with those three as arguments, and each crate's loader is an
  instance. A locale states what a loader needs of a mapper; both page-table crates with the
  bitmap allocator are interpretations, and over it a loaded image is shown to be in memory byte
  for byte and nothing else to be mapped.

  The contents of a frame are a list of bytes found by its pointer in the physical window. Frames
  holding data and frames holding page tables are kept in two stores: the allocator never hands
  out one frame twice.
\<close>

section \<open>ELF64 layout\<close>

definition ELF_MAGIC :: "u8 list" where "ELF_MAGIC = [0x7F, 0x45, 0x4C, 0x46]"
definition EI_CLASS :: usize where "EI_CLASS = 4"
definition ELFCLASS64 :: u8 where "ELFCLASS64 = 2"
definition OFF_E_TYPE :: usize where "OFF_E_TYPE = 16"
definition ET_EXEC :: u16 where "ET_EXEC = 2"
definition OFF_E_MACHINE :: usize where "OFF_E_MACHINE = 18"
definition EM_X86_64 :: u16 where "EM_X86_64 = 0x3E"
definition EM_RISCV :: u16 where "EM_RISCV = 0xF3"
definition OFF_E_ENTRY :: usize where "OFF_E_ENTRY = 24"
definition OFF_E_PHOFF :: usize where "OFF_E_PHOFF = 32"
definition OFF_E_PHENTSIZE :: usize where "OFF_E_PHENTSIZE = 54"
definition OFF_E_PHNUM :: usize where "OFF_E_PHNUM = 56"
definition EHDR_SIZE :: usize where "EHDR_SIZE = 64"
definition PHDR_SIZE :: usize where "PHDR_SIZE = 56"
definition OFF_P_TYPE :: usize where "OFF_P_TYPE = 0"
definition OFF_P_FLAGS :: usize where "OFF_P_FLAGS = 4"
definition OFF_P_OFFSET :: usize where "OFF_P_OFFSET = 8"
definition OFF_P_VADDR :: usize where "OFF_P_VADDR = 16"
definition OFF_P_FILESZ :: usize where "OFF_P_FILESZ = 32"
definition OFF_P_MEMSZ :: usize where "OFF_P_MEMSZ = 40"
definition PT_LOAD :: u32 where "PT_LOAD = 1"
definition PF_X :: u32 where "PF_X = 1"
definition PF_W :: u32 where "PF_W = 2"

record Loaded =
  entry :: VirtAddr

datatype LoadError = BadMagic | Not64 | NotExec | BadMachine | Truncated | LoadOutOfFrames | MapFailed

section \<open>Little-endian readers\<close>

definition from_le_bytes :: "u8 list \<Rightarrow> 'a::len word" where
  "from_le_bytes bs = foldr (\<lambda>b acc. push_bit 8 acc OR ucast b) bs 0"

text \<open>\<open>b.get(off..off + n)\<close> after the checked addition.\<close>

definition get_bytes :: "u8 list \<Rightarrow> usize \<Rightarrow> usize \<Rightarrow> LoadError + u8 list" where
  "get_bytes b off n =
     (if 2 ^ 64 \<le> off + n then Inl Truncated
      else if length b < off + n then Inl Truncated
      else Inr (take n (drop off b)))"

definition rd_u16 :: "u8 list \<Rightarrow> usize \<Rightarrow> LoadError + u16" where
  "rd_u16 b off = (case get_bytes b off 2 of Inl e \<Rightarrow> Inl e | Inr s \<Rightarrow> Inr (from_le_bytes s))"

definition rd_u32 :: "u8 list \<Rightarrow> usize \<Rightarrow> LoadError + u32" where
  "rd_u32 b off = (case get_bytes b off 4 of Inl e \<Rightarrow> Inl e | Inr s \<Rightarrow> Inr (from_le_bytes s))"

definition rd_u64 :: "u8 list \<Rightarrow> usize \<Rightarrow> LoadError + u64" where
  "rd_u64 b off = (case get_bytes b off 8 of Inl e \<Rightarrow> Inl e | Inr s \<Rightarrow> Inr (from_le_bytes s))"

definition and_then :: "LoadError + 'a \<Rightarrow> ('a \<Rightarrow> LoadError + 'b) \<Rightarrow> LoadError + 'b" where
  "and_then m f = (case m of Inl e \<Rightarrow> Inl e | Inr x \<Rightarrow> f x)"

section \<open>Segments\<close>

type_synonym 's load_state = "ptmem \<times> (u64 \<Rightarrow> u8 list) \<times> 's"

text \<open>The contents of one page: zero, then the file-backed bytes over it.\<close>

definition page_bytes :: "u8 list \<Rightarrow> u64 \<Rightarrow> u64 \<Rightarrow> u64 \<Rightarrow> u64 \<Rightarrow> LoadError + u8 list" where
  "page_bytes elf p_offset p_vaddr copy_end_va page_va =
     (let page = replicate 4096 0;
          page_end = saturating_add page_va PAGE_SIZE;
          copy_va_start = max page_va p_vaddr;
          copy_va_end = min page_end copy_end_va
      in if copy_va_start < copy_va_end
         then let intra = unat (copy_va_start - page_va); len = unat (copy_va_end - copy_va_start)
              in case checked_add p_offset (copy_va_start - p_vaddr) of
                   None \<Rightarrow> Inl Truncated
                 | Some file_start \<Rightarrow>
                     and_then (get_bytes elf (unat file_start) len)
                       (\<lambda>src. Inr (take intra page @ src @ drop (intra + len) page))
         else Inr page)"

function load_pages ::
    "(VirtAddr \<Rightarrow> PhysAddr \<Rightarrow> u64 \<Rightarrow> ptmem \<times> 's \<Rightarrow> ('e + unit) \<times> ptmem \<times> 's) \<Rightarrow> ('s \<Rightarrow> u64 option \<times> 's) \<Rightarrow> u64
     \<Rightarrow> u8 list \<Rightarrow> u64 \<Rightarrow> u64 \<Rightarrow> u64 \<Rightarrow> u64 \<Rightarrow> u64 \<Rightarrow> u64 \<Rightarrow> 's load_state \<Rightarrow> (LoadError + unit) \<times> 's load_state" where
  "load_pages mapf fa off elf flags p_offset p_vaddr copy_end_va seg_end_va page_va (mem, pages, s) =
     (if page_va < seg_end_va
      then case fa s of
             (None, s1) \<Rightarrow> (Inl LoadOutOfFrames, mem, pages, s1)
           | (Some frame, s1) \<Rightarrow>
               (case page_bytes elf p_offset p_vaddr copy_end_va page_va of
                  Inl e \<Rightarrow> (Inl e, mem, pages(off + frame := replicate 4096 0), s1)
                | Inr page \<Rightarrow>
                    (case mapf page_va frame flags (mem, s1) of
                       (Inl _, mem', s') \<Rightarrow> (Inl MapFailed, mem', pages(off + frame := page), s')
                     | (Inr _, mem', s') \<Rightarrow>
                         (case checked_add page_va PAGE_SIZE of
                            Some nxt \<Rightarrow> load_pages mapf fa off elf flags p_offset p_vaddr copy_end_va seg_end_va nxt
                                          (mem', pages(off + frame := page), s')
                          | None \<Rightarrow> (Inr (), mem', pages(off + frame := page), s'))))
      else (Inr (), mem, pages, s))"
  by pat_completeness auto

termination
  by (relation "measure (\<lambda>(mapf, fa, off, elf, flags, po, pv, ce, se, page_va, st). unat se - unat page_va)")
     (auto dest!: unat_checked_add simp: word_less_nat_alt PAGE_SIZE_def)

declare load_pages.simps [simp del]

definition load_segment ::
    "(u32 \<Rightarrow> u64) \<Rightarrow> (VirtAddr \<Rightarrow> PhysAddr \<Rightarrow> u64 \<Rightarrow> ptmem \<times> 's \<Rightarrow> ('e + unit) \<times> ptmem \<times> 's) \<Rightarrow> ('s \<Rightarrow> u64 option \<times> 's) \<Rightarrow> u64
     \<Rightarrow> u8 list \<Rightarrow> u32 \<Rightarrow> u64 \<Rightarrow> u64 \<Rightarrow> u64 \<Rightarrow> u64 \<Rightarrow> 's load_state \<Rightarrow> (LoadError + unit) \<times> 's load_state" where
  "load_segment leaf_perms mapf fa off elf p_flags p_offset p_vaddr p_filesz p_memsz st =
     (if p_memsz = 0 then (Inr (), st)
      else case checked_add p_vaddr p_memsz of
             None \<Rightarrow> (Inl Truncated, st)
           | Some seg_end_va \<Rightarrow>
               (case checked_add p_vaddr p_filesz of
                  None \<Rightarrow> (Inl Truncated, st)
                | Some file_end_va \<Rightarrow>
                    load_pages mapf fa off elf (leaf_perms p_flags) p_offset p_vaddr (min file_end_va seg_end_va)
                      seg_end_va (p_vaddr AND NOT (PAGE_SIZE - 1)) st))"

section \<open>The program-header walk\<close>

record Phdr =
  ph_flags :: u32
  ph_offset :: u64
  ph_vaddr :: u64
  ph_filesz :: u64
  ph_memsz :: u64

text \<open>One header: an error, a header that is not loadable, or a segment.\<close>

definition read_phdr :: "u8 list \<Rightarrow> u64 \<Rightarrow> u64 \<Rightarrow> u64 \<Rightarrow> LoadError + Phdr option" where
  "read_phdr elf e_phoff e_phentsize i =
     (case checked_mul i e_phentsize of
        None \<Rightarrow> Inl Truncated
      | Some stride \<Rightarrow>
          (case checked_add e_phoff stride of
             None \<Rightarrow> Inl Truncated
           | Some ph_off64 \<Rightarrow>
               let ph_off = unat ph_off64
               in if 2 ^ 64 \<le> ph_off + PHDR_SIZE then Inl Truncated
                  else if length elf < ph_off + PHDR_SIZE then Inl Truncated
                  else and_then (rd_u32 elf (ph_off + OFF_P_TYPE)) (\<lambda>p_type.
                    if p_type \<noteq> PT_LOAD then Inr None
                    else and_then (rd_u32 elf (ph_off + OFF_P_FLAGS)) (\<lambda>p_flags.
                      and_then (rd_u64 elf (ph_off + OFF_P_OFFSET)) (\<lambda>p_offset.
                      and_then (rd_u64 elf (ph_off + OFF_P_VADDR)) (\<lambda>p_vaddr.
                      and_then (rd_u64 elf (ph_off + OFF_P_FILESZ)) (\<lambda>p_filesz.
                      and_then (rd_u64 elf (ph_off + OFF_P_MEMSZ)) (\<lambda>p_memsz.
                      Inr (Some \<lparr>ph_flags = p_flags, ph_offset = p_offset, ph_vaddr = p_vaddr,
                                 ph_filesz = p_filesz, ph_memsz = p_memsz\<rparr>)))))))))"

fun load_phdrs ::
    "(u32 \<Rightarrow> u64) \<Rightarrow> (VirtAddr \<Rightarrow> PhysAddr \<Rightarrow> u64 \<Rightarrow> ptmem \<times> 's \<Rightarrow> ('e + unit) \<times> ptmem \<times> 's) \<Rightarrow> ('s \<Rightarrow> u64 option \<times> 's) \<Rightarrow> u64
     \<Rightarrow> u8 list \<Rightarrow> u64 \<Rightarrow> u64 \<Rightarrow> nat list \<Rightarrow> 's load_state \<Rightarrow> (LoadError + unit) \<times> 's load_state" where
  "load_phdrs leaf_perms mapf fa off elf e_phoff e_phentsize [] st = (Inr (), st)"
| "load_phdrs leaf_perms mapf fa off elf e_phoff e_phentsize (i # is) st =
     (case read_phdr elf e_phoff e_phentsize (of_nat i) of
        Inl e \<Rightarrow> (Inl e, st)
      | Inr None \<Rightarrow> load_phdrs leaf_perms mapf fa off elf e_phoff e_phentsize is st
      | Inr (Some p) \<Rightarrow>
          (case load_segment leaf_perms mapf fa off elf (ph_flags p) (ph_offset p) (ph_vaddr p) (ph_filesz p) (ph_memsz p) st of
             (Inl e, st') \<Rightarrow> (Inl e, st')
           | (Inr _, st') \<Rightarrow> load_phdrs leaf_perms mapf fa off elf e_phoff e_phentsize is st'))"

text \<open>The validated header: entry, program-header offset, entry size and count.\<close>

definition check_ehdr :: "u16 \<Rightarrow> u8 list \<Rightarrow> LoadError + (u64 \<times> u64 \<times> u16 \<times> u16)" where
  "check_ehdr machine elf =
     (if length elf < EHDR_SIZE then Inl Truncated
      else if elf ! 0 \<noteq> ELF_MAGIC ! 0 \<or> elf ! 1 \<noteq> ELF_MAGIC ! 1 \<or> elf ! 2 \<noteq> ELF_MAGIC ! 2 \<or> elf ! 3 \<noteq> ELF_MAGIC ! 3
      then Inl BadMagic
      else if elf ! EI_CLASS \<noteq> ELFCLASS64 then Inl Not64
      else and_then (rd_u16 elf OFF_E_MACHINE) (\<lambda>e_machine.
        if e_machine \<noteq> machine then Inl BadMachine
        else and_then (rd_u16 elf OFF_E_TYPE) (\<lambda>e_type.
          if e_type \<noteq> ET_EXEC then Inl NotExec
          else and_then (rd_u64 elf OFF_E_ENTRY) (\<lambda>e_entry.
            and_then (rd_u64 elf OFF_E_PHOFF) (\<lambda>e_phoff.
            and_then (rd_u16 elf OFF_E_PHENTSIZE) (\<lambda>e_phentsize.
            and_then (rd_u16 elf OFF_E_PHNUM) (\<lambda>e_phnum. Inr (e_entry, e_phoff, e_phentsize, e_phnum))))))))"

definition load_elf_with ::
    "u16 \<Rightarrow> (u32 \<Rightarrow> u64) \<Rightarrow> (VirtAddr \<Rightarrow> PhysAddr \<Rightarrow> u64 \<Rightarrow> ptmem \<times> 's \<Rightarrow> ('e + unit) \<times> ptmem \<times> 's) \<Rightarrow> ('s \<Rightarrow> u64 option \<times> 's)
     \<Rightarrow> u64 \<Rightarrow> u8 list \<Rightarrow> 's load_state \<Rightarrow> (LoadError + Loaded) \<times> 's load_state" where
  "load_elf_with machine leaf_perms mapf fa off elf st =
     (case check_ehdr machine elf of
        Inl e \<Rightarrow> (Inl e, st)
      | Inr (e_entry, e_phoff, e_phentsize, e_phnum) \<Rightarrow>
          (case load_phdrs leaf_perms mapf fa off elf e_phoff (ucast e_phentsize) [0..<unat e_phnum] st of
             (Inl e, st') \<Rightarrow> (Inl e, st')
           | (Inr _, st') \<Rightarrow> (Inr \<lparr>entry = e_entry\<rparr>, st')))"

section \<open>What a page holds\<close>

text \<open>The byte the image puts at a virtual address of a segment.\<close>

definition seg_byte :: "u8 list \<Rightarrow> u64 \<Rightarrow> u64 \<Rightarrow> u64 \<Rightarrow> u64 \<Rightarrow> u8" where
  "seg_byte elf p_offset p_vaddr copy_end_va va =
     (if p_vaddr \<le> va \<and> va < copy_end_va then elf ! (unat p_offset + (unat va - unat p_vaddr)) else 0)"

lemma length_slice: "a + n \<le> length xs \<Longrightarrow> length (take n (drop a xs)) = n"
  by simp

lemma nth_slice: "a + n \<le> length xs \<Longrightarrow> k < n \<Longrightarrow> take n (drop a xs) ! k = xs ! (a + k)"
  by simp

lemma overlay_nth:
  fixes src :: "u8 list"
  assumes "i + n \<le> 4096" and "length src = n"
  defines "bs \<equiv> take i (replicate 4096 0) @ src @ drop (i + n) (replicate 4096 0)"
  shows "length bs = 4096" and "k < 4096 \<Longrightarrow> bs ! k = (if i \<le> k \<and> k < i + n then src ! (k - i) else 0)"
  using assms(1,2) by (auto simp: bs_def nth_append)

lemma page_bytes_nth:
  assumes "page_bytes elf po pv ce page_va = Inr bs" and "is_page_aligned page_va" and "unat page_va + 4096 < 2 ^ 64"
    and "page_of va = page_va"
  shows "length bs = 4096" and "bs ! page_off va = seg_byte elf po pv ce va"
proof -
  let ?A = "unat page_va" and ?P = "unat pv" and ?C = "unat ce" and ?k = "page_off va"
  let ?start = "max page_va pv" and ?stop = "min (saturating_add page_va PAGE_SIZE) ce"
  have pe: "unat (saturating_add page_va PAGE_SIZE) = ?A + 4096"
    using assms(3) by (simp add: unat_saturating_add PAGE_SIZE_def)
  have S: "unat ?start = max ?A ?P" by (simp add: max_def word_le_nat_alt)
  have E: "unat ?stop = min (?A + 4096) ?C" using pe by (simp add: min_def word_le_nat_alt)
  have va: "unat va = ?A + ?k" "?k < 4096" using page_of_le [of va] assms(4) by auto
  show "length bs = 4096" and "bs ! ?k = seg_byte elf po pv ce va"
  proof (atomize (full), cases "?start < ?stop")
    case False
    have bs: "bs = replicate 4096 0" using assms(1) unfolding page_bytes_def Let_def if_not_P [OF False] by simp
    have "\<not> (max ?A ?P < min (?A + 4096) ?C)" using False unfolding word_less_nat_alt S E .
    then have "\<not> (pv \<le> va \<and> va < ce)" using va by (auto simp: word_le_nat_alt word_less_nat_alt)
    then have "seg_byte elf po pv ce va = 0" by (simp only: seg_byte_def if_False)
    with bs va show "length bs = 4096 \<and> bs ! ?k = seg_byte elf po pv ce va" by simp
  next
    case True
    then have lt: "max ?A ?P < min (?A + 4096) ?C" by (simp only: word_less_nat_alt S E)
    let ?intra = "max ?A ?P - ?A" and ?len = "min (?A + 4096) ?C - max ?A ?P"
    have "page_va \<le> ?start" "pv \<le> ?start" "?start \<le> ?stop" using True by auto
    then have un: "unat (?start - page_va) = ?intra" "unat (?stop - ?start) = ?len" "unat (?start - pv) = max ?A ?P - ?P"
      by (simp_all only: unat_sub S E)
    obtain fs where fs: "checked_add po (?start - pv) = Some fs"
        "and_then (get_bytes elf (unat fs) ?len) (\<lambda>src. Inr (take ?intra (replicate 4096 0) @ src @ drop (?intra + ?len) (replicate 4096 0))) = Inr bs"
      using assms(1) True unfolding page_bytes_def Let_def un by (auto split: option.splits)
    have F: "unat fs = unat po + (max ?A ?P - ?P)" using unat_checked_add [OF fs(1)] un(3) by simp
    have b: "unat fs + ?len \<le> length elf"
      and bs: "bs = take ?intra (replicate 4096 0) @ take ?len (drop (unat fs) elf) @ drop (?intra + ?len) (replicate 4096 0)"
      using fs(2) by (auto simp: and_then_def get_bytes_def split: if_splits)
    have bound: "?intra + ?len \<le> 4096" using lt by linarith
    have ls: "length (take ?len (drop (unat fs) elf)) = ?len" by (rule length_slice [OF b])
    note ov = overlay_nth [OF bound ls, folded bs]
    have len: "length bs = 4096" by (rule ov(1))
    have "bs ! ?k = seg_byte elf po pv ce va"
    proof (cases "?intra \<le> ?k \<and> ?k < ?intra + ?len")
      case True
      then have kr: "?k - ?intra < ?len" "max ?A ?P = ?A + ?intra" using lt by linarith+
      have "pv \<le> va" "va < ce" using va lt True by (auto simp: word_le_nat_alt word_less_nat_alt)
      moreover have "bs ! ?k = elf ! (unat fs + (?k - ?intra))"
        using ov(2) [OF va(2)] unfolding if_P [OF True] nth_slice [OF b kr(1)] .
      moreover have "unat fs + (?k - ?intra) = unat po + (unat va - ?P)" using F True va kr(2) by linarith
      ultimately show ?thesis by (simp add: seg_byte_def)
    next
      case False
      then have "\<not> (pv \<le> va \<and> va < ce)" using va lt by (auto simp: word_le_nat_alt word_less_nat_alt)
      moreover have "bs ! ?k = 0" using ov(2) [OF va(2)] False by (simp only: if_False)
      ultimately show ?thesis by (simp only: seg_byte_def if_False)
    qed
    with len show "length bs = 4096 \<and> bs ! ?k = seg_byte elf po pv ce va" by blast
  qed
qed

section \<open>What a loader needs of a mapper\<close>

text \<open>The byte a virtual address reads, through a translation and the frames' contents.\<close>

definition byte_at :: "u64 \<Rightarrow> (u64 \<Rightarrow> u8 list) \<Rightarrow> u64 option \<Rightarrow> u8 option" where
  "byte_at off pages pa = (case pa of None \<Rightarrow> None | Some a \<Rightarrow> Some (pages (off + page_of a) ! page_off a))"

text \<open>No mapped page lies in a frame that can still be handed out.\<close>

definition leaves_safe :: "nat \<Rightarrow> (VirtAddr \<Rightarrow> PhysAddr option) \<Rightarrow> u64 set \<Rightarrow> bool" where
  "leaves_safe limit tr F \<longleftrightarrow> (\<forall>va pa. unat va < limit \<and> tr va = Some pa \<longrightarrow> page_of pa \<notin> F)"

text \<open>The addresses a segment occupies, page by page, and the byte the image gives each of them.\<close>

definition covers :: "Phdr \<Rightarrow> VirtAddr \<Rightarrow> bool" where
  "covers p va \<longleftrightarrow> ph_memsz p \<noteq> 0 \<and> page_of (ph_vaddr p) \<le> va \<and> unat (page_of va) < unat (ph_vaddr p) + unat (ph_memsz p)"

definition image_byte :: "u8 list \<Rightarrow> Phdr \<Rightarrow> VirtAddr \<Rightarrow> u8" where
  "image_byte elf p va =
     (if ph_vaddr p \<le> va \<and> unat va < unat (ph_vaddr p) + min (unat (ph_filesz p)) (unat (ph_memsz p))
      then elf ! (unat (ph_offset p) + (unat va - unat (ph_vaddr p))) else 0)"

definition seg_within :: "nat \<Rightarrow> Phdr \<Rightarrow> bool" where
  "seg_within limit p \<longleftrightarrow> unat (ph_vaddr p) + unat (ph_memsz p) \<le> limit"

definition segments :: "u8 list \<Rightarrow> u64 \<Rightarrow> u64 \<Rightarrow> nat list \<Rightarrow> Phdr set" where
  "segments elf phoff phsz is = {p. \<exists>i \<in> set is. read_phdr elf phoff phsz (of_nat i) = Inr (Some p)}"

lemma segments_Cons:
  "segments elf phoff phsz (i # is) = (case read_phdr elf phoff phsz (of_nat i) of
     Inr (Some p) \<Rightarrow> insert p (segments elf phoff phsz is) | _ \<Rightarrow> segments elf phoff phsz is)"
  by (auto simp: segments_def split: sum.splits option.splits)

definition elf_segments :: "u16 \<Rightarrow> u8 list \<Rightarrow> Phdr set" where
  "elf_segments machine elf = (case check_ehdr machine elf of
     Inl _ \<Rightarrow> {} | Inr (e_entry, phoff, phsz, phnum) \<Rightarrow> segments elf phoff (ucast phsz) [0..<unat phnum])"

locale page_mapper =
  fixes mapf :: "VirtAddr \<Rightarrow> PhysAddr \<Rightarrow> u64 \<Rightarrow> ptmem \<times> 's \<Rightarrow> ('e + unit) \<times> ptmem \<times> 's"
    and fa :: "'s \<Rightarrow> u64 option \<times> 's"
    and trans :: "ptmem \<Rightarrow> VirtAddr \<Rightarrow> PhysAddr option"
    and inv :: "ptmem \<Rightarrow> 's \<Rightarrow> bool"
    and avail :: "'s \<Rightarrow> u64 set"
    and good :: "u64 \<Rightarrow> bool"
    and limit :: nat
  assumes limit_page: "limit mod 4096 = 0" "limit \<le> 2 ^ 63"
    and good_aligned: "good f \<Longrightarrow> is_page_aligned f"
    and alloc_None: "inv mem s \<Longrightarrow> fa s = (None, s') \<Longrightarrow> inv mem s' \<and> avail s' \<subseteq> avail s"
    and alloc_Some: "inv mem s \<Longrightarrow> fa s = (Some f, s') \<Longrightarrow> inv mem s' \<and> good f \<and> f \<in> avail s \<and> avail s' \<subseteq> avail s - {f}"
    and map_keeps: "inv mem s \<Longrightarrow> mapf p f fl (mem, s) = (r, mem', s') \<Longrightarrow> inv mem' s' \<and> avail s' \<subseteq> avail s"
    and map_Ok: "inv mem s \<Longrightarrow> mapf p f fl (mem, s) = (Inr u, mem', s') \<Longrightarrow> good f \<Longrightarrow> unat p < limit \<Longrightarrow> unat va < limit \<Longrightarrow>
        trans mem' va = (if page_of va = p then Some (f + (va AND (PAGE_SIZE - 1))) else trans mem va)
        \<and> (page_of va = p \<longrightarrow> trans mem va = None)"
    and map_Err: "inv mem s \<Longrightarrow> mapf p f fl (mem, s) = (Inl e, mem', s') \<Longrightarrow> trans mem' va = trans mem va"
begin

definition bytes :: "u64 \<Rightarrow> 's load_state \<Rightarrow> VirtAddr \<Rightarrow> u8 option" where
  "bytes off = (\<lambda>(mem, pages, s) va. byte_at off pages (trans mem va))"

definition good_state :: "'s load_state \<Rightarrow> bool" where
  "good_state = (\<lambda>(mem, pages, s). inv mem s \<and> leaves_safe limit (trans mem) (avail s))"

lemma page_end_le: "is_page_aligned p \<Longrightarrow> unat p < limit \<Longrightarrow> unat p + 4096 \<le> limit"
proof -
  assume a: "is_page_aligned p" "unat p < limit"
  obtain k where k: "unat p = 4096 * k" using a(1) by (auto simp: aligned_mod)
  obtain l where l: "limit = 4096 * l" using limit_page(1) by auto
  show ?thesis using a(2) k l by simp
qed

lemma leaves_safe_mono: "leaves_safe limit (trans mem) (avail s) \<Longrightarrow> avail s' \<subseteq> avail s \<Longrightarrow> leaves_safe limit (trans mem) (avail s')"
  by (auto simp: leaves_safe_def)

text \<open>Writing a frame that was available changes no mapped byte.\<close>

lemma bytes_fresh_frame:
  assumes "leaves_safe limit (trans mem) (avail s)" and "f \<in> avail s" and "unat va < limit"
  shows "byte_at off (pages(off + f := bs)) (trans mem va) = byte_at off pages (trans mem va)"
  using assms by (auto simp: byte_at_def leaves_safe_def split: option.splits)

lemma page_step:
  assumes st: "inv mem s" "leaves_safe limit (trans mem) (avail s)" and fa: "fa s = (Some f, s1)" and p: "unat p < limit"
    and m: "mapf p f fl (mem, s1) = (r, mem', s')"
  shows "inv mem' s' \<and> leaves_safe limit (trans mem') (avail s')"
    and "r = Inr u \<Longrightarrow> unat va < limit \<Longrightarrow> bytes off (mem', pages(off + f := bs), s') va
          = (if page_of va = p then Some (bs ! page_off va) else bytes off (mem, pages, s) va)"
    and "r = Inr u \<Longrightarrow> unat va < limit \<Longrightarrow> page_of va = p \<Longrightarrow> trans mem va = None"
    and "r = Inl e \<Longrightarrow> unat va < limit \<Longrightarrow> bytes off (mem', pages(off + f := bs), s') va = bytes off (mem, pages, s) va"
proof -
  have a: "inv mem s1" "good f" "f \<in> avail s" "avail s1 \<subseteq> avail s - {f}" using alloc_Some [OF st(1) fa] by auto
  have k: "inv mem' s'" "avail s' \<subseteq> avail s1" using map_keeps [OF a(1) m] by auto
  note fresh = bytes_fresh_frame [OF st(2) a(3)] and fr = page_of_frame [OF good_aligned [OF a(2)]]
  have "leaves_safe limit (trans mem') (avail s')"
  proof (cases r)
    case (Inl e)
    have sub: "avail s' \<subseteq> avail s" using a(4) k(2) by blast
    from map_Err [OF a(1) m [unfolded Inl]] have "leaves_safe limit (trans mem') (avail s') = leaves_safe limit (trans mem) (avail s')" by (simp add: leaves_safe_def)
    with leaves_safe_mono [OF st(2) sub] show ?thesis by simp
  next
    case (Inr u)
    have "page_of pa \<notin> avail s'" if "unat va < limit" "trans mem' va = Some pa" for va pa
    proof (cases "page_of va = p")
      case True
      then have "pa = f + (va AND (PAGE_SIZE - 1))" using map_Ok [OF a(1) m [unfolded Inr] a(2) p that(1)] that(2) by simp
      then show ?thesis using fr(1) a(4) k(2) by auto
    next
      case False
      then have "trans mem va = Some pa" using map_Ok [OF a(1) m [unfolded Inr] a(2) p that(1)] that(2) by simp
      then show ?thesis using st(2) that(1) a(4) k(2) unfolding leaves_safe_def by blast
    qed
    then show ?thesis unfolding leaves_safe_def by blast
  qed
  with k show "inv mem' s' \<and> leaves_safe limit (trans mem') (avail s')" by simp
  show "bytes off (mem', pages(off + f := bs), s') va = (if page_of va = p then Some (bs ! page_off va) else bytes off (mem, pages, s) va)"
    if "r = Inr u" "unat va < limit"
  proof (cases "page_of va = p")
    case True
    then show ?thesis using map_Ok [OF a(1) m [unfolded that(1)] a(2) p that(2)] fr by (simp add: bytes_def byte_at_def)
  next
    case False
    then show ?thesis using map_Ok [OF a(1) m [unfolded that(1)] a(2) p that(2)] fresh [OF that(2)] by (simp add: bytes_def)
  qed
  show "trans mem va = None" if "r = Inr u" "unat va < limit" "page_of va = p"
    using map_Ok [OF a(1) m [unfolded that(1)] a(2) p that(2)] that(3) by simp
  show "bytes off (mem', pages(off + f := bs), s') va = bytes off (mem, pages, s) va" if "r = Inl e" "unat va < limit"
    using map_Err [OF a(1) m [unfolded that(1)]] fresh [OF that(2)] by (simp add: bytes_def)
qed

text \<open>The page loop: on success the range reads as the segment does, and outside it nothing changes.\<close>

lemma load_pages_facts:
  assumes "good_state st" and "is_page_aligned page_va" and "unat seg_end \<le> limit"
    and "load_pages mapf fa off elf flags po pv ce seg_end page_va st = (r, st')"
  shows "good_state st' \<and> (\<forall>va. unat va < limit \<and> \<not> (page_va \<le> va \<and> page_of va < seg_end) \<longrightarrow> bytes off st' va = bytes off st va)
    \<and> (r = Inr () \<longrightarrow> (\<forall>va. unat va < limit \<and> page_va \<le> va \<and> page_of va < seg_end \<longrightarrow>
          bytes off st va = None \<and> bytes off st' va = Some (seg_byte elf po pv ce va)))"
  using assms
proof (induction "unat seg_end - unat page_va" arbitrary: page_va st rule: less_induct)
  case less
  obtain mem pages s where st: "st = (mem, pages, s)" by (cases st)
  note pre = less.prems(1) [unfolded st good_state_def prod.case]
  show ?case
  proof (cases "page_va < seg_end")
    case False
    then have "r = Inr ()" "st' = st" using less.prems(4) by (auto simp: st load_pages.simps)
    moreover have "\<not> (page_va \<le> va \<and> page_of va < seg_end)" for va
    proof
      assume "page_va \<le> va \<and> page_of va < seg_end"
      then have h: "unat page_va \<le> unat va" "unat (page_of va) < unat seg_end" by (auto simp: word_le_nat_alt word_less_nat_alt)
      obtain k where k: "unat page_va = 4096 * k" using less.prems(2) by (auto simp: aligned_mod)
      have "unat page_va \<le> unat (page_of va)" using h(1) k unfolding unat_page_of
        by (metis Pages.le_page minus_mod_eq_mult_div)
      then show False using h False by (simp add: word_less_nat_alt)
    qed
    ultimately show ?thesis using less.prems(1) by blast
  next
    case True
    then have lim: "unat page_va < limit" using less.prems(3) by (simp add: word_less_nat_alt)
    obtain a s1 where fa: "fa s = (a, s1)" by (cases "fa s")
    show ?thesis
    proof (cases a)
      case None
      then have "r = Inl LoadOutOfFrames" "st' = (mem, pages, s1)" using less.prems(4) True fa by (auto simp: st load_pages.simps)
      then show ?thesis using alloc_None [of mem s s1] pre fa None leaves_safe_mono by (auto simp: st good_state_def bytes_def)
    next
      case (Some f)
      note fa' = fa [unfolded Some]
      note step = page_step [OF conjunct1 [OF pre] conjunct2 [OF pre] fa' lim]
      have a: "inv mem s1" "f \<in> avail s" "avail s1 \<subseteq> avail s - {f}" using alloc_Some [OF _ fa'] pre by auto
      show ?thesis
      proof (cases "page_bytes elf po pv ce page_va")
        case (Inl e)
        then have r: "r = Inl e" "st' = (mem, pages(off + f := replicate 4096 0), s1)"
          using less.prems(4) True fa' by (auto simp: st load_pages.simps)
        have "leaves_safe limit (trans mem) (avail s1)" using pre a(3) leaves_safe_mono by blast
        then show ?thesis using r a(1) bytes_fresh_frame [OF _ a(2)] pre by (auto simp: st good_state_def bytes_def)
      next
        case (Inr page)
        obtain r1 mem1 s2 where m: "mapf page_va f flags (mem, s1) = (r1, mem1, s2)" by (cases "mapf page_va f flags (mem, s1)") auto
        note step = step [OF m]
        let ?st1 = "(mem1, pages(off + f := page), s2)"
        have g1: "good_state ?st1" using step(1) by (simp add: good_state_def)
        show ?thesis
        proof (cases r1)
          case (Inl e)
          then have "r = Inl MapFailed" "st' = ?st1" using less.prems(4) True fa' Inr m by (auto simp: st load_pages.simps)
          then show ?thesis using g1 step(4) [OF Inl] by (simp add: st)
        next
          case r1: (Inr u)
          have pe: "unat page_va + 4096 \<le> limit" by (rule page_end_le [OF less.prems(2) lim])
          then have nxt: "checked_add page_va PAGE_SIZE = Some (page_va + 4096)" and un: "unat (page_va + 4096) = unat page_va + 4096"
            using limit_page(2) by (auto simp: checked_add_def PAGE_SIZE_def unat_word_ariths)
          have rec: "load_pages mapf fa off elf flags po pv ce seg_end (page_va + 4096) ?st1 = (r, st')"
            using less.prems(4) True fa' Inr m r1 nxt by (simp add: st load_pages.simps)
          have al: "is_page_aligned (page_va + 4096)" using less.prems(2) unfolding aligned_mod un by simp
          have dec: "unat seg_end - unat (page_va + 4096) < unat seg_end - unat page_va" using True un by (simp add: word_less_nat_alt)
          note ih = less.hyps [OF dec g1 al less.prems(3) rec]
          have range: "(page_va \<le> va \<and> page_of va < seg_end) \<longleftrightarrow> (page_of va = page_va \<or> (page_va + 4096 \<le> va \<and> page_of va < seg_end))" for va
          proof (cases "page_of va = page_va")
            case p: True
            then show ?thesis using True page_of_eq [OF less.prems(2), of va] by (simp add: word_le_nat_alt)
          next
            case p: False
            then show ?thesis using un page_of_eq [OF less.prems(2), of va] by (auto simp: word_le_nat_alt)
          qed
          have excl: "\<not> (page_of va = page_va \<and> page_va + 4096 \<le> va)" for va
            unfolding page_of_eq [OF less.prems(2)] using un by (auto simp: word_le_nat_alt)
          have sb: "page ! page_off va = seg_byte elf po pv ce va" if "page_of va = page_va" for va
            using page_bytes_nth(2) [OF Inr less.prems(2) _ that] pe limit_page(2) by simp
          have one: "bytes off ?st1 va = (if page_of va = page_va then Some (page ! page_off va) else bytes off st va)"
            and none: "page_of va = page_va \<Longrightarrow> bytes off st va = None" if "unat va < limit" for va
            using step(2) [OF r1 that] step(3) [OF r1 that] by (auto simp: st bytes_def byte_at_def)
          show ?thesis
          proof (intro conjI allI impI)
            show "good_state st'" using ih by blast
            show "bytes off st' va = bytes off st va" if "unat va < limit \<and> \<not> (page_va \<le> va \<and> page_of va < seg_end)" for va
              using ih that range [of va] one [of va] by auto
            show "bytes off st va = None" if "r = Inr ()" "unat va < limit \<and> page_va \<le> va \<and> page_of va < seg_end" for va
              using ih that range [of va] one [of va] none [of va] by (auto split: if_splits)
            show "bytes off st' va = Some (seg_byte elf po pv ce va)" if "r = Inr ()" "unat va < limit \<and> page_va \<le> va \<and> page_of va < seg_end" for va
              using ih that range [of va] one [of va] excl [of va] sb [of va] by auto
          qed
        qed
      qed
    qed
  qed
qed

lemma load_segment_facts:
  assumes "good_state st" and "seg_within limit p"
    and "load_segment perms mapf fa off elf (ph_flags p) (ph_offset p) (ph_vaddr p) (ph_filesz p) (ph_memsz p) st = (r, st')"
  shows "good_state st' \<and> (\<forall>va. unat va < limit \<and> \<not> covers p va \<longrightarrow> bytes off st' va = bytes off st va)
    \<and> (r = Inr () \<longrightarrow> (\<forall>va. unat va < limit \<and> covers p va \<longrightarrow>
          bytes off st va = None \<and> bytes off st' va = Some (image_byte elf p va)))"
proof (cases "ph_memsz p = 0")
  case True
  then show ?thesis using assms by (auto simp: load_segment_def covers_def)
next
  case nz: False
  let ?v = "ph_vaddr p" and ?m = "ph_memsz p" and ?f = "ph_filesz p"
  have "unat ?v + unat ?m < 2 ^ 64" using assms(2) limit_page(2) by (simp add: seg_within_def)
  then have se: "checked_add ?v ?m = Some (?v + ?m)" "unat (?v + ?m) = unat ?v + unat ?m"
    by (simp_all add: checked_add_def unat_word_ariths)
  show ?thesis
  proof (cases "checked_add ?v ?f")
    case None
    then have "r = Inl Truncated" "st' = st" using assms(3) nz se by (auto simp: load_segment_def)
    then show ?thesis using assms(1) by simp
  next
    case (Some fe)
    have fe: "unat fe = unat ?v + unat ?f" by (rule unat_checked_add [OF Some])
    have run: "load_pages mapf fa off elf (perms (ph_flags p)) (ph_offset p) ?v (min fe (?v + ?m)) (?v + ?m) (page_of ?v) st = (r, st')"
      using assms(3) nz se(1) Some by (simp add: load_segment_def page_of_def)
    have le: "unat (?v + ?m) \<le> limit" using assms(2) se(2) by (simp add: seg_within_def)
    have "va < min fe (?v + ?m) \<longleftrightarrow> unat va < min (unat ?v + unat ?f) (unat ?v + unat ?m)" for va
      by (simp only: min_less_iff_conj) (simp only: word_less_nat_alt fe se(2))
    then have sb: "seg_byte elf (ph_offset p) ?v (min fe (?v + ?m)) va = image_byte elf p va" for va
      unfolding seg_byte_def image_byte_def min_add_distrib_right by simp
    have cov: "covers p va \<longleftrightarrow> page_of ?v \<le> va \<and> page_of va < ?v + ?m" for va
      using nz se(2) by (simp add: covers_def word_less_nat_alt)
    from load_pages_facts [OF assms(1) page_of_aligned le run] show ?thesis unfolding sb cov .
  qed
qed

text \<open>What loading a set of segments does: the outside is untouched, and when done every segment is in place.\<close>

definition loads :: "u64 \<Rightarrow> u8 list \<Rightarrow> Phdr set \<Rightarrow> bool \<Rightarrow> 's load_state \<Rightarrow> 's load_state \<Rightarrow> bool" where
  "loads off elf S complete st st' \<longleftrightarrow> good_state st'
     \<and> (\<forall>va. unat va < limit \<and> (\<forall>p \<in> S. \<not> covers p va) \<longrightarrow> bytes off st' va = bytes off st va)
     \<and> (complete \<longrightarrow> (\<forall>p \<in> S. \<forall>va. unat va < limit \<and> covers p va \<longrightarrow>
          bytes off st va = None \<and> bytes off st' va = Some (image_byte elf p va)))"

lemma loads_none: "good_state st \<Longrightarrow> loads off elf {} c st st"
  by (simp add: loads_def)

lemma loads_incomplete: "loads off elf S c st st' \<Longrightarrow> S \<subseteq> T \<Longrightarrow> loads off elf T False st st'"
  unfolding loads_def by (simp, blast)

lemma loads_segment:
  assumes "good_state st" and "seg_within limit p"
    and "load_segment perms mapf fa off elf (ph_flags p) (ph_offset p) (ph_vaddr p) (ph_filesz p) (ph_memsz p) st = (r, st')"
  shows "loads off elf {p} (r = Inr ()) st st'"
  using load_segment_facts [OF assms] unfolding loads_def by simp

lemma loads_insert:
  assumes "loads off elf {p} True st st1" and "loads off elf S c st1 st'"
  shows "loads off elf (insert p S) c st st'"
proof -
  have one: "bytes off st va = None \<and> bytes off st1 va = Some (image_byte elf p va)" if "unat va < limit" "covers p va" for va
    using assms(1) that by (simp add: loads_def)
  have skip: "bytes off st1 va = bytes off st va" if "unat va < limit" "\<not> covers p va" for va
    using assms(1) that by (simp add: loads_def)
  have rest: "bytes off st' va = bytes off st1 va" if "unat va < limit" "\<forall>q \<in> S. \<not> covers q va" for va
    using assms(2) that by (simp add: loads_def)
  have two: "bytes off st1 va = None \<and> bytes off st' va = Some (image_byte elf q va)"
    if "c" "q \<in> S" "unat va < limit" "covers q va" for q va using assms(2) that by (simp add: loads_def)
  have "bytes off st va = None \<and> bytes off st' va = Some (image_byte elf q va)"
    if h: "c" "q \<in> insert p S" "unat va < limit" "covers q va" for q va
  proof (cases "\<exists>q' \<in> S. covers q' va")
    case True
    then have none: "bytes off st1 va = None" using two h(1,3) by blast
    then have nc: "\<not> covers p va" using one [OF h(3)] by auto
    then have "q \<in> S" using h(2,4) by auto
    then show ?thesis using two [OF h(1) _ h(3,4)] skip [OF h(3) nc] none by simp
  next
    case False
    then have "q = p" using h(2,4) by auto
    then show ?thesis using one [OF h(3)] h(4) rest [OF h(3)] False by simp
  qed
  then show ?thesis using assms(2) skip rest unfolding loads_def by simp
qed

lemma loads_phdrs:
  assumes "good_state st" and "\<forall>p \<in> segments elf phoff phsz is. seg_within limit p"
    and "load_phdrs perms mapf fa off elf phoff phsz is st = (r, st')"
  shows "loads off elf (segments elf phoff phsz is) (r = Inr ()) st st'"
  using assms
proof (induction "is" arbitrary: st)
  case Nil
  then show ?case by (simp add: segments_def loads_none)
next
  case (Cons i "is")
  show ?case
  proof (cases "read_phdr elf phoff phsz (of_nat i)")
    case (Inl e)
    then show ?thesis using Cons.prems(1,3) by (auto intro: loads_incomplete [OF loads_none])
  next
    case q: (Inr q)
    show ?thesis
    proof (cases q)
      case None
      then show ?thesis using Cons.IH [OF Cons.prems(1)] Cons.prems(2,3) q by (simp add: segments_Cons)
    next
      case (Some p)
      obtain r1 st1 where seg: "load_segment perms mapf fa off elf (ph_flags p) (ph_offset p) (ph_vaddr p) (ph_filesz p) (ph_memsz p) st = (r1, st1)"
        by (cases "load_segment perms mapf fa off elf (ph_flags p) (ph_offset p) (ph_vaddr p) (ph_filesz p) (ph_memsz p) st") auto
      have S: "segments elf phoff phsz (i # is) = insert p (segments elf phoff phsz is)" using q Some by (simp add: segments_Cons)
      have w: "seg_within limit p" using Cons.prems(2) S by simp
      note l1 = loads_segment [OF Cons.prems(1) w seg]
      show ?thesis
      proof (cases r1)
        case (Inl e)
        then have "r = Inl e" "st' = st1" using Cons.prems(3) q Some seg by auto
        then show ?thesis using loads_incomplete [OF l1] S by simp
      next
        case (Inr u)
        then have run: "load_phdrs perms mapf fa off elf phoff phsz is st1 = (r, st')" and l1: "loads off elf {p} True st st1"
          using Cons.prems(3) q Some seg l1 by auto
        have "good_state st1" using l1 by (simp add: loads_def)
        then have "loads off elf (segments elf phoff phsz is) (r = Inr ()) st1 st'"
          by (rule Cons.IH [OF _ _ run]) (use Cons.prems(2) S in auto)
        then show ?thesis unfolding S by (rule loads_insert [OF l1])
      qed
    qed
  qed
qed

text \<open>A whole image.\<close>

lemma loads_elf:
  assumes "good_state st" and "\<forall>p \<in> elf_segments machine elf. seg_within limit p"
    and "load_elf_with machine perms mapf fa off elf st = (r, st')"
  shows "loads off elf (elf_segments machine elf) (\<exists>L. r = Inr L) st st'"
proof (cases "check_ehdr machine elf")
  case (Inl e)
  then show ?thesis using assms(1,3) by (auto simp: load_elf_with_def elf_segments_def loads_none)
next
  case (Inr h)
  obtain e_entry phoff phsz phnum where h: "h = (e_entry, phoff, phsz, phnum)" by (cases h)
  have S: "elf_segments machine elf = segments elf phoff (ucast phsz) [0..<unat phnum]" using Inr h by (simp add: elf_segments_def)
  obtain r1 st1 where run: "load_phdrs perms mapf fa off elf phoff (ucast phsz) [0..<unat phnum] st = (r1, st1)"
    by (cases "load_phdrs perms mapf fa off elf phoff (ucast phsz) [0..<unat phnum] st") auto
  have "st' = st1 \<and> (\<exists>L. r = Inr L) = (r1 = Inr ())" using Inr h assms(3) run by (auto simp: load_elf_with_def split: sum.splits)
  with loads_phdrs [OF assms(1) assms(2) [unfolded S] run] S show ?thesis by simp
qed

lemma image_loaded:
  assumes "inv mem s" and "leaves_safe limit (trans mem) (avail s)" and "\<forall>p \<in> elf_segments machine elf. seg_within limit p"
    and "load_elf_with machine perms mapf fa off elf (mem, pages, s) = (r, mem', pages', s')" and "unat va < limit"
  shows "inv mem' s' \<and> leaves_safe limit (trans mem') (avail s')
    \<and> ((\<forall>p \<in> elf_segments machine elf. \<not> covers p va) \<longrightarrow> byte_at off pages' (trans mem' va) = byte_at off pages (trans mem va))
    \<and> ((\<exists>L. r = Inr L) \<longrightarrow> (\<forall>p \<in> elf_segments machine elf. covers p va \<longrightarrow>
          trans mem va = None \<and> byte_at off pages' (trans mem' va) = Some (image_byte elf p va)))"
proof -
  have g: "good_state (mem, pages, s)" using assms(1,2) by (simp add: good_state_def)
  have "trans mem va = None" if "bytes off (mem, pages, s) va = None"
    using that by (auto simp: bytes_def byte_at_def split: option.splits)
  with loads_elf [OF g assms(3,4)] assms(5) show ?thesis
    unfolding loads_def by (auto simp: good_state_def bytes_def)
qed

end

end
