(* ===== verification/Load_Image.thy ===== *)
theory Load_Image
  imports Loader Vspace Vspace_Riscv
begin

text \<open>
  The two ELF loaders over their page tables (src/crates/loader over vspace, src/crates/loader-riscv
  over vspace-riscv). Each page-table crate is shown to be a mapper in the sense of the loader's
  interface, for any source of fresh frames and in particular for the bitmap allocator; the
  theorems then say that a loaded image is in memory byte for byte and that nothing else is mapped.
\<close>

section \<open>The loaders\<close>

definition x86_leaf_perms :: "u32 \<Rightarrow> PageFlags" where
  "x86_leaf_perms p_flags =
     (let flags = PRESENT OR USER;
          flags = (if p_flags AND PF_W \<noteq> 0 then flags OR WRITABLE else flags)
      in if p_flags AND PF_X = 0 then flags OR NO_EXEC else flags)"

definition rv_leaf_perms :: "u32 \<Rightarrow> RvFlags" where
  "rv_leaf_perms p_flags =
     (let flags = RV_V OR RV_R OR RV_U;
          flags = (if p_flags AND PF_W \<noteq> 0 then flags OR RV_W else flags)
      in if p_flags AND PF_X \<noteq> 0 then flags OR RV_X else flags)"

definition load_elf ::
    "('s \<Rightarrow> u64 option \<times> 's) \<Rightarrow> AddressSpace \<Rightarrow> u8 list \<Rightarrow> 's load_state \<Rightarrow> (LoadError + Loaded) \<times> 's load_state" where
  "load_elf fa sp = load_elf_with EM_X86_64 x86_leaf_perms (AddressSpace_map fa sp) fa (phys_offset sp)"

definition rv_load_elf ::
    "('s \<Rightarrow> u64 option \<times> 's) \<Rightarrow> RvSpace \<Rightarrow> u8 list \<Rightarrow> 's load_state \<Rightarrow> (LoadError + Loaded) \<times> 's load_state" where
  "rv_load_elf fa sp = load_elf_with EM_RISCV rv_leaf_perms (RvSpace_map fa sp) fa (rv_offset sp)"

section \<open>Both page-table crates are mappers\<close>

lemma va_path_page:
  assumes "unat va < 2 ^ 48" and "unat va' < 2 ^ 48"
  shows "va_path va = va_path va' \<longleftrightarrow> page_of va = page_of va'"
proof -
  have "page_of va = page_of va' \<longleftrightarrow> (\<forall>l < 4. table_index va l = table_index va' l)"
    using page_of_indices [of va 4 va'] assms by simp
  also have "\<dots> \<longleftrightarrow> va_path va = va_path va'"
    by (auto simp: va_path_def less_Suc_eq numeral_eq_Suc)
  finally show ?thesis ..
qed

lemma rv_path_page:
  assumes "unat va < 2 ^ 39" and "unat va' < 2 ^ 39"
  shows "rv_path va = rv_path va' \<longleftrightarrow> page_of va = page_of va'"
proof -
  have "page_of va = page_of va' \<longleftrightarrow> (\<forall>l < 3. table_index va l = table_index va' l)"
    using page_of_indices [of va 3 va'] assms by simp
  also have "\<dots> \<longleftrightarrow> rv_path va = rv_path va'"
    by (auto simp: rv_path_def less_Suc_eq numeral_eq_Suc)
  finally show ?thesis ..
qed

lemma page_of_self: "is_page_aligned p \<Longrightarrow> page_of p = p"
  by (simp add: page_of_eq)

lemma low_bits_aligned: "(\<And>i. i < 12 \<Longrightarrow> \<not> bit f i) \<Longrightarrow> is_page_aligned f"
proof -
  assume a: "\<And>i. i < 12 \<Longrightarrow> \<not> bit f i"
  have "f AND (PAGE_SIZE - 1) = 0" unfolding page_mask by (rule bit_eqI) (auto simp: bit_simps a)
  then show ?thesis by (simp add: is_page_aligned_def)
qed

lemma table_frame_aligned: "table_frame f \<Longrightarrow> is_page_aligned f"
proof (rule low_bits_aligned)
  fix i :: nat
  assume "table_frame f" "i < 12"
  then show "\<not> bit f i" using ADDR_MASK_bit [of i] unfolding table_frame_def by (metis bit_and_iff not_le)
qed

lemma rv_table_frame_aligned: "rv_table_frame f \<Longrightarrow> is_page_aligned f"
proof (rule low_bits_aligned)
  fix i :: nat
  assume "rv_table_frame f" "i < 12"
  then show "\<not> bit f i" using rv_frame_field_bit [of f i] unfolding rv_table_frame_def by simp
qed

definition x86_inv :: "('s \<Rightarrow> bool) \<Rightarrow> ('s \<Rightarrow> u64 set) \<Rightarrow> AddressSpace \<Rightarrow> ptmem \<Rightarrow> 's \<Rightarrow> bool" where
  "x86_inv ok avail sp mem s \<longleftrightarrow> ok s \<and> space_ok sp mem (avail s)"

definition rv_inv :: "('s \<Rightarrow> bool) \<Rightarrow> ('s \<Rightarrow> u64 set) \<Rightarrow> RvSpace \<Rightarrow> ptmem \<Rightarrow> 's \<Rightarrow> bool" where
  "rv_inv ok avail sp mem s \<longleftrightarrow> ok s \<and> rv_space_ok sp mem (avail s)"

lemma space_ok_mono: "space_ok sp mem F \<Longrightarrow> G \<subseteq> F \<Longrightarrow> space_ok sp mem G"
  by (auto simp: space_ok_def intro: x86.outside_mono)

lemma rv_space_ok_mono: "rv_space_ok sp mem F \<Longrightarrow> G \<subseteq> F \<Longrightarrow> rv_space_ok sp mem G"
  by (auto simp: rv_space_ok_def intro: sv39.outside_mono)

lemma fresh_source_mono: "fresh_source ok avail fa \<Longrightarrow> ok s \<Longrightarrow> fa s = (a, s1) \<Longrightarrow> ok s1 \<and> avail s1 \<subseteq> avail s"
  using fresh_source_None [of ok avail fa s s1] fresh_source_Some [of ok avail fa s _ s1] by (cases a) auto

lemma map_descend_avail:
  assumes "fresh_source ok avail fa" and "ok s" and "map_descend fa sp va levels p (mem, s) = (r, mem', s')"
  shows "avail s' \<subseteq> avail s"
  using assms(2,3)
proof (induction levels arbitrary: p mem s)
  case (Cons level levels)
  show ?case
  proof (cases "fa s")
    case (Pair a s1)
    then have s1: "ok s1" "avail s1 \<subseteq> avail s" using fresh_source_mono [OF assms(1) Cons.prems(1)] by auto
    have "map_descend fa sp va levels q (m, s1) = (r, mem', s') \<Longrightarrow> avail s' \<subseteq> avail s" for q m
      using Cons.IH [OF s1(1)] s1(2) by blast
    then show ?thesis using Cons.prems Cons.IH [OF Cons.prems(1)] Pair s1(2)
      by (auto simp: Let_def split: if_splits option.splits)
  qed
qed simp

lemma rv_map_descend_avail:
  assumes "fresh_source ok avail fa" and "ok s" and "rv_map_descend fa sp va levels p (mem, s) = (r, mem', s')"
  shows "avail s' \<subseteq> avail s"
  using assms(2,3)
proof (induction levels arbitrary: p mem s)
  case (Cons level levels)
  show ?case
  proof (cases "fa s")
    case (Pair a s1)
    then have s1: "ok s1" "avail s1 \<subseteq> avail s" using fresh_source_mono [OF assms(1) Cons.prems(1)] by auto
    have "rv_map_descend fa sp va levels q (m, s1) = (r, mem', s') \<Longrightarrow> avail s' \<subseteq> avail s" for q m
      using Cons.IH [OF s1(1)] s1(2) by blast
    then show ?thesis using Cons.prems Cons.IH [OF Cons.prems(1)] Pair s1(2)
      by (auto simp: Let_def split: if_splits option.splits)
  qed
qed simp

lemma map_avail:
  assumes "fresh_source ok avail fa" and "ok s" and "AddressSpace_map fa sp va pa flags (mem, s) = (r, mem', s')"
  shows "avail s' \<subseteq> avail s"
proof (cases "map_descend fa sp va [3, 2, 1] (pml4 sp) (mem, s)")
  case (fields d mem1 s1)
  then show ?thesis using map_descend_avail [OF assms(1,2) fields] assms(3)
    by (auto simp: AddressSpace_map_def Let_def split: if_splits sum.splits)
qed

lemma rv_map_avail:
  assumes "fresh_source ok avail fa" and "ok s" and "RvSpace_map fa sp va pa flags (mem, s) = (r, mem', s')"
  shows "avail s' \<subseteq> avail s"
proof (cases "rv_map_descend fa sp va [2, 1] (rv_root sp) (mem, s)")
  case (fields d mem1 s1)
  then show ?thesis using rv_map_descend_avail [OF assms(1,2) fields] assms(3)
    by (auto simp: RvSpace_map_def Let_def split: if_splits sum.splits)
qed

lemma x86_page_mapper:
  assumes src: "fresh_source ok avail fa"
  shows "page_mapper (AddressSpace_map fa sp) fa (\<lambda>mem va. translate sp va mem) (x86_inv ok avail sp) avail table_frame (2 ^ 48)"
proof
  fix mem s s' f
  show "x86_inv ok avail sp mem s' \<and> avail s' \<subseteq> avail s" if "x86_inv ok avail sp mem s" "fa s = (None, s')"
    using that fresh_source_None [OF src, of s s'] space_ok_mono by (auto simp: x86_inv_def)
  show "x86_inv ok avail sp mem s' \<and> table_frame f \<and> f \<in> avail s \<and> avail s' \<subseteq> avail s - {f}"
    if h: "x86_inv ok avail sp mem s" "fa s = (Some f, s')"
  proof -
    have s: "ok s'" "f \<in> avail s" "avail s' \<subseteq> avail s - {f}" using h fresh_source_Some [OF src, of s f s'] by (auto simp: x86_inv_def)
    then show ?thesis using h space_ok_mono [of sp mem "avail s" "avail s'"] by (auto simp: x86_inv_def space_ok_def x86.outside_def)
  qed
next
  fix mem s p f fl r mem' s'
  assume h: "x86_inv ok avail sp mem s" "AddressSpace_map fa sp p f fl (mem, s) = (r, mem', s')"
  then show "x86_inv ok avail sp mem' s' \<and> avail s' \<subseteq> avail s"
    using map_facts(1,2) [OF src _ _ h(2)] map_avail [OF src _ h(2)] by (simp add: x86_inv_def)
next
  fix mem s p f fl u mem' s' and va :: u64
  assume h: "x86_inv ok avail sp mem s" "AddressSpace_map fa sp p f fl (mem, s) = (Inr u, mem', s')"
    and f: "table_frame f" and b: "unat p < 2 ^ 48" "unat va < 2 ^ 48"
  have u: "AddressSpace_map fa sp p f fl (mem, s) = (Inr (), mem', s')" using h(2) by simp
  have ok: "ok s" "space_ok sp mem (avail s)" using h(1) by (simp_all add: x86_inv_def)
  note o = map_outcome [OF src ok u]
  have "is_page_aligned p" using map_facts(4) [OF src ok h(2)] by simp
  then have path: "va_path va = va_path p \<longleftrightarrow> page_of va = p" using va_path_page [OF b(2,1)] page_of_self by simp
  have "translate sp va mem = None" if "page_of va = p"
  proof -
    have "translate sp p mem = None" using o by simp
    then show ?thesis using path that by (auto simp: translate_eq decode_def Let_def split: prod.splits if_splits)
  qed
  then show "translate sp va mem' = (if page_of va = p then Some (f + (va AND (PAGE_SIZE - 1))) else translate sp va mem)
      \<and> (page_of va = p \<longrightarrow> translate sp va mem = None)"
    using o path f by (simp add: table_frame_def)
next
  fix mem s p f fl e mem' s' and va :: u64
  assume h: "x86_inv ok avail sp mem s" "AddressSpace_map fa sp p f fl (mem, s) = (Inl e, mem', s')"
  then show "translate sp va mem' = translate sp va mem" using map_failure [OF src _ _ h(2)] by (simp add: x86_inv_def)
qed (simp_all add: table_frame_aligned)

lemma rv_page_mapper:
  assumes src: "fresh_source ok avail fa"
  shows "page_mapper (RvSpace_map fa sp) fa (\<lambda>mem va. rv_translate sp va mem) (rv_inv ok avail sp) avail rv_table_frame (2 ^ 39)"
proof
  fix mem s s' f
  show "rv_inv ok avail sp mem s' \<and> avail s' \<subseteq> avail s" if "rv_inv ok avail sp mem s" "fa s = (None, s')"
    using that fresh_source_None [OF src, of s s'] rv_space_ok_mono by (auto simp: rv_inv_def)
  show "rv_inv ok avail sp mem s' \<and> rv_table_frame f \<and> f \<in> avail s \<and> avail s' \<subseteq> avail s - {f}"
    if h: "rv_inv ok avail sp mem s" "fa s = (Some f, s')"
  proof -
    have s: "ok s'" "f \<in> avail s" "avail s' \<subseteq> avail s - {f}" using h fresh_source_Some [OF src, of s f s'] by (auto simp: rv_inv_def)
    then show ?thesis using h rv_space_ok_mono [of sp mem "avail s" "avail s'"] by (auto simp: rv_inv_def rv_space_ok_def sv39.outside_def)
  qed
next
  fix mem s p f fl r mem' s'
  assume h: "rv_inv ok avail sp mem s" "RvSpace_map fa sp p f fl (mem, s) = (r, mem', s')"
  then show "rv_inv ok avail sp mem' s' \<and> avail s' \<subseteq> avail s"
    using rv_map_facts(1,2) [OF src _ _ h(2)] rv_map_avail [OF src _ h(2)] by (simp add: rv_inv_def)
next
  fix mem s p f fl u mem' s' and va :: u64
  assume h: "rv_inv ok avail sp mem s" "RvSpace_map fa sp p f fl (mem, s) = (Inr u, mem', s')"
    and f: "rv_table_frame f" and b: "unat p < 2 ^ 39" "unat va < 2 ^ 39"
  have u: "RvSpace_map fa sp p f fl (mem, s) = (Inr (), mem', s')" using h(2) by simp
  have ok: "ok s" "rv_space_ok sp mem (avail s)" using h(1) by (simp_all add: rv_inv_def)
  note o = rv_map_outcome [OF src ok u]
  have "is_page_aligned p" using h(2) by (auto simp: RvSpace_map_def split: if_splits)
  then have path: "rv_path va = rv_path p \<longleftrightarrow> page_of va = p" using rv_path_page [OF b(2,1)] page_of_self by simp
  have "rv_translate sp va mem = None" if "page_of va = p"
  proof -
    have "rv_translate sp p mem = None" using o by simp
    then show ?thesis using path that by (auto simp: rv_translate_eq rv_decode_def Let_def split: prod.splits if_splits)
  qed
  then show "rv_translate sp va mem' = (if page_of va = p then Some (f + (va AND (PAGE_SIZE - 1))) else rv_translate sp va mem)
      \<and> (page_of va = p \<longrightarrow> rv_translate sp va mem = None)"
    using o path f by (simp add: rv_table_frame_def)
next
  fix mem s p f fl e mem' s' and va :: u64
  assume h: "rv_inv ok avail sp mem s" "RvSpace_map fa sp p f fl (mem, s) = (Inl e, mem', s')"
  then show "rv_translate sp va mem' = rv_translate sp va mem" using rv_map_failure [OF src _ _ h(2)] by (simp add: rv_inv_def)
qed (simp_all add: rv_table_frame_aligned)

text \<open>The bitmap allocator behind both.\<close>

interpretation x86_image: page_mapper "AddressSpace_map alloc_frame sp" alloc_frame "\<lambda>mem va. translate sp va mem"
    "x86_inv ba_inv available sp" available table_frame "2 ^ 48" for sp
  by (rule x86_page_mapper [OF alloc_frame_fresh_source])

interpretation rv_image: page_mapper "RvSpace_map alloc_frame sp" alloc_frame "\<lambda>mem va. rv_translate sp va mem"
    "rv_inv ba_inv available sp" available rv_table_frame "2 ^ 39" for sp
  by (rule rv_page_mapper [OF alloc_frame_fresh_source])

section \<open>Properties\<close>

text \<open>
  (C35) A loaded image is in memory byte for byte (x86-64). When load_elf succeeds, every address of
  every PT_LOAD segment translates to a frame byte holding the file's byte, or zero past the
  file-backed part and in the rest of its pages, and was unmapped before; every address outside the
  segments' pages reads as before the load. The allocator is any source of fresh frames.
\<close>

theorem loaded_image:
  assumes "fresh_source ok avail fa" and "ok s" and "space_ok sp mem (avail s)"
    and "leaves_safe (2 ^ 48) (\<lambda>va. translate sp va mem) (avail s)"
    and "\<forall>p \<in> elf_segments EM_X86_64 elf. seg_within (2 ^ 48) p"
    and "load_elf fa sp elf (mem, pages, s) = (Inr L, mem', pages', s')" and "unat va < 2 ^ 48"
  shows "(\<forall>p \<in> elf_segments EM_X86_64 elf. covers p va \<longrightarrow> translate sp va mem = None
        \<and> byte_at (phys_offset sp) pages' (translate sp va mem') = Some (image_byte elf p va))
    \<and> ((\<forall>p \<in> elf_segments EM_X86_64 elf. \<not> covers p va) \<longrightarrow>
        byte_at (phys_offset sp) pages' (translate sp va mem') = byte_at (phys_offset sp) pages (translate sp va mem))
    \<and> space_ok sp mem' (avail s')"
proof -
  have inv: "x86_inv ok avail sp mem s" using assms(2,3) by (simp add: x86_inv_def)
  from page_mapper.image_loaded [OF x86_page_mapper [OF assms(1)] inv assms(4,5) assms(6) [unfolded load_elf_def] assms(7)]
  show ?thesis by (simp add: x86_inv_def)
qed

text \<open>
  A loaded image is in memory byte for byte (RISC-V Sv39): as on x86-64, over the Sv39 tables
  and the addresses below 2^39.
\<close>

theorem rv_loaded_image:
  assumes "fresh_source ok avail fa" and "ok s" and "rv_space_ok sp mem (avail s)"
    and "leaves_safe (2 ^ 39) (\<lambda>va. rv_translate sp va mem) (avail s)"
    and "\<forall>p \<in> elf_segments EM_RISCV elf. seg_within (2 ^ 39) p"
    and "rv_load_elf fa sp elf (mem, pages, s) = (Inr L, mem', pages', s')" and "unat va < 2 ^ 39"
  shows "(\<forall>p \<in> elf_segments EM_RISCV elf. covers p va \<longrightarrow> rv_translate sp va mem = None
        \<and> byte_at (rv_offset sp) pages' (rv_translate sp va mem') = Some (image_byte elf p va))
    \<and> ((\<forall>p \<in> elf_segments EM_RISCV elf. \<not> covers p va) \<longrightarrow>
        byte_at (rv_offset sp) pages' (rv_translate sp va mem') = byte_at (rv_offset sp) pages (rv_translate sp va mem))
    \<and> rv_space_ok sp mem' (avail s')"
proof -
  have inv: "rv_inv ok avail sp mem s" using assms(2,3) by (simp add: rv_inv_def)
  from page_mapper.image_loaded [OF rv_page_mapper [OF assms(1)] inv assms(4,5) assms(6) [unfolded rv_load_elf_def] assms(7)]
  show ?thesis by (simp add: rv_inv_def)
qed

text \<open>
  A failed load is contained: whatever the error, and however many pages were already mapped,
  no address outside the image's own segments changes what it reads, and the tables stay well formed.
\<close>

theorem failed_load_contained:
  assumes "fresh_source ok avail fa" and "ok s" and "space_ok sp mem (avail s)"
    and "leaves_safe (2 ^ 48) (\<lambda>va. translate sp va mem) (avail s)"
    and "\<forall>p \<in> elf_segments EM_X86_64 elf. seg_within (2 ^ 48) p"
    and "load_elf fa sp elf (mem, pages, s) = (Inl e, mem', pages', s')" and "unat va < 2 ^ 48"
    and "\<forall>p \<in> elf_segments EM_X86_64 elf. \<not> covers p va"
  shows "byte_at (phys_offset sp) pages' (translate sp va mem') = byte_at (phys_offset sp) pages (translate sp va mem)
    \<and> space_ok sp mem' (avail s') \<and> leaves_safe (2 ^ 48) (\<lambda>va. translate sp va mem') (avail s')"
proof -
  have inv: "x86_inv ok avail sp mem s" using assms(2,3) by (simp add: x86_inv_def)
  from page_mapper.image_loaded [OF x86_page_mapper [OF assms(1)] inv assms(4,5) assms(6) [unfolded load_elf_def] assms(7)]
  show ?thesis using assms(8) by (simp add: x86_inv_def)
qed

section \<open>A concrete image\<close>

definition demo_ehdr :: "u16 \<Rightarrow> u8 list" where
  "demo_ehdr machine = [0x7F, 0x45, 0x4C, 0x46, 2, 1, 1, 0, 0, 0, 0, 0, 0, 0, 0, 0, 2, 0, ucast machine, 0, 1, 0, 0, 0,
     0, 0, 0x40, 0, 0, 0, 0, 0, 64, 0, 0, 0, 0, 0, 0, 0, 0, 0, 0, 0, 0, 0, 0, 0, 0, 0, 0, 0, 64, 0, 56, 0, 1, 0, 0, 0, 0, 0, 0, 0]"

text \<open>One executable segment of two file bytes and one zero byte.\<close>

definition demo_elf :: "u16 \<Rightarrow> u8 list" where
  "demo_elf machine = demo_ehdr machine @
    [1, 0, 0, 0, 5, 0, 0, 0, 120, 0, 0, 0, 0, 0, 0, 0, 0, 0, 0x40, 0, 0, 0, 0, 0, 0, 0, 0x40, 0, 0, 0, 0, 0,
     2, 0, 0, 0, 0, 0, 0, 0, 3, 0, 0, 0, 0, 0, 0, 0, 0, 16, 0, 0, 0, 0, 0, 0] @ [0x90, 0xC3]"

definition demo_phdr :: Phdr where
  "demo_phdr = \<lparr>ph_flags = 5, ph_offset = 120, ph_vaddr = 0x400000, ph_filesz = 2, ph_memsz = 3\<rparr>"

lemmas elf_offsets = OFF_E_TYPE_def OFF_E_MACHINE_def OFF_E_ENTRY_def OFF_E_PHOFF_def OFF_E_PHENTSIZE_def OFF_E_PHNUM_def
  OFF_P_TYPE_def OFF_P_FLAGS_def OFF_P_OFFSET_def OFF_P_VADDR_def OFF_P_FILESZ_def OFF_P_MEMSZ_def
  EHDR_SIZE_def PHDR_SIZE_def EI_CLASS_def ELFCLASS64_def ELF_MAGIC_def ET_EXEC_def PT_LOAD_def

lemma demo_header:
  assumes "machine = EM_X86_64 \<or> machine = EM_RISCV"
  shows "check_ehdr machine (demo_elf machine) = Inr (0x400000, 64, 56, 1)"
  using assms by (auto simp: check_ehdr_def demo_elf_def demo_ehdr_def elf_offsets EM_X86_64_def EM_RISCV_def and_then_def
      rd_u16_def rd_u64_def get_bytes_def from_le_bytes_def)

lemma demo_segment: "read_phdr (demo_elf machine) 64 56 0 = Inr (Some demo_phdr)"
  by (simp add: read_phdr_def demo_elf_def demo_ehdr_def elf_offsets and_then_def checked_mul_def checked_add_def Let_def
      rd_u32_def rd_u64_def get_bytes_def from_le_bytes_def demo_phdr_def)

lemma demo_segments:
  assumes "machine = EM_X86_64 \<or> machine = EM_RISCV"
  shows "elf_segments machine (demo_elf machine) = {demo_phdr}"
  using demo_segment [of machine] by (simp add: elf_segments_def demo_header [OF assms] segments_def)

text \<open>The one page of the image, wherever it is mapped.\<close>

lemma demo_page:
  "\<exists>page. page_bytes (demo_elf machine) 120 0x400000 0x400002 0x400000 = Inr page"
proof -
  have "length (demo_elf machine) = 122" by (simp add: demo_elf_def demo_ehdr_def)
  then show ?thesis
    by (simp add: page_bytes_def Let_def saturating_add_def PAGE_SIZE_def checked_add_def get_bytes_def and_then_def)
qed

lemma demo_load:
  assumes "machine = EM_X86_64 \<or> machine = EM_RISCV"
    and "mapf 0x400000 0x2000 (perms 5) (\<lambda>_ _. 0, [0x3000, 0x4000, 0x5000]) = (Inr (), mem', s')"
  shows "\<exists>pages'. load_elf_with machine perms mapf list_source off (demo_elf machine) (\<lambda>_ _. 0, \<lambda>_. [], [0x2000, 0x3000, 0x4000, 0x5000])
    = (Inr \<lparr>entry = 0x400000\<rparr>, mem', pages', s')"
proof -
  obtain page where page: "page_bytes (demo_elf machine) 120 0x400000 0x400002 0x400000 = Inr page" using demo_page by blast
  let ?pages = "(\<lambda>_. [])(off + 0x2000 := page)"
  have last: "load_pages mapf list_source off (demo_elf machine) (perms 5) 120 0x400000 0x400002 0x400003 0x401000 (mem', ?pages, s')
    = (Inr (), mem', ?pages, s')" by (subst load_pages.simps) simp
  have "load_pages mapf list_source off (demo_elf machine) (perms 5) 120 0x400000 0x400002 0x400003 0x400000
      (\<lambda>_ _. 0, \<lambda>_. [], [0x2000, 0x3000, 0x4000, 0x5000]) = (Inr (), mem', ?pages, s')"
    by (subst load_pages.simps) (simp add: list_source_def page assms(2) checked_add_def PAGE_SIZE_def last)
  then have "load_segment perms mapf list_source off (demo_elf machine) 5 120 0x400000 2 3 (\<lambda>_ _. 0, \<lambda>_. [], [0x2000, 0x3000, 0x4000, 0x5000])
      = (Inr (), mem', ?pages, s')"
    by (simp add: load_segment_def checked_add_def PAGE_SIZE_def)
  then show ?thesis using demo_segment [of machine]
    by (simp add: load_elf_with_def demo_header [OF assms(1)] demo_phdr_def)
qed

lemma demo_covers: "covers demo_phdr 0x400001" "image_byte (demo_elf machine) demo_phdr 0x400001 = 0xC3"
    "seg_within (2 ^ 39) demo_phdr" "seg_within (2 ^ 48) demo_phdr"
  by (simp_all add: covers_def image_byte_def seg_within_def demo_phdr_def page_of_def PAGE_SIZE_def demo_elf_def demo_ehdr_def)

lemma x86_demo_map: "fst (AddressSpace_map list_source demo_space 0x400000 0x2000 (x86_leaf_perms 5) (\<lambda>_ _. 0, [0x3000, 0x4000, 0x5000])) = Inr ()"
  by (simp add: AddressSpace_map_def is_page_aligned_def PAGE_SIZE_def Let_def list_source_def
      is_present_bit read_entry_def demo_space_def AddressSpace_new_def write_entry_def table_ptr_def
      PageTable_new_def PTE_EMPTY_def del: view_simps)

lemma x86_demo_empty: "space_ok demo_space (\<lambda>_ _. 0) (set [0x2000, 0x3000, 0x4000, 0x5000])" "translate demo_space va (\<lambda>_ _. 0) = None"
proof -
  have z: "view demo_space (\<lambda>_ _. 0) (pml4 demo_space) i = 0" for i by (simp only: view_def read_entry_def)
  show "space_ok demo_space (\<lambda>_ _. 0) (set [0x2000, 0x3000, 0x4000, 0x5000])"
    by (rule empty_root(1) [OF z]) (simp add: table_frame_def ADDR_MASK_def demo_space_def AddressSpace_new_def)
  show "translate demo_space va (\<lambda>_ _. 0) = None"
    by (rule empty_root(2) [OF z, of "{}"]) simp
qed

theorem loaded_image_witness:
  "\<exists>mem' pages' s'. load_elf list_source demo_space (demo_elf EM_X86_64) (\<lambda>_ _. 0, \<lambda>_. [], [0x2000, 0x3000, 0x4000, 0x5000])
      = (Inr \<lparr>entry = 0x400000\<rparr>, mem', pages', s') \<and> byte_at 0 pages' (translate demo_space 0x400001 mem') = Some 0xC3"
proof -
  let ?fs = "[0x2000, 0x3000, 0x4000, 0x5000 :: u64]"
  obtain mem' s' where m: "AddressSpace_map list_source demo_space 0x400000 0x2000 (x86_leaf_perms 5) (\<lambda>_ _. 0, [0x3000, 0x4000, 0x5000]) = (Inr (), mem', s')"
    using x86_demo_map by (metis prod.collapse)
  obtain pages' where run: "load_elf list_source demo_space (demo_elf EM_X86_64) (\<lambda>_ _. 0, \<lambda>_. [], ?fs) = (Inr \<lparr>entry = 0x400000\<rparr>, mem', pages', s')"
    using demo_load [where mapf = "AddressSpace_map list_source demo_space" and perms = x86_leaf_perms and machine = EM_X86_64
      and off = "phys_offset demo_space", OF _ m] unfolding load_elf_def by blast
  have d: "distinct ?fs" by simp
  have sf: "leaves_safe (2 ^ 48) (\<lambda>va. translate demo_space va (\<lambda>_ _. 0)) (set ?fs)" by (simp add: leaves_safe_def x86_demo_empty(2))
  have w: "\<forall>p \<in> elf_segments EM_X86_64 (demo_elf EM_X86_64). seg_within (2 ^ 48) p" using demo_covers(4) by (simp add: demo_segments)
  have "unat (0x400001 :: u64) < 2 ^ 48" by simp
  from loaded_image [OF list_source_fresh d x86_demo_empty(1) sf w run this] run show ?thesis
    by (auto simp: demo_segments demo_covers demo_space_def AddressSpace_new_def)
qed

lemma rv_demo_map: "fst (RvSpace_map list_source rv_demo 0x400000 0x2000 (rv_leaf_perms 5) (\<lambda>_ _. 0, [0x3000, 0x4000, 0x5000])) = Inr ()"
  by (simp add: RvSpace_map_def is_page_aligned_def PAGE_SIZE_def Let_def list_source_def rv_leaf_perms_def PF_W_def PF_X_def
      is_valid_bit rv_intersects_def and_RWX RV_V_def RV_X_def RV_R_def RV_U_def bit_simps rv_read_entry_def rv_demo_def RvSpace_new_def rv_write_entry_def rv_table_ptr_def
      RvTable_new_def Pte_EMPTY_def del: rv_view_simps)

lemma rv_image_demo_empty: "rv_space_ok rv_demo (\<lambda>_ _. 0) (set [0x2000, 0x3000, 0x4000, 0x5000])" "rv_translate rv_demo va (\<lambda>_ _. 0) = None"
proof -
  have z: "rv_view rv_demo (\<lambda>_ _. 0) (rv_root rv_demo) i = 0" for i by (simp only: rv_view_def rv_read_entry_def)
  show "rv_space_ok rv_demo (\<lambda>_ _. 0) (set [0x2000, 0x3000, 0x4000, 0x5000])"
    by (rule rv_empty_root(1) [OF z]) (simp add: rv_table_frame_def rv_frame_field_def PPN_BITS_def PAGE_SHIFT_def rv_demo_def RvSpace_new_def)
  show "rv_translate rv_demo va (\<lambda>_ _. 0) = None"
    by (rule rv_empty_root(2) [OF z, of "{}"]) simp
qed

theorem rv_loaded_image_witness:
  "\<exists>mem' pages' s'. rv_load_elf list_source rv_demo (demo_elf EM_RISCV) (\<lambda>_ _. 0, \<lambda>_. [], [0x2000, 0x3000, 0x4000, 0x5000])
      = (Inr \<lparr>entry = 0x400000\<rparr>, mem', pages', s') \<and> byte_at 0 pages' (rv_translate rv_demo 0x400001 mem') = Some 0xC3"
proof -
  let ?fs = "[0x2000, 0x3000, 0x4000, 0x5000 :: u64]"
  obtain mem' s' where m: "RvSpace_map list_source rv_demo 0x400000 0x2000 (rv_leaf_perms 5) (\<lambda>_ _. 0, [0x3000, 0x4000, 0x5000]) = (Inr (), mem', s')"
    using rv_demo_map by (metis prod.collapse)
  obtain pages' where run: "rv_load_elf list_source rv_demo (demo_elf EM_RISCV) (\<lambda>_ _. 0, \<lambda>_. [], ?fs) = (Inr \<lparr>entry = 0x400000\<rparr>, mem', pages', s')"
    using demo_load [where mapf = "RvSpace_map list_source rv_demo" and perms = rv_leaf_perms and machine = EM_RISCV
      and off = "rv_offset rv_demo", OF _ m] unfolding rv_load_elf_def by blast
  have d: "distinct ?fs" by simp
  have sf: "leaves_safe (2 ^ 39) (\<lambda>va. rv_translate rv_demo va (\<lambda>_ _. 0)) (set ?fs)" by (simp add: leaves_safe_def rv_image_demo_empty(2))
  have w: "\<forall>p \<in> elf_segments EM_RISCV (demo_elf EM_RISCV). seg_within (2 ^ 39) p" using demo_covers(3) by (simp add: demo_segments)
  have "unat (0x400001 :: u64) < 2 ^ 39" by simp
  from rv_loaded_image [OF list_source_fresh d rv_image_demo_empty(1) sf w run this] run show ?thesis
    by (auto simp: demo_segments demo_covers rv_demo_def RvSpace_new_def)
qed

text \<open>Without a frame the same image is refused.\<close>

theorem failed_load_contained_witness:
  "\<exists>st. load_elf list_source demo_space (demo_elf EM_X86_64) (\<lambda>_ _. 0, \<lambda>_. [], []) = (Inl LoadOutOfFrames, st)
     \<and> byte_at 0 (fst (snd st)) (translate demo_space 0x500000 (fst st)) = None"
proof -
  have "load_pages mapf list_source off elf fl 120 0x400000 0x400002 0x400003 0x400000 (\<lambda>_ _. 0, \<lambda>_. [], []) = (Inl LoadOutOfFrames, \<lambda>_ _. 0, \<lambda>_. [], [])"
    for mapf :: "u64 \<Rightarrow> u64 \<Rightarrow> u64 \<Rightarrow> ptmem \<times> u64 list \<Rightarrow> (MapError + unit) \<times> ptmem \<times> u64 list" and off elf fl
    by (subst load_pages.simps) (simp add: list_source_def)
  then have run: "load_elf list_source demo_space (demo_elf EM_X86_64) (\<lambda>_ _. 0, \<lambda>_. [], []) = (Inl LoadOutOfFrames, \<lambda>_ _. 0, \<lambda>_. [], [])"
    using demo_segment [of EM_X86_64] by (simp add: load_elf_def load_elf_with_def demo_header demo_phdr_def load_segment_def checked_add_def PAGE_SIZE_def)
  have s: "space_ok demo_space (\<lambda>_ _. 0) (set [])" by (rule space_ok_mono [OF x86_demo_empty(1)]) simp
  have sf: "leaves_safe (2 ^ 48) (\<lambda>va. translate demo_space va (\<lambda>_ _. 0)) (set [])" by (simp add: leaves_safe_def)
  have w: "\<forall>p \<in> elf_segments EM_X86_64 (demo_elf EM_X86_64). seg_within (2 ^ 48) p" using demo_covers(4) by (simp add: demo_segments)
  have b: "unat (0x500000 :: u64) < 2 ^ 48" by simp
  have nc: "\<forall>p \<in> elf_segments EM_X86_64 (demo_elf EM_X86_64). \<not> covers p 0x500000"
    by (simp add: demo_segments covers_def demo_phdr_def page_of_def PAGE_SIZE_def)
  have "distinct ([] :: u64 list)" by simp
  from failed_load_contained [OF list_source_fresh this s sf w run b nc] run show ?thesis
    by (auto simp: byte_at_def x86_demo_empty(2))
qed

end
