(* ===== verification/Hostcontract.thy ===== *)
theory Hostcontract
  imports Abi
begin

text \<open>
  The capability-gated host-contract dispatcher (src/crates/hostcontract), a function over the
  HostEnv trait of src/crates/abi. The trait is a record of functions on a state the dispatcher
  never looks into; the kernel's own environment and a small concrete one are instances.
\<close>

section \<open>The environment\<close>

record 's HostEnv =
  env_debug_write :: "u8 list \<Rightarrow> 's \<Rightarrow> 's"
  env_gpu_info :: "'s \<Rightarrow> GpuInfo"
  env_cap_lookup :: "CapId \<Rightarrow> 's \<Rightarrow> (CapType \<times> CapRights \<times> u64) option"
  env_map_device :: "u64 \<Rightarrow> u64 \<Rightarrow> bool \<Rightarrow> 's \<Rightarrow> u64 option \<times> 's"
  env_unmap_device :: "'s \<Rightarrow> 's"
  env_write_user_bytes :: "u64 \<Rightarrow> u8 list \<Rightarrow> 's \<Rightarrow> bool \<times> 's"
  env_read_user_bytes :: "u64 \<Rightarrow> usize \<Rightarrow> 's \<Rightarrow> u8 list option"

definition DEBUG_CHUNK :: usize where "DEBUG_CHUNK = 256"
definition DEBUG_MAX_TOTAL :: u64 where "DEBUG_MAX_TOTAL = 64 * 1024"
definition STUB_BAR_PAGES :: u64 where "STUB_BAR_PAGES = 1"

text \<open>\<open>as_bytes\<close> on the two \<open>repr(C)\<close> responses: their fields in order, little-endian, no padding.\<close>

definition le_bytes :: "nat \<Rightarrow> 'a::len word \<Rightarrow> u8 list" where
  "le_bytes n w = map (\<lambda>i. ucast (drop_bit (8 * i) w)) [0..<n]"

definition gpu_info_bytes :: "GpuInfo \<Rightarrow> u8 list" where
  "gpu_info_bytes g = le_bytes 2 (pci_vendor g) @ le_bytes 2 (pci_device g) @ le_bytes 4 (gfx_version g) @ le_bytes 8 (vram_bytes g)"

definition map_bar_bytes :: "MapBarResp \<Rightarrow> u8 list" where
  "map_bar_bytes r = le_bytes 8 (bar_user_va r) @ le_bytes 8 (bar_size r)"

section \<open>The operations\<close>

lemma unat_add_of_nat: "unat (x :: u64) + n < 2 ^ 64 \<Longrightarrow> unat (x + of_nat n) = unat x + n"
  by (simp add: unat_word_ariths unsigned_of_nat take_bit_eq_mod)

function debug_chunks :: "'s HostEnv \<Rightarrow> u64 \<Rightarrow> u64 \<Rightarrow> u64 \<Rightarrow> 's \<Rightarrow> u64 \<times> 's" where
  "debug_chunks env uptr tot off s =
     (if off < tot
      then let n = min (unat (tot - off)) DEBUG_CHUNK
           in case env_read_user_bytes env (uptr + off) n s of
                None \<Rightarrow> (err_FAULT, s)
              | Some chunk \<Rightarrow> debug_chunks env uptr tot (off + of_nat n) (env_debug_write env chunk s)
      else (err_OK, s))"
  by pat_completeness auto

termination
proof (relation "measure (\<lambda>(env, uptr, tot, off, s). unat tot - unat off)")
  fix env :: "'s HostEnv" and uptr tot off :: u64 and s :: 's and n chunk
  assume h: "off < tot" "n = min (unat (tot - off)) DEBUG_CHUNK"
  have d: "unat (tot - off) = unat tot - unat off" using h(1) by (simp add: unat_sub)
  have t: "unat tot < 2 ^ 64" using unsigned_less [of tot] by simp
  have n: "0 < n" "n \<le> unat tot - unat off" using h d by (auto simp: DEBUG_CHUNK_def word_less_nat_alt)
  then have "unat (off + of_nat n) = unat off + n" using t by (simp add: unat_add_of_nat)
  then show "((env, uptr, tot, off + of_nat n, env_debug_write env chunk s), env, uptr, tot, off, s)
      \<in> measure (\<lambda>(env, uptr, tot, off, s). unat tot - unat off)" using n by simp
qed simp

declare debug_chunks.simps [simp del]

definition sys_debug_write :: "'s HostEnv \<Rightarrow> u64 \<Rightarrow> u64 \<Rightarrow> 's \<Rightarrow> u64 \<times> 's" where
  "sys_debug_write env uptr len s = debug_chunks env uptr (min len DEBUG_MAX_TOTAL) 0 s"

definition sys_get_info :: "'s HostEnv \<Rightarrow> u64 \<Rightarrow> 's \<Rightarrow> u64 \<times> 's" where
  "sys_get_info env uptr s =
     (let (ok, s') = env_write_user_bytes env uptr (gpu_info_bytes (env_gpu_info env s)) s
      in (if ok then err_OK else err_FAULT, s'))"

definition sys_map_bar :: "'s HostEnv \<Rightarrow> u64 \<Rightarrow> u64 \<Rightarrow> 's \<Rightarrow> u64 \<times> 's" where
  "sys_map_bar env cap_id resp_ptr s =
     (case env_cap_lookup env (unat cap_id) s of
        Some (Mmio, rights, base) \<Rightarrow>
          if CapRights_contains rights RIGHTS_READ
          then case env_map_device env base STUB_BAR_PAGES (CapRights_contains rights RIGHTS_WRITE) s of
                 (None, s1) \<Rightarrow> (err_NO_MEM, s1)
               | (Some user_va, s1) \<Rightarrow>
                   let resp = \<lparr>bar_user_va = user_va, bar_size = STUB_BAR_PAGES * PAGE_SIZE\<rparr>;
                       (ok, s2) = env_write_user_bytes env resp_ptr (map_bar_bytes resp) s1
                   in if ok then (err_OK, s2) else (err_FAULT, env_unmap_device env s2)
          else (err_NO_CAP, s)
      | _ \<Rightarrow> (err_NO_CAP, s))"

definition host_dispatch :: "'s HostEnv \<Rightarrow> u64 \<Rightarrow> u64 \<Rightarrow> u64 \<Rightarrow> u64 \<Rightarrow> u64 \<Rightarrow> u64 \<Rightarrow> 's \<Rightarrow> u64 \<times> 's" where
  "host_dispatch env num a0 a1 a2 a3 a4 s =
     (if num = sys_DEBUG_WRITE then sys_debug_write env a0 a1 s
      else if num = sys_GET_INFO then sys_get_info env a0 s
      else if num = sys_MAP_BAR then sys_map_bar env a0 a2 s
      else (err_BAD_SYSCALL, s))"

section \<open>The device window\<close>

text \<open>
  What the trait's documentation promises of an environment, with \<open>win\<close> the caller's device
  window: its base and whether it is writable.
\<close>

definition window_laws :: "'s HostEnv \<Rightarrow> ('s \<Rightarrow> (u64 \<times> bool) option) \<Rightarrow> bool" where
  "window_laws env win \<longleftrightarrow>
     (\<forall>p n w s. case env_map_device env p n w s of
        (Some va, s') \<Rightarrow> win s' = Some (p, w) | (None, s') \<Rightarrow> win s' = win s \<or> win s' = None)
   \<and> (\<forall>s. win (env_unmap_device env s) = None)
   \<and> (\<forall>p bs s. win (snd (env_write_user_bytes env p bs s)) = win s)
   \<and> (\<forall>bs s. win (env_debug_write env bs s) = win s)"

lemma window_map:
  "window_laws env win \<Longrightarrow> env_map_device env p n w s = (Some va, s') \<Longrightarrow> win s' = Some (p, w)"
  "window_laws env win \<Longrightarrow> env_map_device env p n w s = (None, s') \<Longrightarrow> win s' = win s \<or> win s' = None"
  by (fastforce simp: window_laws_def split: prod.splits option.splits)+

lemma window_other:
  "window_laws env win \<Longrightarrow> win (env_unmap_device env s) = None"
  "window_laws env win \<Longrightarrow> env_write_user_bytes env p bs s = (ok, s') \<Longrightarrow> win s' = win s"
  "window_laws env win \<Longrightarrow> win (env_debug_write env bs s) = win s"
  by (simp_all add: window_laws_def) (metis snd_conv)

lemma debug_chunks_window:
  "window_laws env win \<Longrightarrow> debug_chunks env uptr tot off s = (r, s') \<Longrightarrow> win s' = win s"
proof (induction env uptr tot off s rule: debug_chunks.induct)
  case (1 env uptr tot off s)
  show ?case
  proof (cases "off < tot")
    case True
    let ?n = "min (unat (tot - off)) DEBUG_CHUNK"
    show ?thesis
    proof (cases "env_read_user_bytes env (uptr + off) ?n s")
      case None
      then show ?thesis using 1(3) True by (simp add: debug_chunks.simps [of env uptr tot off] Let_def)
    next
      case (Some chunk)
      then have "debug_chunks env uptr tot (off + of_nat ?n) (env_debug_write env chunk s) = (r, s')"
        using 1(3) True by (simp add: debug_chunks.simps [of env uptr tot off] Let_def)
      with 1(1) [OF True refl Some 1(2)] show ?thesis using window_other(3) [OF 1(2)] by simp
    qed
  next
    case False
    then show ?thesis using 1(3) by (simp add: debug_chunks.simps [of env uptr tot off])
  qed
qed


section \<open>The debug console\<close>

text \<open>User memory as a partial map, read without effect, and a console that appends.\<close>

definition console_laws :: "'s HostEnv \<Rightarrow> ('s \<Rightarrow> u8 list) \<Rightarrow> (u64 \<Rightarrow> u8 option) \<Rightarrow> bool" where
  "console_laws env out mem \<longleftrightarrow>
     (\<forall>p n s. env_read_user_bytes env p n s =
        (if \<forall>i<n. mem (p + of_nat i) \<noteq> None then Some (map (\<lambda>i. the (mem (p + of_nat i))) [0..<n]) else None))
   \<and> (\<forall>bs s. out (env_debug_write env bs s) = out s @ bs)"

abbreviation user_slice :: "(u64 \<Rightarrow> u8 option) \<Rightarrow> u64 \<Rightarrow> nat \<Rightarrow> nat \<Rightarrow> u8 list" where
  "user_slice mem p a b \<equiv> map (\<lambda>i. the (mem (p + of_nat i))) [a..<b]"

lemma all_shift: "(\<forall>i<n. P (a + i)) \<longleftrightarrow> (\<forall>i. a \<le> i \<and> i < a + n \<longrightarrow> P (i :: nat))"
proof
  assume h: "\<forall>i<n. P (a + i)"
  have "P i" if "a \<le> i \<and> i < a + n" for i
  proof -
    have "i - a < n" using that by linarith
    then show ?thesis using h [rule_format, of "i - a"] that by simp
  qed
  then show "\<forall>i. a \<le> i \<and> i < a + n \<longrightarrow> P i" by blast
qed simp

lemma all_upto:
  "\<forall>i. a \<le> i \<and> i < a + n \<longrightarrow> P i \<Longrightarrow> (\<forall>i. a + n \<le> i \<and> i < k \<longrightarrow> P i) \<longleftrightarrow> (\<forall>i. a \<le> i \<and> i < k \<longrightarrow> P (i :: nat))"
proof
  assume h: "\<forall>i. a \<le> i \<and> i < a + n \<longrightarrow> P i" "\<forall>i. a + n \<le> i \<and> i < k \<longrightarrow> P i"
  have "P i" if "a \<le> i \<and> i < k" for i using h that by (cases "i < a + n") auto
  then show "\<forall>i. a \<le> i \<and> i < k \<longrightarrow> P i" by blast
qed simp

lemma debug_chunks_out:
  assumes "console_laws env out mem" and "debug_chunks env p tot off s = (r, s')" and "256 dvd unat off" and "off \<le> tot"
  shows "if \<forall>i. unat off \<le> i \<and> i < unat tot \<longrightarrow> mem (p + of_nat i) \<noteq> None
    then r = err_OK \<and> out s' = out s @ user_slice mem p (unat off) (unat tot)
    else r = err_FAULT \<and> (\<exists>k. unat off \<le> k \<and> k < unat tot \<and> 256 dvd k
          \<and> (\<forall>i. unat off \<le> i \<and> i < k \<longrightarrow> mem (p + of_nat i) \<noteq> None) \<and> out s' = out s @ user_slice mem p (unat off) k)"
  using assms
proof (induction env p tot off s rule: debug_chunks.induct)
  case (1 env p tot off s)
  let ?o = "unat off" and ?t = "unat tot"
  show ?case
  proof (cases "off < tot")
    case False
    then have "off = tot" using 1(5) by simp
    then have "r = err_OK" "s' = s" using 1(3) by (simp_all add: debug_chunks.simps [of env p tot tot])
    then show ?thesis using \<open>off = tot\<close> by auto
  next
    case True
    let ?n = "min (unat (tot - off)) DEBUG_CHUNK"
    have d: "unat (tot - off) = ?t - ?o" using True by (simp add: unat_sub)
    have lt: "?o < ?t" using True by (simp add: word_less_nat_alt)
    have n: "0 < ?n" "?n \<le> ?t - ?o" using lt d by (auto simp: DEBUG_CHUNK_def)
    have t: "?t < 2 ^ 64" using unsigned_less [of tot] by simp
    have step: "unat (off + of_nat ?n) = ?o + ?n" using n t lt by (intro unat_add_of_nat) simp
    have shift: "p + off + of_nat i = p + of_nat (?o + i)" for i by simp
    have mem: "(\<forall>i<?n. mem (p + off + of_nat i) \<noteq> None) \<longleftrightarrow> (\<forall>i. ?o \<le> i \<and> i < ?o + ?n \<longrightarrow> mem (p + of_nat i) \<noteq> None)"
      unfolding shift by (rule all_shift)
    show ?thesis
    proof (cases "\<forall>i<?n. mem (p + off + of_nat i) \<noteq> None")
      case False
      then have "env_read_user_bytes env (p + off) ?n s = None" using 1(2) by (simp add: console_laws_def)
      then have rs: "r = err_FAULT" "s' = s" using 1(3) True by (simp_all add: debug_chunks.simps [of env p tot off] Let_def)
      obtain i where "?o \<le> i" "i < ?o + ?n" "mem (p + of_nat i) = None" using False mem by blast
      then have "?o \<le> i \<and> i < ?t \<and> mem (p + of_nat i) = None" using n(2) lt by linarith
      then have "\<not> (\<forall>i. ?o \<le> i \<and> i < ?t \<longrightarrow> mem (p + of_nat i) \<noteq> None)" by blast
      moreover have "\<exists>k. ?o \<le> k \<and> k < ?t \<and> 256 dvd k \<and> (\<forall>i. ?o \<le> i \<and> i < k \<longrightarrow> mem (p + of_nat i) \<noteq> None)
          \<and> out s' = out s @ user_slice mem p ?o k"
        using lt 1(4) rs(2) by (intro exI [of _ ?o]) auto
      ultimately show ?thesis using rs(1) by (simp only: if_False simp_thms)
    next
      case ok: True
      let ?c = "map (\<lambda>i. the (mem (p + off + of_nat i))) [0..<?n]"
      have c: "?c = user_slice mem p ?o (?o + ?n)"
        unfolding shift by (rule nth_equalityI) simp_all
      have rd: "env_read_user_bytes env (p + off) ?n s = Some ?c" using 1(2) ok by (simp add: console_laws_def)
      then have run: "debug_chunks env p tot (off + of_nat ?n) (env_debug_write env ?c s) = (r, s')"
        using 1(3) True by (simp add: debug_chunks.simps [of env p tot off] Let_def)
      have o: "out (env_debug_write env ?c s) = out s @ ?c" using 1(2) by (simp add: console_laws_def)
      have split: "out s @ ?c @ user_slice mem p (?o + ?n) k = out s @ user_slice mem p ?o k" if "?o + ?n \<le> k" for k
      proof -
        have "[?o..<k] = [?o..<?o + ?n] @ [?o + ?n..<k]" using upt_add_eq_append [of ?o "?o + ?n" "k - (?o + ?n)"] that by simp
        then show ?thesis unfolding c by simp
      qed
      have all: "(\<forall>i. ?o + ?n \<le> i \<and> i < ?t \<longrightarrow> mem (p + of_nat i) \<noteq> None) \<longleftrightarrow> (\<forall>i. ?o \<le> i \<and> i < ?t \<longrightarrow> mem (p + of_nat i) \<noteq> None)"
        using all_upto [of ?o ?n "\<lambda>i. mem (p + of_nat i) \<noteq> None"] ok mem by blast
      show ?thesis
      proof (cases "?n = 256")
        case True
        then have dv: "256 dvd unat (off + of_nat ?n)" using 1(4) step by simp
        have "off + of_nat ?n \<le> tot" using step n(2) lt by (simp add: word_le_nat_alt)
        note ih = 1(1) [OF \<open>off < tot\<close> refl rd 1(2) run dv this, unfolded step o all append_assoc]
        show ?thesis
        proof (cases "\<forall>i. ?o \<le> i \<and> i < ?t \<longrightarrow> mem (p + of_nat i) \<noteq> None")
          case True
          then show ?thesis using ih split [of ?t] n(2) lt by (simp only: if_True) simp
        next
          case False
          then obtain k where k: "r = err_FAULT" "?o + ?n \<le> k" "k < ?t" "256 dvd k"
              "\<forall>i. ?o + ?n \<le> i \<and> i < k \<longrightarrow> mem (p + of_nat i) \<noteq> None" "out s' = out s @ ?c @ user_slice mem p (?o + ?n) k"
            using ih by (simp only: if_False) blast
          have "\<forall>i. ?o \<le> i \<and> i < k \<longrightarrow> mem (p + of_nat i) \<noteq> None" using all_upto [of ?o ?n "\<lambda>i. mem (p + of_nat i) \<noteq> None"] k(5) ok mem by blast
          then have "?o \<le> k \<and> k < ?t \<and> 256 dvd k \<and> (\<forall>i. ?o \<le> i \<and> i < k \<longrightarrow> mem (p + of_nat i) \<noteq> None)
              \<and> out s' = out s @ user_slice mem p ?o k" using k split [OF k(2)] by simp
          then show ?thesis using False k(1) by (simp only: if_False) blast
        qed
      next
        case False
        then have e: "?n = ?t - ?o" using d by (auto simp: DEBUG_CHUNK_def)
        then have "off + of_nat ?n = tot" using step lt by (intro unsigned_word_eqI) simp
        then have "r = err_OK" "s' = env_debug_write env ?c s" using run by (simp_all add: debug_chunks.simps [of env p tot tot])
        moreover have "\<forall>i. ?o \<le> i \<and> i < ?t \<longrightarrow> mem (p + of_nat i) \<noteq> None" using all e lt by auto
        ultimately show ?thesis using o c e lt by simp
      qed
    qed
  qed
qed

text \<open>
  DEBUG_WRITE writes exactly the caller's bytes, at most 64 KiB of them: when that many bytes
  are readable they all reach the console in order and the call returns OK; otherwise it returns
  FAULT and the console got the whole chunks of 256 before the first unreadable one, so no byte the
  caller cannot read is ever printed.
\<close>

theorem debug_write_exact:
  assumes "console_laws env out mem" and "sys_debug_write env p len s = (r, s')"
  shows "if \<forall>i < min (unat len) 65536. mem (p + of_nat i) \<noteq> None
    then r = err_OK \<and> out s' = out s @ user_slice mem p 0 (min (unat len) 65536)
    else r = err_FAULT \<and> (\<exists>k < min (unat len) 65536. 256 dvd k \<and> (\<forall>i<k. mem (p + of_nat i) \<noteq> None) \<and> out s' = out s @ user_slice mem p 0 k)"
proof -
  let ?T = "min len DEBUG_MAX_TOTAL"
  have T: "unat ?T = min (unat len) 65536" by (simp add: min_def DEBUG_MAX_TOTAL_def word_le_nat_alt)
  have run: "debug_chunks env p ?T 0 s = (r, s')" using assms(2) by (simp add: sys_debug_write_def)
  have z: "256 dvd unat (0 :: u64)" "(0 :: u64) \<le> ?T" by simp_all
  note d = debug_chunks_out [OF assms(1) run z, unfolded T unsigned_0]
  show ?thesis
  proof (cases "\<forall>i < min (unat len) 65536. mem (p + of_nat i) \<noteq> None")
    case True
    with d show ?thesis by simp
  next
    case False
    then have "\<not> (\<forall>i. 0 \<le> i \<and> i < min (unat len) 65536 \<longrightarrow> mem (p + of_nat i) \<noteq> None)" by blast
    with d obtain k where "r = err_FAULT" "k < min (unat len) 65536" "256 dvd k" "\<forall>i<k. mem (p + of_nat i) \<noteq> None"
        "out s' = out s @ user_slice mem p 0 k" by (metis le0)
    with False show ?thesis by (simp only: if_False) blast
  qed
qed

section \<open>A concrete environment\<close>

text \<open>One Mmio capability without WRITE, a window that always maps, and 300 readable bytes at 0x1000.\<close>

record DemoHost =
  demo_out :: "u8 list"
  demo_win :: "(u64 \<times> bool) option"

definition demo_mem :: "u64 \<Rightarrow> u8 option" where
  "demo_mem a = (if 0x1000 \<le> a \<and> a < 0x112C then Some (ucast a) else None)"

definition demo_env :: "DemoHost HostEnv" where
  "demo_env = \<lparr>env_debug_write = (\<lambda>bs s. s\<lparr>demo_out := demo_out s @ bs\<rparr>),
     env_gpu_info = (\<lambda>s. \<lparr>pci_vendor = 0x1002, pci_device = 0x7551, gfx_version = 0x1201, vram_bytes = 0\<rparr>),
     env_cap_lookup = (\<lambda>c s. if c = 1 then Some (Mmio, RIGHTS_READ, 0xE0000000) else None),
     env_map_device = (\<lambda>p n w s. (Some 0x80000000, s\<lparr>demo_win := Some (p, w)\<rparr>)),
     env_unmap_device = (\<lambda>s. s\<lparr>demo_win := None\<rparr>),
     env_write_user_bytes = (\<lambda>p bs s. (p = 0x1000, s)),
     env_read_user_bytes = (\<lambda>p n s. if \<forall>i<n. demo_mem (p + of_nat i) \<noteq> None
        then Some (map (\<lambda>i. the (demo_mem (p + of_nat i))) [0..<n]) else None)\<rparr>"

definition demo_host :: DemoHost where
  "demo_host = \<lparr>demo_out = [], demo_win = None\<rparr>"

lemma demo_window_laws: "window_laws demo_env demo_win"
  by (simp add: window_laws_def demo_env_def)

lemma demo_console_laws: "console_laws demo_env demo_out demo_mem"
  by (simp add: console_laws_def demo_env_def)


theorem debug_write_exact_witness:
  "\<exists>s'. sys_debug_write demo_env 0x112A 2 demo_host = (err_OK, s') \<and> demo_out s' = [0x2A, 0x2B]"
proof -
  obtain r s' where run: "sys_debug_write demo_env 0x112A 2 demo_host = (r, s')" by (cases "sys_debug_write demo_env 0x112A 2 demo_host")
  have "\<forall>i < min (unat (2 :: u64)) 65536. demo_mem (0x112A + of_nat i) \<noteq> None"
  proof (intro allI impI)
    fix i :: nat
    assume "i < min (unat (2 :: u64)) 65536"
    then have "i = 0 \<or> i = 1" by auto
    then show "demo_mem (0x112A + of_nat i) \<noteq> None" by (auto simp: demo_mem_def)
  qed
  with debug_write_exact [OF demo_console_laws run] have "r = err_OK" "demo_out s' = user_slice demo_mem 0x112A 0 2"
    by (simp_all add: demo_host_def)
  with run show ?thesis by (simp add: demo_mem_def upt_rec)
qed

end
