(* ===== verification/Kstate.thy ===== *)
theory Kstate
  imports Capabilities Deleg Sched Runstate Regions Iommu Mm Hostcontract
begin

text \<open>
  The state of the generic nucleus (src/crates/kernel/src/lib.rs) in its x86-64 configuration: the
  process table, the region table, the device domains with their I/O page tables, the delegation
  ledger, the run queue and the allocator, all statics of the crate, as one record; the Arch and
  Space traits of src/crates/hal as a record of functions over a machine state the kernel does not
  look into; and the authority predicates every system call is written against. Log output is not
  modelled. A run that panics, exits the guest or parks the CPU stops with a value of its own.
\<close>

section \<open>The hardware interface\<close>

record Perms =
  pm_write :: bool
  pm_exec :: bool
  pm_user :: bool
  pm_device :: bool

definition USER_RW :: Perms where
  "USER_RW = \<lparr>pm_write = True, pm_exec = False, pm_user = True, pm_device = False\<rparr>"

definition USER_RO :: Perms where
  "USER_RO = \<lparr>pm_write = False, pm_exec = False, pm_user = True, pm_device = False\<rparr>"

type_synonym UserFrame = "u64 list"

definition UserFrame_ZERO :: UserFrame where "UserFrame_ZERO = replicate 40 0"

definition MAX_PROC_FRAMES :: usize where "MAX_PROC_FRAMES = 64"

text \<open>The recording allocator: the real one, the list a process's frames are charged to, and its length.\<close>

record Recording =
  rec_inner :: BitmapAllocator
  rec_frames :: "u64 list"
  rec_n :: usize

record 'm Arch =
  a_user_stack_top :: u64
  a_user_stack_pages :: nat
  a_user_mmio_base :: u64
  a_user_share_base :: u64
  a_frame_words :: usize
  a_zero_frame :: "u64 \<Rightarrow> 'm \<Rightarrow> 'm"
  a_create :: "Recording \<times> 'm \<Rightarrow> u64 option \<times> Recording \<times> 'm"
  a_share_kernel :: "u64 \<Rightarrow> u64 \<Rightarrow> 'm \<Rightarrow> 'm"
  a_map_page :: "u64 \<Rightarrow> u64 \<Rightarrow> u64 \<Rightarrow> Perms \<Rightarrow> Recording \<times> 'm \<Rightarrow> bool \<times> Recording \<times> 'm"
  a_unmap_page :: "u64 \<Rightarrow> u64 \<Rightarrow> 'm \<Rightarrow> 'm"
  a_load_user :: "u8 list \<Rightarrow> u64 \<Rightarrow> Recording \<times> 'm \<Rightarrow> u64 option \<times> Recording \<times> 'm"
  a_frame_init :: "u64 \<Rightarrow> u64 \<Rightarrow> u64 \<Rightarrow> UserFrame"
  a_frame_num :: "UserFrame \<Rightarrow> u64"
  a_frame_arg :: "UserFrame \<Rightarrow> nat \<Rightarrow> u64"
  a_set_ret :: "u64 \<Rightarrow> UserFrame \<Rightarrow> UserFrame"
  a_set_ret2 :: "u64 \<Rightarrow> UserFrame \<Rightarrow> UserFrame"
  a_set_ret3 :: "u64 \<Rightarrow> UserFrame \<Rightarrow> UserFrame"
  a_activate :: "u64 \<Rightarrow> 'm \<Rightarrow> 'm"
  a_copy_to_user :: "u64 \<Rightarrow> u8 list \<Rightarrow> 'm \<Rightarrow> bool \<times> 'm"
  a_copy_from_user :: "u64 \<Rightarrow> usize \<Rightarrow> 'm \<Rightarrow> u8 list option"
  a_user_write_ok :: "u64 \<Rightarrow> usize \<Rightarrow> 'm \<Rightarrow> bool"
  a_console_write :: "u8 list \<Rightarrow> 'm \<Rightarrow> 'm"
  a_console_irq_ack :: "'m \<Rightarrow> 'm"
  a_end_of_interrupt :: "'m \<Rightarrow> 'm"
  a_write64 :: "u64 \<Rightarrow> u64 \<Rightarrow> 'm \<Rightarrow> 'm"
  a_write32 :: "u64 \<Rightarrow> u32 \<Rightarrow> 'm \<Rightarrow> 'm"
  a_poll64 :: "u64 \<Rightarrow> u64 \<Rightarrow> 'm \<Rightarrow> bool \<times> 'm"

text \<open>\<open>a_poll64\<close> is the bounded spin of a completion wait: did the word become the value?\<close>

definition RecordingAlloc_alloc :: "'m Arch \<Rightarrow> Recording \<times> 'm \<Rightarrow> u64 option \<times> Recording \<times> 'm" where
  "RecordingAlloc_alloc A = (\<lambda>(rc, m).
     case alloc_frame (rec_inner rc) of
       (None, fa) \<Rightarrow> (None, rc\<lparr>rec_inner := fa\<rparr>, m)
     | (Some p, fa) \<Rightarrow>
         let m1 = a_zero_frame A p m
         in if rec_n rc \<ge> MAX_PROC_FRAMES then (None, rc\<lparr>rec_inner := free_frame p fa\<rparr>, m1)
            else (Some p, \<lparr>rec_inner = fa, rec_frames = (rec_frames rc)[rec_n rc := p], rec_n = rec_n rc + 1\<rparr>, m1))"

section \<open>Constants\<close>

definition MAX_PROCS :: usize where "MAX_PROCS = 6"
definition NUM_PROCS :: usize where "NUM_PROCS = 3"
definition CAP_SLOTS :: usize where "CAP_SLOTS = 20"
definition MAX_REGIONS :: usize where "MAX_REGIONS = 12"
definition REGION_MAX_PAGES :: nat where "REGION_MAX_PAGES = 4"
definition MAX_DOMAINS :: usize where "MAX_DOMAINS = 2"
definition SHARE_SLOTS :: usize where "SHARE_SLOTS = 4"
definition MAX_IRQ_LINES :: usize where "MAX_IRQ_LINES = 8"
definition MAX_DELEGATIONS :: usize where "MAX_DELEGATIONS = 16"
definition DEVICE_PAGES :: nat where "DEVICE_PAGES = 1"
definition IRQ_TIMER :: u64 where "IRQ_TIMER = 0"
definition IRQ_CONSOLE :: u64 where "IRQ_CONSOLE = 1"
definition MMIO_DEVICE_BAR :: u64 where "MMIO_DEVICE_BAR = 1"
definition PLAN_STEPS :: usize where "PLAN_STEPS = MAX_PROCS * SHARE_SLOTS + 2 * MAX_REGIONS + SHARE_SLOTS"

definition DELIVERED_IRQ_LINES :: u64 where
  "DELIVERED_IRQ_LINES = push_bit (unat IRQ_TIMER) 1 OR push_bit (unat IRQ_CONSOLE) 1"

definition delivers_irq :: "u64 \<Rightarrow> bool" where
  "delivers_irq line \<longleftrightarrow> unat line < MAX_IRQ_LINES \<and> DELIVERED_IRQ_LINES AND push_bit (unat line) 1 \<noteq> 0"

definition collect_irq :: "u64 list \<Rightarrow> usize \<Rightarrow> u64 \<times> u64 list" where
  "collect_irq pending line = (pending ! line, pending[line := 0])"

section \<open>Roles\<close>

datatype Role = Producer | Consumer | Worker | Child

definition boot_role :: "u64 \<Rightarrow> Role" where
  "boot_role i = (if i = 0 then Producer else if i = 1 then Consumer else Worker)"

definition NO_AUTHORITY :: "CapType \<times> CapRights \<times> u64" where
  "NO_AUTHORITY = (CapEndpoint, RIGHTS_NONE, 0)"

definition MMIO_BASE :: u64 where "MMIO_BASE = 0xE0000000"

fun grants_for :: "Role \<Rightarrow> (CapType \<times> CapRights \<times> u64) list" where
  "grants_for Producer = [(CapEndpoint, RIGHTS_WRITE, 0)]"
| "grants_for Consumer = [(CapEndpoint, RIGHTS_READ, 0)]"
| "grants_for Worker =
     [NO_AUTHORITY, (Mmio, RIGHTS_ALL, MMIO_BASE), (Untyped, RIGHTS_ALL, 0), (CapEndpoint, RIGHTS_READ, 1),
      (Untyped, RIGHTS_READ, 0), (Mmio, RIGHTS_WRITE, MMIO_BASE), (Irq, RIGHTS_READ, IRQ_TIMER),
      (Irq, RIGHTS_READ, IRQ_CONSOLE), (IommuDomain, RIGHTS_ALL, 1), (IommuDomain, RIGHTS_READ, 1),
      (IommuDomain, RIGHTS_ALL, 3), (IommuDomain, RIGHTS_ALL, 2), (Mmio, RIGHTS_ALL, MMIO_DEVICE_BAR)]"
| "grants_for Child = []"

definition is_mint_source :: "CapType \<Rightarrow> bool" where
  "is_mint_source t \<longleftrightarrow> t = Untyped"

section \<open>Processes, regions, domains\<close>

datatype ProcState =
    PFree
  | PReady
  | BlockedSend u64 u64 usize
  | BlockedRecv u64 u64 usize
  | BlockedIrq u64

record Process =
  pr_token :: u64
  pr_frame :: UserFrame
  pr_caps :: CapSpace
  pr_role :: Role
  pr_id :: u64
  pr_state :: ProcState
  pr_frames :: "u64 list"
  pr_nframes :: usize
  pr_irq :: "u64 list"
  pr_msg :: "u8 list"
  pr_msg_len :: usize
  pr_pending_dst :: u64
  pr_pending_len :: usize
  pr_shares :: "u64 list"
  pr_dma :: "(u64 \<times> u64) list"

definition Process_EMPTY :: Process where
  "Process_EMPTY = \<lparr>pr_token = 0, pr_frame = UserFrame_ZERO, pr_caps = CapSpace_new CAP_SLOTS, pr_role = Worker,
     pr_id = 0, pr_state = PFree, pr_frames = replicate MAX_PROC_FRAMES 0, pr_nframes = 0,
     pr_irq = replicate MAX_IRQ_LINES 0, pr_msg = replicate MAX_MSG_BYTES 0, pr_msg_len = 0,
     pr_pending_dst = 0, pr_pending_len = 0, pr_shares = replicate SHARE_SLOTS 0,
     pr_dma = replicate SHARE_SLOTS (0, 0)\<rparr>"

record KRegion =
  kr_live :: bool
  kr_id :: u64
  kr_owner :: u64
  kr_frames :: "u64 list"
  kr_npages :: nat

definition KRegion_EMPTY :: KRegion where
  "KRegion_EMPTY = \<lparr>kr_live = False, kr_id = 0, kr_owner = 0, kr_frames = replicate REGION_MAX_PAGES 0, kr_npages = 0\<rparr>"

record DomainSlot =
  ds_id :: u64
  ds_w0 :: u64
  ds_bdf :: u16
  ds_l1 :: u64

definition DomainSlot_EMPTY :: DomainSlot where
  "DomainSlot_EMPTY = \<lparr>ds_id = 0, ds_w0 = 0, ds_bdf = 0, ds_l1 = 0\<rparr>"

section \<open>The kernel\<close>

record 'm Kernel =
  k_procs :: "Process list"
  k_sched :: Scheduler
  k_current :: usize
  k_regions :: "KRegion list"
  k_next_region :: u64
  k_next_id :: u64
  k_slots :: "DomainSlot list"
  k_domains :: "Domain list"
  k_io :: "u64 \<Rightarrow> u64"
  k_fa :: "BitmapAllocator option"
  k_ledger :: Ledger
  k_killed :: u64
  k_idling :: bool
  k_parks :: u64
  k_device_wakes :: u64
  k_device_phys :: u64
  k_device_bar :: u64
  k_amdvi_base :: u64
  k_timeouts :: u64
  k_dma_withdrawn :: u64
  k_cmd_buf :: u64
  k_cmd_tail :: u64
  k_cmd_store :: u64
  k_user_elf :: "u8 list"
  k_token :: u64
  k_free_at_start :: usize
  k_mach :: 'm

text \<open>The statics as they are initialised, over a machine state of any type.\<close>

definition Kernel_statics :: "'m \<Rightarrow> 'm Kernel" where
  "Kernel_statics m = \<lparr>k_procs = replicate MAX_PROCS Process_EMPTY, k_sched = Scheduler_new MAX_PROCS, k_current = 0,
     k_regions = replicate MAX_REGIONS KRegion_EMPTY, k_next_region = 1, k_next_id = of_nat NUM_PROCS,
     k_slots = replicate MAX_DOMAINS DomainSlot_EMPTY,
     k_domains = replicate MAX_DOMAINS (Domain_new (MAX_REGIONS * REGION_MAX_PAGES) 8),
     k_io = (\<lambda>_. 0), k_fa = None, k_ledger = Ledger_new MAX_DELEGATIONS, k_killed = 0, k_idling = False,
     k_parks = 0, k_device_wakes = 0, k_device_phys = 0, k_device_bar = 0, k_amdvi_base = 0, k_timeouts = 0,
     k_dma_withdrawn = 0, k_cmd_buf = 0, k_cmd_tail = 0, k_cmd_store = 0, k_user_elf = [], k_token = 0,
     k_free_at_start = 0, k_mach = m\<rparr>"

text \<open>A machine with no state, on which every hardware operation succeeds; the witnesses run on it.\<close>

definition null_arch :: "unit Arch" where
  "null_arch = \<lparr>a_user_stack_top = 0x80000000, a_user_stack_pages = 4, a_user_mmio_base = 0x50000000,
     a_user_share_base = 0x60000000, a_frame_words = 20, a_zero_frame = (\<lambda>_ m. m),
     a_create = (\<lambda>(rc, m). (Some 0x1000, rc, m)), a_share_kernel = (\<lambda>_ _ m. m),
     a_map_page = (\<lambda>_ _ _ _ (rc, m). (True, rc, m)), a_unmap_page = (\<lambda>_ _ m. m),
     a_load_user = (\<lambda>_ _ (rc, m). (Some 0x40000000, rc, m)),
     a_frame_init = (\<lambda>entry sp arg. [entry, sp, arg] @ replicate 37 0), a_frame_num = (\<lambda>f. f ! 0),
     a_frame_arg = (\<lambda>f i. f ! (i + 1)), a_set_ret = (\<lambda>v f. f[0 := v]), a_set_ret2 = (\<lambda>v f. f[1 := v]),
     a_set_ret3 = (\<lambda>v f. f[2 := v]), a_activate = (\<lambda>_ m. m), a_copy_to_user = (\<lambda>_ _ m. (True, m)),
     a_copy_from_user = (\<lambda>_ n _. Some (replicate n 0)), a_user_write_ok = (\<lambda>_ _ _. True),
     a_console_write = (\<lambda>_ m. m), a_console_irq_ack = (\<lambda>m. m), a_end_of_interrupt = (\<lambda>m. m),
     a_write64 = (\<lambda>_ _ m. m), a_write32 = (\<lambda>_ _ m. m), a_poll64 = (\<lambda>_ _ m. (True, m))\<rparr>"

text \<open>Ways a kernel path ends without returning to its caller.\<close>

datatype Stop = Panicked | Exited bool | Parked | Resumed usize

type_synonym ('m, 'a) kres = "(Stop + 'a) \<times> 'm Kernel"

definition kbind :: "('m, 'a) kres \<Rightarrow> ('a \<Rightarrow> 'm Kernel \<Rightarrow> ('m, 'b) kres) \<Rightarrow> ('m, 'b) kres" where
  "kbind r f = (case r of (Inl s, k) \<Rightarrow> (Inl s, k) | (Inr x, k) \<Rightarrow> f x k)"

definition kreturn :: "'a \<Rightarrow> 'm Kernel \<Rightarrow> ('m, 'a) kres" where
  "kreturn x k = (Inr x, k)"

fun kfor :: "'i list \<Rightarrow> ('i \<Rightarrow> 'm Kernel \<Rightarrow> ('m, unit) kres) \<Rightarrow> 'm Kernel \<Rightarrow> ('m, unit) kres" where
  "kfor [] f k = kreturn () k"
| "kfor (i # is) f k = kbind (f i k) (\<lambda>_. kfor is f)"

text \<open>\<open>proc_at\<close> and writes through it.\<close>

definition proc_at :: "'m Kernel \<Rightarrow> usize \<Rightarrow> Process" where
  "proc_at k i = k_procs k ! i"

definition upd_proc :: "usize \<Rightarrow> (Process \<Rightarrow> Process) \<Rightarrow> 'm Kernel \<Rightarrow> 'm Kernel" where
  "upd_proc i f k = k\<lparr>k_procs := (k_procs k)[i := f (k_procs k ! i)]\<rparr>"

definition upd_mach :: "('m \<Rightarrow> 'm) \<Rightarrow> 'm Kernel \<Rightarrow> 'm Kernel" where
  "upd_mach f k = k\<lparr>k_mach := f (k_mach k)\<rparr>"

definition sched_add :: "usize \<Rightarrow> 'm Kernel \<Rightarrow> 'm Kernel" where
  "sched_add i k = k\<lparr>k_sched := snd (Scheduler_add i (k_sched k))\<rparr>"

definition sched_remove :: "usize \<Rightarrow> 'm Kernel \<Rightarrow> 'm Kernel" where
  "sched_remove i k = k\<lparr>k_sched := snd (Scheduler_remove i (k_sched k))\<rparr>"

section \<open>Authority predicates\<close>

definition caps_any :: "CapSpace \<Rightarrow> (CapSlot \<Rightarrow> bool) \<Rightarrow> bool" where
  "caps_any cs P \<longleftrightarrow> list_ex (\<lambda>i. case CapSpace_lookup cs i of None \<Rightarrow> False | Some s \<Rightarrow> P s) [0..<CAP_SLOTS]"

definition caps_hold_irq :: "CapSpace \<Rightarrow> u64 \<Rightarrow> bool" where
  "caps_hold_irq cs line \<longleftrightarrow> caps_any cs (\<lambda>s. cap_type s = Irq \<and> object s = line \<and> CapRights_contains (rights s) RIGHTS_READ)"

definition caps_irq_line :: "CapSpace \<Rightarrow> CapId \<Rightarrow> u64 option" where
  "caps_irq_line cs cap = (case CapSpace_lookup cs cap of None \<Rightarrow> None
     | Some s \<Rightarrow> if cap_type s = Irq \<and> CapRights_contains (rights s) RIGHTS_READ then Some (object s) else None)"

definition caps_hold_mmio :: "CapSpace \<Rightarrow> bool" where
  "caps_hold_mmio cs \<longleftrightarrow> caps_any cs (\<lambda>s. cap_type s = Mmio \<and> CapRights_contains (rights s) RIGHTS_READ)"

definition caps_hold_endpoint :: "CapSpace \<Rightarrow> u64 \<Rightarrow> CapRights \<Rightarrow> bool" where
  "caps_hold_endpoint cs ep needed \<longleftrightarrow>
     caps_any cs (\<lambda>s. cap_type s = CapEndpoint \<and> object s = ep \<and> CapRights_contains (rights s) needed)"

definition caps_region :: "CapSpace \<Rightarrow> CapId \<Rightarrow> CapRights \<Rightarrow> (u64 \<times> CapRights) option" where
  "caps_region cs cap needed = (case CapSpace_lookup cs cap of None \<Rightarrow> None
     | Some s \<Rightarrow> if cap_type s = CapRegion \<and> CapRights_contains (rights s) needed then Some (object s, rights s) else None)"

definition caps_iommu_domain :: "CapSpace \<Rightarrow> CapId \<Rightarrow> CapRights \<Rightarrow> u64 option" where
  "caps_iommu_domain cs cap needed = (case CapSpace_lookup cs cap of None \<Rightarrow> None
     | Some s \<Rightarrow> if cap_type s = IommuDomain \<and> CapRights_contains (rights s) needed then Some (object s) else None)"

definition caps_endpoint_object :: "CapSpace \<Rightarrow> u64 \<Rightarrow> CapRights \<Rightarrow> u64 option" where
  "caps_endpoint_object cs cap needed = (case CapSpace_lookup cs (unat cap) of None \<Rightarrow> None
     | Some s \<Rightarrow> if cap_type s = CapEndpoint \<and> CapRights_contains (rights s) needed then Some (object s) else None)"

definition holds_irq :: "'m Kernel \<Rightarrow> usize \<Rightarrow> u64 \<Rightarrow> bool" where
  "holds_irq k p line = caps_hold_irq (pr_caps (proc_at k p)) line"

definition holds_mmio :: "'m Kernel \<Rightarrow> usize \<Rightarrow> bool" where
  "holds_mmio k p = caps_hold_mmio (pr_caps (proc_at k p))"

definition holds_endpoint :: "'m Kernel \<Rightarrow> usize \<Rightarrow> u64 \<Rightarrow> CapRights \<Rightarrow> bool" where
  "holds_endpoint k p ep needed = caps_hold_endpoint (pr_caps (proc_at k p)) ep needed"

definition holds_region :: "'m Kernel \<Rightarrow> usize \<Rightarrow> u64 \<Rightarrow> CapRights \<Rightarrow> bool" where
  "holds_region k p i needed \<longleftrightarrow>
     caps_any (pr_caps (proc_at k p)) (\<lambda>s. cap_type s = CapRegion \<and> object s = i \<and> CapRights_contains (rights s) needed)"

definition holds_domain :: "'m Kernel \<Rightarrow> usize \<Rightarrow> u64 \<Rightarrow> CapRights \<Rightarrow> bool" where
  "holds_domain k p d needed \<longleftrightarrow>
     caps_any (pr_caps (proc_at k p)) (\<lambda>s. cap_type s = IommuDomain \<and> object s = d \<and> CapRights_contains (rights s) needed)"

definition endpoint_of :: "'m Kernel \<Rightarrow> usize \<Rightarrow> u64 \<Rightarrow> CapRights \<Rightarrow> u64 option" where
  "endpoint_of k p cap needed = caps_endpoint_object (pr_caps (proc_at k p)) cap needed"

definition creditable :: "'m Kernel \<Rightarrow> usize \<Rightarrow> u64 \<Rightarrow> bool" where
  "creditable k p line \<longleftrightarrow> delivers_irq line \<and> holds_irq k p line"

section \<open>Views of the tables\<close>

definition endpoint_at :: "'m Kernel \<Rightarrow> usize \<Rightarrow> usize \<Rightarrow> DEndpoint" where
  "endpoint_at k p cap = DEndpoint_new p (pr_id (proc_at k p)) cap"

definition region_slot :: "'m Kernel \<Rightarrow> u64 \<Rightarrow> usize option" where
  "region_slot k i = (if i = 0 then None else position (\<lambda>r. kr_live r \<and> kr_id r = i) (k_regions k))"

definition region_index :: "'m Kernel \<Rightarrow> u64 \<Rightarrow> usize option" where
  "region_index k i = position (\<lambda>r. kr_live r \<and> kr_id r = i) (k_regions k)"

definition region_view :: "'m Kernel \<Rightarrow> Region list \<times> Holder list" where
  "region_view k =
     (map (\<lambda>r. if kr_live r then Region_new (kr_id r) (kr_owner r) else Region_EMPTY) (k_regions k),
      map (\<lambda>p. if pr_state p \<noteq> PFree then Holder_new (pr_id p) (pr_shares p) else Holder_FREE SHARE_SLOTS) (k_procs k))"

definition run_slot :: "Process \<Rightarrow> Slot" where
  "run_slot p = (case pr_state p of
     PFree \<Rightarrow> Slot_FREE
   | PReady \<Rightarrow> Slot_blocked BlkNo
   | BlockedSend ep w l \<Rightarrow> Slot_blocked (BlkSend ep)
   | BlockedRecv ep d mx \<Rightarrow> Slot_blocked (BlkRecv ep)
   | BlockedIrq line \<Rightarrow> Slot_blocked (BlkIrq line))"

definition run_slots :: "'m Kernel \<Rightarrow> Slot list" where
  "run_slots k = map run_slot (k_procs k)"

definition find_blocked_recv :: "'m Kernel \<Rightarrow> u64 \<Rightarrow> usize option" where
  "find_blocked_recv k ep = find_recv (run_slots k) ep"

definition find_blocked_send :: "'m Kernel \<Rightarrow> u64 \<Rightarrow> (usize \<times> u64 \<times> usize) option" where
  "find_blocked_send k ep = (case find_send (run_slots k) ep of
     None \<Rightarrow> None
   | Some i \<Rightarrow> (case pr_state (proc_at k i) of BlockedSend e w l \<Rightarrow> Some (i, w, l) | _ \<Rightarrow> None))"

definition share_va :: "'m Arch \<Rightarrow> usize \<Rightarrow> u64" where
  "share_va A slot = a_user_share_base A + of_nat slot * of_nat REGION_MAX_PAGES * PAGE_SIZE"

end
