(* ===== verification/Kdma.thy ===== *)
theory Kdma
  imports Kstate
begin

text \<open>
  DMA containment in the kernel (the \<open>iopte\<close> module, MAP_DMA, UNMAP_DMA and the withdrawals of
  src/crates/kernel/src/lib.rs): the I/O page-table entries a device walks, kept in step with the
  device domains of the iommu crate, and the command ring that flushes what the unit cached.
\<close>

section \<open>Entries\<close>

definition IOPTE_PR :: u64 where "IOPTE_PR = push_bit 0 1"
definition IOPTE_IR :: u64 where "IOPTE_IR = push_bit 61 1"
definition IOPTE_IW :: u64 where "IOPTE_IW = push_bit 62 1"
definition IOPTE_LEAF :: u64 where "IOPTE_LEAF = push_bit 9 0"
definition IOPTE_ADDR :: u64 where "IOPTE_ADDR = 0x000FFFFFFFFFF000"

definition iopte_leaf :: "u64 \<Rightarrow> CapRights \<Rightarrow> u64" where
  "iopte_leaf frame rts =
     (let pte = (frame AND IOPTE_ADDR) OR IOPTE_PR OR IOPTE_LEAF;
          pte = (if CapRights_contains rts RIGHTS_READ then pte OR IOPTE_IR else pte)
      in if CapRights_contains rts RIGHTS_WRITE then pte OR IOPTE_IW else pte)"

definition DMA_IOVA_FIRST_SLOT :: nat where "DMA_IOVA_FIRST_SLOT = 256"
definition DMA_IOVA_SLOTS :: nat where "DMA_IOVA_SLOTS = 256"

section \<open>Domains\<close>

definition domain_lookup :: "u64 list \<Rightarrow> u64 \<Rightarrow> usize option" where
  "domain_lookup ids named = position (\<lambda>i. i \<noteq> 0 \<and> i = named) ids"

definition domain_ids :: "'m Kernel \<Rightarrow> u64 list" where
  "domain_ids k = map ds_id (k_slots k)"

definition domain_at :: "'m Kernel \<Rightarrow> usize \<Rightarrow> Domain" where
  "domain_at k i = k_domains k ! i"

definition upd_domain :: "usize \<Rightarrow> (Domain \<Rightarrow> Domain) \<Rightarrow> 'm Kernel \<Rightarrow> 'm Kernel" where
  "upd_domain i f k = k\<lparr>k_domains := (k_domains k)[i := f (k_domains k ! i)]\<rparr>"

definition domain_l1 :: "'m Kernel \<Rightarrow> u64 \<Rightarrow> u64 option" where
  "domain_l1 k named = (case domain_lookup (domain_ids k) named of
     None \<Rightarrow> None
   | Some i \<Rightarrow> let l1 = ds_l1 (k_slots k ! i) in if l1 = 0 then None else Some l1)"

text \<open>The table entry of a slot, as the volatile reads and writes address it.\<close>

definition read_io :: "'m Kernel \<Rightarrow> u64 \<Rightarrow> nat \<Rightarrow> u64" where
  "read_io k l1 slot = k_io k (l1 + of_nat slot * 8)"

definition write_io :: "u64 \<Rightarrow> nat \<Rightarrow> u64 \<Rightarrow> 'm Kernel \<Rightarrow> 'm Kernel" where
  "write_io l1 slot v k = k\<lparr>k_io := (k_io k)(l1 + of_nat slot * 8 := v)\<rparr>"

section \<open>The command ring\<close>

definition iommu_cmd :: "'m Arch \<Rightarrow> u64 \<Rightarrow> u32 list \<Rightarrow> 'm Kernel \<Rightarrow> ('m, bool) kres" where
  "iommu_cmd A base cmd k =
     (if k_cmd_buf k = 0 then kreturn False k
      else let tail = k_cmd_tail k
           in if \<not> tail + 16 \<le> 4096 then (Inl Panicked, k)
              else let k1 = upd_mach (fold (\<lambda>(i, w). a_write32 A (k_cmd_buf k + tail + of_nat i * 4) w) (enumerate 0 cmd)) k;
                       k2 = k1\<lparr>k_cmd_tail := tail + 16\<rparr>
                   in kreturn True (upd_mach (a_write64 A (base + 0x2008) (tail + 16)) k2))"

definition COMPLETION_DONE :: u64 where "COMPLETION_DONE = 0x5A5A5A5AA5A5A5A5"

definition iommu_invalidate :: "'m Arch \<Rightarrow> u64 \<Rightarrow> usize \<Rightarrow> 'm Kernel \<Rightarrow> ('m, bool) kres" where
  "iommu_invalidate A base di k =
     (let store = k_cmd_store k
      in if store = 0 then kreturn False k
         else let k = upd_mach (a_write64 A store 0) k;
                  dom_id = (of_nat di :: u32) AND 0xFFFF;
                  bdf = (ucast (ds_bdf (k_slots k ! di)) :: u32);
                  cw = [(ucast store AND 0xFFFFFFF8) OR 1, (ucast (drop_bit 32 store) AND 0x000FFFFF) OR push_bit 28 1,
                        ucast COMPLETION_DONE, ucast (drop_bit 32 COMPLETION_DONE)]
              in kbind (iommu_cmd A base [0, push_bit 28 3 OR dom_id, 0xFFFFF000 OR 1, 0x7FFFFFFF] k) (\<lambda>ok1 k.
                   if \<not> ok1 then kreturn False k
                   else kbind (iommu_cmd A base [bdf, push_bit 28 2, 0, 0] k) (\<lambda>ok2 k.
                     if \<not> ok2 then kreturn False k
                     else kbind (iommu_cmd A base cw k) (\<lambda>ok3 k.
                       if \<not> ok3 then kreturn False k
                       else let (r, m) = a_poll64 A store COMPLETION_DONE (k_mach k)
                            in kreturn r (k\<lparr>k_mach := m\<rparr>)))))"

definition count_timeout :: "bool \<Rightarrow> 'm Kernel \<Rightarrow> ('m, unit) kres" where
  "count_timeout ok k = kreturn () (if ok then k else k\<lparr>k_timeouts := k_timeouts k + 1\<rparr>)"

definition invalidate_all_domains :: "'m Arch \<Rightarrow> u64 \<Rightarrow> 'm Kernel \<Rightarrow> ('m, unit) kres" where
  "invalidate_all_domains A base =
     kfor [0..<MAX_DOMAINS] (\<lambda>di k.
       if ds_id (k_slots k ! di) \<noteq> 0 then kbind (iommu_invalidate A base di k) count_timeout else kreturn () k)"

section \<open>Withdrawal\<close>

definition clear_io_slot :: "u64 \<Rightarrow> u64 \<Rightarrow> nat \<Rightarrow> bool \<times> 'm Kernel \<Rightarrow> bool \<times> 'm Kernel" where
  "clear_io_slot l1 pfn slot = (\<lambda>(any, k).
     let pte = read_io k l1 slot
     in if pte AND IOPTE_PR \<noteq> 0 \<and> drop_bit PAGE_SHIFT (pte AND IOPTE_ADDR) = pfn
        then (True, write_io l1 slot 0 k) else (any, k))"

definition clear_io_mappings_in :: "usize \<Rightarrow> u64 \<Rightarrow> 'm Kernel \<Rightarrow> bool \<times> 'm Kernel" where
  "clear_io_mappings_in di pfn k =
     (let l1 = ds_l1 (k_slots k ! di)
      in if l1 = 0 then (False, k) else fold (clear_io_slot l1 pfn) [0..<512] (False, k))"

definition clear_io_domain :: "u64 \<Rightarrow> usize \<Rightarrow> bool \<times> 'm Kernel \<Rightarrow> bool \<times> 'm Kernel" where
  "clear_io_domain pfn di = (\<lambda>(any, k). let (hit, k) = clear_io_mappings_in di pfn k in (any \<or> hit, k))"

definition clear_io_mappings_of :: "u64 \<Rightarrow> 'm Kernel \<Rightarrow> bool \<times> 'm Kernel" where
  "clear_io_mappings_of pfn k = fold (clear_io_domain pfn) [0..<MAX_DOMAINS] (False, k)"

definition frame_pfn :: "KRegion \<Rightarrow> nat \<Rightarrow> u64" where
  "frame_pfn r j = drop_bit PAGE_SHIFT (kr_frames r ! j)"

definition withdraw_page :: "usize \<Rightarrow> u64 \<Rightarrow> bool \<times> 'm Kernel \<Rightarrow> bool \<times> 'm Kernel" where
  "withdraw_page di pfn = (\<lambda>(any, k).
     let (hit, k) = clear_io_mappings_in di pfn k;
         iovas = take (REGION_MAX_PAGES * 2) (map fst (filter (\<lambda>(iova, f, rts). f = pfn) (Domain_reachable (domain_at k di))));
         k = fold (\<lambda>iova. upd_domain di (\<lambda>d. snd (Domain_unmap iova d))) iovas k
     in (any \<or> hit, upd_domain di (\<lambda>d. snd (Domain_revoke pfn d)) k))"

definition withdraw_region_from_domain :: "usize \<Rightarrow> usize \<Rightarrow> 'm Kernel \<Rightarrow> bool \<times> 'm Kernel" where
  "withdraw_region_from_domain di ri k =
     (let r = k_regions k ! ri in fold (\<lambda>j. withdraw_page di (frame_pfn r j)) [0..<kr_npages r] (False, k))"

definition set_dma :: "usize \<Rightarrow> nat \<Rightarrow> u64 \<times> u64 \<Rightarrow> 'm Kernel \<Rightarrow> 'm Kernel" where
  "set_dma who slot v = upd_proc who (\<lambda>p. p\<lparr>pr_dma := (pr_dma p)[slot := v]\<rparr>)"

definition withdraw_dma_slot :: "usize \<Rightarrow> usize \<Rightarrow> 'm Kernel \<Rightarrow> bool \<times> 'm Kernel" where
  "withdraw_dma_slot who slot k =
     (let (region, domain) = pr_dma (proc_at k who) ! slot
      in if region = 0 then (False, k)
         else let k = set_dma who slot (0, 0) k
              in case domain_lookup (domain_ids k) domain of
                   None \<Rightarrow> (False, k)
                 | Some di \<Rightarrow>
                     (case region_index k region of
                        None \<Rightarrow> (False, k)
                      | Some ri \<Rightarrow> withdraw_region_from_domain di ri k))"

definition flush_if :: "'m Arch \<Rightarrow> bool \<Rightarrow> 'm Kernel \<Rightarrow> ('m, unit) kres" where
  "flush_if A any k =
     (if any \<and> k_amdvi_base k \<noteq> 0 then invalidate_all_domains A (k_amdvi_base k) k else kreturn () k)"

definition withdraw_counted :: "usize \<Rightarrow> usize \<Rightarrow> bool \<times> 'm Kernel \<Rightarrow> bool \<times> 'm Kernel" where
  "withdraw_counted who slot = (\<lambda>(any, k).
     let (hit, k) = withdraw_dma_slot who slot k
     in if hit then (True, k\<lparr>k_dma_withdrawn := k_dma_withdrawn k + 1\<rparr>) else (any, k))"

definition withdraw_all_dma_of :: "'m Arch \<Rightarrow> usize \<Rightarrow> 'm Kernel \<Rightarrow> ('m, unit) kres" where
  "withdraw_all_dma_of A who k =
     (let (any, k) = fold (withdraw_counted who) [0..<SHARE_SLOTS] (False, k) in flush_if A any k)"

section \<open>MAP_DMA and UNMAP_DMA\<close>

text \<open>The first run of free slots, with the run length reached so far.\<close>

fun find_run :: "(nat \<Rightarrow> bool) \<Rightarrow> nat \<Rightarrow> nat \<Rightarrow> nat list \<Rightarrow> nat option" where
  "find_run free npages run [] = None"
| "find_run free npages run (s # ss) =
     (if free s
      then if run + 1 = npages then Some (s + 1 - npages) else find_run free npages (run + 1) ss
      else find_run free npages 0 ss)"

definition iova_of :: "nat \<Rightarrow> u64" where
  "iova_of slot = of_nat slot * PAGE_SIZE"

text \<open>The rollback of a mapping that failed at page \<open>j\<close>.\<close>

definition undo_page :: "usize \<Rightarrow> u64 \<Rightarrow> nat \<Rightarrow> nat \<Rightarrow> 'm Kernel \<Rightarrow> 'm Kernel" where
  "undo_page di l1 first d k =
     write_io l1 (first + d) 0 (upd_domain di (\<lambda>dom. snd (Domain_unmap (iova_of (first + d)) dom)) k)"

definition undo_grant :: "usize \<Rightarrow> KRegion \<Rightarrow> nat \<Rightarrow> 'm Kernel \<Rightarrow> 'm Kernel" where
  "undo_grant di r d k =
     (if list_ex (\<lambda>(iova, f, rts). f = frame_pfn r d) (Domain_reachable (domain_at k di)) then k
      else upd_domain di (\<lambda>dom. snd (Domain_revoke (frame_pfn r d) dom)) k)"

definition map_dma_undo :: "usize \<Rightarrow> u64 \<Rightarrow> nat \<Rightarrow> KRegion \<Rightarrow> nat \<Rightarrow> 'm Kernel \<Rightarrow> 'm Kernel" where
  "map_dma_undo di l1 first r j k = fold (undo_grant di r) [0..<Suc j] (fold (undo_page di l1 first) [0..<Suc j] k)"

fun map_dma_pages :: "usize \<Rightarrow> u64 \<Rightarrow> nat \<Rightarrow> KRegion \<Rightarrow> CapRights \<Rightarrow> nat list \<Rightarrow> 'm Kernel \<Rightarrow> bool \<times> 'm Kernel" where
  "map_dma_pages di l1 first r rts [] k = (True, k)"
| "map_dma_pages di l1 first r rts (j # js) k =
     (let k = upd_domain di (\<lambda>d. snd (Domain_grant (frame_pfn r j) rts d)) k;
          (res, d) = Domain_map (iova_of (first + j)) (frame_pfn r j) rts (domain_at k di);
          k = upd_domain di (\<lambda>_. d) k
      in case res of
           Inl _ \<Rightarrow> (False, map_dma_undo di l1 first r j k)
         | Inr _ \<Rightarrow> map_dma_pages di l1 first r rts js (write_io l1 (first + j) (iopte_leaf (kr_frames r ! j) rts) k))"

definition map_dma :: "usize \<Rightarrow> u64 \<Rightarrow> u64 \<Rightarrow> CapRights \<Rightarrow> 'm Kernel \<Rightarrow> u64 \<times> 'm Kernel" where
  "map_dma who domain region rts k =
     (let ids = domain_ids k
      in if list_all (\<lambda>i. i = 0) ids then (err_NO_MEM, k)
         else case domain_lookup ids domain of
                None \<Rightarrow> (err_NO_CAP, k)
              | Some di \<Rightarrow>
                  (case domain_l1 k domain of
                     None \<Rightarrow> (err_NO_MEM, k)
                   | Some l1 \<Rightarrow>
                       (case region_index k region of
                          None \<Rightarrow> (err_NO_CAP, k)
                        | Some ri \<Rightarrow>
                            let r = k_regions k ! ri; npages = kr_npages r
                            in case find_run (\<lambda>slot. read_io k l1 slot AND IOPTE_PR = 0) npages 0
                                      [DMA_IOVA_FIRST_SLOT..<DMA_IOVA_FIRST_SLOT + DMA_IOVA_SLOTS] of
                                 None \<Rightarrow> (err_NO_MEM, k)
                               | Some first \<Rightarrow>
                                   (case position (\<lambda>e. fst e = 0) (pr_dma (proc_at k who)) of
                                      None \<Rightarrow> (err_NO_MEM, k)
                                    | Some slot \<Rightarrow>
                                        (case map_dma_pages di l1 first r rts [0..<npages] k of
                                           (False, k') \<Rightarrow> (err_NO_CAP, k')
                                         | (True, k') \<Rightarrow> (iova_of first, set_dma who slot (region, domain) k'))))))"

definition unmap_dma :: "'m Arch \<Rightarrow> usize \<Rightarrow> u64 \<Rightarrow> u64 \<Rightarrow> 'm Kernel \<Rightarrow> ('m, u64) kres" where
  "unmap_dma A who domain region k =
     (let ids = domain_ids k
      in if list_all (\<lambda>i. i = 0) ids then kreturn err_NO_MEM k
         else case domain_lookup ids domain of
                None \<Rightarrow> kreturn err_NO_CAP k
              | Some di \<Rightarrow>
                  (case region_index k region of
                     None \<Rightarrow> kreturn err_NO_CAP k
                   | Some ri \<Rightarrow>
                       let k = snd (withdraw_region_from_domain di ri k);
                           k = upd_proc who (\<lambda>p. p\<lparr>pr_dma := map (\<lambda>e. if e = (region, domain) then (0, 0) else e) (pr_dma p)\<rparr>) k
                       in if k_amdvi_base k = 0 then kreturn err_OK k
                          else kbind (iommu_invalidate A (k_amdvi_base k) di k) (\<lambda>ok k.
                                 kbind (count_timeout ok k) (\<lambda>_. kreturn err_OK))))"

section \<open>What the sweeps clear\<close>

text \<open>
  The reference for every sweep: a set of table entries, and all present entries among them that
  point to a frame set to zero at once. The scans of the code are shown equal to it.
\<close>

definition points_to :: "u64 \<Rightarrow> u64 \<Rightarrow> bool" where
  "points_to pfn pte \<longleftrightarrow> pte AND IOPTE_PR \<noteq> 0 \<and> drop_bit PAGE_SHIFT (pte AND IOPTE_ADDR) = pfn"

definition io_table :: "u64 \<Rightarrow> u64 set" where
  "io_table l1 = (if l1 = 0 then {} else (\<lambda>s. l1 + of_nat s * 8) ` {0..<512})"

definition io_clear :: "u64 set \<Rightarrow> u64 \<Rightarrow> (u64 \<Rightarrow> u64) \<Rightarrow> u64 \<Rightarrow> u64" where
  "io_clear S pfn io = (\<lambda>a. if a \<in> S \<and> points_to pfn (io a) then 0 else io a)"

definition io_hit :: "u64 set \<Rightarrow> u64 \<Rightarrow> (u64 \<Rightarrow> u64) \<Rightarrow> bool" where
  "io_hit S pfn io \<longleftrightarrow> (\<exists>a\<in>S. points_to pfn (io a))"

definition domain_tables :: "'m Kernel \<Rightarrow> u64 set" where
  "domain_tables k = (\<Union>di\<in>{0..<MAX_DOMAINS}. io_table (ds_l1 (k_slots k ! di)))"

lemma points_to_0 [simp]: "\<not> points_to pfn 0"
  by (simp add: points_to_def)

lemma io_clear_empty [simp]: "io_clear {} pfn io = io"
  by (simp add: io_clear_def)

lemma io_hit_empty [simp]: "\<not> io_hit {} pfn io"
  by (simp add: io_hit_def)

lemma io_clear_clear: "io_clear T pfn (io_clear S pfn io) = io_clear (S \<union> T) pfn io"
  by (auto simp: io_clear_def)

lemma io_hit_clear: "io_hit S pfn io \<or> io_hit T pfn (io_clear S pfn io) \<longleftrightarrow> io_hit (S \<union> T) pfn io"
  by (auto simp: io_hit_def io_clear_def)

lemma io_clear_none: "a \<in> S \<Longrightarrow> \<not> points_to pfn (io_clear S pfn io a)"
  by (simp add: io_clear_def)

lemma io_clear_other: "a \<notin> S \<Longrightarrow> io_clear S pfn io a = io a"
  by (simp add: io_clear_def)

lemma io_clear_keeps_none: "\<not> points_to q (io a) \<Longrightarrow> \<not> points_to q (io_clear S pfn io a)"
  by (simp add: io_clear_def)

lemma io_clear_one: "io_clear {a} pfn io = (if points_to pfn (io a) then io(a := 0) else io)"
  by (auto simp: io_clear_def)

lemma io_hit_one: "io_hit {a} pfn io = points_to pfn (io a)"
  by (simp add: io_hit_def)

lemma clear_slots:
  "fold (clear_io_slot l1 pfn) ss (b, k) =
     (b \<or> io_hit ((\<lambda>s. l1 + of_nat s * 8) ` set ss) pfn (k_io k),
      k\<lparr>k_io := io_clear ((\<lambda>s. l1 + of_nat s * 8) ` set ss) pfn (k_io k)\<rparr>)"
proof (induction ss arbitrary: b k)
  case (Cons s ss)
  let ?a = "l1 + of_nat s * 8"
  have one: "clear_io_slot l1 pfn s (b, k) =
      (b \<or> io_hit {?a} pfn (k_io k), k\<lparr>k_io := io_clear {?a} pfn (k_io k)\<rparr>)"
    unfolding io_clear_one io_hit_one clear_io_slot_def read_io_def write_io_def Let_def prod.case points_to_def [symmetric]
    by simp
  show ?case
    unfolding fold_simps(2) one Cons.IH
    using io_hit_clear [of "{?a}" pfn "k_io k" "(\<lambda>s. l1 + of_nat s * 8) ` set ss"]
    by (simp add: io_clear_clear disj_assoc)
qed simp

lemma clear_in:
  "clear_io_mappings_in di pfn k =
     (io_hit (io_table (ds_l1 (k_slots k ! di))) pfn (k_io k),
      k\<lparr>k_io := io_clear (io_table (ds_l1 (k_slots k ! di))) pfn (k_io k)\<rparr>)"
proof (cases "ds_l1 (k_slots k ! di) = 0")
  case False
  then show ?thesis
    unfolding clear_io_mappings_in_def Let_def clear_slots by (simp add: io_table_def)
qed (simp add: clear_io_mappings_in_def io_table_def)

lemma clear_domains:
  "fold (clear_io_domain pfn) ds (b, k) =
     (b \<or> io_hit (\<Union>di\<in>set ds. io_table (ds_l1 (k_slots k ! di))) pfn (k_io k),
      k\<lparr>k_io := io_clear (\<Union>di\<in>set ds. io_table (ds_l1 (k_slots k ! di))) pfn (k_io k)\<rparr>)"
proof (induction ds arbitrary: b k)
  case (Cons d ds)
  let ?T = "\<lambda>d. io_table (ds_l1 (k_slots k ! d))"
  have one: "clear_io_domain pfn d (b, k) = (b \<or> io_hit (?T d) pfn (k_io k), k\<lparr>k_io := io_clear (?T d) pfn (k_io k)\<rparr>)"
    by (simp add: clear_io_domain_def clear_in)
  show ?case
    unfolding fold_simps(2) one Cons.IH
    using io_hit_clear [of "?T d" pfn "k_io k" "\<Union>di\<in>set ds. ?T di"]
    by (simp add: io_clear_clear disj_assoc)
qed simp

lemma clear_of:
  "clear_io_mappings_of pfn k =
     (io_hit (domain_tables k) pfn (k_io k), k\<lparr>k_io := io_clear (domain_tables k) pfn (k_io k)\<rparr>)"
  by (simp add: clear_io_mappings_of_def clear_domains domain_tables_def)

text \<open>
  The scan that runs before a frame goes back to the allocator equals its reference: it zeroes
  exactly the present entries, in the tables of all device domains, that point to the frame, and
  reports whether there was one. Afterwards no domain's table has a present entry for the frame,
  whatever the bookkeeping model believed.
\<close>

theorem sweep_is_complete:
  "clear_io_mappings_of pfn k =
      (io_hit (domain_tables k) pfn (k_io k), k\<lparr>k_io := io_clear (domain_tables k) pfn (k_io k)\<rparr>)
   \<and> \<not> io_hit (domain_tables k) pfn (k_io (snd (clear_io_mappings_of pfn k)))"
  by (simp add: clear_of io_hit_def io_clear_none)

section \<open>Withdrawing a region\<close>

definition io_wipe :: "u64 set \<Rightarrow> u64 set \<Rightarrow> (u64 \<Rightarrow> u64) \<Rightarrow> u64 \<Rightarrow> u64" where
  "io_wipe S F io = (\<lambda>a. if a \<in> S \<and> (\<exists>f\<in>F. points_to f (io a)) then 0 else io a)"

definition region_pfns :: "KRegion \<Rightarrow> u64 set" where
  "region_pfns r = frame_pfn r ` {0..<kr_npages r}"

definition dma_wf :: "'m Kernel \<Rightarrow> bool" where
  "dma_wf k \<longleftrightarrow> length (k_slots k) = MAX_DOMAINS \<and> length (k_domains k) = MAX_DOMAINS
     \<and> (\<forall>d \<in> set (k_domains k). domain_inv d)"

abbreviation slot_table :: "'m Kernel \<Rightarrow> usize \<Rightarrow> u64 set" where
  "slot_table k di \<equiv> io_table (ds_l1 (k_slots k ! di))"

lemma io_wipe_clear: "io_wipe S F (io_clear S f io) = io_wipe S (insert f F) io"
proof
  fix a
  show "io_wipe S F (io_clear S f io) a = io_wipe S (insert f F) io a"
    by (cases "a \<in> S \<and> points_to f (io a)") (auto simp: io_wipe_def io_clear_def)
qed

lemma io_wipe_empty [simp]: "io_wipe S {} io = io"
  by (simp add: io_wipe_def)

lemma dma_wf_domain: "dma_wf k \<Longrightarrow> di < MAX_DOMAINS \<Longrightarrow> domain_inv (k_domains k ! di)"
  by (simp add: dma_wf_def)

lemma domain_lookup_lt: "domain_lookup (domain_ids k) named = Some di \<Longrightarrow> di < length (k_slots k)"
  by (auto simp: domain_lookup_def domain_ids_def dest: position_SomeD)

lemma upd_domain_twice: "upd_domain di f (upd_domain di g k) = upd_domain di (f \<circ> g) k"
  by (cases "di < length (k_domains k)") (simp_all add: upd_domain_def list_update_beyond)

lemma upd_domain_id: "upd_domain di (\<lambda>d. d) k = k"
  by (simp add: upd_domain_def)

lemma upd_domain_fold: "fold (\<lambda>x. upd_domain di (g x)) xs k = upd_domain di (fold g xs) k"
  by (induction xs arbitrary: k) (simp_all add: upd_domain_twice upd_domain_id id_def)

text \<open>The model half of withdrawing one page from one domain.\<close>

definition drop_page :: "u64 \<Rightarrow> Domain \<Rightarrow> Domain" where
  "drop_page pfn d = snd (Domain_revoke pfn (fold (\<lambda>iova d. snd (Domain_unmap iova d))
     (take (REGION_MAX_PAGES * 2) (map fst (filter (\<lambda>(iova, f, rts). f = pfn) (Domain_reachable d)))) d))"

lemma unmaps_keep:
  assumes "domain_inv d"
  shows "domain_inv (fold (\<lambda>iova d. snd (Domain_unmap iova d)) vs d)"
    and "dd.out_of_reach f d \<Longrightarrow> dd.out_of_reach f (fold (\<lambda>iova d. snd (Domain_unmap iova d)) vs d)"
  using assms
proof (induction vs arbitrary: d)
  case (Cons v vs)
  { case 1 then show ?case using Cons.IH(1) [OF unmap_inv] by simp }
  { case 2 then show ?case using Cons.IH(2) [OF dd.out_of_reach_stays(4) unmap_inv] by simp }
qed simp_all

lemma drop_page:
  assumes "domain_inv d"
  shows "domain_inv (drop_page pfn d)" and "dd.out_of_reach pfn (drop_page pfn d)"
    and "dd.out_of_reach f d \<Longrightarrow> dd.out_of_reach f (drop_page pfn d)"
  by (simp_all add: drop_page_def revoke_inv unmaps_keep assms dd.revoke_out_of_reach dd.out_of_reach_stays(2))

lemma withdraw_page_eq:
  "withdraw_page di pfn (b, k) =
     (b \<or> io_hit (slot_table k di) pfn (k_io k),
      upd_domain di (drop_page pfn) (k\<lparr>k_io := io_clear (slot_table k di) pfn (k_io k)\<rparr>))"
  unfolding withdraw_page_def prod.case Let_def clear_in upd_domain_fold upd_domain_twice
  by (simp add: upd_domain_def domain_at_def drop_page_def comp_def)

lemma withdraw_pages:
  assumes "di < length (k_domains k)" and "domain_inv (k_domains k ! di)"
  obtains b' d where "fold (\<lambda>j. withdraw_page di (frame_pfn r j)) js (b, k) =
      (b', k\<lparr>k_io := io_wipe (slot_table k di) (frame_pfn r ` set js) (k_io k), k_domains := (k_domains k)[di := d]\<rparr>)"
    and "domain_inv d" and "\<forall>j\<in>set js. dd.out_of_reach (frame_pfn r j) d"
    and "\<forall>f. dd.out_of_reach f (k_domains k ! di) \<longrightarrow> dd.out_of_reach f d"
  using assms
proof (induction js arbitrary: b k thesis)
  case Nil
  show ?case by (rule Nil.prems(1) [of b "k_domains k ! di"]) (simp_all add: Nil.prems)
next
  case (Cons j js)
  let ?p = "frame_pfn r j"
  let ?d1 = "drop_page ?p (k_domains k ! di)"
  let ?k1 = "k\<lparr>k_io := io_clear (slot_table k di) ?p (k_io k), k_domains := (k_domains k)[di := ?d1]\<rparr>"
  have one: "withdraw_page di ?p (b, k) = (b \<or> io_hit (slot_table k di) ?p (k_io k), ?k1)"
    unfolding withdraw_page_eq by (simp add: upd_domain_def)
  have at: "k_domains ?k1 ! di = ?d1" and len: "di < length (k_domains ?k1)" using Cons.prems(2) by simp_all
  have inv1: "domain_inv ?d1" by (rule drop_page(1) [OF Cons.prems(3)])
  obtain b' d where rest: "fold (\<lambda>j. withdraw_page di (frame_pfn r j)) js (b \<or> io_hit (slot_table k di) ?p (k_io k), ?k1) =
      (b', ?k1\<lparr>k_io := io_wipe (slot_table ?k1 di) (frame_pfn r ` set js) (k_io ?k1), k_domains := (k_domains ?k1)[di := d]\<rparr>)"
    and d: "domain_inv d" "\<forall>j\<in>set js. dd.out_of_reach (frame_pfn r j) d"
      "\<forall>f. dd.out_of_reach f (k_domains ?k1 ! di) \<longrightarrow> dd.out_of_reach f d"
    using Cons.IH [OF _ len] inv1 unfolding at by metis
  show ?case
  proof (rule Cons.prems(1) [OF _ d(1)])
    show "fold (\<lambda>j. withdraw_page di (frame_pfn r j)) (j # js) (b, k) =
      (b', k\<lparr>k_io := io_wipe (slot_table k di) (frame_pfn r ` set (j # js)) (k_io k), k_domains := (k_domains k)[di := d]\<rparr>)"
      using rest by (simp add: one io_wipe_clear)
    show "\<forall>i\<in>set (j # js). dd.out_of_reach (frame_pfn r i) d"
      using d drop_page(2) [OF Cons.prems(3), of ?p] by (simp add: at [simplified])
    show "\<forall>f. dd.out_of_reach f (k_domains k ! di) \<longrightarrow> dd.out_of_reach f d"
      using d(3) drop_page(3) [OF Cons.prems(3)] unfolding at by blast
  qed
qed

lemma withdraw_region:
  assumes "dma_wf k" and "di < MAX_DOMAINS"
  obtains b d where "withdraw_region_from_domain di ri k =
      (b, k\<lparr>k_io := io_wipe (slot_table k di) (region_pfns (k_regions k ! ri)) (k_io k), k_domains := (k_domains k)[di := d]\<rparr>)"
    and "domain_inv d" and "\<forall>f\<in>region_pfns (k_regions k ! ri). dd.out_of_reach f d"
proof -
  let ?r = "k_regions k ! ri"
  have dom: "di < length (k_domains k)" "domain_inv (k_domains k ! di)"
    using assms by (simp_all add: dma_wf_def)
  obtain b d where "fold (\<lambda>j. withdraw_page di (frame_pfn ?r j)) [0..<kr_npages ?r] (False, k) =
      (b, k\<lparr>k_io := io_wipe (slot_table k di) (frame_pfn ?r ` set [0..<kr_npages ?r]) (k_io k),
            k_domains := (k_domains k)[di := d]\<rparr>)"
    and d: "domain_inv d" "\<forall>j\<in>set [0..<kr_npages ?r]. dd.out_of_reach (frame_pfn ?r j) d"
    by (rule withdraw_pages [OF dom])
  then have "withdraw_region_from_domain di ri k =
      (b, k\<lparr>k_io := io_wipe (slot_table k di) (region_pfns ?r) (k_io k), k_domains := (k_domains k)[di := d]\<rparr>)"
    by (simp only: withdraw_region_from_domain_def region_pfns_def Let_def set_upt)
  moreover have "\<forall>f\<in>region_pfns ?r. dd.out_of_reach f d" using d(2) by (simp add: region_pfns_def)
  ultimately show thesis by (rule that [OF _ d(1)])
qed

section \<open>The command ring fills\<close>

definition ring_armed :: "'m Kernel \<Rightarrow> bool" where
  "ring_armed k \<longleftrightarrow> k_cmd_store k \<noteq> 0 \<and> k_cmd_buf k \<noteq> 0"

text \<open>What a flush leaves alone: everything but the machine, the tail and the timeout count.\<close>

definition same_dma :: "'m Kernel \<Rightarrow> 'm Kernel \<Rightarrow> bool" where
  "same_dma k k' \<longleftrightarrow> (\<exists>m t n. k' = k\<lparr>k_mach := m, k_cmd_tail := t, k_timeouts := n\<rparr>)"

lemma same_dma_refl [simp]: "same_dma k k"
  unfolding same_dma_def by (rule exI [of _ "k_mach k"], rule exI [of _ "k_cmd_tail k"], rule exI [of _ "k_timeouts k"]) simp

lemma same_dma_trans: "same_dma k k' \<Longrightarrow> same_dma k' k'' \<Longrightarrow> same_dma k k''"
  unfolding same_dma_def by (elim exE, hypsubst) (simp, metis)

lemma same_dma_step [intro]:
  "same_dma k (upd_mach f k)" "same_dma k (k\<lparr>k_mach := m\<rparr>)" "same_dma k (k\<lparr>k_cmd_tail := t\<rparr>)" "same_dma k (k\<lparr>k_timeouts := n\<rparr>)"
  unfolding same_dma_def upd_mach_def
  by (rule exI, rule exI, rule exI, rule Kernel.equality; simp)+

lemma tail_room: "unat (t::u64) + 16 * n \<le> 4096 \<longleftrightarrow> 16 * n \<le> 4096 \<and> t + of_nat (16 * n) \<le> 4096" if "unat t \<le> 4096" "n \<le> 3"
proof -
  have "unat (t + of_nat (16 * n)) = unat t + 16 * n"
    using that by (intro unat_add_of_nat) simp
  then show ?thesis by (auto simp: word_le_nat_alt)
qed

lemma cmd_appends:
  assumes "k_cmd_buf k \<noteq> 0" and "unat (k_cmd_tail k) + 16 \<le> 4096"
  obtains k' where "iommu_cmd A base c k = (Inr True, k')" and "same_dma k k'"
    and "unat (k_cmd_tail k') = unat (k_cmd_tail k) + 16" and "k_cmd_buf k' = k_cmd_buf k"
proof -
  have "k_cmd_tail k + 16 \<le> 4096" using tail_room [of "k_cmd_tail k" 1] assms(2) by simp
  moreover have "unat (k_cmd_tail k + 16) = unat (k_cmd_tail k) + 16"
    using unat_add_of_nat [of "k_cmd_tail k" 16] assms(2) by simp
  moreover have "same_dma k (upd_mach g ((upd_mach f k)\<lparr>k_cmd_tail := t\<rparr>))" for f g t
    by (rule same_dma_trans [OF same_dma_trans [OF same_dma_step(1) same_dma_step(3)] same_dma_step(1)])
  ultimately show thesis
    using assms(1) that by (simp add: iommu_cmd_def Let_def kreturn_def upd_mach_def)
qed

lemma cmd_panics:
  "k_cmd_buf k \<noteq> 0 \<Longrightarrow> unat (k_cmd_tail k) \<le> 4096 \<Longrightarrow> \<not> unat (k_cmd_tail k) + 16 \<le> 4096 \<Longrightarrow>
   iommu_cmd A base c k = (Inl Panicked, k)"
  using tail_room [of "k_cmd_tail k" 1] by (auto simp: iommu_cmd_def Let_def)

lemma invalidate_ring:
  assumes "ring_armed k" and "unat (k_cmd_tail k) \<le> 4096"
  shows "if unat (k_cmd_tail k) + 48 \<le> 4096
     then \<exists>r k'. iommu_invalidate A base di k = (Inr r, k') \<and> same_dma k k'
        \<and> unat (k_cmd_tail k') = unat (k_cmd_tail k) + 48
     else fst (iommu_invalidate A base di k) = Inl Panicked"
proof -
  let ?k0 = "upd_mach (a_write64 A (k_cmd_store k) 0) k"
  have buf: "k_cmd_buf ?k0 \<noteq> 0" and tl: "k_cmd_tail ?k0 = k_cmd_tail k" and st: "k_cmd_store k \<noteq> 0"
    using assms(1) by (simp_all add: ring_armed_def upd_mach_def)
  show ?thesis
  proof (cases "unat (k_cmd_tail k) + 16 \<le> 4096")
    case False
    then show ?thesis
      using st cmd_panics [OF buf] assms(2) by (simp add: tl iommu_invalidate_def Let_def kbind_def)
  next
    case True
    obtain k1 where 1: "iommu_cmd A base [0, push_bit 28 3 OR ((of_nat di :: u32) AND 0xFFFF), 0xFFFFF000 OR 1, 0x7FFFFFFF] ?k0 = (Inr True, k1)"
      "same_dma ?k0 k1" "unat (k_cmd_tail k1) = unat (k_cmd_tail k) + 16" "k_cmd_buf k1 = k_cmd_buf ?k0"
      by (rule cmd_appends [OF buf]) (use True in \<open>auto simp: tl\<close>)
    show ?thesis
    proof (cases "unat (k_cmd_tail k) + 32 \<le> 4096")
      case False
      then show ?thesis
        using st 1 buf cmd_panics [of k1] True by (simp add: iommu_invalidate_def Let_def kbind_def)
    next
      case t2: True
      obtain k2 where 2: "iommu_cmd A base [ucast (ds_bdf (k_slots ?k0 ! di)), push_bit 28 2, 0, 0] k1 = (Inr True, k2)"
        "same_dma k1 k2" "unat (k_cmd_tail k2) = unat (k_cmd_tail k1) + 16" "k_cmd_buf k2 = k_cmd_buf k1"
        by (rule cmd_appends [of k1]) (use 1 t2 buf in auto)
      let ?cw = "[(ucast (k_cmd_store k) AND 0xFFFFFFF8) OR 1, (ucast (drop_bit 32 (k_cmd_store k)) AND 0x000FFFFF) OR push_bit 28 1,
                ucast COMPLETION_DONE, ucast (drop_bit 32 COMPLETION_DONE)] :: u32 list"
      show ?thesis
      proof (cases "unat (k_cmd_tail k) + 48 \<le> 4096")
        case False
        then have "iommu_cmd A base ?cw k2 = (Inl Panicked, k2)"
          using 1 2 buf t2 by (intro cmd_panics) auto
        then show ?thesis
          using False st 1 2 by (simp add: iommu_invalidate_def Let_def kbind_def)
      next
        case t3: True
        obtain k3 where 3: "iommu_cmd A base ?cw k2 = (Inr True, k3)"
          "same_dma k2 k3" "unat (k_cmd_tail k3) = unat (k_cmd_tail k2) + 16"
          by (rule cmd_appends [of k2]) (use 1 2 t3 buf in auto)
        have "same_dma k k3" using 1(2) 2(2) 3(2) same_dma_step(1) same_dma_trans by blast
        then show ?thesis
          using t3 st 1 2 3
          by (auto simp: iommu_invalidate_def Let_def kbind_def kreturn_def split: prod.split
              intro: same_dma_trans [OF _ same_dma_step(2)])
      qed
    qed
  qed
qed

lemma invalidate_unarmed:
  assumes "\<not> ring_armed k"
  obtains k' where "iommu_invalidate A base di k = (Inr False, k')" and "same_dma k k'" and "k_cmd_tail k' = k_cmd_tail k"
proof (cases "k_cmd_store k = 0")
  case True
  then show thesis by (intro that [of k]) (simp_all add: iommu_invalidate_def kreturn_def)
next
  case False
  then have "k_cmd_buf k = 0" using assms by (simp add: ring_armed_def)
  then show thesis using False
    by (intro that [of "upd_mach (a_write64 A (k_cmd_store k) 0) k"])
      (auto simp: iommu_invalidate_def iommu_cmd_def kreturn_def kbind_def Let_def upd_mach_def intro!: same_dma_step(2))
qed

text \<open>The state of UNMAP_DMA before it flushes.\<close>

definition unmap_dma_tables :: "usize \<Rightarrow> u64 \<Rightarrow> u64 \<Rightarrow> usize \<Rightarrow> usize \<Rightarrow> 'm Kernel \<Rightarrow> 'm Kernel" where
  "unmap_dma_tables who domain region di ri k =
     upd_proc who (\<lambda>p. p\<lparr>pr_dma := map (\<lambda>e. if e = (region, domain) then (0, 0) else e) (pr_dma p)\<rparr>)
       (snd (withdraw_region_from_domain di ri k))"

lemma lookup_not_all_zero: "domain_lookup ids domain = Some di \<Longrightarrow> \<not> list_all (\<lambda>i. i = 0) ids"
  unfolding domain_lookup_def list_all_length by (blast dest: position_SomeD)

lemma unmap_dma_eq:
  assumes "domain_lookup (domain_ids k) domain = Some di" and "region_index k region = Some ri"
  shows "unmap_dma A who domain region k =
    (let k1 = unmap_dma_tables who domain region di ri k
     in if k_amdvi_base k1 = 0 then kreturn err_OK k1
        else kbind (iommu_invalidate A (k_amdvi_base k1) di k1) (\<lambda>ok k. kbind (count_timeout ok k) (\<lambda>_. kreturn err_OK)))"
  using assms lookup_not_all_zero [OF assms(1)]
  by (simp add: unmap_dma_def unmap_dma_tables_def Let_def)

lemma count_timeout_same:
  "same_dma k (snd (count_timeout ok k))" "fst (count_timeout ok k) = Inr ()"
    "k_cmd_tail (snd (count_timeout ok k)) = k_cmd_tail k"
  by (auto simp: count_timeout_def kreturn_def)

lemma flush_one:
  assumes "unat (k_cmd_tail k) \<le> 4096"
  shows "if k_amdvi_base k = 0 \<or> \<not> ring_armed k \<or> unat (k_cmd_tail k) + 48 \<le> 4096
     then \<exists>k'. (if k_amdvi_base k = 0 then kreturn err_OK k
            else kbind (iommu_invalidate A (k_amdvi_base k) di k) (\<lambda>ok k. kbind (count_timeout ok k) (\<lambda>_. kreturn err_OK)))
          = (Inr err_OK, k') \<and> same_dma k k'
        \<and> unat (k_cmd_tail k') = unat (k_cmd_tail k) + (if k_amdvi_base k \<noteq> 0 \<and> ring_armed k then 48 else 0)
     else fst (kbind (iommu_invalidate A (k_amdvi_base k) di k) (\<lambda>ok k. kbind (count_timeout ok k) (\<lambda>_. kreturn err_OK))) = Inl Panicked"
proof (cases "k_amdvi_base k = 0")
  case True
  then show ?thesis by (simp add: kreturn_def)
next
  case base: False
  show ?thesis
  proof (cases "ring_armed k")
    case False
    obtain k1 where "iommu_invalidate A (k_amdvi_base k) di k = (Inr False, k1)" "same_dma k k1" "k_cmd_tail k1 = k_cmd_tail k"
      by (rule invalidate_unarmed [OF False])
    then show ?thesis
      using base False count_timeout_same [where ok = False and k = k1] same_dma_trans [of k k1]
      by (cases "count_timeout False k1") (auto simp: kbind_def kreturn_def)
  next
    case True
    note inv = invalidate_ring [OF True assms, of A "k_amdvi_base k" di]
    show ?thesis
    proof (cases "unat (k_cmd_tail k) + 48 \<le> 4096")
      case room: True
      obtain r k1 where 1: "iommu_invalidate A (k_amdvi_base k) di k = (Inr r, k1)" "same_dma k k1"
        "unat (k_cmd_tail k1) = unat (k_cmd_tail k) + 48"
        using inv unfolding if_P [OF room] by blast
      then show ?thesis
        using base True room count_timeout_same [where ok = r and k = k1] same_dma_trans [of k k1]
        by (cases "count_timeout r k1") (auto simp: kbind_def kreturn_def)
    next
      case full: False
      then show ?thesis
        using inv base True unfolding if_not_P [OF full]
        by (cases "iommu_invalidate A (k_amdvi_base k) di k") (auto simp: kbind_def)
    qed
  qed
qed

text \<open>
  UNMAP_DMA that returns answers OK, zeroes exactly the present entries of the named domain's
  table that point to a frame of the region, leaves every other entry alone, and leaves the domain
  with neither a grant nor a mapping for any of those frames.
\<close>

theorem unmap_dma_withdraws:
  assumes "dma_wf k" and "domain_lookup (domain_ids k) domain = Some di" and "region_index k region = Some ri"
    and "unat (k_cmd_tail k) \<le> 4096" and "unmap_dma A who domain region k = (Inr v, k')"
  shows "v = err_OK
    \<and> k_io k' = io_wipe (slot_table k di) (region_pfns (k_regions k ! ri)) (k_io k)
    \<and> (\<forall>f \<in> region_pfns (k_regions k ! ri). Domain_granted (k_domains k' ! di) f = None
          \<and> (\<forall>iova rts. Domain_trans (k_domains k' ! di) iova \<noteq> Some (f, rts)))"
proof -
  have di: "di < MAX_DOMAINS" using domain_lookup_lt [OF assms(2)] assms(1) by (simp add: dma_wf_def)
  obtain b d where w: "withdraw_region_from_domain di ri k =
      (b, k\<lparr>k_io := io_wipe (slot_table k di) (region_pfns (k_regions k ! ri)) (k_io k), k_domains := (k_domains k)[di := d]\<rparr>)"
    and d: "\<forall>f\<in>region_pfns (k_regions k ! ri). dd.out_of_reach f d"
    by (rule withdraw_region [OF assms(1) di])
  let ?k1 = "unmap_dma_tables who domain region di ri k"
  have k1: "k_io ?k1 = io_wipe (slot_table k di) (region_pfns (k_regions k ! ri)) (k_io k)" "k_domains ?k1 ! di = d"
    "unat (k_cmd_tail ?k1) \<le> 4096"
    using assms(1,4) di by (simp_all add: unmap_dma_tables_def w upd_proc_def dma_wf_def)
  have "v = err_OK \<and> same_dma ?k1 k'"
    using flush_one [OF k1(3), of A di] assms(5)
    unfolding unmap_dma_eq [OF assms(2,3)] Let_def by (auto split: if_splits)
  then show ?thesis
    using k1(1,2) d by (auto simp: same_dma_def dd.out_of_reach_def)
qed

text \<open>A kernel with one bound device, one live region of one page and an armed command ring.\<close>

definition dma_demo :: "unit Kernel" where
  "dma_demo = (Kernel_statics ())\<lparr>
     k_slots := [\<lparr>ds_id = 1, ds_w0 = 0, ds_bdf = 8, ds_l1 = 0x5000\<rparr>, DomainSlot_EMPTY],
     k_regions := \<lparr>kr_live = True, kr_id = 1, kr_owner = 2, kr_frames = [0x7000, 0, 0, 0], kr_npages = 1\<rparr>
        # replicate 11 KRegion_EMPTY,
     k_amdvi_base := 0xFEB80000, k_cmd_buf := 0x8000, k_cmd_store := 0x9000\<rparr>"

lemma dma_demo_facts:
  "dma_wf dma_demo" "domain_lookup (domain_ids dma_demo) 1 = Some 0" "region_index dma_demo 1 = Some 0"
  "unat (k_cmd_tail dma_demo) = 0" "k_amdvi_base dma_demo \<noteq> 0" "ring_armed dma_demo"
  by (simp_all add: dma_demo_def dma_wf_def domain_ids_def domain_lookup_def region_index_def MAX_DOMAINS_def MAX_REGIONS_def
      Kernel_statics_def ring_armed_def domain_new_inv)

text \<open>An UNMAP_DMA with an armed ring: what it keeps and what it costs.\<close>

definition unmappable :: "usize \<Rightarrow> u64 \<Rightarrow> u64 \<Rightarrow> usize \<Rightarrow> usize \<Rightarrow> 'm Kernel \<Rightarrow> bool" where
  "unmappable who domain region di ri k \<longleftrightarrow> dma_wf k \<and> k_amdvi_base k \<noteq> 0 \<and> ring_armed k
     \<and> domain_lookup (domain_ids k) domain = Some di \<and> region_index k region = Some ri"

lemma withdraw_region_inv:
  assumes "dma_wf k" and "di < MAX_DOMAINS"
  shows "dma_wf (snd (withdraw_region_from_domain di ri k))"
proof -
  obtain b d where "withdraw_region_from_domain di ri k =
      (b, k\<lparr>k_io := io_wipe (slot_table k di) (region_pfns (k_regions k ! ri)) (k_io k), k_domains := (k_domains k)[di := d]\<rparr>)"
    and "domain_inv d"
    by (rule withdraw_region [OF assms])
  then show ?thesis using assms(1) set_update_subset [of "k_domains k" di d] by (auto simp: dma_wf_def)
qed

lemma withdraw_region_fields:
  assumes "dma_wf k" and "di < MAX_DOMAINS"
  shows "\<exists>io ds. snd (withdraw_region_from_domain di ri k) = k\<lparr>k_io := io, k_domains := ds\<rparr>"
proof -
  obtain b d where "withdraw_region_from_domain di ri k =
      (b, k\<lparr>k_io := io_wipe (slot_table k di) (region_pfns (k_regions k ! ri)) (k_io k), k_domains := (k_domains k)[di := d]\<rparr>)"
    by (rule withdraw_region [OF assms])
  then show ?thesis by auto
qed

lemma unmap_step:
  assumes "unmappable who domain region di ri k" and "unat (k_cmd_tail k) \<le> 4096"
  shows "if unat (k_cmd_tail k) + 48 \<le> 4096
     then fst (unmap_dma A who domain region k) = Inr err_OK
        \<and> unmappable who domain region di ri (snd (unmap_dma A who domain region k))
        \<and> unat (k_cmd_tail (snd (unmap_dma A who domain region k))) = unat (k_cmd_tail k) + 48
     else fst (unmap_dma A who domain region k) = Inl Panicked"
proof -
  note u = assms(1) [unfolded unmappable_def]
  have di: "di < MAX_DOMAINS" using u domain_lookup_lt [of k domain di] by (simp add: dma_wf_def)
  let ?k1 = "unmap_dma_tables who domain region di ri k"
  obtain io ds where f: "snd (withdraw_region_from_domain di ri k) = k\<lparr>k_io := io, k_domains := ds\<rparr>"
    using withdraw_region_fields [OF _ di] u by blast
  have wf: "dma_wf ?k1"
    using withdraw_region_inv [OF _ di, of k ri] u by (simp add: unmap_dma_tables_def upd_proc_def dma_wf_def)
  have k1: "unmappable who domain region di ri ?k1" "k_cmd_tail ?k1 = k_cmd_tail k"
    using u wf by (simp_all add: unmappable_def unmap_dma_tables_def f upd_proc_def ring_armed_def domain_ids_def region_index_def)
  have keep: "same_dma ?k1 k' \<Longrightarrow> unmappable who domain region di ri k'" for k'
    using k1(1) by (auto simp: same_dma_def unmappable_def dma_wf_def ring_armed_def domain_ids_def region_index_def)
  have b: "k_amdvi_base ?k1 \<noteq> 0" "ring_armed ?k1" using k1(1) by (simp_all add: unmappable_def)
  show ?thesis
    using flush_one [of ?k1 A di] b assms(2) k1(2) keep
    unfolding unmap_dma_eq [OF u [THEN conjunct2, THEN conjunct2, THEN conjunct2, THEN conjunct1]
                               u [THEN conjunct2, THEN conjunct2, THEN conjunct2, THEN conjunct2]] Let_def
    by (auto split: if_splits)
qed

lemma unmaps_run:
  assumes "unmappable who domain region di ri k" and "unat (k_cmd_tail k) = 0" and "n \<le> 85"
  shows "unmappable who domain region di ri (((\<lambda>k. snd (unmap_dma A who domain region k)) ^^ n) k)
     \<and> unat (k_cmd_tail (((\<lambda>k. snd (unmap_dma A who domain region k)) ^^ n) k)) = 48 * n"
  using assms(3)
proof (induction n)
  case (Suc n)
  let ?k = "((\<lambda>k. snd (unmap_dma A who domain region k)) ^^ n) k"
  have IH: "unmappable who domain region di ri ?k" "unat (k_cmd_tail ?k) = 48 * n"
    using Suc.IH Suc.prems by simp_all
  have room: "unat (k_cmd_tail ?k) + 48 \<le> 4096" using IH(2) Suc.prems by simp
  show ?case
    using unmap_step [OF IH(1), of A] room unfolding if_P [OF room] by (simp add: IH(2))
qed (use assms in simp)

text \<open>
  The command ring is never reset and each flush appends three commands: a process that may call
  UNMAP_DMA on a region gets 85 OK answers, whether or not anything was mapped, and its 86th call
  panics the nucleus.
\<close>

theorem unmap_dma_exhausts_the_ring:
  assumes "unmappable who domain region di ri k" and "unat (k_cmd_tail k) = 0"
  shows "(if n < 85 then fst (unmap_dma A who domain region (((\<lambda>k. snd (unmap_dma A who domain region k)) ^^ n) k)) = Inr err_OK
     else n = 85 \<longrightarrow> fst (unmap_dma A who domain region (((\<lambda>k. snd (unmap_dma A who domain region k)) ^^ n) k)) = Inl Panicked)"
proof -
  let ?k = "((\<lambda>k. snd (unmap_dma A who domain region k)) ^^ n) k"
  have run: "unmappable who domain region di ri ?k" "unat (k_cmd_tail ?k) = 48 * n" if "n \<le> 85"
    using unmaps_run [OF assms that, of A] by simp_all
  show ?thesis
  proof (cases "n < 85")
    case True
    then have "unat (k_cmd_tail ?k) + 48 \<le> 4096" using run(2) by simp
    then show ?thesis using unmap_step [OF run(1), of A] True by simp
  next
    case False
    have "fst (unmap_dma A who domain region ?k) = Inl Panicked" if "n = 85"
      using unmap_step [OF run(1), of A] run(2) that by simp
    then show ?thesis using False by simp
  qed
qed

theorem unmap_dma_exhausts_the_ring_witness:
  "fst (unmap_dma null_arch 2 1 1 (((\<lambda>k. snd (unmap_dma null_arch 2 1 1 k)) ^^ 85) dma_demo)) = Inl Panicked"
proof -
  have "unmappable 2 1 1 0 0 dma_demo" using dma_demo_facts by (simp add: unmappable_def)
  then show ?thesis
    using unmap_dma_exhausts_the_ring [of 2 1 1 0 0 dma_demo 85 null_arch] dma_demo_facts(4)
    by (simp del: funpow.simps)
qed

theorem unmap_dma_withdraws_witness:
  "\<exists>k'. unmap_dma null_arch 2 1 1 dma_demo = (Inr err_OK, k')
     \<and> k_io k' = io_wipe (slot_table dma_demo 0) (region_pfns (k_regions dma_demo ! 0)) (k_io dma_demo)"
proof -
  have "unmappable 2 1 1 0 0 dma_demo" using dma_demo_facts by (simp add: unmappable_def)
  then obtain k' where "unmap_dma null_arch 2 1 1 dma_demo = (Inr err_OK, k')"
    using unmap_step [of 2 1 1 0 0 dma_demo null_arch] dma_demo_facts(4)
    by (cases "unmap_dma null_arch 2 1 1 dma_demo") simp
  then show ?thesis
    using unmap_dma_withdraws [OF dma_demo_facts(1,2,3)] dma_demo_facts(4) by simp
qed

section \<open>What MAP_DMA installs\<close>

definition io_present :: "u64 \<Rightarrow> bool" where
  "io_present pte \<longleftrightarrow> pte AND IOPTE_PR \<noteq> 0"

definition slot_addr :: "u64 \<Rightarrow> nat \<Rightarrow> u64" where
  "slot_addr l1 s = l1 + of_nat s * 8"

lemma slot_addr_inj: "slot_addr l1 a = slot_addr l1 b \<longleftrightarrow> a = b" if "a < 512" and "b < 512"
proof -
  have "unat (of_nat s * 8 :: u64) = s * 8" if "s < 512" for s
    using unat_add_of_nat [of "0 :: u64" "s * 8"] that by simp
  from this [OF that(1)] this [OF that(2)] show ?thesis
    unfolding slot_addr_def by (metis add_left_cancel mult_cancel2 zero_neq_numeral)
qed

lemma find_run_Some:
  assumes "find_run free n run [a..<b] = Some f" and "run \<le> a" and "\<forall>s. a - run \<le> s \<and> s < a \<longrightarrow> free s"
  shows "a - run \<le> f \<and> f + n \<le> b \<and> (\<forall>s. f \<le> s \<and> s < f + n \<longrightarrow> free s)"
  using assms
proof (induction "b - a" arbitrary: a run)
  case (Suc m)
  then have ab: "[a..<b] = a # [Suc a..<b]" by (simp add: upt_conv_Cons)
  have m: "m = b - Suc a" using Suc.hyps(2) by simp
  show ?case
  proof (cases "free a")
    case fr: True
    have frees: "\<forall>s. Suc a - Suc run \<le> s \<and> s < Suc a \<longrightarrow> free s" using Suc.prems(3) fr by (auto simp: less_Suc_eq)
    show ?thesis
    proof (cases "run + 1 = n")
      case True
      then have "f = Suc a - Suc run" "Suc run = n" using Suc.prems(1) fr unfolding ab by simp_all
      then show ?thesis using frees Suc.prems(2) Suc.hyps(2) by auto
    next
      case False
      then have "find_run free n (Suc run) [Suc a..<b] = Some f" using Suc.prems(1) fr unfolding ab by simp
      then show ?thesis using Suc.hyps(1) [OF m, of "Suc run"] frees Suc.prems(2) by simp
    qed
  next
    case False
    then have "find_run free n 0 [Suc a..<b] = Some f" using Suc.prems(1) unfolding ab by simp
    moreover have "\<forall>s. Suc a - 0 \<le> s \<and> s < Suc a \<longrightarrow> free s" by auto
    ultimately have "Suc a - 0 \<le> f \<and> f + n \<le> b \<and> (\<forall>s. f \<le> s \<and> s < f + n \<longrightarrow> free s)"
      by (intro Suc.hyps(1) [OF m]) simp_all
    then show ?thesis by (elim conjE, intro conjI) (linarith, assumption+)
  qed
qed simp

lemma leaf_present: "io_present (iopte_leaf frame rts)"
proof -
  have "bit (iopte_leaf frame rts) 0"
    by (simp add: iopte_leaf_def Let_def IOPTE_PR_def bit_or_iff)
  then have "bit (iopte_leaf frame rts AND IOPTE_PR) 0" by (simp add: bit_and_iff IOPTE_PR_def)
  then show ?thesis by (auto simp: io_present_def)
qed

text \<open>The page loop, once it has done the pages \<open>js\<close>.\<close>

definition leaves :: "u64 \<Rightarrow> nat \<Rightarrow> KRegion \<Rightarrow> CapRights \<Rightarrow> nat list \<Rightarrow> (u64 \<Rightarrow> u64) \<Rightarrow> u64 \<Rightarrow> u64" where
  "leaves l1 first r rts = fold (\<lambda>j io. io(slot_addr l1 (first + j) := iopte_leaf (kr_frames r ! j) rts))"

lemma leaves_other: "\<forall>j\<in>set js. a \<noteq> slot_addr l1 (first + j) \<Longrightarrow> leaves l1 first r rts js io a = io a"
  by (induction js arbitrary: io) (simp_all add: leaves_def)

lemma leaves_at:
  assumes "j \<in> set js" and "\<forall>i\<in>set js. first + i < 512"
  shows "leaves l1 first r rts js io (slot_addr l1 (first + j)) = iopte_leaf (kr_frames r ! j) rts"
  using assms
proof (induction js arbitrary: io)
  case (Cons i js)
  show ?case
  proof (cases "j \<in> set js")
    case True
    then show ?thesis using Cons by (simp add: leaves_def)
  next
    case False
    then have ji: "j = i" and "\<forall>k\<in>set js. slot_addr l1 (first + j) \<noteq> slot_addr l1 (first + k)"
      using Cons.prems by (auto simp: slot_addr_inj)
    then show ?thesis
      using leaves_other [of js "slot_addr l1 (first + j)" l1 first r rts] by (simp add: leaves_def)
  qed
qed simp

text \<open>The device addresses of the pages already mapped translate in the model.\<close>

definition mapped_in :: "Domain \<Rightarrow> nat \<Rightarrow> KRegion \<Rightarrow> CapRights \<Rightarrow> nat list \<Rightarrow> bool" where
  "mapped_in d first r rts js \<longleftrightarrow> (\<forall>j\<in>set js. Domain_trans d (iova_of (first + j)) = Some (frame_pfn r j, rts))"

lemma grant_map_one:
  assumes "domain_inv d" and "Domain_map v f rts (snd (Domain_grant f rts d)) = (res, d')"
  shows "domain_inv d'" and "Domain_trans d w = Some (g, rts) \<Longrightarrow> Domain_trans d' w = Some (g, rts)"
    and "res = Inr () \<Longrightarrow> Domain_trans d' v = Some (f, rts)"
proof -
  let ?d = "snd (Domain_grant f rts d)"
  have d': "d' = snd (Domain_map v f rts ?d)" and res: "fst (Domain_map v f rts ?d) = res" using assms(2) by simp_all
  have inv: "domain_inv ?d" by (rule grant_inv [OF assms(1)])
  show "domain_inv d'" unfolding d' by (rule map_inv [OF inv])
  have self: "CapRights_contains rts rts" by (simp add: CapRights_contains_def)
  have keep: "Domain_trans ?d w = Some (g, rts)" if "Domain_trans d w = Some (g, rts)" for w g
    using dd.grant_laws(3) [OF assms(1), of f rts w] that self by simp
  { assume "Domain_trans d w = Some (g, rts)"
    then have w: "Domain_trans ?d w = Some (g, rts)" by (rule keep)
    show "Domain_trans d' w = Some (g, rts)"
    proof (cases res)
      case (Inl e)
      then show ?thesis using dd.install_laws(3) [OF inv, of v f rts e] w res d' by simp
    next
      case (Inr u)
      then show ?thesis using dd.install_laws(4) [OF inv, of v f rts] w res d' by auto
    qed }
  { assume "res = Inr ()"
    then show "Domain_trans d' v = Some (f, rts)" using dd.install_laws(4) [OF inv, of v f rts] res d' by simp }
qed

lemma pages_ok:
  assumes "map_dma_pages di l1 first r rts js k = (True, k')"
    and "di < length (k_domains k)" and "domain_inv (k_domains k ! di)"
  obtains d where "k' = k\<lparr>k_io := leaves l1 first r rts js (k_io k), k_domains := (k_domains k)[di := d]\<rparr>"
    and "domain_inv d" and "mapped_in d first r rts js"
    and "\<forall>w g. Domain_trans (k_domains k ! di) w = Some (g, rts) \<longrightarrow> Domain_trans d w = Some (g, rts)"
  using assms
proof (induction js arbitrary: k thesis)
  case Nil
  show ?case
    by (rule Nil.prems(1) [of "k_domains k ! di"]) (use Nil.prems in \<open>simp_all add: leaves_def mapped_in_def\<close>)
next
  case (Cons j js)
  let ?f = "frame_pfn r j" and ?v = "iova_of (first + j)"
  let ?d0 = "k_domains k ! di"
  obtain res d1 where dm: "Domain_map ?v ?f rts (snd (Domain_grant ?f rts ?d0)) = (res, d1)" by fastforce
  note one = grant_map_one [OF Cons.prems(4) dm]
  let ?k1 = "k\<lparr>k_domains := (k_domains k)[di := d1], k_io := (k_io k)(slot_addr l1 (first + j) := iopte_leaf (kr_frames r ! j) rts)\<rparr>"
  have "map_dma_pages di l1 first r rts (j # js) k = (case res of Inl e \<Rightarrow> (False, map_dma_undo di l1 first r j
            (k\<lparr>k_domains := (k_domains k)[di := d1]\<rparr>)) | Inr u \<Rightarrow> map_dma_pages di l1 first r rts js ?k1)"
    using Cons.prems(3) dm
    by (simp add: Let_def upd_domain_def domain_at_def write_io_def slot_addr_def split: sum.split)
  then obtain u where res: "res = Inr u" and rest: "map_dma_pages di l1 first r rts js ?k1 = (True, k')"
    using Cons.prems(2) by (cases res) simp_all
  have res': "res = Inr ()" using res by simp
  have at: "k_domains ?k1 ! di = d1" and len: "di < length (k_domains ?k1)" using Cons.prems(3) by simp_all
  have inv1: "domain_inv (k_domains ?k1 ! di)" unfolding at by (rule one(1))
  obtain d where k': "k' = ?k1\<lparr>k_io := leaves l1 first r rts js (k_io ?k1), k_domains := (k_domains ?k1)[di := d]\<rparr>"
    and d: "domain_inv d" "mapped_in d first r rts js"
      "\<forall>w g. Domain_trans (k_domains ?k1 ! di) w = Some (g, rts) \<longrightarrow> Domain_trans d w = Some (g, rts)"
    using Cons.IH [OF _ rest len inv1] by blast
  show ?case
  proof (rule Cons.prems(1) [OF _ d(1)])
    show "k' = k\<lparr>k_io := leaves l1 first r rts (j # js) (k_io k), k_domains := (k_domains k)[di := d]\<rparr>"
      by (simp add: k' leaves_def)
    show "mapped_in d first r rts (j # js)"
      using d(2) d(3) [unfolded at] one(3) [OF res'] by (simp add: mapped_in_def)
    show "\<forall>w g. Domain_trans ?d0 w = Some (g, rts) \<longrightarrow> Domain_trans d w = Some (g, rts)"
      using d(3) [unfolded at] one(2) by blast
  qed
qed

definition io_zeroed :: "u64 \<Rightarrow> nat \<Rightarrow> nat \<Rightarrow> (u64 \<Rightarrow> u64) \<Rightarrow> u64 \<Rightarrow> u64" where
  "io_zeroed l1 first n io = (\<lambda>a. if a \<in> (\<lambda>d. slot_addr l1 (first + d)) ` {0..<n} then 0 else io a)"

lemma undo_unmaps:
  assumes "di < length (k_domains k)" and "domain_inv (k_domains k ! di)"
  obtains d where "fold (undo_page di l1 first) [0..<n] k
      = k\<lparr>k_io := io_zeroed l1 first n (k_io k), k_domains := (k_domains k)[di := d]\<rparr>" and "domain_inv d"
proof -
  have "\<exists>d. fold (undo_page di l1 first) [0..<n] k
      = k\<lparr>k_io := io_zeroed l1 first n (k_io k), k_domains := (k_domains k)[di := d]\<rparr> \<and> domain_inv d"
  proof (induction n)
    case 0
    show ?case by (rule exI [of _ "k_domains k ! di"]) (simp add: io_zeroed_def assms)
  next
    case (Suc n)
    then obtain d where d: "fold (undo_page di l1 first) [0..<n] k
      = k\<lparr>k_io := io_zeroed l1 first n (k_io k), k_domains := (k_domains k)[di := d]\<rparr>" "domain_inv d"
      by blast
    have "io_zeroed l1 first (Suc n) (k_io k) = (io_zeroed l1 first n (k_io k))(slot_addr l1 (first + n) := 0)"
      by (auto simp: io_zeroed_def atLeast0_lessThan_Suc)
    then have "undo_page di l1 first n (k\<lparr>k_io := io_zeroed l1 first n (k_io k), k_domains := (k_domains k)[di := d]\<rparr>)
        = k\<lparr>k_io := io_zeroed l1 first (Suc n) (k_io k), k_domains := (k_domains k)[di := snd (Domain_unmap (iova_of (first + n)) d)]\<rparr>"
      using assms(1) by (simp only: undo_page_def write_io_def upd_domain_def slot_addr_def) simp
    then have "fold (undo_page di l1 first) [0..<Suc n] k
        = k\<lparr>k_io := io_zeroed l1 first (Suc n) (k_io k), k_domains := (k_domains k)[di := snd (Domain_unmap (iova_of (first + n)) d)]\<rparr>"
      by (simp add: d(1))
    then show ?case using unmap_inv [OF d(2)] by blast
  qed
  then show thesis using that by blast
qed

lemma undo_revokes:
  assumes "di < length (k_domains k)" and "domain_inv (k_domains k ! di)"
  obtains d where "fold (undo_grant di r) js k
      = k\<lparr>k_domains := (k_domains k)[di := d]\<rparr>" and "domain_inv d"
  using assms
proof (induction js arbitrary: k thesis)
  case Nil
  show ?case by (rule Nil.prems(1) [of "k_domains k ! di"]) (simp_all add: Nil.prems)
next
  case (Cons j js)
  let ?d1 = "if list_ex (\<lambda>(iova, f, rts). f = frame_pfn r j) (Domain_reachable (k_domains k ! di))
      then k_domains k ! di else snd (Domain_revoke (frame_pfn r j) (k_domains k ! di))"
  let ?k1 = "k\<lparr>k_domains := (k_domains k)[di := ?d1]\<rparr>"
  have len: "di < length (k_domains ?k1)" and inv1: "domain_inv (k_domains ?k1 ! di)"
    using Cons.prems(2,3) revoke_inv by (simp_all split: if_split)
  obtain d where "fold (undo_grant di r) js ?k1
      = ?k1\<lparr>k_domains := (k_domains ?k1)[di := d]\<rparr>" and d: "domain_inv d"
    by (rule Cons.IH [OF _ len inv1])
  moreover have "undo_grant di r j k = ?k1" by (simp add: undo_grant_def domain_at_def upd_domain_def)
  ultimately show ?case by (intro Cons.prems(1) [OF _ d]) simp
qed

lemma undo:
  assumes "di < length (k_domains k)" and "domain_inv (k_domains k ! di)"
  obtains d where "map_dma_undo di l1 first r j k
      = k\<lparr>k_io := io_zeroed l1 first (Suc j) (k_io k), k_domains := (k_domains k)[di := d]\<rparr>" and "domain_inv d"
proof -
  obtain d1 where d1: "fold (undo_page di l1 first) [0..<Suc j] k
      = k\<lparr>k_io := io_zeroed l1 first (Suc j) (k_io k), k_domains := (k_domains k)[di := d1]\<rparr>" and inv1: "domain_inv d1"
    by (rule undo_unmaps [OF assms])
  let ?k1 = "k\<lparr>k_io := io_zeroed l1 first (Suc j) (k_io k), k_domains := (k_domains k)[di := d1]\<rparr>"
  have len: "di < length (k_domains ?k1)" and at: "domain_inv (k_domains ?k1 ! di)" using assms(1) inv1 by simp_all
  obtain d where "fold (undo_grant di r) [0..<Suc j] ?k1
      = ?k1\<lparr>k_domains := (k_domains ?k1)[di := d]\<rparr>" and d: "domain_inv d"
    by (rule undo_revokes [OF len at])
  then show thesis
    by (intro that [OF _ d]) (simp only: map_dma_undo_def d1, simp)
qed

lemma pages_fail:
  assumes "map_dma_pages di l1 first r rts [j..<n] k = (False, k')"
    and "di < length (k_domains k)" and "domain_inv (k_domains k ! di)"
  shows "\<exists>m d. m \<le> n \<and> j < m \<and> k' = k\<lparr>k_io := io_zeroed l1 first m (k_io k), k_domains := (k_domains k)[di := d]\<rparr> \<and> domain_inv d"
  using assms
proof (induction "n - j" arbitrary: j k)
  case 0
  then show ?case by simp
next
  case (Suc l)
  have js: "[j..<n] = j # [Suc j..<n]" using Suc.hyps(2) by (simp add: upt_conv_Cons)
  let ?f = "frame_pfn r j" and ?v = "iova_of (first + j)"
  obtain res d1 where dm: "Domain_map ?v ?f rts (snd (Domain_grant ?f rts (k_domains k ! di))) = (res, d1)" by fastforce
  note inv1 = grant_map_one(1) [OF Suc.prems(3) dm]
  let ?k0 = "k\<lparr>k_domains := (k_domains k)[di := d1]\<rparr>"
  let ?k1 = "?k0\<lparr>k_io := (k_io k)(slot_addr l1 (first + j) := iopte_leaf (kr_frames r ! j) rts)\<rparr>"
  have step: "map_dma_pages di l1 first r rts [j..<n] k = (case res of Inl e \<Rightarrow> (False, map_dma_undo di l1 first r j ?k0)
      | Inr u \<Rightarrow> map_dma_pages di l1 first r rts [Suc j..<n] ?k1)"
    using Suc.prems(2) dm unfolding js
    by (simp add: Let_def upd_domain_def domain_at_def write_io_def slot_addr_def split: sum.split)
  have len: "di < length (k_domains ?k0)" "domain_inv (k_domains ?k0 ! di)"
    "di < length (k_domains ?k1)" "domain_inv (k_domains ?k1 ! di)"
    using Suc.prems(2) inv1 by simp_all
  show ?case
  proof (cases res)
    case (Inl e)
    obtain d where "map_dma_undo di l1 first r j ?k0
        = ?k0\<lparr>k_io := io_zeroed l1 first (Suc j) (k_io ?k0), k_domains := (k_domains ?k0)[di := d]\<rparr>" "domain_inv d"
      by (rule undo [OF len(1,2)])
    then show ?thesis
      using Suc.prems(1) step Inl Suc.hyps(2) by (intro exI [of _ "Suc j"] exI [of _ d]) simp
  next
    case (Inr u)
    have "l = n - Suc j" using Suc.hyps(2) by simp
    moreover have "map_dma_pages di l1 first r rts [Suc j..<n] ?k1 = (False, k')" using Suc.prems(1) step Inr by simp
    ultimately obtain m d where md: "m \<le> n" "Suc j < m" "domain_inv d"
      "k' = ?k1\<lparr>k_io := io_zeroed l1 first m (k_io ?k1), k_domains := (k_domains ?k1)[di := d]\<rparr>"
      using Suc.hyps(1) len(3,4) by blast
    have "io_zeroed l1 first m ((k_io k)(slot_addr l1 (first + j) := w)) = io_zeroed l1 first m (k_io k)" for w
      using md(2) by (fastforce simp: io_zeroed_def)
    then show ?thesis using md by (intro exI [of _ m] exI [of _ d]) simp
  qed
qed

text \<open>
  (C33) MAP_DMA is all or nothing. Either it answers a device address in its window and the domain's
  table has, for each page of the region in order and nowhere else, a new entry naming that page with
  exactly the rights of the capability, in slots that held no present entry, which the domain's model
  translates the same way, and the request is recorded for teardown; or it answers NO_MEM or NO_CAP
  and every entry a device could use is as before.
\<close>

theorem map_dma_all_or_nothing:
  assumes "dma_wf k" and "map_dma who domain region rts k = (v, k')"
  shows "(\<exists>di l1 ri first slot. domain_lookup (domain_ids k) domain = Some di \<and> domain_l1 k domain = Some l1
        \<and> region_index k region = Some ri \<and> v = iova_of first
        \<and> DMA_IOVA_FIRST_SLOT \<le> first \<and> first + kr_npages (k_regions k ! ri) \<le> DMA_IOVA_FIRST_SLOT + DMA_IOVA_SLOTS
        \<and> (\<forall>j < kr_npages (k_regions k ! ri). \<not> io_present (k_io k (slot_addr l1 (first + j)))
              \<and> k_io k' (slot_addr l1 (first + j)) = iopte_leaf (kr_frames (k_regions k ! ri) ! j) rts
              \<and> Domain_trans (k_domains k' ! di) (iova_of (first + j)) = Some (frame_pfn (k_regions k ! ri) j, rts))
        \<and> (\<forall>a. (\<forall>j < kr_npages (k_regions k ! ri). a \<noteq> slot_addr l1 (first + j)) \<longrightarrow> k_io k' a = k_io k a)
        \<and> k_procs k' = k_procs (set_dma who slot (region, domain) k))
    \<or> ((v = err_NO_MEM \<or> v = err_NO_CAP) \<and> k_procs k' = k_procs k
        \<and> (\<forall>a. io_present (k_io k a) \<or> io_present (k_io k' a) \<longrightarrow> k_io k' a = k_io k a))"
proof (cases "v = err_NO_MEM \<and> k' = k \<or> v = err_NO_CAP \<and> k' = k")
  case True
  then show ?thesis by blast
next
  case False
  define free where "free l1 = (\<lambda>slot. read_io k l1 slot AND IOPTE_PR = 0)" for l1
  obtain di l1 ri first slot where at: "domain_lookup (domain_ids k) domain = Some di" "domain_l1 k domain = Some l1"
    "region_index k region = Some ri"
    "find_run (free l1) (kr_npages (k_regions k ! ri)) 0 [DMA_IOVA_FIRST_SLOT..<DMA_IOVA_FIRST_SLOT + DMA_IOVA_SLOTS] = Some first"
    and res: "(case map_dma_pages di l1 first (k_regions k ! ri) rts [0..<kr_npages (k_regions k ! ri)] k of
                 (False, k') \<Rightarrow> (err_NO_CAP, k')
               | (True, k') \<Rightarrow> (iova_of first, set_dma who slot (region, domain) k')) = (v, k')"
    using assms(2) False unfolding map_dma_def Let_def free_def [symmetric]
    by (simp split: option.splits if_splits)
  let ?r = "k_regions k ! ri" and ?n = "kr_npages (k_regions k ! ri)"
  have di: "di < length (k_domains k)" "domain_inv (k_domains k ! di)"
    using domain_lookup_lt [OF at(1)] assms(1) by (simp_all add: dma_wf_def)
  have vac: "\<forall>s. DMA_IOVA_FIRST_SLOT - 0 \<le> s \<and> s < DMA_IOVA_FIRST_SLOT \<longrightarrow> free l1 s" by auto
  have run: "DMA_IOVA_FIRST_SLOT \<le> first" "first + ?n \<le> DMA_IOVA_FIRST_SLOT + DMA_IOVA_SLOTS"
    "\<forall>s. first \<le> s \<and> s < first + ?n \<longrightarrow> free l1 s"
    using find_run_Some [OF at(4) le0 vac] by simp_all
  have absent: "\<not> io_present (k_io k (slot_addr l1 (first + j)))" if "j < ?n" for j
    using run(3) [rule_format, of "first + j"] that by (simp add: free_def io_present_def read_io_def slot_addr_def)
  have small: "\<forall>j\<in>set [0..<?n]. first + j < 512"
    using run(2) by (auto simp: DMA_IOVA_FIRST_SLOT_def DMA_IOVA_SLOTS_def)
  obtain ok k1 where pages: "map_dma_pages di l1 first ?r rts [0..<?n] k = (ok, k1)" by fastforce
  show ?thesis
  proof (cases ok)
    case True
    have v: "v = iova_of first" and k': "k' = set_dma who slot (region, domain) k1"
      using res pages True by simp_all
    obtain d where k1: "k1 = k\<lparr>k_io := leaves l1 first ?r rts [0..<?n] (k_io k), k_domains := (k_domains k)[di := d]\<rparr>"
      and d: "mapped_in d first ?r rts [0..<?n]"
      using pages_ok [OF pages [unfolded eqTrueI [OF True]] di] by blast
    have io: "k_io k' = leaves l1 first ?r rts [0..<?n] (k_io k)" and dom: "k_domains k' ! di = d"
      and procs: "k_procs k' = k_procs (set_dma who slot (region, domain) k)"
      using di(1) by (simp_all add: k' k1 set_dma_def upd_proc_def)
    have new: "\<forall>j < ?n. \<not> io_present (k_io k (slot_addr l1 (first + j)))
              \<and> k_io k' (slot_addr l1 (first + j)) = iopte_leaf (kr_frames ?r ! j) rts
              \<and> Domain_trans (k_domains k' ! di) (iova_of (first + j)) = Some (frame_pfn ?r j, rts)"
      using absent leaves_at [OF _ small] d unfolding io dom mapped_in_def by simp
    have old: "\<forall>a. (\<forall>j < ?n. a \<noteq> slot_addr l1 (first + j)) \<longrightarrow> k_io k' a = k_io k a"
      unfolding io using leaves_other [of "[0..<?n]"] by simp
    show ?thesis
      using at(1,2,3) v run(1,2) new old procs by blast
  next
    case False
    have v: "v = err_NO_CAP" and k': "k' = k1" using res pages False by simp_all
    obtain m d where m: "m \<le> ?n" "k1 = k\<lparr>k_io := io_zeroed l1 first m (k_io k), k_domains := (k_domains k)[di := d]\<rparr>"
      using pages_fail [OF _ di, of l1 first ?r rts 0 ?n k1] pages False by auto
    have "k_io k' a = k_io k a" if "io_present (k_io k a) \<or> io_present (k_io k' a)" for a
      using that absent m(1) unfolding k' m(2) by (auto simp: io_zeroed_def io_present_def split: if_splits)
    moreover have "k_procs k' = k_procs k" by (simp add: k' m(2))
    ultimately show ?thesis using v by blast
  qed
qed

lemma map_dma_demo: "fst (map_dma 2 1 1 RIGHTS_ALL dma_demo) = 0x100000"
  by code_simp

theorem map_dma_all_or_nothing_witness:
  "\<exists>first. iova_of first = 0x100000
     \<and> k_io (snd (map_dma 2 1 1 RIGHTS_ALL dma_demo)) (slot_addr 0x5000 first) = iopte_leaf 0x7000 RIGHTS_ALL"
proof -
  let ?k' = "snd (map_dma 2 1 1 RIGHTS_ALL dma_demo)"
  have md: "map_dma 2 1 1 RIGHTS_ALL dma_demo = (0x100000, ?k')" by (rule prod_eqI) (simp_all add: map_dma_demo)
  have ne: "(0x100000 :: u64) \<noteq> err_NO_MEM" "(0x100000 :: u64) \<noteq> err_NO_CAP"
    by (simp_all add: err_NO_MEM_def err_NO_CAP_def)
  obtain l1 ri first where at: "domain_l1 dma_demo 1 = Some l1" "region_index dma_demo 1 = Some ri" "0x100000 = iova_of first"
    and new: "\<forall>j < kr_npages (k_regions dma_demo ! ri).
      k_io ?k' (slot_addr l1 (first + j)) = iopte_leaf (kr_frames (k_regions dma_demo ! ri) ! j) RIGHTS_ALL"
    using map_dma_all_or_nothing [OF dma_demo_facts(1) md] ne by blast
  have "l1 = 0x5000" using at(1) dma_demo_facts(2) by (simp add: domain_l1_def dma_demo_def Let_def)
  moreover have "ri = 0" using at(2) dma_demo_facts(3) by simp
  ultimately have "k_io ?k' (slot_addr 0x5000 first) = iopte_leaf 0x7000 RIGHTS_ALL"
    using new [rule_format, of 0] by (simp add: dma_demo_def)
  then show ?thesis using at(3) by (intro exI [of _ first]) simp
qed

text \<open>
  A holder of a READ-only capability who maps a region the owner has mapped for writing narrows the
  grant: the model drops the owner's mapping, and the owner's writable entry stays in the table.
\<close>

definition narrowed :: "unit Kernel" where
  "narrowed = snd (map_dma 3 1 1 RIGHTS_READ (snd (map_dma 2 1 1 RIGHTS_ALL dma_demo)))"

lemma narrowing_strands_a_leaf:
  "k_io narrowed (slot_addr 0x5000 256) = iopte_leaf 0x7000 RIGHTS_ALL
   \<and> Domain_trans (domain_at narrowed 0) (iova_of 256) = None"
  by code_simp

end
