(* ===== verification/Kregions.thy ===== *)
theory Kregions
  imports Kdma
begin

text \<open>
  Shared regions in the kernel (MAKE_REGION, MAP_REGION, UNMAP_REGION, FREE_REGION and the teardown
  plans of src/crates/kernel/src/lib.rs): the plan the regions crate computes is carried out step by
  step on the process table, the capability spaces, the ledger, the I/O tables and the allocator.
\<close>

section \<open>Windows\<close>

definition set_share :: "usize \<Rightarrow> nat \<Rightarrow> u64 \<Rightarrow> 'm Kernel \<Rightarrow> 'm Kernel" where
  "set_share p slot v = upd_proc p (\<lambda>pr. pr\<lparr>pr_shares := (pr_shares pr)[slot := v]\<rparr>)"

definition unmap_window :: "'m Arch \<Rightarrow> u64 \<Rightarrow> u64 \<Rightarrow> nat \<Rightarrow> 'm \<Rightarrow> 'm" where
  "unmap_window A token base n = fold (\<lambda>i. a_unmap_page A token (base + of_nat i * PAGE_SIZE)) [0..<n]"

text \<open>Drop the mapping behind one share slot; only the active space needs its tables reloaded.\<close>

definition drop_share :: "'m Arch \<Rightarrow> usize \<Rightarrow> nat \<Rightarrow> 'm Kernel \<Rightarrow> 'm Kernel" where
  "drop_share A p slot k =
     (let token = pr_token (proc_at k p);
          k = upd_mach (unmap_window A token (share_va A slot) REGION_MAX_PAGES) k;
          k = set_share p slot 0 k
      in if p = k_current k then upd_mach (a_activate A token) k else k)"

definition unmap_share_slot :: "'m Arch \<Rightarrow> usize \<Rightarrow> nat \<Rightarrow> 'm Kernel \<Rightarrow> 'm Kernel" where
  "unmap_share_slot A p slot k = (if pr_shares (proc_at k p) ! slot = 0 then k else drop_share A p slot k)"

definition unmap_region_slot :: "'m Arch \<Rightarrow> usize \<Rightarrow> u64 \<Rightarrow> nat \<Rightarrow> bool \<times> 'm Kernel \<Rightarrow> bool \<times> 'm Kernel" where
  "unmap_region_slot A p i slot = (\<lambda>(hit, k).
     if pr_shares (proc_at k p) ! slot \<noteq> i then (hit, k) else (True, drop_share A p slot k))"

definition unmap_region_from :: "'m Arch \<Rightarrow> usize \<Rightarrow> u64 \<Rightarrow> 'm Kernel \<Rightarrow> bool \<times> 'm Kernel" where
  "unmap_region_from A p i k = fold (unmap_region_slot A p i) [0..<SHARE_SLOTS] (False, k)"

section \<open>Carrying out a teardown plan\<close>

definition upd_ledger :: "(Ledger \<Rightarrow> Ledger) \<Rightarrow> 'm Kernel \<Rightarrow> 'm Kernel" where
  "upd_ledger f k = k\<lparr>k_ledger := f (k_ledger k)\<rparr>"

definition forget_cap_edges :: "usize \<Rightarrow> CapId \<Rightarrow> 'm Kernel \<Rightarrow> 'm Kernel" where
  "forget_cap_edges p c k = upd_ledger (Ledger_forget (endpoint_at k p c)) k"

definition upd_caps :: "usize \<Rightarrow> (CapSpace \<Rightarrow> CapSpace) \<Rightarrow> 'm Kernel \<Rightarrow> 'm Kernel" where
  "upd_caps p f = upd_proc p (\<lambda>pr. pr\<lparr>pr_caps := f (pr_caps pr)\<rparr>)"

definition names_region :: "CapSpace \<Rightarrow> CapId \<Rightarrow> u64 \<Rightarrow> bool" where
  "names_region cs c region = (case CapSpace_lookup cs c of None \<Rightarrow> False
     | Some s \<Rightarrow> cap_type s = CapRegion \<and> object s = region)"

definition forget_cap :: "u64 \<Rightarrow> usize \<Rightarrow> CapId \<Rightarrow> 'm Kernel \<Rightarrow> 'm Kernel" where
  "forget_cap region p c k =
     (if names_region (pr_caps (proc_at k p)) c region
      then forget_cap_edges p c (upd_caps p (CapSpace_revoke c) k) else k)"

definition forget_caps_of :: "u64 \<Rightarrow> usize \<Rightarrow> 'm Kernel \<Rightarrow> 'm Kernel" where
  "forget_caps_of region p k =
     (if pr_state (proc_at k p) = PFree then k else fold (forget_cap region p) [0..<CAP_SLOTS] k)"

definition forget_caps :: "u64 \<Rightarrow> 'm Kernel \<Rightarrow> 'm Kernel" where
  "forget_caps region = fold (forget_caps_of region) [0..<MAX_PROCS]"

text \<open>Withdraw one frame of a region from every device: the entries first, then the grants.\<close>

definition release_frame :: "u64 \<Rightarrow> bool \<times> 'm Kernel \<Rightarrow> bool \<times> 'm Kernel" where
  "release_frame pfn = (\<lambda>(touched, k).
     let (hit, k) = clear_io_mappings_of pfn k;
         k = fold (\<lambda>di. upd_domain di (\<lambda>d. snd (Domain_revoke pfn d))) [0..<MAX_DOMAINS] k
     in (touched \<or> hit, k))"

definition drop_dma_records :: "u64 \<Rightarrow> usize \<Rightarrow> 'm Kernel \<Rightarrow> 'm Kernel" where
  "drop_dma_records region p k =
     (if pr_state (proc_at k p) = PFree then k
      else upd_proc p (\<lambda>pr. pr\<lparr>pr_dma := map (\<lambda>e. if fst e = region then (0, 0) else e) (pr_dma pr)\<rparr>) k)"

definition free_frames_to :: "u64 list \<Rightarrow> 'm Kernel \<Rightarrow> 'm Kernel" where
  "free_frames_to fs k = k\<lparr>k_fa := map_option (fold free_frame fs) (k_fa k)\<rparr>"

definition release_region :: "'m Arch \<Rightarrow> u64 \<Rightarrow> 'm Kernel \<Rightarrow> ('m, unit) kres" where
  "release_region A region k =
     (case region_slot k region of
        None \<Rightarrow> kreturn () k
      | Some i \<Rightarrow>
          let r = k_regions k ! i;
              (touched, k) = fold (\<lambda>j. release_frame (frame_pfn r j)) [0..<kr_npages r] (False, k)
          in kbind (flush_if A touched k) (\<lambda>_ k.
               let k = fold (drop_dma_records region) [0..<MAX_PROCS] k;
                   k = free_frames_to (take (kr_npages r) (kr_frames r)) k
               in kreturn () (k\<lparr>k_regions := (k_regions k)[i := KRegion_EMPTY]\<rparr>)))"

definition run_step :: "'m Arch \<Rightarrow> Step \<Rightarrow> 'm Kernel \<Rightarrow> ('m, unit) kres" where
  "run_step A st k = (case st of
     Unmap p s r \<Rightarrow> kreturn () (unmap_share_slot A p s k)
   | ForgetCaps region \<Rightarrow> kreturn () (forget_caps region k)
   | Release region \<Rightarrow> release_region A region k)"

definition run_region_plan :: "'m Arch \<Rightarrow> Plan \<Rightarrow> 'm Kernel \<Rightarrow> ('m, unit) kres" where
  "run_region_plan A plan k =
     (if p_truncated plan then (Inl (Exited False), k) else kfor (Plan_steps plan) (run_step A) k)"

definition destroy_region :: "'m Arch \<Rightarrow> usize \<Rightarrow> 'm Kernel \<Rightarrow> ('m, unit) kres" where
  "destroy_region A idx k =
     (let i = kr_id (k_regions k ! idx); (rs, hs) = region_view k
      in run_region_plan A (destroy PLAN_STEPS rs hs i) k)"

definition destroy_regions_owned_by :: "'m Arch \<Rightarrow> usize \<Rightarrow> u64 \<Rightarrow> 'm Kernel \<Rightarrow> ('m, unit) kres" where
  "destroy_regions_owned_by A p owner k =
     (let (rs, hs) = region_view k in run_region_plan A (teardown PLAN_STEPS rs hs p owner) k)"

section \<open>MAKE_REGION\<close>

text \<open>The caller has checked \<open>pages\<close> against the size of the frame array.\<close>

fun take_dma_frames :: "'m Arch \<Rightarrow> nat \<Rightarrow> u64 list \<Rightarrow> BitmapAllocator \<times> 'm \<Rightarrow> u64 list option \<times> BitmapAllocator \<times> 'm" where
  "take_dma_frames A 0 got (fa, m) = (Some got, fa, m)"
| "take_dma_frames A (Suc n) got (fa, m) =
     (case alloc_dma_frame fa of
        (None, fa) \<Rightarrow> (None, fold free_frame got fa, m)
      | (Some f, fa) \<Rightarrow> take_dma_frames A n (got @ [f]) (fa, a_zero_frame A f m))"

definition make_region :: "'m Arch \<Rightarrow> usize \<Rightarrow> u64 \<Rightarrow> CapRights \<Rightarrow> 'm Kernel \<Rightarrow> ('m, u64) kres" where
  "make_region A owner pages rts k =
     (let owner_id = pr_id (proc_at k owner);
          owned = count_by (\<lambda>r. kr_live r \<and> kr_owner r = owner_id) (k_regions k)
      in if owned \<ge> REGION_QUOTA then kreturn err_NO_MEM k
         else case position (\<lambda>r. \<not> kr_live r) (k_regions k) of
           None \<Rightarrow> kreturn err_NO_MEM k
         | Some idx \<Rightarrow>
            (case checked_add (k_next_region k) 1 of
               None \<Rightarrow> kreturn err_NO_MEM k
             | Some nxt \<Rightarrow>
                (case k_fa k of
                   None \<Rightarrow> kreturn err_NO_MEM k
                 | Some fa \<Rightarrow>
                    (case take_dma_frames A (unat pages) [] (fa, k_mach k) of
                       (None, fa, m) \<Rightarrow> kreturn err_NO_MEM (k\<lparr>k_fa := Some fa, k_mach := m\<rparr>)
                     | (Some got, fa, m) \<Rightarrow>
                        let i = k_next_region k; k = k\<lparr>k_fa := Some fa, k_mach := m\<rparr>
                        in case CapSpace_insert CapRegion rts i (pr_caps (proc_at k owner)) of
                             None \<Rightarrow> kreturn err_NO_MEM (free_frames_to got k)
                           | Some (cap, cs) \<Rightarrow>
                              let k = (upd_caps owner (\<lambda>_. cs) k)\<lparr>k_next_region := nxt\<rparr>
                              in if list_ex (\<lambda>f. list_ex (\<lambda>di. Domain_granted (domain_at k di) (drop_bit PAGE_SHIFT f) \<noteq> None)
                                      [0..<MAX_DOMAINS]) got
                                 then (Inl Panicked, k)
                                 else kreturn (of_nat cap) (k\<lparr>k_regions := (k_regions k)[idx :=
                                   \<lparr>kr_live = True, kr_id = i, kr_owner = owner_id,
                                    kr_frames = got @ replicate (REGION_MAX_PAGES - length got) 0, kr_npages = unat pages\<rparr>]\<rparr>)))))"

section \<open>MAP_REGION\<close>

text \<open>Page-table frames are taken through the recorder and charged to the process.\<close>

definition recording :: "BitmapAllocator \<Rightarrow> Process \<Rightarrow> Recording" where
  "recording fa p = \<lparr>rec_inner = fa, rec_frames = pr_frames p, rec_n = pr_nframes p\<rparr>"

definition put_recording :: "usize \<Rightarrow> Recording \<times> 'm \<Rightarrow> 'm Kernel \<Rightarrow> 'm Kernel" where
  "put_recording p s k = (case s of (rc, m) \<Rightarrow>
     (upd_proc p (\<lambda>pr. pr\<lparr>pr_frames := rec_frames rc, pr_nframes := rec_n rc\<rparr>) k)\<lparr>k_fa := Some (rec_inner rc), k_mach := m\<rparr>)"

fun map_region_pages :: "'m Arch \<Rightarrow> u64 \<Rightarrow> u64 \<Rightarrow> Perms \<Rightarrow> nat \<Rightarrow> u64 list \<Rightarrow> Recording \<times> 'm \<Rightarrow> bool \<times> Recording \<times> 'm" where
  "map_region_pages A token base perms i [] s = (True, s)"
| "map_region_pages A token base perms i (f # fs) s =
     (case a_map_page A token (base + of_nat i * PAGE_SIZE) f perms s of
        (True, s) \<Rightarrow> map_region_pages A token base perms (Suc i) fs s
      | (False, rc, m) \<Rightarrow> (False, rc, unmap_window A token base i m))"

definition share_slot_for :: "u64 \<Rightarrow> Process \<Rightarrow> nat option" where
  "share_slot_for i p = (case position (\<lambda>s. s = i) (pr_shares p) of
     Some existing \<Rightarrow> Some existing
   | None \<Rightarrow> position (\<lambda>s. s = 0) (pr_shares p))"

definition region_perms :: "CapRights \<Rightarrow> Perms" where
  "region_perms rts = (if CapRights_contains rts RIGHTS_WRITE then USER_RW else USER_RO)"

definition map_region :: "'m Arch \<Rightarrow> usize \<Rightarrow> u64 \<Rightarrow> CapRights \<Rightarrow> 'm Kernel \<Rightarrow> u64 \<times> 'm Kernel" where
  "map_region A p i rts k =
     (case region_slot k i of
        None \<Rightarrow> (err_NO_CAP, k)
      | Some idx \<Rightarrow>
         (case share_slot_for i (proc_at k p) of
            None \<Rightarrow> (err_NO_MEM, k)
          | Some slot \<Rightarrow>
             let r = k_regions k ! idx; base = share_va A slot; token = pr_token (proc_at k p);
                 k = upd_mach (unmap_window A token base REGION_MAX_PAGES) k
             in case k_fa k of
                  None \<Rightarrow> (err_NO_MEM, k)
                | Some fa \<Rightarrow>
                   let (ok, s) = map_region_pages A token base (region_perms rts) 0 (take (kr_npages r) (kr_frames r))
                                   (recording fa (proc_at k p), k_mach k);
                       k = put_recording p s k;
                       k = (if ok then set_share p slot i k else k);
                       k = (if p = k_current k then upd_mach (a_activate A token) k else k)
                   in (if ok then base else err_NO_MEM, k)))"

end
