(* ===== verification/Kproc.thy ===== *)
theory Kproc
  imports Kregions
begin

text \<open>
  Processes in the kernel (src/crates/kernel/src/lib.rs): interrupt credits, revocation with all its
  effects, loading and tearing down, the environment the host contract runs in, resuming, and what
  happens when nothing is runnable. A function that does not return ends in a \<open>Stop\<close>.
\<close>

section \<open>Waking\<close>

definition set_state :: "usize \<Rightarrow> ProcState \<Rightarrow> 'm Kernel \<Rightarrow> 'm Kernel" where
  "set_state p st = upd_proc p (\<lambda>pr. pr\<lparr>pr_state := st\<rparr>)"

definition upd_frame :: "usize \<Rightarrow> (UserFrame \<Rightarrow> UserFrame) \<Rightarrow> 'm Kernel \<Rightarrow> 'm Kernel" where
  "upd_frame p f = upd_proc p (\<lambda>pr. pr\<lparr>pr_frame := f (pr_frame pr)\<rparr>)"

definition is_recv :: "ProcState \<Rightarrow> bool" where
  "is_recv st \<longleftrightarrow> (case st of BlockedRecv _ _ _ \<Rightarrow> True | _ \<Rightarrow> False)"

text \<open>Three result registers for a receiver, one for anyone else.\<close>

definition fail_frame :: "'m Arch \<Rightarrow> bool \<Rightarrow> UserFrame \<Rightarrow> UserFrame" where
  "fail_frame A recv f =
     (let f = a_set_ret A err_NO_CAP f in if recv then a_set_ret3 A 0 (a_set_ret2 A 0 f) else f)"

definition wake_refused :: "'m Arch \<Rightarrow> usize \<Rightarrow> 'm Kernel \<Rightarrow> 'm Kernel" where
  "wake_refused A p k =
     (let recv = is_recv (pr_state (proc_at k p))
      in sched_add p (upd_proc p (\<lambda>pr. pr\<lparr>pr_frame := fail_frame A recv (pr_frame pr), pr_state := PReady, pr_pending_len := 0\<rparr>) k))"

section \<open>Interrupts\<close>

definition credit_one :: "'m Arch \<Rightarrow> u64 \<Rightarrow> usize \<Rightarrow> 'm Kernel \<Rightarrow> 'm Kernel" where
  "credit_one A irq i k =
     (let p = proc_at k i; line = unat irq
      in if pr_state p = PFree \<or> \<not> caps_hold_irq (pr_caps p) irq then k
         else let n = saturating_add (pr_irq p ! line) 1
              in if pr_state p = BlockedIrq irq
                 then sched_add i (upd_proc i (\<lambda>p. p\<lparr>pr_irq := (pr_irq p)[line := 0],
                        pr_frame := a_set_ret A n (pr_frame p), pr_state := PReady\<rparr>) k)
                 else upd_proc i (\<lambda>p. p\<lparr>pr_irq := (pr_irq p)[line := n]\<rparr>) k)"

definition credit_irq :: "'m Arch \<Rightarrow> u64 \<Rightarrow> 'm Kernel \<Rightarrow> 'm Kernel" where
  "credit_irq A irq k =
     (if unat irq \<ge> MAX_IRQ_LINES then k else fold (credit_one A irq) [0..<MAX_PROCS] k)"

definition unmap_device_window :: "'m Arch \<Rightarrow> usize \<Rightarrow> 'm Kernel \<Rightarrow> 'm Kernel" where
  "unmap_device_window A p k =
     (let token = pr_token (proc_at k p);
          k = upd_mach (unmap_window A token (a_user_mmio_base A) DEVICE_PAGES) k
      in if p = k_current k then upd_mach (a_activate A token) k else k)"

section \<open>Revocation\<close>

text \<open>The mappings a lost capability authorised go with it.\<close>

definition strip_share :: "'m Arch \<Rightarrow> usize \<Rightarrow> nat \<Rightarrow> 'm Kernel \<Rightarrow> 'm Kernel" where
  "strip_share A p slot k =
     (let i = pr_shares (proc_at k p) ! slot
      in if i \<noteq> 0 \<and> \<not> holds_region k p i RIGHTS_READ then snd (unmap_region_from A p i k) else k)"

definition strip_dma_slot :: "usize \<Rightarrow> nat \<Rightarrow> bool \<times> 'm Kernel \<Rightarrow> bool \<times> 'm Kernel" where
  "strip_dma_slot p slot = (\<lambda>(any, k).
     let (region, domain) = pr_dma (proc_at k p) ! slot
     in if region = 0 \<or> holds_region k p region RIGHTS_READ \<and> holds_domain k p domain RIGHTS_WRITE then (any, k)
        else let (hit, k) = withdraw_dma_slot p slot k in (any \<or> hit, k))"

definition strip_dma :: "'m Arch \<Rightarrow> usize \<Rightarrow> 'm Kernel \<Rightarrow> ('m, unit) kres" where
  "strip_dma A p k = (let (any, k) = fold (strip_dma_slot p) [0..<SHARE_SLOTS] (False, k) in flush_if A any k)"

definition strip_irq :: "usize \<Rightarrow> nat \<Rightarrow> 'm Kernel \<Rightarrow> 'm Kernel" where
  "strip_irq p line k =
     (if holds_irq k p (of_nat line) then k else upd_proc p (\<lambda>pr. pr\<lparr>pr_irq := (pr_irq pr)[line := 0]\<rparr>) k)"

definition stranded :: "'m Kernel \<Rightarrow> usize \<Rightarrow> bool" where
  "stranded k p \<longleftrightarrow> (case pr_state (proc_at k p) of
     BlockedSend e _ _ \<Rightarrow> \<not> holds_endpoint k p e RIGHTS_WRITE
   | BlockedRecv e _ _ \<Rightarrow> \<not> holds_endpoint k p e RIGHTS_READ
   | BlockedIrq line \<Rightarrow> \<not> creditable k p line
   | _ \<Rightarrow> False)"

definition strip_holder :: "'m Arch \<Rightarrow> DEndpoint \<Rightarrow> 'm Kernel \<Rightarrow> ('m, unit) kres" where
  "strip_holder A d k =
     (let p = ep_proc d
      in if pr_state (proc_at k p) = PFree \<or> pr_id (proc_at k p) \<noteq> ep_id d then kreturn () k
         else let k = upd_caps p (CapSpace_revoke (ep_cap d)) k;
                  k = (if holds_mmio k p then k else unmap_device_window A p k);
                  k = fold (strip_share A p) [0..<SHARE_SLOTS] k
              in kbind (strip_dma A p k) (\<lambda>_ k.
                   let k = fold (strip_irq p) [0..<MAX_IRQ_LINES] k
                   in kreturn () (if stranded k p then wake_refused A p k else k)))"

definition revoke_delegations :: "'m Arch \<Rightarrow> usize \<Rightarrow> CapId \<Rightarrow> 'm Kernel \<Rightarrow> ('m, unit) kres" where
  "revoke_delegations A p cap k =
     (let (reached, l) = Ledger_revoke_from (endpoint_at k p cap) MAX_DELEGATIONS (k_ledger k)
      in kfor reached (strip_holder A) (k\<lparr>k_ledger := l\<rparr>))"

section \<open>Teardown\<close>

definition reclaim_frames :: "usize \<Rightarrow> 'm Kernel \<Rightarrow> 'm Kernel" where
  "reclaim_frames p k = (case k_fa k of
     None \<Rightarrow> k
   | Some fa \<Rightarrow> (upd_proc p (\<lambda>pr. pr\<lparr>pr_nframes := 0\<rparr>) k)
        \<lparr>k_fa := Some (fold free_frame (take (pr_nframes (proc_at k p)) (pr_frames (proc_at k p))) fa)\<rparr>)"

definition peer_need :: "ProcState \<Rightarrow> (u64 \<times> CapRights) option" where
  "peer_need st = (case st of
     BlockedSend e _ _ \<Rightarrow> Some (e, RIGHTS_READ)
   | BlockedRecv e _ _ \<Rightarrow> Some (e, RIGHTS_WRITE)
   | _ \<Rightarrow> None)"

definition answerable :: "'m Kernel \<Rightarrow> usize \<Rightarrow> u64 \<Rightarrow> CapRights \<Rightarrow> bool" where
  "answerable k i e needed \<longleftrightarrow>
     list_ex (\<lambda>j. j \<noteq> i \<and> pr_state (proc_at k j) \<noteq> PFree \<and> holds_endpoint k j e needed) [0..<MAX_PROCS]"

definition wake_stranded_peer :: "'m Arch \<Rightarrow> usize \<Rightarrow> 'm Kernel \<Rightarrow> 'm Kernel" where
  "wake_stranded_peer A i k = (case peer_need (pr_state (proc_at k i)) of
     None \<Rightarrow> k
   | Some (e, needed) \<Rightarrow> if answerable k i e needed then k else wake_refused A i k)"

definition teardown_process :: "'m Arch \<Rightarrow> usize \<Rightarrow> 'm Kernel \<Rightarrow> ('m, unit) kres" where
  "teardown_process A idx k =
     (let dying_id = pr_id (proc_at k idx)
      in kbind (withdraw_all_dma_of A idx k) (\<lambda>_ k.
         kbind (destroy_regions_owned_by A idx dying_id k) (\<lambda>_ k.
           let k = reclaim_frames idx k;
               k = upd_ledger (Ledger_splice_out idx (pr_id (proc_at k idx))) k;
               k = sched_remove idx (set_state idx PFree k)
           in kreturn () (fold (wake_stranded_peer A) [0..<MAX_PROCS] k))))"

section \<open>Loading\<close>

definition grant_object :: "'m Kernel \<Rightarrow> CapType \<times> CapRights \<times> u64 \<Rightarrow> CapType \<times> CapRights \<times> u64" where
  "grant_object k = (\<lambda>(t, r, ob).
     if t = Mmio
     then let resolved = (if ob = MMIO_DEVICE_BAR
                          then (if ds_id (k_slots k ! 0) \<noteq> 0 then k_device_bar k else 0)
                          else k_device_phys k)
          in if resolved = 0 then NO_AUTHORITY else (t, r, resolved)
     else (t, r, ob))"

text \<open>The tripwire looks at the object after resolution and before the placeholder replaces it.\<close>

definition mint_extent :: "'m Kernel \<Rightarrow> CapType \<times> CapRights \<times> u64 \<Rightarrow> bool" where
  "mint_extent k = (\<lambda>(t, r, ob). is_mint_source t \<and> ob \<noteq> 0)"

definition grant_caps :: "(CapType \<times> CapRights \<times> u64) list \<Rightarrow> CapSpace \<Rightarrow> CapSpace" where
  "grant_caps = fold (\<lambda>(t, r, ob) cs. case CapSpace_insert t r ob cs of None \<Rightarrow> cs | Some (c, cs') \<Rightarrow> cs')"

fun map_stack :: "'m Arch \<Rightarrow> u64 \<Rightarrow> nat list \<Rightarrow> Recording \<times> 'm \<Rightarrow> bool \<times> Recording \<times> 'm" where
  "map_stack A token [] s = (True, s)"
| "map_stack A token (p # ps) s =
     (case RecordingAlloc_alloc A s of
        (None, s) \<Rightarrow> (False, s)
      | (Some frame, s) \<Rightarrow>
          (case a_map_page A token (a_user_stack_top A - of_nat p * PAGE_SIZE) frame USER_RW s of
             (True, s) \<Rightarrow> map_stack A token ps s
           | (False, s) \<Rightarrow> (False, s)))"

definition build_space :: "'m Arch \<Rightarrow> u64 \<Rightarrow> u8 list \<Rightarrow> Recording \<times> 'm \<Rightarrow> (u64 \<times> u64) option \<times> Recording \<times> 'm" where
  "build_space A ktoken elf s =
     (case a_create A s of
        (None, s) \<Rightarrow> (None, s)
      | (Some token, rc, m) \<Rightarrow>
          (case a_load_user A elf token (rc, a_share_kernel A token ktoken m) of
             (None, s) \<Rightarrow> (None, s)
           | (Some entry, s) \<Rightarrow>
               (case map_stack A token [1..<a_user_stack_pages A + 1] s of
                  (True, s) \<Rightarrow> (Some (token, entry), s)
                | (False, s) \<Rightarrow> (None, s))))"

definition undeliverable :: "CapType \<times> CapRights \<times> u64 \<Rightarrow> bool" where
  "undeliverable = (\<lambda>(t, r, ob). t = Irq \<and> \<not> delivers_irq ob)"

definition load_process :: "'m Arch \<Rightarrow> usize \<Rightarrow> u64 \<Rightarrow> Role \<Rightarrow> BitmapAllocator \<Rightarrow> u64 \<Rightarrow> u8 list \<Rightarrow> 'm Kernel \<Rightarrow> ('m, bool) kres" where
  "load_process A slot id_arg role fa ktoken elf k =
     (if list_ex undeliverable (grants_for role) then kreturn False k
      else case build_space A ktoken elf (\<lparr>rec_inner = fa, rec_frames = replicate MAX_PROC_FRAMES 0, rec_n = 0\<rparr>, k_mach k) of
        (Some (token, entry), rc, m) \<Rightarrow>
          let k = k\<lparr>k_fa := Some (rec_inner rc), k_mach := m\<rparr>
          in if list_ex (mint_extent k) (grants_for role) then (Inl Panicked, k)
             else kreturn True (upd_proc slot (\<lambda>p. p\<lparr>pr_caps := grant_caps (map (grant_object k) (grants_for role)) (CapSpace_new CAP_SLOTS),
                 pr_role := role, pr_id := id_arg, pr_msg_len := 0, pr_irq := replicate MAX_IRQ_LINES 0,
                 pr_shares := replicate SHARE_SLOTS 0, pr_dma := replicate SHARE_SLOTS (0, 0), pr_pending_len := 0,
                 pr_token := token, pr_frame := a_frame_init A entry (a_user_stack_top A) id_arg,
                 pr_frames := rec_frames rc, pr_nframes := rec_n rc, pr_state := PReady\<rparr>) k)
      | (None, rc, m) \<Rightarrow>
          kreturn False (k\<lparr>k_fa := Some (fold free_frame (take (rec_n rc) (rec_frames rc)) (rec_inner rc)), k_mach := m\<rparr>))"

section \<open>The host environment of a process\<close>

definition GPU_INFO :: GpuInfo where
  "GPU_INFO = \<lparr>pci_vendor = 0x1002, pci_device = 0x7551, gfx_version = 0x1201, vram_bytes = push_bit 30 16\<rparr>"

fun map_window_pages :: "'m Arch \<Rightarrow> u64 \<Rightarrow> u64 \<Rightarrow> u64 \<Rightarrow> Perms \<Rightarrow> nat list \<Rightarrow> Recording \<times> 'm \<Rightarrow> bool \<times> Recording \<times> 'm" where
  "map_window_pages A token base phys perms [] s = (True, s)"
| "map_window_pages A token base phys perms (i # is) s =
     (case a_map_page A token (base + of_nat i * PAGE_SIZE) (phys + of_nat i * PAGE_SIZE) perms s of
        (True, s) \<Rightarrow> map_window_pages A token base phys perms is s
      | (False, s) \<Rightarrow> (False, s))"

definition kenv_map_device :: "'m Arch \<Rightarrow> usize \<Rightarrow> u64 \<Rightarrow> u64 \<Rightarrow> bool \<Rightarrow> 'm Kernel \<Rightarrow> u64 option \<times> 'm Kernel" where
  "kenv_map_device A who phys pages writable k =
     (let window = k_device_phys k; bar = k_device_bar k;
          is_device = (bar \<noteq> 0 \<and> phys = bar);
          ok = ((window \<noteq> 0 \<and> phys = window) \<or> is_device)
      in if \<not> ok \<or> unat pages > DEVICE_PAGES then (None, k)
         else case k_fa k of
                None \<Rightarrow> (None, k)
              | Some fa \<Rightarrow>
                  let token = pr_token (proc_at k who); base = a_user_mmio_base A;
                      perms = (if writable then USER_RW else USER_RO)\<lparr>pm_device := is_device\<rparr>;
                      m = unmap_window A token base DEVICE_PAGES (k_mach k);
                      (mapped, s) = map_window_pages A token base phys perms [0..<unat pages] (recording fa (proc_at k who), m);
                      k = put_recording who s k
                  in if mapped then (Some base, upd_mach (a_activate A token) k) else (None, k))"

definition kenv :: "'m Arch \<Rightarrow> usize \<Rightarrow> 'm Kernel HostEnv" where
  "kenv A who = \<lparr>
     env_debug_write = (\<lambda>bytes. upd_mach (a_console_write A bytes)),
     env_gpu_info = (\<lambda>_. GPU_INFO),
     env_cap_lookup = (\<lambda>cap k. map_option (\<lambda>s. (cap_type s, rights s, object s)) (CapSpace_lookup (pr_caps (proc_at k who)) cap)),
     env_map_device = kenv_map_device A who,
     env_unmap_device = unmap_device_window A who,
     env_write_user_bytes = (\<lambda>uptr bytes k. case a_copy_to_user A uptr bytes (k_mach k) of (ok, m) \<Rightarrow> (ok, k\<lparr>k_mach := m\<rparr>)),
     env_read_user_bytes = (\<lambda>uptr n k. a_copy_from_user A uptr n (k_mach k))\<rparr>"

section \<open>Resuming and running dry\<close>

definition resume_process :: "'m Arch \<Rightarrow> usize \<Rightarrow> 'm Kernel \<Rightarrow> Stop \<times> 'm Kernel" where
  "resume_process A nxt k =
     (let p = proc_at k nxt; token = pr_token p
      in if pr_pending_len p > 0
         then let k = upd_proc nxt (\<lambda>p. p\<lparr>pr_pending_len := 0\<rparr>) k;
                  k = upd_mach (a_activate A token) k;
                  (ok, m) = a_copy_to_user A (pr_pending_dst p) (take (pr_pending_len p) (pr_msg p)) (k_mach k);
                  k = k\<lparr>k_mach := m\<rparr>
              in (Resumed nxt, if ok then k else upd_frame nxt (\<lambda>f. a_set_ret3 A 0 (a_set_ret A err_FAULT f)) k)
         else (Resumed nxt, k))"

definition wake_uncreditable :: "'m Arch \<Rightarrow> usize \<Rightarrow> 'm Kernel \<Rightarrow> 'm Kernel" where
  "wake_uncreditable A i k =
     sched_add i (upd_proc i (\<lambda>p. p\<lparr>pr_frame := a_set_ret A err_NO_CAP (pr_frame p), pr_state := PReady\<rparr>) k)"

text \<open>The checks of a clean finish: the tables, the grants, the frames, the acknowledgements.\<close>

definition stale_leaf :: "'m Kernel \<Rightarrow> usize \<Rightarrow> bool" where
  "stale_leaf k di \<longleftrightarrow> (let l1 = ds_l1 (k_slots k ! di) in l1 \<noteq> 0 \<and>
     list_ex (\<lambda>slot. let pte = read_io k l1 slot in pte AND IOPTE_PR \<noteq> 0 \<and>
        Domain_granted (domain_at k di) (drop_bit PAGE_SHIFT (pte AND IOPTE_ADDR)) = None) [0..<512])"

definition live_frame :: "'m Kernel \<Rightarrow> u64 \<Rightarrow> bool" where
  "live_frame k pfn \<longleftrightarrow> list_ex (\<lambda>r. kr_live r \<and> list_ex (\<lambda>j. frame_pfn r j = pfn) [0..<kr_npages r]) (k_regions k)"

definition domain_clean :: "'m Kernel \<Rightarrow> usize \<Rightarrow> bool" where
  "domain_clean k di \<longleftrightarrow> ds_id (k_slots k ! di) = 0 \<or>
     (let dom = domain_at k di
      in list_all (\<lambda>(pfn, _). live_frame k pfn) (Domain_grants dom) \<and> Domain_contained dom
         \<and> list_all (\<lambda>(pfn, _). list_ex (\<lambda>(_, f, _). f = pfn) (Domain_reachable dom)) (Domain_grants dom))"

definition finish :: "'m Kernel \<Rightarrow> bool" where
  "finish k \<longleftrightarrow> \<not> list_ex (stale_leaf k) [0..<MAX_DOMAINS] \<and> list_all (domain_clean k) [0..<MAX_DOMAINS]
     \<and> (case k_fa k of None \<Rightarrow> True | Some fa \<Rightarrow> k_free_at_start k = 0 \<or> ba_free fa = k_free_at_start k)
     \<and> k_timeouts k = 0"

definition nothing_runnable :: "'m Arch \<Rightarrow> 'm Kernel \<Rightarrow> Stop \<times> 'm Kernel" where
  "nothing_runnable A k =
     (let k = fold (wake_uncreditable A) (uncreditable (run_slots k) (creditable k)) k
      in case Scheduler_current (k_sched k) of
           Some t \<Rightarrow> resume_process A t (k\<lparr>k_current := t\<rparr>)
         | None \<Rightarrow>
             (case classify (run_slots k) (creditable k) of
                Park \<Rightarrow> (Parked, k\<lparr>k_parks := (if k_idling k then k_parks k else k_parks k + 1), k_idling := True,
                                  k_current := 2 ^ 64 - 1\<rparr>)
              | Deadlock \<Rightarrow> (Exited False, k)
              | AllDone \<Rightarrow> (Exited (finish k), k)))"

text \<open>Run the current head of the queue, or settle what an empty queue means.\<close>

definition run_current :: "'m Arch \<Rightarrow> 'm Kernel \<Rightarrow> Stop \<times> 'm Kernel" where
  "run_current A k = (case Scheduler_current (k_sched k) of
     Some t \<Rightarrow> resume_process A t (k\<lparr>k_current := t\<rparr>)
   | None \<Rightarrow> nothing_runnable A k)"

end
