(* ===== verification/Ktrap.thy ===== *)
theory Ktrap
  imports Kproc
begin

text \<open>
  The entry points of the kernel (src/crates/kernel/src/lib.rs): one definition per system call, the
  trap handler that dispatches to them, and the timer, device and fault handlers. A call either goes
  on to the common tail with a result frame, or stops where the code does not return.
\<close>

section \<open>Frames\<close>

definition snapshot :: "'m Arch \<Rightarrow> u64 list \<Rightarrow> UserFrame \<Rightarrow> UserFrame" where
  "snapshot A words f = take (a_frame_words A) words @ drop (a_frame_words A) f"

definition set_rets :: "'m Arch \<Rightarrow> u64 \<Rightarrow> u64 \<Rightarrow> u64 \<Rightarrow> UserFrame \<Rightarrow> UserFrame" where
  "set_rets A r1 r2 r3 f = a_set_ret3 A r3 (a_set_ret2 A r2 (a_set_ret A r1 f))"

type_synonym 'm arm = "(Stop + UserFrame) \<times> 'm Kernel"

definition arm_ret :: "'m Arch \<Rightarrow> u64 \<Rightarrow> UserFrame \<Rightarrow> 'm Kernel \<Rightarrow> 'm arm" where
  "arm_ret A v f k = (Inr (a_set_ret A v f), k)"

text \<open>Block the caller: the state is recorded, the frame persisted, and somebody else runs.\<close>

definition block_on :: "usize \<Rightarrow> ProcState \<Rightarrow> UserFrame \<Rightarrow> 'm Kernel \<Rightarrow> 'm Kernel" where
  "block_on cur st f k = upd_frame cur (\<lambda>_. f) (sched_remove cur (set_state cur st k))"

definition switch_or_stop :: "'m Arch \<Rightarrow> UserFrame \<Rightarrow> 'm Kernel \<Rightarrow> 'm arm" where
  "switch_or_stop A f k = (case Scheduler_current (k_sched k) of
     Some t \<Rightarrow> (Inr f, k\<lparr>k_current := t\<rparr>)
   | None \<Rightarrow> (case nothing_runnable A k of (s, k) \<Rightarrow> (Inl s, k)))"

section \<open>Scheduling and exit\<close>

definition sched_next :: "usize \<Rightarrow> 'm Kernel \<Rightarrow> 'm Kernel" where
  "sched_next cur k = (case Scheduler_next (k_sched k) of
     (t, s) \<Rightarrow> k\<lparr>k_sched := s, k_current := (case t of None \<Rightarrow> cur | Some t \<Rightarrow> t)\<rparr>)"

definition arm_yield :: "usize \<Rightarrow> UserFrame \<Rightarrow> 'm Kernel \<Rightarrow> 'm arm" where
  "arm_yield cur f k = (Inr f, sched_next cur k)"

definition arm_exit :: "'m Arch \<Rightarrow> usize \<Rightarrow> UserFrame \<Rightarrow> 'm Kernel \<Rightarrow> 'm arm" where
  "arm_exit A cur f k = kbind (teardown_process A cur k) (\<lambda>_. switch_or_stop A f)"

section \<open>SEND and RECV\<close>

definition put_msg :: "usize \<Rightarrow> u8 list \<Rightarrow> 'm Kernel \<Rightarrow> 'm Kernel" where
  "put_msg p bytes = upd_proc p (\<lambda>pr. pr\<lparr>pr_msg := bytes @ drop (length bytes) (pr_msg pr)\<rparr>)"

text \<open>A copy of no bytes always succeeds; a failed one leaves the buffer unobserved.\<close>

definition copy_in :: "'m Arch \<Rightarrow> u64 \<Rightarrow> usize \<Rightarrow> 'm Kernel \<Rightarrow> u8 list option" where
  "copy_in A uptr n k = (if n = 0 then Some [] else a_copy_from_user A uptr n (k_mach k))"

definition deliver :: "'m Arch \<Rightarrow> usize \<Rightarrow> u64 \<Rightarrow> u64 \<Rightarrow> nat \<Rightarrow> u8 list \<Rightarrow> 'm Kernel \<Rightarrow> 'm Kernel" where
  "deliver A r dst word n bytes k =
     sched_add r (upd_proc r (\<lambda>p. p\<lparr>pr_pending_dst := dst, pr_pending_len := n,
        pr_frame := set_rets A err_OK word (of_nat n) (pr_frame p), pr_state := PReady\<rparr>) (put_msg r bytes k))"

definition recv_offer :: "ProcState \<Rightarrow> u64 \<times> usize" where
  "recv_offer st = (case st of BlockedRecv e d mx \<Rightarrow> (d, mx) | _ \<Rightarrow> (0, 0))"

definition arm_send :: "'m Arch \<Rightarrow> usize \<Rightarrow> UserFrame \<Rightarrow> 'm Kernel \<Rightarrow> 'm arm" where
  "arm_send A cur f k =
     (let word = a_frame_arg A f 1; uptr = a_frame_arg A f 2; len = unat (a_frame_arg A f 3)
      in case endpoint_of k cur (a_frame_arg A f 0) RIGHTS_WRITE of
           None \<Rightarrow> arm_ret A err_NO_CAP f k
         | Some e \<Rightarrow>
            if len > MAX_MSG_BYTES then arm_ret A err_FAULT f k
            else case find_blocked_recv k e of
              Some r \<Rightarrow>
                let (dst, mx) = recv_offer (pr_state (proc_at k r)); n = min len mx
                in (case copy_in A uptr n k of
                      None \<Rightarrow> arm_ret A err_FAULT f k
                    | Some bytes \<Rightarrow> arm_ret A err_OK f (deliver A r dst word n bytes k))
            | None \<Rightarrow>
               (case copy_in A uptr len k of
                  None \<Rightarrow> arm_ret A err_FAULT f k
                | Some bytes \<Rightarrow>
                    switch_or_stop A f (block_on cur (BlockedSend e word len) f
                      (upd_proc cur (\<lambda>p. p\<lparr>pr_msg_len := len\<rparr>) (put_msg cur bytes k)))))"

definition copy_out :: "'m Arch \<Rightarrow> u64 \<Rightarrow> u8 list \<Rightarrow> 'm Kernel \<Rightarrow> bool \<times> 'm Kernel" where
  "copy_out A dst bytes k =
     (if bytes = [] then (True, k) else case a_copy_to_user A dst bytes (k_mach k) of (ok, m) \<Rightarrow> (ok, k\<lparr>k_mach := m\<rparr>))"

definition take_from :: "'m Arch \<Rightarrow> usize \<Rightarrow> 'm Kernel \<Rightarrow> 'm Kernel" where
  "take_from A s k = sched_add s (upd_proc s (\<lambda>p. p\<lparr>pr_frame := a_set_ret A err_OK (pr_frame p), pr_msg_len := 0, pr_state := PReady\<rparr>) k)"

definition arm_recv :: "'m Arch \<Rightarrow> usize \<Rightarrow> UserFrame \<Rightarrow> 'm Kernel \<Rightarrow> 'm arm" where
  "arm_recv A cur f k =
     (let dst = a_frame_arg A f 1; mx = min (unat (a_frame_arg A f 2)) MAX_MSG_BYTES
      in if mx > 0 \<and> \<not> a_user_write_ok A dst mx (k_mach k)
         then (case resume_process A cur (upd_frame cur (\<lambda>_. set_rets A err_FAULT 0 0 f) k) of (s, k) \<Rightarrow> (Inl s, k))
         else case endpoint_of k cur (a_frame_arg A f 0) RIGHTS_READ of
           None \<Rightarrow> (Inr (set_rets A err_NO_CAP 0 0 f), k)
         | Some e \<Rightarrow>
            (case find_blocked_send k e of
               Some (s, word, len) \<Rightarrow>
                 let n = min len mx; (ok, k') = copy_out A dst (take n (pr_msg (proc_at k s))) k
                 in if ok then (Inr (set_rets A err_OK word (of_nat n) f), take_from A s k')
                    else (Inr (set_rets A err_FAULT 0 0 f), k')
             | None \<Rightarrow> switch_or_stop A f (block_on cur (BlockedRecv e dst mx) f k)))"

section \<open>SPAWN\<close>

definition mint_authority :: "CapSpace \<Rightarrow> CapId \<Rightarrow> bool" where
  "mint_authority cs cap \<longleftrightarrow> (case CapSpace_lookup cs cap of None \<Rightarrow> False
     | Some s \<Rightarrow> is_mint_source (cap_type s) \<and> CapRights_contains (rights s) RIGHTS_WRITE)"

definition delegation :: "CapSpace \<Rightarrow> u64 \<Rightarrow> u64 \<Rightarrow> (CapType \<times> CapRights \<times> u64) option" where
  "delegation cs arg requested =
     (if arg = NO_DELEGATE then None
      else map_option (\<lambda>s. (cap_type s, CapRights_intersect (rights s) (CapRights_from_user requested), object s))
             (CapSpace_lookup cs (unat arg)))"

definition spawn_slot :: "'m Kernel \<Rightarrow> bool \<Rightarrow> bool \<Rightarrow> u64 + usize" where
  "spawn_slot k authorized deleg_ok =
     (if \<not> authorized then Inl spawn_NO_CAP
      else if \<not> deleg_ok then Inl spawn_NO_DELEGATE
      else case position (\<lambda>p. pr_state p = PFree) (k_procs k) of
             Some slot \<Rightarrow> Inr slot
           | None \<Rightarrow> Inl spawn_NO_SLOT)"

definition hand_over :: "usize \<Rightarrow> CapId \<Rightarrow> usize \<Rightarrow> u64 \<Rightarrow> (CapType \<times> CapRights \<times> u64) option \<Rightarrow> 'm Kernel \<Rightarrow> 'm Kernel" where
  "hand_over cur cap slot child_id delegated k =
     (case delegated of
        None \<Rightarrow> k
      | Some (t, r, ob) \<Rightarrow>
          (case CapSpace_insert t r ob (pr_caps (proc_at k slot)) of
             None \<Rightarrow> k
           | Some (child_cap, cs) \<Rightarrow>
               upd_ledger (\<lambda>l. snd (Ledger_record (endpoint_at k cur cap) (DEndpoint_new slot child_id child_cap) l))
                 (upd_caps slot (\<lambda>_. cs) k)))"

definition arm_spawn :: "'m Arch \<Rightarrow> usize \<Rightarrow> UserFrame \<Rightarrow> 'm Kernel \<Rightarrow> 'm arm" where
  "arm_spawn A cur f k =
     (let cs = pr_caps (proc_at k cur);
          authorized = mint_authority cs (unat (a_frame_arg A f 0));
          arg = a_frame_arg A f 1;
          delegated = delegation cs arg (a_frame_arg A f 2);
          deleg_ok = (arg = NO_DELEGATE \<or> (delegated \<noteq> None \<and> Ledger_len (k_ledger k) < Ledger_capacity (k_ledger k)))
      in case spawn_slot k authorized deleg_ok of
           Inl why \<Rightarrow> arm_ret A why f k
         | Inr slot \<Rightarrow>
             let child_id = k_next_id k; k = k\<lparr>k_next_id := child_id + 1\<rparr>
             in kbind (case k_fa k of
                         Some fa \<Rightarrow> load_process A slot child_id Child fa (k_token k) (k_user_elf k) k
                       | None \<Rightarrow> kreturn False k)
                  (\<lambda>loaded k. if loaded
                     then arm_ret A child_id f (sched_add slot (hand_over cur (unat arg) slot child_id delegated k))
                     else arm_ret A spawn_NO_MEM f k))"

section \<open>Interrupt calls\<close>

definition arm_wait_irq :: "'m Arch \<Rightarrow> usize \<Rightarrow> UserFrame \<Rightarrow> 'm Kernel \<Rightarrow> 'm arm" where
  "arm_wait_irq A cur f k =
     (case caps_irq_line (pr_caps (proc_at k cur)) (unat (a_frame_arg A f 0)) of
        None \<Rightarrow> arm_ret A err_NO_CAP f k
      | Some line \<Rightarrow>
          if delivers_irq line
          then let n = pr_irq (proc_at k cur) ! unat line
               in if n > 0
                  then arm_ret A n f (upd_proc cur (\<lambda>p. p\<lparr>pr_irq := (pr_irq p)[unat line := 0]\<rparr>) k)
                  else (case run_current A (block_on cur (BlockedIrq line) f k) of (s, k) \<Rightarrow> (Inl s, k))
          else arm_ret A 0 f k)"

definition arm_poll_irq :: "'m Arch \<Rightarrow> usize \<Rightarrow> UserFrame \<Rightarrow> 'm Kernel \<Rightarrow> 'm arm" where
  "arm_poll_irq A cur f k =
     (case caps_irq_line (pr_caps (proc_at k cur)) (unat (a_frame_arg A f 0)) of
        None \<Rightarrow> arm_ret A err_NO_CAP f k
      | Some line \<Rightarrow>
          if unat line < MAX_IRQ_LINES
          then let (n, pending) = collect_irq (pr_irq (proc_at k cur)) (unat line)
               in arm_ret A n f (upd_proc cur (\<lambda>p. p\<lparr>pr_irq := pending\<rparr>) k)
          else arm_ret A 0 f k)"

section \<open>Region calls\<close>

definition arm_make_region :: "'m Arch \<Rightarrow> usize \<Rightarrow> UserFrame \<Rightarrow> 'm Kernel \<Rightarrow> 'm arm" where
  "arm_make_region A cur f k =
     (let cs = pr_caps (proc_at k cur); cap = unat (a_frame_arg A f 0); pages = a_frame_arg A f 1
      in if \<not> mint_authority cs cap then arm_ret A err_NO_CAP f k
         else if 1 \<le> unat pages \<and> unat pages \<le> REGION_MAX_PAGES
              then kbind (make_region A cur pages (rights (the (CapSpace_lookup cs cap))) k) (\<lambda>ret. arm_ret A ret f)
              else arm_ret A err_NO_MEM f k)"

definition arm_map_region :: "'m Arch \<Rightarrow> usize \<Rightarrow> UserFrame \<Rightarrow> 'm Kernel \<Rightarrow> 'm arm" where
  "arm_map_region A cur f k =
     (case caps_region (pr_caps (proc_at k cur)) (unat (a_frame_arg A f 0)) RIGHTS_READ of
        None \<Rightarrow> arm_ret A err_NO_CAP f k
      | Some (ob, rts) \<Rightarrow> (case map_region A cur ob rts k of (ret, k) \<Rightarrow> arm_ret A ret f k))"

definition arm_unmap_region :: "'m Arch \<Rightarrow> usize \<Rightarrow> UserFrame \<Rightarrow> 'm Kernel \<Rightarrow> 'm arm" where
  "arm_unmap_region A cur f k =
     (case CapSpace_lookup (pr_caps (proc_at k cur)) (unat (a_frame_arg A f 0)) of
        None \<Rightarrow> arm_ret A err_NO_CAP f k
      | Some s \<Rightarrow>
          if cap_type s = CapRegion
          then (case unmap_region_from A cur (object s) k of
                  (hit, k) \<Rightarrow> arm_ret A (if hit then err_OK else err_NO_CAP) f k)
          else arm_ret A err_NO_CAP f k)"

definition dma_caps :: "CapSpace \<Rightarrow> u64 \<Rightarrow> u64 \<Rightarrow> (u64 \<times> u64 \<times> CapRights) option" where
  "dma_caps cs dom_cap reg_cap =
     (case (caps_iommu_domain cs (unat dom_cap) RIGHTS_WRITE, caps_region cs (unat reg_cap) RIGHTS_READ) of
        (Some domain, Some (region, rts)) \<Rightarrow> Some (domain, region, rts)
      | _ \<Rightarrow> None)"

definition arm_map_dma :: "'m Arch \<Rightarrow> usize \<Rightarrow> UserFrame \<Rightarrow> 'm Kernel \<Rightarrow> 'm arm" where
  "arm_map_dma A cur f k =
     (case dma_caps (pr_caps (proc_at k cur)) (a_frame_arg A f 0) (a_frame_arg A f 1) of
        None \<Rightarrow> arm_ret A err_NO_CAP f k
      | Some (domain, region, rts) \<Rightarrow> (case map_dma cur domain region rts k of (ret, k) \<Rightarrow> arm_ret A ret f k))"

definition arm_unmap_dma :: "'m Arch \<Rightarrow> usize \<Rightarrow> UserFrame \<Rightarrow> 'm Kernel \<Rightarrow> 'm arm" where
  "arm_unmap_dma A cur f k =
     (case dma_caps (pr_caps (proc_at k cur)) (a_frame_arg A f 0) (a_frame_arg A f 1) of
        None \<Rightarrow> arm_ret A err_NO_CAP f k
      | Some (domain, region, rts) \<Rightarrow> kbind (unmap_dma A cur domain region k) (\<lambda>ret. arm_ret A ret f))"

definition arm_free_region :: "'m Arch \<Rightarrow> usize \<Rightarrow> UserFrame \<Rightarrow> 'm Kernel \<Rightarrow> 'm arm" where
  "arm_free_region A cur f k =
     (case caps_region (pr_caps (proc_at k cur)) (unat (a_frame_arg A f 0)) RIGHTS_WRITE of
        None \<Rightarrow> arm_ret A err_NO_CAP f k
      | Some (ob, _) \<Rightarrow>
         (case region_slot k ob of
            None \<Rightarrow> arm_ret A err_NO_CAP f k
          | Some idx \<Rightarrow>
              if kr_owner (k_regions k ! idx) = pr_id (proc_at k cur)
              then kbind (destroy_region A idx k) (\<lambda>_. arm_ret A err_OK f)
              else arm_ret A err_NO_CAP f k))"

section \<open>REVOKE and the host contract\<close>

definition arm_revoke :: "'m Arch \<Rightarrow> usize \<Rightarrow> UserFrame \<Rightarrow> 'm Kernel \<Rightarrow> 'm arm" where
  "arm_revoke A cur f k =
     (let cap = unat (a_frame_arg A f 0)
      in case CapSpace_lookup (pr_caps (proc_at k cur)) cap of
           None \<Rightarrow> arm_ret A err_NO_CAP f k
         | Some _ \<Rightarrow> kbind (revoke_delegations A cur cap k) (\<lambda>_. arm_ret A err_OK f))"

definition arm_host :: "'m Arch \<Rightarrow> usize \<Rightarrow> UserFrame \<Rightarrow> 'm Kernel \<Rightarrow> 'm arm" where
  "arm_host A cur f k =
     (case host_dispatch (kenv A cur) (a_frame_num A f) (a_frame_arg A f 0) (a_frame_arg A f 1) (a_frame_arg A f 2)
             (a_frame_arg A f 3) (a_frame_arg A f 4) k of
        (ret, k) \<Rightarrow> arm_ret A ret f k)"

section \<open>The handlers\<close>

definition syscall_arm :: "'m Arch \<Rightarrow> usize \<Rightarrow> UserFrame \<Rightarrow> 'm Kernel \<Rightarrow> 'm arm" where
  "syscall_arm A cur f k =
     (let num = a_frame_num A f
      in if num = sys_YIELD then arm_yield cur f k
         else if num = sys_EXIT then arm_exit A cur f k
         else if num = sys_SEND then arm_send A cur f k
         else if num = sys_RECV then arm_recv A cur f k
         else if num = sys_SPAWN then arm_spawn A cur f k
         else if num = sys_WAIT_IRQ then arm_wait_irq A cur f k
         else if num = sys_MAKE_REGION then arm_make_region A cur f k
         else if num = sys_MAP_REGION then arm_map_region A cur f k
         else if num = sys_UNMAP_REGION then arm_unmap_region A cur f k
         else if num = sys_MAP_DMA then arm_map_dma A cur f k
         else if num = sys_UNMAP_DMA then arm_unmap_dma A cur f k
         else if num = sys_FREE_REGION then arm_free_region A cur f k
         else if num = sys_POLL_IRQ then arm_poll_irq A cur f k
         else if num = sys_REVOKE then arm_revoke A cur f k
         else arm_host A cur f k)"

definition syscall_trap :: "'m Arch \<Rightarrow> u64 list \<Rightarrow> 'm Kernel \<Rightarrow> Stop \<times> 'm Kernel" where
  "syscall_trap A words k =
     (let cur = k_current k; f = snapshot A words UserFrame_ZERO
      in case syscall_arm A cur f k of
           (Inl s, k) \<Rightarrow> (s, k)
         | (Inr f, k) \<Rightarrow> let k = upd_frame cur (\<lambda>_. f) k in resume_process A (k_current k) k)"

definition preempt_trap :: "'m Arch \<Rightarrow> u64 list \<Rightarrow> 'm Kernel \<Rightarrow> Stop \<times> 'm Kernel" where
  "preempt_trap A words k =
     (if k_idling k
      then let k = credit_irq A IRQ_TIMER (upd_mach (a_end_of_interrupt A) k)
           in (case Scheduler_current (k_sched k) of
                 Some t \<Rightarrow> resume_process A t (k\<lparr>k_idling := False, k_current := t\<rparr>)
               | None \<Rightarrow> (Parked, k))
      else let cur = k_current k;
               k = upd_frame cur (snapshot A words) k;
               k = credit_irq A IRQ_TIMER (upd_mach (a_end_of_interrupt A) k);
               k = sched_next cur k
           in resume_process A (k_current k) k)"

definition device_trap :: "'m Arch \<Rightarrow> u64 list \<Rightarrow> 'm Kernel \<Rightarrow> Stop \<times> 'm Kernel" where
  "device_trap A words k =
     (if k_idling k
      then let k = credit_irq A IRQ_CONSOLE (upd_mach (a_console_irq_ack A) k)
           in (case Scheduler_current (k_sched k) of
                 Some t \<Rightarrow> resume_process A t (k\<lparr>k_idling := False, k_device_wakes := k_device_wakes k + 1, k_current := t\<rparr>)
               | None \<Rightarrow> (Parked, k))
      else let cur = k_current k;
               k = upd_frame cur (snapshot A words) k;
               k = credit_irq A IRQ_CONSOLE (upd_mach (a_console_irq_ack A) k)
           in if Scheduler_contains cur (k_sched k) then resume_process A cur k
              else let k = sched_next cur k in resume_process A (k_current k) k)"

definition fault_trap :: "'m Arch \<Rightarrow> 'm Kernel \<Rightarrow> Stop \<times> 'm Kernel" where
  "fault_trap A k =
     (let cur = k_current k
      in case teardown_process A cur (k\<lparr>k_killed := k_killed k + 1\<rparr>) of
           (Inl s, k) \<Rightarrow> (s, k)
         | (Inr _, k) \<Rightarrow> run_current A k)"

end
