(* ===== verification/Kquiet.thy ===== *)
theory Kquiet
  imports Ktrap
begin

text \<open>
  Kernel operations that leave scheduling alone. A \<open>quiet\<close> step keeps the run queue and the state
  and identity of every process, and takes nothing from a capability space but capabilities naming
  regions. Everything about windows, devices, regions and user memory is quiet; the operations that
  move a process between states are treated one by one in the theory of the invariant. The lemmas are
  about \<open>quiet_on fx\<close>, which keeps every saved frame too when \<open>fx\<close> holds.
\<close>

section \<open>The relation\<close>

definition caps_less :: "CapSpace \<Rightarrow> CapSpace \<Rightarrow> bool" where
  "caps_less cs cs' \<longleftrightarrow> (\<forall>c. CapSpace_lookup cs' c = CapSpace_lookup cs c
     \<or> CapSpace_lookup cs' c = None \<and> (\<exists>s. CapSpace_lookup cs c = Some s \<and> cap_type s = CapRegion))"

definition quiet_proc_on :: "bool \<Rightarrow> Process \<Rightarrow> Process \<Rightarrow> bool" where
  "quiet_proc_on fx p p' \<longleftrightarrow> (fx \<longrightarrow> pr_frame p' = pr_frame p) \<and> pr_state p' = pr_state p \<and> pr_id p' = pr_id p
     \<and> CapSpace_capacity (pr_caps p') = CapSpace_capacity (pr_caps p) \<and> caps_less (pr_caps p) (pr_caps p')
     \<and> length (pr_irq p') = length (pr_irq p) \<and> length (pr_shares p') = length (pr_shares p) \<and> length (pr_dma p') = length (pr_dma p)"

text \<open>The region table only loses regions.\<close>

definition region_less :: "KRegion \<Rightarrow> KRegion \<Rightarrow> bool" where
  "region_less r r' \<longleftrightarrow> r' = r \<or> r' = KRegion_EMPTY"

definition quiet_on :: "bool \<Rightarrow> 'm Kernel \<Rightarrow> 'm Kernel \<Rightarrow> bool" where
  "quiet_on fx k k' \<longleftrightarrow> k_sched k' = k_sched k \<and> k_current k' = k_current k \<and> k_idling k' = k_idling k
     \<and> k_next_id k' = k_next_id k \<and> k_next_region k' = k_next_region k
     \<and> map child (edges (k_ledger k')) = map child (edges (k_ledger k))
     \<and> list_all2 region_less (k_regions k) (k_regions k') \<and> list_all2 (quiet_proc_on fx) (k_procs k) (k_procs k')"

abbreviation quiet_proc :: "Process \<Rightarrow> Process \<Rightarrow> bool" where
  "quiet_proc \<equiv> quiet_proc_on False"

abbreviation quiet :: "'m Kernel \<Rightarrow> 'm Kernel \<Rightarrow> bool" where
  "quiet \<equiv> quiet_on False"

lemmas quiet_proc_def = quiet_proc_on_def
lemmas quiet_def = quiet_on_def

lemma caps_less_refl [simp]: "caps_less cs cs"
  by (simp add: caps_less_def)

lemma caps_less_trans: "caps_less a b \<Longrightarrow> caps_less b c \<Longrightarrow> caps_less a c"
  unfolding caps_less_def by (metis option.distinct(1))

lemma quiet_proc_refl [simp]: "quiet_proc_on fx p p"
  by (simp add: quiet_proc_def)

lemma quiet_proc_trans: "quiet_proc_on fx a b \<Longrightarrow> quiet_proc_on fx b c \<Longrightarrow> quiet_proc_on fx a c"
  unfolding quiet_proc_def using caps_less_trans by fastforce

lemma region_less_refl [simp]: "region_less r r" "region_less r KRegion_EMPTY"
  by (simp_all add: region_less_def)

lemma quiet_refl [simp]: "quiet_on fx k k"
  by (simp add: quiet_def list_all2_refl)

lemma quiet_trans: "quiet_on fx a b \<Longrightarrow> quiet_on fx b c \<Longrightarrow> quiet_on fx a c"
  unfolding quiet_def
  using list_all2_trans [of "quiet_proc_on fx" "quiet_proc_on fx" "quiet_proc_on fx" "k_procs a" "k_procs b" "k_procs c"] quiet_proc_trans
    list_all2_trans [of region_less region_less region_less "k_regions a" "k_regions b" "k_regions c"]
  by (metis region_less_def)

lemma drop_region: "list_all2 region_less rs (rs[i := KRegion_EMPTY])"
proof -
  have "region_less (rs ! j) (rs[i := KRegion_EMPTY] ! j)" if "j < length rs" for j
    using that by (cases "j = i") simp_all
  then show ?thesis by (simp add: list_all2_conv_all_nth)
qed

lemma forget_children: "map child (edges (Ledger_forget e l)) = map child (edges l)"
  by (simp add: Ledger_forget_def)

lemma quiet_fields [simp]:
  "quiet_on fx k (upd_mach f k)" "quiet_on fx k (k\<lparr>k_mach := m\<rparr>)" "quiet_on fx k (k\<lparr>k_io := io\<rparr>)" "quiet_on fx k (k\<lparr>k_domains := ds\<rparr>)"
  "quiet_on fx k (k\<lparr>k_cmd_tail := t\<rparr>)" "quiet_on fx k (k\<lparr>k_timeouts := n\<rparr>)" "quiet_on fx k (k\<lparr>k_dma_withdrawn := n\<rparr>)"
  "quiet_on fx k (k\<lparr>k_fa := fa\<rparr>)" "quiet_on fx k (k\<lparr>k_regions := (k_regions k)[i := KRegion_EMPTY]\<rparr>)" "quiet_on fx k (forget_cap_edges p c k)"
  "quiet_on fx k (write_io l1 s v k)" "quiet_on fx k (upd_domain di g k)" "quiet_on fx k (k\<lparr>k_parks := n\<rparr>)" "quiet_on fx k (free_frames_to fs k)"
  by (simp_all add: quiet_def upd_mach_def write_io_def upd_domain_def upd_ledger_def free_frames_to_def list_all2_refl
      forget_cap_edges_def forget_children drop_region)

lemma quiet_upd_at:
  assumes "quiet_proc_on fx (proc_at k i) (f (proc_at k i))"
  shows "quiet_on fx k (upd_proc i f k)"
proof -
  have "quiet_proc_on fx (k_procs k ! j) ((k_procs k)[i := f (k_procs k ! i)] ! j)" if "j < length (k_procs k)" for j
    using that assms by (cases "j = i") (simp_all add: proc_at_def)
  then show ?thesis by (simp add: quiet_def upd_proc_def list_all2_conv_all_nth)
qed

lemma quiet_upd_proc: "(\<And>pr. quiet_proc_on fx pr (f pr)) \<Longrightarrow> quiet_on fx k (upd_proc i f k)"
  by (rule quiet_upd_at)

lemma caps_less_revoke: "names_region cs c region \<Longrightarrow> caps_less cs (CapSpace_revoke c cs)"
  using capspace.lookup_remove [of c cs] by (auto simp: caps_less_def names_region_def split: option.splits)

section \<open>Sequencing\<close>

text \<open>
  A reflexive and transitive relation between the kernel before and after holds of every way the code
  puts operations together, once it holds of the operations.
\<close>

locale kernel_preorder =
  fixes R :: "'m Kernel \<Rightarrow> 'm Kernel \<Rightarrow> bool"
  assumes refl: "R k k"
    and trans: "R a b \<Longrightarrow> R b c \<Longrightarrow> R a c"
begin

lemma fold:
  assumes "\<And>x k. R k (f x k)"
  shows "R k (List.fold f xs k)"
  by (induction xs arbitrary: k) (auto intro: refl trans [OF assms])

lemma fold_snd:
  assumes "\<And>x b k. R k (snd (f x (b, k)))"
  shows "R k (snd (List.fold f xs (b, k)))"
proof (induction xs arbitrary: b k)
  case (Cons x xs)
  obtain b' k' where s: "f x (b, k) = (b', k')" by fastforce
  have "R k k'" using assms [of k x b] s by simp
  then show ?case using Cons.IH [of k' b'] trans by (simp add: s)
qed (simp add: refl)

lemma kbind:
  assumes "R k (snd r)" and "\<And>x k'. R k' (snd (f x k'))"
  shows "R k (snd (Kstate.kbind r f))"
proof -
  obtain e k' where r: "r = (e, k')" by fastforce
  show ?thesis
    using assms(1) trans [OF _ assms(2)] by (cases e) (simp_all add: kbind_def r)
qed

lemma split:
  assumes "R k (snd r)" and "\<And>a k'. r = (a, k') \<Longrightarrow> R k' (snd (f a k'))"
  shows "R k (snd (case r of (a, k') \<Rightarrow> f a k'))"
  using assms trans by (cases r) auto

lemma kfor:
  assumes "\<And>x k. R k (snd (f x k))"
  shows "R k (snd (Kstate.kfor xs f k))"
  by (induction xs arbitrary: k) (auto intro!: kbind assms refl simp: kreturn_def)

end

interpretation quiet_steps: kernel_preorder "quiet_on fx" for fx
  by unfold_locales (rule quiet_refl, rule quiet_trans)

lemmas quiet_fold = quiet_steps.fold
lemmas quiet_fold_snd = quiet_steps.fold_snd
lemmas quiet_kbind = quiet_steps.kbind
lemmas quiet_split = quiet_steps.split
lemmas quiet_kfor = quiet_steps.kfor

lemma kreturn_parts [simp]: "snd (kreturn x k) = k" "fst (kreturn x k) = Inr x"
  by (simp_all add: kreturn_def)

section \<open>Devices\<close>

lemma quiet_iommu_cmd [simp]: "quiet_on fx k (snd (iommu_cmd A base c k))"
proof -
  have "quiet_on fx k (upd_mach g ((upd_mach f k)\<lparr>k_cmd_tail := t\<rparr>))" for f g t
    by (rule quiet_trans [OF quiet_trans [OF quiet_fields(1) quiet_fields(5)] quiet_fields(1)])
  then show ?thesis by (simp add: iommu_cmd_def Let_def kreturn_def upd_mach_def)
qed

lemma quiet_invalidate [simp]: "quiet_on fx k (snd (iommu_invalidate A base di k))"
proof (cases "k_cmd_store k = 0")
  case False
  have first: "quiet_on fx k (snd (iommu_cmd A base c (upd_mach h k)))" for c h
    by (rule quiet_trans [OF quiet_fields(1) quiet_iommu_cmd])
  show ?thesis
    using False unfolding iommu_invalidate_def Let_def
    by (auto intro!: quiet_kbind first split: prod.split)
qed (simp add: iommu_invalidate_def)

lemma quiet_count_timeout [simp]: "quiet_on fx k (snd (count_timeout ok k))"
  by (simp add: count_timeout_def kreturn_def)

lemma quiet_invalidate_all [simp]: "quiet_on fx k (snd (invalidate_all_domains A base k))"
  unfolding invalidate_all_domains_def by (rule quiet_kfor) (simp add: quiet_kbind)

lemma quiet_flush_if [simp]: "quiet_on fx k (snd (flush_if A any k))"
  by (simp add: flush_if_def)

lemma quiet_clear_in [simp]: "quiet_on fx k (snd (clear_io_mappings_in di pfn k))"
  by (simp add: clear_in)

lemma quiet_clear_of [simp]: "quiet_on fx k (snd (clear_io_mappings_of pfn k))"
  by (simp add: clear_of)

lemma quiet_withdraw_page [simp]: "quiet_on fx k (snd (withdraw_page di pfn (b, k)))"
  unfolding withdraw_page_eq by (simp add: quiet_trans [OF quiet_fields(3) quiet_fields(12)])

lemma quiet_withdraw_region [simp]: "quiet_on fx k (snd (withdraw_region_from_domain di ri k))"
  unfolding withdraw_region_from_domain_def Let_def by (rule quiet_fold_snd) simp

lemma quiet_set_dma [simp]: "quiet_on fx k (set_dma who slot v k)"
  unfolding set_dma_def by (rule quiet_upd_proc) (simp add: quiet_proc_def)

lemma quiet_withdraw_slot [simp]: "quiet_on fx k (snd (withdraw_dma_slot who slot k))"
  using quiet_trans [OF quiet_set_dma quiet_withdraw_region]
  by (auto simp: withdraw_dma_slot_def Let_def split: prod.split option.split)

lemma quiet_withdraw_all [simp]: "quiet_on fx k (snd (withdraw_all_dma_of A who k))"
proof -
  have "quiet_on fx k (snd (fold (withdraw_counted who) [0..<SHARE_SLOTS] (False, k)))"
    by (rule quiet_fold_snd) (auto simp: withdraw_counted_def Let_def intro!: quiet_split)
  then show ?thesis unfolding withdraw_all_dma_of_def Let_def by (rule quiet_split) simp
qed

lemma quiet_map_pages [simp]: "quiet_on fx k (snd (map_dma_pages di l1 first r rts js k))"
proof (induction js arbitrary: k)
  case (Cons j js)
  have undo: "quiet_on fx k (map_dma_undo di l1 first r j k)" for k
    unfolding map_dma_undo_def
    by (intro quiet_trans [OF quiet_fold quiet_fold])
      (auto simp: undo_page_def undo_grant_def intro: quiet_trans [OF quiet_fields(12) quiet_fields(11)])
  have up: "quiet_on fx k (upd_domain di g (upd_domain di h k))" for g h
    by (rule quiet_trans [OF quiet_fields(12) quiet_fields(12)])
  show ?case
    by (auto simp: Let_def split: prod.split sum.split
        intro: quiet_trans [OF up undo] quiet_trans [OF quiet_trans [OF up quiet_fields(11)] Cons.IH])
qed simp

lemma quiet_map_dma [simp]: "quiet_on fx k (snd (map_dma who domain region rts k))"
proof -
  have "quiet_on fx k (snd (case map_dma_pages di l1 first r rts js k of (ok, k') \<Rightarrow>
      (case ok of False \<Rightarrow> (err_NO_CAP, k') | True \<Rightarrow> (v, set_dma who slot e k'))))" for di l1 first r js v slot e
    by (rule quiet_split) (cases e, simp_all split: bool.split)
  then show ?thesis by (simp add: map_dma_def Let_def split: option.split)
qed

lemma quiet_unmap_dma [simp]: "quiet_on fx k (snd (unmap_dma A who domain region k))"
proof -
  have up: "quiet_on fx k (upd_proc who (\<lambda>p. p\<lparr>pr_dma := map f (pr_dma p)\<rparr>) (snd (withdraw_region_from_domain di ri k)))" for f di ri
    by (rule quiet_trans [OF quiet_withdraw_region quiet_upd_proc]) (simp add: quiet_proc_def)
  have flush: "quiet_on fx k (snd (kbind (iommu_invalidate A b di k) (\<lambda>ok k. kbind (count_timeout ok k) (\<lambda>_. kreturn v))))" for k b di v
    by (intro quiet_kbind) simp_all
  show ?thesis
    by (auto simp: unmap_dma_def Let_def up split: option.split intro: quiet_trans [OF up flush])
qed

section \<open>Windows and regions\<close>

lemma quiet_set_share [simp]: "quiet_on fx k (set_share p slot v k)"
  unfolding set_share_def by (rule quiet_upd_proc) (simp add: quiet_proc_def)

lemma quiet_drop_share [simp]: "quiet_on fx k (drop_share A p slot k)"
proof -
  have "quiet_on fx k (set_share p slot 0 (upd_mach g k))" for g
    by (rule quiet_trans [OF quiet_fields(1) quiet_set_share])
  then show ?thesis by (auto simp: drop_share_def Let_def intro: quiet_trans [OF _ quiet_fields(1)])
qed

lemma quiet_unmap_share [simp]: "quiet_on fx k (unmap_share_slot A p slot k)"
  by (simp add: unmap_share_slot_def)

lemma quiet_unmap_region [simp]: "quiet_on fx k (snd (unmap_region_from A p i k))"
  unfolding unmap_region_from_def by (rule quiet_fold_snd) (simp add: unmap_region_slot_def)

lemma quiet_forget_cap [simp]: "quiet_on fx k (forget_cap region p c k)"
proof (cases "names_region (pr_caps (proc_at k p)) c region")
  case True
  have "quiet_on fx k (upd_caps p (CapSpace_revoke c) k)"
  proof (cases "p < length (k_procs k)")
    case p: True
    have "quiet_proc_on fx (k_procs k ! j) (((k_procs k)[p := (k_procs k ! p)\<lparr>pr_caps := CapSpace_revoke c (pr_caps (k_procs k ! p))\<rparr>]) ! j)"
      if "j < length (k_procs k)" for j
      using that True caps_less_revoke by (cases "j = p") (auto simp: quiet_proc_def proc_at_def capspace.capacity_remove)
    then show ?thesis by (simp add: quiet_def upd_caps_def upd_proc_def list_all2_conv_all_nth)
  qed (simp add: upd_caps_def upd_proc_def list_update_beyond)
  then show ?thesis
    using True quiet_trans [OF _ quiet_fields(10)] by (simp add: forget_cap_def)
qed (simp add: forget_cap_def)

lemma quiet_forget_caps [simp]: "quiet_on fx k (forget_caps region k)"
  unfolding forget_caps_def forget_caps_of_def by (rule quiet_fold) (simp add: quiet_fold)

lemma quiet_release_frame [simp]: "quiet_on fx k (snd (release_frame pfn (b, k)))"
proof -
  have "quiet_on fx k (fold (\<lambda>di. upd_domain di (\<lambda>d. snd (Domain_revoke pfn d))) [0..<MAX_DOMAINS] k)" for k
    by (rule quiet_fold) simp
  then show ?thesis unfolding release_frame_def Let_def prod.case by (intro quiet_split) simp_all
qed

lemma quiet_drop_records [simp]: "quiet_on fx k (drop_dma_records region p k)"
  unfolding drop_dma_records_def by (auto intro!: quiet_upd_proc simp: quiet_proc_def)

lemma quiet_release [simp]: "quiet_on fx k (snd (release_region A region k))"
proof -
  have fr: "quiet_on fx k (snd (fold (\<lambda>j. release_frame (frame_pfn r j)) js (b, k)))" for r js b k
    by (rule quiet_fold_snd) simp
  have tail: "quiet_on fx k ((free_frames_to fs (fold (drop_dma_records region) ps k))\<lparr>k_regions :=
      (k_regions (free_frames_to fs (fold (drop_dma_records region) ps k)))[i := KRegion_EMPTY]\<rparr>)" for fs ps i k
    by (intro quiet_trans [OF quiet_trans [OF quiet_fold quiet_fields(14)] quiet_fields(9)]) simp
  have "quiet_on fx k (snd (kbind (flush_if A t k) (\<lambda>_ k.
      kreturn () ((free_frames_to fs (fold (drop_dma_records region) ps k))\<lparr>k_regions := (k_regions (free_frames_to fs (fold (drop_dma_records region) ps k)))[i := KRegion_EMPTY]\<rparr>))))"
    for t fs ps i k
    by (rule quiet_kbind) (simp_all add: tail)
  then show ?thesis
    unfolding release_region_def Let_def by (auto split: option.split intro!: quiet_split fr)
qed

lemma quiet_run_plan [simp]: "quiet_on fx k (snd (run_region_plan A plan k))"
proof -
  have "quiet_on fx k (snd (run_step A st k))" for st k by (simp add: run_step_def split: Step.split)
  then show ?thesis by (simp add: run_region_plan_def quiet_kfor)
qed

lemma quiet_destroy [simp]:
  "quiet_on fx k (snd (destroy_region A idx k))" "quiet_on fx k (snd (destroy_regions_owned_by A p i k))"
  by (simp_all add: destroy_region_def destroy_regions_owned_by_def split: prod.split)

lemma quiet_put_recording [simp]: "quiet_on fx k (put_recording p s k)"
proof -
  obtain rc m where s: "s = (rc, m)" by fastforce
  have "quiet_on fx k (upd_proc p (\<lambda>pr. pr\<lparr>pr_frames := rec_frames rc, pr_nframes := rec_n rc\<rparr>) k)"
    by (rule quiet_upd_proc) (simp add: quiet_proc_def)
  then show ?thesis by (simp add: put_recording_def s quiet_def)
qed

lemma quiet_map_region [simp]: "quiet_on fx k (snd (map_region A p i rts k))"
proof -
  have fin: "quiet_on fx k k' \<Longrightarrow> quiet_on fx k (let k = put_recording p s k'; k = (if ok then set_share p slot i k else k)
       in if b then upd_mach g k else k)" for k k' s ok slot b g
    by (auto simp: Let_def intro: quiet_trans [OF quiet_trans [OF _ quiet_put_recording] quiet_fields(1)]
        quiet_trans [OF quiet_trans [OF quiet_trans [OF _ quiet_put_recording] quiet_set_share] quiet_fields(1)]
        quiet_trans [OF quiet_trans [OF _ quiet_put_recording] quiet_set_share] quiet_trans [OF _ quiet_put_recording])
  show ?thesis
    using fin [OF quiet_fields(1) [of _ k]]
    by (auto simp: map_region_def Let_def split: option.split prod.split)
qed

lemma quiet_device_window [simp]: "quiet_on fx k (unmap_device_window A p k)"
  by (auto simp: unmap_device_window_def Let_def intro: quiet_trans [OF quiet_fields(1) quiet_fields(1)])

section \<open>The host contract\<close>

lemma quiet_map_device [simp]: "quiet_on fx k (snd (kenv_map_device A who phys pages w k))"
  by (auto simp: kenv_map_device_def Let_def split: option.split prod.split
      intro: quiet_trans [OF quiet_put_recording quiet_fields(1)])

lemma quiet_env:
  "quiet_on fx k (env_debug_write (kenv A who) bytes k)" "quiet_on fx k (snd (env_map_device (kenv A who) phys pages w k))"
  "quiet_on fx k (env_unmap_device (kenv A who) k)" "quiet_on fx k (snd (env_write_user_bytes (kenv A who) u bytes k))"
  by (simp_all add: kenv_def split: prod.split)

lemma quiet_debug_chunks: "quiet_on fx k (snd (debug_chunks (kenv A who) uptr tot off k))"
proof (induction "kenv A who" uptr tot off k rule: debug_chunks.induct)
  case (1 uptr tot off k)
  show ?case
    by (subst debug_chunks.simps)
      (auto simp: Let_def split: option.split intro: quiet_trans [OF quiet_env(1) 1])
qed

lemma quiet_dispatch [simp]: "quiet_on fx k (snd (host_dispatch (kenv A who) num a0 a1 a2 a3 a4 k))"
proof -
  have "quiet_on fx k (snd (sys_map_bar (kenv A who) c r k))" for c r
    unfolding sys_map_bar_def
    by (auto split: option.split CapType.split prod.split
        intro!: quiet_split quiet_env quiet_trans [OF _ quiet_env(3)] simp: Let_def)
      (metis quiet_env(2,3,4) quiet_trans snd_conv)+
  moreover have "quiet_on fx k (snd (sys_get_info (kenv A who) u k))" for u
    unfolding sys_get_info_def Let_def by (rule quiet_split [OF quiet_env(4)]) simp
  ultimately show ?thesis
    by (simp add: host_dispatch_def sys_debug_write_def quiet_debug_chunks)
qed

section \<open>The effects of a lost capability\<close>

lemma quiet_strip_share [simp]: "quiet_on fx k (strip_share A p slot k)"
  by (simp add: strip_share_def Let_def)

lemma quiet_strip_dma [simp]: "quiet_on fx k (snd (strip_dma A p k))"
proof -
  have w: "quiet_on fx k k'" if "withdraw_dma_slot p slot k = (hit, k')" for slot k hit k'
    using quiet_withdraw_slot [of fx k p slot] that by simp
  have "quiet_on fx k (snd (strip_dma_slot p slot (any, k)))" for slot any k
    by (auto simp: strip_dma_slot_def Let_def split: prod.split dest: w)
  then have "quiet_on fx k (snd (fold (strip_dma_slot p) [0..<SHARE_SLOTS] (False, k)))" by (rule quiet_fold_snd)
  then show ?thesis unfolding strip_dma_def Let_def by (rule quiet_split) simp
qed

lemma quiet_strip_irq [simp]: "quiet_on fx k (strip_irq p line k)"
  unfolding strip_irq_def by (auto intro!: quiet_upd_proc simp: quiet_proc_def)

lemma quiet_reclaim [simp]: "quiet_on fx k (reclaim_frames p k)"
proof -
  have "quiet_on fx k (upd_proc p (\<lambda>pr. pr\<lparr>pr_nframes := 0\<rparr>) k)"
    by (rule quiet_upd_proc) (simp add: quiet_proc_def)
  then show ?thesis by (auto simp: reclaim_frames_def split: option.split intro: quiet_trans [OF _ quiet_fields(8)])
qed

lemma quiet_upd_frame [simp]: "quiet k (upd_frame p f k)"
  unfolding upd_frame_def by (rule quiet_upd_proc) (simp add: quiet_proc_def)

lemma quiet_put_msg [simp]: "quiet_on fx k (put_msg p bytes k)"
  unfolding put_msg_def by (rule quiet_upd_proc) (simp add: quiet_proc_def)

lemma quiet_resume [simp]: "quiet k (snd (resume_process A n k))"
proof -
  have p: "quiet k (upd_proc n (\<lambda>p. p\<lparr>pr_pending_len := 0\<rparr>) k)"
    by (rule quiet_upd_proc) (simp add: quiet_proc_def)
  have m: "quiet k ((upd_mach g (upd_proc n (\<lambda>p. p\<lparr>pr_pending_len := 0\<rparr>) k))\<lparr>k_mach := m\<rparr>)" for g m
    by (rule quiet_trans [OF quiet_trans [OF p quiet_fields(1)] quiet_fields(2)])
  show ?thesis
    by (auto simp: resume_process_def Let_def split: prod.split intro: m quiet_trans [OF m quiet_upd_frame])
qed

lemma resume_stop [simp]: "fst (resume_process A n k) = Resumed n"
  by (simp add: resume_process_def Let_def split: prod.split)

section \<open>How a call can end early\<close>

text \<open>Below the trap handlers only a failed assertion ends a run, or a plan that does not fit.\<close>

definition halts :: "('m, 'a) kres \<Rightarrow> bool" where
  "halts r \<longleftrightarrow> (\<forall>s. fst r = Inl s \<longrightarrow> s = Panicked)"

lemma halts_kreturn [simp]: "halts (kreturn x k)" "halts (Inl Panicked, k)"
  by (simp_all add: halts_def)

lemma halts_kbind:
  assumes "halts r" and "\<And>x k. halts (f x k)"
  shows "halts (kbind r f)"
proof -
  obtain e k where r: "r = (e, k)" by fastforce
  show ?thesis using assms by (cases e) (auto simp: r halts_def kbind_def)
qed

lemma halts_kfor: "(\<And>x k. halts (f x k)) \<Longrightarrow> halts (kfor xs f k)"
  by (induction xs arbitrary: k) (auto intro: halts_kbind)

lemma halts_cmd [simp]: "halts (iommu_cmd A base c k)"
  by (simp add: iommu_cmd_def Let_def)

lemma halts_invalidate [simp]: "halts (iommu_invalidate A base di k)"
  unfolding iommu_invalidate_def Let_def by (auto intro!: halts_kbind split: prod.split)

lemma halts_flush [simp]: "halts (flush_if A any k)"
proof -
  have "halts (count_timeout ok k)" for ok and k :: "'a Kernel" by (simp add: count_timeout_def)
  then show ?thesis
    by (auto simp: flush_if_def invalidate_all_domains_def intro!: halts_kfor halts_kbind)
qed

lemma halts_withdraw [simp]: "halts (withdraw_all_dma_of A who k)" "halts (strip_dma A who k)"
  by (simp_all add: withdraw_all_dma_of_def strip_dma_def split: prod.split)

lemma halts_unmap_dma [simp]: "halts (unmap_dma A who domain region k)"
  by (auto simp: unmap_dma_def Let_def count_timeout_def intro!: halts_kbind split: option.split)

lemma halts_run_plan: "\<not> p_truncated plan \<Longrightarrow> halts (run_region_plan A plan k)"
proof -
  have "halts (run_step A st k)" for st and k :: "'a Kernel"
    by (auto simp: run_step_def release_region_def Let_def intro!: halts_kbind split: Step.split option.split prod.split)
  then show "\<not> p_truncated plan \<Longrightarrow> halts (run_region_plan A plan k)" by (auto simp: run_region_plan_def intro!: halts_kfor)
qed

end
