(* ===== verification/Kinv.thy ===== *)
theory Kinv
  imports Kquiet
begin

text \<open>
  The invariant of the kernel between traps: the run queue holds exactly the ready processes, no two
  processes are blocked on the two sides of one endpoint, and every blocked process still holds the
  authority it blocks on. Each trap handler preserves it, whatever the registers hold.
\<close>

section \<open>The invariant\<close>

definition ready :: "'m Kernel \<Rightarrow> usize set" where
  "ready k = {i. i < MAX_PROCS \<and> pr_state (proc_at k i) = PReady}"

definition queue_ok :: "'m Kernel \<Rightarrow> bool" where
  "queue_ok k \<longleftrightarrow> sched_inv (k_sched k) \<and> Scheduler_capacity (k_sched k) = MAX_PROCS"

text \<open>Every delegation the ledger has recorded went to a slot of the process table.\<close>

definition ledger_ok :: "'m Kernel \<Rightarrow> bool" where
  "ledger_ok k \<longleftrightarrow> (\<forall>e \<in> set (map child (edges (k_ledger k))). ep_proc e < MAX_PROCS)"

text \<open>Every table has the length of its array, and live regions carry ids of their own, issued before.\<close>

definition proc_shape :: "Process \<Rightarrow> bool" where
  "proc_shape p \<longleftrightarrow> CapSpace_capacity (pr_caps p) = CAP_SLOTS \<and> length (pr_irq p) = MAX_IRQ_LINES
     \<and> length (pr_shares p) = SHARE_SLOTS \<and> length (pr_dma p) = SHARE_SLOTS"

definition region_shape :: "u64 \<Rightarrow> KRegion \<Rightarrow> bool" where
  "region_shape nxt r \<longleftrightarrow> length (kr_frames r) = REGION_MAX_PAGES \<and> kr_npages r \<le> REGION_MAX_PAGES
     \<and> (kr_live r \<longrightarrow> 0 < kr_id r \<and> kr_id r < nxt)"

definition live_ids :: "KRegion list \<Rightarrow> u64 list" where
  "live_ids rs = map kr_id (filter kr_live rs)"

definition regions_ok :: "'m Kernel \<Rightarrow> bool" where
  "regions_ok k \<longleftrightarrow> 0 < k_next_region k \<and> length (k_regions k) = MAX_REGIONS \<and> (\<forall>r \<in> set (k_regions k). region_shape (k_next_region k) r)
     \<and> distinct (live_ids (k_regions k))"

definition sized :: "'m Kernel \<Rightarrow> bool" where
  "sized k \<longleftrightarrow> (\<forall>i<MAX_PROCS. proc_shape (proc_at k i)) \<and> regions_ok k"

definition queue_of :: "'m Kernel \<Rightarrow> usize set" where
  "queue_of k = set (sched_queue (k_sched k))"

text \<open>Everything but the authority of process \<open>p\<close>.\<close>

definition kinv_but :: "usize \<Rightarrow> 'm Kernel \<Rightarrow> bool" where
  "kinv_but p k \<longleftrightarrow> length (k_procs k) = MAX_PROCS \<and> ledger_ok k \<and> sized k \<and> queue_ok k \<and> queue_of k = ready k
     \<and> well_formed (run_slots k) \<and> (\<forall>i<MAX_PROCS. i \<noteq> p \<longrightarrow> \<not> stranded k i)"

definition kinv :: "'m Kernel \<Rightarrow> bool" where
  "kinv k \<longleftrightarrow> length (k_procs k) = MAX_PROCS \<and> ledger_ok k \<and> sized k \<and> queue_ok k \<and> queue_of k = ready k
     \<and> well_formed (run_slots k) \<and> (\<forall>i<MAX_PROCS. \<not> stranded k i)"

lemma kinv_but: "kinv k \<Longrightarrow> kinv_but p k"
  by (simp add: kinv_def kinv_but_def)

lemma kinv_from_but: "kinv_but p k \<Longrightarrow> \<not> stranded k p \<Longrightarrow> kinv k"
  by (auto simp: kinv_def kinv_but_def)

lemma proc_shape_fields [simp]:
  "proc_shape (p\<lparr>pr_state := s\<rparr>) = proc_shape p" "proc_shape (p\<lparr>pr_frame := f\<rparr>) = proc_shape p"
  "proc_shape (p\<lparr>pr_msg := b\<rparr>) = proc_shape p" "proc_shape (p\<lparr>pr_msg_len := n\<rparr>) = proc_shape p"
  "proc_shape (p\<lparr>pr_pending_len := n\<rparr>) = proc_shape p" "proc_shape (p\<lparr>pr_pending_dst := a\<rparr>) = proc_shape p"
  by (simp_all add: proc_shape_def)

lemma proc_shape_irq [simp]: "proc_shape p \<Longrightarrow> proc_shape (p\<lparr>pr_irq := (pr_irq p)[i := n]\<rparr>)"
  by (simp add: proc_shape_def)

section \<open>Quiet steps\<close>

lemma caps_any_less:
  assumes "caps_less cs cs'" and "\<And>s. P s \<Longrightarrow> cap_type s \<noteq> CapRegion"
  shows "caps_any cs' P = caps_any cs P"
proof -
  have "(case CapSpace_lookup cs' i of None \<Rightarrow> False | Some s \<Rightarrow> P s)
      = (case CapSpace_lookup cs i of None \<Rightarrow> False | Some s \<Rightarrow> P s)" for i
    using assms(1) [unfolded caps_less_def, rule_format, of i] assms(2) by (auto split: option.split)
  then show ?thesis unfolding caps_any_def by simp
qed

lemma less_endpoint: "caps_less cs cs' \<Longrightarrow> caps_hold_endpoint cs' e r = caps_hold_endpoint cs e r"
  unfolding caps_hold_endpoint_def by (rule caps_any_less) simp_all

lemma less_irq: "caps_less cs cs' \<Longrightarrow> caps_hold_irq cs' l = caps_hold_irq cs l"
  unfolding caps_hold_irq_def by (rule caps_any_less) simp_all

lemma quiet_at:
  assumes "quiet k k'" and "i < length (k_procs k)"
  shows "pr_state (proc_at k' i) = pr_state (proc_at k i)" and "pr_id (proc_at k' i) = pr_id (proc_at k i)"
    and "caps_less (pr_caps (proc_at k i)) (pr_caps (proc_at k' i))"
    and "CapSpace_capacity (pr_caps (proc_at k' i)) = CapSpace_capacity (pr_caps (proc_at k i))"
    and "length (pr_irq (proc_at k' i)) = length (pr_irq (proc_at k i))"
    and "length (pr_shares (proc_at k' i)) = length (pr_shares (proc_at k i))"
    and "length (pr_dma (proc_at k' i)) = length (pr_dma (proc_at k i))"
  using assms by (auto simp: quiet_def quiet_proc_def proc_at_def list_all2_conv_all_nth)

lemma quiet_length: "quiet k k' \<Longrightarrow> length (k_procs k') = length (k_procs k)"
  by (auto simp: quiet_def dest: list_all2_lengthD)

lemma quiet_slots: "quiet k k' \<Longrightarrow> run_slots k' = run_slots k"
  by (rule nth_equalityI) (auto simp: run_slots_def quiet_length run_slot_def quiet_at(1) [unfolded proc_at_def])

lemma quiet_stranded: "quiet k k' \<Longrightarrow> i < length (k_procs k) \<Longrightarrow> stranded k' i = stranded k i"
  using quiet_at [of k k' i]
  by (auto simp: stranded_def creditable_def holds_endpoint_def holds_irq_def less_endpoint less_irq split: ProcState.split)

lemma quiet_queue: "quiet k k' \<Longrightarrow> queue_ok k' = queue_ok k \<and> queue_of k' = queue_of k \<and> ledger_ok k' = ledger_ok k"
  by (simp add: quiet_def queue_ok_def queue_of_def ledger_ok_def del: set_map)

lemma quiet_ready: "quiet k k' \<Longrightarrow> length (k_procs k) = MAX_PROCS \<Longrightarrow> ready k' = ready k"
  using quiet_at(1) [of k k'] by (auto simp: ready_def)

lemma EMPTY_shape [simp]: "region_shape n KRegion_EMPTY" "\<not> kr_live KRegion_EMPTY"
  by (simp_all add: region_shape_def KRegion_EMPTY_def)

lemma less_ids: "list_all2 region_less rs rs' \<Longrightarrow> distinct (live_ids rs) \<Longrightarrow>
    distinct (live_ids rs') \<and> set (live_ids rs') \<subseteq> set (live_ids rs)"
  by (induction rule: list_all2_induct) (auto simp: live_ids_def region_less_def split: if_splits)

lemma less_shapes: "list_all2 region_less rs rs' \<Longrightarrow> \<forall>r \<in> set rs. region_shape n r \<Longrightarrow> \<forall>r \<in> set rs'. region_shape n r"
  by (induction rule: list_all2_induct) (auto simp: region_less_def)

lemma quiet_regions: "quiet k k' \<Longrightarrow> regions_ok k \<Longrightarrow> regions_ok k'"
  using less_ids [of "k_regions k" "k_regions k'"] less_shapes [of "k_regions k" "k_regions k'" "k_next_region k"]
    list_all2_lengthD [of region_less "k_regions k" "k_regions k'"]
  by (simp add: quiet_def regions_ok_def)

lemma quiet_sized: "quiet k k' \<Longrightarrow> length (k_procs k) = MAX_PROCS \<Longrightarrow> sized k \<Longrightarrow> sized k'"
  using quiet_at(4,5,6,7) [of k k'] quiet_regions [of k k'] by (simp add: sized_def proc_shape_def)

lemma quiet_kinv_but: "quiet k k' \<Longrightarrow> kinv_but p k \<Longrightarrow> kinv_but p k'"
  unfolding kinv_but_def by (metis quiet_length quiet_queue quiet_ready quiet_slots quiet_stranded quiet_sized)

lemma quiet_kinv: "quiet k k' \<Longrightarrow> kinv k \<Longrightarrow> kinv k'"
  unfolding kinv_def by (metis quiet_length quiet_queue quiet_ready quiet_slots quiet_stranded quiet_sized)

text \<open>The bound on teardown plans is enough, so carrying one out ends early only by a failed assertion.\<close>

lemma view_ids: "map r_id (filter r_live (map (\<lambda>r. if kr_live r then Region_new (kr_id r) (kr_owner r) else Region_EMPTY) rs)) = live_ids rs"
  by (induction rs) (simp_all add: live_ids_def Region_new_def Region_EMPTY_def)

lemma plans_fit:
  assumes "length (k_procs k) = MAX_PROCS" and "sized k" and "region_view k = (rs, hs)"
  shows "\<not> p_truncated (teardown PLAN_STEPS rs hs p i)" and "\<not> p_truncated (destroy PLAN_STEPS rs hs r)"
proof -
  have ok: "regions_ok k" using assms(2) by (simp add: sized_def)
  have rs: "rs = map (\<lambda>r. if kr_live r then Region_new (kr_id r) (kr_owner r) else Region_EMPTY) (k_regions k)"
    and hs: "hs = map (\<lambda>p. if pr_state p \<noteq> PFree then Holder_new (pr_id p) (pr_shares p) else Holder_FREE SHARE_SLOTS) (k_procs k)"
    using assms(3) by (simp_all add: region_view_def)
  have "map r_id (filter r_live rs) = live_ids (k_regions k)"
    unfolding rs by (rule view_ids)
  then have d: "distinct_ids rs" using ok by (simp add: distinct_ids_def regions_ok_def)
  have "length (pr_shares pr) = SHARE_SLOTS" if "pr \<in> set (k_procs k)" for pr
    using that assms(1,2) by (auto simp: in_set_conv_nth sized_def proc_shape_def proc_at_def)
  then have "\<forall>h \<in> set hs. length (h_slots h) = SHARE_SLOTS"
    by (auto simp: hs Holder_new_def Holder_FREE_def)
  moreover have "length hs * SHARE_SLOTS + 2 * length rs \<le> PLAN_STEPS"
    using ok assms(1) by (simp add: rs hs PLAN_STEPS_def regions_ok_def)
  ultimately show "\<not> p_truncated (teardown PLAN_STEPS rs hs p i)" "\<not> p_truncated (destroy PLAN_STEPS rs hs r)"
    by (rule plan_fits [OF d])+
qed

lemma halts_destroy:
  assumes "kinv k"
  shows "halts (destroy_region A idx k)" and "halts (destroy_regions_owned_by A p i k)"
proof -
  obtain rs hs where v: "region_view k = (rs, hs)" by fastforce
  from assms have "length (k_procs k) = MAX_PROCS" "sized k" by (simp_all add: kinv_def)
  from plans_fit [OF this v] show "halts (destroy_region A idx k)" and "halts (destroy_regions_owned_by A p i k)"
    by (simp_all add: destroy_region_def destroy_regions_owned_by_def v halts_run_plan)
qed

section \<open>Moving one process\<close>

lemma proc_upd: "length (k_procs k) = MAX_PROCS \<Longrightarrow> i < MAX_PROCS \<Longrightarrow>
    proc_at (upd_proc p f k) i = (if i = p then f (proc_at k i) else proc_at k i)"
  by (auto simp: proc_at_def upd_proc_def)

lemma length_upd [simp]: "length (k_procs (upd_proc p f k)) = length (k_procs k)"
  by (simp add: upd_proc_def)

lemma slots_upd: "length (k_procs k) = MAX_PROCS \<Longrightarrow> p < MAX_PROCS \<Longrightarrow>
    run_slots (upd_proc p f k) = (run_slots k)[p := run_slot (f (proc_at k p))]"
  by (simp add: run_slots_def upd_proc_def map_update proc_at_def)

lemma sched_upd [simp]: "k_sched (upd_proc p f k) = k_sched k" "k_current (upd_proc p f k) = k_current k"
    "k_idling (upd_proc p f k) = k_idling k" "k_ledger (upd_proc p f k) = k_ledger k" "ledger_ok (upd_proc p f k) = ledger_ok k"
  by (simp_all add: upd_proc_def ledger_ok_def)

lemma stranded_upd:
  assumes "length (k_procs k) = MAX_PROCS" and "i < MAX_PROCS" and "i \<noteq> p"
  shows "stranded (upd_proc p f k) i = stranded k i"
  using assms by (simp add: stranded_def holds_endpoint_def creditable_def holds_irq_def proc_upd split: ProcState.split)

lemma stranded_sched [simp]: "stranded (k\<lparr>k_sched := s\<rparr>) i = stranded k i" "run_slots (k\<lparr>k_sched := s\<rparr>) = run_slots k"
    "proc_at (k\<lparr>k_sched := s\<rparr>) i = proc_at k i"
  by (simp_all add: stranded_def holds_endpoint_def creditable_def holds_irq_def run_slots_def proc_at_def split: ProcState.split)

lemma queue_fields:
  "queue_of (k\<lparr>k_sched := s\<rparr>) = set (sched_queue s)"
  "queue_ok (k\<lparr>k_sched := s\<rparr>) \<longleftrightarrow> sched_inv s \<and> Scheduler_capacity s = MAX_PROCS"
  "ready (k\<lparr>k_sched := s\<rparr>) = ready k" "ledger_ok (k\<lparr>k_sched := s\<rparr>) = ledger_ok k"
  "sized (k\<lparr>k_sched := s\<rparr>) = sized k"
  by (simp_all add: queue_of_def queue_ok_def ready_def ledger_ok_def sized_def regions_ok_def)

lemma regions_ok_upd [simp]: "regions_ok (upd_proc p f k) = regions_ok k"
  by (simp add: regions_ok_def upd_proc_def)

lemma sized_upd:
  "length (k_procs k) = MAX_PROCS \<Longrightarrow> sized k \<Longrightarrow> proc_shape (f (proc_at k p)) \<Longrightarrow> sized (upd_proc p f k)"
  by (auto simp: sized_def proc_upd)

lemma wake_kinv:
  assumes "kinv_but p k" and "p < MAX_PROCS" and "pr_state (f (proc_at k p)) = PReady"
    and "proc_shape (f (proc_at k p))"
  shows "kinv (sched_add p (upd_proc p f k))"
proof -
  have len: "length (k_procs k) = MAX_PROCS" using assms(1) by (simp add: kinv_but_def)
  let ?k = "upd_proc p f k"
  have wf: "well_formed (run_slots ?k)"
    unfolding slots_upd [OF len assms(2)]
    using assms(1,3) by (intro well_formed_update_other) (simp_all add: kinv_but_def run_slot_def Slot_blocked_def)
  have inv: "sched_inv (k_sched k)" "Scheduler_capacity (k_sched k) = MAX_PROCS" "set (sched_queue (k_sched k)) = ready k"
    using assms(1) by (simp_all add: kinv_but_def queue_ok_def queue_of_def)
  have q: "set (sched_queue (snd (Scheduler_add p (k_sched k)))) = insert p (ready k)"
    using sched_rq.add_queues [of "k_sched k" p] inv assms(2) by (auto simp: ready_def)
  have r: "ready ?k = insert p (ready k)" using assms(2,3) len by (auto simp: ready_def proc_upd)
  have "\<not> stranded ?k i" if "i < MAX_PROCS" for i
    using that assms len by (cases "i = p") (simp_all add: stranded_upd kinv_but_def, simp add: stranded_def proc_upd)
  moreover have "ledger_ok k" using assms(1) by (simp add: kinv_but_def)
  moreover have "sized ?k" using assms(1,4) len by (intro sized_upd) (simp_all add: kinv_but_def)
  ultimately show ?thesis
    using wf q r len inv(1,2) sched_rq.inv_add [of "k_sched k" p] sched_rq.capacity_add [of p "k_sched k"]
    unfolding sched_add_def kinv_def by (simp add: queue_fields)
qed

lemma leave_kinv:
  assumes "kinv_but p k" and "p < MAX_PROCS" and "st \<noteq> PReady"
    and "well_formed ((run_slots k)[p := run_slot ((proc_at k p)\<lparr>pr_state := st\<rparr>)])"
    and "\<not> stranded (set_state p st k) p"
  shows "kinv (sched_remove p (set_state p st k))"
proof -
  have len: "length (k_procs k) = MAX_PROCS" using assms(1) by (simp add: kinv_but_def)
  let ?k = "set_state p st k"
  have inv: "sched_inv (k_sched k)" "Scheduler_capacity (k_sched k) = MAX_PROCS" "set (sched_queue (k_sched k)) = ready k"
    using assms(1) by (simp_all add: kinv_but_def queue_ok_def queue_of_def)
  have q: "set (sched_queue (snd (Scheduler_remove p (k_sched k)))) = ready k - {p}"
    using sched_rq.remove_unqueues [OF inv(1)] inv(3) by simp
  have r: "ready ?k = ready k - {p}" using assms(2,3) len by (auto simp: ready_def set_state_def proc_upd split: if_splits)
  have wf: "well_formed (run_slots ?k)" using assms(4) by (simp add: set_state_def slots_upd [OF len assms(2)])
  have "\<not> stranded ?k i" if "i < MAX_PROCS" for i
    using that assms(1,5) len stranded_upd [OF len that] by (cases "i = p") (simp_all add: set_state_def kinv_but_def)
  moreover have "k_sched ?k = k_sched k" "length (k_procs ?k) = MAX_PROCS" "ledger_ok ?k" "sized ?k"
    using len assms(1,2) by (auto simp: set_state_def kinv_but_def sized_def proc_upd)
  ultimately show ?thesis
    using wf q r inv(1,2) sched_rq.inv_remove [OF inv(1), of p] sched_rq.capacity_remove [OF inv(1), of p]
    unfolding sched_remove_def kinv_def by (simp add: queue_fields)
qed

text \<open>What holds of the process that runs.\<close>

definition running :: "usize \<Rightarrow> 'm Kernel \<Rightarrow> bool" where
  "running c k \<longleftrightarrow> k_current k = c \<and> c < MAX_PROCS \<and> pr_state (proc_at k c) = PReady \<and> \<not> k_idling k"

lemma quiet_running: "quiet k k' \<Longrightarrow> length (k_procs k) = MAX_PROCS \<Longrightarrow> running c k \<Longrightarrow> running c k'"
  using quiet_at(1) [of k k' c] by (simp add: running_def) (simp add: quiet_def)

lemma running_sched [simp]: "running c (sched_add p k) = running c k" "running c (sched_remove p k) = running c k"
  by (simp_all add: running_def sched_add_def sched_remove_def)

lemma running_upd:
  assumes "length (k_procs k) = MAX_PROCS" and "running c k" and "p = c \<longrightarrow> pr_state (f (proc_at k p)) = PReady"
  shows "running c (upd_proc p f k)"
  using assms by (auto simp: running_def proc_upd)

definition live_inv :: "usize \<Rightarrow> 'm Kernel \<Rightarrow> bool" where
  "live_inv c k \<longleftrightarrow> kinv k \<and> running c k"

definition live_but :: "usize \<Rightarrow> usize \<Rightarrow> 'm Kernel \<Rightarrow> bool" where
  "live_but p c k \<longleftrightarrow> kinv_but p k \<and> running c k"

lemma live_len: "live_inv c k \<Longrightarrow> length (k_procs k) = MAX_PROCS" "live_but p c k \<Longrightarrow> length (k_procs k) = MAX_PROCS"
  by (simp_all add: live_inv_def live_but_def kinv_def kinv_but_def)

lemma live_but: "live_inv c k \<Longrightarrow> live_but p c k"
  by (simp add: live_inv_def live_but_def kinv_but)

lemma quiet_live: "quiet k k' \<Longrightarrow> live_inv c k \<Longrightarrow> live_inv c k'"
  using live_len(1) quiet_running quiet_kinv unfolding live_inv_def by (metis live_inv_def live_len(1))

lemma quiet_live_but: "quiet k k' \<Longrightarrow> live_but p c k \<Longrightarrow> live_but p c k'"
  unfolding live_but_def by (metis quiet_running quiet_kinv_but kinv_but_def)

lemma wake_live: "live_but p c k \<Longrightarrow> p < MAX_PROCS \<Longrightarrow> pr_state (f (proc_at k p)) = PReady \<Longrightarrow>
    proc_shape (f (proc_at k p)) \<Longrightarrow> live_inv c (sched_add p (upd_proc p f k))"
  using wake_kinv [of p k f] running_upd [of k c p f] live_len(2) [of p c k] by (auto simp: live_inv_def live_but_def)

section \<open>Results\<close>

definition okay :: "('a \<Rightarrow> 'm Kernel \<Rightarrow> bool) \<Rightarrow> ('m, 'a) kres \<Rightarrow> bool" where
  "okay Q r \<longleftrightarrow> halts r \<and> (\<forall>x. fst r = Inr x \<longrightarrow> Q x (snd r))"

lemma okay_kreturn [simp]: "okay Q (kreturn x k) = Q x k"
  by (simp add: okay_def)

lemma okay_panic [simp]: "okay Q (Inl Panicked, k)"
  by (simp add: okay_def)

lemma okay_kbind: "okay R r \<Longrightarrow> (\<And>x k'. R x k' \<Longrightarrow> okay Q (f x k')) \<Longrightarrow> okay Q (kbind r f)"
  by (cases r) (auto simp: okay_def kbind_def halts_def split: sum.splits)

lemma okay_quiet: "quiet k (snd r) \<Longrightarrow> halts r \<Longrightarrow> (\<And>k'. quiet k k' \<Longrightarrow> P k') \<Longrightarrow> okay (\<lambda>_. P) r"
  by (simp add: okay_def)

lemma okay_kfor:
  assumes "P k" and "\<And>x k. x \<in> set xs \<Longrightarrow> P k \<Longrightarrow> okay (\<lambda>_. P) (f x k)"
  shows "okay (\<lambda>_. P) (kfor xs f k)"
  using assms
proof (induction xs arbitrary: k)
  case (Cons x xs)
  have "okay (\<lambda>_. P) (f x k)" by (simp add: Cons.prems)
  then show ?case unfolding kfor.simps by (rule okay_kbind) (rule Cons.IH, simp_all add: Cons.prems)
qed simp

lemma fold_live:
  assumes "P k" and "\<And>x k. x \<in> set xs \<Longrightarrow> P k \<Longrightarrow> P (f x k)"
  shows "P (fold f xs k)"
  using assms by (induction xs arbitrary: k) simp_all

section \<open>Interrupts, revocation, teardown\<close>

lemma blocked_not_ready: "is_recv st \<Longrightarrow> st \<noteq> PReady" "peer_need st = Some e \<Longrightarrow> st \<noteq> PReady"
  by (auto simp: is_recv_def peer_need_def)

lemma sized_at: "kinv_but p k \<Longrightarrow> p < MAX_PROCS \<Longrightarrow> proc_shape (proc_at k p)"
  by (simp add: kinv_but_def sized_def)

lemma wake_refused_live: "live_but p c k \<Longrightarrow> p < MAX_PROCS \<Longrightarrow> live_inv c (wake_refused A p k)"
  unfolding wake_refused_def Let_def by (rule wake_live) (simp_all add: live_but_def sized_at)

lemma wake_refused_kinv: "kinv_but p k \<Longrightarrow> p < MAX_PROCS \<Longrightarrow> kinv (wake_refused A p k)"
  unfolding wake_refused_def Let_def by (rule wake_kinv) (simp_all add: sized_at)

lemma credit_one_inv:
  assumes "kinv k" and "i < MAX_PROCS"
  shows "kinv (credit_one A irq i k)"
proof -
  have q: "quiet k (upd_proc i (\<lambda>p. p\<lparr>pr_irq := (pr_irq p)[j := n]\<rparr>) k)" for j n
    by (rule quiet_upd_proc) (simp add: quiet_proc_def)
  moreover have "proc_shape (proc_at k i)" by (rule sized_at [OF kinv_but [OF assms(1)] assms(2)])
  ultimately show ?thesis
    using assms by (auto simp: credit_one_def Let_def intro: quiet_kinv intro!: wake_kinv kinv_but)
qed

lemma credit_one_running:
  assumes "length (k_procs k) = MAX_PROCS" and "running c k"
  shows "running c (credit_one A irq i k)"
proof -
  have keep: "running c (upd_proc i f k)" if "pr_state (f (proc_at k i)) = PReady \<or> pr_state (f (proc_at k i)) = pr_state (proc_at k i)" for f
  proof (rule running_upd [OF assms], rule impI)
    assume "i = c"
    moreover have "pr_state (proc_at k c) = PReady" using assms(2) by (simp add: running_def)
    ultimately show "pr_state (f (proc_at k i)) = PReady" using that by metis
  qed
  have woken: "running c (sched_add i (upd_proc i f k))" if "pr_state (f (proc_at k i)) = PReady" for f
    unfolding running_sched by (rule keep) (rule disjI1, rule that)
  have counted: "running c (upd_proc i (\<lambda>p. p\<lparr>pr_irq := g p\<rparr>) k)" for g
    by (rule keep) (rule disjI2, simp)
  show ?thesis
    unfolding credit_one_def Let_def 
    by (split if_split, intro conjI impI, rule assms(2), split if_split, intro conjI impI, rule woken, simp, rule counted)
qed

lemma credit_inv: "kinv k \<Longrightarrow> kinv (credit_irq A irq k)"
  unfolding credit_irq_def by (auto intro!: fold_live [of kinv] credit_one_inv)

lemma credit_one_live: "live_inv c k \<Longrightarrow> i < MAX_PROCS \<Longrightarrow> live_inv c (credit_one A irq i k)"
  using credit_one_inv [of k i A irq] credit_one_running [of k c A irq i] live_len(1) [of c k] by (simp add: live_inv_def)

lemma credit_live: "live_inv c k \<Longrightarrow> live_inv c (credit_irq A irq k)"
  unfolding credit_irq_def by (auto intro!: fold_live [of "live_inv c"] credit_one_live)

lemma upd_caps_live:
  assumes "live_inv c k" and "CapSpace_capacity (f (pr_caps (proc_at k p))) = CapSpace_capacity (pr_caps (proc_at k p))"
  shows "live_but p c (upd_caps p f k)"
proof -
  have len: "length (k_procs k) = MAX_PROCS" by (rule live_len(1) [OF assms(1)])
  show ?thesis
  proof (cases "p < MAX_PROCS")
    case True
    have "run_slots (upd_caps p f k) = run_slots k"
      using True len by (simp add: upd_caps_def slots_upd run_slot_def) (simp add: run_slots_def run_slot_def proc_at_def list_update_same_conv)
    moreover have "sized (upd_caps p f k)"
      unfolding upd_caps_def using assms len True by (intro sized_upd) (simp_all add: live_inv_def kinv_def sized_def proc_shape_def)
    moreover have "ready (upd_caps p f k) = ready k" using len by (auto simp: ready_def upd_caps_def proc_upd split: if_splits)
    moreover have "running c (upd_caps p f k)"
      using assms len unfolding upd_caps_def by (intro running_upd) (auto simp: live_inv_def running_def)
    ultimately show ?thesis
      using assms len by (simp add: live_but_def live_inv_def kinv_but_def kinv_def queue_ok_def queue_of_def upd_caps_def stranded_upd)
  next
    case False
    then have "upd_caps p f k = k" using len by (simp add: upd_caps_def upd_proc_def list_update_beyond)
    then show ?thesis using live_but [OF assms(1)] by simp
  qed
qed

lemma strip_holder_live:
  assumes "live_inv c k" and "ep_proc d < MAX_PROCS"
  shows "okay (\<lambda>_. live_inv c) (strip_holder A d k)"
proof (cases "pr_state (proc_at k (ep_proc d)) = PFree \<or> pr_id (proc_at k (ep_proc d)) \<noteq> ep_id d")
  case False
  let ?p = "ep_proc d" and ?k1 = "upd_caps (ep_proc d) (CapSpace_revoke (ep_cap d)) k"
  let ?k2 = "if holds_mmio ?k1 ?p then ?k1 else unmap_device_window A ?p ?k1"
  let ?k3 = "fold (strip_share A ?p) [0..<SHARE_SLOTS] ?k2"
  have "live_but ?p c ?k2"
    using upd_caps_live [OF assms(1), of "CapSpace_revoke (ep_cap d)" ?p] capspace.capacity_remove quiet_live_but [OF quiet_device_window [of False ?k1 A ?p]] by simp
  then have "live_but ?p c ?k3" by (rule quiet_live_but [OF quiet_fold, rotated]) simp
  then have "okay (\<lambda>_. live_but ?p c) (strip_dma A ?p ?k3)"
    by (intro okay_quiet [OF quiet_strip_dma halts_withdraw(2)]) (rule quiet_live_but)
  moreover have "live_inv c (let k = fold (strip_irq ?p) [0..<MAX_IRQ_LINES] k' in if stranded k ?p then wake_refused A ?p k else k)"
    if "live_but ?p c k'" for k'
  proof -
    have "live_but ?p c (fold (strip_irq ?p) [0..<MAX_IRQ_LINES] k')" by (rule quiet_live_but [OF quiet_fold that]) simp
    then show ?thesis
      using wake_refused_live [OF _ assms(2)] kinv_from_but by (auto simp: Let_def live_inv_def live_but_def)
  qed
  ultimately show ?thesis
    using False by (auto simp: strip_holder_def Let_def intro: okay_kbind)
qed (simp add: strip_holder_def assms(1))

text \<open>What a revocation reaches are children the ledger recorded; killing edges changes no child.\<close>

lemma revoke_pass_children:
  "revoke_pass root cap out es = (pr, out', es') \<Longrightarrow> map child es' = map child es \<and> set out' \<subseteq> set out \<union> child ` set es"
proof (induction es arbitrary: out pr out' es')
  case (Cons e es)
  then show ?case by (fastforce split: if_splits prod.splits)
qed simp

lemma revoke_loop_children:
  "revoke_loop root cap out es = (out', es') \<Longrightarrow> map child es' = map child es \<and> set out' \<subseteq> set out \<union> child ` set es"
proof (induction root cap out es arbitrary: out' es' rule: revoke_loop.induct)
  case (1 root cap out es)
  obtain pr o1 e1 where p: "revoke_pass root cap out es = (pr, o1, e1)" by (cases "revoke_pass root cap out es")
  note one = revoke_pass_children [OF p]
  have same: "child ` set e1 = child ` set es" using one by (metis image_set)
  show ?case
  proof (cases pr)
    case True
    have "revoke_loop root cap o1 e1 = (out', es')" using True 1(2) p by (simp add: revoke_loop.simps [of root cap out])
    from 1(1) [OF p [symmetric] refl True this] one same show ?thesis by auto
  next
    case False
    then show ?thesis using 1(2) p one by (simp add: revoke_loop.simps [of root cap out])
  qed
qed

lemma splice_children: "map child (edges (Ledger_splice_out p i l)) = map child (edges l)"
proof -
  have rep: "child (reparent inc out) = child out" for inc out by (simp add: reparent_def)
  have kill: "map child (xs[j := (xs ! j)\<lparr>live := False\<rparr>]) = map child xs" for xs :: "Edge list" and j
    by (cases "j < length xs") (simp_all add: map_update list_update_beyond, metis list_update_id nth_map)
  have step: "map child (splice_step p i j es) = map child es" for j es
    by (simp add: splice_step_def Let_def kill rep)
  have "map child (fold (splice_step p i) js es) = map child es" for js es
    by (induction js arbitrary: es) (simp_all add: step)
  moreover have "map child (map (drop_rooted p i) es) = map child es" for es by (simp add: drop_rooted_def)
  ultimately show ?thesis by (simp add: Ledger_splice_out_def del: map_map)
qed

lemma ledger_live:
  assumes "live_inv c k" and "map child (edges l) = map child (edges (k_ledger k))"
  shows "live_inv c (k\<lparr>k_ledger := l\<rparr>)"
  by (rule quiet_live [OF _ assms(1)]) (simp add: quiet_def assms(2) list_all2_refl)

lemma revoke_delegations_live:
  assumes "live_inv c k"
  shows "okay (\<lambda>_. live_inv c) (revoke_delegations A p cap k)"
proof -
  obtain out l where r: "Ledger_revoke_from (endpoint_at k p cap) MAX_DELEGATIONS (k_ledger k) = (out, l)" by fastforce
  then obtain es where "revoke_loop (endpoint_at k p cap) MAX_DELEGATIONS [] (edges (k_ledger k)) = (out, es)" "edges l = es"
    by (auto simp: Ledger_revoke_from_def split: prod.splits)
  from revoke_loop_children [OF this(1)] this(2)
  have ch: "map child (edges l) = map child (edges (k_ledger k))" and out: "set out \<subseteq> child ` set (edges (k_ledger k))" by auto
  have "ep_proc d < MAX_PROCS" if "d \<in> set out" for d
    using that out assms by (auto simp: live_inv_def kinv_def ledger_ok_def)
  then show ?thesis
    unfolding revoke_delegations_def r Let_def prod.case
    by (intro okay_kfor [of "live_inv c"] ledger_live [OF assms ch] strip_holder_live)
qed

text \<open>Teardown: the process leaves, and every peer it strands is woken.\<close>

lemma wake_peer_kinv:
  assumes "kinv k" and "i < MAX_PROCS"
  shows "kinv (wake_stranded_peer A i k)"
  using assms wake_refused_kinv [OF kinv_but [OF assms(1)] assms(2)]
  by (auto simp: wake_stranded_peer_def split: option.split)

lemma wf_leave: "well_formed sl \<Longrightarrow> well_formed (sl[p := run_slot (pr\<lparr>pr_state := PFree\<rparr>)])"
  by (rule well_formed_update_other) (simp_all add: run_slot_def Slot_FREE_def)

lemma idling_keep [simp]:
  "k_idling (sched_add p k) = k_idling k" "k_idling (sched_remove p k) = k_idling k" "k_idling (upd_ledger f k) = k_idling k"
  "k_idling (set_state p st k) = k_idling k" "k_idling (wake_refused A p k) = k_idling k"
  "k_idling (wake_stranded_peer A i k) = k_idling k" "k_idling (upd_frame p g k) = k_idling k"
  by (simp_all add: sched_add_def sched_remove_def upd_ledger_def set_state_def wake_refused_def Let_def
      wake_stranded_peer_def upd_frame_def split: option.split)

lemma quiet_idling: "quiet k k' \<Longrightarrow> k_idling k' = k_idling k"
  by (simp add: quiet_def)

lemma teardown_kinv:
  assumes "kinv k" and "\<not> k_idling k" and "idx < MAX_PROCS"
  shows "okay (\<lambda>_ k. kinv k \<and> \<not> k_idling k) (teardown_process A idx k)"
proof -
  have fin: "kinv (fold (wake_stranded_peer A) [0..<MAX_PROCS] k') \<and> \<not> k_idling (fold (wake_stranded_peer A) [0..<MAX_PROCS] k')"
    if "kinv k'" "\<not> k_idling k'" for k' :: "'a Kernel"
    by (rule fold_live [of "\<lambda>k. kinv k \<and> \<not> k_idling k"]) (use that wake_peer_kinv in auto)
  have leave: "kinv (sched_remove idx (set_state idx PFree k'))" if "kinv k'" for k' :: "'a Kernel"
  proof (rule leave_kinv [OF kinv_but [OF that] assms(3)])
    show "\<not> stranded (set_state idx PFree k') idx"
      using that assms(3) by (simp add: stranded_def set_state_def proc_upd kinv_def)
    show "well_formed ((run_slots k')[idx := run_slot (proc_at k' idx\<lparr>pr_state := PFree\<rparr>)])"
      using that by (intro wf_leave) (simp add: kinv_def)
  qed simp
  have splice: "quiet k' (upd_ledger (Ledger_splice_out p i) (reclaim_frames q k'))" for k' :: "'a Kernel" and p i q
    by (rule quiet_trans [OF quiet_reclaim [of False k' q]]) (simp add: quiet_def upd_ledger_def splice_children list_all2_refl del: set_map)
  have q: "okay (\<lambda>_ k. kinv k \<and> \<not> k_idling k) r" if "kinv k'" "\<not> k_idling k'" "quiet k' (snd r)" "halts r"
    for k' :: "'a Kernel" and r :: "('a, unit) kres"
    using that quiet_kinv quiet_idling by (auto simp: okay_def)
  have tail: "okay (\<lambda>_ k. kinv k \<and> \<not> k_idling k) (let k = reclaim_frames idx k';
               k = upd_ledger (Ledger_splice_out idx (pr_id (proc_at k idx))) k;
               k = sched_remove idx (set_state idx PFree k)
           in kreturn () (fold (wake_stranded_peer A) [0..<MAX_PROCS] k))"
    if "kinv k' \<and> \<not> k_idling k'" for k'
  proof -
    let ?k = "upd_ledger (Ledger_splice_out idx (pr_id (proc_at (reclaim_frames idx k') idx))) (reclaim_frames idx k')"
    have "kinv ?k" "\<not> k_idling ?k" using that quiet_kinv [OF splice] quiet_idling [OF splice] by auto
    then show ?thesis unfolding Let_def okay_kreturn by (intro fin leave) simp_all
  qed
  show ?thesis
    unfolding teardown_process_def Let_def
    by (rule okay_kbind [OF q [OF assms(1,2) quiet_withdraw_all halts_withdraw(1)]], rule okay_kbind [OF q [OF _ _ quiet_destroy(2) halts_destroy(2)]])
      (blast, blast, blast, rule tail [unfolded Let_def])
qed

section \<open>Where a trap leaves the kernel\<close>

definition parked :: "'m Kernel \<Rightarrow> bool" where
  "parked k \<longleftrightarrow> kinv k \<and> k_idling k \<and> queue_of k = {}
     \<and> (\<exists>i<MAX_PROCS. \<exists>line. pr_state (proc_at k i) = BlockedIrq line \<and> creditable k i line)"

definition clean_exit :: "'m Kernel \<Rightarrow> bool" where
  "clean_exit k \<longleftrightarrow> (\<forall>i<MAX_PROCS. pr_state (proc_at k i) = PFree) \<and> finish k"

definition deadlocked :: "'m Kernel \<Rightarrow> bool" where
  "deadlocked k \<longleftrightarrow> (\<exists>i<MAX_PROCS. pr_state (proc_at k i) \<noteq> PFree)
     \<and> (\<forall>i<MAX_PROCS. pr_state (proc_at k i) \<noteq> PFree \<longrightarrow> peer_need (pr_state (proc_at k i)) \<noteq> None)"

definition failed_exit :: "'m Kernel \<Rightarrow> bool" where
  "failed_exit k \<longleftrightarrow> kinv k \<and> (deadlocked k \<or> (\<forall>i<MAX_PROCS. pr_state (proc_at k i) = PFree) \<and> \<not> finish k)"

text \<open>
  Resumed: that process is current and ready. Parked: nobody is ready, and someone can be woken.
  A successful exit: no process is left and every check of the finish passed. A failed one: a check
  did not pass, or every process left waits for a peer.
\<close>

fun good_end :: "Stop \<times> 'm Kernel \<Rightarrow> bool" where
  "good_end (Resumed n, k) = live_inv n k"
| "good_end (Parked, k) = parked k"
| "good_end (Exited b, k) = (if b then clean_exit k else failed_exit k)"
| "good_end (Panicked, k) = True"

definition arm_good :: "'m arm \<Rightarrow> bool" where
  "arm_good r \<longleftrightarrow> (case r of (Inl s, k) \<Rightarrow> good_end (s, k) | (Inr f, k) \<Rightarrow> live_inv (k_current k) k)"

lemma live_current: "live_inv c k \<Longrightarrow> k_current k = c"
  by (simp add: live_inv_def running_def)

lemma arm_good_simps [simp]:
  "arm_good (Inr f, k) = live_inv (k_current k) k" "arm_good (arm_ret A v f k) = live_inv (k_current k) k"
  "arm_good (Inl s, k) = good_end (s, k)"
  by (simp_all add: arm_good_def arm_ret_def)

lemma resume_good: "live_inv n k \<Longrightarrow> good_end (resume_process A n k)"
  using resume_stop [of A n k] quiet_resume [of k A n] by (cases "resume_process A n k") (auto intro: quiet_live)

lemma current_live: "kinv k \<Longrightarrow> k_current k = t \<Longrightarrow> t \<in> queue_of k \<Longrightarrow> \<not> k_idling k \<Longrightarrow> live_inv t k"
  by (auto simp: live_inv_def running_def kinv_def ready_def)

lemma kinv_fields [simp]:
  "kinv (k\<lparr>k_current := t\<rparr>) = kinv k" "kinv (k\<lparr>k_idling := b\<rparr>) = kinv k" "kinv (k\<lparr>k_parks := n\<rparr>) = kinv k"
  "kinv (k\<lparr>k_device_wakes := n\<rparr>) = kinv k" "kinv (k\<lparr>k_killed := n\<rparr>) = kinv k" "kinv (k\<lparr>k_next_id := n\<rparr>) = kinv k"
  by (simp_all add: kinv_def sized_def regions_ok_def ledger_ok_def queue_ok_def queue_of_def ready_def run_slots_def stranded_def holds_endpoint_def
      creditable_def holds_irq_def proc_at_def cong: ProcState.case_cong)

lemma queue_of_fields [simp]:
  "queue_of (k\<lparr>k_current := t\<rparr>) = queue_of k" "queue_of (k\<lparr>k_idling := b\<rparr>) = queue_of k"
  "queue_of (k\<lparr>k_parks := n\<rparr>) = queue_of k" "queue_of (k\<lparr>k_device_wakes := n\<rparr>) = queue_of k"
  by (simp_all add: queue_of_def)

lemma at_fields [simp]:
  "proc_at (k\<lparr>k_current := t\<rparr>) i = proc_at k i" "proc_at (k\<lparr>k_idling := b\<rparr>) i = proc_at k i"
  "proc_at (k\<lparr>k_parks := n\<rparr>) i = proc_at k i" "creditable (k\<lparr>k_current := t\<rparr>) i l = creditable k i l"
  "creditable (k\<lparr>k_idling := b\<rparr>) i l = creditable k i l" "creditable (k\<lparr>k_parks := n\<rparr>) i l = creditable k i l"
  by (simp_all add: proc_at_def creditable_def holds_irq_def)

lemma switch_good:
  assumes "kinv k" and "\<not> k_idling k" and "Scheduler_current (k_sched k) = Some t"
  shows "live_inv t (k\<lparr>k_current := t\<rparr>)"
proof -
  have "t \<in> queue_of k"
    using assms sched_rq.current_mem by (auto simp: queue_of_def kinv_def queue_ok_def)
  then show ?thesis using assms by (intro current_live) simp_all
qed

lemma waiter_slot: "length (k_procs k) = MAX_PROCS \<Longrightarrow>
    irq_waiter (run_slots k) i line \<longleftrightarrow> i < MAX_PROCS \<and> pr_state (proc_at k i) = BlockedIrq line"
  by (auto simp: irq_waiter_def run_slots_def run_slot_def proc_at_def Slot_FREE_def Slot_blocked_def split: ProcState.splits)

lemma no_uncreditable:
  assumes "kinv k"
  shows "uncreditable (run_slots k) (creditable k) = []"
proof -
  have len: "length (k_procs k) = MAX_PROCS" and ok: "\<forall>i<MAX_PROCS. \<not> stranded k i" using assms by (simp_all add: kinv_def)
  have "i \<notin> set (uncreditable (run_slots k) (creditable k))" for i
    using ok [rule_format, of i] by (auto simp: uncreditable_iff waiter_slot [OF len] stranded_def)
  then show ?thesis by (metis list.set_intros(1) neq_Nil_conv)
qed

lemma run_slot_live: "slot_live (run_slot p) \<longleftrightarrow> pr_state p \<noteq> PFree"
  by (simp add: run_slot_def Slot_FREE_def Slot_blocked_def split: ProcState.split)

lemma ran_dry:
  assumes "kinv k" and "\<not> k_idling k"
  shows "good_end (nothing_runnable A k)"
proof (cases "Scheduler_current (k_sched k)")
  case (Some t)
  then show ?thesis
    using resume_good [OF switch_good [OF assms Some]] by (simp add: nothing_runnable_def no_uncreditable [OF assms(1)])
next
  case None
  have len: "length (k_procs k) = MAX_PROCS" using assms(1) by (simp add: kinv_def)
  have empty: "queue_of k = {}"
    using None assms(1) sched_rq.current_None [of "k_sched k"] by (simp add: queue_of_def kinv_def queue_ok_def)
  have "\<exists>i<MAX_PROCS. \<exists>line. pr_state (proc_at k i) = BlockedIrq line \<and> creditable k i line"
    if "classify (run_slots k) (creditable k) = Park"
    using that by (auto simp: classify_eq waiter_slot [OF len] split: if_splits)
  moreover have "pr_state (proc_at k i) = PFree" if "classify (run_slots k) (creditable k) = AllDone" "i < MAX_PROCS" for i
    using that len run_slot_live nth_mem [of i "k_procs k"] by (auto simp: classify_eq run_slots_def proc_at_def split: if_splits)
  moreover have "deadlocked k" if d: "classify (run_slots k) (creditable k) = Deadlock"
  proof -
    have all: "\<not> (irq_waiter (run_slots k) i line \<and> creditable k i line)" for i line
      using d by (auto simp: classify_eq split: if_splits)
    have "peer_need (pr_state (proc_at k i)) \<noteq> None" if i: "i < MAX_PROCS" "pr_state (proc_at k i) \<noteq> PFree" for i
    proof -
      have "pr_state (proc_at k i) \<noteq> PReady" using empty assms(1) i(1) by (auto simp: kinv_def ready_def)
      moreover have "\<forall>line. pr_state (proc_at k i) \<noteq> BlockedIrq line"
        using all [of i] assms(1) i(1) by (auto simp: waiter_slot [OF len] kinv_def stranded_def)
      ultimately show ?thesis using i(2) by (cases "pr_state (proc_at k i)") (simp_all add: peer_need_def)
    qed
    moreover have "\<exists>i<MAX_PROCS. pr_state (proc_at k i) \<noteq> PFree"
      using d len run_slot_live by (auto simp: classify_eq run_slots_def proc_at_def in_set_conv_nth split: if_splits)
    ultimately show ?thesis by (simp add: deadlocked_def)
  qed
  ultimately show ?thesis
    using None empty assms(1)
    by (cases "classify (run_slots k) (creditable k)")
      (auto simp: nothing_runnable_def no_uncreditable [OF assms(1)] parked_def clean_exit_def failed_exit_def)
qed

lemma run_current_good: "kinv k \<Longrightarrow> \<not> k_idling k \<Longrightarrow> good_end (run_current A k)"
  using resume_good [OF switch_good] ran_dry by (auto simp: run_current_def split: option.split)

lemma switch_or_stop_good:
  assumes "kinv k" and "\<not> k_idling k"
  shows "arm_good (switch_or_stop A f k)"
proof (cases "Scheduler_current (k_sched k)")
  case (Some t)
  then show ?thesis using switch_good [OF assms Some] by (simp add: switch_or_stop_def)
next
  case None
  then show ?thesis using ran_dry [OF assms, of A] by (cases "nothing_runnable A k") (simp add: switch_or_stop_def)
qed

lemma arm_kbind:
  assumes "okay R r" and "\<And>x k. R x k \<Longrightarrow> arm_good (f x k)"
  shows "arm_good (kbind r f)"
proof -
  obtain e k where r: "r = (e, k)" by fastforce
  show ?thesis
  proof (cases e)
    case (Inl s)
    then have "s = Panicked" using assms(1) by (simp add: r okay_def halts_def)
    then show ?thesis by (auto simp: r Inl kbind_def)
  next
    case (Inr x)
    then show ?thesis using assms by (simp add: r okay_def kbind_def)
  qed
qed

lemma quiet_current: "quiet k k' \<Longrightarrow> k_current k' = k_current k"
  by (simp add: quiet_def)

lemma quiet_arm: "live_inv c k \<Longrightarrow> quiet k k' \<Longrightarrow> live_inv (k_current k') k'"
  by (metis live_current quiet_current quiet_live)

section \<open>The system calls\<close>

text \<open>A process blocks on what nobody offers the other side of, with the authority for it.\<close>

lemma block_good:
  assumes "live_inv c k" and "st \<noteq> PReady"
    and "well_formed ((run_slots k)[c := run_slot ((proc_at k c)\<lparr>pr_state := st\<rparr>)])"
    and "\<not> stranded (set_state c st k) c"
  shows "kinv (block_on c st f k) \<and> \<not> k_idling (block_on c st f k)"
proof -
  have c: "c < MAX_PROCS" "\<not> k_idling k" "kinv k" using assms(1) by (simp_all add: live_inv_def running_def)
  have "kinv (sched_remove c (set_state c st k))"
    by (rule leave_kinv [OF kinv_but [OF c(3)] c(1) assms(2-4)])
  then show ?thesis unfolding block_on_def using c(2) by (auto intro: quiet_kinv [OF quiet_upd_frame])
qed

lemma next_live:
  assumes "live_inv c k"
  shows "live_inv (k_current (sched_next c k)) (sched_next c k)"
proof -
  have inv: "sched_inv (k_sched k)" and q: "queue_of k = ready k" and c: "c \<in> ready k" and idle: "\<not> k_idling k"
    using assms by (auto simp: live_inv_def kinv_def queue_ok_def running_def ready_def)
  have ne: "sq_len (k_sched k) > 0"
    using c q sched_queue_length [OF inv] unfolding queue_of_def by (metis empty_iff empty_set length_0_conv neq0_conv)
  note nx = scheduler_next_facts [OF inv ne]
  let ?t = "sched_queue (k_sched k) ! ((sq_cur (k_sched k) + 1) mod sq_len (k_sched k))"
  have eq: "sched_next c k = k\<lparr>k_sched := snd (Scheduler_next (k_sched k)), k_current := ?t\<rparr>"
    using nx(5) by (cases "Scheduler_next (k_sched k)") (simp add: sched_next_def)
  have cap: "Scheduler_capacity (snd (Scheduler_next (k_sched k))) = Scheduler_capacity (k_sched k)"
    by (simp add: Scheduler_next_def Scheduler_capacity_def Let_def)
  have "kinv (k\<lparr>k_sched := snd (Scheduler_next (k_sched k))\<rparr>)"
    using assms nx(1,2) cap q by (simp add: live_inv_def kinv_def queue_fields queue_ok_def queue_of_def)
  moreover have "?t \<in> queue_of k"
    using ne sched_queue_length [OF inv] by (simp add: queue_of_def)
  ultimately have "live_inv ?t (sched_next c k)"
    unfolding eq using idle nx(2) by (intro current_live) (simp_all add: queue_fields queue_of_def)
  then show ?thesis using live_current [of ?t "sched_next c k"] by simp
qed

lemma endpoint_held: "endpoint_of k p cap needed = Some e \<Longrightarrow> CapSpace_capacity (pr_caps (proc_at k p)) = CAP_SLOTS \<Longrightarrow> holds_endpoint k p e needed"
  by (auto simp: endpoint_of_def caps_endpoint_object_def holds_endpoint_def caps_hold_endpoint_def caps_any_def list_ex_iff
      CapSpace_lookup_def CapSpace_capacity_def split: option.splits if_splits)

lemma live_stay: "live_inv c k \<Longrightarrow> live_inv (k_current k) k"
  using live_current by blast

lemma live_parts: "live_inv c k \<Longrightarrow> kinv k \<and> \<not> k_idling k \<and> c < MAX_PROCS \<and> pr_state (proc_at k c) = PReady"
  by (simp add: live_inv_def running_def)

lemma find_recv_at:
  assumes "length (k_procs k) = MAX_PROCS" and "find_blocked_recv k e = Some r"
  shows "r < MAX_PROCS \<and> is_recv (pr_state (proc_at k r))"
  using find_recv_SomeD [of "run_slots k" e r] assms
  by (auto simp: find_blocked_recv_def run_slots_def run_slot_def Slot_FREE_def Slot_blocked_def proc_at_def is_recv_def split: ProcState.splits)

lemma find_send_at:
  assumes "length (k_procs k) = MAX_PROCS" and "find_blocked_send k e = Some (s, w, l)"
  shows "s < MAX_PROCS \<and> pr_state (proc_at k s) = BlockedSend e w l"
  using find_send_SomeD [of "run_slots k" e s] assms
  by (auto simp: find_blocked_send_def run_slots_def run_slot_def Slot_FREE_def Slot_blocked_def proc_at_def split: ProcState.splits option.splits)

lemma arm_send_good:
  assumes "live_inv c k"
  shows "arm_good (arm_send A c f k)"
proof -
  have len: "length (k_procs k) = MAX_PROCS" by (rule live_len(1) [OF assms])
  note stay = live_stay [OF assms] and parts = live_parts [OF assms]
  have deliv: "live_inv (k_current k) (deliver A r dst w n bytes k)" if "find_blocked_recv k e = Some r" for r dst w n bytes e
  proof -
    have r: "r < MAX_PROCS" using find_recv_at [OF len that] by simp
    have but: "live_but r (k_current k) (put_msg r bytes k)"
      by (rule quiet_live_but [OF quiet_put_msg live_but [OF stay]])
    show ?thesis
      unfolding deliver_def by (rule wake_live [OF but r]) (use but r in \<open>simp_all add: live_but_def sized_at\<close>)
  qed
  have block: "arm_good (switch_or_stop A f (block_on c (BlockedSend e w l) f (upd_proc c (\<lambda>p. p\<lparr>pr_msg_len := l\<rparr>) (put_msg c bytes k))))"
    if e: "endpoint_of k c cap RIGHTS_WRITE = Some e" and none: "find_blocked_recv k e = None" for e cap w l bytes
  proof -
    let ?k = "upd_proc c (\<lambda>p. p\<lparr>pr_msg_len := l\<rparr>) (put_msg c bytes k)"
    have q: "quiet k ?k" by (rule quiet_trans [OF quiet_put_msg quiet_upd_proc]) (simp add: quiet_proc_def)
    have live: "live_inv c ?k" by (rule quiet_live [OF q assms])
    have "holds_endpoint k c e RIGHTS_WRITE"
      using endpoint_held [OF e] parts by (auto simp: kinv_def sized_def proc_shape_def)
    then have "holds_endpoint ?k c e RIGHTS_WRITE"
      using quiet_at(3) [OF q, of c] parts len by (simp add: holds_endpoint_def less_endpoint)
    then have "\<not> stranded (set_state c (BlockedSend e w l) ?k) c"
      using live_len(1) [OF live] parts by (simp add: stranded_def set_state_def proc_upd holds_endpoint_def)
    moreover have "well_formed ((run_slots ?k)[c := run_slot ((proc_at ?k c)\<lparr>pr_state := BlockedSend e w l\<rparr>)])"
      using none live quiet_slots [OF q] well_formed_update_send [of "run_slots k" e c]
      by (simp add: run_slot_def find_blocked_recv_def live_inv_def kinv_def)
    ultimately show ?thesis using block_good [OF live] switch_or_stop_good by blast
  qed
  show ?thesis
    using stay deliv block live_current [OF assms]
    by (auto simp: arm_send_def Let_def split: option.split prod.split) (metis deliv live_current)+
qed

lemma resume_arm: "live_inv n k \<Longrightarrow> arm_good (case resume_process A n k of (s, k) \<Rightarrow> (Inl s, k))"
  using resume_good [of n k A] by (cases "resume_process A n k") simp

lemma arm_recv_good:
  assumes "live_inv c k"
  shows "arm_good (arm_recv A c f k)"
proof -
  have len: "length (k_procs k) = MAX_PROCS" by (rule live_len(1) [OF assms])
  note stay = live_stay [OF assms] and parts = live_parts [OF assms]
  have bad: "arm_good (case resume_process A c (upd_frame c g k) of (s, k) \<Rightarrow> (Inl s, k))" for g
    by (rule resume_arm) (rule quiet_live [OF quiet_upd_frame assms])
  have copy: "quiet k (snd (copy_out A dst bytes k))" for dst bytes
    by (auto simp: copy_out_def split: prod.split)
  have taken: "arm_good (case copy_out A dst bytes k of (ok, k') \<Rightarrow>
      if ok then (Inr (g n), take_from A s k') else (Inr (h n), k'))"
    if "find_blocked_send k e = Some (s, w, l)" for e s w l dst bytes g h n
  proof -
    obtain ok k' where r: "copy_out A dst bytes k = (ok, k')" by fastforce
    have q: "live_inv (k_current k) k'" using quiet_live [OF copy stay, of dst bytes] r by simp
    have cur: "k_current k' = k_current k" by (rule live_current [OF q])
    have s: "s < MAX_PROCS" using find_send_at [OF len that] by simp
    have "live_inv (k_current k) (take_from A s k')"
      unfolding take_from_def
      by (rule wake_live [OF live_but [OF q] s]) (use live_but [OF q] s in \<open>simp_all add: live_but_def sized_at\<close>)
    then show ?thesis using q cur live_current [of "k_current k" "take_from A s k'"] by (simp add: r)
  qed
  have block: "arm_good (switch_or_stop A f (block_on c (BlockedRecv e d mx) f k))"
    if e: "endpoint_of k c cap RIGHTS_READ = Some e" and none: "find_blocked_send k e = None" for e cap d mx
  proof -
    have "holds_endpoint k c e RIGHTS_READ"
      using endpoint_held [OF e] parts by (auto simp: kinv_def sized_def proc_shape_def)
    then have "\<not> stranded (set_state c (BlockedRecv e d mx) k) c"
      using len parts by (simp add: stranded_def set_state_def proc_upd holds_endpoint_def)
    moreover have "find_send (run_slots k) e = None"
    proof (rule ccontr)
      assume "find_send (run_slots k) e \<noteq> None"
      then obtain i where i: "find_send (run_slots k) e = Some i" by blast
      then obtain w l where "pr_state (proc_at k i) = BlockedSend e w l"
        using find_send_SomeD [OF i] len
        by (auto simp: run_slots_def run_slot_def Slot_FREE_def Slot_blocked_def proc_at_def split: ProcState.splits)
      then show False using none i by (simp add: find_blocked_send_def)
    qed
    then have "well_formed ((run_slots k)[c := run_slot ((proc_at k c)\<lparr>pr_state := BlockedRecv e d mx\<rparr>)])"
      using parts well_formed_update_recv [of "run_slots k" e c] by (simp add: run_slot_def kinv_def)
    ultimately show ?thesis using block_good [OF assms] switch_or_stop_good by blast
  qed
  show ?thesis
    unfolding arm_recv_def Let_def
    using stay bad block taken
    by (auto split: option.split)
qed

lemma caps_insert_live:
  assumes "live_inv c k" and "CapSpace_insert t r ob (pr_caps (proc_at k c)) = Some (i, cs)"
  shows "live_inv c (upd_caps c (\<lambda>_. cs) k)"
proof -
  have cap: "CapSpace_capacity cs = CapSpace_capacity (pr_caps (proc_at k c))"
    using capspace.capacity_insert [of "\<lparr>cap_type = t, rights = r, object = ob\<rparr>"] assms(2) by simp
  have but: "live_but c c (upd_caps c (\<lambda>_. cs) k)" by (rule upd_caps_live [OF assms(1)]) (rule cap)
  then have "\<not> stranded (upd_caps c (\<lambda>_. cs) k) c" by (simp add: live_but_def running_def stranded_def)
  then show ?thesis using but kinv_from_but by (auto simp: live_inv_def live_but_def)
qed

text \<open>A new region takes a free entry and an id no other region has.\<close>

lemma checked_succ: "checked_add (n::u64) 1 = Some nx \<Longrightarrow> n < nx"
  by (auto simp: checked_add_def word_less_nat_alt unat_word_ariths split: if_splits)

lemma live_ids_add:
  assumes "i < length rs" and "\<not> kr_live (rs ! i)" and "distinct (live_ids rs)" and "kr_id r \<notin> set (live_ids rs)"
  shows "distinct (live_ids (rs[i := r]))"
proof -
  have rs: "rs = take i rs @ rs ! i # drop (Suc i) rs" by (rule id_take_nth_drop [OF assms(1)])
  have "live_ids rs = live_ids (take i rs) @ live_ids (drop (Suc i) rs)"
    by (subst rs) (simp add: live_ids_def assms(2))
  then show ?thesis
    using assms(3,4) by (simp add: upd_conv_take_nth_drop [OF assms(1)]) (auto simp: live_ids_def)
qed

lemma add_region_live:
  assumes "live_inv c k" and "checked_add (k_next_region k) 1 = Some nx" and "position (\<lambda>r. \<not> kr_live r) (k_regions k) = Some i"
    and "kr_id r = k_next_region k" and "length (kr_frames r) = REGION_MAX_PAGES" and "kr_npages r \<le> REGION_MAX_PAGES"
  shows "live_inv c (k\<lparr>k_next_region := nx, k_regions := (k_regions k)[i := r]\<rparr>)"
proof -
  let ?rs = "(k_regions k)[i := r]"
  have ok: "regions_ok k" using assms(1) by (simp add: live_inv_def kinv_def sized_def)
  have lt: "k_next_region k < nx" by (rule checked_succ [OF assms(2)])
  have i: "i < length (k_regions k)" "\<not> kr_live (k_regions k ! i)" using position_SomeD [OF assms(3)] by auto
  have "region_shape nx r" using ok lt assms(4-6) by (simp add: region_shape_def regions_ok_def)
  moreover have "region_shape nx x" if "x \<in> set (k_regions k)" for x
    using that ok lt by (auto simp: region_shape_def regions_ok_def)
  moreover have "kr_id r \<notin> set (live_ids (k_regions k))"
    using ok assms(4) by (auto simp: live_ids_def regions_ok_def region_shape_def)
  ultimately have "regions_ok (k\<lparr>k_next_region := nx, k_regions := ?rs\<rparr>)"
    using ok lt live_ids_add [OF i] set_update_subset_insert [of "k_regions k" i r]
    by (auto simp: regions_ok_def)
  then show ?thesis
    using assms(1)
    by (simp add: live_inv_def kinv_def sized_def ledger_ok_def queue_ok_def queue_of_def ready_def run_slots_def stranded_def
      holds_endpoint_def creditable_def holds_irq_def proc_at_def running_def cong: ProcState.case_cong)
qed

lemma take_dma_length: "take_dma_frames A n got s = (Some fs, s') \<Longrightarrow> length fs = n + length got"
proof (induction A n got s arbitrary: fs s' rule: take_dma_frames.induct)
  case (2 A n got fa m)
  then show ?case by (auto split: prod.splits option.splits)
qed auto

lemma make_region_live:
  assumes "live_inv c k" and "unat pages \<le> REGION_MAX_PAGES"
  shows "okay (\<lambda>_. live_inv c) (make_region A c pages rts k)"
proof -
  let ?k = "\<lambda>fa m. k\<lparr>k_fa := fa, k_mach := m\<rparr>"
  have q: "live_inv c (?k fa m)" for fa m
    by (rule quiet_live [OF quiet_trans [OF quiet_fields(8) quiet_fields(2)] assms(1)])
  have fin: "live_inv c (k\<lparr>k_fa := fa, k_mach := m, k_procs := (k_procs k)[c := (k_procs k ! c)\<lparr>pr_caps := cs\<rparr>],
      k_next_region := nx, k_regions := (k_regions k)[i := r]\<rparr>)"
    if "CapSpace_insert CapRegion rts (k_next_region k) (pr_caps (k_procs k ! c)) = Some (cap, cs)"
      "checked_add (k_next_region k) 1 = Some nx" "position (\<lambda>r. \<not> kr_live r) (k_regions k) = Some i"
      "kr_id r = k_next_region k" "length (kr_frames r) = REGION_MAX_PAGES" "kr_npages r \<le> REGION_MAX_PAGES" for fa m cap cs nx i r
  proof -
    have eq: "pr_caps (proc_at (?k fa m) c) = pr_caps (k_procs k ! c)" by (simp add: proc_at_def)
    have "live_inv c (upd_caps c (\<lambda>_. cs) (?k fa m))" by (rule caps_insert_live [OF q]) (use that(1) eq in simp)
    from add_region_live [OF this, of nx i r] that(2-) show ?thesis by (simp add: upd_caps_def upd_proc_def)
  qed
  show ?thesis
    using assms q quiet_live [OF quiet_fields(14) q]
    by (auto simp: make_region_def Let_def proc_at_def upd_caps_def upd_proc_def dest!: take_dma_length
        intro!: fin split: option.split prod.split)
qed

text \<open>SPAWN: a free slot becomes a ready process, whatever its capabilities.\<close>

lemma ledger_add_live:
  assumes "live_inv c k" and "\<forall>e \<in> set (map child (edges (g (k_ledger k)))). ep_proc e < MAX_PROCS"
  shows "live_inv c (upd_ledger g k)"
  using assms
  by (simp add: live_inv_def kinv_def sized_def regions_ok_def ledger_ok_def queue_ok_def queue_of_def ready_def run_slots_def stranded_def
      holds_endpoint_def creditable_def holds_irq_def proc_at_def running_def upd_ledger_def cong: ProcState.case_cong)

lemma record_children: "set (map child (edges (snd (Ledger_record p e l)))) \<subseteq> insert e (set (map child (edges l)))"
  by (auto simp: Ledger_record_def map_update split: option.split dest!: set_update_subset_insert [THEN subsetD])

lemma grant_caps_capacity: "CapSpace_capacity (grant_caps gs (CapSpace_new n)) = n"
proof -
  have "CapSpace_capacity (grant_caps gs cs) = CapSpace_capacity cs" for cs
    unfolding grant_caps_def
  proof (induction gs arbitrary: cs)
    case (Cons g gs)
    obtain t r ob where g: "g = (t, r, ob)" by (cases g)
    show ?case
      using capspace.capacity_insert [of "\<lparr>cap_type = t, rights = r, object = ob\<rparr>" cs]
      by (auto simp: g Cons.IH split: option.split)
  qed simp
  then show ?thesis by (simp add: CapSpace_new_def CapSpace_capacity_def)
qed

lemma spawn_add:
  "sched_add slot (upd_ledger g (upd_caps slot (\<lambda>_. cs) (upd_proc slot F k)))
   = upd_ledger g (sched_add slot (upd_proc slot (\<lambda>p. (F p)\<lparr>pr_caps := cs\<rparr>) k))"
proof -
  have "upd_caps slot (\<lambda>_. cs) (upd_proc slot F k) = upd_proc slot (\<lambda>p. (F p)\<lparr>pr_caps := cs\<rparr>) k"
    by (cases "slot < length (k_procs k)") (simp_all add: upd_caps_def upd_proc_def list_update_beyond)
  then show ?thesis by (simp add: sched_add_def upd_ledger_def)
qed

lemma grant_object_fields [simp]: "grant_object (k\<lparr>k_fa := x, k_mach := m\<rparr>) = grant_object k"
    "mint_extent (k\<lparr>k_fa := x, k_mach := m\<rparr>) = mint_extent k"
  by (simp_all add: grant_object_def mint_extent_def fun_eq_iff)

text \<open>The three ends of a load: the slot is written whole, nothing is, or a grant trips the assertion.\<close>

lemma load_cases:
  obtains (loaded) F k1 where "load_process A slot i role fa kt elf k = (Inr True, upd_proc slot F k1)" and "quiet k k1"
      and "k_fa k1 \<noteq> None" and "grant_object k1 = grant_object k" and "\<And>p. pr_state (F p) = PReady" and "\<And>p. proc_shape (F p)"
      and "\<And>p. pr_caps (F p) = grant_caps (map (grant_object k) (grants_for role)) (CapSpace_new CAP_SLOTS)"
      and "k_procs k1 = k_procs k" and "\<exists>entry. \<forall>p. pr_frame (F p) = a_frame_init A entry (a_user_stack_top A) i"
  | (failed) k1 where "load_process A slot i role fa kt elf k = (Inr False, k1)" and "quiet k k1" and "k_procs k1 = k_procs k"
  | (tripped) k1 where "load_process A slot i role fa kt elf k = (Inl Panicked, k1)" and "list_ex (mint_extent k) (grants_for role)"
proof (cases "list_ex undeliverable (grants_for role)")
  case True
  then show thesis by (intro failed [of k]) (simp_all add: load_process_def kreturn_def)
next
  case deliverable: False
  let ?s = "(\<lparr>rec_inner = fa, rec_frames = replicate MAX_PROC_FRAMES 0, rec_n = 0\<rparr>, k_mach k)"
  obtain b rc m where b: "build_space A kt elf ?s = (b, rc, m)" by (metis prod_cases3)
  have q: "quiet k (k\<lparr>k_fa := x, k_mach := m\<rparr>)" for x by (rule quiet_trans [OF quiet_fields(8) quiet_fields(2)])
  show thesis
  proof (cases b)
    case None
    then show thesis by (intro failed [OF _ q]) (simp_all add: load_process_def b kreturn_def deliverable)
  next
    case (Some te)
    obtain token entry where te: "te = (token, entry)" by fastforce
    let ?F = "\<lambda>p. p\<lparr>pr_caps := grant_caps (map (grant_object k) (grants_for role)) (CapSpace_new CAP_SLOTS),
                 pr_role := role, pr_id := i, pr_msg_len := 0, pr_irq := replicate MAX_IRQ_LINES 0,
                 pr_shares := replicate SHARE_SLOTS 0, pr_dma := replicate SHARE_SLOTS (0, 0), pr_pending_len := 0,
                 pr_token := token, pr_frame := a_frame_init A entry (a_user_stack_top A) i,
                 pr_frames := rec_frames rc, pr_nframes := rec_n rc, pr_state := PReady\<rparr>"
    show thesis
    proof (cases "list_ex (mint_extent k) (grants_for role)")
      case True
      then show thesis by (intro tripped) (simp_all add: load_process_def b Some te deliverable)
    next
      case False
      then show thesis
        by (intro loaded [of ?F "k\<lparr>k_fa := Some (rec_inner rc), k_mach := m\<rparr>"] q) (simp_all add: load_process_def b Some te kreturn_def deliverable grant_caps_capacity proc_shape_def exI [of _ entry])
    qed
  qed
qed

lemma load_child:
  obtains (loaded) F k1 where "load_process A slot i Child fa kt elf k = (Inr True, upd_proc slot F k1)" and "quiet k k1"
      and "\<And>p. pr_state (F p) = PReady" and "\<And>p. proc_shape (F p)"
  | (failed) k1 where "load_process A slot i Child fa kt elf k = (Inr False, k1)" and "quiet k k1"
  by (rule load_cases [of A slot i Child fa kt elf k]) (auto intro: that)

lemma spawned_live:
  assumes "live_inv c k" and "slot < MAX_PROCS" and "\<And>p. pr_state (F p) = PReady"
    and "\<And>p. proc_shape (F p)"
  shows "live_inv c (sched_add slot (hand_over cur cap slot i dlg (upd_proc slot F k)))"
proof -
  have base: "live_inv c (sched_add slot (upd_proc slot G k))"
    if "\<And>p. pr_state (G p) = PReady" "proc_shape (G (proc_at k slot))" for G
    by (rule wake_live [OF live_but [OF assms(1)] assms(2)]) (simp_all add: that)
  have len: "length (k_procs k) = MAX_PROCS" by (rule live_len(1) [OF assms(1)])
  have at: "proc_at (upd_proc slot F k) slot = F (proc_at k slot)" using len assms(2) by (simp add: proc_upd)
  have insd: "live_inv c (sched_add slot (upd_ledger (\<lambda>l. snd (Ledger_record e (DEndpoint_new slot i cc) l)) (upd_caps slot (\<lambda>_. cs) (upd_proc slot F k))))"
    if ins: "CapSpace_insert t r ob (pr_caps (F (proc_at k slot))) = Some (cc, cs)" for t r ob cc cs e
  proof -
    have "proc_shape ((F (proc_at k slot))\<lparr>pr_caps := cs\<rparr>)"
      using capspace.capacity_insert [of "\<lparr>cap_type = t, rights = r, object = ob\<rparr>"] ins assms(4) by (simp add: proc_shape_def)
    then have live: "live_inv c (sched_add slot (upd_proc slot (\<lambda>p. (F p)\<lparr>pr_caps := cs\<rparr>) k))"
      by (intro base) (simp_all add: assms(3))
    show ?thesis
      unfolding spawn_add
    proof (rule ledger_add_live [OF live], rule ballI)
      fix d assume "d \<in> set (map child (edges (snd (Ledger_record e (DEndpoint_new slot i cc) (k_ledger (sched_add slot (upd_proc slot (\<lambda>p. (F p)\<lparr>pr_caps := cs\<rparr>) k)))))))"
      then have "d = DEndpoint_new slot i cc \<or> d \<in> set (map child (edges (k_ledger k)))"
        using record_children by (fastforce simp: sched_add_def upd_proc_def)
      then show "ep_proc d < MAX_PROCS"
        using assms(1,2) by (auto simp: DEndpoint_new_def live_inv_def kinv_def ledger_ok_def)
    qed
  qed
  show ?thesis
    using base [of F] assms(3,4) insd by (auto simp: hand_over_def at split: option.split)
qed

lemma arm_spawn_good:
  assumes "live_inv c k"
  shows "arm_good (arm_spawn A c f k)"
proof -
  have len: "length (k_procs k) = MAX_PROCS" by (rule live_len(1) [OF assms])
  note stay = live_stay [OF assms]
  let ?k = "k\<lparr>k_next_id := k_next_id k + 1\<rparr>"
  have live: "live_inv c ?k"
    using assms kinv_fields(6) by (simp add: live_inv_def running_def proc_at_def)
  have go: "arm_good (kbind (case k_fa ?k of Some fa \<Rightarrow> load_process A slot (k_next_id k) Child fa (k_token ?k) (k_user_elf ?k) ?k
                       | None \<Rightarrow> kreturn False ?k)
                  (\<lambda>loaded k'. if loaded
                     then arm_ret A (k_next_id k) f (sched_add slot (hand_over c cap slot (k_next_id k) dlg k'))
                     else arm_ret A spawn_NO_MEM f k'))" if slot: "slot < MAX_PROCS" for slot cap dlg
  proof (cases "k_fa ?k")
    case None
    then show ?thesis using live_stay [OF live] by (simp add: kbind_def kreturn_def)
  next
    case (Some fa)
    show ?thesis
    proof (rule load_child [of A slot "k_next_id k" fa "k_token ?k" "k_user_elf ?k" ?k])
      fix F k1
      assume l: "load_process A slot (k_next_id k) Child fa (k_token ?k) (k_user_elf ?k) ?k = (Inr True, upd_proc slot F k1)"
        and q: "quiet ?k k1" and F: "\<And>p. pr_state (F p) = PReady" "\<And>p. proc_shape (F p)"
      have "live_inv c (sched_add slot (hand_over c cap slot (k_next_id k) dlg (upd_proc slot F k1)))"
        by (rule spawned_live [OF quiet_live [OF q live] slot F])
      then show ?thesis using Some l live_stay by (simp add: kbind_def) 
    next
      fix k1
      assume "load_process A slot (k_next_id k) Child fa (k_token ?k) (k_user_elf ?k) ?k = (Inr False, k1)" "quiet ?k k1"
      then show ?thesis using Some live_stay [OF quiet_live [OF _ live]] by (simp add: kbind_def)
    qed
  qed
  have "slot < MAX_PROCS" if "spawn_slot k a d = Inr slot" for a d slot
    using that position_SomeD(1) [of "\<lambda>p. pr_state p = PFree" "k_procs k" slot] len
    by (auto simp: spawn_slot_def split: if_splits option.splits)
  then show ?thesis
    using stay go by (auto simp: arm_spawn_def Let_def split: sum.split)
qed

lemma arm_wait_irq_good:
  assumes "live_inv c k"
  shows "arm_good (arm_wait_irq A c f k)"
proof -
  have len: "length (k_procs k) = MAX_PROCS" by (rule live_len(1) [OF assms])
  note stay = live_stay [OF assms] and parts = live_parts [OF assms]
  have q: "live_inv (k_current k) (upd_proc c (\<lambda>p. p\<lparr>pr_irq := (pr_irq p)[i := n]\<rparr>) k)" for i n
    by (rule quiet_live [OF quiet_upd_proc stay]) (simp add: quiet_proc_def)
  have block: "arm_good (case run_current A (block_on c (BlockedIrq line) f k) of (s, k) \<Rightarrow> (Inl s, k))"
    if l: "caps_irq_line (pr_caps (proc_at k c)) cap = Some line" "delivers_irq line" for cap line
  proof -
    have "CapSpace_capacity (pr_caps (proc_at k c)) = CAP_SLOTS" using parts by (simp add: kinv_def sized_def proc_shape_def)
    then have "holds_irq k c line"
      using l(1) by (auto simp: holds_irq_def caps_irq_line_def caps_hold_irq_def caps_any_def list_ex_iff
          CapSpace_lookup_def CapSpace_capacity_def split: option.splits if_splits)
    then have "\<not> stranded (set_state c (BlockedIrq line) k) c"
      using l(2) len parts by (simp add: stranded_def set_state_def proc_upd creditable_def holds_irq_def)
    moreover have "well_formed ((run_slots k)[c := run_slot ((proc_at k c)\<lparr>pr_state := BlockedIrq line\<rparr>)])"
      using parts by (intro well_formed_update_other) (simp_all add: run_slot_def Slot_blocked_def kinv_def)
    ultimately have "good_end (run_current A (block_on c (BlockedIrq line) f k))"
      using block_good [OF assms, of "BlockedIrq line" f] run_current_good by blast
    then show ?thesis by (cases "run_current A (block_on c (BlockedIrq line) f k)") simp
  qed
  show ?thesis
    unfolding arm_wait_irq_def Let_def using stay q block by (auto split: option.split simp: live_current [OF q])
qed

lemma arm_poll_irq_good: "live_inv c k \<Longrightarrow> arm_good (arm_poll_irq A c f k)"
proof -
  assume live: "live_inv c k"
  have "live_inv (k_current k) (upd_proc c (\<lambda>p. p\<lparr>pr_irq := (pr_irq (proc_at k c))[i := n]\<rparr>) k)" for i n
    by (rule quiet_live [OF quiet_upd_at live_stay [OF live]]) (simp add: quiet_proc_def)
  then show ?thesis
    using live_stay [OF live] by (simp add: arm_poll_irq_def Let_def collect_irq_def split: option.split prod.split)
qed

text \<open>The calls whose whole effect is quiet.\<close>

lemma quiet_pair_arm: "live_inv c k \<Longrightarrow> quiet k (snd r) \<Longrightarrow> arm_good (case r of (ret, k') \<Rightarrow> arm_ret A (g ret) f k')"
  by (cases r) (simp add: quiet_arm)

lemma quiet_kres_arm: "live_inv c k \<Longrightarrow> quiet k (snd r) \<Longrightarrow> halts r \<Longrightarrow> arm_good (kbind r (\<lambda>ret. arm_ret A (g ret) f))"
  by (rule arm_kbind [of "\<lambda>_ k'. live_inv (k_current k') k'"]) (auto simp: okay_def intro: quiet_arm)

lemma arm_quiet_good:
  assumes "live_inv c k"
  shows "arm_good (arm_map_region A c f k)" "arm_good (arm_unmap_region A c f k)" "arm_good (arm_map_dma A c f k)"
    "arm_good (arm_unmap_dma A c f k)" "arm_good (arm_free_region A c f k)" "arm_good (arm_host A c f k)"
proof -
  note stay = live_stay [OF assms] and pair = quiet_pair_arm [OF assms] and res = quiet_kres_arm [OF assms]
  show "arm_good (arm_map_region A c f k)"
    unfolding arm_map_region_def by (auto split: option.split simp: stay intro!: pair)
  show "arm_good (arm_unmap_region A c f k)"
    unfolding arm_unmap_region_def by (auto split: option.split simp: stay intro!: pair)
  show "arm_good (arm_map_dma A c f k)"
    unfolding arm_map_dma_def by (auto split: option.split simp: stay intro!: pair)
  show "arm_good (arm_unmap_dma A c f k)"
    unfolding arm_unmap_dma_def by (auto split: option.split simp: stay intro!: res)
  show "arm_good (arm_free_region A c f k)"
    unfolding arm_free_region_def using live_parts [OF assms]
    by (auto split: option.split simp: stay intro!: res halts_destroy)
  show "arm_good (arm_host A c f k)"
    unfolding arm_host_def by (rule pair) simp
qed

lemma live_okay_arm: "okay (\<lambda>_. live_inv c) r \<Longrightarrow> arm_good (kbind r (\<lambda>x. arm_ret A (g x) f))"
  by (rule arm_kbind [of "\<lambda>_. live_inv c"]) (auto intro: live_stay)

lemma syscall_arm_good:
  assumes "live_inv c k"
  shows "arm_good (syscall_arm A c f k)"
proof -
  have y: "arm_good (arm_yield c f k)" using next_live [OF assms] by (simp add: arm_yield_def)
  have x: "arm_good (arm_exit A c f k)"
    unfolding arm_exit_def
    by (rule arm_kbind [OF teardown_kinv]) (use live_parts [OF assms] switch_or_stop_good in auto)
  have m: "arm_good (arm_make_region A c f k)"
    using live_stay [OF assms] by (auto simp: arm_make_region_def Let_def intro!: live_okay_arm make_region_live [OF assms])
  have r: "arm_good (arm_revoke A c f k)"
    using live_stay [OF assms] by (auto simp: arm_revoke_def Let_def split: option.split intro!: live_okay_arm revoke_delegations_live assms)
  show ?thesis
    unfolding syscall_arm_def Let_def
    using y x m r arm_send_good [OF assms] arm_recv_good [OF assms] arm_spawn_good [OF assms] arm_wait_irq_good [OF assms]
      arm_poll_irq_good [OF assms] arm_quiet_good [OF assms] by simp
qed

section \<open>The traps\<close>

lemma syscall_good:
  assumes "live_inv (k_current k) k"
  shows "good_end (syscall_trap A words k)"
proof -
  obtain e k' where r: "syscall_arm A (k_current k) (snapshot A words UserFrame_ZERO) k = (e, k')" by fastforce
  have g: "arm_good (e, k')" using syscall_arm_good [OF assms, of A "snapshot A words UserFrame_ZERO"] r by simp
  show ?thesis
  proof (cases e)
    case (Inl s)
    then show ?thesis using g by (simp add: syscall_trap_def Let_def r)
  next
    case (Inr f)
    have live: "live_inv (k_current k') k'" using g by (simp add: Inr)
    have "live_inv (k_current k') (upd_frame (k_current k) (\<lambda>_. f) k')" by (rule quiet_live [OF quiet_upd_frame live])
    then show ?thesis using live_current by (auto simp: syscall_trap_def Let_def r Inr intro!: resume_good live_stay)
  qed
qed

lemma preempt_good:
  assumes "live_inv (k_current k) k"
  shows "good_end (preempt_trap A words k)"
proof -
  let ?c = "k_current k"
  let ?k = "upd_mach (a_end_of_interrupt A) (upd_frame ?c (snapshot A words) k)"
  have q: "quiet k ?k" by (rule quiet_trans [OF quiet_upd_frame quiet_fields(1)])
  have "live_inv ?c (credit_irq A IRQ_TIMER ?k)" by (rule credit_live [OF quiet_live [OF q assms]])
  from next_live [OF this] show ?thesis
    using live_parts [OF assms] by (simp add: preempt_trap_def Let_def resume_good)
qed

lemma device_good:
  assumes "live_inv (k_current k) k"
  shows "good_end (device_trap A words k)"
proof -
  let ?c = "k_current k"
  let ?k = "upd_mach (a_console_irq_ack A) (upd_frame ?c (snapshot A words) k)"
  have q: "quiet k ?k" by (rule quiet_trans [OF quiet_upd_frame quiet_fields(1)])
  have live: "live_inv ?c (credit_irq A IRQ_CONSOLE ?k)" by (rule credit_live [OF quiet_live [OF q assms]])
  from next_live [OF live] live show ?thesis
    using live_parts [OF assms] by (simp add: device_trap_def Let_def resume_good)
qed

lemma fault_good:
  assumes "live_inv (k_current k) k"
  shows "good_end (fault_trap A k)"
proof -
  have parts: "kinv (k\<lparr>k_killed := k_killed k + 1\<rparr>)" "\<not> k_idling (k\<lparr>k_killed := k_killed k + 1\<rparr>)" "k_current k < MAX_PROCS"
    using live_parts [OF assms] by simp_all
  obtain e k' where r: "teardown_process A (k_current k) (k\<lparr>k_killed := k_killed k + 1\<rparr>) = (e, k')" by fastforce
  have ok: "okay (\<lambda>_ k. kinv k \<and> \<not> k_idling k) (e, k')" using teardown_kinv [OF parts, of A] r by simp
  show ?thesis
  proof (cases e)
    case (Inl s)
    then have "s = Panicked" using ok by (simp add: okay_def halts_def)
    then show ?thesis by (auto simp: fault_trap_def Let_def r Inl)
  next
    case (Inr u)
    then show ?thesis using ok run_current_good [of k' A] by (simp add: fault_trap_def Let_def r okay_def)
  qed
qed

text \<open>An interrupt taken while parked: whoever it wakes runs, and otherwise somebody is still waiting.\<close>

lemma credit_one_idling [simp]: "k_idling (credit_irq A irq k) = k_idling k"
proof -
  have "k_idling (credit_one A irq i k) = k_idling k" for i k by (simp add: credit_one_def Let_def)
  then have "k_idling (fold (credit_one A irq) is k) = k_idling k" for "is" by (induction "is" arbitrary: k) simp_all
  then show ?thesis by (simp add: credit_irq_def)
qed

lemma idle_credit:
  assumes "parked k" and "Scheduler_current (k_sched (credit_irq A irq k)) = None"
  shows "parked (credit_irq A irq k)"
proof -
  let ?k = "credit_irq A irq k"
  have inv: "kinv k" "k_idling k" using assms(1) by (simp_all add: parked_def)
  have inv': "kinv ?k" by (rule credit_inv [OF inv(1)])
  have empty: "queue_of ?k = {}"
    using assms(2) inv' sched_rq.current_None [of "k_sched ?k"] by (simp add: queue_of_def kinv_def queue_ok_def)
  obtain i line where i: "i < MAX_PROCS" "pr_state (proc_at k i) = BlockedIrq line" using assms(1) by (auto simp: parked_def)
  have step: "kinv k \<and> (pr_state (proc_at k i) = BlockedIrq line \<or> pr_state (proc_at k i) = PReady)
      \<Longrightarrow> j < MAX_PROCS \<Longrightarrow> kinv (credit_one A irq j k) \<and> (pr_state (proc_at (credit_one A irq j k) i) = BlockedIrq line
        \<or> pr_state (proc_at (credit_one A irq j k) i) = PReady)" for j k
    using credit_one_inv [of k j A irq] i(1)
    by (auto simp: credit_one_def Let_def sched_add_def proc_upd kinv_def)
  have "kinv ?k \<and> (pr_state (proc_at ?k i) = BlockedIrq line \<or> pr_state (proc_at ?k i) = PReady)"
    unfolding credit_irq_def
    using inv(1) i(2) fold_live [of "\<lambda>k. kinv k \<and> (pr_state (proc_at k i) = BlockedIrq line \<or> pr_state (proc_at k i) = PReady)" k "[0..<MAX_PROCS]" "credit_one A irq"] step
    by simp
  moreover have "pr_state (proc_at ?k i) \<noteq> PReady" using empty inv' i(1) by (auto simp: kinv_def ready_def)
  ultimately have "pr_state (proc_at ?k i) = BlockedIrq line" by blast
  moreover have "\<not> stranded ?k i" using inv' i(1) by (simp add: kinv_def)
  ultimately have "creditable ?k i line" by (simp add: stranded_def)
  then show ?thesis using inv' inv(2) empty i(1) \<open>pr_state (proc_at ?k i) = BlockedIrq line\<close> by (auto simp: parked_def)
qed

lemma wake_from_park:
  assumes "parked k"
  shows "good_end (case Scheduler_current (k_sched (credit_irq A irq k)) of
      Some t \<Rightarrow> resume_process A t ((credit_irq A irq k)\<lparr>k_idling := False, k_current := t\<rparr>)
    | None \<Rightarrow> (Parked, credit_irq A irq k))"
proof (cases "Scheduler_current (k_sched (credit_irq A irq k))")
  case None
  then show ?thesis using idle_credit [OF assms None] by simp
next
  case (Some t)
  have "kinv ((credit_irq A irq k)\<lparr>k_idling := False\<rparr>)"
    using assms credit_inv [of k A irq] by (simp add: parked_def)
  from switch_good [OF this, of t] Some show ?thesis by (simp add: resume_good)
qed

lemma parked_mach: "parked k \<Longrightarrow> parked (upd_mach f k)"
  unfolding parked_def using quiet_kinv [OF quiet_fields(1) [of False k f]]
  by (simp add: upd_mach_def queue_of_def proc_at_def creditable_def holds_irq_def)

lemma idle_preempt_good: "parked k \<Longrightarrow> good_end (preempt_trap A words k)"
  using wake_from_park [OF parked_mach, of k A IRQ_TIMER "a_end_of_interrupt A"] by (simp add: preempt_trap_def Let_def parked_def)

lemma idle_device_good:
  assumes "parked k"
  shows "good_end (device_trap A words k)"
proof -
  let ?k = "credit_irq A IRQ_CONSOLE (upd_mach (a_console_irq_ack A) k)"
  have p: "parked (upd_mach (a_console_irq_ack A) k)" by (rule parked_mach [OF assms])
  show ?thesis
  proof (cases "Scheduler_current (k_sched ?k)")
    case None
    then show ?thesis using idle_credit [OF p None] assms by (simp add: device_trap_def Let_def parked_def)
  next
    case (Some t)
    have "kinv (?k\<lparr>k_idling := False, k_device_wakes := k_device_wakes ?k + 1\<rparr>)"
      using p credit_inv [of "upd_mach (a_console_irq_ack A) k" A IRQ_CONSOLE] by (simp add: parked_def)
    from switch_good [OF this, of t] Some assms show ?thesis
      by (simp add: device_trap_def Let_def parked_def resume_good)
  qed
qed

section \<open>Every reachable state\<close>

text \<open>
  One step of the machine under the kernel: a running process changes its own memory and registers or
  traps, an interrupt arrives, or it faults; a parked machine takes an interrupt.
\<close>

inductive kstep :: "'m Arch \<Rightarrow> Stop \<times> 'm Kernel \<Rightarrow> Stop \<times> 'm Kernel \<Rightarrow> bool" for A where
  compute: "kstep A (Resumed n, k) (Resumed n, k\<lparr>k_mach := m\<rparr>)"
| syscall: "kstep A (Resumed n, k) (syscall_trap A words k)"
| timer: "kstep A (Resumed n, k) (preempt_trap A words k)"
| device: "kstep A (Resumed n, k) (device_trap A words k)"
| fault: "kstep A (Resumed n, k) (fault_trap A k)"
| idle_timer: "kstep A (Parked, k) (preempt_trap A words k)"
| idle_device: "kstep A (Parked, k) (device_trap A words k)"

inductive_cases kstep_stopped: "kstep A (Exited b, k) s" "kstep A (Panicked, k) s"

lemma kstep_good:
  assumes "kstep A s s'" and "good_end s"
  shows "good_end s'"
  using assms
proof (cases rule: kstep.cases)
  case (compute n k m)
  then show ?thesis using assms(2) quiet_live [OF quiet_fields(2)] by auto
next
  case (syscall n k words)
  then show ?thesis using assms(2) live_stay syscall_good by fastforce
next
  case (timer n k words)
  then show ?thesis using assms(2) live_stay preempt_good by fastforce
next
  case (device n k words)
  then show ?thesis using assms(2) live_stay device_good by fastforce
next
  case (fault n k)
  then show ?thesis using assms(2) live_stay fault_good by fastforce
next
  case (idle_timer k words)
  then show ?thesis using assms(2) idle_preempt_good by simp
next
  case (idle_device k words)
  then show ?thesis using assms(2) idle_device_good by simp
qed

lemma kreach_good: "(kstep A)\<^sup>*\<^sup>* s s' \<Longrightarrow> good_end s \<Longrightarrow> good_end s'"
  by (induction rule: rtranclp_induct) (auto intro: kstep_good)

end
