(* ===== verification/Klaunch.thy ===== *)
theory Klaunch
  imports Kinv
begin

text \<open>
  Starting userland (the end of \<open>run\<close> in src/crates/kernel/src/lib.rs) and what holds ever after: the
  invariant is established by the launch of the initial processes and kept by every step, whatever
  the processes do, so its consequences hold in every state the machine can reach.
\<close>

section \<open>The launch\<close>

text \<open>
  The allocator is a local of \<open>run\<close> until the processes are loaded and the static afterwards; it is kept
  in the same field throughout. \<open>start\<close> is what arming the timer and the console line does to the machine.
\<close>

definition load_boot :: "'m Arch \<Rightarrow> u64 \<Rightarrow> u8 list \<Rightarrow> usize \<Rightarrow> 'm Kernel \<Rightarrow> ('m, unit) kres" where
  "load_boot A ktoken elf i k = (case k_fa k of
     None \<Rightarrow> (Inl Panicked, k)
   | Some fa \<Rightarrow> kbind (load_process A i (of_nat i) (boot_role (of_nat i)) fa ktoken elf k)
       (\<lambda>ok k. if ok then kreturn () (sched_add i k) else (Inl Panicked, k)))"

definition launch :: "'m Arch \<Rightarrow> ('m \<Rightarrow> 'm) \<Rightarrow> BitmapAllocator \<Rightarrow> u64 \<Rightarrow> u8 list \<Rightarrow> 'm Kernel \<Rightarrow> Stop \<times> 'm Kernel" where
  "launch A start fa ktoken elf k =
     (case kfor [0..<NUM_PROCS] (load_boot A ktoken elf)
             (k\<lparr>k_user_elf := elf, k_token := ktoken, k_free_at_start := ba_free fa, k_fa := Some fa\<rparr>) of
        (Inl s, k) \<Rightarrow> (s, k)
      | (Inr _, k) \<Rightarrow> (case Scheduler_current (k_sched k) of
           None \<Rightarrow> (Panicked, k)
         | Some first \<Rightarrow> resume_process A first (upd_mach start (k\<lparr>k_current := first\<rparr>))))"

text \<open>A kernel before the launch: the process side of the statics is as initialised; devices may be set up.\<close>

definition cold :: "'m Kernel \<Rightarrow> bool" where
  "cold k \<longleftrightarrow> k_procs k = replicate MAX_PROCS Process_EMPTY \<and> k_sched k = Scheduler_new MAX_PROCS
     \<and> k_ledger k = Ledger_new MAX_DELEGATIONS \<and> k_regions k = replicate MAX_REGIONS KRegion_EMPTY
     \<and> k_next_region k = 1 \<and> \<not> k_idling k"

lemma cold_statics: "cold (Kernel_statics m)"
  by (simp add: cold_def Kernel_statics_def)

lemma Process_EMPTY_shape [simp]: "proc_shape Process_EMPTY" "pr_state Process_EMPTY = PFree"
  by (simp_all add: proc_shape_def Process_EMPTY_def CapSpace_new_def CapSpace_capacity_def)

lemma replicate_at: "k_procs k = replicate MAX_PROCS p \<Longrightarrow> i < MAX_PROCS \<Longrightarrow> proc_at k i = p"
  by (simp add: proc_at_def)

lemma wf_all_free: "well_formed (replicate n Slot_FREE)"
proof -
  have "well_formed_from sl (replicate m Slot_FREE)" for sl m
    by (induction m) (simp_all add: Slot_FREE_def)
  then show ?thesis by (simp add: well_formed_def)
qed

lemma queue_new: "sched_inv (Scheduler_new n)" "sched_queue (Scheduler_new n) = []" "Scheduler_capacity (Scheduler_new n) = n"
  by (simp_all add: Scheduler_new_def sched_inv_def sched_queue_def Scheduler_capacity_def)

lemma cold_kinv:
  assumes "cold k"
  shows "kinv k" and "\<not> k_idling k"
proof -
  have at: "proc_at k i = Process_EMPTY" if "i < MAX_PROCS" for i
    using assms that by (intro replicate_at) (simp add: cold_def)
  have "ledger_ok k" using assms by (auto simp: ledger_ok_def cold_def Ledger_new_def DEAD_def DEndpoint_new_def MAX_PROCS_def)
  moreover have "sized k"
    using assms at by (auto simp: sized_def cold_def regions_ok_def live_ids_def)
  moreover have "queue_ok k" "queue_of k = ready k"
    using assms at by (auto simp: queue_ok_def queue_of_def cold_def queue_new ready_def)
  moreover have "run_slots k = replicate MAX_PROCS Slot_FREE"
    using assms by (simp add: run_slots_def cold_def run_slot_def)
  ultimately show "kinv k"
    using assms at by (simp add: kinv_def wf_all_free cold_def stranded_def)
  show "\<not> k_idling k" using assms by (simp add: cold_def)
qed

lemma load_boot_kinv:
  assumes "kinv k \<and> \<not> k_idling k" and "i < MAX_PROCS"
  shows "okay (\<lambda>_ k. kinv k \<and> \<not> k_idling k) (load_boot A kt elf i k)"
proof (cases "k_fa k")
  case (Some fa)
  show ?thesis
  proof (rule load_cases [of A i "of_nat i" "boot_role (of_nat i)" fa kt elf k])
    fix F k1
    assume l: "load_process A i (of_nat i) (boot_role (of_nat i)) fa kt elf k = (Inr True, upd_proc i F k1)"
      and q: "quiet k k1" and F: "\<And>p. pr_state (F p) = PReady" "\<And>p. proc_shape (F p)"
    have "kinv (sched_add i (upd_proc i F k1))"
      using assms F by (intro wake_kinv kinv_but quiet_kinv [OF q]) simp_all
    moreover have "\<not> k_idling (sched_add i (upd_proc i F k1))"
      using assms(1) quiet_idling [OF q] by (simp add: sched_add_def upd_proc_def)
    ultimately show ?thesis by (simp add: load_boot_def Some l kbind_def)
  next
    fix k1
    assume "load_process A i (of_nat i) (boot_role (of_nat i)) fa kt elf k = (Inr False, k1)"
    then show ?thesis by (simp add: load_boot_def Some kbind_def)
  next
    fix k1
    assume "load_process A i (of_nat i) (boot_role (of_nat i)) fa kt elf k = (Inl Panicked, k1)"
    then show ?thesis by (simp add: load_boot_def Some kbind_def)
  qed
qed (simp add: load_boot_def)

lemma launch_good:
  assumes "cold k"
  shows "good_end (launch A start fa kt elf k)"
proof -
  let ?k = "k\<lparr>k_user_elf := elf, k_token := kt, k_free_at_start := ba_free fa, k_fa := Some fa\<rparr>"
  have "cold ?k" using assms by (simp add: cold_def)
  then have "kinv ?k \<and> \<not> k_idling ?k" using cold_kinv by blast
  then have ok: "okay (\<lambda>_ k. kinv k \<and> \<not> k_idling k) (kfor [0..<NUM_PROCS] (load_boot A kt elf) ?k)"
    by (rule okay_kfor [of "\<lambda>k. kinv k \<and> \<not> k_idling k"]) (rule load_boot_kinv, simp_all add: NUM_PROCS_def MAX_PROCS_def)
  obtain e k1 where r: "kfor [0..<NUM_PROCS] (load_boot A kt elf) ?k = (e, k1)" by fastforce
  show ?thesis
  proof (cases e)
    case (Inl s)
    then show ?thesis using ok by (auto simp: launch_def r okay_def halts_def)
  next
    case (Inr u)
    then have inv: "kinv k1" "\<not> k_idling k1" using ok by (simp_all add: r okay_def)
    have "live_inv t (upd_mach start (k1\<lparr>k_current := t\<rparr>))" if "Scheduler_current (k_sched k1) = Some t" for t
      by (rule quiet_live [OF quiet_fields(1) switch_good [OF inv that]])
    then show ?thesis using Inr by (simp add: launch_def r resume_good split: option.split)
  qed
qed

text \<open>Every state the machine can reach from a launch is good.\<close>

lemma reached_good: "cold k0 \<Longrightarrow> (kstep A)\<^sup>*\<^sup>* (launch A start fa kt elf k0) s \<Longrightarrow> good_end s"
  by (rule kreach_good [OF _ launch_good])

section \<open>A small run\<close>

text \<open>The three initial processes on the machine without state, and a list of calls made one after another.\<close>

definition demo_fa :: BitmapAllocator where
  "demo_fa = \<lparr>bitmap = [0], ba_total = 64, ba_free = 64, ba_cursor = 0, general_floor = 16, dma_top = 0x10000, reserve_below = 0\<rparr>"

definition demo_run :: "Stop \<times> unit Kernel" where
  "demo_run = launch null_arch (\<lambda>m. m) demo_fa 0 [] (Kernel_statics ())"

definition demo_call :: "u64 \<Rightarrow> u64 list \<Rightarrow> u64 list" where
  "demo_call num args = num # args @ replicate (19 - length args) 0"

text \<open>An exit of a process with nothing to withdraw and no region to destroy, in closed form.\<close>

definition unburdened :: "usize \<Rightarrow> 'm Kernel \<Rightarrow> bool" where
  "unburdened i k \<longleftrightarrow> k_current k = i \<and> pr_dma (proc_at k i) = replicate SHARE_SLOTS (0, 0)
     \<and> (case region_view k of (rs, hs) \<Rightarrow>
          (case teardown PLAN_STEPS rs hs i (pr_id (proc_at k i)) of pl \<Rightarrow> \<not> p_truncated pl \<and> Plan_steps pl = []))"

definition departed :: "'m Arch \<Rightarrow> usize \<Rightarrow> 'm Kernel \<Rightarrow> 'm Kernel" where
  "departed A i k =
     (let k = reclaim_frames i k; k = upd_ledger (Ledger_splice_out i (pr_id (proc_at k i))) k
      in fold (wake_stranded_peer A) [0..<MAX_PROCS] (sched_remove i (set_state i PFree k)))"

definition demo_exit :: "usize \<Rightarrow> unit Kernel \<Rightarrow> Stop \<times> unit Kernel" where
  "demo_exit i k =
     (case switch_or_stop null_arch (snapshot null_arch (demo_call sys_EXIT []) UserFrame_ZERO) (departed null_arch i k) of
        (Inl s, k) \<Rightarrow> (s, k)
      | (Inr f, k) \<Rightarrow> (let k = upd_frame i (\<lambda>_. f) k in resume_process null_arch (k_current k) k))"

lemma unburdened_exit:
  assumes "unburdened i k"
  shows "syscall_trap null_arch (demo_call sys_EXIT []) k = demo_exit i k"
proof -
  have "withdraw_dma_slot i slot k = (False, k)" if "slot < SHARE_SLOTS" for slot
    using assms that by (simp add: withdraw_dma_slot_def unburdened_def)
  then have "fold (withdraw_counted i) xs (False, k) = (False, k)" if "set xs \<subseteq> {..<SHARE_SLOTS}" for xs
    using that by (induction xs) (simp_all add: withdraw_counted_def)
  then have w: "withdraw_all_dma_of null_arch i k = kreturn () k"
    by (simp add: withdraw_all_dma_of_def flush_if_def atLeast0LessThan)
  have d: "destroy_regions_owned_by null_arch i (pr_id (proc_at k i)) k = kreturn () k"
    using assms by (auto simp: destroy_regions_owned_by_def run_region_plan_def unburdened_def Let_def kreturn_def split: prod.splits)
  have t: "teardown_process null_arch i k = (Inr (), departed null_arch i k)"
    by (simp add: teardown_process_def w d kbind_def kreturn_def departed_def Let_def)
  have "a_frame_num null_arch (snapshot null_arch (demo_call sys_EXIT []) UserFrame_ZERO) = sys_EXIT"
    by (simp add: null_arch_def snapshot_def demo_call_def)
  moreover have "k_current k = i" using assms by (simp add: unburdened_def)
  ultimately show ?thesis
    by (simp add: syscall_trap_def syscall_arm_def arm_exit_def demo_exit_def Let_def t kbind_def sys_EXIT_def sys_YIELD_def)
qed

definition demo_k0 :: "unit Kernel" where "demo_k0 = snd demo_run"
definition demo_k1 :: "unit Kernel" where "demo_k1 = snd (demo_exit 0 demo_k0)"
definition demo_k2 :: "unit Kernel" where "demo_k2 = snd (demo_exit 1 demo_k1)"

lemma demo_started: "demo_run = (Resumed 0, demo_k0)"
  by (rule prod_eqI) (code_simp, simp add: demo_k0_def)

lemma demo_unburdened: "unburdened 0 demo_k0" "unburdened 1 demo_k1" "unburdened 2 demo_k2"
  by code_simp+

lemma demo_exits: "fst (demo_exit 0 demo_k0) = Resumed 1" "fst (demo_exit 1 demo_k1) = Resumed 2"
  "fst (demo_exit 2 demo_k2) = Exited True"
  by code_simp+

abbreviation demo_reaches :: "Stop \<times> unit Kernel \<Rightarrow> bool" where
  "demo_reaches s \<equiv> (kstep null_arch)\<^sup>*\<^sup>* (launch null_arch (\<lambda>m. m) demo_fa 0 [] (Kernel_statics ())) s"

lemma demo_step: "demo_reaches (Resumed n, k) \<Longrightarrow> syscall_trap null_arch words k = s \<Longrightarrow> demo_reaches s"
  using kstep.syscall [of null_arch n k words] by (blast intro: rtranclp.rtrancl_into_rtrancl)

definition demo_sent :: "unit Kernel" where "demo_sent = snd (syscall_trap null_arch (demo_call sys_SEND [0, 1, 0, 0]) demo_k0)"

lemma demo_send:
  "fst (syscall_trap null_arch (demo_call sys_SEND [0, 1, 0, 0]) demo_k0) = Resumed 1"
  "pr_state (proc_at demo_sent 0) = BlockedSend 0 1 0"
  by code_simp+

text \<open>The last process waits for the timer: the closed form of that call, its parts evaluated.\<close>

definition demo_blocked :: "unit Kernel" where
  "demo_blocked = block_on 2 (BlockedIrq 0) (snapshot null_arch (demo_call sys_WAIT_IRQ [6]) UserFrame_ZERO) demo_k2"

definition demo_parked :: "unit Kernel" where "demo_parked = snd (syscall_trap null_arch (demo_call sys_WAIT_IRQ [6]) demo_k2)"

lemma demo_current: "k_current demo_k2 = 2"
  by code_simp

lemma demo_line: "caps_irq_line (pr_caps (proc_at demo_k2 2)) 6 = Some 0"
  by code_simp

lemma demo_pending: "pr_irq (proc_at demo_k2 2) ! 0 = 0"
  by code_simp

lemma demo_delivers: "delivers_irq 0"
  by code_simp

lemma demo_none_wakes: "uncreditable (run_slots demo_blocked) (creditable demo_blocked) = []"
  by code_simp

lemma demo_dry: "Scheduler_current (k_sched demo_blocked) = None"
  by code_simp

lemma demo_verdict: "classify (run_slots demo_blocked) (creditable demo_blocked) = Park"
  by code_simp

lemmas demo_wait_parts = demo_current demo_line demo_pending demo_delivers demo_none_wakes demo_dry demo_verdict

lemma demo_waits: "fst (syscall_trap null_arch (demo_call sys_WAIT_IRQ [6]) demo_k2) = Parked"
proof -
  let ?f = "snapshot null_arch (demo_call sys_WAIT_IRQ [6]) UserFrame_ZERO"
  have f: "a_frame_num null_arch ?f = sys_WAIT_IRQ" "unat (a_frame_arg null_arch ?f 0) = 6"
    by (simp_all add: null_arch_def snapshot_def demo_call_def)
  have "fst (run_current null_arch demo_blocked) = Parked"
    by (simp add: run_current_def nothing_runnable_def demo_wait_parts)
  then have "arm_wait_irq null_arch 2 ?f demo_k2 = (Inl Parked, snd (run_current null_arch demo_blocked))"
    by (auto simp: arm_wait_irq_def f demo_wait_parts Let_def demo_blocked_def [symmetric] split: prod.split)
  then show ?thesis
    by (simp add: syscall_trap_def demo_wait_parts(1) syscall_arm_def f Let_def)
      (simp add: sys_WAIT_IRQ_def sys_YIELD_def sys_EXIT_def sys_SEND_def sys_RECV_def sys_SPAWN_def)
qed

lemma demo_reached: "demo_reaches (Resumed 0, demo_k0)" "demo_reaches (Resumed 2, demo_k2)"
  "demo_reaches (Exited True, snd (demo_exit 2 demo_k2))" "demo_reaches (Parked, demo_parked)" "demo_reaches (Resumed 1, demo_sent)"
proof -
  show zero: "demo_reaches (Resumed 0, demo_k0)" using demo_started by (simp add: demo_run_def)
  have "demo_reaches (Resumed 1, demo_k1)"
    by (rule demo_step [OF zero]) (subst unburdened_exit [OF demo_unburdened(1)], rule prod_eqI, simp_all add: demo_exits demo_k1_def)
  then show two: "demo_reaches (Resumed 2, demo_k2)"
    by (rule demo_step) (subst unburdened_exit [OF demo_unburdened(2)], rule prod_eqI, simp_all add: demo_exits [simplified] demo_k2_def)
  show "demo_reaches (Exited True, snd (demo_exit 2 demo_k2))"
    by (rule demo_step [OF two]) (subst unburdened_exit [OF demo_unburdened(3)], rule prod_eqI, simp_all add: demo_exits)
  show "demo_reaches (Parked, demo_parked)"
    by (rule demo_step [OF two]) (rule prod_eqI, simp_all add: demo_waits demo_parked_def)
  show "demo_reaches (Resumed 1, demo_sent)"
    by (rule demo_step [OF zero]) (rule prod_eqI, simp_all add: demo_send demo_sent_def)
qed

lemma unpaired:
  assumes "kinv k" and "i < MAX_PROCS" and "j < MAX_PROCS" and "pr_state (proc_at k i) = BlockedSend e w l"
  shows "pr_state (proc_at k j) \<noteq> BlockedRecv e d mx"
proof
  assume r: "pr_state (proc_at k j) = BlockedRecv e d mx"
  have len: "length (k_procs k) = MAX_PROCS" and wf: "well_formed (run_slots k)" using assms(1) by (simp_all add: kinv_def)
  have "run_slot (proc_at k x) \<in> set (run_slots k)" if "x < MAX_PROCS" for x
    using that len by (simp add: run_slots_def proc_at_def)
  then have "\<not> clash (run_slot (proc_at k i)) (run_slot (proc_at k j))"
    using wf assms(2,3) by (simp add: well_formed_clash)
  then show False by (simp add: clash_def run_slot_def assms(4) r Slot_blocked_def)
qed

lemma rest_kinv: "cold k0 \<Longrightarrow> (kstep A)\<^sup>*\<^sup>* (launch A start fa kt elf k0) (s, k) \<Longrightarrow> s = Parked \<or> s = Resumed n \<Longrightarrow> kinv k"
  using reached_good [of k0 A start fa kt elf "(s, k)"] by (auto simp: live_inv_def parked_def)

section \<open>Properties\<close>

text \<open>
  (C4) In every state a launched machine reaches, the process that runs is the current one and is
  ready, and the run queue holds exactly the ready processes of the table.
\<close>

theorem queue_is_the_ready_set:
  assumes "cold k0" and "(kstep A)\<^sup>*\<^sup>* (launch A start fa kt elf k0) (Resumed n, k)"
  shows "n = k_current k \<and> n < MAX_PROCS \<and> pr_state (proc_at k n) = PReady
    \<and> set (sched_queue (k_sched k)) = {i. i < MAX_PROCS \<and> pr_state (proc_at k i) = PReady}"
  using reached_good [OF assms] by (simp add: live_inv_def running_def kinv_def ready_def queue_of_def)

theorem queue_is_the_ready_set_witness:
  "k_current demo_k0 = 0 \<and> set (sched_queue (k_sched demo_k0)) = {i. i < MAX_PROCS \<and> pr_state (proc_at demo_k0 i) = PReady}"
  using queue_is_the_ready_set [OF cold_statics demo_reached(1)] by simp

text \<open>
  (C5) No process waits without authority, running or parked: a blocked sender holds WRITE on its
  endpoint, a blocked receiver READ, and a process waiting for an interrupt a capability for a line
  the kernel delivers.
\<close>

theorem waiters_hold_authority:
  assumes "cold k0" and "(kstep A)\<^sup>*\<^sup>* (launch A start fa kt elf k0) (s, k)" and "s = Parked \<or> s = Resumed n" and "i < MAX_PROCS"
  shows "case pr_state (proc_at k i) of
      BlockedSend e w l \<Rightarrow> holds_endpoint k i e RIGHTS_WRITE
    | BlockedRecv e d mx \<Rightarrow> holds_endpoint k i e RIGHTS_READ
    | BlockedIrq line \<Rightarrow> creditable k i line
    | _ \<Rightarrow> True"
proof -
  have "kinv k" by (rule rest_kinv [OF assms(1-3)])
  then have "\<not> stranded k i" using assms(4) by (simp add: kinv_def)
  then show ?thesis by (simp add: stranded_def split: ProcState.splits)
qed

theorem waiters_hold_authority_witness:
  "pr_state (proc_at demo_sent 0) = BlockedSend 0 1 0 \<and> holds_endpoint demo_sent 0 0 RIGHTS_WRITE"
  using waiters_hold_authority [OF cold_statics demo_reached(5) disjI2 [OF refl], of 0] by (simp add: demo_send MAX_PROCS_def)

text \<open>
  (C9) No rendezvous is missed: in no state a launched machine runs or parks in is one process
  blocked sending on an endpoint while another is blocked receiving on it.
\<close>

theorem no_missed_rendezvous:
  assumes "cold k0" and "(kstep A)\<^sup>*\<^sup>* (launch A start fa kt elf k0) (s, k)" and "s = Parked \<or> s = Resumed n"
    and "i < MAX_PROCS" and "j < MAX_PROCS" and "pr_state (proc_at k i) = BlockedSend e w l"
  shows "pr_state (proc_at k j) \<noteq> BlockedRecv e d mx"
  by (rule unpaired [OF rest_kinv [OF assms(1-3)] assms(4-6)])

theorem no_missed_rendezvous_witness:
  "pr_state (proc_at demo_sent 0) = BlockedSend 0 1 0 \<and> pr_state (proc_at demo_sent 1) \<noteq> BlockedRecv 0 0 0"
  using no_missed_rendezvous [OF cold_statics demo_reached(5) disjI2 [OF refl] _ _ demo_send(2)] by (simp add: demo_send MAX_PROCS_def)

text \<open>
  (C18) The machine parks only when that can end: nobody is ready, the queue is empty, and some
  process waits for an interrupt that will be credited to it.
\<close>

theorem parks_only_for_an_interrupt:
  assumes "cold k0" and "(kstep A)\<^sup>*\<^sup>* (launch A start fa kt elf k0) (Parked, k)"
  shows "k_idling k \<and> sched_queue (k_sched k) = [] \<and> (\<forall>i<MAX_PROCS. pr_state (proc_at k i) \<noteq> PReady)
    \<and> (\<exists>i<MAX_PROCS. \<exists>line. pr_state (proc_at k i) = BlockedIrq line \<and> delivers_irq line \<and> holds_irq k i line)"
  using reached_good [OF assms] by (auto simp: parked_def kinv_def queue_of_def ready_def creditable_def)

theorem parks_only_for_an_interrupt_witness:
  "k_idling demo_parked \<and> (\<exists>i<MAX_PROCS. \<exists>line. pr_state (proc_at demo_parked i) = BlockedIrq line)"
  using parks_only_for_an_interrupt [OF cold_statics demo_reached(4)] by blast

text \<open>
  (C19) A run ends with the success report only when every process has exited and every check of the
  finish holds (no stale table entry, no orphaned or idle grant, every frame back, every invalidation
  acknowledged); it ends with the failure report only when such a check fails after the last exit or
  when every process left waits for a peer, none of them for an interrupt.
\<close>

theorem exit_verdicts_are_right:
  assumes "cold k0" and "(kstep A)\<^sup>*\<^sup>* (launch A start fa kt elf k0) (Exited ok, k)"
  shows "if ok then (\<forall>i<MAX_PROCS. pr_state (proc_at k i) = PFree) \<and> finish k
    else (\<forall>i<MAX_PROCS. pr_state (proc_at k i) = PFree) \<and> \<not> finish k
      \<or> (\<exists>i<MAX_PROCS. pr_state (proc_at k i) \<noteq> PFree)
        \<and> (\<forall>i<MAX_PROCS. pr_state (proc_at k i) = PFree \<or> peer_need (pr_state (proc_at k i)) \<noteq> None)"
  using reached_good [OF assms] by (auto simp: clean_exit_def failed_exit_def deadlocked_def split: if_splits)

theorem exit_verdicts_are_right_witness:
  "finish (snd (demo_exit 2 demo_k2)) \<and> pr_state (proc_at (snd (demo_exit 2 demo_k2)) 0) = PFree"
  using exit_verdicts_are_right [OF cold_statics demo_reached(3)] by (simp add: MAX_PROCS_def)

text \<open>
  (C21) Ending a process or a region always completes: in every state a launched machine runs in, the
  plan fits the kernel's bound, so neither teardown nor the destruction of a region refuses; either
  returns, or an assertion of the nucleus failed.
\<close>

theorem teardown_completes:
  assumes "cold k0" and "(kstep A)\<^sup>*\<^sup>* (launch A start fa kt elf k0) (Resumed n, k)"
  shows "fst (teardown_process A n k) \<in> {Inr (), Inl Panicked} \<and> fst (destroy_region A r k) \<in> {Inr (), Inl Panicked}"
proof -
  have inv: "live_inv n k" using reached_good [OF assms] by simp
  then have "halts (teardown_process A n k)" "halts (destroy_region A r k)"
    using teardown_kinv [of k n A] halts_destroy(1) live_parts [OF inv] by (auto simp: okay_def)
  then have "fst x \<in> {Inr (), Inl Panicked}" if "x = teardown_process A n k \<or> x = destroy_region A r k" for x
    using that by (cases "fst x") (auto simp: halts_def)
  then show ?thesis by blast
qed

theorem teardown_completes_witness: "fst (teardown_process null_arch 2 demo_k2) \<in> {Inr (), Inl Panicked}"
  using teardown_completes [OF cold_statics demo_reached(2)] by blast

end
