(* ===== verification/Kauth.thy ===== *)
theory Kauth
  imports Klaunch
begin

text \<open>
  Where capabilities come from. Every operation of the kernel only takes capabilities away, with two
  exceptions: MAKE_REGION hands its caller one capability for a region that did not exist before, and
  SPAWN gives a fresh process one attenuated copy of a capability of its caller. From this follows a
  bound that holds for ever: whatever the processes do, nobody holds an authority over anything but a
  region that was not granted to an initial process, with those rights at least. Regions are named by a
  counter that only grows, so a region capability never comes to name a later region.
\<close>

section \<open>Operations that only take away\<close>

definition cap_at :: "'m Kernel \<Rightarrow> usize \<Rightarrow> CapId \<Rightarrow> CapSlot option" where
  "cap_at k p c = CapSpace_lookup (pr_caps (proc_at k p)) c"

definition shrinks :: "'m Kernel \<Rightarrow> 'm Kernel \<Rightarrow> bool" where
  "shrinks k k' \<longleftrightarrow> length (k_procs k') = length (k_procs k) \<and> k_next_region k' = k_next_region k
     \<and> (\<forall>p<length (k_procs k). \<forall>c s. cap_at k' p c = Some s \<longrightarrow> cap_at k p c = Some s)"

interpretation shrink_steps: kernel_preorder shrinks
  by unfold_locales (auto simp: shrinks_def)

lemma caps_less_lookup: "caps_less cs cs' \<Longrightarrow> CapSpace_lookup cs' c = Some s \<Longrightarrow> CapSpace_lookup cs c = Some s"
  unfolding caps_less_def by (metis option.distinct(1))

lemma shrinks_quiet: "quiet k k' \<Longrightarrow> shrinks k k'"
proof -
  assume q: "quiet k k'"
  then have "k_next_region k' = k_next_region k" by (simp add: quiet_def)
  then show ?thesis unfolding shrinks_def cap_at_def using q quiet_at(3) quiet_length caps_less_lookup by metis
qed

lemma shrinks_procs: "k_procs k' = k_procs k \<Longrightarrow> k_next_region k' = k_next_region k \<Longrightarrow> shrinks k k'"
  by (simp add: shrinks_def cap_at_def proc_at_def)

lemma shrinks_fields [simp]:
  "shrinks k (k\<lparr>k_current := n\<rparr>)" "shrinks k (k\<lparr>k_idling := b\<rparr>)" "shrinks k (k\<lparr>k_parks := w, k_idling := b, k_current := n\<rparr>)"
  "shrinks k (k\<lparr>k_sched := s\<rparr>)" "shrinks k (k\<lparr>k_ledger := l\<rparr>)" "shrinks k (k\<lparr>k_killed := w\<rparr>)" "shrinks k (k\<lparr>k_next_id := w\<rparr>)"
  "shrinks k (sched_add p k)" "shrinks k (sched_remove p k)" "shrinks k (upd_ledger g k)" "shrinks k (sched_next c k)" "shrinks k k"
  by (rule shrinks_procs; simp add: sched_add_def sched_remove_def upd_ledger_def sched_next_def split: prod.split)+

lemma shrinks_upd:
  assumes "\<And>c s. CapSpace_lookup (pr_caps (f (proc_at k p))) c = Some s \<Longrightarrow> CapSpace_lookup (pr_caps (proc_at k p)) c = Some s"
  shows "shrinks k (upd_proc p f k)"
proof -
  have "cap_at k q c = Some s" if "q < length (k_procs k)" "cap_at (upd_proc p f k) q c = Some s" for q c s
    using that assms [of c s] by (cases "q = p") (simp_all add: cap_at_def proc_at_def upd_proc_def)
  then show ?thesis by (simp add: shrinks_def upd_proc_def)
qed

lemma shrinks_then [simp]:
  "shrinks k k' \<Longrightarrow> shrinks k (sched_add p k')" "shrinks k k' \<Longrightarrow> shrinks k (sched_remove p k')"
  "shrinks k k' \<Longrightarrow> shrinks k (upd_ledger g k')" "shrinks k k' \<Longrightarrow> shrinks k (k'\<lparr>k_current := n\<rparr>)"
  "shrinks k k' \<Longrightarrow> shrinks k (k'\<lparr>k_idling := b\<rparr>)" "shrinks k k' \<Longrightarrow> shrinks k (sched_next c k')"
  by (erule shrink_steps.trans, simp)+

lemma shrinks_then_quiet: "shrinks k k' \<Longrightarrow> quiet k' k'' \<Longrightarrow> shrinks k k''"
  by (rule shrink_steps.trans [OF _ shrinks_quiet])

lemma shrinks_revoke [simp]: "shrinks k (upd_caps p (CapSpace_revoke c) k)"
  unfolding upd_caps_def using capspace.lookup_remove [of c "pr_caps (proc_at k p)"]
  by (intro shrinks_upd) (auto split: if_splits)

lemma shrinks_keep: "(\<And>pr. pr_caps (f pr) = pr_caps pr) \<Longrightarrow> shrinks k (upd_proc p f k)"
  by (rule shrinks_upd) simp

lemma shrinks_wake [simp]: "shrinks k (wake_refused A p k)"
  by (simp add: wake_refused_def Let_def shrinks_keep)

lemma shrinks_state [simp]: "shrinks k (set_state p st k)"
  by (simp add: set_state_def shrinks_keep)

lemma shrinks_credit [simp]: "shrinks k (credit_irq A irq k)"
proof -
  have "shrinks k (credit_one A irq i k)" for i k
    by (simp add: credit_one_def Let_def shrinks_keep)
  then show ?thesis by (simp add: credit_irq_def shrink_steps.fold)
qed

lemma shrinks_holder [simp]: "shrinks k (snd (strip_holder A d k))"
proof -
  let ?p = "ep_proc d"
  let ?tail = "\<lambda>_ k. let k = fold (strip_irq ?p) [0..<MAX_IRQ_LINES] k in kreturn () (if stranded k ?p then wake_refused A ?p k else k)"
  have tail: "shrinks k (snd (?tail u k))" for u k
    using shrinks_quiet [OF quiet_fold [of False "strip_irq ?p" k "[0..<MAX_IRQ_LINES]"]] shrink_steps.trans [OF _ shrinks_wake [of _ A]]
    by (auto simp: Let_def)
  have rest: "shrinks k (snd (kbind (strip_dma A ?p (fold (strip_share A ?p) [0..<SHARE_SLOTS] k')) ?tail))" if "shrinks k k'" for k'
  proof -
    have "shrinks k (fold (strip_share A ?p) [0..<SHARE_SLOTS] k')"
      by (rule shrinks_then_quiet [OF that quiet_fold]) simp
    moreover have "shrinks k'' (snd (kbind (strip_dma A ?p k'') ?tail))" for k''
      by (rule shrink_steps.kbind [OF shrinks_quiet tail]) simp
    ultimately show ?thesis by (rule shrink_steps.trans)
  qed
  have "shrinks k (if b then k' else unmap_device_window A ?p k')" if "shrinks k k'" for b k'
    using that shrinks_then_quiet [OF that quiet_device_window] by simp
  then show ?thesis
    unfolding strip_holder_def Let_def by (simp add: rest [unfolded Let_def] del: if_split)
qed

lemma shrinks_revocation [simp]: "shrinks k (snd (revoke_delegations A p cap k))"
  unfolding revoke_delegations_def Let_def
  by (auto split: prod.split intro: shrink_steps.trans [OF shrinks_fields(5) shrink_steps.kfor])

lemma shrinks_teardown [simp]: "shrinks k (snd (teardown_process A i k))"
proof -
  have peer: "shrinks k (wake_stranded_peer A i k)" for i k
    by (simp add: wake_stranded_peer_def split: option.split)
  have leave: "shrinks k (fold (wake_stranded_peer A) [0..<MAX_PROCS] (sched_remove i (set_state i PFree (upd_ledger g (reclaim_frames i k)))))" for g k
    by (rule shrink_steps.trans [OF _ shrink_steps.fold [OF peer]])
      (simp add: shrink_steps.trans [OF shrinks_quiet [OF quiet_reclaim] shrink_steps.trans [OF shrinks_fields(10) shrinks_state]])
  show ?thesis
    unfolding teardown_process_def Let_def
    by (intro shrink_steps.kbind) (simp_all add: shrinks_quiet leave)
qed

lemma shrinks_resume [simp]: "shrinks k (snd (resume_process A n k))"
  by (rule shrinks_quiet) simp

lemma shrinks_run [simp]: "shrinks k (snd (nothing_runnable A k))" "shrinks k (snd (run_current A k))"
proof -
  have wake: "shrinks k (wake_uncreditable A i k)" for i k
    unfolding wake_uncreditable_def by (rule shrink_steps.trans [OF shrinks_keep shrinks_fields(8)]) simp
  have res: "shrinks k (snd (resume_process A t (k\<lparr>k_current := t\<rparr>)))" for t k
    by (rule shrink_steps.trans [OF shrinks_fields(1) shrinks_resume])
  show dry: "shrinks k (snd (nothing_runnable A k))" for k
    unfolding nothing_runnable_def Let_def
    by (rule shrink_steps.trans [OF shrink_steps.fold [OF wake]]) (auto split: option.split Next.split intro: res)
  show "shrinks k (snd (run_current A k))"
    by (auto simp: run_current_def dry split: option.split intro: res)
qed

section \<open>System calls that only take away\<close>

lemma shrinks_block [simp]: "shrinks k (block_on c st f k)"
  unfolding block_on_def by (rule shrinks_then_quiet [OF _ quiet_upd_frame]) simp

lemma shrinks_switch [simp]: "shrinks k (snd (switch_or_stop A f k))"
  using shrinks_run(1) [of k A] by (cases "nothing_runnable A k") (simp add: switch_or_stop_def split: option.split)

lemma snd_arm_ret [simp]: "snd (arm_ret A v f k) = k"
  by (simp add: arm_ret_def)

lemma shrinks_deliver [simp]: "shrinks k (deliver A r dst word n bytes k)"
  unfolding deliver_def by (intro shrinks_then(1) shrink_steps.trans [OF shrinks_quiet [OF quiet_put_msg] shrinks_keep]) simp

lemma shrinks_send: "shrinks k (snd (arm_send A c f k))"
proof -
  have park: "shrinks k (snd (switch_or_stop A f (block_on c st f (upd_proc c (\<lambda>p. p\<lparr>pr_msg_len := n\<rparr>) (put_msg c bytes k)))))" for st n bytes
    by (intro shrink_steps.trans [OF _ shrinks_switch] shrink_steps.trans [OF _ shrinks_block]
        shrink_steps.trans [OF shrinks_quiet [OF quiet_put_msg] shrinks_keep]) simp
  show ?thesis
    by (simp add: arm_send_def Let_def park split: option.split prod.split)
qed

lemma shrinks_recv: "shrinks k (snd (arm_recv A c f k))"
proof -
  have bad: "shrinks k (snd (resume_process A c (upd_frame c g k)))" for g
    by (rule shrinks_quiet [OF quiet_trans [OF quiet_upd_frame quiet_resume]])
  have out: "shrinks k (snd (copy_out A dst bytes k))" for dst bytes
    by (rule shrinks_quiet) (simp add: copy_out_def split: prod.split)
  have taken: "shrinks k' (take_from A i k')" for i k'
    by (simp add: take_from_def shrinks_keep)
  have deliver: "shrinks k (take_from A i (snd (copy_out A dst bytes k)))" for i dst bytes
    by (rule shrink_steps.trans [OF out taken])
  have park: "shrinks k (snd (switch_or_stop A f (block_on c st f k)))" for st
    by (rule shrink_steps.trans [OF shrinks_block shrinks_switch])
  show ?thesis
    using bad out deliver park
    by (simp add: arm_recv_def Let_def split_beta split: option.split)
qed

lemma shrinks_irq_calls: "shrinks k (snd (arm_wait_irq A c f k))" "shrinks k (snd (arm_poll_irq A c f k))"
proof -
  have "shrinks k k'" if "run_current A (block_on c st f k) = (s, k')" for st s k'
    using shrink_steps.trans [OF shrinks_block shrinks_run(2)] that by (metis snd_conv)
  then show "shrinks k (snd (arm_wait_irq A c f k))"
    by (auto simp: arm_wait_irq_def Let_def shrinks_keep split: option.split prod.split)
  show "shrinks k (snd (arm_poll_irq A c f k))"
    by (simp add: arm_poll_irq_def Let_def shrinks_keep split: option.split prod.split)
qed

lemma shrinks_quiet_calls:
  "shrinks k (snd (arm_map_region A c f k))" "shrinks k (snd (arm_unmap_region A c f k))" "shrinks k (snd (arm_map_dma A c f k))"
  "shrinks k (snd (arm_unmap_dma A c f k))" "shrinks k (snd (arm_free_region A c f k))" "shrinks k (snd (arm_host A c f k))"
  unfolding arm_map_region_def arm_unmap_region_def arm_map_dma_def arm_unmap_dma_def arm_free_region_def arm_host_def
  by (auto split: option.split intro!: shrinks_quiet quiet_kbind quiet_split)

lemma shrinks_other_calls:
  "shrinks k (snd (arm_yield c f k))" "shrinks k (snd (arm_exit A c f k))" "shrinks k (snd (arm_revoke A c f k))"
  by (auto simp: arm_yield_def arm_exit_def arm_revoke_def Let_def split: option.split intro!: shrink_steps.kbind)

section \<open>The two calls that add a capability\<close>

text \<open>
  What a step may leave in a slot: what was there; for the caller, one region minted under an
  untyped capability it holds; in a slot of the table that was free, a copy of a capability of the
  caller with no more rights.
\<close>

definition minted :: "'m Kernel \<Rightarrow> CapSlot \<Rightarrow> bool" where
  "minted k s \<longleftrightarrow> cap_type s = CapRegion \<and> object s = k_next_region k
     \<and> (\<exists>c u. cap_at k (k_current k) c = Some u \<and> is_mint_source (cap_type u) \<and> CapRights_contains (rights u) RIGHTS_WRITE \<and> rights s = rights u)"

definition attenuated :: "'m Kernel \<Rightarrow> CapSlot \<Rightarrow> bool" where
  "attenuated k s \<longleftrightarrow> (\<exists>c u. cap_at k (k_current k) c = Some u \<and> cap_type s = cap_type u \<and> object s = object u
     \<and> CapRights_contains (rights u) (rights s))"

definition confined :: "'m Kernel \<Rightarrow> 'm Kernel \<Rightarrow> bool" where
  "confined k k' \<longleftrightarrow> length (k_procs k') = length (k_procs k) \<and> k_next_region k \<le> k_next_region k'
     \<and> (\<forall>p<length (k_procs k). \<forall>c s. cap_at k' p c = Some s \<longrightarrow>
          cap_at k p c = Some s \<or> p = k_current k \<and> minted k s \<and> k_next_region k < k_next_region k' \<or> pr_state (proc_at k p) = PFree \<and> attenuated k s)"

lemma confined_shrinks: "shrinks k k' \<Longrightarrow> confined k k'"
  by (auto simp: shrinks_def confined_def)

lemma confined_then: "confined k k' \<Longrightarrow> shrinks k' k'' \<Longrightarrow> confined k k''"
  unfolding shrinks_def confined_def by (metis (no_types, lifting))

lemma cap_at_upd: "cap_at (upd_proc p f k) q c =
    (if q = p \<and> p < length (k_procs k) then CapSpace_lookup (pr_caps (f (proc_at k p))) c else cap_at k q c)"
  by (cases "p < length (k_procs k)"; cases "q = p") (simp_all add: cap_at_def upd_proc_def proc_at_def list_update_beyond)

lemma confined_make:
  assumes "mint_authority (pr_caps (proc_at k (k_current k))) cap"
  shows "confined k (snd (make_region A (k_current k) pages (rights (the (CapSpace_lookup (pr_caps (proc_at k (k_current k))) cap))) k))"
proof -
  let ?c = "k_current k" and ?r = "rights (the (CapSpace_lookup (pr_caps (proc_at k (k_current k))) cap))"
  obtain u where u: "cap_at k ?c cap = Some u" "is_mint_source (cap_type u)" "CapRights_contains (rights u) RIGHTS_WRITE" "?r = rights u"
    using assms by (auto simp: mint_authority_def cap_at_def split: option.splits)
  have quiet: "confined k (k\<lparr>k_fa := fa, k_mach := m\<rparr>)" "confined k (free_frames_to fs (k\<lparr>k_fa := fa, k_mach := m\<rparr>))" for fa m fs
    by (rule confined_shrinks, rule shrinks_procs; simp add: free_frames_to_def)+
  have refl: "confined k k" by (rule confined_shrinks) simp
  have new: "confined k k'" if "CapSpace_insert CapRegion ?r (k_next_region k) (pr_caps (proc_at k ?c)) = Some (i, cs)"
    and "k_procs k' = k_procs (upd_caps ?c (\<lambda>_. cs) k)" and "checked_add (k_next_region k) 1 = Some (k_next_region k')" for i cs k'
  proof -
    have at: "cap_at k' p c = cap_at (upd_caps ?c (\<lambda>_. cs) k) p c" for p c by (simp add: cap_at_def proc_at_def that(2))
    have "minted k \<lparr>cap_type = CapRegion, rights = ?r, object = k_next_region k\<rparr>"
      using u by (auto simp: minted_def)
    then show ?thesis
      using lookup_insert_as [OF that(1)] checked_succ [OF that(3)] unfolding confined_def at
      by (simp add: that(2) upd_caps_def cap_at_upd) (auto simp: upd_proc_def cap_at_def)
  qed
  have same: "proc_at (k\<lparr>k_fa := fa, k_mach := m\<rparr>) = proc_at k" for fa m by (simp add: proc_at_def fun_eq_iff)
  show ?thesis
    unfolding make_region_def Let_def
    by (auto split: option.split prod.split simp: same quiet refl upd_caps_def upd_proc_def intro!: new)
qed

lemma delegation_attenuates:
  assumes "delegation (pr_caps (proc_at k (k_current k))) arg req = Some (t, r, ob)"
  shows "attenuated k \<lparr>cap_type = t, rights = r, object = ob\<rparr>"
proof -
  obtain u where "cap_at k (k_current k) (unat arg) = Some u" "t = cap_type u" "ob = object u"
    "r = CapRights_intersect (rights u) (CapRights_from_user req)"
    using assms by (auto simp: delegation_def cap_at_def split: if_splits)
  moreover have "CapRights_contains q (CapRights_intersect q x)" for q x by (simp add: contains_bits intersect_bits)
  ultimately show ?thesis unfolding attenuated_def by (intro exI [of _ "unat arg"] exI [of _ u]) simp
qed

lemma confined_hand_over:
  assumes "shrinks k k1" and "slot < length (k_procs k)" and "pr_state (proc_at k slot) = PFree"
    and "\<And>p c. CapSpace_lookup (pr_caps (F p)) c = None"
    and "\<And>t r ob. dlg = Some (t, r, ob) \<Longrightarrow> attenuated k \<lparr>cap_type = t, rights = r, object = ob\<rparr>"
  shows "confined k (sched_add slot (hand_over cur cap slot i dlg (upd_proc slot F k1)))"
proof -
  have len: "length (k_procs k1) = length (k_procs k)" using assms(1) by (simp add: shrinks_def)
  let ?k2 = "upd_proc slot F k1"
  have fresh: "cap_at ?k2 slot c = None" for c using assms(2,4) len by (simp add: cap_at_upd)
  have others: "cap_at ?k2 p c = Some s \<Longrightarrow> p < length (k_procs k) \<Longrightarrow> cap_at k p c = Some s" for p c s
    using assms(1,4) len by (auto simp: cap_at_upd shrinks_def split: if_splits)
  have len2: "length (k_procs ?k2) = length (k_procs k)" using len by (simp add: upd_proc_def)
  have next2: "k_next_region ?k2 = k_next_region k" using assms(1) by (simp add: shrinks_def upd_proc_def)
  have base: "confined k ?k2" using others len2 next2 by (auto simp: confined_def)
  have "confined k (hand_over cur cap slot i dlg ?k2)"
  proof (cases dlg)
    case (Some d)
    obtain t r ob where d: "d = (t, r, ob)" by (cases d)
    show ?thesis
    proof (cases "CapSpace_insert t r ob (pr_caps (proc_at ?k2 slot))")
      case (Some x)
      obtain cc cs where x: "x = (cc, cs)" by (cases x)
      have look: "CapSpace_lookup cs = (cap_at ?k2 slot)(cc := Some \<lparr>cap_type = t, rights = r, object = ob\<rparr>)"
        using lookup_insert_as [OF Some [unfolded x]] by (simp add: cap_at_def fun_eq_iff)
      have "cap_at (upd_caps slot (\<lambda>_. cs) ?k2) p c = (if p = slot then CapSpace_lookup cs c else cap_at ?k2 p c)" if "p < length (k_procs k)" for p c
        using that len2 by (auto simp: upd_caps_def cap_at_upd)
      then have "confined k (upd_caps slot (\<lambda>_. cs) ?k2)"
        using others len2 next2 assms(3) assms(5) [of t r ob] \<open>dlg = Some d\<close> d fresh
        by (auto simp: confined_def look upd_caps_def upd_proc_def split: if_splits)
      then show ?thesis using \<open>dlg = Some d\<close> d Some x confined_then [OF _ shrinks_fields(10)] by (simp add: hand_over_def)
    qed (simp add: hand_over_def Some d base)
  qed (simp add: hand_over_def base)
  then show ?thesis by (rule confined_then) simp
qed

lemma confined_spawn: "confined k (snd (arm_spawn A (k_current k) f k))"
proof -
  let ?c = "k_current k"
  have refl: "confined k k" by (rule confined_shrinks) simp
  have go: "confined k (snd (kbind (case k_fa K of
                       Some fa \<Rightarrow> load_process A slot (k_next_id k) Child fa (k_token K) (k_user_elf K) K
                     | None \<Rightarrow> kreturn False K)
                (\<lambda>loaded k'. if loaded
                   then arm_ret A (k_next_id k) f (sched_add slot (hand_over ?c cap slot (k_next_id k) dlg k'))
                   else arm_ret A spawn_NO_MEM f k')))"
    if k: "K = k\<lparr>k_next_id := nx\<rparr>" and slot: "slot < length (k_procs k)" "pr_state (proc_at k slot) = PFree"
      and dlg: "\<And>t r ob. dlg = Some (t, r, ob) \<Longrightarrow> attenuated k \<lparr>cap_type = t, rights = r, object = ob\<rparr>"
    for slot cap dlg nx K
  proof (cases "k_fa K")
    case None
    then show ?thesis by (simp add: kbind_def kreturn_def k confined_shrinks)
  next
    case (Some fa)
    have kk: "shrinks k K" by (simp add: k)
    show ?thesis
    proof (rule load_cases [of A slot "k_next_id k" Child fa "k_token K" "k_user_elf K" K])
      fix F k1
      assume l: "load_process A slot (k_next_id k) Child fa (k_token K) (k_user_elf K) K = (Inr True, upd_proc slot F k1)"
        and q: "quiet K k1" and F: "\<And>p. pr_caps (F p) = grant_caps (map (grant_object K) (grants_for Child)) (CapSpace_new CAP_SLOTS)"
      have "confined k (sched_add slot (hand_over ?c cap slot (k_next_id k) dlg (upd_proc slot F k1)))"
        by (rule confined_hand_over [OF shrinks_then_quiet [OF kk q] slot _ dlg]) (simp_all add: F grant_caps_def)
      then show ?thesis using Some l by (simp add: kbind_def)
    next
      fix k1
      assume "load_process A slot (k_next_id k) Child fa (k_token K) (k_user_elf K) K = (Inr False, k1)" "quiet K k1"
      then show ?thesis using Some confined_shrinks [OF shrinks_then_quiet [OF kk]] by (simp add: kbind_def)
    next
      fix k1 assume "list_ex (mint_extent K) (grants_for Child)"
      then show ?thesis by simp
    qed
  qed
  have at: "slot < length (k_procs k) \<and> pr_state (proc_at k slot) = PFree" if "spawn_slot k a d = Inr slot" for a d slot
    using that position_SomeD(1,2) [of "\<lambda>p. pr_state p = PFree" "k_procs k" slot]
    by (auto simp: spawn_slot_def proc_at_def split: if_splits option.splits)
  let ?dlg = "delegation (pr_caps (proc_at k ?c)) (a_frame_arg A f 1) (a_frame_arg A f 2)"
  let ?s = "spawn_slot k (mint_authority (pr_caps (proc_at k ?c)) (unat (a_frame_arg A f 0)))
      (a_frame_arg A f 1 = NO_DELEGATE \<or> (?dlg \<noteq> None \<and> Ledger_len (k_ledger k) < Ledger_capacity (k_ledger k)))"
  show ?thesis
  proof (cases ?s)
    case (Inl why)
    then show ?thesis by (simp add: arm_spawn_def Let_def refl)
  next
    case (Inr slot)
    from go [OF HOL.refl conjunct1 [OF at [OF Inr]] conjunct2 [OF at [OF Inr]], of ?dlg "k_next_id k + 1" "unat (a_frame_arg A f 1)"]
      delegation_attenuates [of k "a_frame_arg A f 1" "a_frame_arg A f 2"]
    show ?thesis unfolding arm_spawn_def Let_def Inr by simp
  qed
qed

section \<open>Every step\<close>

lemma confined_arm: "confined k (snd (syscall_arm A (k_current k) f k))"
proof -
  have make: "confined k (snd (arm_make_region A (k_current k) f k))"
  proof (cases "mint_authority (pr_caps (proc_at k (k_current k))) (unat (a_frame_arg A f 0))")
    case True
    have bind: "snd (kbind r (\<lambda>ret. arm_ret A ret f)) = snd r" for r :: "('a, u64) kres"
      by (cases r) (simp add: kbind_def arm_ret_def split: sum.split)
    show ?thesis
      using confined_make [OF True] by (auto simp: arm_make_region_def Let_def bind confined_shrinks)
  qed (simp add: arm_make_region_def Let_def confined_shrinks)
  show ?thesis
    unfolding syscall_arm_def Let_def
    using make confined_spawn [of k A f]
    by (simp add: confined_shrinks shrinks_send shrinks_recv shrinks_irq_calls shrinks_quiet_calls shrinks_other_calls)
qed

lemma confined_syscall: "confined k (snd (syscall_trap A words k))"
proof -
  obtain r k' where r: "syscall_arm A (k_current k) (snapshot A words UserFrame_ZERO) k = (r, k')" by fastforce
  then have c: "confined k k'" using confined_arm [of k A "snapshot A words UserFrame_ZERO"] by simp
  have "shrinks k' (snd (resume_process A n (upd_frame cur (\<lambda>_. f) k')))" for n cur f
    by (rule shrinks_quiet [OF quiet_trans [OF quiet_upd_frame quiet_resume]])
  then show ?thesis
    using c confined_then [OF c] by (cases r) (simp_all add: syscall_trap_def Let_def r)
qed

lemma shrinks_interrupts:
  "shrinks k (snd (preempt_trap A words k))" "shrinks k (snd (device_trap A words k))" "shrinks k (snd (fault_trap A k))"
proof -
  have credit: "shrinks k (credit_irq A irq (upd_mach g k))" for irq g k
    by (rule shrink_steps.trans [OF shrinks_quiet shrinks_credit]) simp
  have frame: "shrinks k (credit_irq A irq (upd_mach g (upd_frame c h k)))" for irq g c h
    by (rule shrink_steps.trans [OF shrinks_quiet credit]) simp
  have res: "shrinks k (snd (resume_process A t k'))" if "shrinks k k'" for t k'
    by (rule shrink_steps.trans [OF that shrinks_resume])
  have wakes: "shrinks k k' \<Longrightarrow> shrinks k (k'\<lparr>k_idling := b, k_device_wakes := w, k_current := t\<rparr>)" for k' b w t
    by (erule shrink_steps.trans, rule shrinks_procs) simp_all
  show "shrinks k (snd (preempt_trap A words k))"
    by (simp add: preempt_trap_def Let_def credit frame res split: option.split)
  show "shrinks k (snd (device_trap A words k))"
    by (simp add: device_trap_def Let_def credit frame res wakes split: option.split)
  have dead: "shrinks k (snd (teardown_process A c (k\<lparr>k_killed := w\<rparr>)))" for c w
    by (rule shrink_steps.trans [OF shrinks_fields(6) shrinks_teardown])
  show "shrinks k (snd (fault_trap A k))"
    using dead [of "k_current k" "k_killed k + 1"] shrink_steps.trans [OF _ shrinks_run(2)]
    by (cases "teardown_process A (k_current k) (k\<lparr>k_killed := k_killed k + 1\<rparr>)")
      (auto simp: fault_trap_def Let_def split: sum.split)
qed

lemma confined_step: "kstep A (s, k) (s', k') \<Longrightarrow> confined k k'"
proof (induction "(s, k)" "(s', k')" rule: kstep.induct)
  case (syscall n words)
  then show ?case using confined_syscall [of k A words] by simp
next
  case (compute n m)
  have "shrinks k (k\<lparr>k_mach := m\<rparr>)" by (rule shrinks_procs) simp_all
  then show ?case using compute by (auto intro: confined_shrinks)
qed (metis confined_shrinks shrinks_interrupts snd_conv)+

lemma parked_shrinks: "kstep A (Parked, k) (s', k') \<Longrightarrow> shrinks k k'"
proof (induction "(Parked, k)" "(s', k')" rule: kstep.induct)
qed (metis shrinks_interrupts snd_conv)+

section \<open>The bound on authority\<close>

text \<open>The grants of the initial processes, as the boot resolves them.\<close>

definition boot_grants :: "'m Kernel \<Rightarrow> (CapType \<times> CapRights \<times> u64) set" where
  "boot_grants k = (\<Union>i<NUM_PROCS. set (map (grant_object k) (grants_for (boot_role (of_nat i)))))"

text \<open>Every capability is for a region issued before, or within the bound.\<close>

definition bounded_by :: "(CapType \<times> CapRights \<times> u64) set \<Rightarrow> 'm Kernel \<Rightarrow> bool" where
  "bounded_by G k \<longleftrightarrow> (\<forall>p<length (k_procs k). \<forall>c s. cap_at k p c = Some s \<longrightarrow> cap_type s = CapRegion \<and> object s < k_next_region k
     \<or> (\<exists>(t, r, ob) \<in> G. t = cap_type s \<and> ob = object s \<and> CapRights_contains r (rights s)))"

lemma bounded_confined:
  assumes "bounded_by G k" and "confined k k'" and "k_current k < length (k_procs k)"
  shows "bounded_by G k'"
  unfolding bounded_by_def
proof (intro allI impI)
  fix p c s
  assume p: "p < length (k_procs k')" and at: "cap_at k' p c = Some s"
  have len: "length (k_procs k') = length (k_procs k)" and le: "k_next_region k \<le> k_next_region k'"
    using assms(2) by (simp_all add: confined_def)
  consider "cap_at k p c = Some s" | "cap_type s = CapRegion \<and> object s < k_next_region k'" | "attenuated k s"
  proof -
    have "cap_at k p c = Some s \<or> minted k s \<and> k_next_region k < k_next_region k' \<or> attenuated k s"
      using assms(2) [unfolded confined_def, THEN conjunct2, THEN conjunct2, rule_format, OF _ at] p len by auto
    then show thesis using that by (auto simp: minted_def)
  qed
  then show "cap_type s = CapRegion \<and> object s < k_next_region k' \<or> (\<exists>(t, r, ob) \<in> G. t = cap_type s \<and> ob = object s \<and> CapRights_contains r (rights s))"
  proof cases
    case 1
    from assms(1) [unfolded bounded_by_def, rule_format, OF p [unfolded len] 1] show ?thesis using le by auto
  next
    case 3
    then obtain c' u where u: "cap_at k (k_current k) c' = Some u" "cap_type s = cap_type u" "object s = object u"
      "CapRights_contains (rights u) (rights s)" by (auto simp: attenuated_def)
    from assms(1,3) u(1) consider "cap_type u = CapRegion \<and> object u < k_next_region k"
      | t r ob where "(t, r, ob) \<in> G" "t = cap_type u" "ob = object u" "CapRights_contains r (rights u)"
      unfolding bounded_by_def by blast
    then show ?thesis
    proof cases
      case (2 t r ob)
      then have "CapRights_contains r (rights s)" using u(4) contains_trans by blast
      with 2 u(2,3) show ?thesis by (intro disjI2 bexI [of _ "(t, r, ob)"]) simp_all
    qed (use u(2,3) le in auto)
  qed simp
qed

lemma bounded_shrinks:
  assumes "bounded_by G k" and "shrinks k k'"
  shows "bounded_by G k'"
  unfolding bounded_by_def
proof (intro allI impI)
  fix p c s
  assume "p < length (k_procs k')" and "cap_at k' p c = Some s"
  then have "p < length (k_procs k)" "cap_at k p c = Some s" using assms(2) by (auto simp: shrinks_def)
  moreover have "k_next_region k' = k_next_region k" using assms(2) by (simp add: shrinks_def)
  ultimately show "cap_type s = CapRegion \<and> object s < k_next_region k' \<or> (\<exists>(t, r, ob) \<in> G. t = cap_type s \<and> ob = object s \<and> CapRights_contains r (rights s))"
    using assms(1) unfolding bounded_by_def by metis
qed

lemma reached_bounded:
  assumes "(kstep A)\<^sup>*\<^sup>* s s'" and "good_end s" and "bounded_by G (snd s)"
  shows "bounded_by G (snd s')"
  using assms
proof (induction rule: rtranclp_induct)
  case (step b c)
  obtain sb kb sc kc where bc: "b = (sb, kb)" "c = (sc, kc)" by fastforce
  have good: "good_end b" by (rule kreach_good [OF step.hyps(1) step.prems(1)])
  have conf: "confined kb kc" using step.hyps(2) bc confined_step by auto
  have "k_current kb < length (k_procs kb) \<or> shrinks kb kc"
  proof (cases sb)
    case (Resumed n)
    then show ?thesis using good by (simp add: bc live_inv_def running_def kinv_def)
  next
    case Parked
    then show ?thesis using parked_shrinks [of A kb sc kc] step.hyps(2) by (simp add: bc)
  qed (use step.hyps(2) bc kstep_stopped in auto)
  then show ?case
    using bounded_confined [of G kb kc] bounded_shrinks [of G kb kc] step.IH [OF step.prems] conf by (auto simp: bc)
qed simp

text \<open>The launch establishes the bound.\<close>

lemma lookup_grant_caps:
  "CapSpace_lookup (grant_caps gs (CapSpace_new n)) c = Some s \<Longrightarrow> (cap_type s, rights s, object s) \<in> set gs"
proof -
  have "CapSpace_lookup (grant_caps gs cs) c = Some s \<Longrightarrow> (cap_type s, rights s, object s) \<in> set gs \<or> CapSpace_lookup cs c = Some s" for cs
    unfolding grant_caps_def
  proof (induction gs arbitrary: cs)
    case (Cons g gs)
    obtain t r ob where g: "g = (t, r, ob)" by (cases g)
    show ?case
    proof (cases "CapSpace_insert t r ob cs")
      case None
      then show ?thesis using Cons by (auto simp: g)
    next
      case (Some x)
      obtain i cs' where x: "x = (i, cs')" by (cases x)
      from Cons.IH [of cs'] Cons.prems Some x lookup_insert_as [of t r ob cs i cs']
      show ?thesis by (auto simp: g split: if_splits)
    qed
  qed simp
  then show "CapSpace_lookup (grant_caps gs (CapSpace_new n)) c = Some s \<Longrightarrow> (cap_type s, rights s, object s) \<in> set gs" by fastforce
qed

definition booted :: "'m Kernel \<Rightarrow> 'm Kernel \<Rightarrow> bool" where
  "booted k0 k \<longleftrightarrow> bounded_by (boot_grants k0) k \<and> grant_object k = grant_object k0"

lemma load_boot_booted:
  assumes "booted k0 k" and "i < NUM_PROCS"
  shows "booted k0 (snd (load_boot A kt elf i k)) \<or> fst (load_boot A kt elf i k) = Inl Panicked"
proof (cases "k_fa k")
  case (Some fa)
  let ?role = "boot_role (of_nat i)"
  show ?thesis
  proof (rule load_cases [of A i "of_nat i" ?role fa kt elf k])
    fix F k1
    assume l: "load_process A i (of_nat i) ?role fa kt elf k = (Inr True, upd_proc i F k1)" and q: "quiet k k1"
      and g: "grant_object k1 = grant_object k"
      and F: "\<And>p. pr_caps (F p) = grant_caps (map (grant_object k) (grants_for ?role)) (CapSpace_new CAP_SLOTS)"
    have b: "bounded_by (boot_grants k0) k1" using bounded_shrinks [OF _ shrinks_quiet [OF q]] assms(1) by (simp add: booted_def)
    have new: "(cap_type s, rights s, object s) \<in> boot_grants k0" if "CapSpace_lookup (pr_caps (F (proc_at k1 i))) c = Some s" for c s
    proof -
      have "(cap_type s, rights s, object s) \<in> set (map (grant_object k0) (grants_for ?role))"
        using lookup_grant_caps [of "map (grant_object k) (grants_for ?role)"] that assms(1) unfolding F booted_def by metis
      then show ?thesis using assms(2) unfolding boot_grants_def by blast
    qed
    have "bounded_by (boot_grants k0) (sched_add i (upd_proc i F k1))"
    proof (rule bounded_shrinks [OF _ shrinks_fields(8)], unfold bounded_by_def, intro allI impI)
      fix p c s
      assume "p < length (k_procs (upd_proc i F k1))" and at: "cap_at (upd_proc i F k1) p c = Some s"
      then have p: "p < length (k_procs k1)" by simp
      show "cap_type s = CapRegion \<and> object s < k_next_region (upd_proc i F k1)
          \<or> (\<exists>(t, r, ob) \<in> boot_grants k0. t = cap_type s \<and> ob = object s \<and> CapRights_contains r (rights s))"
      proof (cases "p = i")
        case True
        then have "(cap_type s, rights s, object s) \<in> boot_grants k0" using at p new by (simp add: cap_at_upd)
        then show ?thesis by (intro disjI2 bexI [of _ "(cap_type s, rights s, object s)"]) simp_all
      next
        case False
        then have "cap_at k1 p c = Some s" using at by (simp add: cap_at_upd)
        moreover have "k_next_region (upd_proc i F k1) = k_next_region k1" by (simp add: upd_proc_def)
        ultimately show ?thesis using b p unfolding bounded_by_def by metis
      qed
    qed
    moreover have "grant_object (sched_add i (upd_proc i F k1)) = grant_object k0"
    proof -
      have "grant_object (sched_add i (upd_proc i F k1)) = grant_object k1"
        by (simp add: grant_object_def sched_add_def upd_proc_def fun_eq_iff)
      then show ?thesis using g assms(1) by (simp add: booted_def)
    qed
    ultimately show ?thesis using Some l by (simp add: load_boot_def kbind_def booted_def)
  next
    fix k1
    assume "load_process A i (of_nat i) ?role fa kt elf k = (Inr False, k1)"
    then show ?thesis using Some by (simp add: load_boot_def kbind_def)
  next
    fix k1
    assume "load_process A i (of_nat i) ?role fa kt elf k = (Inl Panicked, k1)"
    then show ?thesis using Some by (simp add: load_boot_def kbind_def)
  qed
qed (simp add: load_boot_def)

lemma kfor_booted:
  assumes "kfor xs (load_boot A kt elf) k = (Inr (), k')" and "booted k0 k" and "set xs \<subseteq> {..<NUM_PROCS}"
  shows "booted k0 k'"
  using assms
proof (induction xs arbitrary: k)
  case (Cons i xs)
  obtain e k1 where r: "load_boot A kt elf i k = (e, k1)" by fastforce
  have e: "e = Inr ()" using Cons.prems(1) r by (cases e) (simp_all add: kbind_def)
  have "booted k0 k1" using load_boot_booted [OF Cons.prems(2), of i A kt elf] Cons.prems(3) r e by simp
  then show ?case using Cons.IH [of k1] Cons.prems(1,3) r e by (simp add: kbind_def)
qed (simp add: kreturn_def)

lemma cold_booted:
  assumes "cold k" and "k_procs k' = k_procs k"
  shows "bounded_by G k'"
proof -
  have "cap_at k' p c = None" if "p < MAX_PROCS" for p c
    using that assms by (simp add: cap_at_def proc_at_def cold_def Process_EMPTY_def)
  then show ?thesis using assms by (simp add: bounded_by_def cold_def)
qed

lemma launch_bounded:
  assumes "cold k0" and "launch A start fa kt elf k0 = (s, k)" and "s \<noteq> Panicked"
  shows "bounded_by (boot_grants k0) k"
proof -
  let ?k = "k0\<lparr>k_user_elf := elf, k_token := kt, k_free_at_start := ba_free fa, k_fa := Some fa\<rparr>"
  obtain e k1 where r: "kfor [0..<NUM_PROCS] (load_boot A kt elf) ?k = (e, k1)" by fastforce
  have halts: "halts (kfor [0..<NUM_PROCS] (load_boot A kt elf) ?k)"
  proof (rule halts_kfor)
    fix i and k :: "'a Kernel"
    show "halts (load_boot A kt elf i k)"
      by (cases "k_fa k", simp add: load_boot_def)
        (rule load_cases [of A i "of_nat i" "boot_role (of_nat i)" "the (k_fa k)" kt elf k]; simp add: load_boot_def kbind_def)
  qed
  show ?thesis
  proof (cases e)
    case (Inl st)
    then show ?thesis using halts assms(2,3) by (auto simp: halts_def r launch_def)
  next
    case (Inr u)
    have "grant_object ?k = grant_object k0" by (simp add: grant_object_def fun_eq_iff)
    then have "booted k0 ?k" using cold_booted [OF assms(1), of ?k "boot_grants k0"] by (simp add: booted_def)
    then have b: "bounded_by (boot_grants k0) k1" using kfor_booted [of "[0..<NUM_PROCS]" A kt elf ?k k1 k0] r Inr by (auto simp: booted_def atLeast0LessThan)
    show ?thesis
    proof (cases "Scheduler_current (k_sched k1)")
      case (Some first)
      have "shrinks k1 (snd (resume_process A first (upd_mach start (k1\<lparr>k_current := first\<rparr>))))"
        by (rule shrink_steps.trans [OF shrinks_fields(1)], rule shrinks_quiet, rule quiet_trans [OF quiet_fields(1) quiet_resume])
      then show ?thesis using bounded_shrinks [OF b] assms(2) Some Inr by (simp add: launch_def r)
    qed (use assms(2,3) Inr in \<open>simp add: launch_def r\<close>)
  qed
qed

lemma stopped_stays: "(kstep A)\<^sup>*\<^sup>* (Panicked, k) s \<Longrightarrow> s = (Panicked, k)"
  by (induction rule: rtranclp_induct) (auto elim: kstep_stopped)

lemma reached_boot_bound:
  assumes "cold k0" and "(kstep A)\<^sup>*\<^sup>* (launch A start fa kt elf k0) (s, k)" and "s = Parked \<or> s = Resumed n"
  shows "bounded_by (boot_grants k0) k"
proof -
  obtain s1 k1 where l: "launch A start fa kt elf k0 = (s1, k1)" by fastforce
  have "s1 \<noteq> Panicked" using assms(2,3) stopped_stays [of A k1 "(s, k)"] by (auto simp: l)
  then have "bounded_by (boot_grants k0) k1" by (rule launch_bounded [OF assms(1) l])
  then show ?thesis using reached_bounded [OF assms(2) launch_good [OF assms(1)]] by (simp add: l)
qed

text \<open>The boot grants no region, so a region capability was minted.\<close>

lemma boot_grants_no_region: "(t, r, ob) \<in> boot_grants k \<Longrightarrow> t \<noteq> CapRegion"
proof -
  have "t' \<noteq> CapRegion" if "(t', r', g') \<in> set (grants_for role)" for t' r' g' role
    using that by (cases role) (auto simp: NO_AUTHORITY_def)
  then show "(t, r, ob) \<in> boot_grants k \<Longrightarrow> t \<noteq> CapRegion"
    by (fastforce simp: boot_grants_def grant_object_def NO_AUTHORITY_def Let_def split: if_splits)
qed

section \<open>A demonstration run that mints a region\<close>

text \<open>
  The last process of the demonstration machine asks for a region of one page under its untyped
  capability: the closed form of that call, its parts evaluated.
\<close>

lemma demo_untyped: "CapSpace_lookup (pr_caps (proc_at demo_k2 2)) 2 = Some \<lparr>cap_type = Untyped, rights = RIGHTS_ALL, object = 0\<rparr>"
  by code_simp

lemma demo_slot: "map_option fst (CapSpace_insert CapRegion RIGHTS_ALL 1 (pr_caps (proc_at demo_k2 2))) = Some 13"
  by code_simp

lemma demo_next_region: "k_next_region demo_k2 = 1"
  by code_simp

lemma demo_no_region: "list_all (\<lambda>r. \<not> kr_live r) (k_regions demo_k2) \<and> length (k_regions demo_k2) = MAX_REGIONS"
  by code_simp

lemma demo_frame: "map_option (\<lambda>fa. fst (alloc_dma_frame fa)) (k_fa demo_k2) = Some (Some 0)"
  by code_simp

lemma demo_ungranted: "list_all (\<lambda>di. Domain_granted (domain_at demo_k2 di) 0 = None) [0..<MAX_DOMAINS]"
  by code_simp

lemma demo_make:
  obtains cs r K where "make_region null_arch 2 1 RIGHTS_ALL demo_k2 = (Inr 13, K)"
    "CapSpace_insert CapRegion RIGHTS_ALL 1 (pr_caps (proc_at demo_k2 2)) = Some (13, cs)"
    "k_procs K = k_procs (upd_caps 2 (\<lambda>_. cs) demo_k2)" "k_regions K = (k_regions demo_k2)[0 := r]" "kr_live r" "kr_id r = 1"
    "k_next_region K = 2" "k_current K = 2"
proof -
  obtain fa fa' where fa: "k_fa demo_k2 = Some fa" "alloc_dma_frame fa = (Some 0, fa')"
    using demo_frame by (metis (no_types, lifting) map_option_eq_Some prod.collapse)
  obtain cs where cs: "CapSpace_insert CapRegion RIGHTS_ALL 1 (pr_caps (proc_at demo_k2 2)) = Some (13, cs)"
    using demo_slot by auto
  have none: "count_by (\<lambda>r. kr_live r \<and> kr_owner r = x) (k_regions demo_k2) = 0" for x
    using demo_no_region by (auto simp: count_by_0 list_all_iff)
  have free0: "position (\<lambda>r. \<not> kr_live r) (k_regions demo_k2) = Some 0"
    using demo_no_region by (cases "k_regions demo_k2") (simp_all add: position_def MAX_REGIONS_def)
  have same: "proc_at (demo_k2\<lparr>k_fa := f, k_mach := m\<rparr>) = proc_at demo_k2" for f m by (simp add: proc_at_def fun_eq_iff)
  have dom: "domain_at (demo_k2\<lparr>k_fa := f, k_mach := m, k_procs := ps, k_next_region := n\<rparr>) = domain_at demo_k2" for f m ps n
    by (simp add: domain_at_def fun_eq_iff)
  have free: "\<not> list_ex (\<lambda>di. \<exists>y. Domain_granted (domain_at demo_k2 di) 0 = Some y) [0..<MAX_DOMAINS]"
    using demo_ungranted by (auto simp: list_ex_iff list_all_iff)
  have add: "checked_add (1 :: u64) 1 = Some 2" by (simp add: checked_add_def)
  let ?r = "\<lparr>kr_live = True, kr_id = 1, kr_owner = pr_id (proc_at demo_k2 2), kr_frames = 0 # replicate (REGION_MAX_PAGES - 1) 0,
     kr_npages = 1\<rparr>"
  have "\<exists>K. make_region null_arch 2 1 RIGHTS_ALL demo_k2 = (Inr 13, K) \<and> k_procs K = k_procs (upd_caps 2 (\<lambda>_. cs) demo_k2)
     \<and> k_regions K = (k_regions demo_k2)[0 := ?r] \<and> k_next_region K = 2 \<and> k_current K = 2"
    by (simp add: make_region_def none REGION_QUOTA_def demo_next_region free0 add fa same cs dom free demo_current Let_def kreturn_def
        upd_caps_def upd_proc_def)
  then show thesis using that [OF _ cs, of _ ?r] by auto
qed

definition demo_made :: "unit Kernel" where "demo_made = snd (syscall_trap null_arch (demo_call sys_MAKE_REGION [2, 1]) demo_k2)"

lemma demo_mint:
  "fst (syscall_trap null_arch (demo_call sys_MAKE_REGION [2, 1]) demo_k2) = Resumed 2"
  "CapSpace_lookup (pr_caps (proc_at demo_made 2)) 13 = Some \<lparr>cap_type = CapRegion, rights = RIGHTS_ALL, object = 1\<rparr>"
  "kr_live (k_regions demo_made ! 0)" "kr_id (k_regions demo_made ! 0) = 1"
proof -
  let ?f = "snapshot null_arch (demo_call sys_MAKE_REGION [2, 1]) UserFrame_ZERO"
  have f: "a_frame_num null_arch ?f = sys_MAKE_REGION" "a_frame_arg null_arch ?f 0 = 2" "a_frame_arg null_arch ?f (Suc 0) = 1"
    by (simp_all add: null_arch_def snapshot_def demo_call_def)
  obtain cs r K where m: "make_region null_arch 2 1 RIGHTS_ALL demo_k2 = (Inr 13, K)"
    "CapSpace_insert CapRegion RIGHTS_ALL 1 (pr_caps (proc_at demo_k2 2)) = Some (13, cs)"
    "k_procs K = k_procs (upd_caps 2 (\<lambda>_. cs) demo_k2)" "k_regions K = (k_regions demo_k2)[0 := r]" "kr_live r" "kr_id r = 1"
    "k_next_region K = 2" "k_current K = 2" by (rule demo_make)
  have len: "length (k_procs demo_k2) = MAX_PROCS" using rest_kinv [OF cold_statics demo_reached(2) disjI2 [OF refl]] by (simp add: kinv_def)
  have "mint_authority (pr_caps (proc_at demo_k2 2)) 2"
    by (simp add: mint_authority_def demo_untyped is_mint_source_def CapRights_contains_def RIGHTS_ALL_def RIGHTS_WRITE_def)
  then have arm: "arm_make_region null_arch 2 ?f demo_k2 = (Inr (a_set_ret null_arch 13 ?f), K)"
    by (simp add: arm_make_region_def f demo_untyped m(1) kbind_def arm_ret_def Let_def REGION_MAX_PAGES_def)
  let ?K = "upd_frame 2 (\<lambda>_. a_set_ret null_arch 13 ?f) K"
  have t: "syscall_trap null_arch (demo_call sys_MAKE_REGION [2, 1]) demo_k2 = resume_process null_arch 2 ?K"
    by (simp add: syscall_trap_def demo_current syscall_arm_def f Let_def arm m(8) upd_frame_def upd_proc_def)
      (simp add: arm m(8) sys_WAIT_IRQ_def sys_YIELD_def sys_EXIT_def sys_SEND_def sys_RECV_def sys_SPAWN_def sys_MAKE_REGION_def upd_frame_def upd_proc_def)
  have caps: "pr_caps (proc_at (snd (resume_process null_arch 2 k)) 2) = pr_caps (proc_at k 2)"
    and regs: "k_regions (snd (resume_process null_arch 2 k)) = k_regions k" if "2 < length (k_procs k)" for k
    using that by (auto simp: resume_process_def Let_def upd_frame_def upd_proc_def upd_mach_def proc_at_def split: prod.split)
  have K: "2 < length (k_procs ?K)" "pr_caps (proc_at ?K 2) = cs" "k_regions ?K = (k_regions demo_k2)[0 := r]"
    using len by (simp_all add: upd_frame_def upd_proc_def proc_at_def m(3,4) upd_caps_def MAX_PROCS_def)
  show "fst (syscall_trap null_arch (demo_call sys_MAKE_REGION [2, 1]) demo_k2) = Resumed 2"
    unfolding t by (simp add: resume_process_def Let_def split: prod.split)
  show "CapSpace_lookup (pr_caps (proc_at demo_made 2)) 13 = Some \<lparr>cap_type = CapRegion, rights = RIGHTS_ALL, object = 1\<rparr>"
    using lookup_insert_as [OF m(2)] by (simp add: demo_made_def t caps [OF K(1)] K(2))
  show "kr_live (k_regions demo_made ! 0)" "kr_id (k_regions demo_made ! 0) = 1"
    using demo_no_region m(5,6) by (simp_all add: demo_made_def t regs [OF K(1)] K(3) MAX_REGIONS_def)
qed
section \<open>Properties\<close>

text \<open>
  (C2) One system call, whatever its number and arguments: every capability in any slot afterwards was
  in that slot before, or is the one region the caller minted under an untyped capability it holds
  with WRITE, with the rights of that one and an id never used before, or lies in the slot of a
  process that did not exist and is a copy of a capability of the caller with no more rights.
\<close>

theorem syscall_confines_authority:
  assumes "length (k_procs k) = MAX_PROCS" and "syscall_trap A words k = (s, k')" and "p < MAX_PROCS"
    and "CapSpace_lookup (pr_caps (proc_at k' p)) c = Some cap"
  shows "CapSpace_lookup (pr_caps (proc_at k p)) c = Some cap
    \<or> p = k_current k \<and> cap_type cap = CapRegion \<and> object cap = k_next_region k
        \<and> (\<exists>c0 u. CapSpace_lookup (pr_caps (proc_at k (k_current k))) c0 = Some u \<and> cap_type u = Untyped
              \<and> CapRights_contains (rights u) RIGHTS_WRITE \<and> rights cap = rights u)
    \<or> pr_state (proc_at k p) = PFree
        \<and> (\<exists>c0 u. CapSpace_lookup (pr_caps (proc_at k (k_current k))) c0 = Some u \<and> cap_type cap = cap_type u
              \<and> object cap = object u \<and> CapRights_contains (rights u) (rights cap))"
proof -
  have "confined k k'" using confined_syscall [of k A words] assms(2) by simp
  then have "cap_at k p c = Some cap \<or> p = k_current k \<and> minted k cap \<or> pr_state (proc_at k p) = PFree \<and> attenuated k cap"
    using assms(1,3,4) unfolding confined_def cap_at_def by metis
  then show ?thesis by (auto simp: cap_at_def minted_def attenuated_def is_mint_source_def)
qed

theorem syscall_confines_authority_witness:
  "CapSpace_lookup (pr_caps (proc_at demo_sent 0)) 0 = Some \<lparr>cap_type = CapEndpoint, rights = RIGHTS_WRITE, object = 0\<rparr>
   \<and> CapSpace_lookup (pr_caps (proc_at demo_k0 0)) 0 = Some \<lparr>cap_type = CapEndpoint, rights = RIGHTS_WRITE, object = 0\<rparr>"
proof -
  have call: "syscall_trap null_arch (demo_call sys_SEND [0, 1, 0, 0]) demo_k0 = (Resumed 1, demo_sent)"
    by (rule prod_eqI) (simp_all add: demo_send demo_sent_def)
  have facts: "length (k_procs demo_k0) = MAX_PROCS" "pr_state (proc_at demo_k0 0) = PReady" "0 < MAX_PROCS" by code_simp+
  have c: "CapSpace_lookup (pr_caps (proc_at demo_sent 0)) 0 = Some \<lparr>cap_type = CapEndpoint, rights = RIGHTS_WRITE, object = 0\<rparr>"
    by code_simp
  from syscall_confines_authority [OF facts(1) call facts(3) c] c facts(2) show ?thesis by auto
qed

text \<open>
  (C1) Authority is never created: in every state a launched machine runs or parks in, each
  capability any slot of the table holds names a region, or the same type and object as a grant of
  the boot to an initial process, with no rights beyond that grant's.
\<close>

theorem authority_is_granted_at_boot:
  assumes "cold k0" and "(kstep A)\<^sup>*\<^sup>* (launch A start fa kt elf k0) (s, k)" and "s = Parked \<or> s = Resumed n"
    and "p < MAX_PROCS" and "CapSpace_lookup (pr_caps (proc_at k p)) c = Some cap"
  shows "cap_type cap = CapRegion
    \<or> (\<exists>i<NUM_PROCS. \<exists>(t, r, ob) \<in> set (map (grant_object k0) (grants_for (boot_role (of_nat i)))).
          t = cap_type cap \<and> ob = object cap \<and> CapRights_contains r (rights cap))"
proof -
  have b: "bounded_by (boot_grants k0) k" by (rule reached_boot_bound [OF assms(1-3)])
  have "length (k_procs k) = MAX_PROCS" using rest_kinv [OF assms(1-3)] by (simp add: kinv_def)
  then have "cap_type cap = CapRegion
    \<or> (\<exists>(t, r, ob) \<in> boot_grants k0. t = cap_type cap \<and> ob = object cap \<and> CapRights_contains r (rights cap))"
    using b assms(4,5) unfolding bounded_by_def cap_at_def by metis
  then show ?thesis unfolding boot_grants_def by (simp only: UN_iff Bex_def lessThan_iff) blast
qed

theorem authority_is_granted_at_boot_witness:
  "CapSpace_lookup (pr_caps (proc_at demo_sent 0)) 0 = Some \<lparr>cap_type = CapEndpoint, rights = RIGHTS_WRITE, object = 0\<rparr>
   \<and> (\<exists>i<NUM_PROCS. \<exists>(t, r, ob) \<in> set (map (grant_object (Kernel_statics ())) (grants_for (boot_role (of_nat i)))).
          t = CapEndpoint \<and> ob = 0 \<and> CapRights_contains r RIGHTS_WRITE)"
proof -
  have c: "CapSpace_lookup (pr_caps (proc_at demo_sent 0)) 0 = Some \<lparr>cap_type = CapEndpoint, rights = RIGHTS_WRITE, object = 0\<rparr>"
    by code_simp
  from authority_is_granted_at_boot [OF cold_statics demo_reached(5) disjI2 [OF refl] _ c] c show ?thesis by (simp add: MAX_PROCS_def)
qed

text \<open>
  (C20) The name of a region is never used again: in every state a launched machine runs or parks in,
  live regions have distinct ids, and every id that names anything, be it of a live region or of a
  region capability in any slot of the table, was issued before: it lies below the number the next
  region gets. A capability that outlives its region can therefore never come to name another one.
\<close>

theorem region_names_are_never_reused:
  assumes "cold k0" and "(kstep A)\<^sup>*\<^sup>* (launch A start fa kt elf k0) (s, k)" and "s = Parked \<or> s = Resumed n"
  shows "distinct (map kr_id (filter kr_live (k_regions k)))
    \<and> (\<forall>r \<in> set (k_regions k). kr_live r \<longrightarrow> 0 < kr_id r \<and> kr_id r < k_next_region k)
    \<and> (\<forall>p<MAX_PROCS. \<forall>c cap. CapSpace_lookup (pr_caps (proc_at k p)) c = Some cap \<and> cap_type cap = CapRegion
         \<longrightarrow> object cap < k_next_region k)"
proof -
  have inv: "kinv k" by (rule rest_kinv [OF assms])
  have len: "length (k_procs k) = MAX_PROCS" using inv by (simp add: kinv_def)
  have "object cap < k_next_region k"
    if "p < MAX_PROCS" "CapSpace_lookup (pr_caps (proc_at k p)) c = Some cap" "cap_type cap = CapRegion" for p c cap
  proof -
    have "object cap < k_next_region k \<or> (\<exists>(t, r, ob) \<in> boot_grants k0. t = CapRegion)"
      using reached_boot_bound [OF assms] that unfolding bounded_by_def cap_at_def len by fastforce
    then show ?thesis using boot_grants_no_region by blast
  qed
  then have "\<forall>p<MAX_PROCS. \<forall>c cap. CapSpace_lookup (pr_caps (proc_at k p)) c = Some cap \<and> cap_type cap = CapRegion
      \<longrightarrow> object cap < k_next_region k" by blast
  moreover have "regions_ok k" using inv by (simp add: kinv_def sized_def)
  ultimately show ?thesis by (simp add: regions_ok_def region_shape_def live_ids_def)
qed

theorem region_names_are_never_reused_witness:
  "CapSpace_lookup (pr_caps (proc_at demo_made 2)) 13 = Some \<lparr>cap_type = CapRegion, rights = RIGHTS_ALL, object = 1\<rparr>
   \<and> kr_live (k_regions demo_made ! 0) \<and> kr_id (k_regions demo_made ! 0) = 1 \<and> 1 < k_next_region demo_made"
proof -
  have "demo_reaches (Resumed 2, demo_made)"
    by (rule demo_step [OF demo_reached(2)]) (rule prod_eqI, simp_all add: demo_mint(1) demo_made_def)
  note n = region_names_are_never_reused [OF cold_statics this disjI2 [OF refl]]
  have "(2 :: nat) < MAX_PROCS" by (simp add: MAX_PROCS_def)
  from n [THEN conjunct2, THEN conjunct2, rule_format, OF this conjI [OF demo_mint(2)]] demo_mint(2-4) show ?thesis by simp
qed

end
