(* ===== verification/Bootinfo.thy ===== *)
theory Bootinfo
  imports Kstate Loader
begin

text \<open>
  The memory map of the machine as the boot protocols hand it over (src/crates/kernel/src/pvh.rs,
  src/crates/kernel/src/multiboot.rs), read from physical memory as a function from addresses to
  bytes. Both parsers clip what they are told to the identity-mapped window; their reads stay in
  it, their walks end whatever the loader declares, and every frame the allocator offers from such
  a map lies inside the window.
\<close>

type_synonym memory = "u64 \<Rightarrow> u8"

section \<open>Reading memory\<close>

text \<open>The slice of \<open>n\<close> bytes at an address, and the little-endian words the structures are made of.\<close>

definition bytes_at :: "memory \<Rightarrow> u64 \<Rightarrow> nat \<Rightarrow> u8 list" where
  "bytes_at mem a n = map (\<lambda>i. mem (a + of_nat i)) [0..<n]"

definition rd32 :: "memory \<Rightarrow> u64 \<Rightarrow> u32" where
  "rd32 mem a = from_le_bytes (bytes_at mem a 4)"

definition rd64 :: "memory \<Rightarrow> u64 \<Rightarrow> u64" where
  "rd64 mem a = from_le_bytes (bytes_at mem a 8)"

definition IDENTITY_LIMIT :: u64 where "IDENTITY_LIMIT = 0x40000000"

section \<open>PVH\<close>

definition PVH_MAGIC :: u32 where "PVH_MAGIC = 0x336ec578"
definition MAX_MAP_ENTRIES :: usize where "MAX_MAP_ENTRIES = 256"
definition ENTRY_SIZE :: u64 where "ENTRY_SIZE = 24"

record HvmStartInfo =
  si_magic :: u32
  si_version :: u32
  si_rsdp_paddr :: u64
  si_memmap_paddr :: u64
  si_memmap_entries :: u32

definition start_info_at :: "memory \<Rightarrow> u64 \<Rightarrow> HvmStartInfo" where
  "start_info_at mem a =
     \<lparr>si_magic = rd32 mem a, si_version = rd32 mem (a + 4), si_rsdp_paddr = rd64 mem (a + 32),
      si_memmap_paddr = rd64 mem (a + 40), si_memmap_entries = rd32 mem (a + 48)\<rparr>"

record HvmMemmapEntry =
  me_addr :: u64
  me_size :: u64
  me_typ :: u32

definition memmap_entry_at :: "memory \<Rightarrow> u64 \<Rightarrow> HvmMemmapEntry" where
  "memmap_entry_at mem a = \<lparr>me_addr = rd64 mem a, me_size = rd64 mem (a + 8), me_typ = rd32 mem (a + 16)\<rparr>"

definition pvh_kind_of :: "u32 \<Rightarrow> MemoryKind" where
  "pvh_kind_of typ = (if typ = 1 then Usable else if typ = 2 then Reserved else if typ = 3 then AcpiReclaimable
     else if typ = 4 then AcpiNvs else Unusable)"

definition walkable_entries :: "u64 \<Rightarrow> u32 \<Rightarrow> usize" where
  "walkable_entries memmap_paddr declared =
     (if memmap_paddr = 0 \<or> memmap_paddr \<ge> IDENTITY_LIMIT then 0
      else let capped = min (unat declared) MAX_MAP_ENTRIES;
               room = (IDENTITY_LIMIT - memmap_paddr) div ENTRY_SIZE
           in min capped (unat room))"

text \<open>The clipping both parsers do: an entry that is empty inside the window is skipped.\<close>

definition window_end :: "u64 \<Rightarrow> u64 \<Rightarrow> u64" where
  "window_end start sz = min (saturating_add start sz) IDENTITY_LIMIT"

fun pvh_walk :: "memory \<Rightarrow> u64 \<Rightarrow> nat list \<Rightarrow> MemoryRegion list \<times> usize \<Rightarrow> MemoryRegion list \<times> usize" where
  "pvh_walk mem tab [] (out, count) = (out, count)"
| "pvh_walk mem tab (i # is) (out, count) =
     (if length out \<le> count then (out, count)
      else let e = memmap_entry_at mem (tab + of_nat i * ENTRY_SIZE);
               start = me_addr e; end' = window_end (me_addr e) (me_size e)
           in if end' \<le> start then pvh_walk mem tab is (out, count)
              else pvh_walk mem tab is
                (out[count := \<lparr>mr_start = start, mr_len = end' - start, mr_kind = pvh_kind_of (me_typ e)\<rparr>], count + 1))"

definition pvh_memory_map :: "memory \<Rightarrow> u64 \<Rightarrow> MemoryRegion list \<Rightarrow> MemoryRegion list \<times> usize" where
  "pvh_memory_map mem start_info out =
     (if start_info = 0 then (out, 0)
      else let si = start_info_at mem start_info
           in if si_magic si \<noteq> PVH_MAGIC \<or> si_version si < 1 \<or> si_memmap_paddr si = 0 then (out, 0)
              else pvh_walk mem (si_memmap_paddr si)
                     [0..<walkable_entries (si_memmap_paddr si) (si_memmap_entries si)] (out, 0))"

definition pvh_rsdp :: "memory \<Rightarrow> u64 \<Rightarrow> u64 option" where
  "pvh_rsdp mem start_info =
     (if start_info = 0 then None
      else let si = start_info_at mem start_info
           in if si_magic si \<noteq> PVH_MAGIC \<or> si_version si < 1 then None
              else if si_rsdp_paddr si = 0 then None
              else if si_rsdp_paddr si \<ge> IDENTITY_LIMIT then None else Some (si_rsdp_paddr si))"

definition pvh_rsdp_raw :: "memory \<Rightarrow> u64 \<Rightarrow> u64" where
  "pvh_rsdp_raw mem start_info =
     (if start_info = 0 then 0
      else let si = start_info_at mem start_info in if si_magic si \<noteq> PVH_MAGIC then 0 else si_rsdp_paddr si)"

section \<open>Multiboot\<close>

definition MAX_ENTRIES :: usize where "MAX_ENTRIES = 256"

definition mb_kind_of :: "u32 \<Rightarrow> MemoryKind" where
  "mb_kind_of typ = (if typ = 1 then Usable else if typ = 3 then AcpiReclaimable else if typ = 4 then AcpiNvs
     else if typ = 5 then Unusable else Reserved)"

definition walkable_bytes :: "u64 \<Rightarrow> u32 \<Rightarrow> usize" where
  "walkable_bytes mmap_addr mmap_length =
     (if mmap_addr = 0 \<or> mmap_addr \<ge> IDENTITY_LIMIT then 0
      else let room = IDENTITY_LIMIT - mmap_addr in unat (min (ucast mmap_length) room))"

definition parse_entry :: "u8 list \<Rightarrow> (MemoryRegion \<times> usize) option" where
  "parse_entry buf =
     (if length buf < 24 then None
      else let size = unat (from_le_bytes (take 4 buf) :: u32)
           in if size < 20 then None
              else let base = from_le_bytes (take 8 (drop 4 buf)); len = from_le_bytes (take 8 (drop 12 buf));
                       typ = from_le_bytes (take 4 (drop 20 buf))
                   in Some (\<lparr>mr_start = base, mr_len = len, mr_kind = mb_kind_of typ\<rparr>, size + 4))"

function mb_walk :: "u8 list \<Rightarrow> usize \<Rightarrow> usize \<Rightarrow> MemoryRegion list \<times> usize \<Rightarrow> MemoryRegion list \<times> usize" where
  "mb_walk buf off seen (out, count) =
     (if off < length buf \<and> count < length out \<and> seen < MAX_ENTRIES
      then case parse_entry (drop off buf) of
             None \<Rightarrow> (out, count)
           | Some (r, step) \<Rightarrow>
               let end' = window_end (mr_start r) (mr_len r)
               in if end' \<le> mr_start r then mb_walk buf (off + step) (seen + 1) (out, count)
                  else mb_walk buf (off + step) (seen + 1) (out[count := r\<lparr>mr_len := end' - mr_start r\<rparr>], count + 1)
      else (out, count))"
  by pat_completeness auto
termination by (relation "measure (\<lambda>(buf, off, seen, out, count). MAX_ENTRIES - seen)") auto

declare mb_walk.simps [simp del]

definition mb_memory_map :: "memory \<Rightarrow> u64 \<Rightarrow> MemoryRegion list \<Rightarrow> MemoryRegion list \<times> usize" where
  "mb_memory_map mem info out =
     (if info = 0 \<or> info \<ge> IDENTITY_LIMIT then (out, 0)
      else let flags = rd32 mem info
           in if flags AND push_bit 6 1 = 0 then (out, 0)
              else let mmap_length = rd32 mem (info + 44); mmap_addr = ucast (rd32 mem (info + 48));
                       bytes = walkable_bytes mmap_addr mmap_length
                   in if bytes = 0 then (out, 0) else mb_walk (bytes_at mem mmap_addr bytes) 0 0 (out, 0))"

text \<open>Which protocol is compiled in is decided by the build.\<close>

definition x86_memory_map :: "bool \<Rightarrow> memory \<Rightarrow> u64 \<Rightarrow> MemoryRegion list \<Rightarrow> MemoryRegion list \<times> usize" where
  "x86_memory_map firmware mem a0 out = (if firmware then mb_memory_map mem a0 out else pvh_memory_map mem a0 out)"

section \<open>What is read\<close>

text \<open>The bytes below the limit of the identity map, and those of a structure at a given address.\<close>

definition in_window :: "u64 \<Rightarrow> bool" where
  "in_window a \<longleftrightarrow> a < IDENTITY_LIMIT"

definition in_struct :: "u64 \<Rightarrow> nat \<Rightarrow> u64 \<Rightarrow> bool" where
  "in_struct base n a \<longleftrightarrow> (\<exists>i<n. a = base + of_nat i)"

definition agree_on :: "(u64 \<Rightarrow> bool) \<Rightarrow> memory \<Rightarrow> memory \<Rightarrow> bool" where
  "agree_on P m m' \<longleftrightarrow> (\<forall>a. P a \<longrightarrow> m a = m' a)"

lemma bytes_at_cong: "(\<And>i. i < n \<Longrightarrow> m (a + of_nat i) = m' (a + of_nat i)) \<Longrightarrow> bytes_at m a n = bytes_at m' a n"
  by (simp add: bytes_at_def)

lemma length_bytes_at [simp]: "length (bytes_at m a n) = n"
  by (simp add: bytes_at_def)

lemma window_room: "in_window a \<Longrightarrow> unat i < unat (IDENTITY_LIMIT - a) \<Longrightarrow> in_window (a + i)"
  unfolding in_window_def IDENTITY_LIMIT_def by (simp add: word_less_nat_alt unat_sub_if' unat_word_ariths word_le_nat_alt split: if_splits)

lemma bytes_at_window:
  assumes "agree_on in_window m m'" and "unat a + n \<le> unat IDENTITY_LIMIT"
  shows "bytes_at m a n = bytes_at m' a n"
proof (rule bytes_at_cong)
  fix i assume i: "i < n"
  then have "unat (a + of_nat i) = unat a + i"
    using assms(2) by (intro unat_add_of_nat) (simp add: IDENTITY_LIMIT_def)
  then have "in_window (a + of_nat i)"
    using i assms(2) by (simp add: in_window_def word_less_nat_alt)
  then show "m (a + of_nat i) = m' (a + of_nat i)" using assms(1) by (simp add: agree_on_def)
qed

lemma bytes_at_struct:
  assumes "agree_on (in_struct base sz) m m'" and "off + n \<le> sz"
  shows "bytes_at m (base + of_nat off) n = bytes_at m' (base + of_nat off) n"
proof (rule bytes_at_cong)
  fix i assume "i < n"
  then have "in_struct base sz (base + of_nat off + of_nat i)"
    using assms(2) unfolding in_struct_def by (intro exI [of _ "off + i"]) simp
  then show "m (base + of_nat off + of_nat i) = m' (base + of_nat off + of_nat i)"
    using assms(1) by (simp add: agree_on_def)
qed

lemma start_info_cong: "agree_on (in_struct a 56) m m' \<Longrightarrow> start_info_at m a = start_info_at m' a"
  using bytes_at_struct [of a 56 m m' 0 4] bytes_at_struct [of a 56 m m' 4 4] bytes_at_struct [of a 56 m m' 32 8]
    bytes_at_struct [of a 56 m m' 40 8] bytes_at_struct [of a 56 m m' 48 4]
  by (simp add: start_info_at_def rd32_def rd64_def)

lemma entry_in_window:
  assumes "i < walkable_entries tab declared"
  shows "unat (tab + of_nat i * ENTRY_SIZE) + 24 \<le> unat IDENTITY_LIMIT"
proof -
  have t: "tab < IDENTITY_LIMIT" and i: "i < unat ((IDENTITY_LIMIT - tab) div ENTRY_SIZE)" "i < 256"
    using assms by (auto simp: walkable_entries_def MAX_MAP_ENTRIES_def Let_def split: if_splits)
  have "unat tab + (i + 1) * 24 \<le> unat IDENTITY_LIMIT"
    using t i by (simp add: unat_div ENTRY_SIZE_def IDENTITY_LIMIT_def word_less_nat_alt unat_sub_if' word_le_nat_alt split: if_splits)
  moreover have "unat (tab + of_nat (i * 24)) = unat tab + i * 24"
    using calculation by (intro unat_add_of_nat) (simp add: IDENTITY_LIMIT_def)
  ultimately show ?thesis by (simp add: ENTRY_SIZE_def)
qed

lemma memmap_entry_cong:
  assumes "agree_on in_window m m'" and "unat a + 24 \<le> unat IDENTITY_LIMIT"
  shows "memmap_entry_at m a = memmap_entry_at m' a"
proof -
  have "unat (a + of_nat d) = unat a + d" if "d \<le> 24" for d
    using assms(2) that by (intro unat_add_of_nat) (simp add: IDENTITY_LIMIT_def)
  from this [of 8] this [of 16] show ?thesis
    using assms bytes_at_window [OF assms(1), of a 8] bytes_at_window [OF assms(1), of "a + 8" 8]
      bytes_at_window [OF assms(1), of "a + 16" 4]
    by (simp add: memmap_entry_at_def rd64_def rd32_def)
qed

lemma pvh_walk_cong:
  assumes "agree_on in_window m m'" and "\<forall>i \<in> set is. unat (tab + of_nat i * ENTRY_SIZE) + 24 \<le> unat IDENTITY_LIMIT"
  shows "pvh_walk m tab is oc = pvh_walk m' tab is oc"
  using assms(2)
proof (induction "is" arbitrary: oc)
  case Nil
  then show ?case by (cases oc) simp
next
  case (Cons i "is")
  then show ?case using memmap_entry_cong [OF assms(1), of "tab + of_nat i * ENTRY_SIZE"] by (cases oc) (simp add: Let_def)
qed

lemma pvh_map_cong:
  assumes "agree_on in_window m m'" and "agree_on (in_struct a 56) m m'"
  shows "pvh_memory_map m a out = pvh_memory_map m' a out"
proof -
  define si where "si = start_info_at m' a"
  have si: "start_info_at m a = si" by (simp add: start_info_cong [OF assms(2)] si_def)
  have "pvh_walk m (si_memmap_paddr si) [0..<walkable_entries (si_memmap_paddr si) (si_memmap_entries si)] oc =
      pvh_walk m' (si_memmap_paddr si) [0..<walkable_entries (si_memmap_paddr si) (si_memmap_entries si)] oc" for oc
    using entry_in_window by (intro pvh_walk_cong [OF assms(1)]) simp
  then show ?thesis by (simp add: pvh_memory_map_def si si_def [symmetric] Let_def)
qed

lemma walkable_bytes_room: "walkable_bytes a n \<noteq> 0 \<Longrightarrow> unat a + walkable_bytes a n \<le> unat IDENTITY_LIMIT"
  by (auto simp: walkable_bytes_def Let_def min_def unat_sub_if' word_le_nat_alt word_less_nat_alt IDENTITY_LIMIT_def split: if_splits)

lemma mb_map_cong:
  assumes "agree_on in_window m m'" and "agree_on (in_struct a 52) m m'"
  shows "mb_memory_map m a out = mb_memory_map m' a out"
proof -
  have "rd32 m a = rd32 m' a" "rd32 m (a + 44) = rd32 m' (a + 44)" "rd32 m (a + 48) = rd32 m' (a + 48)"
    using bytes_at_struct [OF assms(2), of 0 4] bytes_at_struct [OF assms(2), of 44 4] bytes_at_struct [OF assms(2), of 48 4]
    by (simp_all add: rd32_def)
  then show ?thesis
    using bytes_at_window [OF assms(1) walkable_bytes_room] by (simp add: mb_memory_map_def Let_def)
qed

section \<open>What is reported\<close>

definition clipped :: "MemoryRegion \<Rightarrow> bool" where
  "clipped r \<longleftrightarrow> 0 < mr_len r \<and> unat (mr_start r) + unat (mr_len r) \<le> unat IDENTITY_LIMIT"

definition map_inv :: "nat \<Rightarrow> MemoryRegion list \<times> usize \<Rightarrow> bool" where
  "map_inv n oc \<longleftrightarrow> length (fst oc) = n \<and> snd oc \<le> n \<and> (\<forall>r \<in> set (take (snd oc) (fst oc)). clipped r)"

lemma window_end_clipped:
  assumes "\<not> window_end start sz \<le> start"
  shows "clipped \<lparr>mr_start = start, mr_len = window_end start sz - start, mr_kind = k\<rparr>"
proof -
  have "start < window_end start sz" "window_end start sz \<le> IDENTITY_LIMIT" using assms by (auto simp: window_end_def not_le)
  then show ?thesis by (simp add: clipped_def unat_sub_if' word_less_nat_alt word_le_nat_alt)
qed

lemma map_inv_push:
  assumes "map_inv n (out, c)" and "c < n" and "clipped r"
  shows "map_inv n (out[c := r], c + 1)"
  using assms by (auto simp: map_inv_def take_Suc_conv_app_nth)

lemma pvh_walk_inv: "map_inv n oc \<Longrightarrow> map_inv n (pvh_walk m tab is oc)"
proof (induction "is" arbitrary: oc)
  case Nil
  then show ?case by (cases oc) simp
next
  case (Cons i "is")
  obtain out c where oc: "oc = (out, c)" by fastforce
  let ?e = "memmap_entry_at m (tab + of_nat i * ENTRY_SIZE)"
  have push: "map_inv n (out[c := \<lparr>mr_start = me_addr ?e, mr_len = window_end (me_addr ?e) (me_size ?e) - me_addr ?e,
      mr_kind = pvh_kind_of (me_typ ?e)\<rparr>], c + 1)"
    if "\<not> window_end (me_addr ?e) (me_size ?e) \<le> me_addr ?e" and "c < length out"
    using Cons.prems that(2) by (intro map_inv_push window_end_clipped [OF that(1)]) (simp_all add: oc map_inv_def)
  show ?case
    using Cons.prems Cons.IH push by (simp add: oc Let_def del: One_nat_def)
qed

lemma mb_walk_inv: "map_inv n oc \<Longrightarrow> map_inv n (mb_walk buf off seen oc)"
proof (induction buf off seen oc rule: mb_walk.induct)
  case (1 buf off seen out count)
  show ?case
  proof (cases "off < length buf \<and> count < length out \<and> seen < MAX_ENTRIES")
    case True
    show ?thesis
    proof (cases "parse_entry (drop off buf)")
      case None
      then show ?thesis using True 1(3) by (subst mb_walk.simps) simp
    next
      case (Some e)
      obtain r step where e: "e = (r, step)" by fastforce
      have "clipped (r\<lparr>mr_len := window_end (mr_start r) (mr_len r) - mr_start r\<rparr>)"
        if "\<not> window_end (mr_start r) (mr_len r) \<le> mr_start r"
        using window_end_clipped [OF that, of "mr_kind r"] by (simp add: clipped_def)
      then have "map_inv n (out[count := r\<lparr>mr_len := window_end (mr_start r) (mr_len r) - mr_start r\<rparr>], count + 1)"
        if "\<not> window_end (mr_start r) (mr_len r) \<le> mr_start r"
        using that True 1(3) by (intro map_inv_push) (auto simp: map_inv_def)
      then show ?thesis
        using True 1 Some e by (subst mb_walk.simps) (simp add: Let_def)
    qed
  next
    case False
    then show ?thesis using 1(3) by (subst mb_walk.simps) auto
  qed
qed

lemma x86_map_inv: "map_inv (length out) (x86_memory_map firmware m a out)"
proof -
  have "map_inv (length out) (out, 0)" by (simp add: map_inv_def)
  then show ?thesis
    by (simp add: x86_memory_map_def mb_memory_map_def pvh_memory_map_def Let_def pvh_walk_inv mb_walk_inv)
qed

lemma clipped_region_ok: "clipped r \<Longrightarrow> region_ok r"
  by (simp add: clipped_def region_ok_def IDENTITY_LIMIT_def)

section \<open>The map as a whole\<close>

text \<open>What one entry of the table contributes.\<close>

definition clip_entry :: "HvmMemmapEntry \<Rightarrow> MemoryRegion option" where
  "clip_entry e =
     (if window_end (me_addr e) (me_size e) \<le> me_addr e then None
      else Some \<lparr>mr_start = me_addr e, mr_len = window_end (me_addr e) (me_size e) - me_addr e, mr_kind = pvh_kind_of (me_typ e)\<rparr>)"

lemma pvh_walk_takes:
  assumes "c \<le> length out"
  shows "case pvh_walk m tab is (out, c) of (out', n) \<Rightarrow>
    take n out' = take c out @ take (length out - c)
      (List.map_filter (\<lambda>i. clip_entry (memmap_entry_at m (tab + of_nat i * ENTRY_SIZE))) is)"
  using assms
proof (induction "is" arbitrary: out c)
  case Nil
  then show ?case by simp
next
  case (Cons i "is")
  let ?e = "memmap_entry_at m (tab + of_nat i * ENTRY_SIZE)"
  show ?case
  proof (cases "c < length out")
    case False
    then show ?thesis using Cons.prems by simp
  next
    case True
    show ?thesis
    proof (cases "clip_entry ?e")
      case None
      then have "window_end (me_addr ?e) (me_size ?e) \<le> me_addr ?e" by (simp add: clip_entry_def split: if_splits)
      with None True Cons.IH [of c out] show ?thesis by (simp add: Let_def)
    next
      case (Some r)
      then have r: "\<not> window_end (me_addr ?e) (me_size ?e) \<le> me_addr ?e"
        "r = \<lparr>mr_start = me_addr ?e, mr_len = window_end (me_addr ?e) (me_size ?e) - me_addr ?e, mr_kind = pvh_kind_of (me_typ ?e)\<rparr>"
        by (simp_all add: clip_entry_def split: if_splits)
      have "take (Suc c) (out[c := r]) = take c out @ [r]" using True by (simp add: take_Suc_conv_app_nth)
      moreover have "length out - c = Suc (length out - Suc c)" using True by simp
      ultimately show ?thesis
        using True r Some Cons.IH [of "Suc c" "out[c := r]"] by (simp add: Let_def)
    qed
  qed
qed

section \<open>Two demonstration machines\<close>

text \<open>A multiboot machine with two free frames, and a PVH one with an entry of which half lies
  beyond the window, one that is empty there, and one that is reserved.\<close>

definition placed :: "(u64 \<times> u8 list) list \<Rightarrow> memory" where
  "placed ps a = (case find (\<lambda>(base, bs). a - base < of_nat (length bs)) ps of
     None \<Rightarrow> 0 | Some (base, bs) \<Rightarrow> bs ! unat (a - base))"

definition le32 :: "u32 \<Rightarrow> u8 list" where "le32 w = map (\<lambda>i. ucast (drop_bit (8 * i) w)) [0..<4]"
definition le64 :: "u64 \<Rightarrow> u8 list" where "le64 w = map (\<lambda>i. ucast (drop_bit (8 * i) w)) [0..<8]"

definition mb_demo :: memory where
  "mb_demo = placed [(0x1000, le32 0x40 @ replicate 40 0 @ le32 24 @ le32 0x2000),
     (0x2000, le32 20 @ le64 0x1000 @ le64 0x2000 @ le32 1)]"

definition pvh_demo :: memory where
  "pvh_demo = placed [(0x1000, le32 PVH_MAGIC @ le32 1 @ replicate 32 0 @ le64 0x2000 @ le32 3 @ le32 0),
     (0x2000, le64 0x3ffff000 @ le64 0x2000 @ le32 1 @ le32 0 @ le64 0x50000000 @ le64 0x1000 @ le32 1 @ le32 0
       @ le64 0x1000 @ le64 0x1000 @ le32 2 @ le32 0)]"

lemma window_end_code [code]: "window_end a s = (if a + s < a then IDENTITY_LIMIT else min (a + s) IDENTITY_LIMIT)"
proof -
  have "a + s < a \<longleftrightarrow> 2 ^ 64 \<le> unat a + unat s"
    using no_olen_add_nat [of a s] by (simp add: not_le [symmetric])
  then show ?thesis
    by (auto simp: window_end_def saturating_add_def checked_add_def)
qed

lemma walkable_entries_code [code]:
  "walkable_entries a d = (if a = 0 \<or> IDENTITY_LIMIT \<le> a then 0
     else unat (min (min (ucast d) 256) ((IDENTITY_LIMIT - a) div ENTRY_SIZE)))"
proof -
  have "unat (ucast d :: u64) = unat d"
  proof -
    have "unat d < 2 ^ LENGTH(32)" by (rule unsigned_less)
    then show ?thesis by (simp add: unsigned_ucast_eq take_bit_nat_eq_self)
  qed
  then show ?thesis by (simp add: walkable_entries_def MAX_MAP_ENTRIES_def Let_def min_def word_le_nat_alt)
qed

definition no_region :: MemoryRegion where
  "no_region = \<lparr>mr_start = 0, mr_len = 0, mr_kind = Reserved\<rparr>"

lemma mb_demo_map: "x86_memory_map True mb_demo 0x1000 (replicate 4 no_region) =
    (\<lparr>mr_start = 0x1000, mr_len = 0x2000, mr_kind = Usable\<rparr> # replicate 3 no_region, 1)"
  by code_simp

lemma pvh_demo_map: "x86_memory_map False pvh_demo 0x1000 (replicate 4 no_region) =
    ([\<lparr>mr_start = 0x3ffff000, mr_len = 0x1000, mr_kind = Usable\<rparr>, \<lparr>mr_start = 0x1000, mr_len = 0x1000, mr_kind = Reserved\<rparr>,
      no_region, no_region], 2)"
  by code_simp

section \<open>Properties\<close>

text \<open>
  (C30) The memory map never reads outside the window: whatever the loader declares, the parser looks
  at no byte beyond the identity-mapped window but those of the information structure it was
  handed, so its result depends on nothing else.
\<close>

theorem memory_map_reads_confined:
  assumes "agree_on in_window m m'" and "agree_on (in_struct a0 56) m m'"
  shows "x86_memory_map firmware m a0 out = x86_memory_map firmware m' a0 out"
proof -
  have "agree_on (in_struct a0 52) m m'"
    using assms(2) by (force simp: agree_on_def in_struct_def)
  then show ?thesis using assms by (simp add: x86_memory_map_def mb_map_cong pvh_map_cong)
qed

theorem memory_map_reads_confined_witness:
  "snd (x86_memory_map False (pvh_demo(0x40000000 := 7)) 0x1000 (replicate 4 no_region)) = 2"
proof -
  have a: "agree_on in_window (pvh_demo(0x40000000 := 7)) pvh_demo"
    by (simp add: agree_on_def in_window_def IDENTITY_LIMIT_def)
  have "(0x40000000 :: u64) \<noteq> 0x1000 + of_nat i" if "i < 56" for i
  proof
    assume "(0x40000000 :: u64) = 0x1000 + of_nat i"
    then have "unat (0x40000000 :: u64) = unat (0x1000 :: u64) + i"
      using unat_add_of_nat [of "0x1000 :: u64" i] that by simp
    then show False using that by simp
  qed
  then have b: "agree_on (in_struct 0x1000 56) (pvh_demo(0x40000000 := 7)) pvh_demo"
    by (auto simp: agree_on_def in_struct_def)
  from memory_map_reads_confined [OF a b, of False "replicate 4 no_region"] pvh_demo_map show ?thesis by simp
qed

text \<open>
  (C28) The allocator only offers memory the kernel can reach: every frame that an allocator built
  from the boot's memory map can hand out lies whole inside the identity-mapped window, in an entry
  of the map that is usable, at or above the reserve floor.
\<close>

theorem boot_frames_are_reachable:
  assumes "x86_memory_map firmware m a0 out = (out', n)"
    and "f \<in> free_frames (BitmapAllocator_new (take n out') bm rb dt)"
  shows "(f + 1) * 4096 \<le> unat IDENTITY_LIMIT \<and> unat rb \<le> f * 4096 \<and> (\<exists>r \<in> set (take n out'). inside_usable r f)"
proof -
  have c: "\<forall>r \<in> set (take n out'). clipped r"
    using x86_map_inv [of out firmware m a0] by (simp add: assms(1) map_inv_def)
  then have ok: "\<forall>r \<in> set (take n out'). region_ok r" by (simp add: clipped_region_ok)
  from new_frames(1) [OF ok] assms(2)
  have f: "f < new_total (take n out') bm" "\<exists>r \<in> set (take n out'). inside_usable r f" "rb \<le> frame_addr f" by blast+
  from f(1) new_total_bounds(2) have "unat (frame_addr f) = f * 4096"
    by (intro unat_frame_addr) (rule less_trans)
  then show ?thesis using f c by (auto simp: clipped_def inside_usable_def word_le_nat_alt)
qed

theorem boot_frames_are_reachable_witness:
  "(2 + 1) * 4096 \<le> unat IDENTITY_LIMIT
   \<and> 2 \<in> free_frames (BitmapAllocator_new [\<lparr>mr_start = 0x1000, mr_len = 0x2000, mr_kind = Usable\<rparr>] [0] 0 0)"
proof -
  have f: "2 \<in> free_frames (BitmapAllocator_new [\<lparr>mr_start = 0x1000, mr_len = 0x2000, mr_kind = Usable\<rparr>] [0] 0 0)"
    by (subst new_frames(1)) (simp_all add: region_ok_def inside_usable_def touches_reserved_def new_total_def
      highest_usable_frame_def highest_usable_step_def MemoryRegion_end_def PAGE_SIZE_def saturating_mul64_def BITS_PER_WORD_def)
  with boot_frames_are_reachable [OF mb_demo_map, of 2 "[0]" 0 0] show ?thesis by simp
qed

text \<open>
  The PVH map is the table, clipped: what the parser reports is exactly the first entries of
  the declared table, as many as fit, after each has been clipped to the window and those with
  nothing left in it have been skipped, in their order.
\<close>

theorem pvh_map_is_the_clipped_table:
  assumes "si = start_info_at m a0" and "a0 \<noteq> 0" and "si_magic si = PVH_MAGIC" and "1 \<le> si_version si"
  shows "(case pvh_memory_map m a0 out of (out', n) \<Rightarrow> take n out') =
    take (length out) (List.map_filter (\<lambda>i. clip_entry (memmap_entry_at m (si_memmap_paddr si + of_nat i * ENTRY_SIZE)))
      [0..<walkable_entries (si_memmap_paddr si) (si_memmap_entries si)])"
  using pvh_walk_takes [of 0 out m "si_memmap_paddr si" "[0..<walkable_entries (si_memmap_paddr si) (si_memmap_entries si)]"] assms
  by (auto simp: pvh_memory_map_def Let_def walkable_entries_def not_less split: prod.splits)

theorem pvh_map_is_the_clipped_table_witness:
  "List.map_filter (\<lambda>i. clip_entry (memmap_entry_at pvh_demo (0x2000 + of_nat i * ENTRY_SIZE))) [0..<3] =
    [\<lparr>mr_start = 0x3ffff000, mr_len = 0x1000, mr_kind = Usable\<rparr>, \<lparr>mr_start = 0x1000, mr_len = 0x1000, mr_kind = Reserved\<rparr>]"
proof -
  have si: "\<lparr>si_magic = PVH_MAGIC, si_version = 1, si_rsdp_paddr = 0, si_memmap_paddr = 0x2000, si_memmap_entries = 3\<rparr> =
      start_info_at pvh_demo 0x1000" by code_simp
  have n: "walkable_entries 0x2000 3 = 3" by code_simp
  have l: "length (List.map_filter (\<lambda>i. clip_entry (memmap_entry_at pvh_demo (0x2000 + of_nat i * ENTRY_SIZE))) [0..<3]) \<le> 4"
    by (simp add: map_filter_def upt_rec)
  from pvh_map_is_the_clipped_table [OF si, of "replicate 4 no_region"] pvh_demo_map l show ?thesis
    by (simp add: n x86_memory_map_def)
qed

end
