(* ===== verification/Acpi.thy ===== *)
theory Acpi
  imports Bootinfo
begin

text \<open>
  The ACPI tables the nucleus reads to find the AMD-Vi unit (src/crates/kernel/src/acpi.rs) and the
  walk from the root pointer to the register base (\<open>report_ivrs\<close> and its caller in
  src/crates/kernel/src/lib.rs). Everything here comes from outside the trusted base: what is
  believed has a checksum, every walk ends, and nothing outside the identity-mapped window is read
  on the way, except that a root pointer at the end of the window may be read past it.
\<close>

section \<open>Parsing\<close>

record Rsdp =
  rsdp_revision :: u8
  rsdp_rsdt :: u32
  rsdp_xsdt :: "u64 option"

datatype RsdpErr = BadSignature | BadChecksum | BadExtendedChecksum | RsdpTruncated

text \<open>\<open>fold(0u8, |a, b| a.wrapping_add(*b))\<close>\<close>

definition byte_sum :: "u8 list \<Rightarrow> u8" where
  "byte_sum bs = fold (\<lambda>b a. a + b) bs 0"

text \<open>\<open>RSD PTR \<close> and \<open>IVRS\<close>\<close>

definition RSDP_SIG :: "u8 list" where "RSDP_SIG = [0x52, 0x53, 0x44, 0x20, 0x50, 0x54, 0x52, 0x20]"
definition IVRS_SIG :: "u8 list" where "IVRS_SIG = [0x49, 0x56, 0x52, 0x53]"

definition parse_rsdp :: "u8 list \<Rightarrow> RsdpErr + Rsdp" where
  "parse_rsdp buf =
     (if length buf < 20 then Inl RsdpTruncated
      else if take 8 buf \<noteq> RSDP_SIG then Inl BadSignature
      else if byte_sum (take 20 buf) \<noteq> 0 then Inl BadChecksum
      else let revision = buf ! 15; rsdt = from_le_bytes (take 4 (drop 16 buf))
           in if revision < 2 then Inr \<lparr>rsdp_revision = revision, rsdp_rsdt = rsdt, rsdp_xsdt = None\<rparr>
              else if length buf < 36 then Inl RsdpTruncated
              else if byte_sum (take 36 buf) \<noteq> 0 then Inl BadExtendedChecksum
              else let x = from_le_bytes (take 8 (drop 24 buf))
                   in Inr \<lparr>rsdp_revision = revision, rsdp_rsdt = rsdt, rsdp_xsdt = (if x = 0 then None else Some x)\<rparr>)"

record TableHeader =
  th_signature :: "u8 list"
  th_length :: u32
  th_revision :: u8

definition parse_table :: "u8 list \<Rightarrow> RsdpErr + TableHeader" where
  "parse_table buf =
     (if length buf < 36 then Inl RsdpTruncated
      else let len = (from_le_bytes (take 4 (drop 4 buf)) :: u32)
           in if unat len < 36 \<or> length buf < unat len then Inl RsdpTruncated
              else if byte_sum (take (unat len) buf) \<noteq> 0 then Inl BadChecksum
              else Inr \<lparr>th_signature = take 4 buf, th_length = len, th_revision = buf ! 8\<rparr>)"

definition rsdt_entries :: "u8 list \<Rightarrow> u32 list" where
  "rsdt_entries buf =
     (let n = (if length buf \<ge> 36 then (length buf - 36) div 4 else 0)
      in map (\<lambda>i. from_le_bytes (take 4 (drop (36 + i * 4) buf))) [0..<n])"

text \<open>The loop over the IVHD blocks, with the base of the first and the count so far.\<close>

function ivhd_walk :: "u8 list \<Rightarrow> nat \<Rightarrow> nat \<Rightarrow> u64 option \<times> nat \<Rightarrow> u64 option \<times> nat" where
  "ivhd_walk buf tot off (base, count) =
     (if off + 24 \<le> tot
      then let len = unat (from_le_bytes (take 2 (drop (off + 2) buf)) :: u16)
           in if len < 24 \<or> off + len > tot then (base, count)
              else ivhd_walk buf tot (off + len)
                ((case base of None \<Rightarrow> Some (from_le_bytes (take 8 (drop (off + 8) buf))) | Some b \<Rightarrow> Some b), count + 1)
      else (base, count))"
  by pat_completeness auto
termination by (relation "measure (\<lambda>(buf, tot, off, bc). tot - off)") (auto simp: Let_def)

declare ivhd_walk.simps [simp del]

definition ivrs_first_base :: "u8 list \<Rightarrow> (u64 \<times> usize) option" where
  "ivrs_first_base buf =
     (if length buf < 48 \<or> take 4 buf \<noteq> IVRS_SIG then None
      else let tot = unat (from_le_bytes (take 4 (drop 4 buf)) :: u32)
           in if tot > length buf then None
              else case ivhd_walk buf tot 48 (None, 0) of (base, count) \<Rightarrow> map_option (\<lambda>b. (b, count)) base)"

definition BIOS_SCAN_START :: u64 where "BIOS_SCAN_START = 0x000E0000"
definition BIOS_SCAN_END :: u64 where "BIOS_SCAN_END = 0x00100000"

function scan_from :: "u8 list \<Rightarrow> usize \<Rightarrow> usize option" where
  "scan_from buf off =
     (if off + 20 \<le> length buf
      then if take 8 (drop off buf) = RSDP_SIG \<and> (case parse_rsdp (drop off buf) of Inl _ \<Rightarrow> False | Inr _ \<Rightarrow> True)
           then Some off else scan_from buf (off + 16)
      else None)"
  by pat_completeness auto
termination by (relation "measure (\<lambda>(buf, off). length buf - off)") auto

declare scan_from.simps [simp del]

definition scan_for_rsdp :: "u8 list \<Rightarrow> usize option" where
  "scan_for_rsdp buf = scan_from buf 0"

section \<open>Following the pointers\<close>

text \<open>The addition wraps in the code; no table is longer than its 32-bit length says.\<close>

definition table_reachable :: "u64 \<Rightarrow> u64 \<Rightarrow> bool" where
  "table_reachable a len \<longleftrightarrow> a \<noteq> 0 \<and> len \<ge> 36 \<and> a + len < IDENTITY_LIMIT"

fun find_ivrs :: "memory \<Rightarrow> u32 list \<Rightarrow> u64 option" where
  "find_ivrs mem [] = None"
| "find_ivrs mem (ptr # ptrs) =
     (let p = ucast ptr
      in if \<not> table_reachable p 36 then find_ivrs mem ptrs
         else let h = bytes_at mem p 36
              in if take 4 h \<noteq> IVRS_SIG then find_ivrs mem ptrs
                 else let l = ucast (from_le_bytes (take 4 (drop 4 h)) :: u32)
                      in if \<not> table_reachable p l then None
                         else let ivrs = bytes_at mem p (unat l)
                              in case parse_table ivrs of Inl _ \<Rightarrow> None
                                 | Inr _ \<Rightarrow> map_option fst (ivrs_first_base ivrs))"

text \<open>The value \<open>AMDVI_BASE\<close> is set to, if it is set.\<close>

definition report_ivrs :: "memory \<Rightarrow> u64 \<Rightarrow> u64 option" where
  "report_ivrs mem rsdt_addr =
     (if \<not> table_reachable rsdt_addr 36 then None
      else let head = bytes_at mem rsdt_addr 36; len = ucast (from_le_bytes (take 4 (drop 4 head)) :: u32)
           in if \<not> table_reachable rsdt_addr len then None
              else let rsdt = bytes_at mem rsdt_addr (unat len)
                   in case parse_table rsdt of Inl _ \<Rightarrow> None | Inr _ \<Rightarrow> find_ivrs mem (rsdt_entries rsdt))"

definition find_rsdp :: "bool \<Rightarrow> memory \<Rightarrow> u64 \<Rightarrow> u64 option" where
  "find_rsdp firmware mem a0 =
     (if firmware
      then map_option (\<lambda>off. BIOS_SCAN_START + of_nat off)
             (scan_for_rsdp (bytes_at mem BIOS_SCAN_START (unat (BIOS_SCAN_END - BIOS_SCAN_START))))
      else pvh_rsdp mem a0)"

definition locate_amdvi :: "bool \<Rightarrow> memory \<Rightarrow> u64 \<Rightarrow> u64 option" where
  "locate_amdvi firmware mem a0 =
     (case find_rsdp firmware mem a0 of
        None \<Rightarrow> None
      | Some p \<Rightarrow> (case parse_rsdp (bytes_at mem p 36) of Inl _ \<Rightarrow> None | Inr r \<Rightarrow> report_ivrs mem (ucast (rsdp_rsdt r))))"

section \<open>Checksums\<close>

lemma byte_sum_sum_list: "byte_sum bs = sum_list bs"
proof -
  have "fold (\<lambda>b a. a + b) bs a = a + sum_list bs" for a :: u8
    by (induction bs arbitrary: a) (simp_all add: add.assoc)
  then show ?thesis by (simp add: byte_sum_def)
qed

lemma byte_sum_update: "i < length bs \<Longrightarrow> byte_sum (bs[i := b]) = byte_sum bs - bs ! i + b"
proof (induction bs arbitrary: i)
  case (Cons c bs)
  then show ?case by (cases i) (simp_all add: byte_sum_sum_list algebra_simps)
qed simp

lemma byte_sum_corrupt:
  assumes "byte_sum (take n bs) = 0" and "i < n" and "i < length bs" and "b \<noteq> bs ! i"
  shows "byte_sum (take n (bs[i := b])) \<noteq> 0"
  using assms by (simp add: take_update_swap byte_sum_update)

section \<open>The blocks of a table\<close>

definition block_len :: "u8 list \<Rightarrow> nat \<Rightarrow> nat" where
  "block_len buf off = unat (from_le_bytes (take 2 (drop (off + 2) buf)) :: u16)"

definition block_at :: "u8 list \<Rightarrow> nat \<Rightarrow> nat \<Rightarrow> bool" where
  "block_at buf tot off \<longleftrightarrow> off + 24 \<le> tot \<and> 24 \<le> block_len buf off \<and> off + block_len buf off \<le> tot"

text \<open>The offsets from \<open>off\<close> on, each where the block before it ends, as far as blocks go.\<close>

fun chain :: "u8 list \<Rightarrow> nat \<Rightarrow> nat \<Rightarrow> nat list \<Rightarrow> bool" where
  "chain buf tot off [] \<longleftrightarrow> \<not> block_at buf tot off"
| "chain buf tot off (o1 # os) \<longleftrightarrow> o1 = off \<and> block_at buf tot off \<and> chain buf tot (off + block_len buf off) os"

lemma walk_step: "ivhd_walk buf tot off (base, n) =
    (if block_at buf tot off
     then ivhd_walk buf tot (off + block_len buf off)
       ((case base of None \<Rightarrow> Some (from_le_bytes (take 8 (drop (off + 8) buf))) | Some b \<Rightarrow> Some b), n + 1)
     else (base, n))"
  by (subst ivhd_walk.simps) (auto simp: block_at_def block_len_def Let_def)

lemma walk_chain: "\<exists>offs. chain buf tot off offs \<and> ivhd_walk buf tot off (base, n) =
    ((case base of None \<Rightarrow> (case offs of [] \<Rightarrow> None | o1 # _ \<Rightarrow> Some (from_le_bytes (take 8 (drop (o1 + 8) buf)))) | Some b \<Rightarrow> Some b),
     n + length offs)"
proof (induction "tot - off" arbitrary: off base n rule: less_induct)
  case less
  show ?case
  proof (cases "block_at buf tot off")
    case False
    then show ?thesis by (intro exI [of _ "[]"]) (simp add: walk_step split: option.split)
  next
    case True
    let ?b = "from_le_bytes (take 8 (drop (off + 8) buf)) :: u64"
    let ?base = "case base of None \<Rightarrow> Some ?b | Some b \<Rightarrow> Some b"
    have "tot - (off + block_len buf off) < tot - off" using True by (auto simp: block_at_def)
    from less [OF this, of ?base "n + 1"] obtain offs where
      "chain buf tot (off + block_len buf off) offs"
      "ivhd_walk buf tot (off + block_len buf off) (?base, n + 1) =
         ((case ?base of None \<Rightarrow> (case offs of [] \<Rightarrow> None | o1 # _ \<Rightarrow> Some (from_le_bytes (take 8 (drop (o1 + 8) buf)))) | Some b \<Rightarrow> Some b),
          n + 1 + length offs)" by blast
    with True show ?thesis
      by (intro exI [of _ "off # offs"]) (simp add: walk_step split: option.split)
  qed
qed

lemma scan_step: "scan_from buf off =
    (if off + 20 \<le> length buf
     then if (\<exists>r. parse_rsdp (drop off buf) = Inr r) then Some off else scan_from buf (off + 16)
     else None)"
proof -
  have "take 8 (drop off buf) = RSDP_SIG" if "parse_rsdp (drop off buf) = Inr r" for r
    using that by (auto simp: parse_rsdp_def Let_def split: if_splits)
  then show ?thesis by (subst scan_from.simps) (auto split: sum.split)
qed

lemma scan_finds:
  assumes "16 dvd off"
  shows "case scan_from buf off of
      None \<Rightarrow> \<forall>i. 16 dvd i \<and> off \<le> i \<and> i + 20 \<le> length buf \<longrightarrow> (\<exists>e. parse_rsdp (drop i buf) = Inl e)
    | Some j \<Rightarrow> 16 dvd j \<and> off \<le> j \<and> j + 20 \<le> length buf \<and> (\<exists>r. parse_rsdp (drop j buf) = Inr r)
        \<and> (\<forall>i. 16 dvd i \<and> off \<le> i \<and> i < j \<longrightarrow> (\<exists>e. parse_rsdp (drop i buf) = Inl e))"
  using assms
proof (induction "length buf - off" arbitrary: off rule: less_induct)
  case less
  have next_off: "i = off \<or> off + 16 \<le> i" if "16 dvd i" "off \<le> i" for i
    using that less.prems by presburger
  show ?case
  proof (cases "off + 20 \<le> length buf \<and> \<not> (\<exists>r. parse_rsdp (drop off buf) = Inr r)")
    case True
    then obtain e where e: "parse_rsdp (drop off buf) = Inl e" by (cases "parse_rsdp (drop off buf)") auto
    have "length buf - (off + 16) < length buf - off" using True by linarith
    then have IH: "case scan_from buf (off + 16) of
        None \<Rightarrow> \<forall>i. 16 dvd i \<and> off + 16 \<le> i \<and> i + 20 \<le> length buf \<longrightarrow> (\<exists>e. parse_rsdp (drop i buf) = Inl e)
      | Some j \<Rightarrow> 16 dvd j \<and> off + 16 \<le> j \<and> j + 20 \<le> length buf \<and> (\<exists>r. parse_rsdp (drop j buf) = Inr r)
          \<and> (\<forall>i. 16 dvd i \<and> off + 16 \<le> i \<and> i < j \<longrightarrow> (\<exists>e. parse_rsdp (drop i buf) = Inl e))"
      using less.hyps [of "off + 16"] less.prems by simp
    have "scan_from buf off = scan_from buf (off + 16)" using True by (simp add: scan_step [of buf off])
    moreover have "\<exists>e. parse_rsdp (drop i buf) = Inl e"
      if "16 dvd i" "off \<le> i" "off + 16 \<le> i \<Longrightarrow> \<exists>e. parse_rsdp (drop i buf) = Inl e" for i
      using next_off [OF that(1,2)] that(3) e by blast
    ultimately show ?thesis using IH by (cases "scan_from buf (off + 16)") (simp_all, blast+)
  next
    case False
    then show ?thesis using less.prems by (auto simp: scan_step [of buf off])
  qed
qed

section \<open>What is read on the way\<close>

lemma reachable_room:
  assumes "table_reachable (ucast (p :: u32)) (ucast (l :: u32))"
  shows "unat (ucast p :: u64) + unat (ucast l :: u64) \<le> unat IDENTITY_LIMIT" and "unat (ucast l :: u64) = unat l"
proof -
  have u: "unat (ucast x :: u64) = unat x" "unat x < 2 ^ 32" for x :: u32
  proof -
    show "unat x < 2 ^ 32" using unsigned_less [of x] by simp
    then show "unat (ucast x :: u64) = unat x" by (simp add: unsigned_ucast_eq take_bit_nat_eq_self)
  qed
  then show "unat (ucast l :: u64) = unat l" by simp
  have "unat (ucast p + ucast l :: u64) = unat p + unat l"
    using u(2) [of p] u(2) [of l] by (subst unat_add_lem [THEN iffD1]) (simp_all add: u(1))
  then show "unat (ucast p :: u64) + unat (ucast l :: u64) \<le> unat IDENTITY_LIMIT"
    using assms u(1) by (simp add: table_reachable_def word_less_nat_alt)
qed

lemma table_bytes:
  assumes "agree_on in_window m m'" and "table_reachable (ucast (p :: u32)) (ucast (l :: u32))"
  shows "bytes_at m (ucast p) (unat l) = bytes_at m' (ucast p) (unat l)"
  using bytes_at_window [OF assms(1)] reachable_room [OF assms(2)] by simp

lemma head_bytes:
  assumes "agree_on in_window m m'" and "table_reachable (ucast (p :: u32)) 36"
  shows "bytes_at m (ucast p) 36 = bytes_at m' (ucast p) 36"
  using table_bytes [OF assms(1), of p 36] assms(2) by simp

lemma find_ivrs_cong: "agree_on in_window m m' \<Longrightarrow> find_ivrs m ptrs = find_ivrs m' ptrs"
proof (induction ptrs)
  case (Cons p ptrs)
  let ?l = "from_le_bytes (take 4 (drop 4 (bytes_at m' (ucast p) 36))) :: u32"
  show ?case
    using Cons head_bytes [OF Cons.prems, of p] table_bytes [OF Cons.prems, of p ?l] reachable_room(2) [of p ?l]
    by (auto simp: Let_def)
qed simp

lemma report_ivrs_cong:
  assumes "agree_on in_window m m'"
  shows "report_ivrs m (ucast (r :: u32)) = report_ivrs m' (ucast r)"
proof -
  let ?l = "from_le_bytes (take 4 (drop 4 (bytes_at m' (ucast r) 36))) :: u32"
  show ?thesis
    using head_bytes [OF assms, of r] table_bytes [OF assms, of r ?l] reachable_room(2) [of r ?l]
      find_ivrs_cong [OF assms]
    by (auto simp: report_ivrs_def Let_def split: sum.split)
qed

lemma find_rsdp_cong:
  assumes "agree_on in_window m m'" and "\<not> firmware \<Longrightarrow> agree_on (in_struct a0 56) m m'"
  shows "find_rsdp firmware m a0 = find_rsdp firmware m' a0"
proof (cases firmware)
  case True
  have "unat BIOS_SCAN_START + unat (BIOS_SCAN_END - BIOS_SCAN_START) \<le> unat IDENTITY_LIMIT"
    by (simp add: BIOS_SCAN_START_def BIOS_SCAN_END_def IDENTITY_LIMIT_def)
  from bytes_at_window [OF assms(1) this] True show ?thesis by (simp add: find_rsdp_def)
next
  case False
  then show ?thesis using start_info_cong [OF assms(2)] by (simp add: find_rsdp_def pvh_rsdp_def)
qed

text \<open>A root pointer found by the scan lies in the window whole; one handed over need only begin there.\<close>

lemma found_rsdp_room:
  assumes "find_rsdp firmware m a0 = Some p"
  shows "unat p + 36 < unat IDENTITY_LIMIT + 36" and "firmware \<Longrightarrow> unat p + 20 \<le> unat BIOS_SCAN_END"
proof -
  let ?buf = "bytes_at m BIOS_SCAN_START (unat (BIOS_SCAN_END - BIOS_SCAN_START))"
  have fw: "unat p + 20 \<le> unat BIOS_SCAN_END" if f: firmware
  proof -
    obtain j where j: "scan_for_rsdp ?buf = Some j" and p: "p = BIOS_SCAN_START + of_nat j"
      using assms f by (auto simp: find_rsdp_def)
    from scan_finds [of 0 ?buf] j have "j + 20 \<le> length ?buf" by (simp add: scan_for_rsdp_def)
    then have "j + 20 \<le> 0x20000" by (simp add: BIOS_SCAN_START_def BIOS_SCAN_END_def)
    moreover from this have "unat p = unat BIOS_SCAN_START + j"
      unfolding p by (intro unat_add_of_nat) (simp add: BIOS_SCAN_START_def)
    ultimately show ?thesis by (simp add: BIOS_SCAN_START_def BIOS_SCAN_END_def)
  qed
  then show "firmware \<Longrightarrow> unat p + 20 \<le> unat BIOS_SCAN_END" .
  show "unat p + 36 < unat IDENTITY_LIMIT + 36"
  proof (cases firmware)
    case True
    then show ?thesis using fw by (simp add: BIOS_SCAN_END_def IDENTITY_LIMIT_def)
  next
    case False
    then show ?thesis using assms by (auto simp: find_rsdp_def pvh_rsdp_def Let_def not_le word_less_nat_alt split: if_splits)
  qed
qed

section \<open>What is believed\<close>

definition checked_table :: "memory \<Rightarrow> u64 \<Rightarrow> u8 list \<Rightarrow> bool" where
  "checked_table m a bs \<longleftrightarrow> bs = bytes_at m a (length bs) \<and> unat a + length bs \<le> unat IDENTITY_LIMIT
     \<and> 36 \<le> length bs \<and> unat (from_le_bytes (take 4 (drop 4 bs)) :: u32) = length bs \<and> byte_sum bs = 0"

lemma take_bytes_at: "n \<le> k \<Longrightarrow> take n (bytes_at m a k) = bytes_at m a n"
  by (simp add: bytes_at_def take_map)

lemma length_field: "8 \<le> k \<Longrightarrow> take 4 (drop 4 (bytes_at m a k)) = take 4 (drop 4 (bytes_at m a 8))"
  using take_bytes_at [of 8 k m a] by (metis drop_take numeral_Bit0 add_diff_cancel_left' take_take min.idem)

lemma parse_table_checked:
  fixes q l :: u32
  assumes "table_reachable (ucast q) (ucast l)" and "l = from_le_bytes (take 4 (drop 4 (bytes_at m (ucast q) 36)))"
    and "parse_table (bytes_at m (ucast q) (unat l)) = Inr h"
  shows "checked_table m (ucast q) (bytes_at m (ucast q) (unat l))"
proof -
  have big: "36 \<le> unat l" using assms(3) by (simp add: parse_table_def Let_def split: if_splits)
  then have "take 4 (drop 4 (bytes_at m (ucast q) (unat l))) = take 4 (drop 4 (bytes_at m (ucast q) 36))"
    using length_field [of "unat l" m "ucast q"] length_field [of 36 m "ucast q"] by simp
  then show ?thesis
    using assms big reachable_room [OF assms(1)]
    by (simp add: checked_table_def parse_table_def Let_def take_bytes_at split: if_splits)
qed

lemma find_ivrs_checked:
  assumes "find_ivrs m ptrs = Some base"
  shows "\<exists>q \<in> set ptrs. \<exists>ivrs n. checked_table m (ucast q) ivrs \<and> ivrs_first_base ivrs = Some (base, n)"
  using assms
proof (induction ptrs)
  case (Cons q ptrs)
  let ?l = "from_le_bytes (take 4 (drop 4 (bytes_at m (ucast q) 36))) :: u32"
  show ?case
  proof (cases "table_reachable (ucast q) 36 \<and> take 4 (bytes_at m (ucast q) 36) = IVRS_SIG")
    case False
    then have "find_ivrs m ptrs = Some base" using Cons.prems by (auto simp: Let_def split: if_splits)
    then show ?thesis using Cons.IH by auto
  next
    case True
    then have r: "table_reachable (ucast q) (ucast ?l)" using Cons.prems by (auto simp: Let_def split: if_splits)
    obtain h n where "parse_table (bytes_at m (ucast q) (unat ?l)) = Inr h"
      "ivrs_first_base (bytes_at m (ucast q) (unat ?l)) = Some (base, n)"
      using Cons.prems True r reachable_room(2) [OF r] by (auto simp: Let_def split: sum.splits)
    with parse_table_checked [OF r refl] show ?thesis by auto
  qed
qed simp

text \<open>The first block is at 48, so its base is at 56.\<close>

lemma first_base_chain:
  assumes "48 \<le> length buf" and "take 4 buf = IVRS_SIG"
    and "unat (from_le_bytes (take 4 (drop 4 buf)) :: u32) \<le> length buf"
  shows "\<exists>offs. chain buf (unat (from_le_bytes (take 4 (drop 4 buf)) :: u32)) 48 offs
    \<and> ivrs_first_base buf = (if offs = [] then None else Some (from_le_bytes (take 8 (drop 56 buf)), length offs))"
proof -
  obtain offs where c: "chain buf (unat (from_le_bytes (take 4 (drop 4 buf)) :: u32)) 48 offs"
    "ivhd_walk buf (unat (from_le_bytes (take 4 (drop 4 buf)) :: u32)) 48 (None, 0) =
      (case offs of [] \<Rightarrow> None | o1 # _ \<Rightarrow> Some (from_le_bytes (take 8 (drop (o1 + 8) buf))), length offs)"
    using walk_chain [of buf "unat (from_le_bytes (take 4 (drop 4 buf)) :: u32)" 48 None 0] by auto
  then show ?thesis using assms by (intro exI [of _ offs]) (cases offs; simp add: ivrs_first_base_def Let_def)
qed

lemma first_base_Some:
  assumes "ivrs_first_base buf = Some (base, n)"
  shows "take 4 buf = IVRS_SIG" and "base = from_le_bytes (take 8 (drop 56 buf))"
proof -
  have h: "48 \<le> length buf" "take 4 buf = IVRS_SIG" "unat (from_le_bytes (take 4 (drop 4 buf)) :: u32) \<le> length buf"
    using assms by (auto simp: ivrs_first_base_def Let_def split: if_splits)
  then show "take 4 buf = IVRS_SIG" by simp
  from first_base_chain [OF h] assms show "base = from_le_bytes (take 8 (drop 56 buf))" by (auto split: if_splits)
qed

section \<open>A demonstration\<close>

definition summed :: "nat \<Rightarrow> u8 list \<Rightarrow> u8 list" where
  "summed i bs = bs[i := - byte_sum bs]"

definition demo_rsdp :: "u8 list" where
  "demo_rsdp = summed 8 (RSDP_SIG @ [0] @ replicate 6 0x42 @ [0] @ le32 0x3000)"

definition demo_table :: "u8 list \<Rightarrow> u8 list \<Rightarrow> u8 list" where
  "demo_table sig body = summed 9 (sig @ le32 (of_nat (36 + length body)) @ [1, 0] @ replicate 26 0 @ body)"

definition demo_ivrs :: "u8 list" where
  "demo_ivrs = demo_table IVRS_SIG (replicate 12 0 @ [0x10, 0, 24, 0, 0, 0, 0x40, 0] @ le64 0xfed80000 @ replicate 8 0)"

text \<open>The root pointer starts sixteen bytes before the end of the window.\<close>

definition acpi_demo :: memory where
  "acpi_demo = placed [(0x1000, le32 PVH_MAGIC @ le32 1 @ replicate 24 0 @ le64 0x3ffffff0 @ replicate 16 0),
     (0x3ffffff0, demo_rsdp), (0x3000, demo_table [0x52, 0x53, 0x44, 0x54] (le32 0x4000)), (0x4000, demo_ivrs)]"

lemma acpi_demo_base: "locate_amdvi False acpi_demo 0x1000 = Some 0xfed80000"
  by code_simp

lemma find_least:
  assumes "sorted xs" and "x \<in> set xs" and "P x" and "\<And>y. y \<in> set xs \<Longrightarrow> y < x \<Longrightarrow> \<not> P y"
  shows "find P xs = Some (x :: nat)"
  using assms
proof (induction xs)
  case (Cons a xs)
  show ?case
  proof (cases "a = x")
    case False
    then have "a < x" "x \<in> set xs" using Cons.prems(1,2) by auto
    then show ?thesis using Cons by auto
  qed (use Cons.prems in simp)
qed simp

section \<open>Properties\<close>

text \<open>
  (C11) The register base of the IOMMU comes only from tables that check out: if the boot adopts one,
  it is the base field of the first block of a table that lies whole inside the identity-mapped
  window, is signed IVRS, has the length it declares and sums to zero over all of it; that table is
  an entry of a root table of which the same holds, and the root table is named by a root pointer
  that passed its own check.
\<close>

theorem iommu_base_comes_from_checked_tables:
  assumes "locate_amdvi firmware m a0 = Some base"
  shows "\<exists>p r rsdt q ivrs. find_rsdp firmware m a0 = Some p \<and> parse_rsdp (bytes_at m p 36) = Inr r
    \<and> checked_table m (ucast (rsdp_rsdt r)) rsdt \<and> q \<in> set (rsdt_entries rsdt)
    \<and> checked_table m (ucast q) ivrs \<and> take 4 ivrs = IVRS_SIG \<and> base = from_le_bytes (take 8 (drop 56 ivrs))"
proof -
  obtain p r where p: "find_rsdp firmware m a0 = Some p" "parse_rsdp (bytes_at m p 36) = Inr r"
    and rep: "report_ivrs m (ucast (rsdp_rsdt r)) = Some base"
    using assms by (auto simp: locate_amdvi_def split: option.splits sum.splits)
  let ?a = "ucast (rsdp_rsdt r) :: u64"
  let ?l = "from_le_bytes (take 4 (drop 4 (bytes_at m ?a 36))) :: u32"
  have l: "table_reachable ?a (ucast ?l)" using rep by (auto simp: report_ivrs_def Let_def split: if_splits)
  obtain h where h: "parse_table (bytes_at m ?a (unat ?l)) = Inr h"
    and f: "find_ivrs m (rsdt_entries (bytes_at m ?a (unat ?l))) = Some base"
    using rep l reachable_room(2) [OF l] by (auto simp: report_ivrs_def Let_def split: if_splits sum.splits)
  from parse_table_checked [OF l refl h] find_ivrs_checked [OF f] p show ?thesis
    using first_base_Some by blast
qed

theorem iommu_base_comes_from_checked_tables_witness:
  "\<exists>q ivrs. checked_table acpi_demo (ucast (q :: u32)) ivrs \<and> take 4 ivrs = IVRS_SIG
     \<and> 0xfed80000 = (from_le_bytes (take 8 (drop 56 ivrs)) :: u64)"
  using iommu_base_comes_from_checked_tables [OF acpi_demo_base] by blast

text \<open>
  Looking for the IOMMU reads nothing outside the window: in the firmware boot the result depends
  only on memory below the limit of the identity map, in the PVH boot also on the information
  structure and on the bytes a root pointer at the very end of the window runs over into.
\<close>

theorem locate_reads_confined:
  assumes "agree_on in_window m m'"
    and "firmware \<or> agree_on (\<lambda>a. in_struct a0 56 a \<or> in_struct IDENTITY_LIMIT 35 a) m m'"
  shows "locate_amdvi firmware m a0 = locate_amdvi firmware m' a0"
proof -
  have "\<not> firmware \<Longrightarrow> agree_on (in_struct a0 56) m m'" using assms(2) by (auto simp: agree_on_def)
  then have f: "find_rsdp firmware m a0 = find_rsdp firmware m' a0" by (rule find_rsdp_cong [OF assms(1)])
  have "bytes_at m p 36 = bytes_at m' p 36" if p: "find_rsdp firmware m a0 = Some p" for p
  proof (rule bytes_at_cong)
    fix i :: nat assume i: "i < 36"
    have room: "unat p < unat IDENTITY_LIMIT" using found_rsdp_room(1) [OF p] by simp
    then have u: "unat (p + of_nat i) = unat p + i" using i by (intro unat_add_of_nat) (simp add: IDENTITY_LIMIT_def)
    show "m (p + of_nat i) = m' (p + of_nat i)"
    proof (cases "in_window (p + of_nat i)")
      case True
      then show ?thesis using assms(1) by (simp add: agree_on_def)
    next
      case False
      then have w: "unat IDENTITY_LIMIT \<le> unat p + i" using u by (simp add: in_window_def word_less_nat_alt)
      then have nf: "\<not> firmware"
        using found_rsdp_room(2) [OF p] i by (auto simp: IDENTITY_LIMIT_def BIOS_SCAN_END_def)
      have "p + of_nat i = IDENTITY_LIMIT + of_nat (unat p + i - unat IDENTITY_LIMIT)"
        using w by (simp add: of_nat_diff)
      moreover have "unat p + i - unat IDENTITY_LIMIT < 35" using room i by simp
      ultimately have "in_struct IDENTITY_LIMIT 35 (p + of_nat i)" by (auto simp: in_struct_def)
      then show ?thesis using assms(2) nf by (simp add: agree_on_def)
    qed
  qed
  then show ?thesis using f report_ivrs_cong [OF assms(1)]
    by (simp add: locate_amdvi_def split: option.split sum.split)
qed

theorem locate_reads_confined_witness: "locate_amdvi False (acpi_demo(0x40000023 := 9)) 0x1000 = Some 0xfed80000"
proof -
  have a: "agree_on in_window (acpi_demo(0x40000023 := 9)) acpi_demo"
    by (simp add: agree_on_def in_window_def IDENTITY_LIMIT_def)
  have "(0x40000023 :: u64) \<noteq> 0x1000 + of_nat i" if "i < 56" for i
  proof
    assume "(0x40000023 :: u64) = 0x1000 + of_nat i"
    then have "unat (0x40000023 :: u64) = unat (0x1000 :: u64) + i" using unat_add_of_nat [of "0x1000 :: u64" i] that by simp
    then show False using that by simp
  qed
  moreover have "(0x40000023 :: u64) \<noteq> IDENTITY_LIMIT + of_nat i" if "i < 35" for i
  proof
    assume "(0x40000023 :: u64) = IDENTITY_LIMIT + of_nat i"
    then have "unat (0x40000023 :: u64) = unat IDENTITY_LIMIT + i"
      using unat_add_of_nat [of IDENTITY_LIMIT i] that by (simp add: IDENTITY_LIMIT_def)
    then show False using that by (simp add: IDENTITY_LIMIT_def)
  qed
  ultimately have b: "agree_on (\<lambda>a. in_struct 0x1000 56 a \<or> in_struct IDENTITY_LIMIT 35 a) (acpi_demo(0x40000023 := 9)) acpi_demo"
    by (auto simp: agree_on_def in_struct_def)
  from locate_reads_confined [OF a disjI2 [OF b]] acpi_demo_base show ?thesis by simp
qed

text \<open>The bytes past the end of the window do matter: the pointer is bounded, its 36 bytes are not.\<close>

theorem root_pointer_may_end_past_the_window:
  "agree_on in_window (acpi_demo(0x40000001 := 9)) acpi_demo
   \<and> locate_amdvi False (acpi_demo(0x40000001 := 9)) 0x1000 \<noteq> locate_amdvi False acpi_demo 0x1000"
proof
  show "agree_on in_window (acpi_demo(0x40000001 := 9)) acpi_demo"
    by (simp add: agree_on_def in_window_def IDENTITY_LIMIT_def)
  have "locate_amdvi False (acpi_demo(0x40000001 := 9)) 0x1000 = None" by code_simp
  then show "locate_amdvi False (acpi_demo(0x40000001 := 9)) 0x1000 \<noteq> locate_amdvi False acpi_demo 0x1000"
    by (simp add: acpi_demo_base)
qed

text \<open>
  A corrupt root pointer is refused: change any one byte that a checksum of an accepted root
  pointer covers, the first 20 bytes or, from revision 2 on, all 36, and the result is an error.
\<close>

theorem corrupt_rsdp_is_refused:
  assumes "parse_rsdp buf = Inr r" and "i < (if rsdp_revision r < 2 then 20 else 36)" and "b \<noteq> buf ! i"
  shows "\<exists>e. parse_rsdp (buf[i := b]) = Inl e"
proof -
  have len: "20 \<le> length buf" and s20: "byte_sum (take 20 buf) = 0" and rev: "rsdp_revision r = buf ! 15"
    using assms(1) by (auto simp: parse_rsdp_def Let_def split: if_splits)
  show ?thesis
  proof (cases "i < 20")
    case True
    from byte_sum_corrupt [OF s20 True] len True assms(3) show ?thesis by (simp add: parse_rsdp_def)
  next
    case False
    then have big: "\<not> buf ! 15 < 2" "i < 36" using assms(2) rev by (simp_all split: if_splits)
    then have s36: "36 \<le> length buf" "byte_sum (take 36 buf) = 0"
      using assms(1) by (auto simp: parse_rsdp_def Let_def split: if_splits)
    from byte_sum_corrupt [OF s36(2) big(2)] s36(1) big assms(3) have "byte_sum (take 36 (buf[i := b])) \<noteq> 0" by simp
    moreover have "buf[i := b] ! 15 = buf ! 15" using False by simp
    ultimately show ?thesis using big by (simp add: parse_rsdp_def Let_def)
  qed
qed

theorem corrupt_rsdp_is_refused_witness:
  "parse_rsdp demo_rsdp \<noteq> Inl BadChecksum \<and> (\<exists>e. parse_rsdp (demo_rsdp[17 := 0x31]) = Inl e)"
proof -
  have p: "parse_rsdp demo_rsdp = Inr \<lparr>rsdp_revision = 0, rsdp_rsdt = 0x3000, rsdp_xsdt = None\<rparr>" by code_simp
  have "(0x31 :: u8) \<noteq> demo_rsdp ! 17" by code_simp
  from corrupt_rsdp_is_refused [OF p _ this] p show ?thesis by simp
qed

text \<open>
  The BIOS scan is the obvious search: what it returns is the first offset, among the multiples
  of 16 with 20 bytes behind them, at which a root pointer parses; looking at the signature first
  changes nothing, and so a bare signature never stops the search.
\<close>

theorem scan_is_first_parse:
  "scan_for_rsdp buf = find (\<lambda>i. \<exists>r. parse_rsdp (drop i buf) = Inr r) (filter (\<lambda>i. 16 dvd i) [0..<length buf - 19])"
proof (cases "scan_from buf 0")
  case None
  then have "\<not> (\<exists>r. parse_rsdp (drop i buf) = Inr r)" if "16 dvd i" "i < length buf - 19" for i
    using scan_finds [of 0 buf] that by fastforce
  then have "find (\<lambda>i. \<exists>r. parse_rsdp (drop i buf) = Inr r) (filter (\<lambda>i. 16 dvd i) [0..<length buf - 19]) = None"
    by (auto simp: find_None_iff)
  with None show ?thesis by (simp add: scan_for_rsdp_def)
next
  case (Some j)
  have "find (\<lambda>i. \<exists>r. parse_rsdp (drop i buf) = Inr r) (filter (\<lambda>i. 16 dvd i) [0..<length buf - 19]) = Some j"
  proof (rule find_least)
    show "sorted (filter (\<lambda>i. 16 dvd i) [0..<length buf - 19])" by (simp add: sorted_wrt_filter)
  qed (use scan_finds [of 0 buf] Some in fastforce)+
  with Some show ?thesis by (simp add: scan_for_rsdp_def)
qed

end
