(* ===== verification/Pci.thy ===== *)
theory Pci
  imports Bootinfo
begin

text \<open>
  PCI configuration space, read at boot to find the IOMMU and every function it has to bound
  (src/crates/kernel/src/pci.rs). Configuration space is a function from the value written to the
  address port to the value the data port then returns. The enumeration is proved to end and,
  unless it says it was truncated, to return every function on every bus that can be reached
  through bridges: a function it missed would be passed through by the unit.
\<close>

section \<open>Functions and configuration cycles\<close>

type_synonym config = "u32 \<Rightarrow> u32"

record PciFunction =
  f_bus :: u8
  f_dev :: u8
  f_func :: u8
  f_vendor :: u16
  f_device :: u16

definition Function_EMPTY :: PciFunction where
  "Function_EMPTY = \<lparr>f_bus = 0, f_dev = 0, f_func = 0, f_vendor = 0xFFFF, f_device = 0xFFFF\<rparr>"

definition bdf :: "PciFunction \<Rightarrow> u16" where
  "bdf f = push_bit 8 (ucast (f_bus f)) OR push_bit 3 (ucast (f_dev f)) OR ucast (f_func f)"

definition config_address :: "u8 \<Rightarrow> u8 \<Rightarrow> u8 \<Rightarrow> u16 \<Rightarrow> u32" where
  "config_address bus dev func off =
     0x80000000 OR push_bit 16 (ucast bus) OR push_bit 11 (ucast dev) OR push_bit 8 (ucast func) OR (ucast off AND 0xFC)"

definition read32 :: "config \<Rightarrow> u8 \<Rightarrow> u8 \<Rightarrow> u8 \<Rightarrow> u16 \<Rightarrow> u32" where
  "read32 cfg bus dev func off = cfg (config_address bus dev func off)"

definition CLASS_ETHERNET :: u16 where "CLASS_ETHERNET = 0x0200"
definition CLASS_IOMMU :: u16 where "CLASS_IOMMU = 0x0806"
definition EDU_VENDOR :: u16 where "EDU_VENDOR = 0x1234"
definition EDU_DEVICE :: u16 where "EDU_DEVICE = 0x11e8"
definition CAP_ID_SECURE_DEVICE :: u8 where "CAP_ID_SECURE_DEVICE = 0x0F"
definition CAP_TYPE_IOMMU :: u32 where "CAP_TYPE_IOMMU = 0x3"

definition vendor_at :: "config \<Rightarrow> u8 \<Rightarrow> u8 \<Rightarrow> u8 \<Rightarrow> u16" where
  "vendor_at cfg bus dev func = ucast (read32 cfg bus dev func 0x00 AND 0xFFFF)"

definition function_at :: "config \<Rightarrow> u8 \<Rightarrow> u8 \<Rightarrow> u8 \<Rightarrow> PciFunction" where
  "function_at cfg bus dev func = \<lparr>f_bus = bus, f_dev = dev, f_func = func, f_vendor = vendor_at cfg bus dev func,
     f_device = ucast (drop_bit 16 (read32 cfg bus dev func 0x00))\<rparr>"

definition devs_of_bus :: "u8 list" where "devs_of_bus = map of_nat [0..<32]"
definition funcs_of_dev :: "u8 list" where "funcs_of_dev = map of_nat [0..<8]"

section \<open>Looking for one function on bus 0\<close>

definition class_at :: "config \<Rightarrow> u8 \<Rightarrow> u8 \<Rightarrow> u16" where
  "class_at cfg dev func = ucast (drop_bit 16 (read32 cfg 0 dev func 0x08))"

fun class_in_dev :: "config \<Rightarrow> u16 \<Rightarrow> u8 \<Rightarrow> u8 list \<Rightarrow> PciFunction option" where
  "class_in_dev cfg class' dev [] = None"
| "class_in_dev cfg class' dev (func # funcs) =
     (if vendor_at cfg 0 dev func = 0xFFFF
      then if func = 0 then None else class_in_dev cfg class' dev funcs
      else if class_at cfg dev func = class' then Some (function_at cfg 0 dev func)
      else class_in_dev cfg class' dev funcs)"

fun class_in_devs :: "config \<Rightarrow> u16 \<Rightarrow> u8 list \<Rightarrow> PciFunction option" where
  "class_in_devs cfg class' [] = None"
| "class_in_devs cfg class' (dev # devs) =
     (case class_in_dev cfg class' dev funcs_of_dev of Some f \<Rightarrow> Some f | None \<Rightarrow> class_in_devs cfg class' devs)"

definition find_class :: "config \<Rightarrow> u16 \<Rightarrow> PciFunction option" where
  "find_class cfg class' = class_in_devs cfg class' devs_of_bus"

text \<open>The same walk, written out a second time in the code.\<close>

definition find_iommu :: "config \<Rightarrow> PciFunction option" where
  "find_iommu cfg = class_in_devs cfg CLASS_IOMMU devs_of_bus"

definition edu_at :: "config \<Rightarrow> u8 \<Rightarrow> u8 \<Rightarrow> bool" where
  "edu_at cfg dev func \<longleftrightarrow> vendor_at cfg 0 dev func = EDU_VENDOR
     \<and> (ucast (drop_bit 16 (read32 cfg 0 dev func 0x00)) :: u16) = EDU_DEVICE"

definition find_dma_device :: "config \<Rightarrow> PciFunction option" where
  "find_dma_device cfg =
     (case find (\<lambda>(dev, func). edu_at cfg dev func) (List.product devs_of_bus funcs_of_dev) of
        Some (dev, func) \<Rightarrow> Some \<lparr>f_bus = 0, f_dev = dev, f_func = func, f_vendor = EDU_VENDOR, f_device = EDU_DEVICE\<rparr>
      | None \<Rightarrow> find_class cfg CLASS_ETHERNET)"

section \<open>The capability block of the unit\<close>

record AmdViCap =
  av_base :: "u64 option"
  av_header :: u32
  av_enabled :: bool

definition compose_base :: "u32 \<Rightarrow> u32 \<Rightarrow> u64 option" where
  "compose_base lo hi =
     (if lo AND 1 = 0 \<or> lo AND 0xFFFFC000 = 0 then None
      else Some (push_bit 32 (ucast hi) OR (ucast lo AND 0xFFFFC000)))"

primrec cap_walk :: "nat \<Rightarrow> config \<Rightarrow> PciFunction \<Rightarrow> u16 \<Rightarrow> AmdViCap option" where
  "cap_walk 0 cfg f off = None"
| "cap_walk (Suc n) cfg f off =
     (if off < 0x40 then None
      else let header = read32 cfg (f_bus f) (f_dev f) (f_func f) off
           in if (ucast (header AND 0xFF) :: u8) = CAP_ID_SECURE_DEVICE
              then if drop_bit 16 header AND 0x7 \<noteq> CAP_TYPE_IOMMU then None
                   else if off + 0x08 > 0xFF then None
                   else let lo = read32 cfg (f_bus f) (f_dev f) (f_func f) (off + 0x04);
                            hi = read32 cfg (f_bus f) (f_dev f) (f_func f) (off + 0x08)
                        in Some \<lparr>av_base = compose_base lo hi, av_header = header, av_enabled = (lo AND 1 \<noteq> 0)\<rparr>
              else let off' = (ucast (drop_bit 8 header AND 0xFC) :: u16)
                   in if off' = 0 then None else cap_walk n cfg f off')"

definition amd_vi_cap :: "config \<Rightarrow> PciFunction \<Rightarrow> AmdViCap option" where
  "amd_vi_cap cfg f =
     (let status = (ucast (drop_bit 16 (read32 cfg (f_bus f) (f_dev f) (f_func f) 0x04)) :: u16)
      in if status AND push_bit 4 1 = 0 then None
         else cap_walk 48 cfg f (ucast (read32 cfg (f_bus f) (f_dev f) (f_func f) 0x34 AND 0xFC)))"

section \<open>Enumerating every function\<close>

text \<open>The filled part of the worklist of buses (16 entries) and of the caller's array, and the flag.\<close>

record Scan =
  sc_buses :: "u8 list"
  sc_out :: "PciFunction list"
  sc_truncated :: bool

definition MAX_BUSES :: usize where "MAX_BUSES = 16"

definition header_at :: "config \<Rightarrow> u8 \<Rightarrow> u8 \<Rightarrow> u8 \<Rightarrow> u8" where
  "header_at cfg bus dev func = ucast (drop_bit 16 (read32 cfg bus dev func 0x0C))"

definition secondary_at :: "config \<Rightarrow> u8 \<Rightarrow> u8 \<Rightarrow> u8 \<Rightarrow> u8" where
  "secondary_at cfg bus dev func = ucast (drop_bit 8 (read32 cfg bus dev func 0x18) AND 0xFF)"

definition queue_bus :: "u8 \<Rightarrow> Scan \<Rightarrow> Scan" where
  "queue_bus secondary s =
     (if secondary \<noteq> 0 \<and> secondary \<notin> set (sc_buses s)
      then if length (sc_buses s) < MAX_BUSES then s\<lparr>sc_buses := sc_buses s @ [secondary]\<rparr> else s\<lparr>sc_truncated := True\<rparr>
      else s)"

definition record_function :: "usize \<Rightarrow> PciFunction \<Rightarrow> Scan \<Rightarrow> Scan" where
  "record_function cap f s = (if length (sc_out s) < cap then s\<lparr>sc_out := sc_out s @ [f]\<rparr> else s\<lparr>sc_truncated := True\<rparr>)"

definition visit :: "usize \<Rightarrow> config \<Rightarrow> u8 \<Rightarrow> u8 \<Rightarrow> u8 \<Rightarrow> Scan \<Rightarrow> Scan" where
  "visit cap cfg bus dev func s =
     record_function cap (function_at cfg bus dev func)
       (if header_at cfg bus dev func AND 0x7F = 1 then queue_bus (secondary_at cfg bus dev func) s else s)"

fun scan_funcs :: "usize \<Rightarrow> config \<Rightarrow> u8 \<Rightarrow> u8 \<Rightarrow> u8 list \<Rightarrow> Scan \<Rightarrow> Scan" where
  "scan_funcs cap cfg bus dev [] s = s"
| "scan_funcs cap cfg bus dev (func # funcs) s =
     (if vendor_at cfg bus dev func = 0xFFFF then scan_funcs cap cfg bus dev funcs s
      else if func = 0 \<and> header_at cfg bus dev func AND 0x80 = 0 then visit cap cfg bus dev func s
      else scan_funcs cap cfg bus dev funcs (visit cap cfg bus dev func s))"

definition scan_bus :: "usize \<Rightarrow> config \<Rightarrow> u8 \<Rightarrow> Scan \<Rightarrow> Scan" where
  "scan_bus cap cfg bus s = fold (\<lambda>dev. scan_funcs cap cfg bus dev funcs_of_dev) devs_of_bus s"

lemma visit_buses: "length (sc_buses (visit cap cfg bus dev func s)) \<le> max MAX_BUSES (length (sc_buses s))"
  by (simp add: visit_def record_function_def queue_bus_def)

lemma scan_funcs_buses: "length (sc_buses (scan_funcs cap cfg bus dev funcs s)) \<le> max MAX_BUSES (length (sc_buses s))"
proof (induction funcs arbitrary: s)
  case (Cons func funcs)
  show ?case using Cons [of s] Cons [of "visit cap cfg bus dev func s"] visit_buses [of cap cfg bus dev func s] by auto
qed simp

lemma scan_bus_buses: "length (sc_buses (scan_bus cap cfg bus s)) \<le> max MAX_BUSES (length (sc_buses s))"
proof -
  have "length (sc_buses (fold (\<lambda>dev. scan_funcs cap cfg bus dev funcs_of_dev) devs s)) \<le> max MAX_BUSES (length (sc_buses s))" for devs
  proof (induction devs arbitrary: s)
    case (Cons dev devs)
    show ?case using Cons [of "scan_funcs cap cfg bus dev funcs_of_dev s"] scan_funcs_buses [of cap cfg bus dev funcs_of_dev s]
      by simp
  qed simp
  then show ?thesis by (simp add: scan_bus_def)
qed

function scan_buses :: "usize \<Rightarrow> config \<Rightarrow> usize \<Rightarrow> Scan \<Rightarrow> Scan" where
  "scan_buses cap cfg nxt s =
     (if nxt < length (sc_buses s) then scan_buses cap cfg (nxt + 1) (scan_bus cap cfg (sc_buses s ! nxt) s) else s)"
  by pat_completeness auto
termination
proof (relation "measure (\<lambda>(cap, cfg, nxt, s). max MAX_BUSES (length (sc_buses s)) - nxt)")
  fix cap cfg nxt and s :: Scan assume "nxt < length (sc_buses s)"
  then show "((cap, cfg, nxt + 1, scan_bus cap cfg (sc_buses s ! nxt) s), (cap, cfg, nxt, s))
      \<in> measure (\<lambda>(cap, cfg, nxt, s). max MAX_BUSES (length (sc_buses s)) - nxt)"
    using scan_bus_buses [of cap cfg "sc_buses s ! nxt" s] by (simp del: max_def)
qed simp

declare scan_buses.simps [simp del]

definition pci_enumerate :: "config \<Rightarrow> usize \<Rightarrow> PciFunction list \<times> bool \<times> usize" where
  "pci_enumerate cfg cap =
     (let s = scan_buses cap cfg 0 \<lparr>sc_buses = [0], sc_out = [], sc_truncated = False\<rparr>
      in (sc_out s, sc_truncated s, length (sc_buses s)))"

section \<open>Questions about one function\<close>

definition is_dma_capable :: "config \<Rightarrow> PciFunction \<Rightarrow> bool" where
  "is_dma_capable cfg f \<longleftrightarrow> f_vendor f = EDU_VENDOR \<and> f_device f = EDU_DEVICE
     \<or> drop_bit 16 (read32 cfg (f_bus f) (f_dev f) (f_func f) 0x08) = ucast CLASS_ETHERNET"

definition is_edu :: "PciFunction \<Rightarrow> bool" where
  "is_edu f \<longleftrightarrow> f_vendor f = EDU_VENDOR \<and> f_device f = EDU_DEVICE"

definition bar0 :: "config \<Rightarrow> PciFunction \<Rightarrow> u64 option" where
  "bar0 cfg f =
     (let raw = read32 cfg (f_bus f) (f_dev f) (f_func f) 0x10
      in if raw = 0xFFFFFFFF \<or> raw = 0 \<or> raw AND 1 \<noteq> 0 then None else Some (ucast (raw AND 0xFFFFFFF0)))"

text \<open>What a write to configuration space does to it is the machine's: \<open>wr\<close>.\<close>

definition enable_bus_master :: "(u32 \<Rightarrow> u32 \<Rightarrow> config \<Rightarrow> config) \<Rightarrow> PciFunction \<Rightarrow> config \<Rightarrow> u32 \<times> config" where
  "enable_bus_master wr f cfg =
     (let cmd = read32 cfg (f_bus f) (f_dev f) (f_func f) 0x04;
          want = cmd OR push_bit 1 1 OR push_bit 2 1;
          cfg' = wr (config_address (f_bus f) (f_dev f) (f_func f) 0x04) want cfg
      in (read32 cfg' (f_bus f) (f_dev f) (f_func f) 0x04, cfg'))"

section \<open>The enumeration is complete\<close>

text \<open>Functions that answer: function 0, or another one unless function 0 says it is the only one.\<close>

definition answers :: "config \<Rightarrow> u8 \<Rightarrow> u8 \<times> u8 \<Rightarrow> bool" where
  "answers cfg bus df \<longleftrightarrow> vendor_at cfg bus (fst df) (snd df) \<noteq> 0xFFFF
     \<and> (snd df = 0 \<or> vendor_at cfg bus (fst df) 0 = 0xFFFF \<or> header_at cfg bus (fst df) 0 AND 0x80 \<noteq> 0)"

definition places :: "config \<Rightarrow> u8 \<Rightarrow> (u8 \<times> u8) list" where
  "places cfg bus = filter (answers cfg bus) (List.product devs_of_bus funcs_of_dev)"

text \<open>The buses behind the bridges of a bus, and the buses reached from bus 0.\<close>

definition behind :: "config \<Rightarrow> u8 \<Rightarrow> u8 \<times> u8 \<Rightarrow> u8 set" where
  "behind cfg bus df = (if header_at cfg bus (fst df) (snd df) AND 0x7F = 1 \<and> secondary_at cfg bus (fst df) (snd df) \<noteq> 0
     then {secondary_at cfg bus (fst df) (snd df)} else {})"

inductive bus_reached :: "config \<Rightarrow> u8 \<Rightarrow> bool" for cfg where
  root: "bus_reached cfg 0"
| bridge: "bus_reached cfg bus \<Longrightarrow> df \<in> set (places cfg bus) \<Longrightarrow> b \<in> behind cfg bus df \<Longrightarrow> bus_reached cfg b"

definition on_bus :: "config \<Rightarrow> u8 \<Rightarrow> PciFunction list" where
  "on_bus cfg bus = map (\<lambda>(dev, func). function_at cfg bus dev func) (places cfg bus)"

definition later_funcs :: "u8 list" where "later_funcs = map of_nat [1..<8]"

lemma funcs_of_dev_split: "funcs_of_dev = 0 # later_funcs" "0 \<notin> set later_funcs"
proof -
  show "funcs_of_dev = 0 # later_funcs" by (simp add: funcs_of_dev_def later_funcs_def upt_rec [of 0])
  show "0 \<notin> set later_funcs" by (simp add: later_funcs_def upt_rec)
qed

lemma scan_funcs_later: "0 \<notin> set funcs \<Longrightarrow> scan_funcs cap cfg bus dev funcs s =
    fold (visit cap cfg bus dev) (filter (\<lambda>func. vendor_at cfg bus dev func \<noteq> 0xFFFF) funcs) s"
  by (induction funcs arbitrary: s) auto

lemma scan_funcs_fold: "scan_funcs cap cfg bus dev funcs_of_dev s =
    fold (visit cap cfg bus dev) (filter (\<lambda>func. answers cfg bus (dev, func)) funcs_of_dev) s"
proof -
  have r: "func \<noteq> 0" if "func \<in> set later_funcs" for func using that funcs_of_dev_split(2) by metis
  have f: "filter (\<lambda>func. answers cfg bus (dev, func)) later_funcs =
      (if vendor_at cfg bus dev 0 \<noteq> 0xFFFF \<and> header_at cfg bus dev 0 AND 0x80 = 0 then []
       else filter (\<lambda>func. vendor_at cfg bus dev func \<noteq> 0xFFFF) later_funcs)"
    using r by (auto simp: answers_def filter_empty_conv intro!: filter_cong)
  have a0: "answers cfg bus (dev, 0) \<longleftrightarrow> vendor_at cfg bus dev 0 \<noteq> 0xFFFF" by (simp add: answers_def)
  show ?thesis
    unfolding funcs_of_dev_split(1) by (simp add: scan_funcs_later [OF funcs_of_dev_split(2)] f a0)
qed

definition visit_at :: "usize \<Rightarrow> config \<Rightarrow> u8 \<Rightarrow> u8 \<times> u8 \<Rightarrow> Scan \<Rightarrow> Scan" where
  "visit_at cap cfg bus df = visit cap cfg bus (fst df) (snd df)"

lemma scan_bus_fold: "scan_bus cap cfg bus s = fold (visit_at cap cfg bus) (places cfg bus) s"
proof -
  have "fold (\<lambda>dev. scan_funcs cap cfg bus dev funcs_of_dev) devs s =
      fold (visit_at cap cfg bus) (filter (answers cfg bus) (List.product devs funcs_of_dev)) s" for devs
  proof (induction devs arbitrary: s)
    case (Cons dev devs)
    have "fold (visit_at cap cfg bus) (filter (answers cfg bus) (map (Pair dev) funcs)) s =
        fold (visit cap cfg bus dev) (filter (\<lambda>func. answers cfg bus (dev, func)) funcs) s" for funcs s
      by (induction funcs arbitrary: s) (simp_all add: visit_at_def)
    then show ?case using Cons by (simp add: scan_funcs_fold)
  qed simp
  then show ?thesis by (simp add: scan_bus_def places_def)
qed

text \<open>One visit: what it adds, and that it stays within the arrays and says so when it does not.\<close>

lemma visit_at_facts:
  fixes s :: Scan and cap and cfg and bus and df
  defines "s' \<equiv> visit_at cap cfg bus df s"
  shows "sc_truncated s \<Longrightarrow> sc_truncated s'"
    and "\<not> sc_truncated s' \<Longrightarrow> sc_out s' = sc_out s @ [function_at cfg bus (fst df) (snd df)]
      \<and> set (sc_buses s') = set (sc_buses s) \<union> behind cfg bus df"
    and "\<exists>ys. sc_buses s' = sc_buses s @ ys" and "set (sc_buses s') \<subseteq> set (sc_buses s) \<union> behind cfg bus df"
    and "distinct (sc_buses s) \<Longrightarrow> distinct (sc_buses s')"
    and "set (sc_out s') \<subseteq> insert (function_at cfg bus (fst df) (snd df)) (set (sc_out s))"
    and "length (sc_out s) \<le> cap \<Longrightarrow> length (sc_out s') \<le> cap"
  by (auto simp: s'_def visit_at_def visit_def record_function_def queue_bus_def behind_def split: if_splits)

lemma visits_facts:
  fixes s :: Scan and cap and cfg and bus
  defines "s' \<equiv> fold (visit_at cap cfg bus)"
  shows "sc_truncated s \<Longrightarrow> sc_truncated (s' ps s)"
    and "\<not> sc_truncated (s' ps s) \<Longrightarrow> sc_out (s' ps s) = sc_out s @ map (\<lambda>(dev, func). function_at cfg bus dev func) ps
      \<and> set (sc_buses (s' ps s)) = set (sc_buses s) \<union> (\<Union>df \<in> set ps. behind cfg bus df)"
    and "\<exists>ys. sc_buses (s' ps s) = sc_buses s @ ys"
    and "set (sc_buses (s' ps s)) \<subseteq> set (sc_buses s) \<union> (\<Union>df \<in> set ps. behind cfg bus df)"
    and "distinct (sc_buses s) \<Longrightarrow> distinct (sc_buses (s' ps s))"
    and "set (sc_out (s' ps s)) \<subseteq> set (map (\<lambda>(dev, func). function_at cfg bus dev func) ps) \<union> set (sc_out s)"
    and "length (sc_out s) \<le> cap \<Longrightarrow> length (sc_out (s' ps s)) \<le> cap"
  unfolding s'_def
proof (induction ps arbitrary: s)
  case (Cons df ps)
  note step = visit_at_facts [where cap = cap and cfg = cfg and bus = bus and df = df]
  have fold: "fold (visit_at cap cfg bus) (df # ps) s = fold (visit_at cap cfg bus) ps (visit_at cap cfg bus df s)" for s by simp
  { case 1 then show ?case using Cons.IH(1) step(1) by simp }
  { case 2 then show ?case using Cons.IH(1,2) [of "visit_at cap cfg bus df s"] step(2) [of s]
      by (auto simp: fold case_prod_beta simp del: fold_simps) }
  { case 3 then show ?case using Cons.IH(3) [of "visit_at cap cfg bus df s"] step(3) [of s] by auto }
  { case 4 then show ?case using Cons.IH(4) [of "visit_at cap cfg bus df s"] step(4) [of s] by auto }
  { case 5 then show ?case using Cons.IH(5) step(5) by simp }
  { case 6 then show ?case using Cons.IH(6) [of "visit_at cap cfg bus df s"] step(6) [of s] by (auto simp: case_prod_beta) }
  { case 7 then show ?case using Cons.IH(7) step(7) by simp }
qed simp_all

text \<open>The functions there are: those that answer on a bus that is reached.\<close>

definition present :: "config \<Rightarrow> PciFunction \<Rightarrow> bool" where
  "present cfg f \<longleftrightarrow> bus_reached cfg (f_bus f) \<and> f \<in> set (on_bus cfg (f_bus f))"

lemma on_bus_bus: "f \<in> set (on_bus cfg b) \<Longrightarrow> f_bus f = b"
  by (auto simp: on_bus_def function_at_def)

lemma distinct_places: "distinct (places cfg bus)"
proof -
  have "distinct devs_of_bus" "distinct funcs_of_dev" by code_simp+
  then show ?thesis by (simp add: places_def distinct_product)
qed

lemma distinct_on_bus: "distinct (on_bus cfg bus)"
  by (simp add: on_bus_def distinct_map distinct_places inj_on_def function_at_def split_beta prod_eq_iff)

lemma distinct_concat_on_bus: "distinct bs \<Longrightarrow> distinct (concat (map (on_bus cfg) bs))"
proof (induction bs)
  case (Cons b bs)
  have "set (on_bus cfg b) \<inter> set (on_bus cfg c) = {}" if "c \<in> set bs" for c
    using on_bus_bus [of _ cfg b] on_bus_bus [of _ cfg c] Cons.prems that by auto
  then have "set (on_bus cfg b) \<inter> set (concat (map (on_bus cfg) bs)) = {}" by auto
  with Cons show ?case by (simp add: distinct_on_bus)
qed simp

definition scan_inv :: "config \<Rightarrow> usize \<Rightarrow> usize \<Rightarrow> Scan \<Rightarrow> bool" where
  "scan_inv cfg cap nxt s \<longleftrightarrow> distinct (sc_buses s) \<and> 0 \<in> set (sc_buses s) \<and> (\<forall>b \<in> set (sc_buses s). bus_reached cfg b)
     \<and> nxt \<le> length (sc_buses s) \<and> length (sc_out s) \<le> cap \<and> (\<forall>f \<in> set (sc_out s). present cfg f)
     \<and> (\<not> sc_truncated s \<longrightarrow> sc_out s = concat (map (on_bus cfg) (take nxt (sc_buses s)))
          \<and> (\<forall>b \<in> set (take nxt (sc_buses s)). \<forall>df \<in> set (places cfg b). behind cfg b df \<subseteq> set (sc_buses s)))"

lemma scan_step_inv:
  assumes inv: "scan_inv cfg cap nxt s" and nxt: "nxt < length (sc_buses s)"
  shows "scan_inv cfg cap (nxt + 1) (scan_bus cap cfg (sc_buses s ! nxt) s)"
proof -
  let ?b = "sc_buses s ! nxt" let ?s = "scan_bus cap cfg ?b s"
  note f = visits_facts [where s = s and cap = cap and cfg = cfg and bus = ?b and ps = "places cfg ?b", folded scan_bus_fold]
  have b: "bus_reached cfg ?b" using inv nxt by (simp add: scan_inv_def)
  have on: "map (\<lambda>(dev, func). function_at cfg ?b dev func) (places cfg ?b) = on_bus cfg ?b" by (simp add: on_bus_def)
  from f(3) obtain ys where ys: "sc_buses ?s = sc_buses s @ ys" by blast
  have pre: "take (nxt + 1) (sc_buses ?s) = take nxt (sc_buses s) @ [?b]" using nxt by (simp add: ys take_Suc_conv_app_nth)
  have "\<forall>b \<in> set (sc_buses ?s). bus_reached cfg b"
  proof
    fix c assume "c \<in> set (sc_buses ?s)"
    with f(4) have "c \<in> set (sc_buses s) \<or> (\<exists>df \<in> set (places cfg ?b). c \<in> behind cfg ?b df)" by auto
    then show "bus_reached cfg c" using inv bus_reached.bridge [OF b] by (auto simp: scan_inv_def)
  qed
  moreover have "\<forall>g \<in> set (sc_out ?s). present cfg g"
  proof
    fix g assume "g \<in> set (sc_out ?s)"
    with f(6) have "g \<in> set (on_bus cfg ?b) \<or> g \<in> set (sc_out s)" by (auto simp: on)
    then show "present cfg g" using inv b on_bus_bus [of g cfg ?b] by (auto simp: scan_inv_def present_def)
  qed
  moreover have "sc_out ?s = concat (map (on_bus cfg) (take (nxt + 1) (sc_buses ?s)))
      \<and> (\<forall>b \<in> set (take (nxt + 1) (sc_buses ?s)). \<forall>df \<in> set (places cfg b). behind cfg b df \<subseteq> set (sc_buses ?s))"
    if t: "\<not> sc_truncated ?s"
  proof -
    have "\<not> sc_truncated s" using f(1) t by blast
    then show ?thesis using f(2) [OF t] inv unfolding pre by (simp add: scan_inv_def on) blast
  qed
  ultimately show ?thesis
    using inv nxt f(5,7) ys by (auto simp: scan_inv_def)
qed

lemma scan_buses_inv:
  "scan_inv cfg cap nxt s \<Longrightarrow> scan_inv cfg cap (length (sc_buses (scan_buses cap cfg nxt s))) (scan_buses cap cfg nxt s)
     \<and> length (sc_buses (scan_buses cap cfg nxt s)) \<le> max MAX_BUSES (length (sc_buses s))"
proof (induction cap cfg nxt s rule: scan_buses.induct)
  case (1 cap cfg nxt s)
  show ?case
  proof (cases "nxt < length (sc_buses s)")
    case True
    then show ?thesis
      using 1 scan_step_inv scan_bus_buses [of cap cfg "sc_buses s ! nxt" s]
      by (subst (1 2 3) scan_buses.simps) (simp del: max_def, linarith)
  next
    case False
    then have "nxt = length (sc_buses s)" using 1(2) by (simp add: scan_inv_def)
    with False 1(2) show ?thesis by (subst (1 2 3) scan_buses.simps) simp
  qed
qed

lemma closed_reaches_all:
  assumes "0 \<in> B" and "\<And>b df. b \<in> B \<Longrightarrow> df \<in> set (places cfg b) \<Longrightarrow> behind cfg b df \<subseteq> B" and "bus_reached cfg b"
  shows "b \<in> B"
  using assms(3) by (induction rule: bus_reached.induct) (use assms(1,2) in blast)+

lemma enumerate_facts:
  assumes "pci_enumerate cfg cap = (out, trunc, n)"
  shows "length out \<le> cap" and "n \<le> MAX_BUSES" and "\<forall>f \<in> set out. present cfg f"
    and "\<not> trunc \<Longrightarrow> set out = {f. present cfg f} \<and> distinct out \<and> n = card {b. bus_reached cfg b}"
proof -
  let ?init = "\<lparr>sc_buses = [0], sc_out = [], sc_truncated = False\<rparr>" let ?s = "scan_buses cap cfg 0 ?init"
  have "scan_inv cfg cap 0 ?init" by (simp add: scan_inv_def bus_reached.root)
  note loop = scan_buses_inv [OF this]
  then have inv: "scan_inv cfg cap (length (sc_buses ?s)) ?s" by (rule conjunct1)
  from loop have "length (sc_buses ?s) \<le> max MAX_BUSES 1" by simp
  then show "n \<le> MAX_BUSES" using assms by (auto simp: pci_enumerate_def Let_def MAX_BUSES_def)
  have s: "out = sc_out ?s" "trunc = sc_truncated ?s" "n = length (sc_buses ?s)"
    using assms by (simp_all add: pci_enumerate_def Let_def)
  show "length out \<le> cap" "\<forall>f \<in> set out. present cfg f" using inv by (simp_all add: s scan_inv_def)
  show "set out = {f. present cfg f} \<and> distinct out \<and> n = card {b. bus_reached cfg b}" if t: "\<not> trunc"
  proof -
    have o: "out = concat (map (on_bus cfg) (sc_buses ?s))" and d: "distinct (sc_buses ?s)"
      using inv t by (simp_all add: s scan_inv_def)
    have B: "set (sc_buses ?s) = {b. bus_reached cfg b}"
    proof
      show "set (sc_buses ?s) \<subseteq> {b. bus_reached cfg b}" using inv by (auto simp: scan_inv_def)
      show "{b. bus_reached cfg b} \<subseteq> set (sc_buses ?s)"
        using inv t closed_reaches_all [of "set (sc_buses ?s)" cfg] by (auto simp: s scan_inv_def)
    qed
    have "set out = {f. present cfg f}" using on_bus_bus by (auto simp: o B present_def)
    moreover have "distinct out" unfolding o by (rule distinct_concat_on_bus [OF d])
    moreover have "n = card {b. bus_reached cfg b}" using distinct_card [OF d] by (simp add: s B)
    ultimately show ?thesis by simp
  qed
qed

text \<open>A bus, device and function number fit their fields, so they can be read back from the BDF.\<close>

lemma present_range: "present cfg f \<Longrightarrow> f_dev f \<in> set devs_of_bus \<and> f_func f \<in> set funcs_of_dev"
proof -
  assume "present cfg f"
  then obtain a b where f: "f = function_at cfg (f_bus f) a b" and "a \<in> set devs_of_bus" "b \<in> set funcs_of_dev"
    by (auto simp: present_def on_bus_def places_def)
  moreover have "f_dev f = a" "f_func f = b" by (subst f, simp add: function_at_def)+
  ultimately show ?thesis by simp
qed

lemma small_word_bits:
  fixes x :: "'a::len word"
  assumes "unat x < 2 ^ n"
  shows "n \<le> m \<Longrightarrow> \<not> bit x m"
proof -
  have "take_bit n x = x"
    using assms by (simp add: word_unat_eq_iff unsigned_take_bit_eq take_bit_nat_eq_self)
  then show "n \<le> m \<Longrightarrow> \<not> bit x m" by (metis bit_take_bit_iff not_le)
qed

lemma bdf_parts:
  assumes "f_dev f \<in> set devs_of_bus" and "f_func f \<in> set funcs_of_dev"
  shows "ucast (drop_bit 8 (bdf f)) = f_bus f" and "ucast (take_bit 5 (drop_bit 3 (bdf f))) = f_dev f"
    and "ucast (take_bit 3 (bdf f)) = f_func f"
proof -
  have "unat (f_dev f) < 2 ^ 5" "unat (f_func f) < 2 ^ 3"
    using assms by (auto simp: devs_of_bus_def funcs_of_dev_def word_less_nat_alt unat_of_nat)
  then have d: "\<And>m. 5 \<le> m \<Longrightarrow> \<not> bit (f_dev f) m" and g: "\<And>m. 3 \<le> m \<Longrightarrow> \<not> bit (f_func f) m"
    using small_word_bits by blast+
  show "ucast (drop_bit 8 (bdf f)) = f_bus f"
    by (rule bit_word_eqI) (use d g in \<open>auto simp: bdf_def bit_simps\<close>)
  show "ucast (take_bit 5 (drop_bit 3 (bdf f))) = f_dev f"
    by (rule bit_word_eqI) (use d g in \<open>auto simp: bdf_def bit_simps\<close>)
  show "ucast (take_bit 3 (bdf f)) = f_func f"
    by (rule bit_word_eqI) (use d g in \<open>auto simp: bdf_def bit_simps\<close>)
qed

lemma present_bdf_inj:
  assumes "present cfg f" and "present cfg g" and "bdf f = bdf g"
  shows "f = g"
proof -
  have "f_bus f = f_bus g" "f_dev f = f_dev g" "f_func f = f_func g"
    using bdf_parts [of f] bdf_parts [of g] present_range assms by metis+
  moreover have "h = function_at cfg (f_bus h) (f_dev h) (f_func h)" if "present cfg h" for h
  proof -
    from that obtain a b where h: "h = function_at cfg (f_bus h) a b" by (auto simp: present_def on_bus_def)
    have "f_dev h = a" "f_func h = b" by (subst h, simp add: function_at_def)+
    with h show ?thesis by simp
  qed
  ultimately show ?thesis using assms(1,2) by metis
qed

lemma bdf_root_bus: "bdf f < 0x100 \<longleftrightarrow> f_bus f = 0" if "f_dev f \<in> set devs_of_bus" "f_func f \<in> set funcs_of_dev"
proof -
  have "bdf f < 0x100 \<longleftrightarrow> drop_bit 8 (bdf f) = 0"
    by (simp add: word_less_nat_alt word_unat_eq_iff unsigned_drop_bit_eq drop_bit_eq_div unat_div div_eq_0_iff)
  moreover have "drop_bit 8 (bdf f) = 0 \<longleftrightarrow> ucast (drop_bit 8 (bdf f)) = (0 :: u8)"
  proof
    assume z: "ucast (drop_bit 8 (bdf f)) = (0 :: u8)"
    show "drop_bit 8 (bdf f) = 0"
    proof (rule bit_word_eqI)
      fix m assume "m < LENGTH(16)"
      have "bit (ucast (drop_bit 8 (bdf f)) :: u8) m = False" using z by simp
      then show "bit (drop_bit 8 (bdf f)) m = bit (0 :: u16) m" using bit_imp_le_length [of "bdf f" "8 + m"] by (auto simp: bit_simps)
    qed
  qed simp
  ultimately show ?thesis using bdf_parts(1) [OF that] by simp
qed

section \<open>A demonstration machine\<close>

text \<open>A host bridge, an \<open>edu\<close> device, and behind a bridge to bus 1 a network card.\<close>

definition pci_demo :: config where
  "pci_demo a =
     (case find (\<lambda>(x, v). x = a)
        [(0x80000000, 0x29C08086), (0x8000000C, 0),
         (0x80000800, 0x000C1B36), (0x8000080C, 0x00010000), (0x80000818, 0x00010100),
         (0x80001000, 0x11E81234), (0x8000100C, 0), (0x80001008, 0x00FF0000),
         (0x80010000, 0x10D38086), (0x8001000C, 0), (0x80010008, 0x02000000)] of
        None \<Rightarrow> 0xFFFFFFFF | Some (_, v) \<Rightarrow> v)"

definition edu_function :: PciFunction where
  "edu_function = \<lparr>f_bus = 0, f_dev = 2, f_func = 0, f_vendor = 0x1234, f_device = 0x11e8\<rparr>"

definition demo_functions :: "PciFunction list" where
  "demo_functions =
     [\<lparr>f_bus = 0, f_dev = 0, f_func = 0, f_vendor = 0x8086, f_device = 0x29C0\<rparr>,
      \<lparr>f_bus = 0, f_dev = 1, f_func = 0, f_vendor = 0x1B36, f_device = 0x000C\<rparr>, edu_function,
      \<lparr>f_bus = 1, f_dev = 0, f_func = 0, f_vendor = 0x8086, f_device = 0x10D3\<rparr>]"

lemma config_address_code [code]:
  "config_address bus dev func off =
     (if dev < 32 \<and> func < 8
      then 0x80000000 + (ucast bus * 0x10000 + (ucast dev * 0x800 + (ucast func * 0x100 + (ucast off AND 0xFC))))
      else 0x80000000 OR push_bit 16 (ucast bus) OR push_bit 11 (ucast dev) OR push_bit 8 (ucast func) OR (ucast off AND 0xFC))"
proof (cases "dev < 32 \<and> func < 8")
  case True
  then have d: "\<And>m. 5 \<le> m \<Longrightarrow> \<not> bit dev m" and g: "\<And>m. 3 \<le> m \<Longrightarrow> \<not> bit func m"
    using small_word_bits [of dev 5] small_word_bits [of func 3] by (simp_all add: word_less_nat_alt)
  have m: "(0xFC :: u32) = push_bit 2 (mask 6)" "(0x80000000 :: u32) = push_bit 31 1" by (simp_all add: mask_eq_exp_minus_1)
  have p: "ucast bus * 0x10000 = push_bit 16 (ucast bus :: u32)" "ucast dev * 0x800 = push_bit 11 (ucast dev :: u32)"
    "ucast func * 0x100 = push_bit 8 (ucast func :: u32)"
    by (simp_all add: push_bit_eq_mult)
  have "bit (push_bit 31 (1 :: u32)) n \<longleftrightarrow> n = 31" for n
    by (simp only: bit_push_bit_iff bit_1_iff possible_bit_word) auto
  then have top: "bit (0x80000000 :: u32) n \<longleftrightarrow> n = 31" for n by simp
  let ?o = "ucast off AND push_bit 2 (mask 6) :: u32"
  have o1: "push_bit 8 (ucast func) + ?o = push_bit 8 (ucast func) OR ?o"
    by (rule disjunctive_add_eq_or, rule bit_word_eqI) (auto simp: bit_simps)
  have o2: "push_bit 11 (ucast dev) + (push_bit 8 (ucast func) OR ?o) = push_bit 11 (ucast dev) OR (push_bit 8 (ucast func) OR ?o)"
    by (rule disjunctive_add_eq_or, rule bit_word_eqI) (use g in \<open>auto simp: bit_simps\<close>)
  have o3: "push_bit 16 (ucast bus) + (push_bit 11 (ucast dev) OR (push_bit 8 (ucast func) OR ?o)) =
      push_bit 16 (ucast bus) OR (push_bit 11 (ucast dev) OR (push_bit 8 (ucast func) OR ?o))"
    by (rule disjunctive_add_eq_or, rule bit_word_eqI) (use d g in \<open>auto simp: bit_simps\<close>)
  have o4: "push_bit 31 1 + (push_bit 16 (ucast bus) OR (push_bit 11 (ucast dev) OR (push_bit 8 (ucast func) OR ?o))) =
      push_bit 31 1 OR (push_bit 16 (ucast bus) OR (push_bit 11 (ucast dev) OR (push_bit 8 (ucast func) OR ?o)))"
    by (rule disjunctive_add_eq_or, rule bit_word_eqI) (use d g in \<open>simp only: top bit_and_iff bit_or_iff m(2) [symmetric]; auto simp: bit_simps dest: bit_imp_le_length\<close>)
  show ?thesis using True unfolding config_address_def m p o1 o2 o3 o4 by (simp only: if_True simp_thms or.assoc)
next
  case False
  then show ?thesis unfolding config_address_def by (simp only: if_False)
qed

lemma pci_demo_functions: "pci_enumerate pci_demo 32 = (demo_functions, False, 2)"
  by code_simp

section \<open>Properties\<close>

text \<open>
  (C10) The enumeration misses nothing without saying so: it returns only functions that are there, as
  many as the caller has room for, over at most sixteen buses; and if it does not report truncation
  it returns every function that answers on any bus reached through bridges, each once, and the
  number of those buses.
\<close>

theorem enumeration_is_complete:
  assumes "pci_enumerate cfg cap = (out, trunc, n)"
  shows "length out \<le> cap \<and> n \<le> MAX_BUSES \<and> (\<forall>f \<in> set out. present cfg f)
    \<and> (\<not> trunc \<longrightarrow> set out = {f. present cfg f} \<and> distinct (map bdf out) \<and> n = card {b. bus_reached cfg b})"
proof -
  have "distinct (map bdf out)" if "\<not> trunc"
    using enumerate_facts(4) [OF assms that] present_bdf_inj [of cfg] by (auto simp: distinct_map inj_on_def)
  then show ?thesis using enumerate_facts [OF assms] by blast
qed

theorem enumeration_is_complete_witness:
  "card {b. bus_reached pci_demo b} = 2 \<and> present pci_demo edu_function \<and> distinct (map bdf demo_functions)"
proof -
  have "edu_function \<in> set demo_functions" by (simp add: demo_functions_def)
  with enumeration_is_complete [OF pci_demo_functions] show ?thesis by auto
qed

text \<open>
  A register base is believed only if the unit claims it: the base read from the capability block
  belongs to an enabled aperture, is not zero, and carries no flag bits of the register it is read
  from.
\<close>

theorem amd_vi_base_is_programmed:
  assumes "amd_vi_cap cfg f = Some c" and "av_base c = Some b"
  shows "av_enabled c \<and> b \<noteq> 0 \<and> take_bit 14 b = 0"
proof -
  have "\<exists>lo hi. av_base c = compose_base lo hi \<and> av_enabled c = (lo AND 1 \<noteq> 0)" if "cap_walk n cfg f off = Some c" for n off
    using that by (induction n arbitrary: off) (auto simp: Let_def split: if_splits, blast)
  then obtain lo hi where c: "compose_base lo hi = Some b" "av_enabled c = (lo AND 1 \<noteq> 0)"
    using assms by (auto simp: amd_vi_cap_def Let_def split: if_splits) metis
  then have b: "b = push_bit 32 (ucast hi) OR (ucast lo AND 0xFFFFC000)" and lo: "lo AND 1 \<noteq> 0" "lo AND 0xFFFFC000 \<noteq> 0"
    by (auto simp: compose_base_def split: if_splits)
  have m: "(0xFFFFC000 :: u32) = push_bit 14 (mask 18)" "(0xFFFFC000 :: u64) = push_bit 14 (mask 18)"
    by (simp_all add: mask_eq_exp_minus_1)
  have "take_bit 14 b = 0"
    unfolding b m by (rule bit_word_eqI) (auto simp: bit_simps)
  moreover have "b \<noteq> 0"
  proof
    assume z: "b = 0"
    have "lo AND 0xFFFFC000 = 0"
    proof (rule bit_word_eqI)
      fix i assume i: "i < LENGTH(32)"
      have "bit b i = False" using z by simp
      then show "bit (lo AND 0xFFFFC000) i = bit (0 :: u32) i" using i unfolding b m by (auto simp: bit_simps)
    qed
    with lo show False by simp
  qed
  ultimately show ?thesis using c(2) lo by simp
qed

theorem amd_vi_base_is_programmed_witness:
  "compose_base 0xfed80001 7 = Some 0x7fed80000 \<and> (0x7fed80000 :: u64) \<noteq> 0"
proof -
  let ?cfg = "\<lambda>a. if a = config_address 0 0 2 0x04 then 0x00100000 else if a = config_address 0 0 2 0x34 then 0x40
    else if a = config_address 0 0 2 0x40 then 0x0003000F else if a = config_address 0 0 2 0x44 then 0xfed80001
    else if a = config_address 0 0 2 0x48 then 7 else 0 :: u32"
  let ?f = "\<lparr>f_bus = 0, f_dev = 0, f_func = 2, f_vendor = 0x1022, f_device = 0x1419\<rparr>"
  have "amd_vi_cap ?cfg ?f = Some \<lparr>av_base = Some 0x7fed80000, av_header = 0x0003000F, av_enabled = True\<rparr>" by code_simp
  from amd_vi_base_is_programmed [OF this] have "(0x7fed80000 :: u64) \<noteq> 0" by simp
  moreover have "compose_base 0xfed80001 7 = Some 0x7fed80000" by code_simp
  ultimately show ?thesis by simp
qed

end
