(* ===== verification/Amdvi.thy ===== *)
theory Amdvi
  imports Kdma Pci
begin

text \<open>
  Bringing the AMD-Vi unit up (\<open>program_dte\<close> and its caller in src/crates/kernel/src/lib.rs): the
  device table, a page table for each device the nucleus binds, an empty one for every other
  function of the machine, the event log and the command buffer, and the store that enables the
  unit, on which the domains become real. Device and page tables are memory words; the registers of
  the unit are the machine's, written through the architecture record and read through \<open>rd\<close>. The
  demonstration that follows the enabling store is not modelled.
\<close>

section \<open>Entries\<close>

definition DTE_V :: u64 where "DTE_V = push_bit 0 1"
definition DTE_TV :: u64 where "DTE_TV = push_bit 1 1"
definition MODE_3_LEVEL :: u64 where "MODE_3_LEVEL = push_bit 9 3"
definition NEXT_LEVEL_2 :: u64 where "NEXT_LEVEL_2 = push_bit 9 2"
definition NEXT_LEVEL_1 :: u64 where "NEXT_LEVEL_1 = push_bit 9 1"

definition dte_word :: "u64 \<Rightarrow> u64" where
  "dte_word root = DTE_V OR DTE_TV OR MODE_3_LEVEL OR (root AND IOPTE_ADDR) OR IOPTE_IR OR IOPTE_IW"

definition link_word :: "u64 \<Rightarrow> u64 \<Rightarrow> u64" where
  "link_word tab level = (tab AND IOPTE_ADDR) OR IOPTE_PR OR IOPTE_IR OR IOPTE_IW OR level"

definition EVENT_ENTRIES_LOG2 :: u64 where "EVENT_ENTRIES_LOG2 = 8"
definition EVENT_LOG_EN :: u64 where "EVENT_LOG_EN = push_bit 2 1"
definition CMD_ENTRIES_LOG2 :: u64 where "CMD_ENTRIES_LOG2 = 8"
definition CMD_BUF_EN :: u64 where "CMD_BUF_EN = push_bit 12 1"
definition IOMMU_EN :: u64 where "IOMMU_EN = push_bit 0 1"
definition DT_PAGES :: usize where "DT_PAGES = 512"
definition SCAN_FUNCTIONS :: usize where "SCAN_FUNCTIONS = 32"

section \<open>State\<close>

text \<open>The kernel with the allocator it does not own yet, and the statics the boot keeps of the unit.\<close>

record 'm BringUp =
  up_fa :: BitmapAllocator
  up_k :: "'m Kernel"
  up_pt_root :: u64
  up_l1 :: "u64 option"
  up_dte :: u64
  up_dte_w0 :: u64
  up_deny_w0 :: u64
  up_event_log :: u64

definition upd_k :: "('m Kernel \<Rightarrow> 'm Kernel) \<Rightarrow> 'm BringUp \<Rightarrow> 'm BringUp" where
  "upd_k f st = st\<lparr>up_k := f (up_k st)\<rparr>"

definition load64 :: "u64 \<Rightarrow> 'm BringUp \<Rightarrow> u64" where
  "load64 a st = k_io (up_k st) a"

definition store64 :: "u64 \<Rightarrow> u64 \<Rightarrow> 'm BringUp \<Rightarrow> 'm BringUp" where
  "store64 a v = upd_k (\<lambda>k. k\<lparr>k_io := (k_io k)(a := v)\<rparr>)"

definition zero_page :: "u64 \<Rightarrow> (u64 \<Rightarrow> u64) \<Rightarrow> u64 \<Rightarrow> u64" where
  "zero_page p io = (\<lambda>a. if a - p < 4096 then 0 else io a)"

definition zero_at :: "u64 \<Rightarrow> 'm BringUp \<Rightarrow> 'm BringUp" where
  "zero_at p = upd_k (\<lambda>k. k\<lparr>k_io := zero_page p (k_io k)\<rparr>)"

definition zeroed_frame :: "'m BringUp \<Rightarrow> u64 option \<times> 'm BringUp" where
  "zeroed_frame st = (case alloc_frame (up_fa st) of
     (None, fa) \<Rightarrow> (None, st\<lparr>up_fa := fa\<rparr>) | (Some p, fa) \<Rightarrow> (Some p, zero_at p (st\<lparr>up_fa := fa\<rparr>)))"

definition mmio_write :: "'m Arch \<Rightarrow> u64 \<Rightarrow> u64 \<Rightarrow> 'm BringUp \<Rightarrow> 'm BringUp" where
  "mmio_write A a v = upd_k (upd_mach (a_write64 A a v))"

definition mmio_read :: "(u64 \<Rightarrow> 'm \<Rightarrow> u64) \<Rightarrow> u64 \<Rightarrow> 'm BringUp \<Rightarrow> u64" where
  "mmio_read rd a st = rd a (k_mach (up_k st))"

section \<open>The device table\<close>

definition dte_at :: "u64 \<Rightarrow> u16 \<Rightarrow> u64" where
  "dte_at dt b = dt + ucast b * 32"

definition write_dte :: "u64 \<Rightarrow> u16 \<Rightarrow> u64 \<Rightarrow> u64 \<Rightarrow> 'm BringUp \<Rightarrow> 'm BringUp" where
  "write_dte dt b w0 w1 st =
     store64 (dte_at dt b + 24) 0 (store64 (dte_at dt b + 16) 0 (store64 (dte_at dt b + 8) w1 (store64 (dte_at dt b) w0 st)))"

text \<open>The devices to bind: on the root bus and able to master it, the one the boot can drive first.\<close>

definition bindable :: "config \<Rightarrow> PciFunction \<Rightarrow> bool" where
  "bindable cfg f \<longleftrightarrow> f_bus f = 0 \<and> is_dma_capable cfg f"

definition devices :: "config \<Rightarrow> PciFunction list \<Rightarrow> PciFunction list" where
  "devices cfg fs = take MAX_DOMAINS
     (filter (\<lambda>f. is_edu f \<and> bindable cfg f) fs @ filter (\<lambda>f. bindable cfg f \<and> \<not> is_edu f) fs)"

record Staging =
  sg_slots :: "DomainSlot list"
  sg_live :: usize
  sg_dev0_w0 :: u64

definition Staging_EMPTY :: Staging where
  "Staging_EMPTY = \<lparr>sg_slots = replicate MAX_DOMAINS DomainSlot_EMPTY, sg_live = 0, sg_dev0_w0 = 0\<rparr>"

text \<open>What a device whose entry took leaves in the staging table and, if it is the first, in the statics.\<close>

definition stage :: "u64 \<Rightarrow> usize \<Rightarrow> u16 \<Rightarrow> u64 \<Rightarrow> u64 \<Rightarrow> Staging \<times> 'm BringUp \<Rightarrow> Staging \<times> 'm BringUp" where
  "stage dt i b root l1 = (\<lambda>(g, st).
     (let w0 = dte_word root;
          g = g\<lparr>sg_slots := (sg_slots g)[i := \<lparr>ds_id = of_nat (i + 1), ds_w0 = w0, ds_bdf = b, ds_l1 = l1\<rparr>], sg_live := sg_live g + 1\<rparr>
      in if i = 0
         then (g\<lparr>sg_dev0_w0 := w0\<rparr>, st\<lparr>up_pt_root := root, up_l1 := Some l1, up_dte := dte_at dt b, up_dte_w0 := w0\<rparr>)
         else (g, st)))"

fun bind_devices :: "u64 \<Rightarrow> (usize \<times> PciFunction) list \<Rightarrow> Staging \<times> 'm BringUp \<Rightarrow> Staging \<times> 'm BringUp" where
  "bind_devices dt [] gs = gs"
| "bind_devices dt ((i, f) # fs) (g, st) =
     (case zeroed_frame st of
        (None, st) \<Rightarrow> (g, st)
      | (Some root, st) \<Rightarrow>
          (let (l2, st) = zeroed_frame st; (l1, st) = zeroed_frame st
           in case (l2, l1) of
                (Some l2, Some l1) \<Rightarrow>
                  let st = store64 root (link_word l2 NEXT_LEVEL_2) st;
                      st = store64 l2 (link_word l1 NEXT_LEVEL_1) st;
                      st = write_dte dt (bdf f) (dte_word root) (of_nat i) st
                  in if load64 (dte_at dt (bdf f)) st \<noteq> dte_word root then bind_devices dt fs (g, st)
                     else bind_devices dt fs (stage dt i (bdf f) root l1 (g, st))
              | _ \<Rightarrow> (g, st)))"

section \<open>Everything else is denied\<close>

definition bound_slot :: "DomainSlot list \<Rightarrow> u16 \<Rightarrow> usize option" where
  "bound_slot sls b = position (\<lambda>sl. ds_id sl \<noteq> 0 \<and> ds_bdf sl = b) sls"

definition deny_one :: "u64 \<Rightarrow> u64 \<Rightarrow> DomainSlot list \<Rightarrow> PciFunction \<Rightarrow> 'm BringUp \<Rightarrow> 'm BringUp" where
  "deny_one dt deny_w0 sls f st =
     (if list_ex (\<lambda>sl. ds_id sl \<noteq> 0 \<and> ds_bdf sl = bdf f) sls then st
      else write_dte dt (bdf f) deny_w0 (of_nat MAX_DOMAINS) st)"

definition wrong_entry :: "u64 \<Rightarrow> u64 \<Rightarrow> DomainSlot list \<Rightarrow> 'm BringUp \<Rightarrow> PciFunction \<Rightarrow> bool" where
  "wrong_entry dt deny_w0 sls st f =
     (let w0 = load64 (dte_at dt (bdf f)) st; w1 = load64 (dte_at dt (bdf f) + 8) st;
          (want0, want1) = (case bound_slot sls (bdf f) of
             Some i \<Rightarrow> (ds_w0 (sls ! i), of_nat i) | None \<Rightarrow> (deny_w0, of_nat MAX_DOMAINS))
      in w0 \<noteq> want0 \<or> w1 \<noteq> want1)"

section \<open>The rings and the enabling store\<close>

definition arm_event_log :: "'m Arch \<Rightarrow> (u64 \<Rightarrow> 'm \<Rightarrow> u64) \<Rightarrow> u64 \<Rightarrow> 'm BringUp \<Rightarrow> 'm BringUp" where
  "arm_event_log A rd base st =
     (case zeroed_frame st of
        (None, st) \<Rightarrow> st
      | (Some log, st) \<Rightarrow>
          let val = (log AND IOPTE_ADDR) OR push_bit 56 EVENT_ENTRIES_LOG2; st = mmio_write A (base + 0x10) val st
          in if mmio_read rd (base + 0x10) st = val then st\<lparr>up_event_log := log\<rparr> else st)"

definition arm_command_buffer :: "'m Arch \<Rightarrow> (u64 \<Rightarrow> 'm \<Rightarrow> u64) \<Rightarrow> u64 \<Rightarrow> 'm BringUp \<Rightarrow> 'm BringUp" where
  "arm_command_buffer A rd base st =
     (case zeroed_frame st of
        (None, st) \<Rightarrow> st
      | (Some cmd, st) \<Rightarrow>
          let val = (cmd AND IOPTE_ADDR) OR push_bit 56 CMD_ENTRIES_LOG2; st = mmio_write A (base + 0x08) val st
          in if mmio_read rd (base + 0x08) st = val
             then let st = upd_k (\<lambda>k. k\<lparr>k_cmd_buf := cmd, k_cmd_tail := 0\<rparr>) st
                  in case zeroed_frame st of
                       (None, st) \<Rightarrow> st
                     | (Some store, st) \<Rightarrow> upd_k (\<lambda>k. k\<lparr>k_cmd_store := store\<rparr>) st
             else st)"

fun publish :: "DomainSlot list \<Rightarrow> nat list \<Rightarrow> 'm BringUp \<Rightarrow> (Stop + unit) \<times> 'm BringUp" where
  "publish sls [] st = (Inr (), st)"
| "publish sls (i # is) st =
     (if \<not> (ds_id (sls ! i) = 0 \<or> ds_bdf (sls ! i) < 0x100) then (Inl Panicked, st)
      else publish sls is (upd_k (\<lambda>k. k\<lparr>k_slots := (k_slots k)[i := sls ! i]\<rparr>) st))"

definition enable_unit :: "'m Arch \<Rightarrow> (u64 \<Rightarrow> 'm \<Rightarrow> u64) \<Rightarrow> u64 \<Rightarrow> DomainSlot list \<Rightarrow> 'm BringUp \<Rightarrow> (Stop + unit) \<times> 'm BringUp" where
  "enable_unit A rd base sls st =
     (let before = mmio_read rd (base + 0x18) st;
          st = mmio_write A (base + 0x18) (before OR IOMMU_EN OR EVENT_LOG_EN OR CMD_BUF_EN) st;
          after = mmio_read rd (base + 0x18) st
      in if after AND IOMMU_EN \<noteq> 0 then publish sls [0..<MAX_DOMAINS] st else (Inr (), st))"

section \<open>The whole\<close>

definition deny_and_enable ::
    "'m Arch \<Rightarrow> (u64 \<Rightarrow> 'm \<Rightarrow> u64) \<Rightarrow> u64 \<Rightarrow> u64 \<Rightarrow> PciFunction list \<Rightarrow> DomainSlot list \<Rightarrow> 'm BringUp \<Rightarrow> (Stop + unit) \<times> 'm BringUp" where
  "deny_and_enable A rd base dt fs sls st =
     (case zeroed_frame st of
        (None, st) \<Rightarrow> (Inr (), st)
      | (Some deny, st) \<Rightarrow>
          let deny_w0 = dte_word deny;
              st = fold (deny_one dt deny_w0 sls) fs st;
              st = st\<lparr>up_deny_w0 := deny_w0\<rparr>
          in if count_by (wrong_entry dt deny_w0 sls st) fs > 0 then (Inl (Exited False), st)
             else enable_unit A rd base sls (arm_command_buffer A rd base (arm_event_log A rd base st)))"

definition program_dte ::
    "'m Arch \<Rightarrow> (u64 \<Rightarrow> 'm \<Rightarrow> u64) \<Rightarrow> config \<Rightarrow> u32 \<Rightarrow> u64 \<Rightarrow> u64 \<Rightarrow> 'm BringUp \<Rightarrow> (Stop + unit) \<times> 'm BringUp" where
  "program_dte A rd cfg target base dt st =
     (if target AND 0x10000 = 0 then (Inr (), st)
      else case pci_enumerate cfg SCAN_FUNCTIONS of
        (fs, truncated, buses) \<Rightarrow>
          if truncated then (Inr (), st)
          else if fs = [] then (Inr (), st)
          else case bind_devices dt (List.enumerate 0 (devices cfg fs)) (Staging_EMPTY, st) of
            (g, st) \<Rightarrow>
              if sg_live g = 0 then (Inr (), st)
              else deny_and_enable A rd base dt fs (sg_slots g) st)"

definition install_device_table ::
    "'m Arch \<Rightarrow> (u64 \<Rightarrow> 'm \<Rightarrow> u64) \<Rightarrow> config \<Rightarrow> u32 \<Rightarrow> u64 \<Rightarrow> 'm BringUp \<Rightarrow> (Stop + unit) \<times> 'm BringUp" where
  "install_device_table A rd cfg target base st =
     (case alloc_contiguous DT_PAGES (up_fa st) of
        (None, fa) \<Rightarrow> (Inr (), st\<lparr>up_fa := fa\<rparr>)
      | (Some dt, fa) \<Rightarrow>
          let st = fold (\<lambda>i. zero_at (dt + of_nat i * PAGE_SIZE)) [0..<DT_PAGES] (st\<lparr>up_fa := fa\<rparr>);
              val = (dt AND IOPTE_ADDR) OR (of_nat DT_PAGES - 1);
              st = mmio_write A base val st
          in if mmio_read rd base st = val then program_dte A rd cfg target base dt st else (Inr (), st))"

section \<open>What a device reaches\<close>

text \<open>
  The unit's side, as the comments of the code rely on it: an entry that is not valid, or whose mode
  is zero, passes a transfer through; otherwise the levels of the table are walked, a word that is
  not present refuses the transfer, and one without a next level is where it ends.
\<close>

datatype Reach = Passthrough | Refused | Reaches u64

definition iova_index :: "nat \<Rightarrow> u64 \<Rightarrow> u64" where
  "iova_index n iova = take_bit 9 (drop_bit (12 + 9 * n) iova)"

primrec io_walk :: "nat \<Rightarrow> (u64 \<Rightarrow> u64) \<Rightarrow> u64 \<Rightarrow> u64 \<Rightarrow> Reach" where
  "io_walk 0 io tab iova = Refused"
| "io_walk (Suc n) io tab iova =
     (let e = io (tab + iova_index n iova * 8)
      in if e AND IOPTE_PR = 0 then Refused
         else if take_bit 3 (drop_bit 9 e) = 0 then Reaches (e AND IOPTE_ADDR)
         else io_walk n io (e AND IOPTE_ADDR) iova)"

definition dma_reach :: "(u64 \<Rightarrow> u64) \<Rightarrow> u64 \<Rightarrow> u64 \<Rightarrow> Reach" where
  "dma_reach io w0 iova =
     (if w0 AND DTE_V = 0 \<or> w0 AND DTE_TV = 0 \<or> take_bit 3 (drop_bit 9 w0) = 0 then Passthrough
      else io_walk (unat (take_bit 3 (drop_bit 9 w0))) io (w0 AND IOPTE_ADDR) iova)"

text \<open>
  What the unit does with a transfer that arrives under a requester id. It looks at its registers
  only: unless the control register has it enabled it is not in the way; the base register names the
  device table (bits 51 to 12) and its size in pages, less one (bits 8 to 0); an id beyond the table
  is taken to pass through, the entry of any other decides.
\<close>

definition unit_dma :: "(u64 \<Rightarrow> 'm \<Rightarrow> u64) \<Rightarrow> u64 \<Rightarrow> 'm Kernel \<Rightarrow> u16 \<Rightarrow> u64 \<Rightarrow> Reach" where
  "unit_dma rd base k rid iova =
     (let dtbr = rd base (k_mach k)
      in if rd (base + 0x18) (k_mach k) AND IOMMU_EN = 0 then Passthrough
         else if (unat (dtbr AND 0x1FF) + 1) * 4096 \<le> unat rid * 32 then Passthrough
         else dma_reach (k_io k) (k_io k (dte_at (dtbr AND IOPTE_ADDR) rid)) iova)"

text \<open>
  The ids a function's transfers may arrive under: its own or, behind a bridge, one the bridge's own
  transfers may arrive under, since a bridge may forward a transfer as itself.
\<close>

inductive requester :: "config \<Rightarrow> PciFunction \<Rightarrow> u16 \<Rightarrow> bool" for cfg where
  own: "requester cfg f (bdf f)"
| forwarded: "present cfg g \<Longrightarrow> f_bus f \<in> behind cfg (f_bus g) (f_dev g, f_func g) \<Longrightarrow> requester cfg g rid
    \<Longrightarrow> requester cfg f rid"

lemma requester_present: "requester cfg f rid \<Longrightarrow> present cfg f \<Longrightarrow> \<exists>g. present cfg g \<and> rid = bdf g"
  by (induction rule: requester.induct) auto

section \<open>Pages\<close>

definition pageno :: "u64 \<Rightarrow> nat" where
  "pageno a = unat a div 4096"

lemma addr_mask: "IOPTE_ADDR = push_bit 12 (mask 40)"
  by (simp add: IOPTE_ADDR_def mask_eq_exp_minus_1)

lemma frame_bits: "f < 2 ^ 40 \<Longrightarrow> bit (frame_addr f) n \<longleftrightarrow> 12 \<le> n \<and> n < 52 \<and> bit f (n - 12)"
proof -
  assume f: "f < 2 ^ 40"
  then have "bit f m \<Longrightarrow> m < 40" for m by (metis take_bit_nat_eq_self bit_take_bit_iff)
  then show ?thesis by (force simp: frame_addr_def bit_simps)
qed

lemma pageno_frame:
  assumes "f < 2 ^ 52" and "unat d < 4096"
  shows "pageno (frame_addr f + d) = f"
proof -
  have "unat (frame_addr f + d) = f * 4096 + unat d"
    using assms by (subst unat_add_lem [THEN iffD1]) (simp_all add: unat_frame_addr)
  then show ?thesis using assms(2) by (simp add: pageno_def)
qed

lemma pageno_frame_0: "f < 2 ^ 52 \<Longrightarrow> pageno (frame_addr f) = f"
  using pageno_frame [of f 0] by simp

lemma zero_page_frame:
  assumes "f < 2 ^ 52"
  shows "zero_page (frame_addr f) io a = (if pageno a = f then 0 else io a)"
proof -
  have "a - frame_addr f < 4096 \<longleftrightarrow> pageno a = f"
  proof
    assume d: "a - frame_addr f < 4096"
    have "pageno (frame_addr f + (a - frame_addr f)) = f"
      using d by (intro pageno_frame [OF assms]) (simp add: word_less_nat_alt)
    then show "pageno a = f" by simp
  next
    assume p: "pageno a = f"
    then have "unat a = f * 4096 + unat a mod 4096" by (metis div_mult_mod_eq pageno_def)
    then have "unat (a - frame_addr f) = unat a mod 4096"
      using unat_frame_addr [OF assms] by (simp add: unat_sub word_le_nat_alt)
    then show "a - frame_addr f < 4096" by (simp add: word_less_nat_alt)
  qed
  then show ?thesis by (simp add: zero_page_def)
qed

lemma index_small: "unat (iova_index n iova) < 512"
proof -
  have "unat (iova_index n iova) = take_bit 9 (unat (drop_bit (12 + 9 * n) iova))"
    by (simp add: iova_index_def unsigned_take_bit_eq)
  then show ?thesis by (simp add: take_bit_nat_less_exp [of 9, simplified])
qed

lemma entry_page:
  assumes "f < 2 ^ 52"
  shows "pageno (frame_addr f + iova_index n iova * 8) = f"
    and "iova_index n iova = 0 \<or> frame_addr f + iova_index n iova * 8 \<noteq> frame_addr f"
proof -
  have u: "unat (iova_index n iova * 8) = unat (iova_index n iova) * 8"
    using index_small [of n iova] by (subst unat_mult_lem [THEN iffD1]) simp_all
  then show "pageno (frame_addr f + iova_index n iova * 8) = f"
    using index_small [of n iova] by (intro pageno_frame [OF assms]) simp
  show "iova_index n iova = 0 \<or> frame_addr f + iova_index n iova * 8 \<noteq> frame_addr f"
  proof (rule disjCI)
    assume "\<not> frame_addr f + iova_index n iova * 8 \<noteq> frame_addr f"
    then have "iova_index n iova * 8 = 0" by simp
    with u have "unat (iova_index n iova) = 0" by simp
    then show "iova_index n iova = 0" by (simp add: unat_eq_zero)
  qed
qed

section \<open>Words\<close>

lemma field_bits:
  "bit DTE_V n \<longleftrightarrow> n = 0" "bit DTE_TV n \<longleftrightarrow> n = 1" "bit MODE_3_LEVEL n \<longleftrightarrow> n = 9 \<or> n = 10"
  "bit NEXT_LEVEL_2 n \<longleftrightarrow> n = 10" "bit NEXT_LEVEL_1 n \<longleftrightarrow> n = 9" "bit IOPTE_PR n \<longleftrightarrow> n = 0"
  "bit IOPTE_IR n \<longleftrightarrow> n = 61" "bit IOPTE_IW n \<longleftrightarrow> n = 62" "bit IOPTE_ADDR n \<longleftrightarrow> 12 \<le> n \<and> n < 52"
proof -
  have m: "(3 :: u64) = mask 2" "(2 :: u64) = push_bit 1 1" by (simp_all add: mask_eq_exp_minus_1)
  show "bit DTE_V n \<longleftrightarrow> n = 0" "bit DTE_TV n \<longleftrightarrow> n = 1" "bit MODE_3_LEVEL n \<longleftrightarrow> n = 9 \<or> n = 10"
    "bit NEXT_LEVEL_2 n \<longleftrightarrow> n = 10" "bit NEXT_LEVEL_1 n \<longleftrightarrow> n = 9" "bit IOPTE_PR n \<longleftrightarrow> n = 0"
    "bit IOPTE_IR n \<longleftrightarrow> n = 61" "bit IOPTE_IW n \<longleftrightarrow> n = 62" "bit IOPTE_ADDR n \<longleftrightarrow> 12 \<le> n \<and> n < 52"
    unfolding DTE_V_def DTE_TV_def MODE_3_LEVEL_def NEXT_LEVEL_2_def NEXT_LEVEL_1_def IOPTE_PR_def IOPTE_IR_def IOPTE_IW_def
      addr_mask m
    by (simp_all only: bit_push_bit_iff bit_1_iff bit_mask_iff possible_bit_word push_bit_push_bit) auto
qed

lemma word_zero_bits: "(w :: u64) = 0 \<longleftrightarrow> (\<forall>n<64. \<not> bit w n)"
  by (auto intro: bit_word_eqI)

lemma frame_masked: "f < 2 ^ 40 \<Longrightarrow> frame_addr f AND IOPTE_ADDR = frame_addr f"
  by (rule bit_word_eqI) (auto simp: bit_and_iff field_bits frame_bits)

lemma dte_word_fields:
  assumes "f < 2 ^ 40"
  shows "dte_word (frame_addr f) AND IOPTE_ADDR = frame_addr f" and "dte_word (frame_addr f) AND DTE_V \<noteq> 0"
    and "dte_word (frame_addr f) AND DTE_TV \<noteq> 0" and "take_bit 3 (drop_bit 9 (dte_word (frame_addr f))) = 3"
proof -
  have b: "bit (dte_word (frame_addr f)) n \<longleftrightarrow> n \<in> {0, 1, 9, 10, 61, 62} \<or> bit (frame_addr f) n" for n
    using assms by (auto simp: dte_word_def frame_masked bit_or_iff field_bits)
  show "dte_word (frame_addr f) AND IOPTE_ADDR = frame_addr f"
    by (rule bit_word_eqI) (auto simp: bit_and_iff b field_bits frame_bits [OF assms])
  show "dte_word (frame_addr f) AND DTE_V \<noteq> 0" "dte_word (frame_addr f) AND DTE_TV \<noteq> 0"
    unfolding word_zero_bits by (auto simp: bit_and_iff b field_bits)
  have m: "(3 :: u64) = mask 2" by (simp add: mask_eq_exp_minus_1)
  have m3: "bit (3 :: u64) n \<longleftrightarrow> n < 2" for n unfolding m by (simp only: bit_mask_iff possible_bit_word) auto
  have low: "bit (dte_word (frame_addr f)) (9 + n) \<longleftrightarrow> n < 2" if "n < 3" for n
    using that by (auto simp: b frame_bits [OF assms])
  show "take_bit 3 (drop_bit 9 (dte_word (frame_addr f))) = 3"
  proof (rule bit_word_eqI)
    fix n
    show "bit (take_bit 3 (drop_bit 9 (dte_word (frame_addr f)))) n = bit (3 :: u64) n"
      unfolding m3 using low [of n] by (cases "n < 3") (simp_all only: bit_take_bit_iff bit_drop_bit_eq comp_def, auto)
  qed
qed

lemma link_word_fields:
  assumes "f < 2 ^ 40"
  shows "link_word (frame_addr f) l AND IOPTE_PR \<noteq> 0"
    and "l = NEXT_LEVEL_1 \<or> l = NEXT_LEVEL_2 \<Longrightarrow> link_word (frame_addr f) l AND IOPTE_ADDR = frame_addr f"
    and "l = NEXT_LEVEL_1 \<or> l = NEXT_LEVEL_2 \<Longrightarrow> take_bit 3 (drop_bit 9 (link_word (frame_addr f) l)) \<noteq> 0"
proof -
  have b: "bit (link_word (frame_addr f) l) n \<longleftrightarrow> n \<in> {0, 61, 62} \<or> bit l n \<or> bit (frame_addr f) n" for n
    using assms by (auto simp: link_word_def frame_masked bit_or_iff field_bits)
  show "link_word (frame_addr f) l AND IOPTE_PR \<noteq> 0" unfolding word_zero_bits by (auto simp: bit_and_iff b field_bits)
  assume l: "l = NEXT_LEVEL_1 \<or> l = NEXT_LEVEL_2"
  then show "link_word (frame_addr f) l AND IOPTE_ADDR = frame_addr f"
    by (intro bit_word_eqI) (auto simp: bit_and_iff b field_bits frame_bits [OF assms])
  have "bit (link_word (frame_addr f) l) 9 \<or> bit (link_word (frame_addr f) l) 10" using l by (auto simp: b field_bits)
  then show "take_bit 3 (drop_bit 9 (link_word (frame_addr f) l)) \<noteq> 0"
  proof
    assume "bit (link_word (frame_addr f) l) 9"
    then have "bit (take_bit 3 (drop_bit 9 (link_word (frame_addr f) l))) 0" by (simp add: bit_take_bit_iff bit_drop_bit_eq)
    then show ?thesis by auto
  next
    assume "bit (link_word (frame_addr f) l) 10"
    then have "bit (take_bit 3 (drop_bit 9 (link_word (frame_addr f) l))) 1" by (simp add: bit_take_bit_iff bit_drop_bit_eq)
    then show ?thesis by auto
  qed
qed

section \<open>Tables that reach nothing\<close>

definition empty_page :: "(u64 \<Rightarrow> u64) \<Rightarrow> nat \<Rightarrow> bool" where
  "empty_page io f \<longleftrightarrow> (\<forall>a. pageno a = f \<longrightarrow> io a = 0)"

definition link_page :: "(u64 \<Rightarrow> u64) \<Rightarrow> nat \<Rightarrow> nat \<Rightarrow> u64 \<Rightarrow> bool" where
  "link_page io f g level \<longleftrightarrow> io (frame_addr f) = link_word (frame_addr g) level
     \<and> (\<forall>a. pageno a = f \<and> a \<noteq> frame_addr f \<longrightarrow> io a = 0)"

text \<open>A root whose first entry leads to a table whose first entry leads to an empty one.\<close>

definition chain3 :: "(u64 \<Rightarrow> u64) \<Rightarrow> nat \<Rightarrow> nat \<Rightarrow> nat \<Rightarrow> bool" where
  "chain3 io r l2 l1 \<longleftrightarrow> r < 2 ^ 40 \<and> l2 < 2 ^ 40 \<and> l1 < 2 ^ 40
     \<and> link_page io r l2 NEXT_LEVEL_2 \<and> link_page io l2 l1 NEXT_LEVEL_1 \<and> empty_page io l1"

lemma chain3_cong:
  "chain3 io r l2 l1 \<Longrightarrow> (\<And>a. pageno a \<in> {r, l2, l1} \<Longrightarrow> io' a = io a) \<Longrightarrow> chain3 io' r l2 l1"
  by (simp add: chain3_def link_page_def empty_page_def pageno_frame_0)

lemma empty_walk: "f < 2 ^ 40 \<Longrightarrow> empty_page io f \<Longrightarrow> io_walk n io (frame_addr f) iova = Refused"
  using entry_page(1) [of f] by (cases n) (auto simp: empty_page_def Let_def)

lemma link_walk:
  assumes "f < 2 ^ 40" and "g < 2 ^ 40" and "link_page io f g level" and "level = NEXT_LEVEL_1 \<or> level = NEXT_LEVEL_2"
    and "io_walk n io (frame_addr g) iova = Refused"
  shows "io_walk (Suc n) io (frame_addr f) iova = Refused"
proof (cases "iova_index n iova = 0")
  case True
  then show ?thesis using assms(3,5) link_word_fields [OF assms(2)] assms(4) by (simp add: link_page_def Let_def)
next
  case False
  then have "io (frame_addr f + iova_index n iova * 8) = 0"
    using assms(1,3) entry_page [of f n iova] by (auto simp: link_page_def)
  then show ?thesis by (simp add: Let_def)
qed

lemma chain3_refuses: "chain3 io r l2 l1 \<Longrightarrow> dma_reach io (dte_word (frame_addr r)) iova = Refused"
proof -
  assume c: "chain3 io r l2 l1"
  then have f: "r < 2 ^ 40" "l2 < 2 ^ 40" "l1 < 2 ^ 40" "link_page io r l2 NEXT_LEVEL_2" "link_page io l2 l1 NEXT_LEVEL_1"
    "empty_page io l1" by (simp_all only: chain3_def)
  from link_walk [OF f(1,2,4) disjI2 [OF refl] link_walk [OF f(2,3,5) disjI1 [OF refl] empty_walk [OF f(3,6)]], of 1 iova]
  have "io_walk (Suc (Suc 1)) io (frame_addr r) iova = Refused" .
  moreover have "unat (3 :: u64) = Suc (Suc 1)" by simp
  ultimately show ?thesis using dte_word_fields [OF f(1)] by (simp only: dma_reach_def) simp
qed

lemma empty_refuses: "f < 2 ^ 40 \<Longrightarrow> empty_page io f \<Longrightarrow> dma_reach io (dte_word (frame_addr f)) iova = Refused"
  using dte_word_fields [of f] by (simp add: dma_reach_def empty_walk)

section \<open>What a step touches\<close>

abbreviation io_of :: "'m BringUp \<Rightarrow> u64 \<Rightarrow> u64" where "io_of st \<equiv> k_io (up_k st)"
abbreviation left :: "'m BringUp \<Rightarrow> nat set" where "left st \<equiv> free_frames (up_fa st)"

text \<open>Frames are only taken, no domain is published, and memory changes only in the pages \<open>D\<close> and in frames taken.\<close>

definition touches :: "nat set \<Rightarrow> 'm BringUp \<Rightarrow> 'm BringUp \<Rightarrow> bool" where
  "touches D st st' \<longleftrightarrow> (ba_inv (up_fa st) \<longrightarrow> ba_inv (up_fa st')) \<and> left st' \<subseteq> left st \<and> k_slots (up_k st') = k_slots (up_k st)
     \<and> (\<forall>a. pageno a \<notin> D \<union> (left st - left st') \<longrightarrow> io_of st' a = io_of st a)"

lemma touches_refl [simp]: "touches D st st"
  by (simp add: touches_def)

lemma touches_trans: "touches D st st' \<Longrightarrow> touches D st' st'' \<Longrightarrow> touches D st st''"
  unfolding touches_def by (intro conjI allI impI) auto

lemma touches_mono: "touches D st st' \<Longrightarrow> D \<subseteq> D' \<union> (left st - left st') \<Longrightarrow> touches D' st st'"
  unfolding touches_def by blast

lemma touches_fold: "(\<And>x st. x \<in> set xs \<Longrightarrow> touches D st (f x st)) \<Longrightarrow> touches D st (fold f xs st)"
proof (induction xs arbitrary: st)
  case (Cons x xs)
  then show ?case using touches_trans [of D st "f x st"] by simp
qed simp

lemma touches_store: "pageno a \<in> D \<Longrightarrow> touches D st (store64 a v st)"
  by (auto simp: touches_def store64_def upd_k_def)

lemma touches_mach: "touches D st (upd_k (upd_mach f) st)"
  by (simp add: touches_def upd_k_def upd_mach_def)

lemma touches_fields [simp]:
  "touches D st (up_event_log_update f st')  = touches D st st'" "touches D st (up_deny_w0_update f st') = touches D st st'"
  "touches D st (st'\<lparr>up_pt_root := r, up_l1 := l, up_dte := d, up_dte_w0 := w\<rparr>) = touches D st st'"
  by (simp_all add: touches_def)

lemma zeroed_frame_cases:
  assumes "ba_inv (up_fa st)" and "left st \<subseteq> {..<2 ^ 40}"
  obtains (none) "zeroed_frame st = (None, st)"
  | (some) f st' where "zeroed_frame st = (Some (frame_addr f), st')" "f \<in> left st" "left st' = left st - {f}" "f < 2 ^ 40"
      "touches D st st'" "empty_page (io_of st') f" "\<And>a. pageno a \<noteq> f \<Longrightarrow> io_of st' a = io_of st a" "ba_inv (up_fa st')"
proof (cases "alloc_frame (up_fa st)")
  case (Pair po fa)
  show ?thesis
  proof (cases po)
    case None
    then have "fa = up_fa st" using Pair by (cases rule: alloc_frame_cases [of "up_fa st"]) auto
    with Pair None none show ?thesis by (simp add: zeroed_frame_def)
  next
    case (Some p)
    have "alloc_pool False (up_fa st) = (Some p, fa)" using Pair Some by (simp add: alloc_pool_def)
    from alloc_pool_Some [OF assms(1) this] obtain f where f: "p = frame_addr f" "f \<in> left st" "ba_inv fa"
      "free_frames fa = left st - {f}" by metis
    then have small: "f < 2 ^ 40" "f < 2 ^ 52" using assms(2) by auto
    show ?thesis
      by (rule some [of f "zero_at p (st\<lparr>up_fa := fa\<rparr>)"])
        (use Pair Some f small in \<open>auto simp: zeroed_frame_def zero_at_def upd_k_def touches_def zero_page_frame empty_page_def\<close>)
  qed
qed

lemma zeroed_frame_touches:
  "ba_inv (up_fa st) \<Longrightarrow> left st \<subseteq> {..<2 ^ 40} \<Longrightarrow> touches D st (snd (zeroed_frame st)) \<and> ba_inv (up_fa (snd (zeroed_frame st)))"
  by (rule zeroed_frame_cases [where st = st and D = D]) auto

lemma dte_unat:
  assumes "s + 512 \<le> 2 ^ 52" and "d < 32"
  shows "unat (dte_at (frame_addr s) b + of_nat d) = s * 4096 + (unat b * 32 + d)"
proof -
  have b: "unat b < 65536" using unsigned_less [of b] by simp
  have ub: "unat (ucast b :: u64) = unat b" using b by (simp add: unsigned_ucast_eq take_bit_nat_eq_self)
  have fa: "unat (frame_addr s) = s * 4096" using assms(1) by (intro unat_frame_addr) simp
  have "unat (ucast b * 32 :: u64) = unat b * 32"
    using b by (subst unat_mult_lem [THEN iffD1]) (simp_all add: ub)
  moreover from this have "unat (frame_addr s + ucast b * 32) = s * 4096 + unat b * 32"
    using b assms(1) by (subst unat_add_lem [THEN iffD1]) (simp_all add: fa)
  moreover from this have "unat (frame_addr s + ucast b * 32 + of_nat d) = s * 4096 + unat b * 32 + d"
    using b assms by (subst unat_add_of_nat) simp_all
  ultimately show ?thesis by (simp add: dte_at_def)
qed

lemma dte_page:
  assumes "s + 512 \<le> 2 ^ 52" and "d < 32"
  shows "pageno (dte_at (frame_addr s) b + of_nat d) \<in> {s..<s + 512}"
proof -
  have "unat b < 65536" using unsigned_less [of b] by simp
  then have "unat b * 32 + d < 512 * 4096" using assms(2) by simp
  then show ?thesis
    unfolding pageno_def dte_unat [OF assms] by (simp add: less_eq_div_iff_mult_less_eq div_less_iff_less_mult)
qed

lemma touches_write_dte: "s + 512 \<le> 2 ^ 52 \<Longrightarrow> touches {s..<s + 512} st (write_dte (frame_addr s) b w0 w1 st)"
  using dte_page [of s 0 b] dte_page [of s 8 b] dte_page [of s 16 b] dte_page [of s 24 b]
  unfolding write_dte_def by (intro touches_trans [OF touches_trans [OF touches_trans [OF touches_store touches_store] touches_store] touches_store]) simp_all

section \<open>Binding devices\<close>

definition slot_ok :: "(u64 \<Rightarrow> u64) \<Rightarrow> nat set \<Rightarrow> PciFunction set \<Rightarrow> nat \<Rightarrow> DomainSlot \<Rightarrow> bool" where
  "slot_ok io U Fs i sl \<longleftrightarrow> ds_id sl = of_nat (i + 1) \<and> (\<exists>f \<in> Fs. ds_bdf sl = bdf f)
     \<and> (\<exists>r \<in> U. \<exists>l2 \<in> U. \<exists>l1 \<in> U. ds_w0 sl = dte_word (frame_addr r) \<and> ds_l1 sl = frame_addr l1 \<and> chain3 io r l2 l1)"

lemma slot_ok_mono:
  assumes "slot_ok io U Fs i sl" and "U \<subseteq> U'" and "\<And>a. pageno a \<in> U \<Longrightarrow> io' a = io a"
  shows "slot_ok io' U' Fs i sl"
  using assms chain3_cong [of io _ _ _ io'] unfolding slot_ok_def by (smt (verit) empty_iff insert_iff subsetD)

definition staged_ok :: "(u64 \<Rightarrow> u64) \<Rightarrow> nat set \<Rightarrow> PciFunction set \<Rightarrow> DomainSlot list \<Rightarrow> bool" where
  "staged_ok io U Fs sls \<longleftrightarrow> length sls = MAX_DOMAINS
     \<and> (\<forall>i<MAX_DOMAINS. sls ! i = DomainSlot_EMPTY \<or> slot_ok io U Fs i (sls ! i))
     \<and> (\<forall>i<MAX_DOMAINS. \<forall>j<MAX_DOMAINS. i \<noteq> j \<and> sls ! i \<noteq> DomainSlot_EMPTY \<and> sls ! j \<noteq> DomainSlot_EMPTY
          \<longrightarrow> ds_l1 (sls ! i) \<noteq> ds_l1 (sls ! j))"

lemma staged_ok_touches:
  assumes "staged_ok (io_of st) (F - left st) Fs sls" and "touches D st st'" and "D \<inter> F = {}"
  shows "staged_ok (io_of st') (F - left st') Fs sls"
proof -
  have "F - left st \<subseteq> F - left st'" "\<And>a. pageno a \<in> F - left st \<Longrightarrow> io_of st' a = io_of st a"
    using assms(2,3) unfolding touches_def by blast+
  from slot_ok_mono [where io = "io_of st" and io' = "io_of st'", OF _ this] assms(1)
  show ?thesis unfolding staged_ok_def by blast
qed

lemma store_io: "io_of (store64 a v st) x = (if x = a then v else io_of st x)" "up_fa (store64 a v st) = up_fa st"
  by (simp_all add: store64_def upd_k_def)

lemma write_dte_fa [simp]: "up_fa (write_dte dt b w0 w1 st) = up_fa st"
  by (simp add: write_dte_def store_io)

text \<open>Three fresh frames linked into a table, and an entry of the device table for it.\<close>

lemma bind_block:
  assumes inv: "ba_inv (up_fa st)" "left st \<subseteq> {..<2 ^ 40}" and D: "s + 512 \<le> 2 ^ 52" "{s..<s + 512} \<inter> left st = {}"
    and z: "zeroed_frame st = (Some root, st1)" "zeroed_frame st1 = (Some p2, st2)" "zeroed_frame st2 = (Some p1, st3)"
    and st': "st' = write_dte (frame_addr s) b w0 w1 (store64 p2 (link_word p1 NEXT_LEVEL_1) (store64 root (link_word p2 NEXT_LEVEL_2) st3))"
  obtains r l2 l1 where "root = frame_addr r" "p1 = frame_addr l1" "r \<in> left st - left st'" "l2 \<in> left st - left st'"
    "l1 \<in> left st - left st'" "touches {s..<s + 512} st st'" "chain3 (io_of st') r l2 l1" "ba_inv (up_fa st')"
    "touches {} st (store64 p2 (link_word p1 NEXT_LEVEL_1) (store64 root (link_word p2 NEXT_LEVEL_2) st3))"
proof -
  let ?D = "{s..<s + 512}"
  obtain r where r: "root = frame_addr r" "r \<in> left st" "left st1 = left st - {r}" "r < 2 ^ 40" "touches {} st st1"
    "empty_page (io_of st1) r" "ba_inv (up_fa st1)"
    using z(1) by (cases rule: zeroed_frame_cases [OF inv, where D = "{}"]) auto
  have b1: "left st1 \<subseteq> {..<2 ^ 40}" using inv(2) r(3) by auto
  obtain l2 where l2: "p2 = frame_addr l2" "l2 \<in> left st1" "left st2 = left st1 - {l2}" "l2 < 2 ^ 40" "touches {} st1 st2"
    "empty_page (io_of st2) l2" "\<And>a. pageno a \<noteq> l2 \<Longrightarrow> io_of st2 a = io_of st1 a" "ba_inv (up_fa st2)"
    using z(2) by (cases rule: zeroed_frame_cases [OF r(7) b1, where D = "{}"]) auto
  have b2: "left st2 \<subseteq> {..<2 ^ 40}" using b1 l2(3) by auto
  obtain l1 where l1: "p1 = frame_addr l1" "l1 \<in> left st2" "left st3 = left st2 - {l1}" "l1 < 2 ^ 40" "touches {} st2 st3"
    "empty_page (io_of st3) l1" "\<And>a. pageno a \<noteq> l1 \<Longrightarrow> io_of st3 a = io_of st2 a" "ba_inv (up_fa st3)"
    using z(3) by (cases rule: zeroed_frame_cases [OF l2(8) b2, where D = "{}"]) auto
  have mem: "r \<in> left st" "l2 \<in> left st - {r}" "l1 \<in> left st - {r} - {l2}"
    using r(2) l2(2) l1(2) unfolding r(3) l2(3) by blast+
  then have ne: "r \<noteq> l2" "r \<noteq> l1" "l2 \<noteq> l1" by blast+
  have notD: "r \<notin> ?D" "l2 \<notin> ?D" "l1 \<notin> ?D" using mem D(2) by blast+
  have left': "left st' = left st3" by (simp add: st' store_io)
  have pg: "pageno (frame_addr r) = r" "pageno (frame_addr l2) = l2" using r(4) l2(4) by (simp_all add: pageno_frame_0)
  define st4 where "st4 = store64 p2 (link_word p1 NEXT_LEVEL_1) (store64 root (link_word p2 NEXT_LEVEL_2) st3)"
  have io4: "io_of st4 a = (if a = frame_addr l2 then link_word p1 NEXT_LEVEL_1 else if a = frame_addr r then link_word p2 NEXT_LEVEL_2
      else io_of st3 a)" for a
    by (simp add: st4_def store_io r(1) l2(1))
  have zero3: "io_of st3 a = 0" if "pageno a \<in> {r, l2, l1}" for a
    using that r(6) l2(6,7) l1(6,7) ne by (auto simp: empty_page_def)
  have io': "io_of st' a = io_of st4 a" if "pageno a \<notin> ?D" for a
    using touches_write_dte [OF D(1), of st4 b w0 w1] that by (auto simp: touches_def st' st4_def [symmetric])
  have "frame_addr r \<noteq> frame_addr l2" using pg ne(1) by metis
  then have "chain3 (io_of st4) r l2 l1"
    using r(4) l2(4) l1(4) zero3 ne pg
    by (auto simp: chain3_def link_page_def empty_page_def io4 l2(1) l1(1) pageno_frame_0)
  then have c: "chain3 (io_of st') r l2 l1" by (rule chain3_cong) (use io' notD in auto)
  have t3: "touches {} st st3" by (rule touches_trans [OF touches_trans [OF r(5) l2(5)] l1(5)])
  have "touches {r, l2} st3 st4"
    unfolding st4_def by (rule touches_trans [OF touches_store touches_store]) (simp_all add: pg r(1) l2(1))
  with touches_mono [OF t3, of "{r, l2}"] have "touches {r, l2} st st4" using touches_trans by blast
  moreover have "left st4 = left st3" by (simp add: st4_def store_io)
  ultimately have t4: "touches {} st st4"
    by (rule_tac touches_mono) (use mem r(3) l2(3) l1(3) in auto)
  have "touches ?D st st'"
    unfolding st' st4_def [symmetric] by (rule touches_trans [OF touches_mono [OF t4] touches_write_dte [OF D(1)]]) simp
  with c show ?thesis
    using that [of r l1 l2] r(1,2,3) l2(2,3) l1(1,2,3,8) left' t4 by (auto simp: st' store_io st4_def)
qed

lemma dslot_empty_id: "ds_id DomainSlot_EMPTY = 0"
  by (simp add: DomainSlot_EMPTY_def)

lemma slot_ok_live: "slot_ok io U Fs i sl \<Longrightarrow> i < MAX_DOMAINS \<Longrightarrow> ds_id sl \<noteq> 0"
  by (auto simp: slot_ok_def MAX_DOMAINS_def less_2_cases_iff)

lemma staged_ok_set:
  assumes "staged_ok io U Fs sls" and "i < MAX_DOMAINS" and "slot_ok io U Fs i sl"
    and "\<And>j. j < MAX_DOMAINS \<Longrightarrow> sls ! j \<noteq> DomainSlot_EMPTY \<Longrightarrow> j \<noteq> i \<Longrightarrow> ds_l1 (sls ! j) \<noteq> ds_l1 sl"
  shows "staged_ok io U Fs (sls[i := sl])"
proof -
  have l: "length sls = MAX_DOMAINS" using assms(1) by (simp add: staged_ok_def)
  then have n: "sls[i := sl] ! j = (if j = i then sl else sls ! j)" if "j < MAX_DOMAINS" for j
    using that by (simp add: nth_list_update)
  show ?thesis using assms l unfolding staged_ok_def by (simp add: n) metis
qed

lemma bind_devices_ok:
  assumes D: "s + 512 \<le> 2 ^ 52" "{s..<s + 512} \<inter> F = {}" and F: "F \<subseteq> {..<2 ^ 40}"
    and "ba_inv (up_fa st)" and "left st \<subseteq> F" and "staged_ok (io_of st) (F - left st) Fs (sg_slots g)"
    and "\<forall>(i, f) \<in> set ifs. i < MAX_DOMAINS \<and> f \<in> Fs" and "bind_devices (frame_addr s) ifs (g, st) = (g', st')"
  shows "touches {s..<s + 512} st st' \<and> ba_inv (up_fa st') \<and> staged_ok (io_of st') (F - left st') Fs (sg_slots g')"
  using assms(4-)
proof (induction ifs arbitrary: g st)
  case (Cons x ifs)
  obtain i f where x: "x = (i, f)" by fastforce
  let ?D = "{s..<s + 512}"
  have small: "left st \<subseteq> {..<2 ^ 40}" using Cons.prems(2) F by auto
  have stop: "touches ?D st st2 \<and> ba_inv (up_fa st2) \<and> staged_ok (io_of st2) (F - left st2) Fs (sg_slots g)"
    if "touches ?D st st2" "ba_inv (up_fa st2)" for st2
    using that staged_ok_touches [OF Cons.prems(3) that(1) D(2)] by simp
  obtain ro st1 where z1: "zeroed_frame st = (ro, st1)" by fastforce
  obtain lo st2 where z2: "zeroed_frame st1 = (lo, st2)" by fastforce
  obtain mo st3 where z3: "zeroed_frame st2 = (mo, st3)" by fastforce
  have t1: "touches ?D st st1" "ba_inv (up_fa st1)" using zeroed_frame_touches [OF Cons.prems(1) small, of ?D] z1 by simp_all
  then have s1: "left st1 \<subseteq> {..<2 ^ 40}" using small by (auto simp: touches_def)
  have t2: "touches ?D st1 st2" "ba_inv (up_fa st2)" using zeroed_frame_touches [OF t1(2) s1, of ?D] z2 by simp_all
  then have s2: "left st2 \<subseteq> {..<2 ^ 40}" using s1 by (auto simp: touches_def)
  have t3: "touches ?D st2 st3" "ba_inv (up_fa st3)" using zeroed_frame_touches [OF t2(2) s2, of ?D] z3 by simp_all
  note t13 = touches_trans [OF touches_trans [OF t1(1) t2(1)] t3(1)]
  show ?case
  proof (cases "ro = None \<or> lo = None \<or> mo = None")
    case True
    then have "(g', st') = (g, if ro = None then st1 else st3)"
      using Cons.prems(5) z1 z2 z3 by (auto simp: x split: option.splits)
    with True stop [OF t1] stop [OF t13 t3(2)] show ?thesis by (auto split: if_splits)
  next
    case False
    then obtain root p2 p1 where p: "ro = Some root" "lo = Some p2" "mo = Some p1" by auto
    define st6 where "st6 = write_dte (frame_addr s) (bdf f) (dte_word root) (of_nat i)
      (store64 p2 (link_word p1 NEXT_LEVEL_1) (store64 root (link_word p2 NEXT_LEVEL_2) st3))"
    have disj: "?D \<inter> left st = {}" using D(2) Cons.prems(2) by auto
    obtain r l2 l1 where b: "root = frame_addr r" "p1 = frame_addr l1" "r \<in> left st - left st6" "l2 \<in> left st - left st6"
      "l1 \<in> left st - left st6" "touches ?D st st6" "chain3 (io_of st6) r l2 l1" "ba_inv (up_fa st6)"
      by (rule bind_block [OF Cons.prems(1) small D(1) disj z1 [unfolded p] z2 [unfolded p] z3 [unfolded p] st6_def]) blast
    note keep = stop [OF b(6,8)]
    have rest: "left st6 \<subseteq> F" using b(6) Cons.prems(2) by (auto simp: touches_def)
    show ?thesis
    proof (cases "load64 (dte_at (frame_addr s) (bdf f)) st6 = dte_word root")
      case False
      then have "bind_devices (frame_addr s) ifs (g, st6) = (g', st')"
        using Cons.prems(5) z1 z2 z3 p by (simp add: x st6_def)
      from Cons.IH [OF b(8) rest _ _ this] keep Cons.prems(4) touches_trans [OF b(6)] show ?thesis by (simp add: x)
    next
      case True
      let ?sl = "\<lparr>ds_id = of_nat (i + 1), ds_w0 = dte_word root, ds_bdf = bdf f, ds_l1 = p1\<rparr>"
      obtain g7 st7 where g7: "stage (frame_addr s) i (bdf f) root p1 (g, st6) = (g7, st7)" by fastforce
      then have sg: "sg_slots g7 = (sg_slots g)[i := ?sl]" and up: "up_fa st7 = up_fa st6" "up_k st7 = up_k st6"
        by (auto simp: stage_def Let_def split: if_splits)
      have "bind_devices (frame_addr s) ifs (g7, st7) = (g', st')"
        using Cons.prems(5) z1 z2 z3 p True g7 by (simp add: x st6_def)
      moreover have "staged_ok (io_of st7) (F - left st7) Fs (sg_slots g7)"
        unfolding sg up
      proof (rule staged_ok_set)
        show "slot_ok (io_of st6) (F - left st6) Fs i ?sl"
          using b Cons.prems(2,4) by (auto simp: slot_ok_def x)
        show "ds_l1 (sg_slots g ! j) \<noteq> ds_l1 ?sl" if "j < MAX_DOMAINS" "sg_slots g ! j \<noteq> DomainSlot_EMPTY" "j \<noteq> i" for j
        proof -
          from Cons.prems(3) that obtain m where "m \<in> F - left st" "ds_l1 (sg_slots g ! j) = frame_addr m"
            unfolding staged_ok_def slot_ok_def by blast
          moreover have "m < 2 ^ 40" "l1 < 2 ^ 40" "m \<noteq> l1" using calculation(1) b(5) F Cons.prems(2) by auto
          ultimately show ?thesis using frame_addr_inj [of m l1] by (simp add: b(2))
        qed
      qed (use keep Cons.prems(4) in \<open>simp_all add: x\<close>)
      moreover have "touches ?D st st7" using b(6) by (simp add: touches_def up)
      ultimately show ?thesis
        using Cons.IH [of st7 g7] Cons.prems(4) rest b(8) touches_trans [of ?D st st7 st'] by (simp add: up x)
    qed
  qed
qed simp

section \<open>Denying, arming, publishing\<close>

lemma deny_touches: "s + 512 \<le> 2 ^ 52 \<Longrightarrow> touches {s..<s + 512} st (deny_one (frame_addr s) w sls f st)"
  by (simp add: deny_one_def touches_write_dte)

lemma deny_fa: "up_fa (fold (deny_one dt w sls) fs st) = up_fa st"
  by (induction fs arbitrary: st) (simp_all add: deny_one_def)

lemma mach_steps [simp]:
  "up_fa (mmio_write A a v st) = up_fa st" "io_of (mmio_write A a v st) = io_of st" "k_slots (up_k (mmio_write A a v st)) = k_slots (up_k st)"
  by (simp_all add: mmio_write_def upd_k_def upd_mach_def)

lemma touches_eq:
  "up_fa st' = up_fa st \<Longrightarrow> io_of st' = io_of st \<Longrightarrow> k_slots (up_k st') = k_slots (up_k st) \<Longrightarrow> touches D st st'"
  by (simp add: touches_def)

lemma arm_event_log_touches:
  assumes "ba_inv (up_fa st)" and "left st \<subseteq> {..<2 ^ 40}"
  shows "touches D st (arm_event_log A rd base st)"
proof (cases rule: zeroed_frame_cases [OF assms, where D = D])
  case 1
  then show ?thesis by (simp add: arm_event_log_def)
next
  case some: (2 f st')
  then show ?thesis
    by (simp add: arm_event_log_def Let_def touches_trans [OF _ touches_eq])
qed

lemma arm_command_buffer_touches:
  assumes "ba_inv (up_fa st)" and "left st \<subseteq> {..<2 ^ 40}"
  shows "touches D st (arm_command_buffer A rd base st)"
proof (cases rule: zeroed_frame_cases [OF assms, where D = D])
  case 1
  then show ?thesis by (simp add: arm_command_buffer_def)
next
  case some: (2 f st1)
  let ?val = "(frame_addr f AND IOPTE_ADDR) OR push_bit 56 CMD_ENTRIES_LOG2"
  define st2 where "st2 = upd_k (\<lambda>k. k\<lparr>k_cmd_buf := frame_addr f, k_cmd_tail := 0\<rparr>) (mmio_write A (base + 0x08) ?val st1)"
  have e: "up_fa st2 = up_fa st1" "io_of st2 = io_of st1" "k_slots (up_k st2) = k_slots (up_k st1)"
    by (simp_all add: st2_def upd_k_def)
  have t2: "touches D st st2" by (rule touches_trans [OF some(5) touches_eq [OF e]])
  have b2: "ba_inv (up_fa st2)" "left st2 \<subseteq> {..<2 ^ 40}" using some(3,8) assms(2) e(1) by auto
  have "touches D st2 (case zeroed_frame st2 of (None, st) \<Rightarrow> st
      | (Some store, st) \<Rightarrow> upd_k (\<lambda>k. k\<lparr>k_cmd_store := store\<rparr>) st)"
  proof (cases rule: zeroed_frame_cases [OF b2, where D = D])
    case 1
    then show ?thesis by simp
  next
    case some': (2 g st3)
    then show ?thesis by (simp, intro touches_trans [OF some'(5) touches_eq]) (simp_all add: upd_k_def)
  qed
  from touches_trans [OF t2 this] show ?thesis
    using touches_trans [OF some(5) touches_eq [where st' = "mmio_write A (base + 0x08) ?val st1"]]
    by (simp add: arm_command_buffer_def some(1) Let_def st2_def)
qed

lemma publish_facts:
  assumes "publish sls is st = (r, st')"
  shows "io_of st' = io_of st" and "k_mach (up_k st') = k_mach (up_k st)"
    and "\<forall>i \<in> set is. ds_id (sls ! i) = 0 \<or> ds_bdf (sls ! i) < 0x100 \<Longrightarrow> r = Inr ()
      \<and> length (k_slots (up_k st')) = length (k_slots (up_k st))
      \<and> (\<forall>i < length (k_slots (up_k st)). k_slots (up_k st') ! i = (if i \<in> set is then sls ! i else k_slots (up_k st) ! i))"
  using assms
proof (induction "is" arbitrary: st)
  case (Cons i "is")
  define nxt :: "'a BringUp \<Rightarrow> 'a BringUp" where "nxt = upd_k (\<lambda>k. k\<lparr>k_slots := (k_slots k)[i := sls ! i]\<rparr>)"
  have u: "io_of (nxt st) = io_of st" "k_mach (up_k (nxt st)) = k_mach (up_k st)"
    "k_slots (up_k (nxt st)) = (k_slots (up_k st))[i := sls ! i]" for st
    by (simp_all add: nxt_def upd_k_def)
  have step: "st' = st \<or> publish sls is (nxt st) = (r, st')" if "publish sls (i # is) st = (r, st')" for st
    using that by (simp add: nxt_def split: if_splits)
  { case 1
    then consider "st' = st" | "publish sls is (nxt st) = (r, st')" using step by blast
    then show ?case by cases (simp, drule Cons.IH(1), simp only: u) }
  { case 2
    then consider "st' = st" | "publish sls is (nxt st) = (r, st')" using step by blast
    then show ?case by cases (simp, drule Cons.IH(2), simp only: u) }
  { case 3
    then have "publish sls is (nxt st) = (r, st')" by (simp add: nxt_def split: if_splits)
    from Cons.IH(3) [OF _ this] 3(1) show ?case by (auto simp: u nth_list_update) }
qed auto

text \<open>What the two halves leave behind, if a domain was published at all.\<close>

definition brought_up :: "(u64 \<Rightarrow> 'm \<Rightarrow> u64) \<Rightarrow> u64 \<Rightarrow> u64 \<Rightarrow> PciFunction list \<Rightarrow> PciFunction set \<Rightarrow> nat set \<Rightarrow> 'm BringUp \<Rightarrow> bool" where
  "brought_up rd base dt fs Fs F st \<longleftrightarrow>
     (\<forall>f \<in> set fs. \<forall>iova. dma_reach (io_of st) (io_of st (dte_at dt (bdf f))) iova = Refused)
     \<and> staged_ok (io_of st) F Fs (k_slots (up_k st)) \<and> mmio_read rd (base + 0x18) st AND IOMMU_EN \<noteq> 0"

lemma deny_and_enable_facts:
  assumes D: "s + 512 \<le> 2 ^ 52" "{s..<s + 512} \<inter> F = {}" and F: "F \<subseteq> {..<2 ^ 40}"
    and inv: "ba_inv (up_fa st)" "left st \<subseteq> F" and sg: "staged_ok (io_of st) (F - left st) Fs sls"
    and root: "\<forall>f \<in> Fs. bdf f < 0x100" and len: "length (k_slots (up_k st)) = MAX_DOMAINS"
    and run: "deny_and_enable A rd base (frame_addr s) fs sls st = (r, st')"
    and pub: "k_slots (up_k st') \<noteq> k_slots (up_k st)"
  shows "r = Inr () \<and> brought_up rd base (frame_addr s) fs Fs F st'"
proof -
  let ?D = "{s..<s + 512}"
  have small: "left st \<subseteq> {..<2 ^ 40}" using inv(2) F by auto
  obtain d st1 where z: "zeroed_frame st = (Some (frame_addr d), st1)" "d \<in> left st" "left st1 = left st - {d}" "d < 2 ^ 40"
    "touches ?D st st1" "empty_page (io_of st1) d" "ba_inv (up_fa st1)"
    using run pub by (cases rule: zeroed_frame_cases [OF inv(1) small, where D = ?D]) (auto simp: deny_and_enable_def)
  let ?w = "dte_word (frame_addr d)"
  define st3 where "st3 = (fold (deny_one (frame_addr s) ?w sls) fs st1)\<lparr>up_deny_w0 := ?w\<rparr>"
  have t13: "touches ?D st1 st3" unfolding st3_def touches_fields by (rule touches_fold) (rule deny_touches [OF D(1)])
  have fa3: "up_fa st3 = up_fa st1" by (simp add: st3_def deny_fa)
  define st5 where "st5 = arm_command_buffer A rd base (arm_event_log A rd base st3)"
  have b3: "ba_inv (up_fa st3)" "left st3 \<subseteq> {..<2 ^ 40}" using z(3,7) small by (auto simp: fa3)
  have t4: "touches {} st3 (arm_event_log A rd base st3)" by (rule arm_event_log_touches [OF b3])
  have b4: "ba_inv (up_fa (arm_event_log A rd base st3))" "left (arm_event_log A rd base st3) \<subseteq> {..<2 ^ 40}"
    using t4 b3 by (auto simp: touches_def)
  have t5: "touches {} st3 st5" unfolding st5_def by (rule touches_trans [OF t4 arm_command_buffer_touches [OF b4]])
  have T: "touches ?D st st5"
    by (rule touches_trans [OF touches_trans [OF z(5) t13] touches_mono [OF t5]]) simp
  have slots: "k_slots (up_k st5) = k_slots (up_k st)" using T by (simp add: touches_def)
  have c: "count_by (wrong_entry (frame_addr s) ?w sls st3) fs = 0" and en: "enable_unit A rd base sls st5 = (r, st')"
    using run pub z(5) t13 by (auto simp: deny_and_enable_def z(1) Let_def st3_def [symmetric] st5_def touches_def split: if_splits)
  have sg5: "staged_ok (io_of st5) (F - left st5) Fs sls" by (rule staged_ok_touches [OF sg T D(2)])
  have low: "\<forall>i \<in> set [0..<MAX_DOMAINS]. ds_id (sls ! i) = 0 \<or> ds_bdf (sls ! i) < 0x100"
    using sg root by (auto simp: staged_ok_def slot_ok_def dslot_empty_id)
  obtain st6 where st6: "st6 = mmio_write A (base + 0x18) (mmio_read rd (base + 0x18) st5 OR IOMMU_EN OR EVENT_LOG_EN OR CMD_BUF_EN) st5"
    by blast
  have on: "mmio_read rd (base + 0x18) st6 AND IOMMU_EN \<noteq> 0" and p: "publish sls [0..<MAX_DOMAINS] st6 = (r, st')"
    using en pub slots by (auto simp: enable_unit_def Let_def st6 split: if_splits)
  note P = publish_facts(1,2) [OF p] publish_facts(3) [OF p low]
  have io': "io_of st' = io_of st5" using P(1) by (simp add: st6)
  have "length sls = MAX_DOMAINS" using sg by (simp add: staged_ok_def)
  then have ks: "k_slots (up_k st') = sls"
    using P(3) len by (intro nth_equalityI) (simp_all add: st6 slots)
  have entry: "dma_reach (io_of st5) (io_of st5 (dte_at (frame_addr s) (bdf f))) iova = Refused" if f: "f \<in> set fs" for f iova
  proof -
    have pg: "pageno (dte_at (frame_addr s) (bdf f)) \<in> ?D" using dte_page [OF D(1), of 0 "bdf f"] by simp
    then have "pageno (dte_at (frame_addr s) (bdf f)) \<notin> left st3" using D(2) inv(2) z(3) by (auto simp: fa3)
    then have io: "io_of st5 (dte_at (frame_addr s) (bdf f)) = io_of st3 (dte_at (frame_addr s) (bdf f))"
      using t5 by (auto simp: touches_def)
    have ok: "\<not> wrong_entry (frame_addr s) ?w sls st3 f" using c f by (simp add: count_by_0)
    show ?thesis
    proof (cases "bound_slot sls (bdf f)")
      case None
      then have w: "io_of st3 (dte_at (frame_addr s) (bdf f)) = ?w" using ok by (simp add: wrong_entry_def load64_def)
      have "empty_page (io_of st5) d"
      proof -
        have "d \<notin> ?D" "d \<notin> left st3" using z(2,3) D(2) inv(2) by (auto simp: fa3)
        then have "io_of st5 a = io_of st1 a" if "pageno a = d" for a
          using that t13 t5 fa3 by (simp add: touches_def)
        then show ?thesis using z(6) by (simp add: empty_page_def)
      qed
      from empty_refuses [OF z(4) this] show ?thesis by (simp add: io w)
    next
      case (Some i)
      then have i: "i < MAX_DOMAINS" "ds_id (sls ! i) \<noteq> 0"
        using sg position_SomeD [of _ sls i] by (auto simp: bound_slot_def staged_ok_def)
      then obtain ro l2 l1 where "ds_w0 (sls ! i) = dte_word (frame_addr ro)" "chain3 (io_of st5) ro l2 l1"
        using sg5 dslot_empty_id by (auto simp: staged_ok_def slot_ok_def)
      moreover have "io_of st3 (dte_at (frame_addr s) (bdf f)) = ds_w0 (sls ! i)"
        using ok Some by (simp add: wrong_entry_def load64_def)
      ultimately show ?thesis using chain3_refuses by (simp add: io)
    qed
  qed
  have "staged_ok (io_of st') F Fs (k_slots (up_k st'))"
    using sg5 slot_ok_mono [of "io_of st5" "F - left st5" Fs] unfolding staged_ok_def ks io' by blast
  moreover have "mmio_read rd (base + 0x18) st' AND IOMMU_EN \<noteq> 0" using on P(2) by (simp add: mmio_read_def)
  ultimately show ?thesis using entry P(3) by (simp add: brought_up_def io')
qed

section \<open>The whole bring-up\<close>

lemma devices_facts:
  "set (devices cfg fs) \<subseteq> {f \<in> set fs. bindable cfg f}" "length (devices cfg fs) \<le> MAX_DOMAINS"
  by (auto simp: devices_def dest: in_set_takeD)

lemma dt_zeroing:
  assumes "s + 512 \<le> 2 ^ 52" and "xs = map (\<lambda>i. frame_addr s + of_nat i * PAGE_SIZE) [0..<512]"
  shows "touches {s..<s + 512} st (fold zero_at xs st)"
proof (rule touches_fold)
  fix a :: u64 and st :: "'m BringUp" assume "a \<in> set xs"
  then obtain i where i: "i < 512" and a: "a = frame_addr s + of_nat i * PAGE_SIZE" by (auto simp: assms(2))
  have "a = frame_addr (s + i)"
    by (simp add: a frame_addr_def PAGE_SIZE_def push_bit_eq_mult ring_distribs)
  then have "io_of (zero_at a st) b = io_of st b" if "pageno b \<noteq> s + i" for b
    using that zero_page_frame [of "s + i" "io_of st" b] i assms(1) by (simp add: zero_at_def upd_k_def)
  then show "touches {s..<s + 512} st (zero_at a st)"
    using i by (auto simp: touches_def zero_at_def upd_k_def)
qed

lemma dt_fold: "fold (\<lambda>i. zero_at (dt + of_nat i * PAGE_SIZE)) [0..<DT_PAGES] st
    = fold zero_at (map (\<lambda>i. dt + of_nat i * PAGE_SIZE) [0..<512]) st"
  by (simp add: fold_map DT_PAGES_def comp_def)

lemma zero_fold_fa: "up_fa (fold zero_at xs st) = up_fa st"
  by (induction xs arbitrary: st) (simp_all add: zero_at_def upd_k_def)

lemma install_facts:
  assumes inv: "ba_inv (up_fa st)" and mem: "\<forall>f \<in> free_frames (up_fa st). f < 2 ^ 40"
    and cold: "k_slots (up_k st) = replicate MAX_DOMAINS DomainSlot_EMPTY"
    and run: "install_device_table A rd cfg target base st = (r, st')" and pub: "k_slots (up_k st') \<noteq> k_slots (up_k st)"
  obtains dt fa where "alloc_contiguous DT_PAGES (up_fa st) = (Some dt, fa)" "r = Inr ()"
    "brought_up rd base dt (fst (pci_enumerate cfg SCAN_FUNCTIONS)) {f. present cfg f \<and> bindable cfg f} (left st) st'"
    "set (fst (pci_enumerate cfg SCAN_FUNCTIONS)) = {f. present cfg f}"
proof -
  obtain dt fa where al: "alloc_contiguous DT_PAGES (up_fa st) = (Some dt, fa)"
    using run pub by (cases "alloc_contiguous DT_PAGES (up_fa st)") (auto simp: install_device_table_def split: option.splits)
  obtain s where s: "dt = frame_addr s" "{s..<s + 512} \<subseteq> left st" "free_frames fa = left st - {s..<s + 512}" "ba_inv fa"
    using alloc_contiguous_Some [OF inv al] by (metis DT_PAGES_def)
  let ?D = "{s..<s + 512}" let ?F = "left st - ?D"
  have "s + 511 \<in> left st" using s(2) by auto
  then have top: "s + 512 \<le> 2 ^ 52" using mem by auto
  have F: "?D \<inter> ?F = {}" "?F \<subseteq> {..<2 ^ 40}" using mem by auto
  define st1 where "st1 = fold zero_at (map (\<lambda>i. frame_addr s + of_nat i * PAGE_SIZE) [0..<512]) (st\<lparr>up_fa := fa\<rparr>)"
  define val where "val = (dt AND IOPTE_ADDR) OR (of_nat DT_PAGES - 1)"
  define st2 where "st2 = mmio_write A base val st1"
  have t1: "touches ?D (st\<lparr>up_fa := fa\<rparr>) st1" unfolding st1_def by (rule dt_zeroing [OF top refl])
  have st2: "up_fa st2 = fa" "k_slots (up_k st2) = k_slots (up_k st)"
    using t1 by (simp_all add: st2_def st1_def zero_fold_fa touches_def)
  have p: "program_dte A rd cfg target base dt st2 = (r, st')"
    using run pub st2(2) by (auto simp: install_device_table_def al dt_fold s(1) st1_def [symmetric] st2_def val_def Let_def split: if_splits)
  obtain fs tr n where pe: "pci_enumerate cfg SCAN_FUNCTIONS = (fs, tr, n)" by (metis prod_cases3)
  obtain g st3 where b: "bind_devices dt (List.enumerate 0 (devices cfg fs)) (Staging_EMPTY, st2) = (g, st3)" by fastforce
  let ?Fs = "{f. present cfg f \<and> bindable cfg f}"
  have "\<not> tr" using p pub st2(2) pe by (auto simp: program_dte_def split: if_splits)
  note all = enumerate_facts(4) [OF pe this]
  have idx: "\<forall>(i, f) \<in> set (List.enumerate 0 (devices cfg fs)). i < MAX_DOMAINS \<and> f \<in> ?Fs"
  proof clarify
    fix i f assume "(i, f) \<in> set (List.enumerate 0 (devices cfg fs))"
    then have "i < length (devices cfg fs)" "f \<in> set (devices cfg fs)" by (auto simp: in_set_enumerate_eq)
    then show "i < MAX_DOMAINS \<and> f \<in> ?Fs" using devices_facts [of cfg fs] all by auto
  qed
  have sg0: "staged_ok (io_of st2) (?F - left st2) ?Fs (sg_slots Staging_EMPTY)"
    by (simp add: staged_ok_def Staging_EMPTY_def)
  have b0: "ba_inv (up_fa st2)" "left st2 \<subseteq> ?F" using s(3,4) st2(1) by simp_all
  note B = bind_devices_ok [OF top F b0 sg0 idx b [unfolded s(1)]]
  have d: "deny_and_enable A rd base dt fs (sg_slots g) st3 = (r, st')"
    using p pub st2(2) B by (auto simp: program_dte_def pe b touches_def split: if_splits)
  have slots3: "k_slots (up_k st3) = k_slots (up_k st)" using B st2(2) by (simp add: touches_def)
  have low: "\<forall>f \<in> ?Fs. bdf f < 0x100" using bdf_root_bus present_range by (auto simp: bindable_def)
  have len3: "length (k_slots (up_k st3)) = MAX_DOMAINS" by (simp add: slots3 cold)
  have left3: "left st3 \<subseteq> ?F" using B b0(2) unfolding touches_def by blast
  have pub3: "k_slots (up_k st') \<noteq> k_slots (up_k st3)" using pub slots3 by simp
  from B have inv3: "ba_inv (up_fa st3)" and sg3: "staged_ok (io_of st3) (?F - left st3) ?Fs (sg_slots g)" by blast+
  have "r = Inr () \<and> brought_up rd base (frame_addr s) fs ?Fs ?F st'"
    by (rule deny_and_enable_facts [OF top F inv3 left3 sg3 low len3 d [unfolded s(1)] pub3])
  moreover have "staged_ok io ?F ?Fs sls \<Longrightarrow> staged_ok io (left st) ?Fs sls" for io sls
    using slot_ok_mono [of io ?F ?Fs] unfolding staged_ok_def by blast
  ultimately show ?thesis using that [OF al] all pe by (simp add: s(1) brought_up_def)
qed

section \<open>The base register\<close>

text \<open>Nothing but the stores to the other registers reaches the machine after the base register is written.\<close>

lemma mach_kept [simp]:
  "k_mach (up_k (store64 a v st)) = k_mach (up_k st)" "k_mach (up_k (zero_at p st)) = k_mach (up_k st)"
  "k_mach (up_k (write_dte dt b w0 w1 st)) = k_mach (up_k st)" "k_mach (up_k (deny_one dt w sls f st)) = k_mach (up_k st)"
  by (simp_all add: store64_def zero_at_def write_dte_def deny_one_def upd_k_def)

lemma zeroed_frame_mach: "zeroed_frame st = (po, st') \<Longrightarrow> k_mach (up_k st') = k_mach (up_k st)"
  by (auto simp: zeroed_frame_def split: prod.splits option.splits)

lemma bind_devices_mach: "bind_devices dt ifs (g, st) = (g', st') \<Longrightarrow> k_mach (up_k st') = k_mach (up_k st)"
proof (induction ifs arbitrary: g st)
  case (Cons x ifs)
  have stage: "k_mach (up_k st7) = k_mach (up_k st6)" if "stage dt i b root l1 (g6, st6) = (g7, st7)" for i b root l1 g6 st6 g7 st7
    using that by (auto simp: stage_def Let_def split: if_splits)
  have step: "k_mach (up_k st') = k_mach (up_k st6)" if "bind_devices dt ifs (stage dt i b root l1 (g6, st6)) = (g', st')"
    for i b root l1 g6 st6
    using that Cons.IH stage by (metis surj_pair)
  show ?case using Cons.prems
    by (cases x) (auto simp: Let_def dest!: zeroed_frame_mach step Cons.IH split: prod.splits option.splits if_splits)
qed simp

lemma deny_fold_mach: "k_mach (up_k (fold (deny_one dt w sls) fs st)) = k_mach (up_k st)"
  by (induction fs arbitrary: st) simp_all

text \<open>A store to one register of the unit leaves what its base register reads.\<close>

definition registers_apart :: "'m Arch \<Rightarrow> (u64 \<Rightarrow> 'm \<Rightarrow> u64) \<Rightarrow> u64 \<Rightarrow> bool" where
  "registers_apart A rd base \<longleftrightarrow>
     (\<forall>d \<in> {0x08, 0x10, 0x18}. \<forall>v m. rd base (a_write64 A (base + d) v m) = rd base m)"

lemma base_written:
  assumes "registers_apart A rd base"
  shows "mmio_read rd base (mmio_write A (base + 0x08) v st) = mmio_read rd base st"
    and "mmio_read rd base (mmio_write A (base + 0x10) v st) = mmio_read rd base st"
    and "mmio_read rd base (mmio_write A (base + 0x18) v st) = mmio_read rd base st"
  using assms by (simp_all add: registers_apart_def mmio_read_def mmio_write_def upd_k_def upd_mach_def)

lemma base_read_mach: "k_mach (up_k st') = k_mach (up_k st) \<Longrightarrow> mmio_read rd a st' = mmio_read rd a st"
  by (simp add: mmio_read_def)

lemma zeroed_frame_reads: "zeroed_frame st = (po, st') \<Longrightarrow> mmio_read rd a st' = mmio_read rd a st"
  by (rule base_read_mach) (rule zeroed_frame_mach)

lemma arming_keeps_base:
  assumes "registers_apart A rd base"
  shows "mmio_read rd base (arm_event_log A rd base st) = mmio_read rd base st"
    and "mmio_read rd base (arm_command_buffer A rd base st) = mmio_read rd base st"
proof -
  have same [simp]: "mmio_read rd base (st\<lparr>up_event_log := l\<rparr>) = mmio_read rd base st"
    "mmio_read rd base (upd_k (\<lambda>k. k\<lparr>k_cmd_buf := c, k_cmd_tail := 0\<rparr>) st) = mmio_read rd base st"
    "mmio_read rd base (upd_k (\<lambda>k. k\<lparr>k_cmd_store := c\<rparr>) st) = mmio_read rd base st" for st l c
    by (simp_all add: mmio_read_def upd_k_def)
  show "mmio_read rd base (arm_event_log A rd base st) = mmio_read rd base st"
    unfolding arm_event_log_def
    by (auto simp: Let_def base_written [OF assms] dest!: zeroed_frame_reads [of _ _ _ rd base] split: prod.split option.split)
  show "mmio_read rd base (arm_command_buffer A rd base st) = mmio_read rd base st"
    unfolding arm_command_buffer_def
    by (auto simp: Let_def base_written [OF assms] dest!: zeroed_frame_reads [of _ _ _ rd base] split: prod.split option.split)
qed

lemma program_keeps_base:
  assumes "registers_apart A rd base" and "program_dte A rd cfg target base dt st = (r, st')"
  shows "mmio_read rd base st' = mmio_read rd base st"
proof -
  have deny: "mmio_read rd base (snd (deny_and_enable A rd base dt fs sls st)) = mmio_read rd base st" for fs sls st
  proof (cases "zeroed_frame st")
    case (Pair po st1)
    have z: "mmio_read rd base st1 = mmio_read rd base st" by (rule zeroed_frame_reads [OF Pair])
    have d: "mmio_read rd base ((fold (deny_one dt w sls) fs st1)\<lparr>up_deny_w0 := w\<rparr>) = mmio_read rd base st" for w
      using deny_fold_mach [of dt w sls fs st1] z by (simp add: mmio_read_def)
    have e: "mmio_read rd base (snd (enable_unit A rd base sls st)) = mmio_read rd base st" for st
    proof -
      define st2 where "st2 = mmio_write A (base + 0x18) (mmio_read rd (base + 0x18) st OR IOMMU_EN OR EVENT_LOG_EN OR CMD_BUF_EN) st"
      have "mmio_read rd base (snd (publish sls [0..<MAX_DOMAINS] st2)) = mmio_read rd base st2"
        using publish_facts(2) [of sls "[0..<MAX_DOMAINS]" st2] by (metis base_read_mach prod.collapse)
      moreover have "mmio_read rd base st2 = mmio_read rd base st" by (simp add: st2_def base_written [OF assms(1)])
      ultimately show ?thesis by (simp add: enable_unit_def Let_def st2_def [symmetric])
    qed
    show ?thesis using z d e arming_keeps_base [OF assms(1)]
      by (cases po) (simp_all add: deny_and_enable_def Pair Let_def)
  qed
  have deny': "mmio_read rd base s' = mmio_read rd base s" if "deny_and_enable A rd base dt fs sls s = (q, s')" for fs sls s q s'
    using deny [of fs sls s] that by simp
  from assms(2) show ?thesis
    by (auto simp: program_dte_def dest!: deny' base_read_mach [OF bind_devices_mach] split: prod.splits if_splits)
qed

lemma table_register:
  assumes "f < 2 ^ 40"
  shows "((frame_addr f AND IOPTE_ADDR) OR (of_nat DT_PAGES - 1)) AND IOPTE_ADDR = frame_addr f"
    and "((frame_addr f AND IOPTE_ADDR) OR (of_nat DT_PAGES - 1)) AND 0x1FF = 0x1FF"
proof -
  have m: "(of_nat DT_PAGES - 1 :: u64) = mask 9" "(0x1FF :: u64) = mask 9" by (simp_all add: DT_PAGES_def mask_eq_exp_minus_1)
  have b: "bit (mask 9 :: u64) n \<longleftrightarrow> n < 9" for n by (simp only: bit_mask_iff possible_bit_word) auto
  show "((frame_addr f AND IOPTE_ADDR) OR (of_nat DT_PAGES - 1)) AND IOPTE_ADDR = frame_addr f"
    unfolding m frame_masked [OF assms]
    by (rule bit_word_eqI) (simp only: bit_and_iff bit_or_iff b field_bits frame_bits [OF assms], auto)
  show "((frame_addr f AND IOPTE_ADDR) OR (of_nat DT_PAGES - 1)) AND 0x1FF = 0x1FF"
    unfolding m frame_masked [OF assms]
    by (rule bit_word_eqI) (simp only: bit_and_iff bit_or_iff b field_bits frame_bits [OF assms], auto)
qed

text \<open>What the unit finds when a domain has been published: an enabled unit over the whole table.\<close>

lemma unit_uses_table:
  assumes apart: "registers_apart A rd base" and inv: "ba_inv (up_fa st)" and mem: "\<forall>f \<in> free_frames (up_fa st). f < 2 ^ 40"
    and run: "install_device_table A rd cfg target base st = (r, st')" and pub: "k_slots (up_k st') \<noteq> k_slots (up_k st)"
    and al: "alloc_contiguous DT_PAGES (up_fa st) = (Some dt, fa)" and on: "mmio_read rd (base + 0x18) st' AND IOMMU_EN \<noteq> 0"
  shows "unit_dma rd base (up_k st') rid iova = dma_reach (io_of st') (io_of st' (dte_at dt rid)) iova"
proof -
  obtain s where s: "dt = frame_addr s" "{s..<s + 512} \<subseteq> left st"
    using alloc_contiguous_Some [OF inv al] by (metis DT_PAGES_def)
  have "s \<in> left st" using s(2) by auto
  then have small: "s < 2 ^ 40" using mem by auto
  define st1 where "st1 = fold zero_at (map (\<lambda>i. frame_addr s + of_nat i * PAGE_SIZE) [0..<512]) (st\<lparr>up_fa := fa\<rparr>)"
  define val where "val = (dt AND IOPTE_ADDR) OR (of_nat DT_PAGES - 1)"
  have "k_slots (up_k (fold zero_at xs q)) = k_slots (up_k q)" for xs and q :: "'a BringUp"
    by (induction xs arbitrary: q) (simp_all add: zero_at_def upd_k_def)
  then have "k_slots (up_k (mmio_write A base val st1)) = k_slots (up_k st)" by (simp add: st1_def)
  then have p: "program_dte A rd cfg target base dt (mmio_write A base val st1) = (r, st')"
      and rb: "mmio_read rd base (mmio_write A base val st1) = val"
    using run pub by (auto simp: install_device_table_def al dt_fold s(1) st1_def [symmetric] val_def Let_def split: if_splits)
  have "rd base (k_mach (up_k st')) = val"
    using program_keeps_base [OF apart p] rb by (simp add: mmio_read_def)
  moreover have "unat rid * 32 < (unat (0x1FF :: u64) + 1) * 4096" using unsigned_less [of rid] by simp
  ultimately show ?thesis
    using on table_register [OF small] by (simp add: unit_dma_def Let_def val_def s(1) mmio_read_def)
qed

section \<open>The bring-up makes progress\<close>

text \<open>Frames the allocator will still find in front of its cursor.\<close>

definition room :: "nat \<Rightarrow> BitmapAllocator \<Rightarrow> bool" where
  "room n a \<longleftrightarrow> n \<le> card {f \<in> free_frames a. max (ba_cursor a) (general_floor a) \<le> f}"

lemma alloc_frame_room:
  assumes "ba_inv a" and "room (Suc n) a"
  obtains f a' where "alloc_frame a = (Some (frame_addr f), a')" "room n a'"
proof (cases rule: alloc_frame_cases [of a])
  case none
  then have "{f \<in> free_frames a. max (ba_cursor a) (general_floor a) \<le> f} = {}" by force
  with assms(2) have False unfolding room_def by (simp del: max.bounded_iff)
  then show ?thesis ..
next
  case (some f)
  let ?a = "(set_used f a)\<lparr>ba_free := ba_free a - 1, ba_cursor := f + 1\<rparr>"
  let ?S = "{g \<in> free_frames a. max (ba_cursor a) (general_floor a) \<le> g}"
  note t = take_one [OF assms(1) some(1) refl, of "f + 1"]
  have "?S - {f} \<subseteq> {g \<in> free_frames ?a. max (ba_cursor ?a) (general_floor ?a) \<le> g}"
  proof
    fix g assume g: "g \<in> ?S - {f}"
    then have "f \<le> g" using some(3) by auto
    with g have "f + 1 \<le> g" by simp
    then show "g \<in> {g \<in> free_frames ?a. max (ba_cursor ?a) (general_floor ?a) \<le> g}" using g t(2,5) by auto
  qed
  then have "card (?S - {f}) \<le> card {g \<in> free_frames ?a. max (ba_cursor ?a) (general_floor ?a) \<le> g}"
    by (intro card_mono) auto
  moreover have "card (?S - {f}) = card ?S - 1" using some(1,2) by (intro card_Diff_singleton) auto
  ultimately have "room n ?a" using assms(2) by (simp add: room_def)
  from that [OF some(4) this] show ?thesis .
qed

lemma zeroed_frame_room:
  assumes "ba_inv (up_fa st)" and "room (Suc n) (up_fa st)" and "zeroed_frame st = (po, st')"
  shows "po \<noteq> None \<and> room n (up_fa st')"
proof -
  obtain f a' where "alloc_frame (up_fa st) = (Some (frame_addr f), a')" "room n a'"
    by (rule alloc_frame_room [OF assms(1,2)])
  then show ?thesis using assms(3) by (auto simp: zeroed_frame_def zero_at_def upd_k_def)
qed

lemma dte_distinct:
  assumes "s + 512 \<le> 2 ^ 52" and "b \<noteq> b'" and "d < 32" and "d' < 32"
  shows "dte_at (frame_addr s) b + of_nat d \<noteq> dte_at (frame_addr s) b' + of_nat d'"
proof
  assume "dte_at (frame_addr s) b + of_nat d = dte_at (frame_addr s) b' + of_nat d'"
  then have "s * 4096 + (unat b * 32 + d) = s * 4096 + (unat b' * 32 + d')"
    using dte_unat [OF assms(1,3), of b] dte_unat [OF assms(1,4), of b'] by (simp only:)
  then have "(d + unat b * 32) div 32 = (d' + unat b' * 32) div 32" by (simp add: add.commute)
  then have "unat b = unat b'" using assms(3,4) by simp
  with assms(2) show False by (simp add: word_unat_eq_iff)
qed

text \<open>The two words of an entry that are checked.\<close>

definition dte_words :: "(u64 \<Rightarrow> u64) \<Rightarrow> u64 \<Rightarrow> u16 \<Rightarrow> u64 \<times> u64" where
  "dte_words io dt b = (io (dte_at dt b), io (dte_at dt b + 8))"

lemma write_dte_words:
  assumes "s + 512 \<le> 2 ^ 52"
  shows "dte_words (io_of (write_dte (frame_addr s) b w0 w1 st)) (frame_addr s) b'
    = (if b' = b then (w0, w1) else dte_words (io_of st) (frame_addr s) b')"
proof -
  have "dte_at (frame_addr s) c + of_nat d \<noteq> dte_at (frame_addr s) b + of_nat d'" if "c \<noteq> b" "d < 32" "d' < 32" for c d d'
    using dte_distinct [OF assms that] .
  from this [of b' 0 0] this [of b' 0 8] this [of b' 0 16] this [of b' 0 24]
    this [of b' 8 0] this [of b' 8 8] this [of b' 8 16] this [of b' 8 24]
  show ?thesis by (auto simp: dte_words_def write_dte_def store_io)
qed

lemma touches_words:
  assumes "s + 512 \<le> 2 ^ 52" and "{s..<s + 512} \<inter> left st = {}" and "touches {} st st'"
  shows "dte_words (io_of st') (frame_addr s) b = dte_words (io_of st) (frame_addr s) b"
proof -
  have "io_of st' (dte_at (frame_addr s) b + of_nat d) = io_of st (dte_at (frame_addr s) b + of_nat d)" if "d < 32" for d
    using dte_page [OF assms(1) that, of b] assms(2,3) unfolding touches_def by blast
  from this [of 0] this [of 8] show ?thesis by (simp add: dte_words_def)
qed

text \<open>The entry of a bound device, as the check wants it.\<close>

definition entry_for :: "(u64 \<Rightarrow> u64) \<Rightarrow> u64 \<Rightarrow> DomainSlot list \<Rightarrow> nat \<Rightarrow> u16 \<Rightarrow> bool" where
  "entry_for io dt sls i b \<longleftrightarrow> ds_id (sls ! i) = of_nat (i + 1) \<and> ds_bdf (sls ! i) = b
     \<and> dte_words io dt b = (ds_w0 (sls ! i), of_nat i)"

lemma bind_devices_progress:
  assumes D: "s + 512 \<le> 2 ^ 52" "{s..<s + 512} \<inter> left st = {}" and inv: "ba_inv (up_fa st)" "left st \<subseteq> {..<2 ^ 40}"
    and "room (3 * length ifs + n) (up_fa st)" and "distinct (map fst ifs)" and "distinct (map (bdf \<circ> snd) ifs)"
    and "\<forall>(i, f) \<in> set ifs. i < length (sg_slots g)" and "bind_devices (frame_addr s) ifs (g, st) = (g', st')"
  shows "sg_live g' = sg_live g + length ifs \<and> room n (up_fa st') \<and> length (sg_slots g') = length (sg_slots g)
    \<and> (\<forall>(i, f) \<in> set ifs. entry_for (io_of st') (frame_addr s) (sg_slots g') i (bdf f))
    \<and> (\<forall>i. i \<notin> fst ` set ifs \<longrightarrow> sg_slots g' ! i = sg_slots g ! i)
    \<and> (\<forall>b. b \<notin> (bdf \<circ> snd) ` set ifs \<longrightarrow> dte_words (io_of st') (frame_addr s) b = dte_words (io_of st) (frame_addr s) b)"
  using assms(2-)
proof (induction ifs arbitrary: g st)
  case (Cons x ifs)
  obtain i f where x: "x = (i, f)" by fastforce
  obtain ro st1 where z1: "zeroed_frame st = (ro, st1)" by fastforce
  obtain lo st2 where z2: "zeroed_frame st1 = (lo, st2)" by fastforce
  obtain mo st3 where z3: "zeroed_frame st2 = (mo, st3)" by fastforce
  have t1: "touches {} st st1" "ba_inv (up_fa st1)" using zeroed_frame_touches [OF Cons.prems(2,3), of "{}"] z1 by simp_all
  then have s1: "left st1 \<subseteq> {..<2 ^ 40}" using Cons.prems(3) unfolding touches_def by blast
  have t2: "ba_inv (up_fa st2)" using zeroed_frame_touches [OF t1(2) s1, of "{}"] z2 by simp
  have r1: "ro \<noteq> None \<and> room (Suc (Suc (3 * length ifs + n))) (up_fa st1)"
    using zeroed_frame_room [OF Cons.prems(2) _ z1, of "Suc (Suc (3 * length ifs + n))"] Cons.prems(4)
    by (simp add: numeral_3_eq_3)
  have r2: "lo \<noteq> None \<and> room (Suc (3 * length ifs + n)) (up_fa st2)" using zeroed_frame_room [OF t1(2) _ z2] r1 by blast
  have r3: "mo \<noteq> None \<and> room (3 * length ifs + n) (up_fa st3)" using zeroed_frame_room [OF t2 _ z3] r2 by blast
  obtain root p2 p1 where p: "ro = Some root" "lo = Some p2" "mo = Some p1" using r1 r2 r3 by auto
  define st5 where "st5 = store64 p2 (link_word p1 NEXT_LEVEL_1) (store64 root (link_word p2 NEXT_LEVEL_2) st3)"
  define st6 where "st6 = write_dte (frame_addr s) (bdf f) (dte_word root) (of_nat i) st5"
  obtain t5: "touches {} st st5" and t6: "touches {s..<s + 512} st st6" and inv6: "ba_inv (up_fa st6)"
    by (rule bind_block [OF Cons.prems(2,3) D(1) Cons.prems(1) z1 [unfolded p] z2 [unfolded p] z3 [unfolded p]
        st6_def [unfolded st5_def]]) (simp add: st5_def)
  have w6: "dte_words (io_of st6) (frame_addr s) b =
      (if b = bdf f then (dte_word root, of_nat i) else dte_words (io_of st) (frame_addr s) b)" for b
    unfolding st6_def write_dte_words [OF D(1)] touches_words [OF D(1) Cons.prems(1) t5] by simp
  let ?sl = "\<lparr>ds_id = of_nat (i + 1), ds_w0 = dte_word root, ds_bdf = bdf f, ds_l1 = p1\<rparr>"
  obtain g7 st7 where g7: "stage (frame_addr s) i (bdf f) root p1 (g, st6) = (g7, st7)" by fastforce
  then have sg: "sg_slots g7 = (sg_slots g)[i := ?sl]" "sg_live g7 = sg_live g + 1"
    and up: "up_fa st7 = up_fa st6" "up_k st7 = up_k st6" by (auto simp: stage_def Let_def split: if_splits)
  have "load64 (dte_at (frame_addr s) (bdf f)) st6 = dte_word root"
    using w6 [of "bdf f"] by (simp add: dte_words_def load64_def)
  then have run: "bind_devices (frame_addr s) ifs (g7, st7) = (g', st')"
    using Cons.prems(8) z1 z2 z3 p g7 by (simp add: x st5_def [symmetric] st6_def [symmetric])
  have fa: "up_fa st6 = up_fa st3" by (simp add: st6_def st5_def store_io)
  have sub: "left st7 \<subseteq> left st" using t6 by (simp add: touches_def up)
  have i: "i < length (sg_slots g)" "i \<notin> fst ` set ifs" "bdf f \<notin> (bdf \<circ> snd) ` set ifs"
    using Cons.prems(5-7) by (auto simp: x)
  have idx: "\<forall>(j, h) \<in> set ifs. j < length (sg_slots g7)" using Cons.prems(7) by (simp add: sg)
  have pre: "{s..<s + 512} \<inter> left st7 = {}" "left st7 \<subseteq> {..<2 ^ 40}" using Cons.prems(1,3) sub by blast+
  have pre': "ba_inv (up_fa st7)" "room (3 * length ifs + n) (up_fa st7)" "distinct (map fst ifs)"
    "distinct (map (bdf \<circ> snd) ifs)"
    using inv6 r3 Cons.prems(5,6) by (simp_all add: up(1) fa comp_def)
  have IH: "sg_live g' = sg_live g7 + length ifs \<and> room n (up_fa st') \<and> length (sg_slots g') = length (sg_slots g7)
    \<and> (\<forall>(i, f) \<in> set ifs. entry_for (io_of st') (frame_addr s) (sg_slots g') i (bdf f))
    \<and> (\<forall>i. i \<notin> fst ` set ifs \<longrightarrow> sg_slots g' ! i = sg_slots g7 ! i)
    \<and> (\<forall>b. b \<notin> (bdf \<circ> snd) ` set ifs \<longrightarrow> dte_words (io_of st') (frame_addr s) b = dte_words (io_of st7) (frame_addr s) b)"
    by (rule Cons.IH [OF pre(1) pre'(1) pre(2) pre'(2-4) idx run])
  moreover have "entry_for (io_of st') (frame_addr s) (sg_slots g') i (bdf f)"
    using IH i w6 [of "bdf f"] by (simp add: entry_for_def sg up)
  ultimately show ?case using w6 i by (simp add: x sg up)
qed simp

lemma deny_fold_words:
  assumes "s + 512 \<le> 2 ^ 52"
  shows "dte_words (io_of (fold (deny_one (frame_addr s) w sls) fs st)) (frame_addr s) b =
    (if b \<in> bdf ` set fs \<and> bound_slot sls b = None then (w, of_nat MAX_DOMAINS) else dte_words (io_of st) (frame_addr s) b)"
proof (induction fs arbitrary: st)
  case (Cons f fs)
  have "list_ex (\<lambda>sl. ds_id sl \<noteq> 0 \<and> ds_bdf sl = bdf f) sls \<longleftrightarrow> bound_slot sls (bdf f) \<noteq> None"
    unfolding bound_slot_def position_not_None list_ex_iff ..
  then show ?case using Cons by (auto simp: deny_one_def write_dte_words [OF assms])
qed simp

lemma no_wrong_entry:
  assumes sg: "\<And>i. i < length sls \<Longrightarrow> ds_id (sls ! i) \<noteq> 0 \<Longrightarrow> dte_words (io_of st) dt (ds_bdf (sls ! i)) = (ds_w0 (sls ! i), of_nat i)"
    and un: "\<And>f. f \<in> set fs \<Longrightarrow> bound_slot sls (bdf f) = None \<Longrightarrow> dte_words (io_of st) dt (bdf f) = (w, of_nat MAX_DOMAINS)"
  shows "count_by (wrong_entry dt w sls st) fs = 0"
proof -
  have "\<not> wrong_entry dt w sls st f" if f: "f \<in> set fs" for f
  proof (cases "bound_slot sls (bdf f)")
    case None
    with un [OF f] show ?thesis by (simp add: wrong_entry_def load64_def dte_words_def)
  next
    case (Some i)
    then have "i < length sls" "ds_id (sls ! i) \<noteq> 0" "ds_bdf (sls ! i) = bdf f"
      using position_SomeD [of _ sls i] by (auto simp: bound_slot_def)
    with sg [of i] Some show ?thesis by (simp add: wrong_entry_def load64_def dte_words_def)
  qed
  then show ?thesis by (simp add: count_by_0)
qed

lemma room_mono: "room n a \<Longrightarrow> m \<le> n \<Longrightarrow> room m a"
  by (simp add: room_def)

lemma devices_distinct:
  assumes "distinct (map bdf fs)"
  shows "distinct (map bdf (devices cfg fs))"
proof -
  have d: "distinct fs" "inj_on bdf (set fs)" using assms by (simp_all add: distinct_map)
  then have "distinct (devices cfg fs)" unfolding devices_def by (intro distinct_take) auto
  moreover have "inj_on bdf (set (devices cfg fs))" using devices_facts(1) [of cfg fs] d(2) inj_on_subset by blast
  ultimately show ?thesis by (simp add: distinct_map)
qed

lemma enable_progress:
  assumes regs: "\<And>a v m. rd a (a_write64 A a v m) = v" and len: "length sls = MAX_DOMAINS" "length (k_slots (up_k st)) = MAX_DOMAINS"
    and low: "\<forall>i \<in> set [0..<MAX_DOMAINS]. ds_id (sls ! i) = 0 \<or> ds_bdf (sls ! i) < 0x100"
  shows "\<exists>st'. enable_unit A rd base sls st = (Inr (), st') \<and> k_slots (up_k st') = sls"
proof -
  let ?v = "mmio_read rd (base + 0x18) st OR IOMMU_EN OR EVENT_LOG_EN OR CMD_BUF_EN"
  let ?st = "mmio_write A (base + 0x18) ?v st"
  have "mmio_read rd (base + 0x18) ?st = ?v" by (simp add: mmio_read_def mmio_write_def upd_k_def upd_mach_def regs)
  moreover have "?v AND IOMMU_EN \<noteq> 0"
  proof -
    have "bit (?v AND IOMMU_EN) 0" by (simp add: bit_simps IOMMU_EN_def)
    then show ?thesis by auto
  qed
  moreover obtain r st' where p: "publish sls [0..<MAX_DOMAINS] ?st = (r, st')" by fastforce
  moreover have "k_slots (up_k st') = sls" "r = Inr ()"
    using publish_facts(3) [OF p low] len by (auto intro: nth_equalityI)
  ultimately show ?thesis by (simp add: enable_unit_def Let_def)
qed

lemma program_progress:
  assumes D: "s + 512 \<le> 2 ^ 52" "{s..<s + 512} \<inter> left st = {}" and inv: "ba_inv (up_fa st)" "left st \<subseteq> {..<2 ^ 40}"
    and len: "length (k_slots (up_k st)) = MAX_DOMAINS" and room: "room 7 (up_fa st)"
    and regs: "\<And>a v m. rd a (a_write64 A a v m) = v" and target: "target AND 0x10000 \<noteq> 0"
    and scan: "pci_enumerate cfg SCAN_FUNCTIONS = (fs, False, n)" and dev: "f0 \<in> set fs" "bindable cfg f0"
  shows "\<exists>st'. program_dte A rd cfg target base (frame_addr s) st = (Inr (), st') \<and> k_slots (up_k st') ! 0 \<noteq> DomainSlot_EMPTY"
proof -
  let ?ds = "devices cfg fs" let ?ifs = "List.enumerate 0 ?ds"
  note all = enumerate_facts(4) [OF scan]
  have "distinct (map bdf fs)" using all present_bdf_inj [of cfg] by (auto simp: distinct_map inj_on_def)
  then have dist: "distinct (map (bdf \<circ> snd) ?ifs)" using devices_distinct [of fs cfg] by (simp flip: map_map)
  have ne: "?ds \<noteq> []" using dev by (auto simp: devices_def filter_empty_conv MAX_DOMAINS_def)
  have idx: "\<forall>(i, f) \<in> set ?ifs. i < length (sg_slots Staging_EMPTY)"
    using devices_facts(2) [of cfg fs] by (auto simp: in_set_enumerate_eq Staging_EMPTY_def)
  obtain g st3 where b: "bind_devices (frame_addr s) ?ifs (Staging_EMPTY, st) = (g, st3)" by fastforce
  have "room (3 * length ?ifs + 1) (up_fa st)"
    using devices_facts(2) [of cfg fs] by (intro room_mono [OF room]) (simp add: MAX_DOMAINS_def)
  from bind_devices_progress [OF D inv this _ dist idx b]
  have g: "sg_live g = length ?ds" "room 1 (up_fa st3)" "length (sg_slots g) = MAX_DOMAINS"
    and entries: "\<And>i f. (i, f) \<in> set ?ifs \<Longrightarrow> entry_for (io_of st3) (frame_addr s) (sg_slots g) i (bdf f)"
    and rest: "\<And>i. length ?ds \<le> i \<Longrightarrow> i < MAX_DOMAINS \<Longrightarrow> sg_slots g ! i = DomainSlot_EMPTY"
    by (auto simp: Staging_EMPTY_def in_set_enumerate_eq image_iff)
  let ?Fs = "{f. present cfg f \<and> bindable cfg f}"
  have idx': "\<forall>(i, f) \<in> set ?ifs. i < MAX_DOMAINS \<and> f \<in> ?Fs"
  proof clarify
    fix i f assume "(i, f) \<in> set ?ifs"
    then have "i < length ?ds" "f \<in> set ?ds" by (auto simp: in_set_enumerate_eq)
    then show "i < MAX_DOMAINS \<and> f \<in> ?Fs" using devices_facts [of cfg fs] all by auto
  qed
  have sg0: "staged_ok (io_of st) (left st - left st) ?Fs (sg_slots Staging_EMPTY)" by (simp add: staged_ok_def Staging_EMPTY_def)
  note B = bind_devices_ok [OF D(1,2) inv(2,1) subset_refl sg0 idx' b]
  have inv3: "ba_inv (up_fa st3)" "left st3 \<subseteq> {..<2 ^ 40}" "{s..<s + 512} \<inter> left st3 = {}"
    using B inv D(2) unfolding touches_def by blast+
  have slot: "entry_for (io_of st3) (frame_addr s) (sg_slots g) i (ds_bdf (sg_slots g ! i)) \<and> ds_bdf (sg_slots g ! i) < 0x100"
    if "i < MAX_DOMAINS" "ds_id (sg_slots g ! i) \<noteq> 0" for i
  proof -
    have "i < length ?ds" using rest [OF _ that(1)] that(2) dslot_empty_id by (metis not_less)
    then have m: "(i, ?ds ! i) \<in> set ?ifs" by (simp add: in_set_enumerate_eq)
    from entries [OF m] idx' m bdf_root_bus present_range show ?thesis by (auto simp: entry_for_def bindable_def)
  qed
  obtain d st4 where z: "zeroed_frame st3 = (Some d, st4)"
    using zeroed_frame_room [OF inv3(1), of 0] g(2) by (cases "zeroed_frame st3") auto
  have t4: "touches {} st3 st4" "ba_inv (up_fa st4)" using zeroed_frame_touches [OF inv3(1,2), of "{}"] z by simp_all
  let ?w = "dte_word d"
  define st5 where "st5 = (fold (deny_one (frame_addr s) ?w (sg_slots g)) fs st4)\<lparr>up_deny_w0 := ?w\<rparr>"
  have w5: "dte_words (io_of st5) (frame_addr s) c =
      (if c \<in> bdf ` set fs \<and> bound_slot (sg_slots g) c = None then (?w, of_nat MAX_DOMAINS) else dte_words (io_of st3) (frame_addr s) c)" for c
    by (simp add: st5_def deny_fold_words [OF D(1)] touches_words [OF D(1) inv3(3) t4(1)])
  have "count_by (wrong_entry (frame_addr s) ?w (sg_slots g) st5) fs = 0"
  proof (rule no_wrong_entry)
    fix i assume i: "i < length (sg_slots g)" "ds_id (sg_slots g ! i) \<noteq> 0"
    then have "bound_slot (sg_slots g) (ds_bdf (sg_slots g ! i)) \<noteq> None"
      unfolding bound_slot_def position_not_None by (intro bexI [of _ "sg_slots g ! i"]) auto
    then show "dte_words (io_of st5) (frame_addr s) (ds_bdf (sg_slots g ! i)) = (ds_w0 (sg_slots g ! i), of_nat i)"
      using slot [of i] i by (auto simp: w5 entry_for_def g(3))
  qed (simp add: w5)
  moreover define st6 where "st6 = arm_command_buffer A rd base (arm_event_log A rd base st5)"
  moreover have "length (k_slots (up_k st6)) = MAX_DOMAINS"
  proof -
    have "touches {s..<s + 512} st4 st5" unfolding st5_def touches_fields by (rule touches_fold) (rule deny_touches [OF D(1)])
    moreover have fa: "up_fa st5 = up_fa st4" by (simp add: st5_def deny_fa)
    have b5: "ba_inv (up_fa st5)" "left st5 \<subseteq> {..<2 ^ 40}" using t4 inv3(2) unfolding fa touches_def by blast+
    have te: "touches {} st5 (arm_event_log A rd base st5)" by (rule arm_event_log_touches [OF b5])
    then have "ba_inv (up_fa (arm_event_log A rd base st5))" "left (arm_event_log A rd base st5) \<subseteq> {..<2 ^ 40}"
      using b5 unfolding touches_def by blast+
    then have "touches {} (arm_event_log A rd base st5) st6" unfolding st6_def by (rule arm_command_buffer_touches)
    ultimately show ?thesis using te t4(1) B len by (simp add: touches_def)
  qed
  moreover have "\<forall>i \<in> set [0..<MAX_DOMAINS]. ds_id (sg_slots g ! i) = 0 \<or> ds_bdf (sg_slots g ! i) < 0x100"
    using slot by (metis atLeastLessThan_iff set_upt)
  ultimately obtain st' where en: "enable_unit A rd base (sg_slots g) st6 = (Inr (), st')" "k_slots (up_k st') = sg_slots g"
    using enable_progress [OF regs g(3)] by blast
  have "(0, ?ds ! 0) \<in> set ?ifs" using ne by (simp add: in_set_enumerate_eq)
  from entries [OF this] have "sg_slots g ! 0 \<noteq> DomainSlot_EMPTY" by (auto simp: entry_for_def DomainSlot_EMPTY_def)
  moreover have "fs \<noteq> []" using dev by auto
  ultimately show ?thesis
    using en ne target g(1) \<open>count_by _ fs = 0\<close>
    by (intro exI [of _ st']) (simp add: program_dte_def scan b deny_and_enable_def z Let_def st5_def [symmetric] st6_def [symmetric])
qed

lemma install_progress:
  assumes "ba_inv (up_fa st)" and "\<forall>f \<in> free_frames (up_fa st). f < 2 ^ 40"
    and "k_slots (up_k st) = replicate MAX_DOMAINS DomainSlot_EMPTY"
    and "\<And>a v m. rd a (a_write64 A a v m) = v" and "target AND 0x10000 \<noteq> 0"
    and "pci_enumerate cfg SCAN_FUNCTIONS = (fs, False, n)" and "f0 \<in> set fs" and "f_bus f0 = 0" and "is_dma_capable cfg f0"
    and "alloc_contiguous DT_PAGES (up_fa st) = (Some dt, fa)" and "room 7 fa"
  shows "\<exists>st'. install_device_table A rd cfg target base st = (Inr (), st') \<and> k_slots (up_k st') ! 0 \<noteq> DomainSlot_EMPTY"
proof -
  obtain s where s: "dt = frame_addr s" "{s..<s + 512} \<subseteq> left st" "free_frames fa = left st - {s..<s + 512}" "ba_inv fa"
    using alloc_contiguous_Some [OF assms(1,10)] by (metis DT_PAGES_def)
  have "s + 511 \<in> left st" using s(2) by auto
  then have top: "s + 512 \<le> 2 ^ 52" using assms(2) by auto
  define st1 where "st1 = fold zero_at (map (\<lambda>i. frame_addr s + of_nat i * PAGE_SIZE) [0..<512]) (st\<lparr>up_fa := fa\<rparr>)"
  define val where "val = (dt AND IOPTE_ADDR) OR (of_nat DT_PAGES - 1)"
  define st2 where "st2 = mmio_write A base val st1"
  have "k_slots (up_k st1) = k_slots (up_k st)"
    using dt_zeroing [OF top refl, of "st\<lparr>up_fa := fa\<rparr>"] by (simp add: st1_def touches_def)
  then have st2: "up_fa st2 = fa" "k_slots (up_k st2) = k_slots (up_k st)" by (simp_all add: st2_def st1_def zero_fold_fa)
  have rb: "mmio_read rd base st2 = val" by (simp add: st2_def mmio_read_def mmio_write_def upd_k_def upd_mach_def assms(4))
  have "\<exists>st'. program_dte A rd cfg target base (frame_addr s) st2 = (Inr (), st') \<and> k_slots (up_k st') ! 0 \<noteq> DomainSlot_EMPTY"
    by (rule program_progress [OF top _ _ _ _ _ assms(4,5,6,7)])
      (use s(3,4) assms(2,3,8,9,11) in \<open>auto simp: st2 bindable_def\<close>)
  then show ?thesis
    using rb by (simp add: install_device_table_def assms(10) dt_fold Let_def)
      (simp add: s(1) st1_def [symmetric] st2_def val_def)
qed

section \<open>A demonstration machine\<close>

text \<open>A unit whose registers hold what is written to them, and 576 free frames.\<close>

definition reg_arch :: "(u64 \<Rightarrow> u64) Arch" where
  "reg_arch = \<lparr>a_user_stack_top = 0x80000000, a_user_stack_pages = 4, a_user_mmio_base = 0x50000000,
     a_user_share_base = 0x60000000, a_frame_words = 20, a_zero_frame = (\<lambda>_ m. m),
     a_create = (\<lambda>(rc, m). (Some 0x1000, rc, m)), a_share_kernel = (\<lambda>_ _ m. m),
     a_map_page = (\<lambda>_ _ _ _ (rc, m). (True, rc, m)), a_unmap_page = (\<lambda>_ _ m. m),
     a_load_user = (\<lambda>_ _ (rc, m). (Some 0x40000000, rc, m)),
     a_frame_init = (\<lambda>entry sp arg. [entry, sp, arg] @ replicate 37 0), a_frame_num = (\<lambda>f. f ! 0),
     a_frame_arg = (\<lambda>f i. f ! (i + 1)), a_set_ret = (\<lambda>v f. f[0 := v]), a_set_ret2 = (\<lambda>v f. f[1 := v]),
     a_set_ret3 = (\<lambda>v f. f[2 := v]), a_activate = (\<lambda>_ m. m), a_copy_to_user = (\<lambda>_ _ m. (True, m)),
     a_copy_from_user = (\<lambda>_ n _. Some (replicate n 0)), a_user_write_ok = (\<lambda>_ _ _. True),
     a_console_write = (\<lambda>_ m. m), a_console_irq_ack = (\<lambda>m. m), a_end_of_interrupt = (\<lambda>m. m),
     a_write64 = (\<lambda>a v m. m(a := v)), a_write32 = (\<lambda>_ _ m. m), a_poll64 = (\<lambda>_ _ m. (True, m))\<rparr>"

definition up_demo_fa :: BitmapAllocator where
  "up_demo_fa = \<lparr>bitmap = replicate 9 0, ba_total = 576, ba_free = 576, ba_cursor = 0, general_floor = 0, dma_top = 0, reserve_below = 0\<rparr>"

definition up_demo :: "(u64 \<Rightarrow> u64) BringUp" where
  "up_demo = \<lparr>up_fa = up_demo_fa, up_k = Kernel_statics (\<lambda>_. 0), up_pt_root = 0, up_l1 = None, up_dte = 0, up_dte_w0 = 0,
     up_deny_w0 = 0, up_event_log = 0\<rparr>"

lemma up_demo_free: "free_frames up_demo_fa = {..<576}"
  by (auto simp: free_frames_def is_used_bit up_demo_fa_def)

lemma up_demo_inv: "ba_inv (up_fa up_demo)"
  by (simp add: ba_inv_def ba_wf_def up_demo_def up_demo_free) (simp add: up_demo_fa_def)

lemma up_demo_dt: obtains fa where "alloc_contiguous DT_PAGES (up_fa up_demo) = (Some (frame_addr 0), fa)" "room 7 fa"
proof -
  have "\<not> is_used up_demo_fa f" if "f < 576" for f
    using that up_demo_free by (auto simp: free_frames_def)
  then have "find (is_used up_demo_fa) [0..<512] = None" by (auto simp: find_None_iff)
  then have sc: "contiguous_scan up_demo_fa 512 0 = Some 0"
    by (subst contiguous_scan.simps) (simp add: up_demo_fa_def)
  define a1 where "a1 = fold set_used [0..<512] up_demo_fa"
  have f1: "general_floor a1 = 0" "ba_free a1 = 576" "ba_cursor a1 = 0"
    unfolding a1_def fold_set_fields by (simp_all add: up_demo_fa_def)
  let ?a = "a1\<lparr>ba_free := 64, ba_cursor := 512\<rparr>"
  have al: "alloc_contiguous DT_PAGES (up_fa up_demo) = (Some (frame_addr 0), ?a)"
  proof -
    have "up_fa up_demo = up_demo_fa" "ba_total up_demo_fa = 576"
      "max (general_floor up_demo_fa) (unat (drop_bit PAGE_SHIFT (reserve_below up_demo_fa))) = 0"
      by (simp_all add: up_demo_def up_demo_fa_def)
    then show ?thesis
      unfolding alloc_contiguous_def DT_PAGES_def by (simp only: sc add_0 a1_def [symmetric] Let_def option.case) (simp add: f1)
  qed
  obtain s where s: "frame_addr 0 = frame_addr s" "{s..<s + 512} \<subseteq> {..<576}" "free_frames ?a = {..<576} - {s..<s + 512}"
    using alloc_contiguous_Some [OF up_demo_inv al] by (metis DT_PAGES_def up_demo_def BringUp.select_convs(1) up_demo_free)
  from s(2) have "s + 511 \<in> {..<576}" by (rule subsetD) simp
  then have "s = 0" using s(1) frame_addr_inj [of 0 s] by simp
  then have ff: "free_frames ?a = {512..<576}" unfolding s(3) by auto
  have "{f \<in> free_frames ?a. max (ba_cursor ?a) (general_floor ?a) \<le> f} = {512..<576}"
    unfolding ff by (auto simp: f1)
  then have "room 7 ?a" by (simp add: room_def)
  from that [OF al this] show ?thesis .
qed

lemma up_demo_hyps:
  "\<forall>f \<in> free_frames (up_fa up_demo). f < 2 ^ 40" "k_slots (up_k up_demo) = replicate MAX_DOMAINS DomainSlot_EMPTY"
  "(\<lambda>a (m :: u64 \<Rightarrow> u64). m a) b (a_write64 reg_arch b v m) = v" "(0x10010 :: u32) AND 0x10000 \<noteq> 0"
  "pci_enumerate pci_demo SCAN_FUNCTIONS = (demo_functions, False, 2)" "edu_function \<in> set demo_functions"
  "f_bus edu_function = 0" "is_dma_capable pci_demo edu_function"
  using pci_demo_functions
  by (simp_all add: up_demo_def up_demo_free Kernel_statics_def reg_arch_def SCAN_FUNCTIONS_def demo_functions_def edu_function_def
      is_dma_capable_def EDU_VENDOR_def EDU_DEVICE_def)

lemma pci_demo_bridge: "behind pci_demo 0 (1, 0) = {1}"
  by code_simp

lemma up_demo_run:
  obtains st' where "install_device_table reg_arch (\<lambda>a m. m a) pci_demo 0x10010 0xfed80000 up_demo = (Inr (), st')"
    "k_slots (up_k st') \<noteq> k_slots (up_k up_demo)"
proof -
  obtain fa where "alloc_contiguous DT_PAGES (up_fa up_demo) = (Some (frame_addr 0), fa)" "room 7 fa" by (rule up_demo_dt)
  from install_progress [OF up_demo_inv up_demo_hyps(1-8) this] obtain st' where
    st': "install_device_table reg_arch (\<lambda>a m. m a) pci_demo 0x10010 0xfed80000 up_demo = (Inr (), st')"
    "k_slots (up_k st') ! 0 \<noteq> DomainSlot_EMPTY" by blast
  then have "k_slots (up_k st') \<noteq> k_slots (up_k up_demo)" by (auto simp: up_demo_hyps(2) MAX_DOMAINS_def)
  with that st'(1) show ?thesis .
qed

section \<open>Properties\<close>

text \<open>
  (C6) The unit denies by default: if the boot publishes any domain, then at that moment the unit,
  going by its own registers, refuses every DMA of every function of the machine, on every bus a
  bridge leads to, whether bound to a domain or not, at any address and under any requester id the
  transfer may arrive with: the function's own, or that of a bridge in front of it. The hypothesis
  on the registers is that storing to one does not change another.
\<close>

theorem every_dma_is_refused_at_boot:
  assumes "ba_inv (up_fa st)" and "\<forall>f \<in> free_frames (up_fa st). f < 2 ^ 40"
    and "k_slots (up_k st) = replicate MAX_DOMAINS DomainSlot_EMPTY" and "registers_apart A rd base"
    and "install_device_table A rd cfg target base st = (r, st')" and "k_slots (up_k st') \<noteq> k_slots (up_k st)"
  shows "\<forall>f rid iova. present cfg f \<longrightarrow> requester cfg f rid \<longrightarrow> unit_dma rd base (up_k st') rid iova = Refused"
proof -
  obtain dt fa where al: "alloc_contiguous DT_PAGES (up_fa st) = (Some dt, fa)"
    and up: "brought_up rd base dt (fst (pci_enumerate cfg SCAN_FUNCTIONS)) {f. present cfg f \<and> bindable cfg f} (left st) st'"
    and all: "set (fst (pci_enumerate cfg SCAN_FUNCTIONS)) = {f. present cfg f}"
    by (rule install_facts [OF assms(1-3,5,6)]) blast
  have "unit_dma rd base (up_k st') rid iova = dma_reach (io_of st') (io_of st' (dte_at dt rid)) iova" for rid iova
    using unit_uses_table [OF assms(4,1,2,5,6) al] up by (simp add: brought_up_def)
  then show ?thesis using up all by (auto simp: brought_up_def dest!: requester_present)
qed

theorem every_dma_is_refused_at_boot_witness:
  "\<exists>st'. install_device_table reg_arch (\<lambda>a m. m a) pci_demo 0x10010 0xfed80000 up_demo = (Inr (), st')
     \<and> unit_dma (\<lambda>a m. m a) 0xfed80000 (up_k st') (bdf edu_function) 0x100000 = Refused
     \<and> requester pci_demo (demo_functions ! 3) 0x0008
     \<and> unit_dma (\<lambda>a m. m a) 0xfed80000 (up_k st') 0x0008 0x100000 = Refused"
proof -
  obtain st' where st': "install_device_table reg_arch (\<lambda>a m. m a) pci_demo 0x10010 0xfed80000 up_demo = (Inr (), st')"
    "k_slots (up_k st') \<noteq> k_slots (up_k up_demo)" by (rule up_demo_run)
  have all: "present pci_demo f" if "f \<in> set demo_functions" for f
    using enumerate_facts(3) [OF up_demo_hyps(5)] that by blast
  have p: "present pci_demo edu_function" "present pci_demo (demo_functions ! 3)" "present pci_demo (demo_functions ! 1)"
    using all up_demo_hyps(6) by (simp_all add: demo_functions_def)
  have "requester pci_demo (demo_functions ! 3) (bdf (demo_functions ! 1))"
    by (rule requester.forwarded [OF p(3) _ requester.own]) (simp add: demo_functions_def pci_demo_bridge)
  moreover have "bdf (demo_functions ! 1) = 0x0008" by (simp add: demo_functions_def bdf_def)
  ultimately have card: "requester pci_demo (demo_functions ! 3) 0x0008" by simp
  have "registers_apart reg_arch (\<lambda>a m. m a) 0xfed80000" by (simp add: registers_apart_def reg_arch_def)
  note refused = every_dma_is_refused_at_boot [OF up_demo_inv up_demo_hyps(1,2) this st']
  then show ?thesis using p card st'(1) requester.own by blast
qed

text \<open>
  (C7) A domain is published only when it bounds its device: the unit reports that it translates, and
  each domain slot is empty or belongs, under the identifier of its position, to a function of the
  root bus that is there and can master the bus, over a last-level table that is empty; no two
  domains share a table. The assertion on requester ids never fires.
\<close>

theorem published_domains_bound_their_devices:
  assumes "ba_inv (up_fa st)" and "\<forall>f \<in> free_frames (up_fa st). f < 2 ^ 40"
    and "k_slots (up_k st) = replicate MAX_DOMAINS DomainSlot_EMPTY"
    and "install_device_table A rd cfg target base st = (r, st')" and "k_slots (up_k st') \<noteq> k_slots (up_k st)"
  shows "r = Inr () \<and> rd (base + 0x18) (k_mach (up_k st')) AND IOMMU_EN \<noteq> 0
    \<and> (\<forall>i<MAX_DOMAINS. k_slots (up_k st') ! i = DomainSlot_EMPTY
         \<or> ds_id (k_slots (up_k st') ! i) = of_nat (i + 1)
           \<and> (\<exists>f. present cfg f \<and> f_bus f = 0 \<and> is_dma_capable cfg f \<and> ds_bdf (k_slots (up_k st') ! i) = bdf f)
           \<and> (\<forall>j<512. read_io (up_k st') (ds_l1 (k_slots (up_k st') ! i)) j = 0))
    \<and> (\<forall>i<MAX_DOMAINS. \<forall>j<MAX_DOMAINS. i \<noteq> j \<and> k_slots (up_k st') ! i \<noteq> DomainSlot_EMPTY
         \<and> k_slots (up_k st') ! j \<noteq> DomainSlot_EMPTY \<longrightarrow> ds_l1 (k_slots (up_k st') ! i) \<noteq> ds_l1 (k_slots (up_k st') ! j))"
proof -
  obtain dt where r: "r = Inr ()"
    and up: "brought_up rd base dt (fst (pci_enumerate cfg SCAN_FUNCTIONS)) {f. present cfg f \<and> bindable cfg f} (left st) st'"
    by (rule install_facts [OF assms]) blast
  have empty: "read_io (up_k st') (frame_addr l1) j = 0" if "chain3 (io_of st') ro l2 l1" "j < 512" for ro l2 l1 j
  proof -
    have "unat (of_nat j * 8 :: u64) = j * 8"
      using that(2) by (simp add: unat_of_nat take_bit_nat_eq_self unat_word_ariths)
    then have "pageno (frame_addr l1 + of_nat j * 8) = l1"
      using that by (intro pageno_frame) (simp_all add: chain3_def)
    then show ?thesis using that(1) by (simp add: read_io_def chain3_def empty_page_def)
  qed
  show ?thesis
    using r up empty by (auto simp: brought_up_def staged_ok_def slot_ok_def mmio_read_def bindable_def)
qed

theorem published_domains_bound_their_devices_witness:
  "\<exists>st'. install_device_table reg_arch (\<lambda>a m. m a) pci_demo 0x10010 0xfed80000 up_demo = (Inr (), st')
     \<and> k_mach (up_k st') 0xfed80018 AND IOMMU_EN \<noteq> 0"
proof -
  obtain st' where st': "install_device_table reg_arch (\<lambda>a m. m a) pci_demo 0x10010 0xfed80000 up_demo = (Inr (), st')"
    "k_slots (up_k st') \<noteq> k_slots (up_k up_demo)" by (rule up_demo_run)
  from published_domains_bound_their_devices [OF up_demo_inv up_demo_hyps(1,2) st'] st'(1) show ?thesis by auto
qed

text \<open>
  (C8) The bring-up succeeds where it can: with a unit whose registers take what is written, a device
  to bind, a scan that fits, a contiguous device table and seven frames more, it completes and
  publishes the first domain.
\<close>

theorem bring_up_publishes_a_domain:
  assumes "ba_inv (up_fa st)" and "\<forall>f \<in> free_frames (up_fa st). f < 2 ^ 40"
    and "k_slots (up_k st) = replicate MAX_DOMAINS DomainSlot_EMPTY"
    and "\<And>a v m. rd a (a_write64 A a v m) = v" and "target AND 0x10000 \<noteq> 0"
    and "pci_enumerate cfg SCAN_FUNCTIONS = (fs, False, n)" and "f0 \<in> set fs" and "f_bus f0 = 0" and "is_dma_capable cfg f0"
    and "alloc_contiguous DT_PAGES (up_fa st) = (Some dt, fa)" and "room 7 fa"
  shows "\<exists>st'. install_device_table A rd cfg target base st = (Inr (), st') \<and> k_slots (up_k st') ! 0 \<noteq> DomainSlot_EMPTY"
  by (rule install_progress [OF assms])

theorem bring_up_publishes_a_domain_witness:
  "\<exists>st'. install_device_table reg_arch (\<lambda>a m. m a) pci_demo 0x10010 0xfed80000 up_demo = (Inr (), st')
     \<and> k_slots (up_k st') ! 0 \<noteq> DomainSlot_EMPTY"
proof -
  obtain fa where "alloc_contiguous DT_PAGES (up_fa up_demo) = (Some (frame_addr 0), fa)" "room 7 fa" by (rule up_demo_dt)
  from bring_up_publishes_a_domain [OF up_demo_inv up_demo_hyps(1-8) this] show ?thesis .
qed

end
