(* ===== verification/Uaccess.thy ===== *)
theory Uaccess
  imports Vspace Vspace_Riscv Pages
begin

text \<open>
  How the kernel reaches user memory (\<open>user_ptr_ok\<close>, \<open>user_range_mapped\<close>, \<open>copy_to_user\<close>,
  \<open>copy_from_user\<close> in src/crates/kernel/src/arch_x86.rs and arch_riscv.rs). Both architectures have the
  same loop over their own page tables. The machine is the active root, the memory of the tables and the
  bytes of all other frames. A copy is byte by byte through the processor's translation, and the
  processor checks it: a copy that it refuses is a page fault in the kernel, the value None.
\<close>

record UMem =
  um_root :: u64
  um_tables :: ptmem
  um_bytes :: "u64 \<Rightarrow> u8"

section \<open>The code both architectures share\<close>

definition user_ptr_ok :: "u64 \<Rightarrow> u64 \<Rightarrow> u64 \<Rightarrow> usize \<Rightarrow> bool" where
  "user_ptr_ok base limit uptr n \<longleftrightarrow> n < 2 ^ 20 \<and> uptr \<ge> base
     \<and> (case checked_add uptr (of_nat n) of None \<Rightarrow> False | Some e \<Rightarrow> e \<le> limit)"

text \<open>The page loop; \<open>ok\<close> is the test of one page.\<close>

function pages_ok :: "(u64 \<Rightarrow> bool) \<Rightarrow> u64 \<Rightarrow> u64 \<Rightarrow> bool" where
  "pages_ok ok va e = (if va < e then ok va \<and> pages_ok ok (saturating_add va PAGE_SIZE) e else True)"
  by pat_completeness auto
termination
proof (relation "measure (\<lambda>(ok, va, e). unat e - unat va)")
  fix ok and va e :: u64
  assume "va < e"
  then have "unat va < unat e" by (simp add: word_less_nat_alt)
  moreover have "unat e < 2 ^ LENGTH(64)" by (rule unsigned_less)
  ultimately have "unat va < unat (saturating_add va PAGE_SIZE)"
    by (simp add: unat_saturating_add PAGE_SIZE_def)
  then show "((ok, saturating_add va PAGE_SIZE, e), ok, va, e) \<in> measure (\<lambda>(ok, va, e). unat e - unat va)"
    using \<open>unat va < unat e\<close> by simp
qed simp

declare pages_ok.simps [simp del]

definition range_mapped :: "u64 \<Rightarrow> u64 \<Rightarrow> (u64 \<Rightarrow> bool) \<Rightarrow> u64 \<Rightarrow> usize \<Rightarrow> bool" where
  "range_mapped base limit ok uptr n =
     (if \<not> user_ptr_ok base limit uptr n then False
      else if n = 0 then True
      else pages_ok ok (uptr AND NOT (PAGE_SIZE - 1)) (saturating_add uptr (of_nat n)))"

fun store_bytes :: "(u64 \<Rightarrow> u64 option) \<Rightarrow> u64 \<Rightarrow> u8 list \<Rightarrow> (u64 \<Rightarrow> u8) \<Rightarrow> (u64 \<Rightarrow> u8) option" where
  "store_bytes acc va [] ph = Some ph"
| "store_bytes acc va (b # bs) ph =
     (case acc va of None \<Rightarrow> None | Some pa \<Rightarrow> store_bytes acc (va + 1) bs (ph(pa := b)))"

fun load_bytes :: "(u64 \<Rightarrow> u64 option) \<Rightarrow> u64 \<Rightarrow> nat \<Rightarrow> (u64 \<Rightarrow> u8) \<Rightarrow> u8 list option" where
  "load_bytes acc va 0 ph = Some []"
| "load_bytes acc va (Suc n) ph =
     (case acc va of None \<Rightarrow> None | Some pa \<Rightarrow> map_option ((#) (ph pa)) (load_bytes acc (va + 1) n ph))"

definition copy_out_of :: "bool \<Rightarrow> (u64 \<Rightarrow> u64 option) \<Rightarrow> u64 \<Rightarrow> u8 list \<Rightarrow> UMem \<Rightarrow> (bool \<times> UMem) option" where
  "copy_out_of mapped acc uptr bytes m =
     (if \<not> mapped then Some (False, m)
      else map_option (\<lambda>ph. (True, m\<lparr>um_bytes := ph\<rparr>)) (store_bytes acc uptr bytes (um_bytes m)))"

definition copy_in_of :: "bool \<Rightarrow> (u64 \<Rightarrow> u64 option) \<Rightarrow> u64 \<Rightarrow> nat \<Rightarrow> UMem \<Rightarrow> u8 list option option" where
  "copy_in_of mapped acc uptr n m =
     (if \<not> mapped then Some None else map_option Some (load_bytes acc uptr n (um_bytes m)))"

section \<open>x86-64\<close>

definition X86_USER_BASE :: u64 where "X86_USER_BASE = 0x8000000000"
definition X86_USER_LIMIT :: u64 where "X86_USER_LIMIT = 0x8100000000"

definition x86_user_ptr_ok :: "u64 \<Rightarrow> usize \<Rightarrow> bool" where
  "x86_user_ptr_ok = user_ptr_ok X86_USER_BASE X86_USER_LIMIT"

text \<open>The space of a root token, the low bits of CR3 dropped.\<close>

definition x86_space :: "u64 \<Rightarrow> AddressSpace" where
  "x86_space token = AddressSpace_new (token AND 0x000ffffffffff000) 0"

definition x86_leaf_ok :: "UMem \<Rightarrow> bool \<Rightarrow> u64 \<Rightarrow> bool" where
  "x86_leaf_ok m need_write va =
     (let need = PageFlags_union PRESENT USER;
          need = (if need_write then PageFlags_union need WRITABLE else need)
      in case leaf_flags (x86_space (um_root m)) va (um_tables m) of None \<Rightarrow> False | Some f \<Rightarrow> PageFlags_contains f need)"

definition x86_range_mapped :: "UMem \<Rightarrow> bool \<Rightarrow> u64 \<Rightarrow> usize \<Rightarrow> bool" where
  "x86_range_mapped m need_write = range_mapped X86_USER_BASE X86_USER_LIMIT (x86_leaf_ok m need_write)"

text \<open>
  The processor's side: the permissions of an access are the ones every entry of the walk grants. User
  code needs the user bit, the kernel does not; both need the write bit (CR0.WP is set).
\<close>

fun x86_walk_flags :: "AddressSpace \<Rightarrow> VirtAddr \<Rightarrow> ptmem \<Rightarrow> nat list \<Rightarrow> PhysAddr \<Rightarrow> PageFlags option" where
  "x86_walk_flags sp va mem [] table_pa = None"
| "x86_walk_flags sp va mem (level # levels) table_pa =
     (let entry = read_entry sp mem table_pa (table_index va level)
      in if \<not> is_present entry then None
         else if level = 0 \<or> is_huge entry then Some (PTE_flags entry)
         else map_option (\<lambda>f. f AND PTE_flags entry) (x86_walk_flags sp va mem levels (PTE_addr entry)))"

definition x86_flags :: "UMem \<Rightarrow> u64 \<Rightarrow> PageFlags option" where
  "x86_flags m va = (let sp = x86_space (um_root m) in x86_walk_flags sp va (um_tables m) [3, 2, 1, 0] (pml4 sp))"

definition x86_access :: "PageFlags \<Rightarrow> UMem \<Rightarrow> bool \<Rightarrow> u64 \<Rightarrow> u64 option" where
  "x86_access who m write va =
     (let need = (if write then who OR WRITABLE else who)
      in case x86_flags m va of
           None \<Rightarrow> None
         | Some f \<Rightarrow> if PageFlags_contains f need then translate (x86_space (um_root m)) va (um_tables m) else None)"

definition x86_user_access :: "UMem \<Rightarrow> bool \<Rightarrow> u64 \<Rightarrow> u64 option" where
  "x86_user_access = x86_access USER"

definition x86_kernel_access :: "UMem \<Rightarrow> bool \<Rightarrow> u64 \<Rightarrow> u64 option" where
  "x86_kernel_access = x86_access 0"

definition x86_copy_to_user :: "u64 \<Rightarrow> u8 list \<Rightarrow> UMem \<Rightarrow> (bool \<times> UMem) option" where
  "x86_copy_to_user uptr bytes m =
     copy_out_of (x86_range_mapped m True uptr (length bytes)) (x86_kernel_access m True) uptr bytes m"

definition x86_copy_from_user :: "u64 \<Rightarrow> nat \<Rightarrow> UMem \<Rightarrow> u8 list option option" where
  "x86_copy_from_user uptr n m = copy_in_of (x86_range_mapped m False uptr n) (x86_kernel_access m False) uptr n m"

section \<open>RISC-V\<close>

definition RV_USER_BASE :: u64 where "RV_USER_BASE = 0x100000000"
definition RV_USER_LIMIT :: u64 where "RV_USER_LIMIT = 0x200000000"

definition rv_user_ptr_ok :: "u64 \<Rightarrow> usize \<Rightarrow> bool" where
  "rv_user_ptr_ok = user_ptr_ok RV_USER_BASE RV_USER_LIMIT"

definition rv_space :: "u64 \<Rightarrow> RvSpace" where
  "rv_space token = RvSpace_new (push_bit 12 (token AND (push_bit 44 1 - 1))) 0"

definition rv_leaf_ok :: "UMem \<Rightarrow> bool \<Rightarrow> u64 \<Rightarrow> bool" where
  "rv_leaf_ok m need_write va =
     (let need = RV_V OR RV_R OR RV_U; need = (if need_write then need OR RV_W else need)
      in case rv_leaf_flags (rv_space (um_root m)) va (um_tables m) of None \<Rightarrow> False | Some f \<Rightarrow> rv_contains f need)"

definition rv_range_mapped :: "UMem \<Rightarrow> bool \<Rightarrow> u64 \<Rightarrow> usize \<Rightarrow> bool" where
  "rv_range_mapped m need_write = range_mapped RV_USER_BASE RV_USER_LIMIT (rv_leaf_ok m need_write)"

text \<open>
  The processor's side: only the leaf has permissions, and a leaf that is writable but not readable is
  reserved and faults. User code needs U, the kernel reaches such pages since it runs with SUM set;
  accessed and dirty bits are the hardware's.
\<close>

definition rv_access :: "RvFlags \<Rightarrow> UMem \<Rightarrow> bool \<Rightarrow> u64 \<Rightarrow> u64 option" where
  "rv_access who m write va =
     (let sp = rv_space (um_root m); need = who OR RV_R; need = (if write then need OR RV_W else need)
      in case rv_leaf_flags sp va (um_tables m) of
           None \<Rightarrow> None
         | Some f \<Rightarrow> if rv_contains f need then rv_translate sp va (um_tables m) else None)"

definition rv_user_access :: "UMem \<Rightarrow> bool \<Rightarrow> u64 \<Rightarrow> u64 option" where
  "rv_user_access = rv_access RV_U"

definition rv_kernel_access :: "UMem \<Rightarrow> bool \<Rightarrow> u64 \<Rightarrow> u64 option" where
  "rv_kernel_access = rv_access 0"

definition rv_copy_to_user :: "u64 \<Rightarrow> u8 list \<Rightarrow> UMem \<Rightarrow> (bool \<times> UMem) option" where
  "rv_copy_to_user uptr bytes m =
     copy_out_of (rv_range_mapped m True uptr (length bytes)) (rv_kernel_access m True) uptr bytes m"

definition rv_copy_from_user :: "u64 \<Rightarrow> nat \<Rightarrow> UMem \<Rightarrow> u8 list option option" where
  "rv_copy_from_user uptr n m = copy_in_of (rv_range_mapped m False uptr n) (rv_kernel_access m False) uptr n m"

section \<open>The loops\<close>

lemma pages_ok_all:
  "is_page_aligned p \<Longrightarrow> unat e + 4096 \<le> 2 ^ 64 \<Longrightarrow>
   pages_ok ok p e \<longleftrightarrow> (\<forall>va. p \<le> va \<and> va < e \<longrightarrow> ok (page_of va))"
proof (induction ok p e rule: pages_ok.induct)
  case (1 ok p e)
  let ?p' = "saturating_add p PAGE_SIZE"
  show ?case
  proof (cases "p < e")
    case True
    then have lt: "unat p < unat e" by (simp add: word_less_nat_alt)
    then have p': "unat ?p' = unat p + 4096"
      using 1(3) by (simp add: unat_saturating_add PAGE_SIZE_def)
    then have "is_page_aligned ?p'" using 1(2) by (simp add: aligned_mod)
    then have ih: "pages_ok ok ?p' e \<longleftrightarrow> (\<forall>va. ?p' \<le> va \<and> va < e \<longrightarrow> ok (page_of va))"
      using 1(1) [OF True _ 1(3)] by blast
    have "(\<forall>va. p \<le> va \<and> va < e \<longrightarrow> ok (page_of va)) \<longleftrightarrow> ok p \<and> (\<forall>va. ?p' \<le> va \<and> va < e \<longrightarrow> ok (page_of va))"
    proof
      assume a: "\<forall>va. p \<le> va \<and> va < e \<longrightarrow> ok (page_of va)"
      have "page_of p = p" using page_of_eq [OF 1(2)] by simp
      then have "ok p" using a True by (metis order_refl)
      moreover have "p \<le> va" if "?p' \<le> va" for va using that p' by (simp add: word_le_nat_alt)
      ultimately show "ok p \<and> (\<forall>va. ?p' \<le> va \<and> va < e \<longrightarrow> ok (page_of va))" using a by blast
    next
      assume a: "ok p \<and> (\<forall>va. ?p' \<le> va \<and> va < e \<longrightarrow> ok (page_of va))"
      have "ok (page_of va)" if v: "p \<le> va" "va < e" for va
      proof (cases "?p' \<le> va")
        case False
        then have "page_of va = p" using v p' by (simp add: page_of_eq [OF 1(2)] word_le_nat_alt)
        then show ?thesis using a by simp
      qed (use a v in blast)
      then show "\<forall>va. p \<le> va \<and> va < e \<longrightarrow> ok (page_of va)" by blast
    qed
    then show ?thesis using True ih by (subst pages_ok.simps) simp
  next
    case False
    then show ?thesis by (subst pages_ok.simps) auto
  qed
qed

lemma unat_of_small: "n < 2 ^ 20 \<Longrightarrow> unat (of_nat n :: u64) = n"
proof -
  assume "n < 2 ^ 20"
  then have "n < 2 ^ 64" by simp
  then show ?thesis by (simp only: unat_of_nat) (simp add: take_bit_nat_eq_self)
qed

lemma user_ptr_ok_iff:
  "user_ptr_ok base limit uptr n \<longleftrightarrow> n < 2 ^ 20 \<and> base \<le> uptr \<and> unat uptr + n \<le> unat limit"
proof (cases "n < 2 ^ 20")
  case True
  then have n: "unat (of_nat n :: u64) = n" by (rule unat_of_small)
  have lim: "unat limit < 2 ^ 64" using unsigned_less [of limit] by simp
  show ?thesis
  proof (cases "unat uptr + n < 2 ^ 64")
    case True
    then have "checked_add uptr (of_nat n) = Some (uptr + of_nat n)" "unat (uptr + of_nat n) = unat uptr + n"
      using n by (simp_all add: checked_add_def unat_word_ariths)
    then show ?thesis by (auto simp: user_ptr_ok_def word_le_nat_alt)
  next
    case False
    then have "checked_add uptr (of_nat n) = None" using n by (simp add: checked_add_def)
    then show ?thesis using False lim by (simp add: user_ptr_ok_def)
  qed
qed (simp add: user_ptr_ok_def)

lemma unat_add_small: "unat (va :: u64) + i < 2 ^ 64 \<Longrightarrow> unat (va + of_nat i) = unat va + i"
  by (simp add: unat_word_ariths unat_of_nat)

text \<open>The whole range check is a check of every byte, where the test of an address is one of its page.\<close>

lemma range_mapped_iff:
  assumes "unat limit + 4096 \<le> 2 ^ 64" and "\<And>va. ok (page_of va) = ok va"
  shows "range_mapped base limit ok uptr n
    \<longleftrightarrow> n < 2 ^ 20 \<and> base \<le> uptr \<and> unat uptr + n \<le> unat limit \<and> (\<forall>i < n. ok (uptr + of_nat i))"
proof (cases "user_ptr_ok base limit uptr n \<and> n \<noteq> 0")
  case True
  then have w: "n < 2 ^ 20" "base \<le> uptr" "unat uptr + n \<le> unat limit" "n \<noteq> 0" by (auto simp: user_ptr_ok_iff)
  let ?e = "saturating_add uptr (of_nat n)"
  have "unat (of_nat n :: u64) = n" using w(1) by (rule unat_of_small)
  then have e: "unat ?e = unat uptr + n" using w assms(1) by (simp add: unat_saturating_add)
  have off: "unat (uptr + of_nat i) = unat uptr + i" if "i < n" for i
    using that w(3) assms(1) by (intro unat_add_small) linarith
  have "(\<forall>va. page_of uptr \<le> va \<and> va < ?e \<longrightarrow> ok (page_of va)) \<longleftrightarrow> (\<forall>i < n. ok (uptr + of_nat i))"
  proof
    assume a: "\<forall>va. page_of uptr \<le> va \<and> va < ?e \<longrightarrow> ok (page_of va)"
    show "\<forall>i < n. ok (uptr + of_nat i)"
    proof (intro allI impI)
      fix i assume i: "i < n"
      then have "page_of uptr \<le> uptr + of_nat i \<and> uptr + of_nat i < ?e"
        using off [OF i] e page_of_le(1) [of uptr] by (simp add: word_le_nat_alt word_less_nat_alt)
      then show "ok (uptr + of_nat i)" using a assms(2) by blast
    qed
  next
    assume a: "\<forall>i < n. ok (uptr + of_nat i)"
    show "\<forall>va. page_of uptr \<le> va \<and> va < ?e \<longrightarrow> ok (page_of va)"
    proof (intro allI impI)
      fix va assume v: "page_of uptr \<le> va \<and> va < ?e"
      show "ok (page_of va)"
      proof (cases "uptr \<le> va")
        case True
        define i where "i = unat va - unat uptr"
        have i: "i < n" "unat uptr + i = unat va"
          using True v e by (auto simp: i_def word_le_nat_alt word_less_nat_alt)
        then have "uptr + of_nat i = va" using off [OF i(1)] by (metis unsigned_word_eqI)
        then show ?thesis using a i(1) assms(2) by blast
      next
        case False
        then have "unat (page_of uptr) \<le> unat va \<and> unat va < unat (page_of uptr) + 4096"
          using v page_of_le(2,3) [of uptr] by (simp add: word_le_nat_alt)
        then have "page_of va = page_of uptr" using page_of_eq [OF page_of_aligned] by blast
        moreover have "ok uptr" using a [rule_format, of 0] w(4) by simp
        ultimately show ?thesis using assms(2) [of uptr] by simp
      qed
    qed
  qed
  moreover have "unat ?e + 4096 \<le> 2 ^ 64" using e w(3) assms(1) by linarith
  ultimately show ?thesis
    using True w pages_ok_all [OF page_of_aligned, of ?e ok uptr] by (simp add: range_mapped_def page_of_def)
qed (auto simp: range_mapped_def user_ptr_ok_iff)

text \<open>A run of bytes through the translation.\<close>

lemma store_bytes_total:
  "(\<forall>i < length bs. acc (va + of_nat i) \<noteq> None) \<Longrightarrow> \<exists>ph'. store_bytes acc va bs ph = Some ph'"
proof (induction bs arbitrary: va ph)
  case (Cons b bs)
  have "acc va \<noteq> None" using Cons.prems [rule_format, of 0] by simp
  moreover have "\<forall>i < length bs. acc (va + 1 + of_nat i) \<noteq> None"
    using Cons.prems [rule_format, of "Suc i" for i] by (simp add: add.assoc)
  ultimately show ?case using Cons.IH by auto
qed simp

lemma store_bytes_frame:
  "store_bytes acc va bs ph = Some ph' \<Longrightarrow> (\<forall>i < length bs. acc (va + of_nat i) \<noteq> Some pa) \<Longrightarrow> ph' pa = ph pa"
proof (induction bs arbitrary: va ph)
  case (Cons b bs)
  obtain q where q: "acc va = Some q" "store_bytes acc (va + 1) bs (ph(q := b)) = Some ph'"
    using Cons.prems(1) by (auto split: option.splits)
  have "\<forall>i < length bs. acc (va + 1 + of_nat i) \<noteq> Some pa"
    using Cons.prems(2) [rule_format, of "Suc i" for i] by (simp add: add.assoc)
  moreover have "q \<noteq> pa" using Cons.prems(2) [rule_format, of 0] q(1) by auto
  ultimately show ?case using Cons.IH [OF q(2)] by simp
qed simp

text \<open>A byte of memory holds what the last of the bytes stored there says.\<close>

lemma store_bytes_at:
  assumes "store_bytes acc va bs ph = Some ph'" and "i < length bs" and "acc (va + of_nat i) = Some pa"
    and "\<forall>j < length bs. i < j \<longrightarrow> acc (va + of_nat j) \<noteq> Some pa"
  shows "ph' pa = bs ! i"
  using assms
proof (induction bs arbitrary: va ph i)
  case (Cons b bs)
  obtain q where q: "acc va = Some q" "store_bytes acc (va + 1) bs (ph(q := b)) = Some ph'"
    using Cons.prems(1) by (auto split: option.splits)
  have shift: "va + 1 + of_nat j = va + of_nat (Suc j)" for j by (simp add: add.assoc)
  have later: "\<forall>j < length bs. i < Suc j \<longrightarrow> acc (va + 1 + of_nat j) \<noteq> Some pa"
    unfolding shift using Cons.prems(4) [rule_format, of "Suc j" for j] by simp
  show ?case
  proof (cases i)
    case 0
    then have "ph' pa = (ph(q := b)) pa" using later by (intro store_bytes_frame [OF q(2)]) simp
    then show ?thesis using 0 q(1) Cons.prems(3) by simp
  next
    case (Suc k)
    have "ph' pa = bs ! k"
      using Cons.prems(2,3) later by (intro Cons.IH [OF q(2)]) (simp_all add: Suc shift)
    then show ?thesis by (simp add: Suc)
  qed
qed simp

lemma load_bytes_map:
  "(\<forall>i < n. acc (va + of_nat i) = Some (pa i)) \<Longrightarrow> load_bytes acc va n ph = Some (map (\<lambda>i. ph (pa i)) [0..<n])"
proof (induction n arbitrary: va pa)
  case (Suc n)
  have "acc va = Some (pa 0)" using Suc.prems [rule_format, of 0] by simp
  moreover have "load_bytes acc (va + 1) n ph = Some (map (\<lambda>i. ph (pa (Suc i))) [0..<n])"
    using Suc.prems [rule_format, of "Suc i" for i] by (intro Suc.IH) (simp add: add.assoc)
  ultimately show ?case by (simp add: upt_conv_Cons map_Suc_upt [symmetric] del: upt_Suc)
qed simp

section \<open>What both architectures promise\<close>

text \<open>
  \<open>leaf\<close> is the kernel's test of a page, \<open>kacc\<close> and \<open>uacc\<close> are the processor's checked translations
  for the kernel and for user code, in the machines that are \<open>good\<close>.
\<close>

locale user_window =
  fixes good :: "UMem \<Rightarrow> bool"
    and base limit :: u64
    and leaf :: "UMem \<Rightarrow> bool \<Rightarrow> u64 \<Rightarrow> bool"
    and kacc uacc :: "UMem \<Rightarrow> bool \<Rightarrow> u64 \<Rightarrow> u64 option"
  assumes room: "unat limit + 4096 \<le> 2 ^ 64"
    and page: "leaf m w (page_of va) = leaf m w va"
    and sound: "good m \<Longrightarrow> base \<le> va \<Longrightarrow> va < limit \<Longrightarrow> leaf m w va \<Longrightarrow> \<exists>pa. kacc m w va = Some pa \<and> uacc m w va = Some pa"
    and complete: "uacc m w va = Some pa \<Longrightarrow> leaf m w va"
    and read_too: "leaf m True va \<Longrightarrow> leaf m False va"
    and same_place: "kacc m True va = Some pa \<Longrightarrow> kacc m False va = Some pa"
    and bytes: "leaf (m\<lparr>um_bytes := ph\<rparr>) w va = leaf m w va" "kacc (m\<lparr>um_bytes := ph\<rparr>) w va = kacc m w va"
begin

abbreviation mapped :: "UMem \<Rightarrow> bool \<Rightarrow> u64 \<Rightarrow> usize \<Rightarrow> bool" where
  "mapped m w \<equiv> range_mapped base limit (leaf m w)"

abbreviation in_window :: "u64 \<Rightarrow> usize \<Rightarrow> bool" where
  "in_window uptr n \<equiv> n < 2 ^ 20 \<and> base \<le> uptr \<and> unat uptr + n \<le> unat limit"

lemma mapped_iff: "mapped m w uptr n \<longleftrightarrow> in_window uptr n \<and> (\<forall>i < n. leaf m w (uptr + of_nat i))"
  using range_mapped_iff [OF room, of "leaf m w" base uptr n] page by blast

lemma byte_in_window: "in_window uptr n \<Longrightarrow> i < n \<Longrightarrow> base \<le> uptr + of_nat i \<and> uptr + of_nat i < limit"
proof -
  assume a: "in_window uptr n" "i < n"
  then have "unat (uptr + of_nat i) = unat uptr + i" using room by (intro unat_add_small) linarith
  then show ?thesis using a by (simp add: word_le_nat_alt word_less_nat_alt)
qed

lemma mapped_user_access:
  assumes "good m"
  shows "mapped m w uptr n \<longleftrightarrow> in_window uptr n \<and> (\<forall>i < n. uacc m w (uptr + of_nat i) \<noteq> None)"
  unfolding mapped_iff using sound [OF assms] complete byte_in_window by (metis not_None_eq option.discI)

lemma mapped_places:
  assumes "good m" and "mapped m w uptr n" and "i < n"
  shows "\<exists>pa. kacc m w (uptr + of_nat i) = Some pa \<and> uacc m w (uptr + of_nat i) = Some pa"
  using assms(2,3) byte_in_window [of n uptr i] unfolding mapped_iff by (intro sound [OF assms(1)]) simp_all

text \<open>
  A copy never faults, is refused or done as a whole, leaves every byte at its place in memory (the last
  of those that share one) and touches only what user code could write itself.
\<close>

lemma copy_out:
  assumes "good m"
  shows "\<exists>ok m'. copy_out_of (mapped m True uptr (length bs)) (kacc m True) uptr bs m = Some (ok, m')
    \<and> (ok \<longleftrightarrow> in_window uptr (length bs) \<and> (\<forall>i < length bs. uacc m True (uptr + of_nat i) \<noteq> None))
    \<and> um_root m' = um_root m \<and> um_tables m' = um_tables m \<and> (\<not> ok \<longrightarrow> m' = m)
    \<and> (ok \<longrightarrow> (\<forall>i < length bs. \<forall>pa. uacc m True (uptr + of_nat i) = Some pa
         \<and> (\<forall>j < length bs. i < j \<longrightarrow> uacc m True (uptr + of_nat j) \<noteq> Some pa) \<longrightarrow> um_bytes m' pa = bs ! i))
    \<and> (\<forall>pa. um_bytes m' pa \<noteq> um_bytes m pa \<longrightarrow> (\<exists>i < length bs. uacc m True (uptr + of_nat i) = Some pa))"
proof (cases "mapped m True uptr (length bs)")
  case True
  note pl = mapped_places [OF assms True]
  then obtain ph where ph: "store_bytes (kacc m True) uptr bs (um_bytes m) = Some ph"
    using store_bytes_total [of bs "kacc m True"] by blast
  have "\<exists>i < length bs. uacc m True (uptr + of_nat i) = Some pa" if d: "ph pa \<noteq> um_bytes m pa" for pa
  proof -
    obtain i where "i < length bs" "kacc m True (uptr + of_nat i) = Some pa" using store_bytes_frame [OF ph, of pa] d by blast
    then show ?thesis using pl by fastforce
  qed
  moreover have "ph pa = bs ! i" if i: "i < length bs" "uacc m True (uptr + of_nat i) = Some pa"
    "\<forall>j < length bs. i < j \<longrightarrow> uacc m True (uptr + of_nat j) \<noteq> Some pa" for i pa
    using i pl by (intro store_bytes_at [OF ph i(1)]) force+
  moreover have "copy_out_of True (kacc m True) uptr bs m = Some (True, m\<lparr>um_bytes := ph\<rparr>)" by (simp add: copy_out_of_def ph)
  ultimately show ?thesis
    using True mapped_user_access [OF assms, of True uptr "length bs"]
    by (intro exI [of _ True] exI [of _ "m\<lparr>um_bytes := ph\<rparr>"]) simp
next
  case False
  then have "\<not> (in_window uptr (length bs) \<and> (\<forall>i < length bs. uacc m True (uptr + of_nat i) \<noteq> None))"
    using mapped_user_access [OF assms, of True uptr "length bs"] by blast
  then show ?thesis using False by (intro exI [of _ False] exI [of _ m]) (simp add: copy_out_of_def)
qed

lemma copy_in:
  assumes "good m"
  shows "\<exists>r. copy_in_of (mapped m False uptr n) (kacc m False) uptr n m = Some r
    \<and> r = (if in_window uptr n \<and> (\<forall>i < n. uacc m False (uptr + of_nat i) \<noteq> None)
           then Some (map (\<lambda>i. um_bytes m (the (uacc m False (uptr + of_nat i)))) [0..<n]) else None)"
proof (cases "mapped m False uptr n")
  case True
  have "kacc m False (uptr + of_nat i) = Some (the (uacc m False (uptr + of_nat i)))" if "i < n" for i
    using mapped_places [OF assms True that] by auto
  then have "load_bytes (kacc m False) uptr n (um_bytes m) = Some (map (\<lambda>i. um_bytes m (the (uacc m False (uptr + of_nat i)))) [0..<n])"
    by (intro load_bytes_map) blast
  then show ?thesis using True mapped_user_access [OF assms, of False uptr n] by (simp add: copy_in_of_def)
next
  case False
  then show ?thesis using mapped_user_access [OF assms, of False uptr n] by (auto simp: copy_in_of_def)
qed

lemma copy_back:
  assumes "good m" and "copy_out_of (mapped m True uptr (length bs)) (kacc m True) uptr bs m = Some (True, m')"
    and "inj_on (\<lambda>i. uacc m True (uptr + of_nat i)) {..<length bs}"
  shows "copy_in_of (mapped m' False uptr (length bs)) (kacc m' False) uptr (length bs) m' = Some (Some bs)"
proof -
  have t: "mapped m True uptr (length bs)"
    using assms(2) by (auto simp: copy_out_of_def split: if_splits)
  then obtain ph where ph: "store_bytes (kacc m True) uptr bs (um_bytes m) = Some ph" "m' = m\<lparr>um_bytes := ph\<rparr>"
    using assms(2) by (auto simp: copy_out_of_def)
  note pl = mapped_places [OF assms(1) t]
  define pa where "pa i = the (kacc m True (uptr + of_nat i))" for i
  have pa: "kacc m True (uptr + of_nat i) = Some (pa i)" "uacc m True (uptr + of_nat i) = Some (pa i)" if "i < length bs" for i
    using pl [OF that] by (auto simp: pa_def)
  have "ph (pa i) = bs ! i" if i: "i < length bs" for i
  proof (rule store_bytes_at [OF ph(1) i pa(1) [OF i]])
    show "\<forall>j < length bs. i < j \<longrightarrow> kacc m True (uptr + of_nat j) \<noteq> Some (pa i)"
      using pa i assms(3) by (auto simp: inj_on_def)
  qed
  then have "map (\<lambda>i. ph (pa i)) [0..<length bs] = bs" by (auto intro: nth_equalityI)
  moreover have "load_bytes (kacc m' False) uptr (length bs) ph = Some (map (\<lambda>i. ph (pa i)) [0..<length bs])"
    using pa(1) same_place by (intro load_bytes_map) (simp add: ph(2) bytes)
  moreover have "mapped m' False uptr (length bs)"
    using t read_too unfolding mapped_iff ph(2) bytes by blast
  ultimately show ?thesis by (simp add: copy_in_of_def ph(2))
qed

end

section \<open>The x86-64 walk\<close>

text \<open>Every link above the leaf of an address grants what a leaf may: it is writable and for user code.\<close>

fun x86_path_open :: "AddressSpace \<Rightarrow> VirtAddr \<Rightarrow> ptmem \<Rightarrow> nat list \<Rightarrow> PhysAddr \<Rightarrow> bool" where
  "x86_path_open sp va mem [] table_pa = True"
| "x86_path_open sp va mem (level # levels) table_pa =
     (let entry = read_entry sp mem table_pa (table_index va level)
      in if \<not> is_present entry \<or> level = 0 \<or> is_huge entry then True
         else bit entry 1 \<and> bit entry 2 \<and> x86_path_open sp va mem levels (PTE_addr entry))"

definition x86_links_open :: "UMem \<Rightarrow> bool" where
  "x86_links_open m \<longleftrightarrow> (\<forall>va. X86_USER_BASE \<le> va \<and> va < X86_USER_LIMIT \<longrightarrow>
     x86_path_open (x86_space (um_root m)) va (um_tables m) [3, 2, 1, 0] (pml4 (x86_space (um_root m))))"

definition access_bits :: "bool \<Rightarrow> bool \<Rightarrow> u64 \<Rightarrow> bool" where
  "access_bits user write f \<longleftrightarrow> (user \<longrightarrow> bit f 2) \<and> (write \<longrightarrow> bit f 1)"

lemma contains_bit: "bit b i \<Longrightarrow> PageFlags_contains f b \<Longrightarrow> bit f i"
  by (metis PageFlags_contains_def bit_and_iff)

lemma contains_iff: "PageFlags_contains f b \<longleftrightarrow> (\<forall>i. bit b i \<longrightarrow> bit f i)"
proof
  assume "\<forall>i. bit b i \<longrightarrow> bit f i"
  then show "PageFlags_contains f b"
    unfolding PageFlags_contains_def by (intro bit_eqI) (auto simp: bit_and_iff)
qed (auto dest: contains_bit)

lemma x86_flag_bits: "bit PRESENT i \<longleftrightarrow> i = 0" "bit WRITABLE i \<longleftrightarrow> i = 1" "bit USER i \<longleftrightarrow> i = 2"
  unfolding PRESENT_def WRITABLE_def USER_def push_bit_of_1 bit_exp_iff possible_bit_word by auto

lemma PTE_flags_low: "i < 12 \<Longrightarrow> bit (PTE_flags e) i \<longleftrightarrow> bit e i"
  by (auto simp: PTE_flags_def FLAG_MASK_def bit_and_iff bit_not_iff ADDR_MASK_bit)

lemma x86_walk_below:
  "x86_walk_flags sp va mem levels t = Some f \<Longrightarrow> \<exists>g. leaf_flags_walk sp va mem levels t = Some g \<and> (\<forall>i. bit f i \<longrightarrow> bit g i)"
  by (induction levels arbitrary: t f) (fastforce simp: Let_def bit_and_iff split: if_splits)+

lemma x86_walk_present: "leaf_flags_walk sp va mem levels t = Some g \<Longrightarrow> bit g 0"
  by (induction levels arbitrary: t) (auto simp: Let_def PTE_flags_low is_present_bit split: if_splits)

lemma leaf_flags_present: "leaf_flags sp va mem = Some g \<Longrightarrow> bit g 0"
  unfolding leaf_flags_def by (rule x86_walk_present)

lemma x86_walk_open:
  "leaf_flags_walk sp va mem levels t = Some g \<Longrightarrow> x86_path_open sp va mem levels t \<Longrightarrow>
   \<exists>f. x86_walk_flags sp va mem levels t = Some f \<and> (\<forall>user write. access_bits user write f = access_bits user write g)"
  by (induction levels arbitrary: t) (fastforce simp: Let_def bit_and_iff PTE_flags_low access_bits_def split: if_splits)+

lemma leaf_translates: "leaf_flags sp va mem = Some g \<Longrightarrow> \<exists>pa. translate sp va mem = Some pa"
  unfolding leaf_flags_eq translate_eq by (auto simp: decode_def Let_def split: prod.splits if_splits)

lemma x86_leaf_ok_bits:
  "x86_leaf_ok m w va \<longleftrightarrow> (\<exists>g. leaf_flags (x86_space (um_root m)) va (um_tables m) = Some g \<and> access_bits True w g)"
proof -
  have "PageFlags_contains g (if w then PageFlags_union (PageFlags_union PRESENT USER) WRITABLE else PageFlags_union PRESENT USER)
    \<longleftrightarrow> bit g 0 \<and> access_bits True w g" for g
    by (auto simp: contains_iff PageFlags_union_def bit_or_iff x86_flag_bits access_bits_def)
  then show ?thesis
    unfolding x86_leaf_ok_def Let_def by (auto split: option.splits dest: leaf_flags_present)
qed

lemma x86_access_bits:
  "x86_access (if user then USER else 0) m w va =
     (case x86_flags m va of
        None \<Rightarrow> None | Some f \<Rightarrow> if access_bits user w f then translate (x86_space (um_root m)) va (um_tables m) else None)"
  by (cases user; cases w)
    (auto simp: contains_iff bit_or_iff x86_flag_bits access_bits_def x86_access_def split: option.split)

lemma table_index_page: "table_index (page_of va) l = table_index va l"
  unfolding table_index_eq by (simp add: page_of_bit)

lemma leaf_flags_page: "leaf_flags sp (page_of va) mem = leaf_flags sp va mem"
  by (simp add: leaf_flags_def table_index_page Let_def)

lemmas x86_accesses = x86_access_bits [of True, simplified if_True] x86_access_bits [of False, simplified if_False]

interpretation x86_user: user_window x86_links_open X86_USER_BASE X86_USER_LIMIT x86_leaf_ok x86_kernel_access x86_user_access
proof
  fix m :: UMem and w :: bool and va pa :: u64 and ph :: "u64 \<Rightarrow> u8"
  let ?sp = "x86_space (um_root m)"
  show "unat X86_USER_LIMIT + 4096 \<le> 2 ^ 64" by (simp add: X86_USER_LIMIT_def)
  show "x86_leaf_ok m w (page_of va) = x86_leaf_ok m w va" by (simp add: x86_leaf_ok_def leaf_flags_page)
  show "x86_leaf_ok m True va \<Longrightarrow> x86_leaf_ok m False va" by (auto simp: x86_leaf_ok_bits access_bits_def)
  show "x86_kernel_access m True va = Some pa \<Longrightarrow> x86_kernel_access m False va = Some pa"
    unfolding x86_kernel_access_def x86_accesses by (auto simp: access_bits_def split: option.splits if_splits)
  show "x86_leaf_ok (m\<lparr>um_bytes := ph\<rparr>) w va = x86_leaf_ok m w va" "x86_kernel_access (m\<lparr>um_bytes := ph\<rparr>) w va = x86_kernel_access m w va"
    by (simp_all add: x86_leaf_ok_bits x86_kernel_access_def x86_accesses x86_flags_def split: option.split)
  show "x86_leaf_ok m w va" if u: "x86_user_access m w va = Some pa"
  proof -
    obtain f where f: "x86_flags m va = Some f" "access_bits True w f"
      using u by (auto simp: x86_user_access_def x86_accesses split: option.splits if_splits)
    then obtain g where "leaf_flags ?sp va (um_tables m) = Some g" "\<forall>i. bit f i \<longrightarrow> bit g i"
      using x86_walk_below unfolding x86_flags_def leaf_flags_def Let_def by blast
    with f(2) show ?thesis by (auto simp: x86_leaf_ok_bits access_bits_def)
  qed
  show "\<exists>pa. x86_kernel_access m w va = Some pa \<and> x86_user_access m w va = Some pa"
    if u: "x86_links_open m" "X86_USER_BASE \<le> va" "va < X86_USER_LIMIT" "x86_leaf_ok m w va"
  proof -
    obtain g where g: "leaf_flags ?sp va (um_tables m) = Some g" "access_bits True w g" using u(4) by (auto simp: x86_leaf_ok_bits)
    then obtain pa where "translate ?sp va (um_tables m) = Some pa" using leaf_translates by blast
    moreover obtain f where "x86_flags m va = Some f"
        "\<forall>user write. access_bits user write f = access_bits user write g"
      using x86_walk_open g(1) u(1-3) unfolding x86_links_open_def leaf_flags_def x86_flags_def Let_def by blast
    moreover have "access_bits False w g" using g(2) by (simp add: access_bits_def)
    ultimately show ?thesis using g(2) by (simp add: x86_kernel_access_def x86_user_access_def x86_accesses)
  qed
qed

section \<open>The Sv39 walk\<close>

lemma rv_flag_bits: "bit RV_R i \<longleftrightarrow> i = 1" "bit RV_W i \<longleftrightarrow> i = 2" "bit RV_U i \<longleftrightarrow> i = 4"
  unfolding RV_R_def RV_W_def RV_U_def push_bit_of_1 bit_exp_iff possible_bit_word by auto

lemma rv_contains_iff: "rv_contains f b \<longleftrightarrow> (\<forall>i. bit b i \<longrightarrow> bit f i)"
  using contains_iff [of f b] by (simp add: rv_contains_def PageFlags_contains_def)

lemma Pte_flags_low: "i < 10 \<Longrightarrow> bit (Pte_flags e) i \<longleftrightarrow> bit e i"
  by (auto simp: Pte_flags_def bit_and_iff RV_FLAG_MASK_bit)

lemma rv_leaf_present: "rv_leaf_flags sp va mem = Some g \<Longrightarrow> bit g 0"
proof -
  have "rv_leaf_flags_walk sp va mem levels t = Some g \<Longrightarrow> bit g 0" for levels t
    by (induction levels arbitrary: t) (auto simp: Let_def Pte_flags_low is_valid_bit split: if_splits)
  then show "rv_leaf_flags sp va mem = Some g \<Longrightarrow> bit g 0" unfolding rv_leaf_flags_def by blast
qed

lemma rv_leaf_translates: "rv_leaf_flags sp va mem = Some g \<Longrightarrow> \<exists>pa. rv_translate sp va mem = Some pa"
proof -
  have "rv_leaf_flags_walk sp va mem levels t = Some g \<Longrightarrow> \<exists>pa. rv_translate_walk sp va mem levels t = Some pa" for levels t
    by (induction levels arbitrary: t) (auto simp: Let_def split: if_splits)
  then show "rv_leaf_flags sp va mem = Some g \<Longrightarrow> \<exists>pa. rv_translate sp va mem = Some pa"
    unfolding rv_leaf_flags_def rv_translate_def by blast
qed

definition rv_bits :: "bool \<Rightarrow> bool \<Rightarrow> u64 \<Rightarrow> bool" where
  "rv_bits user write f \<longleftrightarrow> bit f 1 \<and> (user \<longrightarrow> bit f 4) \<and> (write \<longrightarrow> bit f 2)"

lemma rv_leaf_ok_bits:
  "rv_leaf_ok m w va \<longleftrightarrow> (\<exists>g. rv_leaf_flags (rv_space (um_root m)) va (um_tables m) = Some g \<and> rv_bits True w g)"
  by (cases w) (auto simp: rv_leaf_ok_def rv_contains_iff bit_or_iff RV_V_bit rv_flag_bits rv_bits_def
      split: option.splits dest: rv_leaf_present)

lemma rv_access_bits:
  "rv_access (if user then RV_U else 0) m w va =
     (case rv_leaf_flags (rv_space (um_root m)) va (um_tables m) of
        None \<Rightarrow> None | Some f \<Rightarrow> if rv_bits user w f then rv_translate (rv_space (um_root m)) va (um_tables m) else None)"
  by (cases user; cases w)
    (auto simp: rv_contains_iff bit_or_iff rv_flag_bits rv_bits_def rv_access_def split: option.split)

lemmas rv_accesses = rv_access_bits [of True, simplified if_True] rv_access_bits [of False, simplified if_False]

lemma rv_leaf_page: "rv_leaf_flags sp (page_of va) mem = rv_leaf_flags sp va mem"
proof -
  have "rv_leaf_flags_walk sp (page_of va) mem levels t = rv_leaf_flags_walk sp va mem levels t" for levels t
    by (induction levels arbitrary: t) (simp_all add: table_index_page Let_def)
  then show ?thesis unfolding rv_leaf_flags_def by blast
qed

interpretation rv_user: user_window "\<lambda>_. True" RV_USER_BASE RV_USER_LIMIT rv_leaf_ok rv_kernel_access rv_user_access
proof
  fix m :: UMem and w :: bool and va pa :: u64 and ph :: "u64 \<Rightarrow> u8"
  let ?sp = "rv_space (um_root m)"
  show "unat RV_USER_LIMIT + 4096 \<le> 2 ^ 64" by (simp add: RV_USER_LIMIT_def)
  show "rv_leaf_ok m w (page_of va) = rv_leaf_ok m w va" by (simp add: rv_leaf_ok_bits rv_leaf_page)
  show "rv_leaf_ok m True va \<Longrightarrow> rv_leaf_ok m False va" by (auto simp: rv_leaf_ok_bits rv_bits_def)
  show "rv_kernel_access m True va = Some pa \<Longrightarrow> rv_kernel_access m False va = Some pa"
    unfolding rv_kernel_access_def rv_accesses by (auto simp: rv_bits_def split: option.splits if_splits)
  show "rv_leaf_ok (m\<lparr>um_bytes := ph\<rparr>) w va = rv_leaf_ok m w va" "rv_kernel_access (m\<lparr>um_bytes := ph\<rparr>) w va = rv_kernel_access m w va"
    by (simp_all add: rv_leaf_ok_bits rv_kernel_access_def rv_accesses split: option.split)
  show "rv_leaf_ok m w va" if u: "rv_user_access m w va = Some pa"
    using u by (auto simp: rv_user_access_def rv_accesses rv_leaf_ok_bits split: option.splits if_splits)
  show "\<exists>pa. rv_kernel_access m w va = Some pa \<and> rv_user_access m w va = Some pa" if u: "rv_leaf_ok m w va"
  proof -
    obtain g where g: "rv_leaf_flags ?sp va (um_tables m) = Some g" "rv_bits True w g" using u by (auto simp: rv_leaf_ok_bits)
    then obtain pa where "rv_translate ?sp va (um_tables m) = Some pa" using rv_leaf_translates by blast
    moreover have "rv_bits False w g" using g(2) by (simp add: rv_bits_def)
    ultimately show ?thesis using g by (simp add: rv_kernel_access_def rv_user_access_def rv_accesses)
  qed
qed

section \<open>Properties\<close>

text \<open>
  (C23) The range check is exact on both architectures: a range of user memory is accepted when it is shorter
  than a mebibyte, inside the user window, and user code itself may read (or write) every byte of it by
  the processor's own walk, and in no other case. On x86-64 that needs the links above user leaves to be
  as permissive as leaves can be, as the links the kernel makes are (\<open>links_are_open\<close> in Uspace).
\<close>

theorem range_check_is_exact:
  assumes "x86_links_open m"
  shows "(x86_range_mapped m w uptr n \<longleftrightarrow> n < 2 ^ 20 \<and> X86_USER_BASE \<le> uptr \<and> unat uptr + n \<le> unat X86_USER_LIMIT
      \<and> (\<forall>i < n. x86_user_access m w (uptr + of_nat i) \<noteq> None))
    \<and> (rv_range_mapped m w uptr n \<longleftrightarrow> n < 2 ^ 20 \<and> RV_USER_BASE \<le> uptr \<and> unat uptr + n \<le> unat RV_USER_LIMIT
      \<and> (\<forall>i < n. rv_user_access m w (uptr + of_nat i) \<noteq> None))"
  using x86_user.mapped_user_access [OF assms, of w uptr n] rv_user.mapped_user_access [OF TrueI, of m w uptr n]
  unfolding x86_range_mapped_def rv_range_mapped_def by blast

text \<open>What a copy to user memory is allowed to do, in terms of what user code could do itself.\<close>

definition confined_copy :: "(u64 \<Rightarrow> u64 option) \<Rightarrow> u64 \<Rightarrow> u64 \<Rightarrow> u64 \<Rightarrow> u8 list \<Rightarrow> UMem \<Rightarrow> (bool \<times> UMem) option \<Rightarrow> bool" where
  "confined_copy uacc base limit uptr bs m r \<longleftrightarrow> (case r of None \<Rightarrow> False | Some (ok, m') \<Rightarrow>
     (ok \<longleftrightarrow> length bs < 2 ^ 20 \<and> base \<le> uptr \<and> unat uptr + length bs \<le> unat limit
        \<and> (\<forall>i < length bs. uacc (uptr + of_nat i) \<noteq> None))
     \<and> um_root m' = um_root m \<and> um_tables m' = um_tables m \<and> (\<not> ok \<longrightarrow> m' = m)
     \<and> (ok \<longrightarrow> (\<forall>i < length bs. \<forall>pa. uacc (uptr + of_nat i) = Some pa
          \<and> (\<forall>j < length bs. i < j \<longrightarrow> uacc (uptr + of_nat j) \<noteq> Some pa) \<longrightarrow> um_bytes m' pa = bs ! i))
     \<and> (\<forall>pa. um_bytes m' pa \<noteq> um_bytes m pa \<longrightarrow> (\<exists>i < length bs. uacc (uptr + of_nat i) = Some pa)))"

text \<open>
  (C15) The kernel is no confused deputy: a copy to user memory never takes a page fault in the kernel,
  whatever address and length the caller passes; when the caller itself may write every byte of a range
  of the user window shorter than a mebibyte it is done, every byte then standing where the caller's
  address leads (the last one, should several addresses lead to one place), and it is refused with
  nothing written otherwise; and the only bytes it changes are ones the caller itself may write. On
  x86-64 this needs the links above user leaves to be as permissive as leaves can be
  (\<open>x86_links_open\<close>); they are in every space the kernel builds (\<open>links_are_open\<close> in Uspace). On
  RISC-V it needs nothing.
\<close>

theorem copy_to_user_is_confined:
  assumes "x86_links_open m"
  shows "confined_copy (x86_user_access m True) X86_USER_BASE X86_USER_LIMIT uptr bs m (x86_copy_to_user uptr bs m)
    \<and> confined_copy (rv_user_access m True) RV_USER_BASE RV_USER_LIMIT uptr bs m (rv_copy_to_user uptr bs m)"
proof
  obtain ok m' where "copy_out_of (x86_range_mapped m True uptr (length bs)) (x86_kernel_access m True) uptr bs m = Some (ok, m')"
    and "confined_copy (x86_user_access m True) X86_USER_BASE X86_USER_LIMIT uptr bs m (Some (ok, m'))"
    using x86_user.copy_out [OF assms, of uptr bs] unfolding x86_range_mapped_def confined_copy_def by auto
  then show "confined_copy (x86_user_access m True) X86_USER_BASE X86_USER_LIMIT uptr bs m (x86_copy_to_user uptr bs m)"
    by (simp only: x86_copy_to_user_def)
next
  obtain ok m' where "copy_out_of (rv_range_mapped m True uptr (length bs)) (rv_kernel_access m True) uptr bs m = Some (ok, m')"
    and "confined_copy (rv_user_access m True) RV_USER_BASE RV_USER_LIMIT uptr bs m (Some (ok, m'))"
    using rv_user.copy_out [OF TrueI, of m uptr bs] unfolding rv_range_mapped_def confined_copy_def by auto
  then show "confined_copy (rv_user_access m True) RV_USER_BASE RV_USER_LIMIT uptr bs m (rv_copy_to_user uptr bs m)"
    by (simp only: rv_copy_to_user_def)
qed

text \<open>
  What the kernel copied out it copies in again: after a copy to user memory that succeeded, a copy from
  the same range succeeds and returns the same bytes, when no two bytes of the range are one byte of
  memory.
\<close>

theorem copied_bytes_read_back:
  assumes "x86_links_open m" and "x86_copy_to_user uptr bs m = Some (True, m')"
    and "inj_on (\<lambda>i. x86_user_access m True (uptr + of_nat i)) {..<length bs}"
  shows "x86_copy_from_user uptr (length bs) m' = Some (Some bs)"
  using x86_user.copy_back [OF assms(1) _ assms(3), of m'] assms(2)
  unfolding x86_copy_to_user_def x86_copy_from_user_def x86_range_mapped_def by blast

theorem rv_copied_bytes_read_back:
  assumes "rv_copy_to_user uptr bs m = Some (True, m')"
    and "inj_on (\<lambda>i. rv_user_access m True (uptr + of_nat i)) {..<length bs}"
  shows "rv_copy_from_user uptr (length bs) m' = Some (Some bs)"
  using rv_user.copy_back [OF TrueI _ assms(2), of m'] assms(1)
  unfolding rv_copy_to_user_def rv_copy_from_user_def rv_range_mapped_def by blast

section \<open>A machine with one user page\<close>

definition one_page :: UMem where
  "one_page = \<lparr>um_root = 0x1000,
     um_tables = (\<lambda>p i. if p = 0x1000 \<and> i = 1 then 0x2007 else if p = 0x2000 \<and> i = 0 then 0x3007
       else if p = 0x3000 \<and> i = 0 then 0x4007 else if p = 0x4000 \<and> i = 0 then 0x9007 else 0),
     um_bytes = (\<lambda>_. 0)\<rparr>"

definition rv_one_page :: UMem where
  "rv_one_page = \<lparr>um_root = 1,
     um_tables = (\<lambda>p i. if p = 0x1000 \<and> i = 4 then 0x801 else if p = 0x2000 \<and> i = 0 then 0xC01
       else if p = 0x3000 \<and> i = 0 then 0x2417 else 0),
     um_bytes = (\<lambda>_. 0)\<rparr>"

lemma open_everywhere:
  assumes "\<And>p i. is_present (mem p i) \<Longrightarrow> \<not> is_huge (mem p i) \<Longrightarrow> bit (mem p i) 1 \<and> bit (mem p i) 2"
  shows "x86_path_open sp va mem levels t"
proof (induction levels arbitrary: t)
  case (Cons level levels)
  then show ?case using assms by (simp add: Let_def read_entry_def del: view_simps)
qed simp

lemma one_page_open: "x86_links_open one_page"
proof -
  have "x86_path_open sp va (um_tables one_page) levels t" for sp va levels t
    by (rule open_everywhere) (auto simp: one_page_def is_present_bit split: if_splits)
  then show ?thesis unfolding x86_links_open_def by blast
qed

lemma one_page_access:
  "x86_user_access one_page True 0x8000000FFE = Some 0x9FFE" "x86_user_access one_page True 0x8000000FFF = Some 0x9FFF"
  "x86_user_access one_page True 0x8000001000 = None"
  "rv_user_access rv_one_page True 0x100000FFE = Some 0x9FFE" "rv_user_access rv_one_page True 0x100000FFF = Some 0x9FFF"
  by (simp_all add: x86_user_access_def x86_accesses x86_flags_def x86_space_def AddressSpace_new_def one_page_def
      access_bits_def read_entry_def table_ptr_def table_index_def PAGE_SHIFT_def is_present_bit is_huge_bit PTE_flags_low
      translate_def PTE_addr_def ADDR_MASK_def PAGE_SIZE_def bit_and_iff
      rv_user_access_def rv_accesses rv_space_def RvSpace_new_def rv_one_page_def rv_bits_def rv_leaf_flags_def rv_read_entry_def
      rv_table_ptr_def is_valid_bit is_leaf_bit Pte_addr_def Pte_ppn_def PPN_SHIFT_def PPN_BITS_def Pte_flags_low rv_translate_def
      del: view_simps rv_view_simps)

lemma one_page_places:
  "(\<forall>i < 2. x86_user_access one_page True (0x8000000FFE + of_nat i) = Some (0x9FFE + of_nat i))"
  "(\<forall>i < 2. rv_user_access rv_one_page True (0x100000FFE + of_nat i) = Some (0x9FFE + of_nat i))"
  using one_page_access by (auto simp: less_2_cases_iff)

definition msg :: "u8 list" where "msg = [1, 2]"

lemma msg_length: "length msg = 2"
  by (simp add: msg_def)

lemma two_bytes: "inj_on (\<lambda>i. Some (0x9FFE + of_nat i :: u64)) {..<2}"
  by (auto simp: inj_on_def less_2_cases_iff)

theorem range_check_is_exact_witness:
  "x86_range_mapped one_page True 0x8000000FFE 2 \<and> \<not> x86_range_mapped one_page True 0x8000000FFF 2"
proof
  show "x86_range_mapped one_page True 0x8000000FFE 2"
    using range_check_is_exact [OF one_page_open, of True "0x8000000FFE" 2] one_page_places(1)
    by (simp add: X86_USER_BASE_def X86_USER_LIMIT_def)
  have "x86_user_access one_page True (0x8000000FFF + of_nat 1) = None" using one_page_access(3) by simp
  then show "\<not> x86_range_mapped one_page True 0x8000000FFF 2"
    using range_check_is_exact [OF one_page_open, of True "0x8000000FFF" 2] by (metis one_less_numeral_iff semiring_norm(76))
qed

theorem copy_to_user_is_confined_witness:
  "\<exists>m'. x86_copy_to_user 0x8000000FFE msg one_page = Some (True, m')
     \<and> um_bytes m' 0x9FFE = 1 \<and> um_bytes m' 0x9FFF = 2 \<and> um_bytes m' 0x9000 = 0"
proof -
  have c: "confined_copy (x86_user_access one_page True) X86_USER_BASE X86_USER_LIMIT 0x8000000FFE msg one_page
      (x86_copy_to_user 0x8000000FFE msg one_page)"
    using copy_to_user_is_confined [OF one_page_open] by blast
  then obtain ok m' where r: "x86_copy_to_user 0x8000000FFE msg one_page = Some (ok, m')"
    by (auto simp: confined_copy_def split: option.splits)
  have ok: "ok" using c one_page_places(1) unfolding r confined_copy_def by (simp add: X86_USER_BASE_def X86_USER_LIMIT_def msg_length)
  have "um_bytes m' 0x9000 = um_bytes one_page 0x9000"
    using c one_page_places(1) unfolding r confined_copy_def by (force simp: less_2_cases_iff msg_length)
  moreover have at: "\<forall>i < 2. \<forall>pa. x86_user_access one_page True (0x8000000FFE + of_nat i) = Some pa
      \<and> (\<forall>j < 2. i < j \<longrightarrow> x86_user_access one_page True (0x8000000FFE + of_nat j) \<noteq> Some pa) \<longrightarrow> um_bytes m' pa = msg ! i"
    using c ok unfolding r confined_copy_def by (simp add: msg_length)
  from at [rule_format, of 0 "0x9FFE"] at [rule_format, of 1 "0x9FFF"]
  have "um_bytes m' 0x9FFE = 1" "um_bytes m' 0x9FFF = 2"
    using one_page_access by (auto simp: less_2_cases_iff msg_def)
  ultimately show ?thesis using r ok by (simp add: one_page_def)
qed

lemma one_page_copied:
  "\<exists>m'. x86_copy_to_user 0x8000000FFE msg one_page = Some (True, m')"
  "\<exists>m'. rv_copy_to_user 0x100000FFE msg rv_one_page = Some (True, m')"
  using x86_user.copy_out [OF one_page_open, of "0x8000000FFE" "msg"] rv_user.copy_out [OF TrueI, of rv_one_page "0x100000FFE" "msg"]
    one_page_places
  by (auto simp: x86_copy_to_user_def x86_range_mapped_def rv_copy_to_user_def rv_range_mapped_def
      X86_USER_BASE_def X86_USER_LIMIT_def RV_USER_BASE_def RV_USER_LIMIT_def msg_length)

theorem copied_bytes_read_back_witness:
  "\<exists>m'. x86_copy_to_user 0x8000000FFE msg one_page = Some (True, m') \<and> x86_copy_from_user 0x8000000FFE 2 m' = Some (Some msg)"
proof -
  obtain m' where m': "x86_copy_to_user 0x8000000FFE msg one_page = Some (True, m')" using one_page_copied by blast
  have "inj_on (\<lambda>i. x86_user_access one_page True (0x8000000FFE + of_nat i)) {..<length msg}"
    using one_page_places(1) two_bytes by (simp add: inj_on_def msg_length)
  from copied_bytes_read_back [OF one_page_open m' this] show ?thesis using m' by (simp add: msg_length)
qed

theorem rv_copied_bytes_read_back_witness:
  "\<exists>m'. rv_copy_to_user 0x100000FFE msg rv_one_page = Some (True, m') \<and> rv_copy_from_user 0x100000FFE 2 m' = Some (Some msg)"
proof -
  obtain m' where m': "rv_copy_to_user 0x100000FFE msg rv_one_page = Some (True, m')" using one_page_copied by blast
  have "inj_on (\<lambda>i. rv_user_access rv_one_page True (0x100000FFE + of_nat i)) {..<length msg}"
    using one_page_places(2) two_bytes by (simp add: inj_on_def msg_length)
  from rv_copied_bytes_read_back [OF m' this] show ?thesis using m' by (simp add: msg_length)
qed

end
