(* ===== verification/Uspace.thy ===== *)
theory Uspace
  imports Uaccess Kstate
begin

text \<open>
  The address spaces of processes (\<open>X86Space\<close> in src/crates/kernel/src/arch_x86.rs, \<open>RiscvSpace\<close> and
  \<open>setup_paging\<close> in arch_riscv.rs): how page permissions become entry flags, how a space is named by a
  token, how the kernel's mappings are shared into it, and why spaces that share them stay isolated.
\<close>

section \<open>x86-64\<close>

definition x86_create :: "('s \<Rightarrow> u64 option \<times> 's) \<Rightarrow> ptmem \<times> 's \<Rightarrow> AddressSpace option \<times> ptmem \<times> 's" where
  "x86_create fa = AddressSpace_create fa 0"

definition x86_perm_flags :: "Perms \<Rightarrow> PageFlags" where
  "x86_perm_flags perms =
     (let f = PRESENT;
          f = (if pm_write perms then PageFlags_union f WRITABLE else f);
          f = (if pm_user perms then PageFlags_union f USER else f);
          f = (if \<not> pm_exec perms then PageFlags_union f NO_EXEC else f)
      in if pm_device perms then PageFlags_union f NO_CACHE else f)"

definition x86_map_page ::
    "('s \<Rightarrow> u64 option \<times> 's) \<Rightarrow> AddressSpace \<Rightarrow> VirtAddr \<Rightarrow> PhysAddr \<Rightarrow> Perms \<Rightarrow> ptmem \<times> 's \<Rightarrow> bool \<times> ptmem \<times> 's" where
  "x86_map_page fa sp va pa perms st =
     (case AddressSpace_map fa sp va pa (x86_perm_flags perms) st of (r, st') \<Rightarrow> (case r of Inr _ \<Rightarrow> True | Inl _ \<Rightarrow> False, st'))"

definition x86_unmap_page :: "AddressSpace \<Rightarrow> VirtAddr \<Rightarrow> ptmem \<Rightarrow> PhysAddr option \<times> ptmem" where
  "x86_unmap_page sp va mem = AddressSpace_unmap sp va mem"

definition x86_token :: "AddressSpace \<Rightarrow> u64" where
  "x86_token sp = pml4 sp"

text \<open>Entry 0 of the kernel's root, its low identity map, is copied into the root of the space.\<close>

definition x86_share_kernel :: "u64 \<Rightarrow> AddressSpace \<Rightarrow> ptmem \<Rightarrow> ptmem" where
  "x86_share_kernel kernel_token sp mem =
     (let kroot = kernel_token AND 0x000ffffffffff000; uroot = pml4 sp
      in mem(uroot := (mem uroot)(0 := mem kroot 0)))"

section \<open>RISC-V\<close>

definition rv_create :: "('s \<Rightarrow> u64 option \<times> 's) \<Rightarrow> ptmem \<times> 's \<Rightarrow> RvSpace option \<times> ptmem \<times> 's" where
  "rv_create fa = RvSpace_create fa 0"

definition rv_perm_flags :: "Perms \<Rightarrow> RvFlags" where
  "rv_perm_flags perms =
     (let f = rv_union RV_V RV_R;
          f = (if pm_write perms then rv_union f RV_W else f);
          f = (if pm_exec perms then rv_union f RV_X else f)
      in if pm_user perms then rv_union f RV_U else f)"

definition rv_map_page ::
    "('s \<Rightarrow> u64 option \<times> 's) \<Rightarrow> RvSpace \<Rightarrow> VirtAddr \<Rightarrow> PhysAddr \<Rightarrow> Perms \<Rightarrow> ptmem \<times> 's \<Rightarrow> bool \<times> ptmem \<times> 's" where
  "rv_map_page fa sp va pa perms st =
     (if pm_device perms then (False, st)
      else case RvSpace_map fa sp va pa (rv_perm_flags perms) st of (r, st') \<Rightarrow> (case r of Inr _ \<Rightarrow> True | Inl _ \<Rightarrow> False, st'))"

definition rv_unmap_page :: "RvSpace \<Rightarrow> VirtAddr \<Rightarrow> ptmem \<Rightarrow> PhysAddr option \<times> ptmem" where
  "rv_unmap_page sp va mem = RvSpace_unmap sp va mem"

definition rv_token :: "RvSpace \<Rightarrow> u64" where
  "rv_token sp = satp sp"

definition rv_share_kernel :: "u64 \<Rightarrow> RvSpace \<Rightarrow> ptmem \<Rightarrow> ptmem" where
  "rv_share_kernel kernel_token sp mem =
     (let kroot = push_bit 12 (kernel_token AND (push_bit 44 1 - 1)); uroot = rv_root sp
      in fold (\<lambda>i mem. mem(uroot := (mem uroot)(i := mem kroot i))) [0..<3] mem)"

text \<open>The kernel's own space: three gigabyte leaves, for the kernel only. No frame is a panic, None.\<close>

definition rv_setup_paging :: "('s \<Rightarrow> u64 option \<times> 's) \<Rightarrow> ptmem \<times> 's \<Rightarrow> u64 option \<times> ptmem \<times> 's" where
  "rv_setup_paging fa = (\<lambda>(mem, s).
     case fa s of
       (None, s') \<Rightarrow> (None, mem, s')
     | (Some root_pa, s') \<Rightarrow>
         let mem = mem(root_pa := (\<lambda>_. 0));
             flags = RV_V OR RV_R OR RV_W OR RV_X;
             mem = fold (\<lambda>gib mem. mem(root_pa := (mem root_pa)(gib := Pte_new (push_bit 30 (of_nat gib)) flags))) [0..<3] mem
         in (Some (push_bit 60 8 OR drop_bit 12 root_pa), mem, s'))"

section \<open>Tables of a tree\<close>

text \<open>The tables a walk can read, from the root or below one of its entries.\<close>

definition tabs :: "('e \<Rightarrow> u64 option) \<Rightarrow> nat \<Rightarrow> (nat list \<Rightarrow> bool) \<Rightarrow> (u64 \<Rightarrow> nat \<Rightarrow> 'e) \<Rightarrow> u64 \<Rightarrow> u64 set" where
  "tabs nx D part rd root = {t. \<exists>Q. length Q \<le> D \<and> part Q \<and> tab_at nx rd root Q = Some t}"

context radix
begin

lemma tabs_cong:
  assumes "\<And>t. t \<in> tabs nx D (\<lambda>_. True) rd root \<Longrightarrow> rd' t = rd t" and "length Q \<le> Suc D"
  shows "tab_at nx rd' root Q = tab_at nx rd root Q"
proof (rule tab_at_cong)
  fix R q j S assume a: "Q = R @ j # S" "tab_at nx rd root R = Some q"
  then have "q \<in> tabs nx D (\<lambda>_. True) rd root" using assms(2) unfolding tabs_def by force
  then show "rd' q j = rd q j" using assms(1) by simp
qed

lemma tabs_stop:
  assumes "\<And>t. t \<in> tabs nx D (\<lambda>_. True) rd root \<Longrightarrow> rd' t = rd t" and "length Q = Suc D"
  shows "stop_entry nx rd' root Q = stop_entry nx rd root Q"
proof (rule stop_entry_cong)
  show "Q \<noteq> []" using assms(2) by auto
  fix R q j S assume a: "Q = R @ j # S" "tab_at nx rd root R = Some q"
  then have "q \<in> tabs nx D (\<lambda>_. True) rd root" using assms(2) unfolding tabs_def by force
  then show "rd' q j = rd q j" using assms(1) by simp
qed

lemma tabs_part: "tabs nx D part rd root \<subseteq> tabs nx D (\<lambda>_. True) rd root"
  by (auto simp: tabs_def)

lemma tabs_same:
  assumes "\<And>t. t \<in> tabs nx D (\<lambda>_. True) rd root \<Longrightarrow> rd' t = rd t"
  shows "tabs nx D part rd' root = tabs nx D part rd root"
proof -
  have "tab_at nx rd' root Q = tab_at nx rd root Q" if "length Q \<le> D" for Q
    using that by (intro tabs_cong [where D = D] assms) simp_all
  then show ?thesis unfolding tabs_def by auto
qed

text \<open>Linking a fresh table adds it to the tables, below the entry that was written, and nothing else.\<close>

lemma link_tabs:
  fixes i :: nat and f :: u64
  assumes t: "tree D rd root" and p: "tab_at nx rd root P = Some p" "length P < D" "dead (rd p i)"
    and out: "outside D rd root F" "f \<in> F" and Q: "length Q \<le> D"
  defines "rd' \<equiv> (rd(f := \<lambda>_. zero))(p := (rd p)(i := link f))"
  shows "tab_at nx rd' root Q = (if Q = P @ [i] then Some f else if \<exists>S. Q = P @ i # S then None else tab_at nx rd root Q)"
proof -
  let ?z = "rd(f := \<lambda>_. zero)"
  have nf: "tab_at nx rd root R \<noteq> Some f" if "length R \<le> D" for R using out that by (auto simp: outside_def)
  have fp: "f \<noteq> p" using nf [of P] p by auto
  have z: "tab_at nx ?z root R = tab_at nx rd root R" if "length R \<le> D" for R
    using that nf by (intro tab_at_cong) (metis fun_upd_other length_append le_add1 le_trans)
  have tz: "tree D ?z root" using t z unfolding tree_def by metis
  have pz: "tab_at nx ?z root P = Some p" using p z by simp
  have rd': "rd' = ?z(p := (?z p)(i := link f))" using fp by (simp add: rd'_def)
  have pre: "tab_at nx rd' root P = Some p"
    unfolding rd' using p(2) pz by (subst write_other(1) [OF tz pz]) auto
  have fz: "rd' f k = zero" for k using fp by (simp add: rd'_def)
  have gf: "good f" using out by (auto simp: outside_def)
  show ?thesis
  proof (cases "\<exists>S. Q = P @ i # S")
    case True
    then obtain S where S: "Q = P @ i # S" by blast
    have "rd' p i = link f" by (simp add: rd'_def)
    then show ?thesis using pre nx_link [OF gf] fz dead_nx [OF dead_zero] by (cases S) (simp_all add: S tab_at_append)
  next
    case False
    then have "tab_at nx rd' root Q = tab_at nx ?z root Q"
      unfolding rd' using Q p(2) by (intro write_other(1) [OF tz pz]) auto
    then show ?thesis using False z [OF Q] by auto
  qed
qed

text \<open>A property of every link that hangs below chosen entries of the root.\<close>

definition links_have :: "('e \<Rightarrow> bool) \<Rightarrow> nat \<Rightarrow> (nat \<Rightarrow> bool) \<Rightarrow> (u64 \<Rightarrow> nat \<Rightarrow> 'e) \<Rightarrow> u64 \<Rightarrow> bool" where
  "links_have c D wnd rd root \<longleftrightarrow> (\<forall>P p i. length P < D \<longrightarrow> tab_at nx rd root P = Some p \<longrightarrow> nx (rd p i) \<noteq> None
     \<longrightarrow> wnd (hd (P @ [i])) \<longrightarrow> c (rd p i))"

lemma links_have_leaf:
  assumes "tree D rd root" and "tab_at nx rd root P = Some p" and "length P = D" and "links_have c D wnd rd root"
  shows "links_have c D wnd (rd(p := (rd p)(i := e))) root"
  unfolding links_have_def
proof (intro allI impI)
  fix R q j
  let ?rd = "rd(p := (rd p)(i := e))"
  assume a: "length R < D" "tab_at nx ?rd root R = Some q" "nx (?rd q j) \<noteq> None" "wnd (hd (R @ [j]))"
  have "tab_at nx ?rd root R = tab_at nx rd root R"
    using a(1) assms(3) by (intro write_other(1) [OF assms(1,2)]) auto
  then have q: "tab_at nx rd root R = Some q" using a(2) by simp
  then have "q \<noteq> p" using tree_inj [OF assms(1) q, of P] assms(2,3) a(1) by auto
  then show "c (?rd q j)" using a q assms(4) by (auto simp: links_have_def)
qed

lemma links_have_link:
  assumes "tree D rd root" and "tab_at nx rd root P = Some p" "length P < D" "dead (rd p i)"
    and "outside D rd root F" "f \<in> F" and "links_have c D wnd rd root" and "c (link f)"
  shows "links_have c D wnd ((rd(f := \<lambda>_. zero))(p := (rd p)(i := link f))) root"
  unfolding links_have_def
proof (intro allI impI)
  fix R q j
  let ?rd = "(rd(f := \<lambda>_. zero))(p := (rd p)(i := link f))"
  assume a: "length R < D" "tab_at nx ?rd root R = Some q" "nx (?rd q j) \<noteq> None" "wnd (hd (R @ [j]))"
  note lt = link_tabs [OF assms(1-6) less_imp_le [OF a(1)]]
  have nf: "tab_at nx rd root S \<noteq> Some f" if "length S \<le> D" for S using assms(5,6) that by (auto simp: outside_def)
  then have fp: "f \<noteq> p" using assms(2,3) by auto
  show "c (?rd q j)"
  proof (cases "\<exists>S. R = P @ i # S")
    case True
    then have "q = f" using a(2) unfolding lt by (auto split: if_splits)
    then show ?thesis using a(3) fp dead_nx [OF dead_zero] by simp
  next
    case False
    then have q: "tab_at nx rd root R = Some q" using a(2) unfolding lt by (auto split: if_splits)
    then have "q \<noteq> f" using nf [of R] a(1) by auto
    then show ?thesis
      using a q assms(7,8) by (auto simp: links_have_def split: if_splits)
  qed
qed

end

section \<open>What a map writes\<close>

lemma map_descend_tables:
  assumes "fresh_source ok avail fa" and "ok s" and "space_ok sp mem (avail s)"
    and "tab_at next_table (view sp mem) (pml4 sp) P = Some p" and "length P + length levels = 3"
    and "map_descend fa sp va levels p (mem, s) = (r, mem', s')"
    and "\<And>f. c (link_entry f)"
  shows "avail s' \<subseteq> avail s
    \<and> (\<forall>t. view sp mem' t \<noteq> view sp mem t \<longrightarrow> t \<in> avail s
         \<or> (\<exists>n \<le> length levels. tab_at next_table (view sp mem) (pml4 sp) (P @ map (table_index va) (take n levels)) = Some t))
    \<and> (\<forall>Q t. length Q \<le> 3 \<longrightarrow> tab_at next_table (view sp mem') (pml4 sp) Q = Some t \<longrightarrow>
         tab_at next_table (view sp mem) (pml4 sp) Q = Some t
         \<or> t \<in> avail s \<and> (\<exists>n. 0 < n \<and> n \<le> length levels \<and> Q = P @ map (table_index va) (take n levels)))
    \<and> (x86.links_have c 3 wnd (view sp mem) (pml4 sp) \<longrightarrow> x86.links_have c 3 wnd (view sp mem') (pml4 sp))"
  using assms(2-6)
proof (induction levels arbitrary: P p mem s)
  case Nil
  then show ?case by auto
next
  case (Cons level levels)
  let ?i = "table_index va level" and ?rd = "view sp mem" and ?root = "pml4 sp"
  let ?e = "?rd p ?i"
  have step: "\<exists>m \<le> length (level # levels). P @ map (table_index va) (take m (level # levels)) = (P @ [?i]) @ map (table_index va) (take n levels)"
    and step0: "\<exists>m. 0 < m \<and> m \<le> length (level # levels) \<and> P @ map (table_index va) (take m (level # levels)) = (P @ [?i]) @ map (table_index va) (take n levels)"
    if "n \<le> length levels" for n
    using that by (auto intro!: exI [of _ "Suc n"])
  show ?case
  proof (cases "is_present ?e")
    case True
    show ?thesis
    proof (cases "is_huge ?e")
      case True
      then show ?thesis using Cons.prems \<open>is_present ?e\<close> by (auto simp: Let_def)
    next
      case False
      have nt: "tab_at next_table ?rd ?root (P @ [?i]) = Some (PTE_addr ?e)"
      proof -
        have "next_table ?e = Some (PTE_addr ?e)" using True False by (simp add: next_table_def)
        then show ?thesis using Cons.prems(3) by (simp add: tab_at_snoc)
      qed
      have "map_descend fa sp va levels (PTE_addr ?e) (mem, s) = (r, mem', s')"
        using Cons.prems(5) True False by (simp add: Let_def)
      note ih = Cons.IH [OF Cons.prems(1,2) nt _ this]
      have len: "length (P @ [?i]) + length levels = 3" using Cons.prems(4) by simp
      have w: "x \<in> avail s \<or> (\<exists>n \<le> length (level # levels). tab_at next_table ?rd ?root (P @ map (table_index va) (take n (level # levels))) = Some x)"
        if d: "view sp mem' x \<noteq> ?rd x" for x
      proof -
        consider "x \<in> avail s" | n where "n \<le> length levels" "tab_at next_table ?rd ?root ((P @ [?i]) @ map (table_index va) (take n levels)) = Some x"
          using ih [OF len] d by blast
        then show ?thesis
        proof cases
          case 2
          then show ?thesis using step [OF 2(1)] by metis
        qed blast
      qed
      have q: "tab_at next_table ?rd ?root Q = Some x
         \<or> x \<in> avail s \<and> (\<exists>n. 0 < n \<and> n \<le> length (level # levels) \<and> Q = P @ map (table_index va) (take n (level # levels)))"
        if l: "length Q \<le> 3" "tab_at next_table (view sp mem') ?root Q = Some x" for Q x
      proof -
        consider "tab_at next_table ?rd ?root Q = Some x"
          | n where "x \<in> avail s" "n \<le> length levels" "Q = (P @ [?i]) @ map (table_index va) (take n levels)"
          using ih [OF len] l by blast
        then show ?thesis
        proof cases
          case 2
          obtain m where m: "0 < m" "m \<le> length (level # levels)"
              "P @ map (table_index va) (take m (level # levels)) = (P @ [?i]) @ map (table_index va) (take n levels)"
            using step0 [OF 2(2)] by (elim exE conjE)
          have "Q = P @ map (table_index va) (take m (level # levels))" by (rule trans [OF 2(3) m(3) [symmetric]])
          then show ?thesis using 2(1) m(1,2) by blast
        qed blast
      qed
      note av = ih [OF len, THEN conjunct1] and lk = ih [OF len, THEN conjunct2, THEN conjunct2, THEN conjunct2]
      show ?thesis
      proof (intro conjI)
        show "avail s' \<subseteq> avail s" by (rule av)
        show "\<forall>t. view sp mem' t \<noteq> ?rd t \<longrightarrow> t \<in> avail s
           \<or> (\<exists>n \<le> length (level # levels). tab_at next_table ?rd ?root (P @ map (table_index va) (take n (level # levels))) = Some t)"
          using w by simp
        show "\<forall>Q t. length Q \<le> 3 \<longrightarrow> tab_at next_table (view sp mem') ?root Q = Some t \<longrightarrow> tab_at next_table ?rd ?root Q = Some t
           \<or> t \<in> avail s \<and> (\<exists>n. 0 < n \<and> n \<le> length (level # levels) \<and> Q = P @ map (table_index va) (take n (level # levels)))"
          using q by simp
        show "x86.links_have c 3 wnd ?rd ?root \<longrightarrow> x86.links_have c 3 wnd (view sp mem') ?root" by (rule lk)
      qed
    qed
  next
    case False
    obtain a s1 where fa: "fa s = (a, s1)" by (cases "fa s")
    show ?thesis
    proof (cases a)
      case None
      then have "avail s1 \<subseteq> avail s" using fresh_source_None [OF assms(1) Cons.prems(1)] fa by auto
      then show ?thesis using Cons.prems(5) False fa None by (auto simp: Let_def)
    next
      case (Some f)
      let ?rd1 = "(?rd(f := \<lambda>_. 0))(p := (?rd p)(?i := link_entry f))"
      let ?mem1 = "write_entry sp p ?i (link_entry f) (mem(table_ptr sp f := PageTable_new))"
      have src: "ok s1" "f \<in> avail s" "avail s1 \<subseteq> avail s - {f}"
        using fresh_source_Some [OF assms(1) Cons.prems(1)] fa Some by auto
      have t: "x86.tree 3 ?rd ?root" "x86.outside 3 ?rd ?root (avail s)" using Cons.prems(2) by (auto simp: space_ok_def)
      have len: "length P < 3" using Cons.prems(4) by simp
      note lt = x86.link_tabs [OF t(1) Cons.prems(3) len False t(2) src(2)]
      note lw = x86.link_write [OF t(1) Cons.prems(3) len False t(2) src(2)]
      have ne: "f \<noteq> p" using t(2) src(2) Cons.prems(3) len by (auto simp: x86.outside_def)
      have v: "view sp ?mem1 = ?rd1" using ne by simp
      have stp: "map_descend fa sp va levels f (?mem1, s1) = (r, mem', s')"
        using Cons.prems(5) False fa Some by (simp add: Let_def link_entry_def)
      have sp1: "space_ok sp ?mem1 (avail s1)"
        unfolding space_ok_def v using lw(1,2) src(3) x86.outside_mono by blast
      have tab1: "tab_at next_table (view sp ?mem1) ?root (P @ [?i]) = Some f" unfolding v by (rule lw(3))
      have "length (P @ [?i]) + length levels = 3" using Cons.prems(4) by simp
      note ih = Cons.IH [OF src(1) sp1 tab1 this stp, unfolded v]
      have av: "avail s' \<subseteq> avail s" using ih src by blast
      have old: "Q = P @ [?i] \<and> x = f \<or> tab_at next_table ?rd ?root Q = Some x"
        if "length Q \<le> 3" "tab_at next_table ?rd1 ?root Q = Some x" for Q x
        using lt [OF that(1)] that(2) by (auto split: if_splits)
      have w: "x \<in> avail s \<or> (\<exists>n \<le> length (level # levels). tab_at next_table ?rd ?root (P @ map (table_index va) (take n (level # levels))) = Some x)"
        if d: "view sp mem' x \<noteq> ?rd x" for x
      proof (cases "view sp mem' x = ?rd1 x")
        case True
        then have "x = f \<or> x = p" using d by (auto split: if_splits)
        then show ?thesis using src(2) Cons.prems(3) by (auto intro!: exI [of _ 0])
      next
        case False
        then consider "x \<in> avail s1" | n where "n \<le> length levels" "tab_at next_table ?rd1 ?root ((P @ [?i]) @ map (table_index va) (take n levels)) = Some x"
          using ih by blast
        then show ?thesis
        proof cases
          case 2
          then have "length ((P @ [?i]) @ map (table_index va) (take n levels)) \<le> 3" using Cons.prems(4) by simp
          from old [OF this 2(2)] show ?thesis using src(2) step [OF 2(1)] by metis
        qed (use src in blast)
      qed
      have q: "tab_at next_table ?rd ?root Q = Some x
         \<or> x \<in> avail s \<and> (\<exists>n. 0 < n \<and> n \<le> length (level # levels) \<and> Q = P @ map (table_index va) (take n (level # levels)))"
        if l: "length Q \<le> 3" "tab_at next_table (view sp mem') ?root Q = Some x" for Q x
      proof -
        consider "tab_at next_table ?rd1 ?root Q = Some x"
          | n where "x \<in> avail s1" "n \<le> length levels" "Q = (P @ [?i]) @ map (table_index va) (take n levels)"
          using ih l by blast
        then show ?thesis
        proof cases
          case 1
          from old [OF l(1) this] show ?thesis using src(2) step0 [of 0] by auto
        next
          case 2
          obtain m where m: "0 < m" "m \<le> length (level # levels)"
              "P @ map (table_index va) (take m (level # levels)) = (P @ [?i]) @ map (table_index va) (take n levels)"
            using step0 [OF 2(2)] by (elim exE conjE)
          have "Q = P @ map (table_index va) (take m (level # levels))" by (rule trans [OF 2(3) m(3) [symmetric]])
          then show ?thesis using 2(1) m(1,2) src(3) by blast
        qed
      qed
      have lk: "x86.links_have c 3 wnd ?rd ?root \<longrightarrow> x86.links_have c 3 wnd (view sp mem') ?root"
        using x86.links_have_link [OF t(1) Cons.prems(3) len False t(2) src(2), where c = c and wnd = wnd] assms(7)
          ih [THEN conjunct2, THEN conjunct2, THEN conjunct2] by blast
      show ?thesis by (intro conjI, rule av, use w in blast, use q in blast, rule lk)
    qed
  qed
qed

text \<open>A link that grants everything a leaf may, execution included, as \<open>map\<close> makes them.\<close>

definition open_link :: "PageTableEntry \<Rightarrow> bool" where
  "open_link e \<longleftrightarrow> bit e 1 \<and> bit e 2 \<and> \<not> bit e 63"

lemma open_link_entry: "open_link (link_entry f)"
  by (simp add: open_link_def link_entry_def PTE_new_bit bit_or_iff x86_flag_bits)

lemma map_tables:
  assumes "fresh_source ok avail fa" and "ok s" and "space_ok sp mem (avail s)"
    and "AddressSpace_map fa sp va pa flags (mem, s) = (r, mem', s')"
  shows "avail s' \<subseteq> avail s"
    and "view sp mem' t \<noteq> view sp mem t \<Longrightarrow>
      t \<in> avail s \<or> t \<in> tabs next_table 3 (\<lambda>Q. Q = [] \<or> hd Q = table_index va 3) (view sp mem) (pml4 sp)"
    and "length Q \<le> 3 \<Longrightarrow> tab_at next_table (view sp mem') (pml4 sp) Q = Some t \<Longrightarrow>
      tab_at next_table (view sp mem) (pml4 sp) Q = Some t \<or> t \<in> avail s \<and> Q \<noteq> [] \<and> hd Q = table_index va 3"
    and "x86.links_have open_link 3 wnd (view sp mem) (pml4 sp) \<Longrightarrow> x86.links_have open_link 3 wnd (view sp mem') (pml4 sp)"
proof -
  let ?rd = "view sp mem" and ?root = "pml4 sp" and ?V = "map (table_index va) [3, 2, 1]"
  let ?goal = "avail s' \<subseteq> avail s
    \<and> (\<forall>t. view sp mem' t \<noteq> ?rd t \<longrightarrow> t \<in> avail s \<or> t \<in> tabs next_table 3 (\<lambda>Q. Q = [] \<or> hd Q = table_index va 3) ?rd ?root)
    \<and> (\<forall>Q t. length Q \<le> 3 \<and> tab_at next_table (view sp mem') ?root Q = Some t \<longrightarrow>
         tab_at next_table ?rd ?root Q = Some t \<or> t \<in> avail s \<and> Q \<noteq> [] \<and> hd Q = table_index va 3)
    \<and> (x86.links_have open_link 3 wnd ?rd ?root \<longrightarrow> x86.links_have open_link 3 wnd (view sp mem') ?root)"
  have ?goal
  proof (cases "is_page_aligned va \<and> is_page_aligned pa")
    case False
    then have "mem' = mem" "s' = s" using assms(4) by (auto simp: AddressSpace_map_def split: if_splits)
    then show ?thesis by auto
  next
    case True
    obtain r1 mem1 s1 where d: "map_descend fa sp va [3, 2, 1] ?root (mem, s) = (r1, mem1, s1)"
      by (cases "map_descend fa sp va [3, 2, 1] ?root (mem, s)") auto
    have l0: "tab_at next_table ?rd ?root [] = Some ?root" by simp
    have len: "length ([] :: nat list) + length [3, 2, 1 :: nat] = 3" by simp
    note mt = map_descend_tables [OF assms(1-3) l0 len d, where c = open_link and wnd = wnd, OF open_link_entry, unfolded append_Nil]
    note mf = map_descend_facts [OF assms(1-3) l0 len d]
    have hdV: "hd (map (table_index va) (take n [3, 2, 1])) = table_index va 3" if "0 < n" for n
      using that by (cases n) simp_all
    have pre: "t \<in> tabs next_table 3 (\<lambda>Q. Q = [] \<or> hd Q = table_index va 3) ?rd ?root"
      if "tab_at next_table ?rd ?root (map (table_index va) (take n [3, 2, 1])) = Some t" "n \<le> 3" for n t
      using that hdV [of n] unfolding tabs_def by (intro CollectI exI [of _ "map (table_index va) (take n [3, 2, 1])"]) auto
    have w1: "t \<in> avail s \<or> t \<in> tabs next_table 3 (\<lambda>Q. Q = [] \<or> hd Q = table_index va 3) ?rd ?root"
      if "view sp mem1 t \<noteq> ?rd t" for t
      using mt that pre by fastforce
    have q1: "tab_at next_table ?rd ?root Q = Some t \<or> t \<in> avail s \<and> Q \<noteq> [] \<and> hd Q = table_index va 3"
      if "length Q \<le> 3" "tab_at next_table (view sp mem1) ?root Q = Some t" for Q t
    proof -
      have "tab_at next_table ?rd ?root Q = Some t \<or> t \<in> avail s \<and> (\<exists>n. 0 < n \<and> n \<le> length [3, 2, 1 :: nat] \<and> Q = map (table_index va) (take n [3, 2, 1]))"
        using mt that by blast
      then show ?thesis using hdV by auto
    qed
    show ?thesis
    proof (cases "r1 = Inr (the (tab_at next_table (view sp mem1) ?root ?V)) \<and> r = Inr ()")
      case False
      then have "mem' = mem1 \<and> s' = s1"
        using assms(4) d True mf by (auto simp: AddressSpace_map_def Let_def split: sum.splits if_splits)
      then show ?thesis using mt w1 q1 by blast
    next
      case found: True
      define q where "q = the (tab_at next_table (view sp mem1) ?root ?V)"
      have q: "tab_at next_table (view sp mem1) ?root ?V = Some q" using mf found by (auto simp: q_def)
      let ?e = "PTE_new pa (flags OR PRESENT)" and ?i = "table_index va 0"
      have m': "mem' = write_entry sp q ?i ?e mem1" "s' = s1"
        using assms(4) d found True
        by (auto simp: AddressSpace_map_def Let_def q_def split: if_splits)
      have t1: "x86.tree 3 (view sp mem1) ?root" using mf by (auto simp: space_ok_def)
      have same: "tab_at next_table (view sp mem') ?root Q = tab_at next_table (view sp mem1) ?root Q" if "length Q \<le> 3" for Q
        unfolding m' view_simps using that by (intro x86.write_other(1) [OF t1 q]) auto
      have qw: "q \<in> avail s \<or> q \<in> tabs next_table 3 (\<lambda>Q. Q = [] \<or> hd Q = table_index va 3) ?rd ?root"
        using q1 [of ?V q] q pre [of 3 q] by auto
      have lk: "x86.links_have open_link 3 wnd ?rd ?root \<longrightarrow> x86.links_have open_link 3 wnd (view sp mem') ?root"
        unfolding m' view_simps using mt [THEN conjunct2, THEN conjunct2, THEN conjunct2] x86.links_have_leaf [OF t1 q] by simp
      have w2: "t \<in> avail s \<or> t \<in> tabs next_table 3 (\<lambda>Q. Q = [] \<or> hd Q = table_index va 3) ?rd ?root"
        if "view sp mem' t \<noteq> ?rd t" for t
        using that w1 qw unfolding m' view_simps by (cases "t = q") auto
      have q2: "tab_at next_table ?rd ?root Q = Some t \<or> t \<in> avail s \<and> Q \<noteq> [] \<and> hd Q = table_index va 3"
        if "length Q \<le> 3 \<and> tab_at next_table (view sp mem') ?root Q = Some t" for Q t
      proof -
        have l: "length Q \<le> 3" using that by blast
        then have "tab_at next_table (view sp mem1) ?root Q = Some t" using that same [OF l] by metis
        then show ?thesis by (rule q1 [OF l])
      qed
      have av: "avail s' \<subseteq> avail s" using mt m'(2) by simp
      show ?thesis
      proof (intro conjI)
        show "\<forall>t. view sp mem' t \<noteq> ?rd t \<longrightarrow> t \<in> avail s \<or> t \<in> tabs next_table 3 (\<lambda>Q. Q = [] \<or> hd Q = table_index va 3) ?rd ?root"
          using w2 by blast
        show "\<forall>Q t. length Q \<le> 3 \<and> tab_at next_table (view sp mem') ?root Q = Some t \<longrightarrow>
           tab_at next_table ?rd ?root Q = Some t \<or> t \<in> avail s \<and> Q \<noteq> [] \<and> hd Q = table_index va 3"
          using q2 by blast
      qed (rule av, rule lk)
    qed
  qed
  then show "avail s' \<subseteq> avail s"
    and "view sp mem' t \<noteq> view sp mem t \<Longrightarrow>
      t \<in> avail s \<or> t \<in> tabs next_table 3 (\<lambda>Q. Q = [] \<or> hd Q = table_index va 3) (view sp mem) (pml4 sp)"
    and "length Q \<le> 3 \<Longrightarrow> tab_at next_table (view sp mem') (pml4 sp) Q = Some t \<Longrightarrow>
      tab_at next_table (view sp mem) (pml4 sp) Q = Some t \<or> t \<in> avail s \<and> Q \<noteq> [] \<and> hd Q = table_index va 3"
    and "x86.links_have open_link 3 wnd (view sp mem) (pml4 sp) \<Longrightarrow> x86.links_have open_link 3 wnd (view sp mem') (pml4 sp)"
    by blast+
qed

section \<open>Spaces side by side\<close>

definition x86_at :: "u64 \<Rightarrow> AddressSpace" where
  "x86_at root = AddressSpace_new root 0"

lemma x86_at_simps [simp]: "pml4 (x86_at a) = a" "view (x86_at a) mem = mem"
proof -
  show "pml4 (x86_at a) = a" by (simp add: x86_at_def AddressSpace_new_def)
  show "view (x86_at a) mem = mem"
    unfolding view_def read_entry_def table_ptr_def x86_at_def AddressSpace_new_def by simp
qed

text \<open>All tables of a space, and those that are not the kernel's: the root and what hangs off entries other than 0.\<close>

definition all_tabs :: "ptmem \<Rightarrow> u64 \<Rightarrow> u64 set" where
  "all_tabs mem root = tabs next_table 3 (\<lambda>_. True) mem root"

definition user_tabs :: "ptmem \<Rightarrow> u64 \<Rightarrow> u64 set" where
  "user_tabs mem root = tabs next_table 3 (\<lambda>Q. Q = [] \<or> hd Q \<noteq> 0) mem root"

text \<open>Below entry 0 a space has the kernel's tables and the kernel's leaves.\<close>

definition sees_kernel :: "ptmem \<Rightarrow> u64 \<Rightarrow> u64 \<Rightarrow> bool" where
  "sees_kernel mem kroot root \<longleftrightarrow> (\<forall>Q. length Q = 4 \<and> hd Q = 0 \<longrightarrow>
       x86.same_leaf (stop_entry next_table mem kroot Q) (stop_entry next_table mem root Q))
     \<and> tabs next_table 3 (\<lambda>Q. Q \<noteq> [] \<and> hd Q = 0) mem root \<subseteq> all_tabs mem kroot"

definition spaces_inv :: "u64 \<Rightarrow> ptmem \<Rightarrow> u64 set \<Rightarrow> u64 set \<Rightarrow> bool" where
  "spaces_inv kroot mem F roots \<longleftrightarrow> space_ok (x86_at kroot) mem F
     \<and> (\<forall>a \<in> roots. space_ok (x86_at a) mem F \<and> sees_kernel mem kroot a
          \<and> x86.links_have open_link 3 (\<lambda>i. i \<noteq> 0) mem a \<and> user_tabs mem a \<inter> all_tabs mem kroot = {})
     \<and> (\<forall>a \<in> roots. \<forall>b \<in> roots. a \<noteq> b \<longrightarrow> user_tabs mem a \<inter> user_tabs mem b = {})"

lemma all_tabs_split:
  assumes "sees_kernel mem kroot a"
  shows "all_tabs mem a \<subseteq> user_tabs mem a \<union> all_tabs mem kroot"
proof -
  have "all_tabs mem a \<subseteq> user_tabs mem a \<union> tabs next_table 3 (\<lambda>Q. Q \<noteq> [] \<and> hd Q = 0) mem a"
    by (auto simp: all_tabs_def user_tabs_def tabs_def)
  then show ?thesis using assms by (auto simp: sees_kernel_def)
qed

lemma user_all: "user_tabs mem a \<subseteq> all_tabs mem a"
  unfolding user_tabs_def all_tabs_def by (rule x86.tabs_part)

lemma tabs_avail: "space_ok (x86_at a) mem F \<Longrightarrow> all_tabs mem a \<inter> F = {}"
  by (auto simp: space_ok_def x86.outside_def all_tabs_def tabs_def)

text \<open>Memory changed only outside the tables of a space: the space is as it was.\<close>

definition same_tables :: "ptmem \<Rightarrow> ptmem \<Rightarrow> u64 \<Rightarrow> bool" where
  "same_tables mem mem' a \<longleftrightarrow> (\<forall>t \<in> all_tabs mem a. mem' t = mem t)"

lemma same_tables_facts:
  assumes "same_tables mem mem' a"
  shows "all_tabs mem' a = all_tabs mem a" and "user_tabs mem' a = user_tabs mem a"
    and "tabs next_table 3 (\<lambda>Q. Q \<noteq> [] \<and> hd Q = 0) mem' a = tabs next_table 3 (\<lambda>Q. Q \<noteq> [] \<and> hd Q = 0) mem a"
    and "length Q = 4 \<Longrightarrow> stop_entry next_table mem' a Q = stop_entry next_table mem a Q"
    and "length Q \<le> 3 \<Longrightarrow> tab_at next_table mem' a Q = tab_at next_table mem a Q"
    and "space_ok (x86_at a) mem F \<Longrightarrow> G \<subseteq> F \<Longrightarrow> space_ok (x86_at a) mem' G"
    and "x86.links_have c 3 wnd mem a \<Longrightarrow> x86.links_have c 3 wnd mem' a"
proof -
  have s: "t \<in> tabs next_table 3 (\<lambda>_. True) mem a \<Longrightarrow> mem' t = mem t" for t
    using assms by (simp add: same_tables_def all_tabs_def)
  show "all_tabs mem' a = all_tabs mem a" "user_tabs mem' a = user_tabs mem a"
    "tabs next_table 3 (\<lambda>Q. Q \<noteq> [] \<and> hd Q = 0) mem' a = tabs next_table 3 (\<lambda>Q. Q \<noteq> [] \<and> hd Q = 0) mem a"
    unfolding all_tabs_def user_tabs_def by (rule x86.tabs_same [OF s]; assumption)+
  show "length Q = 4 \<Longrightarrow> stop_entry next_table mem' a Q = stop_entry next_table mem a Q"
    by (rule x86.tabs_stop [OF s]) simp_all
  have at: "length Q \<le> 3 \<Longrightarrow> tab_at next_table mem' a Q = tab_at next_table mem a Q" for Q
    using x86.tabs_cong [OF s, where Q = Q] by simp
  show "length Q \<le> 3 \<Longrightarrow> tab_at next_table mem' a Q = tab_at next_table mem a Q" by (rule at)
  show "space_ok (x86_at a) mem F \<Longrightarrow> G \<subseteq> F \<Longrightarrow> space_ok (x86_at a) mem' G"
    by (auto simp: space_ok_def x86.tree_def x86.outside_def at)
  show "x86.links_have c 3 wnd mem' a" if l: "x86.links_have c 3 wnd mem a"
    unfolding x86.links_have_def
  proof (intro allI impI)
    fix P p i
    assume a: "length P < 3" "tab_at next_table mem' a P = Some p" "next_table (mem' p i) \<noteq> None" "wnd (hd (P @ [i]))"
    then have p: "tab_at next_table mem a P = Some p" using at [of P] by simp
    then have "p \<in> all_tabs mem a" using a(1) by (auto simp: all_tabs_def tabs_def intro!: exI [of _ P])
    then have "mem' p = mem p" using assms by (simp add: same_tables_def)
    then show "c (mem' p i)" using a p l by (simp add: x86.links_have_def)
  qed
qed

lemma sees_kernel_same:
  assumes "same_tables mem mem' a" and "same_tables mem mem' kroot" and "sees_kernel mem kroot a"
  shows "sees_kernel mem' kroot a"
  using assms(3) unfolding sees_kernel_def same_tables_facts(1,3) [OF assms(1)] same_tables_facts(1) [OF assms(2)]
  by (simp add: same_tables_facts(4) [OF assms(1)] same_tables_facts(4) [OF assms(2)])

text \<open>A change to the tables of one space that are not the kernel's, and to frames not in use.\<close>

lemma private_write:
  assumes inv: "spaces_inv kroot mem F roots" and a: "a \<in> roots"
    and changed: "\<And>t. mem' t \<noteq> mem t \<Longrightarrow> t \<in> F \<union> user_tabs mem a"
    and F': "F' \<subseteq> F" and ok: "space_ok (x86_at a) mem' F'"
    and low: "\<And>Q. length Q = 4 \<Longrightarrow> hd Q = 0 \<Longrightarrow> x86.same_leaf (stop_entry next_table mem a Q) (stop_entry next_table mem' a Q)"
    and at: "\<And>Q t. length Q \<le> 3 \<Longrightarrow> tab_at next_table mem' a Q = Some t \<Longrightarrow>
      tab_at next_table mem a Q = Some t \<or> t \<in> F \<and> Q \<noteq> [] \<and> hd Q \<noteq> 0"
    and links: "x86.links_have open_link 3 (\<lambda>i. i \<noteq> 0) mem' a"
  shows "spaces_inv kroot mem' F' roots" and "same_tables mem mem' kroot"
    and "b \<in> roots \<Longrightarrow> b \<noteq> a \<Longrightarrow> same_tables mem mem' b"
proof -
  have k: "space_ok (x86_at kroot) mem F" using inv by (simp add: spaces_inv_def)
  have of: "space_ok (x86_at b) mem F" "sees_kernel mem kroot b" "user_tabs mem b \<inter> all_tabs mem kroot = {}"
    "x86.links_have open_link 3 (\<lambda>i. i \<noteq> 0) mem b" if "b \<in> roots" for b
    using inv that by (auto simp: spaces_inv_def)
  have apart: "b \<in> roots \<Longrightarrow> c \<in> roots \<Longrightarrow> b \<noteq> c \<Longrightarrow> user_tabs mem b \<inter> user_tabs mem c = {}" for b c
    using inv by (auto simp: spaces_inv_def)
  show sk: "same_tables mem mem' kroot"
    unfolding same_tables_def using changed tabs_avail [OF k] of(3) [OF a] by blast
  show sb: "same_tables mem mem' b" if b: "b \<in> roots" "b \<noteq> a" for b
    unfolding same_tables_def
    using changed tabs_avail [OF of(1) [OF b(1)]] all_tabs_split [OF of(2) [OF b(1)]] apart [OF b(1) a b(2)] of(3) [OF a] by blast
  have ua: "user_tabs mem' a \<subseteq> user_tabs mem a \<union> F"
    using at unfolding user_tabs_def tabs_def by blast
  have low_a: "sees_kernel mem' kroot a"
    unfolding sees_kernel_def
  proof (intro conjI allI impI)
    fix Q :: "nat list" assume Q: "length Q = 4 \<and> hd Q = 0"
    have "x86.same_leaf (stop_entry next_table mem kroot Q) (stop_entry next_table mem a Q)"
      using of(2) [OF a] Q by (simp add: sees_kernel_def)
    then show "x86.same_leaf (stop_entry next_table mem' kroot Q) (stop_entry next_table mem' a Q)"
      using low [of Q] Q same_tables_facts(4) [OF sk, of Q] by (auto simp: x86.same_leaf_def)
  next
    have "tabs next_table 3 (\<lambda>Q. Q \<noteq> [] \<and> hd Q = 0) mem' a \<subseteq> tabs next_table 3 (\<lambda>Q. Q \<noteq> [] \<and> hd Q = 0) mem a"
      using at unfolding tabs_def by blast
    then show "tabs next_table 3 (\<lambda>Q. Q \<noteq> [] \<and> hd Q = 0) mem' a \<subseteq> all_tabs mem' kroot"
      using of(2) [OF a] same_tables_facts(1) [OF sk] unfolding sees_kernel_def by blast
  qed
  have each: "space_ok (x86_at b) mem' F' \<and> sees_kernel mem' kroot b \<and> x86.links_have open_link 3 (\<lambda>i. i \<noteq> 0) mem' b
      \<and> user_tabs mem' b \<inter> all_tabs mem' kroot = {}" if b: "b \<in> roots" for b
  proof (cases "b = a")
    case True
    have "user_tabs mem' a \<inter> all_tabs mem' kroot = {}"
      using ua of(3) [OF a] tabs_avail [OF k] unfolding same_tables_facts(1) [OF sk] by blast
    then show ?thesis using True ok low_a links by simp
  next
    case False
    note s = sb [OF b False]
    show ?thesis
      using same_tables_facts(6) [OF s of(1) [OF b] F'] sees_kernel_same [OF s sk of(2) [OF b]] same_tables_facts(7) [OF s of(4) [OF b]]
        of(3) [OF b] unfolding same_tables_facts(2) [OF s] same_tables_facts(1) [OF sk] by blast
  qed
  have disj: "user_tabs mem' b \<inter> user_tabs mem' a = {}" if b: "b \<in> roots" "b \<noteq> a" for b
    using ua apart [OF b(1) a b(2)] tabs_avail [OF of(1) [OF b(1)]] user_all [of mem b]
    unfolding same_tables_facts(2) [OF sb [OF b]] by blast
  have "user_tabs mem' b \<inter> user_tabs mem' c = {}" if bc: "b \<in> roots" "c \<in> roots" "b \<noteq> c" for b c
  proof (cases "b = a \<or> c = a")
    case True
    then show ?thesis using disj [of b] disj [of c] bc by blast
  next
    case False
    then show ?thesis
      using apart [OF bc] same_tables_facts(2) [OF sb [OF bc(1)]] same_tables_facts(2) [OF sb [OF bc(2)]] by simp
  qed
  then show "spaces_inv kroot mem' F' roots"
    using same_tables_facts(6) [OF sk k F'] each by (simp add: spaces_inv_def)
qed

lemma map_step:
  assumes "fresh_source ok avail fa" and "ok s" and inv: "spaces_inv kroot mem (avail s) roots" and a: "a \<in> roots"
    and va: "table_index va 3 \<noteq> 0" and m: "AddressSpace_map fa (x86_at a) va pa flags (mem, s) = (r, mem', s')"
  shows "ok s' \<and> spaces_inv kroot mem' (avail s') roots \<and> same_tables mem mem' kroot \<and> (\<forall>b \<in> roots - {a}. same_tables mem mem' b)"
proof -
  have sp: "space_ok (x86_at a) mem (avail s)" and lk: "x86.links_have open_link 3 (\<lambda>i. i \<noteq> 0) mem a"
    using inv a by (auto simp: spaces_inv_def)
  note f = map_facts [OF assms(1,2) sp m] and t = map_tables [OF assms(1,2) sp m, unfolded x86_at_simps]
  have hdv: "hd (va_path va) = table_index va 3" by (simp add: va_path_def)
  have low: "x86.same_leaf (stop_entry next_table mem a Q) (stop_entry next_table mem' a Q)" if "length Q = 4" "hd Q = 0" for Q
  proof (cases r)
    case (Inl e)
    then show ?thesis using f(3) [OF Inl] that by (simp add: x86.same_leaves_def)
  next
    case (Inr u)
    then have "\<forall>Q. length Q = 4 \<and> Q \<noteq> va_path va \<longrightarrow> x86.same_leaf (stop_entry next_table mem a Q) (stop_entry next_table mem' a Q)"
      using f(4) by simp
    then show ?thesis using that hdv va by metis
  qed
  have ch: "x \<in> avail s \<union> user_tabs mem a" if "mem' x \<noteq> mem x" for x
    using t(2) [OF that] va unfolding user_tabs_def tabs_def by auto
  have at: "tab_at next_table mem a Q = Some x \<or> x \<in> avail s \<and> Q \<noteq> [] \<and> hd Q \<noteq> 0"
    if "length Q \<le> 3" "tab_at next_table mem' a Q = Some x" for Q x
    using t(3) [OF that] va by auto
  note p = private_write [OF inv a ch t(1) f(2) low at t(4) [OF lk]]
  show ?thesis using f(1) p by blast
qed

lemma space_unmap_step:
  assumes inv: "spaces_inv kroot mem F roots" and a: "a \<in> roots"
    and va: "table_index va 3 \<noteq> 0" and m: "AddressSpace_unmap (x86_at a) va mem = (r, mem')"
  shows "spaces_inv kroot mem' F roots \<and> same_tables mem mem' kroot \<and> (\<forall>b \<in> roots - {a}. same_tables mem mem' b)"
proof -
  have sp: "space_ok (x86_at a) mem F" and lk: "x86.links_have open_link 3 (\<lambda>i. i \<noteq> 0) mem a"
    using inv a by (auto simp: spaces_inv_def)
  have tr: "x86.tree 3 mem a" using sp by (simp add: space_ok_def)
  show ?thesis
  proof (cases "mem' = mem")
    case True
    then show ?thesis using inv by (simp add: same_tables_def)
  next
    case False
    note f = unmap_facts [OF sp m]
    let ?V = "map (table_index va) [3, 2, 1]" and ?i = "table_index va 0"
    obtain q where q: "tab_at next_table mem a ?V = Some q" "mem' = mem(q := (mem q)(?i := 0))"
    proof -
      have ne: "unmap_descend (x86_at a) va mem [3, 2, 1] a \<noteq> None"
        using False m by (auto simp: AddressSpace_unmap_def)
      then obtain q where d: "unmap_descend (x86_at a) va mem [3, 2, 1] a = Some q" by blast
      have "mem' = write_entry (x86_at a) q ?i 0 mem"
        using False m d by (auto simp: AddressSpace_unmap_def Let_def PTE_EMPTY_def split: if_splits)
      then have "view (x86_at a) mem' = (view (x86_at a) mem)(q := (view (x86_at a) mem q)(?i := 0))" by simp
      then have "mem' = mem(q := (mem q)(?i := 0))" by (simp only: x86_at_simps)
      moreover have "tab_at next_table mem a ?V = Some q" using d unfolding unmap_descend_tab x86_at_simps .
      ultimately show thesis by (rule that [rotated])
    qed
    have hdv: "hd (va_path va) = table_index va 3" by (simp add: va_path_def)
    have ch: "x \<in> F \<union> user_tabs mem a" if "mem' x \<noteq> mem x" for x
    proof -
      have "x = q" using that q(2) by (auto split: if_splits)
      moreover have "length ?V \<le> 3" "hd ?V \<noteq> 0" using va by simp_all
      ultimately show ?thesis using q(1) unfolding user_tabs_def tabs_def by blast
    qed
    have same: "tab_at next_table mem' a Q = tab_at next_table mem a Q" if "length Q \<le> 3" for Q
      unfolding q(2) using that by (intro x86.write_other(1) [OF tr q(1)]) auto
    have low: "x86.same_leaf (stop_entry next_table mem a Q) (stop_entry next_table mem' a Q)" if "length Q = 4" "hd Q = 0" for Q
    proof (cases r)
      case None
      then show ?thesis using f(2) False by simp
    next
      case (Some pa)
      then have "\<forall>Q. length Q = 4 \<and> Q \<noteq> va_path va \<longrightarrow> stop_entry next_table mem' a Q = stop_entry next_table mem a Q"
        using f(3) by simp
      then show ?thesis using that hdv va by (metis x86.same_leaf_def)
    qed
    have at: "tab_at next_table mem a Q = Some x \<or> x \<in> F \<and> Q \<noteq> [] \<and> hd Q \<noteq> 0"
      if "length Q \<le> 3" "tab_at next_table mem' a Q = Some x" for Q x using that same by metis
    have lk': "x86.links_have open_link 3 (\<lambda>i. i \<noteq> 0) mem' a"
      unfolding q(2) using lk by (intro x86.links_have_leaf [OF tr q(1)]) simp_all
    note p = private_write [OF inv a ch subset_refl f(1) low at lk']
    show ?thesis using p by blast
  qed
qed

lemma x86_space_at: "table_frame a \<Longrightarrow> x86_space a = x86_at a"
  by (simp add: x86_space_def x86_at_def table_frame_def ADDR_MASK_def)

text \<open>A new space: a zeroed root with the kernel's first entry.\<close>

lemma new_step:
  assumes "fresh_source ok avail fa" and "ok s" and inv: "spaces_inv kroot mem (avail s) roots"
    and c: "x86_create fa (mem, s) = (Some sp, mem1, s1)" and k: "token AND 0x000ffffffffff000 = kroot"
  defines "mem' \<equiv> x86_share_kernel token sp mem1"
  shows "ok s1 \<and> spaces_inv kroot mem' (avail s1) (insert (pml4 sp) roots) \<and> pml4 sp \<notin> roots
    \<and> sp = x86_at (pml4 sp) \<and> x86_space (pml4 sp) = sp \<and> same_tables mem mem' kroot \<and> (\<forall>b \<in> roots. same_tables mem mem' b)
    \<and> (\<forall>Q. length Q = 4 \<and> hd Q \<noteq> 0 \<longrightarrow> \<not> is_present (snd (stop_entry next_table mem' (pml4 sp) Q)))"
proof -
  obtain root where fa: "fa s = (Some root, s1)" and sp: "sp = x86_at root" and m1: "mem1 = mem(root := (\<lambda>_. 0))"
    using c by (auto simp: x86_create_def AddressSpace_create_def Let_def x86_at_def table_ptr_def AddressSpace_new_def
        PageTable_new_def PTE_EMPTY_def split: prod.splits option.splits)
  have src: "ok s1" "root \<in> avail s" "avail s1 \<subseteq> avail s - {root}" using fresh_source_Some [OF assms(1,2) fa] by auto
  have ks: "space_ok (x86_at kroot) mem (avail s)" using inv by (simp add: spaces_inv_def)
  have of: "space_ok (x86_at b) mem (avail s)" "sees_kernel mem kroot b" "user_tabs mem b \<inter> all_tabs mem kroot = {}"
    "x86.links_have open_link 3 (\<lambda>i. i \<noteq> 0) mem b" if "b \<in> roots" for b
    using inv that by (auto simp: spaces_inv_def)
  have un: "root \<notin> all_tabs mem b" if "space_ok (x86_at b) mem (avail s)" for b
    using tabs_avail [OF that] src(2) by blast
  have own: "b \<in> user_tabs mem b" for b mem by (auto simp: user_tabs_def tabs_def intro!: exI [of _ "[]"])
  have kr: "kroot \<noteq> root" using un [OF ks] own [of kroot mem] user_all by blast
  have mem': "mem' = mem(root := (\<lambda>_. 0)(0 := mem kroot 0))"
    using kr by (simp add: mem'_def x86_share_kernel_def Let_def k sp m1)
  have same: "same_tables mem mem' b" if "space_ok (x86_at b) mem (avail s)" for b
    using un [OF that] by (auto simp: same_tables_def mem')
  note sk = same [OF ks]
  have nz: "next_table 0 = None" by (simp add: next_table_def is_present_bit)
  have r0: "mem' root 0 = mem' kroot 0" "mem' root (Suc i) = 0" for i using kr by (simp_all add: mem')
  have tab: "tab_at next_table mem' root Q = (case Q of [] \<Rightarrow> Some root | i # R \<Rightarrow> if i = 0 then tab_at next_table mem kroot Q else None)"
    if "length Q \<le> 3" for Q
  proof (cases Q)
    case (Cons i R)
    have "tab_at next_table mem' kroot Q = tab_at next_table mem kroot Q" by (rule same_tables_facts(5) [OF sk that])
    then show ?thesis using Cons r0 nz by (cases i) auto
  qed simp
  have stop: "stop_entry next_table mem' root Q = stop_entry next_table mem' kroot Q" if "length Q = 4" "hd Q = 0" for Q
    using that r0 by (cases "(next_table, mem', root, Q)" rule: stop_entry.cases) (auto split: option.split)
  have dead: "\<not> is_present (snd (stop_entry next_table mem' root Q))" if "length Q = 4" "hd Q \<noteq> 0" for Q
  proof -
    have "\<exists>i j R. Q = Suc i # j # R"
      using that by (cases "(next_table, mem', root, Q)" rule: stop_entry.cases) (auto simp: gr0_conv_Suc)
    then obtain i j R where "Q = Suc i # j # R" by blast
    then show ?thesis using r0(2) nz by (simp add: is_present_bit)
  qed
  have kt: "x86.tree 3 mem kroot" "x86.outside 3 mem kroot (avail s)" using ks by (auto simp: space_ok_def)
  have out: "tab_at next_table mem kroot Q \<noteq> Some f" if "length Q \<le> 3" "f \<in> avail s" for Q f
    using kt(2) that by (auto simp: x86.outside_def)
  have tree: "x86.tree 3 mem' root"
    unfolding x86.tree_def
  proof (intro allI impI)
    fix P Q p
    assume a: "length P \<le> 3 \<and> length Q \<le> 3 \<and> tab_at next_table mem' root P = Some p \<and> tab_at next_table mem' root Q = Some p"
    then show "P = Q"
      using tab [of P] tab [of Q] out [of P root] out [of Q root] src(2) x86.tree_inj [OF kt(1), of P p Q]
      by (auto split: list.splits if_splits)
  qed
  have outs: "x86.outside 3 mem' root (avail s1)"
  proof -
    have "table_frame f \<and> (\<forall>Q. length Q \<le> 3 \<longrightarrow> tab_at next_table mem' root Q \<noteq> Some f)" if f: "f \<in> avail s1" for f
    proof (intro conjI allI impI)
      show "table_frame f" using kt(2) f src(3) by (auto simp: x86.outside_def)
      fix Q :: "nat list" assume l: "length Q \<le> 3"
      show "tab_at next_table mem' root Q \<noteq> Some f"
        using tab [OF l] out [OF l, of f] f src(3) by (auto split: list.splits)
    qed
    then show ?thesis by (auto simp: x86.outside_def)
  qed
  have uroot: "user_tabs mem' root \<subseteq> {root}"
    using tab by (auto simp: user_tabs_def tabs_def split: list.splits if_splits)
  have "sees_kernel mem' kroot root"
    unfolding sees_kernel_def
  proof (intro conjI allI impI)
    fix Q :: "nat list" assume "length Q = 4 \<and> hd Q = 0"
    then show "x86.same_leaf (stop_entry next_table mem' kroot Q) (stop_entry next_table mem' root Q)"
      using stop [of Q] by (simp add: x86.same_leaf_def)
  next
    show "tabs next_table 3 (\<lambda>Q. Q \<noteq> [] \<and> hd Q = 0) mem' root \<subseteq> all_tabs mem' kroot"
      unfolding same_tables_facts(1) [OF sk] using tab by (auto simp: tabs_def all_tabs_def split: list.splits)
  qed
  moreover have "x86.links_have open_link 3 (\<lambda>i. i \<noteq> 0) mem' root"
    unfolding x86.links_have_def
  proof (intro allI impI)
    fix P p i
    assume a: "length P < 3" "tab_at next_table mem' root P = Some p" "next_table (mem' p i) \<noteq> None" "hd (P @ [i]) \<noteq> 0"
    then have "P = []" using tab [of P] by (auto split: list.splits if_splits)
    then show "open_link (mem' p i)" using a r0(2) nz by (cases i) auto
  qed
  moreover have "user_tabs mem' root \<inter> all_tabs mem' kroot = {}"
    using uroot un [OF ks] unfolding same_tables_facts(1) [OF sk] by blast
  moreover have "space_ok (x86_at root) mem' (avail s1)" using tree outs by (simp add: space_ok_def)
  ultimately have new: "space_ok (x86_at root) mem' (avail s1) \<and> sees_kernel mem' kroot root
      \<and> x86.links_have open_link 3 (\<lambda>i. i \<noteq> 0) mem' root \<and> user_tabs mem' root \<inter> all_tabs mem' kroot = {}" by blast
  have sub: "avail s1 \<subseteq> avail s" using src(3) by blast
  have old: "space_ok (x86_at b) mem' (avail s1) \<and> sees_kernel mem' kroot b
      \<and> x86.links_have open_link 3 (\<lambda>i. i \<noteq> 0) mem' b \<and> user_tabs mem' b \<inter> all_tabs mem' kroot = {}" if b: "b \<in> roots" for b
    using same_tables_facts(6) [OF same [OF of(1) [OF b]] of(1) [OF b] sub] sees_kernel_same [OF same [OF of(1) [OF b]] sk of(2) [OF b]]
      same_tables_facts(7) [OF same [OF of(1) [OF b]] of(4) [OF b]] of(3) [OF b]
    unfolding same_tables_facts(2) [OF same [OF of(1) [OF b]]] same_tables_facts(1) [OF sk] by blast
  have nr: "root \<notin> roots" using un of(1) own user_all by blast
  have "user_tabs mem' root \<inter> user_tabs mem' b = {}" if b: "b \<in> roots" for b
    using uroot un [OF of(1) [OF b]] user_all [of mem b] unfolding same_tables_facts(2) [OF same [OF of(1) [OF b]]] by blast
  moreover have "user_tabs mem' b \<inter> user_tabs mem' c = {}" if b: "b \<in> roots" "c \<in> roots" "b \<noteq> c" for b c
    using inv b unfolding same_tables_facts(2) [OF same [OF of(1) [OF b(1)]]] same_tables_facts(2) [OF same [OF of(1) [OF b(2)]]]
    by (simp add: spaces_inv_def)
  ultimately have "spaces_inv kroot mem' (avail s1) (insert root roots)"
    using new old same_tables_facts(6) [OF sk ks sub] unfolding spaces_inv_def by blast
  moreover have "x86_space root = x86_at root"
    using kt(2) src(2) by (intro x86_space_at) (auto simp: x86.outside_def)
  ultimately show ?thesis using src(1) nr sp sk same of(1) dead by simp
qed

section \<open>The spaces of a running kernel\<close>

text \<open>
  What happens to page tables after boot: a space is created with the kernel shared into it (or there is
  no frame for it), a page is mapped in a space named by its token, a page is unmapped. The addresses are
  outside the kernel's entry of the root, as the whole user window is.
\<close>

inductive space_step ::
    "('s \<Rightarrow> u64 option \<times> 's) \<Rightarrow> u64 \<Rightarrow> ptmem \<times> 's \<times> u64 set \<Rightarrow> ptmem \<times> 's \<times> u64 set \<Rightarrow> bool" for fa token where
  new: "x86_create fa (mem, s) = (Some sp, mem1, s1) \<Longrightarrow>
    space_step fa token (mem, s, roots) (x86_share_kernel token sp mem1, s1, insert (x86_token sp) roots)"
| none: "x86_create fa (mem, s) = (None, mem1, s1) \<Longrightarrow> space_step fa token (mem, s, roots) (mem1, s1, roots)"
| mapped: "a \<in> roots \<Longrightarrow> table_index va 3 \<noteq> 0 \<Longrightarrow> x86_map_page fa (x86_space a) va pa perms (mem, s) = (r, mem', s') \<Longrightarrow>
    space_step fa token (mem, s, roots) (mem', s', roots)"
| unmapped: "a \<in> roots \<Longrightarrow> table_index va 3 \<noteq> 0 \<Longrightarrow> x86_unmap_page (x86_space a) va mem = (r, mem') \<Longrightarrow>
    space_step fa token (mem, s, roots) (mem', s, roots)"

definition kernel_root :: "u64 \<Rightarrow> u64" where
  "kernel_root token = token AND 0x000ffffffffff000"

text \<open>A kernel space and a source of frames that are not its tables.\<close>

definition kernel_boots :: "('s \<Rightarrow> bool) \<Rightarrow> ('s \<Rightarrow> u64 set) \<Rightarrow> ('s \<Rightarrow> u64 option \<times> 's) \<Rightarrow> u64 \<Rightarrow> ptmem \<Rightarrow> 's \<Rightarrow> bool" where
  "kernel_boots ok avail fa token mem s \<longleftrightarrow> fresh_source ok avail fa \<and> ok s \<and> space_ok (x86_at (kernel_root token)) mem (avail s)"

lemma x86_map_page_map:
  "x86_map_page fa sp va pa perms (mem, s) = (b, mem', s') \<Longrightarrow>
   \<exists>r. AddressSpace_map fa sp va pa (x86_perm_flags perms) (mem, s) = (r, mem', s') \<and> (b \<longleftrightarrow> r = Inr ())"
  by (auto simp: x86_map_page_def split: prod.splits sum.splits)

lemma same_tables_trans: "same_tables a b k \<Longrightarrow> same_tables b c k \<Longrightarrow> same_tables a c k"
  using same_tables_facts(1) [of a b k] by (simp add: same_tables_def)

lemma spaces_reachable:
  assumes "kernel_boots ok avail fa token mem0 s0"
    and "(space_step fa token)\<^sup>*\<^sup>* (mem0, s0, {}) (mem, s, roots)"
  shows "ok s \<and> spaces_inv (kernel_root token) mem (avail s) roots \<and> same_tables mem0 mem (kernel_root token)
    \<and> (\<forall>a \<in> roots. x86_space a = x86_at a)"
  using assms(2)
proof (induction "(mem, s, roots)" arbitrary: mem s roots rule: rtranclp_induct)
  case base
  then show ?case using assms(1) by (simp add: kernel_boots_def spaces_inv_def same_tables_def)
next
  case (step y)
  obtain m1 s1 rs where y: "y = (m1, s1, rs)" by (cases y) auto
  have ih: "ok s1" "spaces_inv (kernel_root token) m1 (avail s1) rs" "same_tables mem0 m1 (kernel_root token)"
    "\<forall>a \<in> rs. x86_space a = x86_at a"
    using step.hyps(3) [OF y] by auto
  have fa: "fresh_source ok avail fa" using assms(1) by (simp add: kernel_boots_def)
  from step.hyps(2)[unfolded y] show ?case
  proof cases
    case (new sp mem1)
    note n = new_step [OF fa ih(1,2) new(3) kernel_root_def [symmetric]]
    then show ?thesis using ih(3,4) same_tables_trans unfolding new(1,2) x86_token_def by (metis insert_iff)
  next
    case none
    then have c: "fa s1 = (None, s)" "mem = m1"
      by (auto simp: x86_create_def AddressSpace_create_def Let_def split: prod.splits option.splits)
    note a = fresh_source_None [OF fa ih(1) c(1)]
    have "spaces_inv (kernel_root token) m1 (avail s) rs"
      using ih(2) a unfolding spaces_inv_def space_ok_def using x86.outside_mono by blast
    then show ?thesis using none a ih(3,4) c(2) by simp
  next
    case (mapped a va pa perms r)
    obtain e where e: "AddressSpace_map fa (x86_at a) va pa (x86_perm_flags perms) (m1, s1) = (e, mem, s)"
      using x86_map_page_map [OF mapped(4)] ih(4) mapped(2) by auto
    note m = map_step [OF fa ih(1,2) mapped(2,3) e]
    then show ?thesis using ih(3,4) same_tables_trans mapped(1) by metis
  next
    case (unmapped a va r)
    then have u: "AddressSpace_unmap (x86_at a) va m1 = (r, mem)" using ih(4) by (simp add: x86_unmap_page_def)
    note m = space_unmap_step [OF ih(2) unmapped(3,4) u]
    then show ?thesis using ih(1,3,4) same_tables_trans unmapped(1,2) by metis
  qed
qed

section \<open>What user code can reach\<close>

definition in_space :: "u64 \<Rightarrow> ptmem \<Rightarrow> UMem" where
  "in_space a mem = \<lparr>um_root = a, um_tables = mem, um_bytes = (\<lambda>_. 0)\<rparr>"

text \<open>
  The processor's side of the two remaining permissions. An instruction is fetched for user code where
  user code may read and no entry of the walk has the execute-disable bit (EFER.NXE is set); an access is
  not cached when the leaf has both cache bits.
\<close>

fun x86_walk_noexec :: "AddressSpace \<Rightarrow> VirtAddr \<Rightarrow> ptmem \<Rightarrow> nat list \<Rightarrow> PhysAddr \<Rightarrow> bool" where
  "x86_walk_noexec sp va mem [] table_pa = False"
| "x86_walk_noexec sp va mem (level # levels) table_pa =
     (let entry = read_entry sp mem table_pa (table_index va level)
      in is_present entry \<and> (bit entry 63
           \<or> level \<noteq> 0 \<and> \<not> is_huge entry \<and> x86_walk_noexec sp va mem levels (PTE_addr entry)))"

definition x86_user_fetch :: "UMem \<Rightarrow> u64 \<Rightarrow> u64 option" where
  "x86_user_fetch m va = (let sp = x86_space (um_root m)
     in if x86_walk_noexec sp va (um_tables m) [3, 2, 1, 0] (pml4 sp) then None else x86_user_access m False va)"

definition x86_uncached :: "UMem \<Rightarrow> u64 \<Rightarrow> bool" where
  "x86_uncached m va = (case leaf_flags (x86_space (um_root m)) va (um_tables m) of None \<Rightarrow> False | Some f \<Rightarrow> bit f 3 \<and> bit f 4)"

lemma flags_same:
  assumes "same_tables mem mem' a" and "tab_at next_table mem a P = Some p" and "length P + length levels = 4"
  shows "x86_walk_flags (x86_at a) va mem' levels p = x86_walk_flags (x86_at a) va mem levels p"
  using assms(2,3)
proof (induction levels arbitrary: P p)
  case (Cons level levels)
  let ?e = "mem p (table_index va level)"
  have "length P \<le> 3" using Cons.prems(2) by simp
  then have "p \<in> all_tabs mem a" using Cons.prems(1) by (auto simp: all_tabs_def tabs_def)
  then have eq: "mem' p = mem p" using assms(1) by (simp add: same_tables_def)
  have "x86_walk_flags (x86_at a) va mem' levels (PTE_addr ?e) = x86_walk_flags (x86_at a) va mem levels (PTE_addr ?e)"
    if "is_present ?e" "\<not> is_huge ?e"
  proof (rule Cons.IH)
    have "next_table ?e = Some (PTE_addr ?e)" using that by (simp add: next_table_def)
    then show "tab_at next_table mem a (P @ [table_index va level]) = Some (PTE_addr ?e)"
      using Cons.prems(1) by (simp add: tab_at_snoc)
  qed (use Cons.prems(2) in simp)
  then show ?case by (simp add: Let_def eq)
qed simp

lemma access_same:
  assumes "same_tables mem mem' a" and "x86_space a = x86_at a"
  shows "x86_access (if user then USER else 0) (in_space a mem') w va = x86_access (if user then USER else 0) (in_space a mem) w va"
proof -
  have "x86_flags (in_space a mem') va = x86_flags (in_space a mem) va"
    using flags_same [OF assms(1), of "[]" a "[3, 2, 1, 0]" va] by (simp add: x86_flags_def in_space_def assms(2) del: x86_walk_flags.simps)
  moreover have "translate (x86_at a) va mem' = translate (x86_at a) va mem"
    unfolding translate_eq using same_tables_facts(4) [OF assms(1), of "va_path va"] by (simp add: va_path_def del: stop_entry.simps)
  ultimately show ?thesis unfolding x86_access_bits by (simp add: in_space_def assms(2) split: option.split)
qed

lemma path_open:
  assumes "x86.links_have open_link 3 (\<lambda>i. i \<noteq> 0) mem a" and "table_index va 3 \<noteq> 0"
    and "tab_at next_table mem a P = Some p" and "length P + n = 4" and "P \<noteq> [] \<Longrightarrow> hd P = table_index va 3"
  shows "x86_path_open (x86_at a) va mem (rev [0..<n]) p"
  using assms(3-5)
proof (induction n arbitrary: P p)
  case (Suc n)
  let ?e = "mem p (table_index va n)"
  have hd: "hd (P @ [table_index va n]) = table_index va 3" using Suc.prems(2,3) by (cases P) auto
  have "open_link ?e \<and> x86_path_open (x86_at a) va mem (rev [0..<n]) (PTE_addr ?e)" if "is_present ?e" "n \<noteq> 0" "\<not> is_huge ?e"
  proof
    have nt: "next_table ?e = Some (PTE_addr ?e)" using that by (simp add: next_table_def)
    have "length P < 3" using Suc.prems(2) that(2) by simp
    then show "open_link ?e" using assms(1,2) Suc.prems(1) nt hd unfolding x86.links_have_def by (metis option.distinct(1))
    show "x86_path_open (x86_at a) va mem (rev [0..<n]) (PTE_addr ?e)"
    proof (rule Suc.IH)
      show "tab_at next_table mem a (P @ [table_index va n]) = Some (PTE_addr ?e)" using Suc.prems(1) nt by (simp add: tab_at_snoc)
    qed (use Suc.prems(2) hd in simp_all)
  qed
  then show ?case by (simp add: Let_def open_link_def)
qed simp

lemma path_open_4:
  assumes "x86.links_have open_link 3 (\<lambda>i. i \<noteq> 0) mem a" and "table_index va 3 \<noteq> 0"
  shows "x86_path_open (x86_at a) va mem [3, 2, 1, 0] a"
proof -
  have "rev [0..<4] = [3, 2, 1, 0 :: nat]" by (simp add: upt_rec)
  then show ?thesis using path_open [OF assms, of "[]" a 4] by (simp del: x86_path_open.simps)
qed

lemma path_noexec:
  assumes "x86.links_have open_link 3 (\<lambda>i. i \<noteq> 0) mem a" and "table_index va 3 \<noteq> 0"
    and "tab_at next_table mem a P = Some p" and "length P + n = 4" and "P \<noteq> [] \<Longrightarrow> hd P = table_index va 3"
  shows "x86_walk_noexec (x86_at a) va mem (rev [0..<n]) p \<longleftrightarrow>
    (\<exists>g. leaf_flags_walk (x86_at a) va mem (rev [0..<n]) p = Some g \<and> bit g 63)"
  using assms(3-5)
proof (induction n arbitrary: P p)
  case (Suc n)
  let ?e = "mem p (table_index va n)"
  have hd: "hd (P @ [table_index va n]) = table_index va 3" using Suc.prems(2,3) by (cases P) auto
  have f: "bit (PTE_flags ?e) 63 = bit ?e 63" by (simp add: PTE_flags_def FLAG_MASK_def bit_and_iff bit_not_iff ADDR_MASK_bit)
  have "\<not> bit ?e 63 \<and> (x86_walk_noexec (x86_at a) va mem (rev [0..<n]) (PTE_addr ?e) \<longleftrightarrow>
      (\<exists>g. leaf_flags_walk (x86_at a) va mem (rev [0..<n]) (PTE_addr ?e) = Some g \<and> bit g 63))"
    if "is_present ?e" "n \<noteq> 0" "\<not> is_huge ?e"
  proof
    have nt: "next_table ?e = Some (PTE_addr ?e)" using that by (simp add: next_table_def)
    have "length P < 3" using Suc.prems(2) that(2) by simp
    then have "open_link ?e" using assms(1,2) Suc.prems(1) nt hd unfolding x86.links_have_def by (metis option.distinct(1))
    then show "\<not> bit ?e 63" by (simp add: open_link_def)
    show "x86_walk_noexec (x86_at a) va mem (rev [0..<n]) (PTE_addr ?e) \<longleftrightarrow>
      (\<exists>g. leaf_flags_walk (x86_at a) va mem (rev [0..<n]) (PTE_addr ?e) = Some g \<and> bit g 63)"
    proof (rule Suc.IH)
      show "tab_at next_table mem a (P @ [table_index va n]) = Some (PTE_addr ?e)" using Suc.prems(1) nt by (simp add: tab_at_snoc)
    qed (use Suc.prems(2) hd in simp_all)
  qed
  then show ?case using f by (auto simp: Let_def)
qed simp

text \<open>The links above every user address of a space the kernel built are open.\<close>

lemma user_window_index: "X86_USER_BASE \<le> va \<Longrightarrow> va < X86_USER_LIMIT \<Longrightarrow> table_index va 3 = 1"
proof -
  assume a: "X86_USER_BASE \<le> va" "va < X86_USER_LIMIT"
  have "unat va div 2 ^ 39 = 1"
    using a by (intro div_nat_eqI) (simp_all add: X86_USER_BASE_def X86_USER_LIMIT_def word_le_nat_alt word_less_nat_alt)
  moreover have "unat (drop_bit 39 va) = unat va div 2 ^ 39" unfolding unat_drop_bit_eq by (rule drop_bit_eq_div)
  ultimately have "drop_bit 39 va = 1" by (simp add: word_unat_eq_iff)
  then show "table_index va 3 = 1" by (simp add: table_index_def PAGE_SHIFT_def)
qed

lemma links_are_open:
  assumes "kernel_boots ok avail fa token mem0 s0"
    and "(space_step fa token)\<^sup>*\<^sup>* (mem0, s0, {}) (mem, s, roots)"
    and "um_root m \<in> roots" and "um_tables m = mem"
  shows "x86_links_open m"
proof -
  note rc = spaces_reachable [OF assms(1,2)]
  then have at: "x86_space (um_root m) = x86_at (um_root m)" and lk: "x86.links_have open_link 3 (\<lambda>i. i \<noteq> 0) mem (um_root m)"
    using assms(3) by (auto simp: spaces_inv_def)
  show ?thesis
    unfolding x86_links_open_def at assms(4) x86_at_simps
  proof (intro allI impI)
    fix va assume "X86_USER_BASE \<le> va \<and> va < X86_USER_LIMIT"
    then have "table_index va 3 \<noteq> 0" using user_window_index by simp
    then show "x86_path_open (x86_at (um_root m)) va mem [3, 2, 1, 0] (um_root m)" by (rule path_open_4 [OF lk])
  qed
qed

text \<open>The access of user code in the stopping entry of the walk.\<close>

lemma user_access_entry:
  assumes "x86.links_have open_link 3 (\<lambda>i. i \<noteq> 0) mem a" and "table_index va 3 \<noteq> 0" and "x86_space a = x86_at a"
  shows "x86_user_access (in_space a mem) w va =
    (let x = stop_entry next_table mem a (va_path va) in if is_present (snd x) \<and> access_bits True w (PTE_flags (snd x)) then decode va x else None)"
proof -
  note po = path_open_4 [OF assms(1,2)]
  obtain l e where x: "stop_entry next_table mem a (va_path va) = (l, e)" by fastforce
  have lf: "leaf_flags_walk (x86_at a) va mem [3, 2, 1, 0] a = (if is_present e then Some (PTE_flags e) else None)"
    using leaf_flags_eq [of "x86_at a" va mem] x by (simp add: leaf_flags_def del: leaf_flags_walk.simps)
  have tr: "translate (x86_at a) va mem = decode va (l, e)" by (simp add: translate_eq x)
  have fl: "x86_flags (in_space a mem) va = x86_walk_flags (x86_at a) va mem [3, 2, 1, 0] a"
    by (simp add: x86_flags_def in_space_def assms(3) del: x86_walk_flags.simps)
  show ?thesis
  proof (cases "is_present e")
    case True
    then obtain f where "x86_walk_flags (x86_at a) va mem [3, 2, 1, 0] a = Some f"
        "\<forall>user write. access_bits user write f = access_bits user write (PTE_flags e)"
      using x86_walk_open [OF _ po] lf by auto
    then show ?thesis
      unfolding x86_user_access_def x86_accesses fl using True tr by (simp add: in_space_def assms(3) x)
  next
    case False
    then have "x86_walk_flags (x86_at a) va mem [3, 2, 1, 0] a = None"
      using x86_walk_below [of "x86_at a" va mem "[3, 2, 1, 0]" a] lf by (cases "x86_walk_flags (x86_at a) va mem [3, 2, 1, 0] a") auto
    then show ?thesis unfolding x86_user_access_def x86_accesses fl using False by (simp add: x)
  qed
qed

lemma user_fetch_entry:
  assumes "x86.links_have open_link 3 (\<lambda>i. i \<noteq> 0) mem a" and "table_index va 3 \<noteq> 0" and "x86_space a = x86_at a"
  shows "x86_user_fetch (in_space a mem) va =
    (let x = stop_entry next_table mem a (va_path va)
     in if is_present (snd x) \<and> access_bits True False (PTE_flags (snd x)) \<and> \<not> bit (PTE_flags (snd x)) 63 then decode va x else None)"
proof -
  obtain l e where x: "stop_entry next_table mem a (va_path va) = (l, e)" by fastforce
  have "rev [0..<4] = [3, 2, 1, 0 :: nat]" by (simp add: upt_rec)
  then have "x86_walk_noexec (x86_at a) va mem [3, 2, 1, 0] a \<longleftrightarrow> (\<exists>g. leaf_flags_walk (x86_at a) va mem [3, 2, 1, 0] a = Some g \<and> bit g 63)"
    using path_noexec [OF assms(1,2), of "[]" a 4] by (simp del: x86_walk_noexec.simps leaf_flags_walk.simps)
  also have "leaf_flags_walk (x86_at a) va mem [3, 2, 1, 0] a = (if is_present e then Some (PTE_flags e) else None)"
    using leaf_flags_eq [of "x86_at a" va mem] x by (simp add: leaf_flags_def del: leaf_flags_walk.simps)
  finally have n: "x86_walk_noexec (x86_at a) va mem [3, 2, 1, 0] a \<longleftrightarrow> is_present e \<and> bit (PTE_flags e) 63" by simp
  have s: "um_root (in_space a mem) = a" "um_tables (in_space a mem) = mem" by (simp_all add: in_space_def)
  show ?thesis
    unfolding x86_user_fetch_def user_access_entry [OF assms, of False] x s assms(3) Let_def x86_at_simps n snd_conv by simp
qed

lemma uncached_entry:
  assumes "x86_space a = x86_at a"
  shows "x86_uncached (in_space a mem) va =
    (let e = snd (stop_entry next_table mem a (va_path va)) in is_present e \<and> bit (PTE_flags e) 3 \<and> bit (PTE_flags e) 4)"
  by (simp add: x86_uncached_def in_space_def assms leaf_flags_eq Let_def split: prod.split)

lemma restriction_bits: "bit NO_EXEC i \<longleftrightarrow> i = 63" "bit NO_CACHE i \<longleftrightarrow> i = 3 \<or> i = 4"
  unfolding NO_EXEC_def NO_CACHE_def push_bit_of_1 bit_or_iff bit_exp_iff possible_bit_word by auto

lemma perm_bits:
  "access_bits True w (PTE_flags (PTE_new pa (x86_perm_flags perms OR PRESENT))) \<longleftrightarrow> pm_user perms \<and> (w \<longrightarrow> pm_write perms)"
proof -
  have "bit (PTE_new pa fl) 1 = bit fl 1" "bit (PTE_new pa fl) 2 = bit fl 2" for fl
    by (simp_all add: PTE_new_bit)
  then show ?thesis
    using restriction_bits
    by (simp add: access_bits_def PTE_flags_low x86_perm_flags_def Let_def PageFlags_union_def bit_or_iff x86_flag_bits)
qed

lemma restricted_bits:
  "bit (PTE_flags (PTE_new pa (x86_perm_flags perms OR PRESENT))) 63 \<longleftrightarrow> \<not> pm_exec perms"
  "bit (PTE_flags (PTE_new pa (x86_perm_flags perms OR PRESENT))) 3 \<and> bit (PTE_flags (PTE_new pa (x86_perm_flags perms OR PRESENT))) 4
   \<longleftrightarrow> pm_device perms"
proof -
  have "bit (PTE_flags (PTE_new pa fl)) i = bit fl i" if "i \<in> {3, 4, 63}" for fl i
    using that by (auto simp: PTE_flags_def FLAG_MASK_def bit_and_iff bit_not_iff ADDR_MASK_bit PTE_new_bit)
  then show "bit (PTE_flags (PTE_new pa (x86_perm_flags perms OR PRESENT))) 63 \<longleftrightarrow> \<not> pm_exec perms"
    "bit (PTE_flags (PTE_new pa (x86_perm_flags perms OR PRESENT))) 3 \<and> bit (PTE_flags (PTE_new pa (x86_perm_flags perms OR PRESENT))) 4
     \<longleftrightarrow> pm_device perms"
    by (simp_all add: restriction_bits x86_perm_flags_def Let_def PageFlags_union_def bit_or_iff x86_flag_bits)
qed

section \<open>Properties\<close>

text \<open>
  (C14) Processes stay isolated: after any history of creating spaces, mapping and unmapping, a further map or
  unmap of a user page in one space changes no access, by user code or by the kernel, to any address of
  any other space, be it the kernel's own, although all spaces share the kernel's tables.
\<close>

theorem spaces_stay_isolated:
  assumes "kernel_boots ok avail fa token mem0 s0"
    and "(space_step fa token)\<^sup>*\<^sup>* (mem0, s0, {}) (mem, s, roots)"
    and "a \<in> roots" and "b \<in> roots \<or> b = kernel_root token" and "a \<noteq> b" and "table_index va 3 \<noteq> 0"
    and "x86_map_page fa (x86_space a) va pa perms (mem, s) = (done, mem', s') \<or> x86_unmap_page (x86_space a) va mem = (r, mem')"
  shows "x86_access (if user then USER else 0) (in_space b mem') w va' = x86_access (if user then USER else 0) (in_space b mem) w va'"
proof -
  note rc = spaces_reachable [OF assms(1,2)]
  have fa: "fresh_source ok avail fa" using assms(1) by (simp add: kernel_boots_def)
  have "x86_space (kernel_root token) = x86_at (kernel_root token)"
    by (simp add: x86_space_def x86_at_def kernel_root_def and.assoc)
  then have at: "x86_space a = x86_at a" "x86_space b = x86_at b" using rc assms(3,4) by blast+
  have inv: "spaces_inv (kernel_root token) mem (avail s) roots" and "ok s" using rc by blast+
  have "same_tables mem mem' b"
    using assms(7)
  proof
    assume m: "x86_map_page fa (x86_space a) va pa perms (mem, s) = (done, mem', s')"
    then obtain e where "AddressSpace_map fa (x86_at a) va pa (x86_perm_flags perms) (mem, s) = (e, mem', s')"
      using x86_map_page_map [OF m] unfolding at by blast
    from map_step [OF fa \<open>ok s\<close> inv assms(3,6) this] show ?thesis using assms(4,5) by blast
  next
    assume "x86_unmap_page (x86_space a) va mem = (r, mem')"
    then have "AddressSpace_unmap (x86_at a) va mem = (r, mem')" by (simp add: at x86_unmap_page_def)
    from space_unmap_step [OF inv assms(3,6) this] show ?thesis using assms(4,5) by blast
  qed
  then show ?thesis by (rule access_same [OF _ at(2)])
qed

text \<open>
  (C17) A map grants one page and what its permissions say: after a successful \<open>map_page\<close> in a space of a
  running kernel, user code of that space reaches the given frame through the page only if user was
  given, for writing only if write was given too, and for execution only if exec was given, by the
  processor's own walk; the page is uncached exactly if it is a device's; and every other user page is
  reachable, executable and cached exactly as before.
\<close>

theorem map_page_grants_one_page:
  assumes "kernel_boots ok avail fa token mem0 s0"
    and "(space_step fa token)\<^sup>*\<^sup>* (mem0, s0, {}) (mem, s, roots)"
    and "a \<in> roots" and "table_index va 3 \<noteq> 0" and "table_index va' 3 \<noteq> 0"
    and "x86_map_page fa (x86_space a) va pa perms (mem, s) = (True, mem', s')"
  shows "x86_user_access (in_space a mem') w va' =
    (if va_path va' = va_path va
     then if pm_user perms \<and> (w \<longrightarrow> pm_write perms) then Some ((pa AND ADDR_MASK) + (va' AND (PAGE_SIZE - 1))) else None
     else x86_user_access (in_space a mem) w va')
   \<and> x86_user_fetch (in_space a mem') va' =
    (if va_path va' = va_path va
     then if pm_user perms \<and> pm_exec perms then Some ((pa AND ADDR_MASK) + (va' AND (PAGE_SIZE - 1))) else None
     else x86_user_fetch (in_space a mem) va')
   \<and> x86_uncached (in_space a mem') va' =
    (if va_path va' = va_path va then pm_device perms else x86_uncached (in_space a mem) va')"
proof -
  note rc = spaces_reachable [OF assms(1,2)]
  have fa: "fresh_source ok avail fa" using assms(1) by (simp add: kernel_boots_def)
  have at: "x86_space a = x86_at a" and inv: "spaces_inv (kernel_root token) mem (avail s) roots" and ok: "ok s"
    using rc assms(3) by blast+
  have m: "AddressSpace_map fa (x86_at a) va pa (x86_perm_flags perms) (mem, s) = (Inr (), mem', s')"
    using x86_map_page_map [OF assms(6)] by (auto simp: at)
  have sp: "space_ok (x86_at a) mem (avail s)" and lk: "x86.links_have open_link 3 (\<lambda>i. i \<noteq> 0) mem a"
    using inv assms(3) by (auto simp: spaces_inv_def)
  have lk': "x86.links_have open_link 3 (\<lambda>i. i \<noteq> 0) mem' a"
    using map_step [OF fa ok inv assms(3,4) m] assms(3) by (auto simp: spaces_inv_def)
  note f = map_facts(4) [OF fa ok sp m refl, unfolded x86_at_simps]
  note before = user_access_entry [OF lk assms(5) at, of w] user_fetch_entry [OF lk assms(5) at] uncached_entry [OF at, of mem va']
  note after = user_access_entry [OF lk' assms(5) at, of w] user_fetch_entry [OF lk' assms(5) at] uncached_entry [OF at, of mem' va']
  have len: "length (va_path va') = 4" by (simp add: va_path_def)
  show ?thesis
  proof (cases "va_path va' = va_path va")
    case True
    then have "stop_entry next_table mem' a (va_path va') = (0, PTE_new pa (x86_perm_flags perms OR PRESENT))" using f by simp
    then show ?thesis
      unfolding after using True by (simp add: perm_bits restricted_bits PTE_new_present decode_def PTE_new_addr)
  next
    case False
    then have "x86.same_leaf (stop_entry next_table mem a (va_path va')) (stop_entry next_table mem' a (va_path va'))"
      using f len by blast
    then show ?thesis unfolding before after using False by (auto simp: x86.same_leaf_def Let_def)
  qed
qed

text \<open>
  (C16) Kernel memory is out of user code's reach: if no leaf of the kernel's identity map has the user bit when
  the kernel boots, then in every process's space at any later time no access of user code to an address
  below the first entry of the root succeeds.
\<close>

theorem kernel_memory_is_out_of_reach:
  assumes "kernel_boots ok avail fa token mem0 s0"
    and "\<And>va f. table_index va 3 = 0 \<Longrightarrow> leaf_flags (x86_at (kernel_root token)) va mem0 = Some f \<Longrightarrow> \<not> bit f 2"
    and "(space_step fa token)\<^sup>*\<^sup>* (mem0, s0, {}) (mem, s, roots)"
    and "a \<in> roots" and "table_index va 3 = 0"
  shows "x86_user_access (in_space a mem) w va = None"
proof (rule ccontr)
  note rc = spaces_reachable [OF assms(1,3)]
  let ?k = "kernel_root token"
  have at: "x86_space a = x86_at a" and sk: "same_tables mem0 mem ?k" and see: "sees_kernel mem ?k a"
    using rc assms(4) by (auto simp: spaces_inv_def)
  assume "x86_user_access (in_space a mem) w va \<noteq> None"
  then have "\<exists>f. x86_flags (in_space a mem) va = Some f \<and> access_bits True w f"
    unfolding x86_user_access_def x86_accesses by (auto split: option.splits if_splits)
  then obtain f where f: "x86_walk_flags (x86_at a) va mem [3, 2, 1, 0] a = Some f" "access_bits True w f"
    unfolding x86_flags_def in_space_def Let_def UMem.simps at x86_at_simps by blast
  then obtain g where g: "leaf_flags (x86_at a) va mem = Some g" "bit g 2"
    using x86_walk_below [OF f(1)] unfolding leaf_flags_def x86_at_simps by (auto simp: access_bits_def simp del: leaf_flags_walk.simps)
  have Q: "length (va_path va) = 4 \<and> hd (va_path va) = 0" using assms(5) by (simp add: va_path_def)
  then have "x86.same_leaf (stop_entry next_table mem ?k (va_path va)) (stop_entry next_table mem a (va_path va))"
    using see by (simp add: sees_kernel_def)
  then have "leaf_flags (x86_at ?k) va mem = Some g"
    using g(1) unfolding leaf_flags_eq x86_at_simps by (auto simp: x86.same_leaf_def Let_def split: prod.splits if_splits)
  then have "leaf_flags (x86_at ?k) va mem0 = Some g"
    using same_tables_facts(4) [OF sk, of "va_path va"] Q unfolding leaf_flags_eq x86_at_simps by simp
  then show False using assms(2) [OF assms(5)] g(2) by blast
qed

text \<open>The kernel's own RISC-V space: three gigabyte leaves.\<close>

lemma rv_token_root:
  assumes "rv_frame_field root = root"
  shows "rv_space (push_bit 60 8 OR drop_bit 12 root) = RvSpace_new root 0"
proof -
  have m: "push_bit 44 1 - 1 = (mask 44 :: u64)" by (simp add: push_bit_of_1 mask_eq_exp_minus_1)
  define c :: u64 where "c = push_bit 60 8"
  have c: "bit c i \<longleftrightarrow> i = 63" for i
  proof -
    have "c = push_bit 63 1" by (simp add: c_def)
    then show ?thesis by (simp only: push_bit_of_1 bit_exp_iff possible_bit_word) auto
  qed
  have r: "bit root i \<Longrightarrow> 12 \<le> i \<and> i < 56" for i using assms rv_frame_field_bit [of root i] by simp
  have "push_bit 12 ((c OR drop_bit 12 root) AND mask 44) = root"
  proof (rule bit_word_eqI)
    fix n :: nat assume n: "n < LENGTH(64)"
    show "bit (push_bit 12 ((c OR drop_bit 12 root) AND mask 44)) n = bit root n"
    proof (cases "12 \<le> n \<and> n < 56")
      case True
      then have "n - 12 < 44" "n - 12 \<noteq> 63" by linarith+
      then show ?thesis using True n by (simp add: bit_simps c)
    next
      case False
      then show ?thesis using r [of n] by (auto simp: bit_simps)
    qed
  qed
  then show ?thesis unfolding rv_space_def m c_def by simp
qed

lemma rv_setup_memory:
  assumes "rv_setup_paging fa (mem, s) = (Some token, mem', s')"
  shows "\<exists>root. fst (fa s) = Some root \<and> token = push_bit 60 8 OR drop_bit 12 root
    \<and> (\<forall>i. mem' root i = (if i < 3 then Pte_new (push_bit 30 (of_nat i)) (RV_V OR RV_R OR RV_W OR RV_X) else 0))"
proof -
  obtain root where "fst (fa s) = Some root" using assms by (auto simp: rv_setup_paging_def split: prod.splits option.splits)
  moreover from this obtain s1 where "fa s = (Some root, s1)" by (cases "fa s") auto
  moreover define flags where "flags = RV_V OR RV_R OR RV_W OR RV_X"
  moreover have "[0..<3] = [0, 1, 2 :: nat]" by (simp add: upt_rec)
  ultimately have t: "token = push_bit 60 8 OR drop_bit 12 root"
    and m: "mem' root = (\<lambda>_. 0)(0 := Pte_new (push_bit 30 (of_nat 0)) flags, 1 := Pte_new (push_bit 30 (of_nat 1)) flags,
       2 := Pte_new (push_bit 30 (of_nat 2)) flags)"
    using assms by (auto simp: rv_setup_paging_def Let_def)
  have "i < 3 \<longleftrightarrow> i = 0 \<or> i = 1 \<or> i = 2" for i :: nat by auto
  then have "mem' root i = (if i < 3 then Pte_new (push_bit 30 (of_nat i)) flags else 0)" for i
    unfolding m by auto
  then show ?thesis using \<open>fst (fa s) = Some root\<close> t by (auto simp: flags_def)
qed

definition rv_gigapages :: "(nat \<Rightarrow> Pte) \<Rightarrow> bool" where
  "rv_gigapages row \<longleftrightarrow> (\<forall>i < 3. row i = Pte_new (push_bit 30 (of_nat i)) (RV_V OR RV_R OR RV_W OR RV_X))"

lemma rv_gigapage_walk:
  assumes "rv_gigapages (mem root)" and "unat va < 3 * 2 ^ 30"
  shows "rv_translate (RvSpace_new root 0) va mem = Some va"
    and "rv_leaf_flags (RvSpace_new root 0) va mem = Some f \<Longrightarrow> \<not> bit f 4"
proof -
  define g where "g = table_index va 2"
  have hi: "\<not> bit va i" if "32 \<le> i" for i using high_bit [of va 32 i] assms(2) that by simp
  have dr: "drop_bit 30 va AND 0x1ff = drop_bit 30 va"
  proof (rule bit_word_eqI)
    have m: "(0x1ff :: u64) = mask 9" by (simp add: mask_eq_exp_minus_1)
    fix n :: nat
    show "bit (drop_bit 30 va AND 0x1ff) n = bit (drop_bit 30 va) n"
      unfolding m using hi [of "30 + n"] by (cases "n < 9") (simp_all add: bit_simps)
  qed
  then have gu: "g = unat (drop_bit 30 va)" by (simp add: g_def table_index_def PAGE_SHIFT_def)
  have "unat (drop_bit 30 va) = unat va div 2 ^ 30" by (simp add: drop_bit_eq_div unat_div)
  then have "g < 3" using assms(2) gu by (simp add: less_mult_imp_div_less mult.commute)
  moreover have "push_bit 30 (of_nat g) = va AND NOT (mask 30)"
    unfolding gu by (rule bit_word_eqI) (auto simp: bit_simps)
  ultimately have row: "mem root g = Pte_new (va AND NOT (mask 30)) (RV_V OR RV_R OR RV_W OR RV_X)"
    using assms(1) by (simp add: rv_gigapages_def)
  let ?e = "Pte_new (va AND NOT (mask 30)) (RV_V OR RV_R OR RV_W OR RV_X)"
  have fl: "bit (RV_V OR RV_R OR RV_W OR RV_X) i \<longleftrightarrow> i = 0 \<or> i = 1 \<or> i = 2 \<or> i = 3" for i
    unfolding RV_V_def RV_R_def RV_W_def RV_X_def push_bit_of_1 bit_or_iff bit_exp_iff possible_bit_word by auto
  have ev: "is_valid ?e" "is_leaf ?e" "\<not> bit (Pte_flags ?e) 4"
    by (simp_all add: is_valid_bit is_leaf_bit Pte_flags_low Pte_new_bit fl)
  have "Pte_addr ?e = va AND NOT (mask 30)"
  proof -
    have "bit (rv_frame_field (va AND NOT (mask 30))) n = bit (va AND NOT (mask 30)) n" for n
      using hi [of n] unfolding rv_frame_field_bit by (cases "n < 30"; cases "32 \<le> n") (auto simp: bit_simps)
    then show ?thesis unfolding Pte_new_addr by (rule bit_word_eqI)
  qed
  moreover have m: "push_bit 30 1 - 1 = (mask 30 :: u64)" by (simp add: push_bit_of_1 mask_eq_exp_minus_1)
  moreover have "(va AND NOT (mask 30) AND NOT (mask 30)) + (va AND mask 30) = va"
    by (subst disjunctive_add) (auto simp: bit_simps intro!: bit_word_eqI)
  ultimately show "rv_translate (RvSpace_new root 0) va mem = Some va"
    using ev row by (simp add: rv_translate_def RvSpace_new_def rv_read_entry_def rv_table_ptr_def g_def Let_def m del: rv_view_simps)
  show "\<not> bit f 4" if "rv_leaf_flags (RvSpace_new root 0) va mem = Some f"
    using that ev row by (simp add: rv_leaf_flags_def RvSpace_new_def rv_read_entry_def rv_table_ptr_def g_def Let_def del: rv_view_simps)
qed

lemma rv_share_rows:
  assumes "rv_root sp \<noteq> push_bit 12 (token AND (push_bit 44 1 - 1))"
  shows "rv_share_kernel token sp mem = mem(rv_root sp := (\<lambda>i. if i < 3 then mem (push_bit 12 (token AND (push_bit 44 1 - 1))) i else mem (rv_root sp) i))"
proof -
  have u: "[0..<3] = [0, 1, 2 :: nat]" by (simp add: upt_rec)
  have "i < 3 \<longleftrightarrow> i = 0 \<or> i = 1 \<or> i = 2" for i :: nat by auto
  then show ?thesis
    using assms unfolding rv_share_kernel_def Let_def u by (auto simp: fun_eq_iff)
qed

text \<open>
  The RISC-V kernel runs identity-mapped and alone: in the space \<open>setup_paging\<close> makes, and in every
  space with another root that \<open>share_kernel\<close> then copies it into, an address below 3 GiB translates to
  itself and user code reaches nothing there.
\<close>

theorem rv_kernel_is_identity_mapped_and_closed:
  assumes "rv_setup_paging fa (mem, s) = (Some token, mem', s')"
    and "\<And>root. fst (fa s) = Some root \<Longrightarrow> rv_table_frame root \<and> root \<noteq> rv_root sp"
    and "rv_table_frame (rv_root sp)" and "rv_offset sp = 0" and "unat va < 3 * 2 ^ 30"
  shows "rv_translate (rv_space token) va mem' = Some va \<and> rv_user_access (in_space token mem') w va = None
    \<and> rv_translate sp va (rv_share_kernel token sp mem') = Some va
    \<and> rv_user_access (in_space (rv_token sp) (rv_share_kernel token sp mem')) w va = None"
proof -
  obtain root where root: "fst (fa s) = Some root" "token = push_bit 60 8 OR drop_bit 12 root"
      "\<And>i. mem' root i = (if i < 3 then Pte_new (push_bit 30 (of_nat i)) (RV_V OR RV_R OR RV_W OR RV_X) else 0)"
    using rv_setup_memory [OF assms(1)] by blast
  have tk: "rv_space token = RvSpace_new root 0" using rv_token_root assms(2) [OF root(1)] by (simp add: root(2) rv_table_frame_def)
  then have at: "push_bit 12 (token AND (push_bit 44 1 - 1)) = root" by (simp add: rv_space_def RvSpace_new_def)
  have sp: "sp = RvSpace_new (rv_root sp) 0" using assms(4) by (simp add: RvSpace_new_def)
  have tsp: "rv_space (rv_token sp) = sp"
    using rv_token_root [of "rv_root sp"] assms(3) sp by (simp add: rv_token_def satp_def root_ppn_def PAGE_SHIFT_def rv_table_frame_def)
  let ?m = "rv_share_kernel token sp mem'"
  have sh: "?m (rv_root sp) i = (if i < 3 then mem' root i else mem' (rv_root sp) i)" for i
  proof -
    have "rv_root sp \<noteq> root" using assms(2) [OF root(1)] by metis
    then show ?thesis using rv_share_rows [of sp token mem', unfolded at] by simp
  qed
  have g: "rv_gigapages (mem' root)" "rv_gigapages (?m (rv_root sp))"
    by (simp_all add: rv_gigapages_def root(3) sh)
  have none: "rv_user_access (in_space t m) w va = None"
    if "rv_space t = RvSpace_new r 0" "rv_gigapages (m r)" for t m r
    using rv_gigapage_walk(2) [of m r va, OF that(2) assms(5)] that(1)
    by (auto simp: rv_user_access_def rv_accesses in_space_def rv_bits_def split: option.split)
  have "rv_translate sp va ?m = Some va" using rv_gigapage_walk(1) [of ?m "rv_root sp" va, OF g(2) assms(5)] sp by simp
  moreover have "rv_user_access (in_space (rv_token sp) ?m) w va = None" using none [of _ "rv_root sp" ?m] g(2) tsp sp by simp
  ultimately show ?thesis
    using rv_gigapage_walk(1) [of mem' root va, OF g(1) assms(5)] none [of token root mem'] g(1) tk by simp
qed

section \<open>A kernel with two processes\<close>

text \<open>Its identity map is one large page; the first two frames become the roots of two spaces.\<close>

definition kmem :: ptmem where
  "kmem = (\<lambda>p i. if p = 0x1000 \<and> i = 0 then 0x2003 else if p = 0x2000 \<and> i = 0 then 0x83 else 0)"

definition pool :: "u64 list" where "pool = [0x3000, 0x4000, 0x5000, 0x6000, 0x7000]"

definition two_mem :: ptmem where
  "two_mem = kmem(0x3000 := (\<lambda>_. 0)(0 := 0x2003), 0x4000 := (\<lambda>_. 0)(0 := 0x2003))"

definition two_map :: "bool \<times> ptmem \<times> u64 list" where
  "two_map = x86_map_page list_source (x86_space 0x3000) 0x8000000000 0x9000 USER_RO (two_mem, [0x5000, 0x6000, 0x7000])"

lemma kernel_root_1000: "kernel_root 0x1000 = 0x1000"
  by (simp add: kernel_root_def)

lemma kmem_tabs: "tab_at next_table kmem 0x1000 Q = (if Q = [] then Some 0x1000 else if Q = [0] then Some 0x2000 else None)"
proof -
  have n: "next_table (0x2003 :: u64) = Some 0x2000" "next_table (0x83 :: u64) = None" "next_table (0 :: u64) = None"
    by (simp_all add: next_table_def is_present_bit is_huge_bit PTE_addr_def ADDR_MASK_def)
  have two: "tab_at next_table kmem 0x2000 R = (if R = [] then Some 0x2000 else None)" for R
    by (cases R) (simp_all add: kmem_def n)
  show ?thesis by (cases Q) (auto simp: kmem_def n two [unfolded kmem_def])
qed

lemma kmem_boots: "kernel_boots distinct set list_source 0x1000 kmem pool"
proof -
  have "space_ok (x86_at 0x1000) kmem (set pool)"
    by (auto simp: space_ok_def x86.tree_def x86.outside_def kmem_tabs pool_def table_frame_def ADDR_MASK_def split: if_splits)
  then show ?thesis by (simp add: kernel_boots_def list_source_fresh kernel_root_1000 pool_def)
qed

lemma two_reached: "(space_step list_source 0x1000)\<^sup>*\<^sup>* (kmem, pool, {}) (two_mem, [0x5000, 0x6000, 0x7000], {0x4000, 0x3000})"
proof -
  let ?m1 = "kmem(0x3000 := (\<lambda>_. 0)(0 := 0x2003))"
  have c1: "x86_create list_source (kmem, pool) = (Some (x86_at 0x3000), kmem(0x3000 := (\<lambda>_. 0)), [0x4000, 0x5000, 0x6000, 0x7000])"
    by (simp add: x86_create_def AddressSpace_create_def list_source_def pool_def Let_def x86_at_def table_ptr_def
        AddressSpace_new_def PageTable_new_def PTE_EMPTY_def)
  have s1: "x86_share_kernel 0x1000 (x86_at 0x3000) (kmem(0x3000 := (\<lambda>_. 0))) = ?m1"
    by (simp add: x86_share_kernel_def Let_def kmem_def)
  have c2: "x86_create list_source (?m1, [0x4000, 0x5000, 0x6000, 0x7000]) = (Some (x86_at 0x4000), ?m1(0x4000 := (\<lambda>_. 0)), [0x5000, 0x6000, 0x7000])"
    by (simp add: x86_create_def AddressSpace_create_def list_source_def Let_def x86_at_def table_ptr_def
        AddressSpace_new_def PageTable_new_def PTE_EMPTY_def)
  have s2: "x86_share_kernel 0x1000 (x86_at 0x4000) (?m1(0x4000 := (\<lambda>_. 0))) = two_mem"
    by (simp add: x86_share_kernel_def Let_def kmem_def two_mem_def)
  note a = space_step.new [OF c1, of "0x1000" "{}", unfolded s1 x86_token_def x86_at_simps]
  note b = space_step.new [OF c2, of "0x1000" "{0x3000}", unfolded s2 x86_token_def x86_at_simps]
  show ?thesis using a b by (meson rtranclp.intros)
qed

lemma two_map_done: "fst two_map"
  by (simp add: two_map_def x86_map_page_def AddressSpace_map_def is_page_aligned_def PAGE_SIZE_def Let_def list_source_def
      is_present_bit is_huge_bit read_entry_def x86_space_def AddressSpace_new_def write_entry_def table_ptr_def two_mem_def kmem_def
      PageTable_new_def PTE_EMPTY_def table_index_def PAGE_SHIFT_def del: view_simps)

lemma two_map_run: "x86_map_page list_source (x86_space 0x3000) 0x8000000000 0x9000 USER_RO (two_mem, [0x5000, 0x6000, 0x7000])
    = (True, fst (snd two_map), snd (snd two_map))"
  using two_map_done by (simp add: two_map_def prod_eq_iff)

lemma two_va: "table_index 0x8000000000 3 \<noteq> 0" "table_index 0x8000000123 3 \<noteq> 0" "va_path 0x8000000123 = va_path 0x8000000000"
  "table_index 0x1000 3 = 0"
  by (simp_all add: table_index_def PAGE_SHIFT_def va_path_def)

theorem spaces_stay_isolated_witness:
  "x86_user_access (in_space 0x4000 (fst (snd two_map))) False 0x8000000123 = x86_user_access (in_space 0x4000 two_mem) False 0x8000000123"
  using spaces_stay_isolated [OF kmem_boots two_reached _ _ _ two_va(1) disjI1 [OF two_map_run], of "0x4000" True False "0x8000000123"]
  by (simp add: x86_user_access_def)

theorem map_page_grants_one_page_witness:
  "x86_user_access (in_space 0x3000 (fst (snd two_map))) False 0x8000000123 = Some 0x9123
   \<and> x86_user_access (in_space 0x3000 (fst (snd two_map))) True 0x8000000123 = None
   \<and> x86_user_fetch (in_space 0x3000 (fst (snd two_map))) 0x8000000123 = None
   \<and> \<not> x86_uncached (in_space 0x3000 (fst (snd two_map))) 0x8000000123"
  using map_page_grants_one_page [OF kmem_boots two_reached _ two_va(1,2) two_map_run]
  by (simp add: two_va(3) USER_RO_def ADDR_MASK_def PAGE_SIZE_def)

theorem kernel_memory_is_out_of_reach_witness: "x86_user_access (in_space 0x3000 two_mem) False 0x1000 = None"
proof (rule kernel_memory_is_out_of_reach [OF kmem_boots _ two_reached _ two_va(4)])
  fix va f assume a: "table_index va 3 = 0" "leaf_flags (x86_at (kernel_root 0x1000)) va kmem = Some f"
  obtain l e where x: "stop_entry next_table kmem 0x1000 (va_path va) = (l, e)" by fastforce
  have n: "next_table (0x2003 :: u64) = Some 0x2000" "next_table (0x83 :: u64) = None" "next_table (0 :: u64) = None"
    by (simp_all add: next_table_def is_present_bit is_huge_bit PTE_addr_def ADDR_MASK_def)
  have "e = 0x83 \<or> e = 0"
    using x a(1) by (auto simp: va_path_def kmem_def n split: if_splits)
  then show "\<not> bit f 2"
    using a(2) x by (auto simp: leaf_flags_eq kernel_root_1000 is_present_bit PTE_flags_low split: if_splits)
qed simp

theorem rv_kernel_is_identity_mapped_and_closed_witness:
  "\<exists>token mem'. rv_setup_paging list_source (\<lambda>_ _. 1, [0x80400000]) = (Some token, mem', [])
     \<and> rv_translate (rv_space token) 0x80001234 mem' = Some 0x80001234"
proof -
  let ?st = "rv_setup_paging list_source (\<lambda>_ _. 1, [0x80400000])"
  obtain token mem' where r: "?st = (Some token, mem', [])"
    by (simp add: rv_setup_paging_def list_source_def Let_def)
  have f: "rv_table_frame 0x80400000" "rv_table_frame 0x80500000"
    by (simp_all add: rv_table_frame_def rv_frame_field_def PPN_BITS_def PAGE_SHIFT_def)
  have "rv_translate (rv_space token) 0x80001234 mem' = Some 0x80001234"
    using rv_kernel_is_identity_mapped_and_closed [OF r, of "RvSpace_new 0x80500000 0" "0x80001234" False] f
    by (simp add: list_source_def RvSpace_new_def)
  then show ?thesis using r by blast
qed

end
