(* ===== verification/Kframes.thy ===== *)
theory Kframes
  imports Klaunch
begin

text \<open>
  What the kernel does to the saved registers of the processes. Every operation either leaves a saved
  frame alone, writes results into it, replaces the frame of the process that trapped by the words the
  trap saved, or loads a process into a slot that was free. So a predicate on frames that writing
  results keeps is kept by every trap, for all processes but the one that trapped.
\<close>

section \<open>The relation\<close>

abbreviation alive :: "'m Kernel \<Rightarrow> usize \<Rightarrow> bool" where
  "alive k i \<equiv> pr_state (proc_at k i) \<noteq> PFree"

definition frames_ok :: "(usize \<Rightarrow> UserFrame \<Rightarrow> bool) \<Rightarrow> 'm Kernel \<Rightarrow> bool" where
  "frames_ok P k \<longleftrightarrow> (\<forall>i<length (k_procs k). alive k i \<longrightarrow> P i (pr_frame (proc_at k i)))"

definition keeps :: "(usize \<Rightarrow> UserFrame \<Rightarrow> bool) \<Rightarrow> 'm Kernel \<Rightarrow> 'm Kernel \<Rightarrow> bool" where
  "keeps P k k' \<longleftrightarrow> length (k_procs k') = length (k_procs k)
     \<and> (\<forall>i<length (k_procs k). alive k' i \<longrightarrow> alive k i \<and> (P i (pr_frame (proc_at k i)) \<longrightarrow> P i (pr_frame (proc_at k' i))))"

interpretation keep_steps: kernel_preorder "keeps P" for P
  by unfold_locales (auto simp: keeps_def)

lemma frames_keeps: "frames_ok P k \<Longrightarrow> keeps P k k' \<Longrightarrow> frames_ok P k'"
  by (simp add: frames_ok_def keeps_def)

lemma keeps_quiet: "quiet_on True k k' \<Longrightarrow> keeps P k k'"
  by (auto simp: keeps_def quiet_def quiet_proc_def proc_at_def list_all2_conv_all_nth)

lemma keeps_procs: "k_procs k' = k_procs k \<Longrightarrow> keeps P k k'"
  by (simp add: keeps_def proc_at_def)

lemma keeps_fields [simp]:
  "keeps P k (k\<lparr>k_current := n\<rparr>)" "keeps P k (k\<lparr>k_idling := b\<rparr>)" "keeps P k (k\<lparr>k_parks := w, k_idling := b, k_current := n\<rparr>)"
  "keeps P k (k\<lparr>k_sched := s\<rparr>)" "keeps P k (k\<lparr>k_ledger := l\<rparr>)" "keeps P k (k\<lparr>k_killed := w\<rparr>)" "keeps P k (k\<lparr>k_next_id := w\<rparr>)"
  "keeps P k (sched_add p k)" "keeps P k (sched_remove p k)" "keeps P k (upd_ledger g k)" "keeps P k (sched_next c k)" "keeps P k k"
  "keeps P k (upd_mach h k)" "keeps P k (k\<lparr>k_mach := m\<rparr>)"
  by (rule keeps_procs, simp add: sched_add_def sched_remove_def upd_ledger_def sched_next_def upd_mach_def split: prod.split)+

lemma keeps_then [simp]:
  "keeps P k k' \<Longrightarrow> keeps P k (sched_add p k')" "keeps P k k' \<Longrightarrow> keeps P k (sched_remove p k')"
  "keeps P k k' \<Longrightarrow> keeps P k (upd_ledger g k')" "keeps P k k' \<Longrightarrow> keeps P k (k'\<lparr>k_current := n\<rparr>)"
  "keeps P k k' \<Longrightarrow> keeps P k (k'\<lparr>k_idling := b\<rparr>)" "keeps P k k' \<Longrightarrow> keeps P k (sched_next c k')"
  "keeps P k k' \<Longrightarrow> keeps P k (upd_mach h k')"
  by (erule keep_steps.trans, simp)+

text \<open>One entry of the table is written: it was taken already, and the predicate survives.\<close>

lemma keeps_upd:
  assumes "pr_state (f (proc_at k p)) \<noteq> PFree \<Longrightarrow>
    alive k p \<and> (P p (pr_frame (proc_at k p)) \<longrightarrow> P p (pr_frame (f (proc_at k p))))"
  shows "keeps P k (upd_proc p f k)"
proof -
  have "proc_at (upd_proc p f k) i = (if i = p then f (proc_at k i) else proc_at k i)" if "i < length (k_procs k)" for i
    using that by (auto simp: proc_at_def upd_proc_def)
  then show ?thesis using assms by (auto simp: keeps_def)
qed

lemma keeps_same: "(\<And>pr. pr_frame (f pr) = pr_frame pr) \<Longrightarrow> (\<And>pr. pr_state (f pr) = pr_state pr) \<Longrightarrow> keeps P k (upd_proc p f k)"
  by (rule keeps_upd) simp

lemma keeps_frame: "(\<And>f. P p f \<Longrightarrow> P p (g f)) \<Longrightarrow> keeps P k (upd_frame p g k)"
  unfolding upd_frame_def by (rule keeps_upd) simp

lemma keeps_leave [simp]: "keeps P k (set_state p PFree k)"
  unfolding set_state_def by (rule keeps_upd) simp

lemma keeps_revoke [simp]: "keeps P k (upd_caps p g k)"
  unfolding upd_caps_def by (rule keeps_same) simp_all

lemma alive_quiet: "quiet_on fx k k' \<Longrightarrow> i < length (k_procs k) \<Longrightarrow> alive k' i = alive k i"
  by (auto simp: quiet_def quiet_proc_def proc_at_def list_all2_conv_all_nth)

lemma keeps_length: "keeps P k k' \<Longrightarrow> length (k_procs k') = length (k_procs k)"
  by (simp add: keeps_def)

lemma keeps_hand_over [simp]: "keeps P k (hand_over cur cap slot i dlg k)"
  by (auto simp: hand_over_def split: option.split)

text \<open>A write out of range changes nothing.\<close>

lemma upd_beyond: "\<not> p < length (k_procs k) \<Longrightarrow> upd_proc p f k = k"
  by (simp add: upd_proc_def list_update_beyond)

lemma frames_load:
  assumes "frames_ok P k" and "\<And>p. P i (pr_frame (F p))"
  shows "frames_ok P (upd_proc i F k)"
proof -
  have "proc_at (upd_proc i F k) j = (if j = i then F (proc_at k j) else proc_at k j)" if "j < length (k_procs k)" for j
    using that by (auto simp: proc_at_def upd_proc_def)
  then show ?thesis using assms by (auto simp: frames_ok_def)
qed

section \<open>Predicates that results keep\<close>

locale result_frames =
  fixes A :: "'m Arch" and P :: "usize \<Rightarrow> UserFrame \<Rightarrow> bool"
  assumes set_ret: "P i f \<Longrightarrow> P i (a_set_ret A v f)"
    and set_ret2: "P i f \<Longrightarrow> P i (a_set_ret2 A v f)"
    and set_ret3: "P i f \<Longrightarrow> P i (a_set_ret3 A v f)"
begin

lemma rets: "P i f \<Longrightarrow> P i (set_rets A x y z f)" "P i f \<Longrightarrow> P i (fail_frame A b f)"
  by (simp_all add: set_rets_def fail_frame_def Let_def set_ret set_ret2 set_ret3)

lemma wake: "alive k p \<Longrightarrow> keeps P k (wake_refused A p k)"
  by (auto simp: wake_refused_def Let_def rets intro!: keeps_then(1) keeps_upd)

lemma uncreditable: "\<forall>i \<in> set xs. alive k i \<Longrightarrow> keeps P k (fold (wake_uncreditable A) xs k)"
proof (induction xs arbitrary: k)
  case (Cons x xs)
  have "keeps P k (wake_uncreditable A x k)"
    using Cons.prems by (auto simp: wake_uncreditable_def set_ret intro!: keeps_then(1) keeps_upd)
  moreover have "alive (wake_uncreditable A x k) i" if "i \<in> set xs" for i
    using that Cons.prems
    by (cases "i = x"; cases "x < length (k_procs k)")
      (auto simp: wake_uncreditable_def sched_add_def upd_proc_def proc_at_def list_update_beyond)
  ultimately show ?case using Cons.IH keep_steps.trans by fastforce
qed simp

lemma credit [simp]: "keeps P k (credit_irq A irq k)"
proof -
  have "keeps P k (credit_one A irq i k)" for i k
    by (auto simp: credit_one_def Let_def set_ret intro!: keeps_then(1) keeps_upd)
  then show ?thesis by (simp add: credit_irq_def keep_steps.fold)
qed

lemma holder [simp]: "keeps P k (snd (strip_holder A d k))"
proof -
  let ?p = "ep_proc d"
  let ?tail = "\<lambda>_ k. let k = fold (strip_irq ?p) [0..<MAX_IRQ_LINES] k in kreturn () (if stranded k ?p then wake_refused A ?p k else k)"
  have blocked: "alive k ?p" if "stranded k ?p" for k :: "'m Kernel"
    using that by (auto simp: stranded_def)
  have tail: "keeps P k (snd (?tail u k))" for u k
    using keeps_quiet [OF quiet_fold [of True "strip_irq ?p" k "[0..<MAX_IRQ_LINES]"]] keep_steps.trans [OF _ wake [OF blocked]]
    by (auto simp: Let_def)
  have rest: "keeps P k (snd (kbind (strip_dma A ?p (fold (strip_share A ?p) [0..<SHARE_SLOTS] k')) ?tail))" if "keeps P k k'" for k'
  proof -
    have "keeps P k (fold (strip_share A ?p) [0..<SHARE_SLOTS] k')"
      by (rule keep_steps.trans [OF that keeps_quiet [OF quiet_fold]]) simp
    moreover have "keeps P k'' (snd (kbind (strip_dma A ?p k'') ?tail))" for k''
      by (rule keep_steps.kbind [OF keeps_quiet tail]) simp
    ultimately show ?thesis by (rule keep_steps.trans)
  qed
  have "keeps P k (if b then k' else unmap_device_window A ?p k')" if "keeps P k k'" for b k'
    using that keep_steps.trans [OF that keeps_quiet [OF quiet_device_window]] by simp
  then show ?thesis
    unfolding strip_holder_def Let_def by (simp add: rest [unfolded Let_def] del: if_split)
qed

lemma revocation [simp]: "keeps P k (snd (revoke_delegations A p cap k))"
  unfolding revoke_delegations_def Let_def
  by (auto split: prod.split intro: keep_steps.trans [OF keeps_fields(5) keep_steps.kfor])

lemma teardown [simp]: "keeps P k (snd (teardown_process A i k))"
proof -
  have peer: "keeps P k (wake_stranded_peer A i k)" for i k
    by (auto simp: wake_stranded_peer_def peer_need_def split: option.split intro: wake)
  have leave: "keeps P k (fold (wake_stranded_peer A) [0..<MAX_PROCS] (sched_remove i (set_state i PFree (upd_ledger g (reclaim_frames i k)))))" for g k
    by (rule keep_steps.trans [OF _ keep_steps.fold [OF peer]])
      (simp add: keep_steps.trans [OF keeps_quiet [OF quiet_reclaim] keep_steps.trans [OF keeps_fields(10) keeps_leave]])
  show ?thesis
    unfolding teardown_process_def Let_def
    by (intro keep_steps.kbind) (simp_all add: keeps_quiet leave)
qed

lemma resume [simp]: "keeps P k (snd (resume_process A n k))"
proof -
  have p: "keeps P k (upd_proc n (\<lambda>p. p\<lparr>pr_pending_len := 0\<rparr>) k)" for k
    by (rule keeps_same) simp_all
  have "keeps P k ((upd_mach g (upd_proc n (\<lambda>p. p\<lparr>pr_pending_len := 0\<rparr>) k))\<lparr>k_mach := m\<rparr>)" for g m
    by (intro keep_steps.trans [OF _ keeps_fields(14)] keeps_then(7) p)
  then show ?thesis
    by (auto simp: resume_process_def Let_def set_ret set_ret3 split: prod.split intro: keep_steps.trans [OF _ keeps_frame])
qed

lemma run [simp]: "keeps P k (snd (nothing_runnable A k))" "keeps P k (snd (run_current A k))"
proof -
  have waiting: "\<forall>i \<in> set (Runstate.uncreditable (run_slots k) c). alive k i" for c and k :: "'m Kernel"
    by (auto simp: uncreditable_iff irq_waiter_def run_slots_def run_slot_def proc_at_def Slot_FREE_def Slot_blocked_def split: ProcState.splits)
  have res: "keeps P k (snd (resume_process A t (k\<lparr>k_current := t\<rparr>)))" for t k
    by (rule keep_steps.trans [OF keeps_fields(1) resume])
  show dry: "keeps P k (snd (nothing_runnable A k))" for k
    unfolding nothing_runnable_def Let_def
    by (rule keep_steps.trans [OF uncreditable [OF waiting]]) (auto split: option.split Next.split intro: res)
  show "keeps P k (snd (run_current A k))"
    by (auto simp: run_current_def dry split: option.split intro: res)
qed

end

section \<open>System calls\<close>

definition returns :: "(UserFrame \<Rightarrow> bool) \<Rightarrow> 'm arm \<Rightarrow> bool" where
  "returns Q r \<longleftrightarrow> (\<forall>f. fst r = Inr f \<longrightarrow> Q f)"

lemma returns_simps [simp]: "returns Q (Inr f, k) = Q f" "returns Q (Inl s, k)"
  by (simp_all add: returns_def)

lemma returns_bind: "(\<And>x k. returns Q (f x k)) \<Longrightarrow> returns Q (kbind r f)"
  by (cases r) (auto simp: kbind_def returns_def split: sum.split)

lemma returns_case: "(\<And>x k. returns Q (f x k)) \<Longrightarrow> returns Q (case r of (x, k) \<Rightarrow> f x k)"
  by (cases r) simp

lemma returns_switch: "Q f \<Longrightarrow> returns Q (switch_or_stop A f k)"
  by (auto simp: switch_or_stop_def split: option.split prod.split)

lemma arm_ret_state [simp]: "snd (arm_ret A v f k) = k"
  by (simp add: arm_ret_def)

context result_frames
begin

lemma arm_ret [simp]: "P c f \<Longrightarrow> returns (P c) (arm_ret A v f k)"
  by (simp add: arm_ret_def set_ret)

lemma block: "alive k c \<Longrightarrow> P c f \<Longrightarrow> keeps P k (block_on c st f k)"
  unfolding block_on_def set_state_def
  by (intro keep_steps.trans [OF _ keeps_frame] keeps_then(2) keeps_upd) simp_all

lemma switch [simp]: "keeps P k (snd (switch_or_stop A f k))"
  using run(1) [of k] by (cases "nothing_runnable A k") (simp add: switch_or_stop_def split: option.split)

lemma message [simp]: "keeps P k (put_msg p bytes k)"
  by (rule keeps_quiet) simp

lemma deliver: "alive k r \<Longrightarrow> keeps P k (deliver A r dst word n bytes k)"
  unfolding deliver_def
  by (intro keeps_then(1) keep_steps.trans [OF message keeps_upd])
    (use alive_quiet [OF quiet_put_msg [of True k r bytes]] in \<open>cases "r < length (k_procs k)",
      auto simp: rets put_msg_def upd_beyond\<close>)

lemma send:
  assumes "length (k_procs k) = MAX_PROCS" and "alive k c" and "P c f"
  shows "keeps P k (snd (arm_send A c f k)) \<and> returns (P c) (arm_send A c f k)"
proof -
  have alive: "alive (upd_proc c (\<lambda>p. p\<lparr>pr_msg_len := n\<rparr>) (put_msg c bytes k)) c" for n bytes
    using assms(2) by (cases "c < length (k_procs k)") (auto simp: put_msg_def proc_at_def upd_proc_def list_update_beyond)
  have park: "keeps P k (snd (switch_or_stop A f (block_on c st f (upd_proc c (\<lambda>p. p\<lparr>pr_msg_len := n\<rparr>) (put_msg c bytes k)))))" for st n bytes
    by (intro keep_steps.trans [OF _ switch] keep_steps.trans [OF _ block [OF alive assms(3)]] keep_steps.trans [OF message keeps_same]) simp_all
  have "alive k r" if "find_blocked_recv k e = Some r" for e r
    using find_recv_at [OF assms(1) that] by (auto simp: is_recv_def)
  then show ?thesis
    using assms(3) by (auto simp: arm_send_def Let_def park returns_switch deliver split: option.split prod.split)
qed

lemma recv:
  assumes "length (k_procs k) = MAX_PROCS" and "alive k c" and "P c f"
  shows "keeps P k (snd (arm_recv A c f k)) \<and> returns (P c) (arm_recv A c f k)"
proof -
  have bad: "keeps P k (snd (resume_process A c (upd_frame c (\<lambda>_. set_rets A x y z f) k)))" for x y z
    by (rule keep_steps.trans [OF keeps_frame resume]) (rule rets(1) [OF assms(3)])
  have out: "quiet_on fx k (snd (copy_out A dst bytes k))" for fx dst bytes
    by (simp add: copy_out_def split: prod.split)
  have take: "keeps P k (take_from A s (snd (copy_out A dst bytes k)))" if "find_blocked_send k e = Some (s, w, l)" for e s w l dst bytes
  proof -
    have "s < MAX_PROCS" "alive k s" using find_send_at [OF assms(1) that] by auto
    then have "alive (snd (copy_out A dst bytes k)) s" using alive_quiet [OF out] assms(1) by simp
    then show ?thesis
      unfolding take_from_def by (intro keep_steps.trans [OF keeps_quiet [OF out [of True dst bytes]]] keeps_then(1) keeps_upd) (simp add: set_ret)
  qed
  have park: "keeps P k (snd (switch_or_stop A f (block_on c st f k)))" for st
    by (rule keep_steps.trans [OF block [OF assms(2,3)] switch])
  show ?thesis
    using bad take park keeps_quiet [OF out] rets(1) [OF assms(3)] assms(3)
    by (auto simp: arm_recv_def Let_def split_beta returns_switch split: option.split)
qed

lemma irq_calls:
  assumes "alive k c" and "P c f"
  shows "keeps P k (snd (arm_wait_irq A c f k)) \<and> returns (P c) (arm_wait_irq A c f k)"
    and "keeps P k (snd (arm_poll_irq A c f k)) \<and> returns (P c) (arm_poll_irq A c f k)"
proof -
  have "keeps P k k'" if "run_current A (block_on c st f k) = (s, k')" for st s k'
    using keep_steps.trans [OF block [OF assms] run(2)] that by (metis snd_conv)
  then show "keeps P k (snd (arm_wait_irq A c f k)) \<and> returns (P c) (arm_wait_irq A c f k)"
    using assms(2) by (auto simp: arm_wait_irq_def Let_def keeps_same split: option.split prod.split)
  show "keeps P k (snd (arm_poll_irq A c f k)) \<and> returns (P c) (arm_poll_irq A c f k)"
    using assms(2) by (auto simp: arm_poll_irq_def Let_def keeps_same split: option.split prod.split)
qed

lemma quiet_calls:
  assumes "P c f"
  shows "keeps P k (snd (arm_map_region A c f k)) \<and> returns (P c) (arm_map_region A c f k)"
    and "keeps P k (snd (arm_unmap_region A c f k)) \<and> returns (P c) (arm_unmap_region A c f k)"
    and "keeps P k (snd (arm_map_dma A c f k)) \<and> returns (P c) (arm_map_dma A c f k)"
    and "keeps P k (snd (arm_unmap_dma A c f k)) \<and> returns (P c) (arm_unmap_dma A c f k)"
    and "keeps P k (snd (arm_free_region A c f k)) \<and> returns (P c) (arm_free_region A c f k)"
    and "keeps P k (snd (arm_host A c f k)) \<and> returns (P c) (arm_host A c f k)"
  unfolding arm_map_region_def arm_unmap_region_def arm_map_dma_def arm_unmap_dma_def arm_free_region_def arm_host_def
  using assms by (auto split: option.split simp: set_ret intro!: keeps_quiet quiet_kbind quiet_split returns_bind returns_case)

lemma other_calls:
  assumes "P c f"
  shows "keeps P k (snd (arm_yield c f k)) \<and> returns (P c) (arm_yield c f k)"
    and "keeps P k (snd (arm_exit A c f k)) \<and> returns (P c) (arm_exit A c f k)"
    and "keeps P k (snd (arm_revoke A c f k)) \<and> returns (P c) (arm_revoke A c f k)"
  using assms by (auto simp: arm_yield_def arm_exit_def arm_revoke_def Let_def split: option.split
      intro!: keep_steps.kbind returns_bind returns_switch)

lemma make:
  assumes "P c f"
  shows "keeps P k (snd (arm_make_region A c f k)) \<and> returns (P c) (arm_make_region A c f k)"
proof -
  have "keeps P k k'" if "k_procs k' = k_procs (upd_caps p g k)" for k' p g
    by (rule keep_steps.trans [OF keeps_revoke keeps_procs [OF that]])
  then have "keeps P k (snd (make_region A c pages rts k))" for pages rts
    unfolding make_region_def Let_def
    by (auto split: option.split prod.split simp: proc_at_def upd_caps_def upd_proc_def free_frames_to_def intro: keeps_procs)
  then show ?thesis
    using assms by (auto simp: arm_make_region_def Let_def intro!: keep_steps.kbind returns_bind)
qed

lemma spawn:
  assumes "frames_ok P k" and "P c f"
    and init: "\<And>slot entry arg. \<not> alive k slot \<Longrightarrow> P slot (a_frame_init A entry (a_user_stack_top A) arg)"
  shows "frames_ok P (snd (arm_spawn A c f k)) \<and> returns (P c) (arm_spawn A c f k)"
proof -
  let ?K = "k\<lparr>k_next_id := k_next_id k + 1\<rparr>"
  have ok: "frames_ok P ?K" using frames_keeps [OF assms(1)] by simp
  have go: "frames_ok P (snd (case k_fa ?K of
                       Some fa \<Rightarrow> load_process A slot (k_next_id k) Child fa (k_token ?K) (k_user_elf ?K) ?K
                     | None \<Rightarrow> kreturn False ?K))" if slot: "\<not> alive k slot" for slot
  proof (cases "k_fa ?K")
    case (Some fa)
    show ?thesis
    proof (rule load_cases [of A slot "k_next_id k" Child fa "k_token ?K" "k_user_elf ?K" ?K])
      fix F k1
      assume l: "load_process A slot (k_next_id k) Child fa (k_token ?K) (k_user_elf ?K) ?K = (Inr True, upd_proc slot F k1)"
        and same: "k_procs k1 = k_procs ?K"
        and "\<exists>entry. \<forall>p. pr_frame (F p) = a_frame_init A entry (a_user_stack_top A) (k_next_id k)"
      then obtain entry where "\<And>p. pr_frame (F p) = a_frame_init A entry (a_user_stack_top A) (k_next_id k)" by blast
      then have "P slot (pr_frame (F p))" for p using init [OF slot] by simp
      moreover have "frames_ok P k1" by (rule frames_keeps [OF ok keeps_procs [OF same]])
      ultimately have "frames_ok P (upd_proc slot F k1)" by (simp add: frames_load)
      then show ?thesis using Some l by simp
    next
      fix k1
      assume "load_process A slot (k_next_id k) Child fa (k_token ?K) (k_user_elf ?K) ?K = (Inr False, k1)" "k_procs k1 = k_procs ?K"
      then show ?thesis using Some frames_keeps [OF ok keeps_procs] by simp
    next
      fix k1
      assume "list_ex (mint_extent ?K) (grants_for Child)"
      then show ?thesis by simp
    qed
  qed (use ok in simp)
  have free: "\<not> alive k slot" if "spawn_slot k a d = Inr slot" for a d slot
    using that position_SomeD(1,2) [of "\<lambda>p. pr_state p = PFree" "k_procs k" slot]
    by (auto simp: spawn_slot_def proc_at_def split: if_splits option.splits)
  have tail: "frames_ok P (snd (kbind r (\<lambda>loaded k. if loaded then arm_ret A v f (sched_add slot (hand_over cur cap slot i dlg k)) else arm_ret A w f k)))"
    if "frames_ok P (snd r)" for r :: "('m, bool) kres" and v w slot cur cap i dlg
    by (rule frames_keeps [OF that keep_steps.kbind [OF keep_steps.refl]]) simp
  show ?thesis
    using assms(1,2) tail [OF go [OF free]] unfolding arm_spawn_def Let_def
    by (auto split: sum.split intro!: returns_bind simp: set_ret)
qed

lemma arms:
  assumes "length (k_procs k) = MAX_PROCS" and "alive k c" and "frames_ok P k" and "P c f"
    and "\<And>slot entry arg. \<not> alive k slot \<Longrightarrow> P slot (a_frame_init A entry (a_user_stack_top A) arg)"
  shows "frames_ok P (snd (syscall_arm A c f k)) \<and> returns (P c) (syscall_arm A c f k)"
proof -
  have k: "frames_ok P (snd r) \<and> returns (P c) r" if "keeps P k (snd r) \<and> returns (P c) r" for r :: "'m arm"
    using that frames_keeps [OF assms(3)] by blast
  have branch: "frames_ok P (snd (if b then r else r')) \<and> returns (P c) (if b then r else r')"
    if "frames_ok P (snd r) \<and> returns (P c) r" and "frames_ok P (snd r') \<and> returns (P c) r'" for b and r r' :: "'m arm"
    using that by simp
  note calls = send [OF assms(1,2,4)] recv [OF assms(1,2,4)] irq_calls [OF assms(2,4)] quiet_calls [OF assms(4)]
    other_calls [OF assms(4)] make [OF assms(4)]
  show ?thesis
    unfolding syscall_arm_def Let_def by (intro branch spawn [OF assms(3,4,5)] calls [THEN k])
qed

section \<open>Traps\<close>

lemma syscall:
  assumes "length (k_procs k) = MAX_PROCS" and "alive k (k_current k)" and "frames_ok P k"
    and "P (k_current k) (snapshot A words UserFrame_ZERO)"
    and "\<And>slot entry arg. \<not> alive k slot \<Longrightarrow> P slot (a_frame_init A entry (a_user_stack_top A) arg)"
  shows "frames_ok P (snd (syscall_trap A words k))"
proof -
  obtain r k' where r: "syscall_arm A (k_current k) (snapshot A words UserFrame_ZERO) k = (r, k')" by fastforce
  have ok: "frames_ok P k'" "returns (P (k_current k)) (r, k')"
    using arms [OF assms(1-5)] by (simp_all add: r)
  have "keeps P k' (snd (resume_process A n (upd_frame (k_current k) (\<lambda>_. f) k')))" if "P (k_current k) f" for n f
    by (rule keep_steps.trans [OF keeps_frame resume]) (rule that)
  then show ?thesis using ok frames_keeps [OF ok(1)] by (cases r) (simp_all add: syscall_trap_def Let_def r)
qed

lemma interrupts:
  assumes "\<not> k_idling k \<Longrightarrow> \<forall>f. P (k_current k) (snapshot A words f)"
  shows "keeps P k (snd (preempt_trap A words k))" and "keeps P k (snd (device_trap A words k))" and "keeps P k (snd (fault_trap A k))"
proof -
  have credit: "keeps P k (credit_irq A irq (upd_mach g k))" for irq g k
    by (rule keep_steps.trans [OF _ credit]) simp
  have frame: "keeps P k (credit_irq A irq (upd_mach g (upd_frame (k_current k) (snapshot A words) k)))" if "\<not> k_idling k" for irq g
    by (rule keep_steps.trans [OF keeps_frame credit]) (use assms that in simp)
  have res: "keeps P k (snd (resume_process A t k'))" if "keeps P k k'" for t k'
    by (rule keep_steps.trans [OF that resume])
  have wakes: "keeps P k k' \<Longrightarrow> keeps P k (k'\<lparr>k_idling := b, k_device_wakes := w, k_current := t\<rparr>)" for k' b w t
    by (erule keep_steps.trans, rule keeps_procs) simp
  show "keeps P k (snd (preempt_trap A words k))"
    by (simp add: preempt_trap_def Let_def credit frame res split: option.split)
  show "keeps P k (snd (device_trap A words k))"
    by (simp add: device_trap_def Let_def credit frame res wakes split: option.split)
  have dead: "keeps P k (snd (teardown_process A c (k\<lparr>k_killed := w\<rparr>)))" for c w
    by (rule keep_steps.trans [OF keeps_fields(6) teardown])
  show "keeps P k (snd (fault_trap A k))"
    using dead [of "k_current k" "k_killed k + 1"] keep_steps.trans [OF _ run(2)]
    by (cases "teardown_process A (k_current k) (k\<lparr>k_killed := k_killed k + 1\<rparr>)")
      (auto simp: fault_trap_def Let_def split: sum.split)
qed

text \<open>A step taken while a process runs, for a predicate that asks nothing of that process or of a free slot.\<close>

lemma step:
  assumes "kstep A (Resumed n, k) s" and "live_inv n k" and "frames_ok P k"
    and "\<And>f. P n f" and "\<And>slot f. \<not> alive k slot \<Longrightarrow> P slot f"
  shows "frames_ok P (snd s)"
proof -
  have n: "k_current k = n" and len: "length (k_procs k) = MAX_PROCS" and up: "alive k n"
    using assms(2) live_current live_len(1) [OF assms(2)] live_parts [OF assms(2)] by simp_all
  have int: "frames_ok P (snd (preempt_trap A ws k))" "frames_ok P (snd (device_trap A ws k))" "frames_ok P (snd (fault_trap A k))" for ws
    using frames_keeps [OF assms(3) interrupts(1)] frames_keeps [OF assms(3) interrupts(2)] frames_keeps [OF assms(3) interrupts(3)] assms(4) n
    by blast+
  show ?thesis
    using assms(1)
  proof (cases rule: kstep.cases)
    case (compute m)
    then show ?thesis using frames_keeps [OF assms(3)] by simp
  next
    case (syscall ws)
    then show ?thesis using Kframes.result_frames.syscall [OF result_frames_axioms len _ assms(3)] assms(4,5) n up by simp
  qed (use int in simp_all)
qed

section \<open>The launch\<close>

lemma load_boot:
  assumes "frames_ok P k" and "\<And>entry arg. P i (a_frame_init A entry (a_user_stack_top A) arg)"
  shows "okay (\<lambda>_. frames_ok P) (load_boot A kt elf i k)"
proof (cases "k_fa k")
  case (Some fa)
  show ?thesis
  proof (rule load_cases [of A i "of_nat i" "boot_role (of_nat i)" fa kt elf k])
    fix F k1
    assume l: "load_process A i (of_nat i) (boot_role (of_nat i)) fa kt elf k = (Inr True, upd_proc i F k1)"
      and same: "k_procs k1 = k_procs k"
      and "\<exists>entry. \<forall>p. pr_frame (F p) = a_frame_init A entry (a_user_stack_top A) (of_nat i)"
    then obtain entry where "\<And>p. pr_frame (F p) = a_frame_init A entry (a_user_stack_top A) (of_nat i)" by blast
    then have "P i (pr_frame (F p))" for p using assms(2) by simp
    moreover have "frames_ok P k1" by (rule frames_keeps [OF assms(1) keeps_procs [OF same]])
    ultimately have "frames_ok P (upd_proc i F k1)" by (simp add: frames_load)
    then have "frames_ok P (sched_add i (upd_proc i F k1))" by (rule frames_keeps) simp
    then show ?thesis using Some l by (simp add: load_boot_def kbind_def)
  next
    fix k1
    assume "load_process A i (of_nat i) (boot_role (of_nat i)) fa kt elf k = (Inr False, k1)"
    then show ?thesis by (simp add: load_boot_def Some kbind_def)
  next
    fix k1
    assume "load_process A i (of_nat i) (boot_role (of_nat i)) fa kt elf k = (Inl Panicked, k1)"
    then show ?thesis by (simp add: load_boot_def Some kbind_def)
  qed
qed (simp add: load_boot_def)

lemma launch:
  assumes "cold k" and "\<And>i entry arg. P i (a_frame_init A entry (a_user_stack_top A) arg)"
  shows "fst (launch A start fa kt elf k) = Panicked \<or> frames_ok P (snd (launch A start fa kt elf k))"
proof -
  let ?k = "k\<lparr>k_user_elf := elf, k_token := kt, k_free_at_start := ba_free fa, k_fa := Some fa\<rparr>"
  have "frames_ok P ?k" using assms(1) by (simp add: frames_ok_def cold_def proc_at_def)
  then have ok: "okay (\<lambda>_. frames_ok P) (kfor [0..<NUM_PROCS] (Klaunch.load_boot A kt elf) ?k)"
    by (rule okay_kfor) (rule load_boot [OF _ assms(2)])
  obtain e k1 where r: "kfor [0..<NUM_PROCS] (Klaunch.load_boot A kt elf) ?k = (e, k1)" by fastforce
  have "keeps P k1 (snd (resume_process A t (upd_mach start (k1\<lparr>k_current := t\<rparr>))))" for t
    by (rule keep_steps.trans [OF _ resume]) simp
  then have "frames_ok P k1 \<Longrightarrow> frames_ok P (snd (resume_process A t (upd_mach start (k1\<lparr>k_current := t\<rparr>))))" for t
    by (rule frames_keeps [rotated])
  then show ?thesis
    using ok by (cases e) (auto simp: launch_def r okay_def halts_def split: option.split)
qed

end

end
