(* ===== verification/Uframe.thy ===== *)
theory Uframe
  imports Ktrap
begin

text \<open>
  The trap frames of both architectures (src/crates/arch-x86_64/src/syscall.rs, interrupts.rs, gdt.rs,
  src/crates/arch-riscv64/src/interrupts.rs, csr.rs) and the frame functions of the two Arch
  implementations (src/crates/kernel/src/arch_x86.rs, arch_riscv.rs): what an entry stub saves, which
  words a system call reads and writes, what the return path loads, and which handler a trap goes to.
  A register file is a function from registers to words; a frame is the list of words in memory order.
\<close>

section \<open>x86-64: the frame\<close>

datatype X86Reg = R15 | R14 | R13 | R12 | R11 | R10 | R9 | R8 | RBP | RDI | RSI | RDX | RCX | RBX | RAX
  | RIP | CS | RFLAGS | RSP | SS

text \<open>The fields in declaration order; the slot of a register is its word in the frame.\<close>

definition x86_fields :: "X86Reg list" where
  "x86_fields = [R15, R14, R13, R12, R11, R10, R9, R8, RBP, RDI, RSI, RDX, RCX, RBX, RAX, RIP, CS, RFLAGS, RSP, SS]"

fun x86_slot :: "X86Reg \<Rightarrow> nat" where
  "x86_slot R15 = 0" | "x86_slot R14 = 1" | "x86_slot R13 = 2" | "x86_slot R12 = 3" | "x86_slot R11 = 4"
| "x86_slot R10 = 5" | "x86_slot R9 = 6" | "x86_slot R8 = 7" | "x86_slot RBP = 8" | "x86_slot RDI = 9"
| "x86_slot RSI = 10" | "x86_slot RDX = 11" | "x86_slot RCX = 12" | "x86_slot RBX = 13" | "x86_slot RAX = 14"
| "x86_slot RIP = 15" | "x86_slot CS = 16" | "x86_slot RFLAGS = 17" | "x86_slot RSP = 18" | "x86_slot SS = 19"

definition X86_WORDS :: usize where "X86_WORDS = 20"
definition USER_CS :: u64 where "USER_CS = 0x2B"
definition USER_SS :: u64 where "USER_SS = 0x23"

definition new_user :: "u64 \<Rightarrow> u64 \<Rightarrow> u64 \<Rightarrow> X86Reg \<Rightarrow> u64" where
  "new_user entry sp arg0 = (\<lambda>_. 0)(RDI := arg0, RIP := entry, CS := USER_CS, RFLAGS := 0x202, RSP := sp, SS := USER_SS)"

definition x86_frame_init :: "u64 \<Rightarrow> u64 \<Rightarrow> u64 \<Rightarrow> UserFrame" where
  "x86_frame_init entry sp arg0 = map (new_user entry sp arg0) x86_fields @ drop X86_WORDS UserFrame_ZERO"

definition x86_frame_num :: "UserFrame \<Rightarrow> u64" where
  "x86_frame_num f = f ! x86_slot RAX"

definition x86_frame_arg :: "UserFrame \<Rightarrow> nat \<Rightarrow> u64" where
  "x86_frame_arg f i = (case i of 0 \<Rightarrow> f ! x86_slot RDI | Suc 0 \<Rightarrow> f ! x86_slot RSI
     | Suc (Suc 0) \<Rightarrow> f ! x86_slot RDX | Suc (Suc (Suc 0)) \<Rightarrow> f ! x86_slot R10
     | Suc (Suc (Suc (Suc 0))) \<Rightarrow> f ! x86_slot R8 | _ \<Rightarrow> 0)"

definition x86_set_ret :: "u64 \<Rightarrow> UserFrame \<Rightarrow> UserFrame" where
  "x86_set_ret v f = f[x86_slot RAX := v]"

definition x86_set_ret2 :: "u64 \<Rightarrow> UserFrame \<Rightarrow> UserFrame" where
  "x86_set_ret2 v f = f[x86_slot RDX := v]"

definition x86_set_ret3 :: "u64 \<Rightarrow> UserFrame \<Rightarrow> UserFrame" where
  "x86_set_ret3 v f = f[x86_slot R10 := v]"

section \<open>x86-64: entry and return\<close>

text \<open>A push puts a word below the stack pointer: the last one pushed is the first of the frame.\<close>

definition push_all :: "u64 list \<Rightarrow> u64 list" where
  "push_all ws = fold (#) ws []"

definition x86_gpr_pushes :: "X86Reg list" where
  "x86_gpr_pushes = [RAX, RBX, RCX, RDX, RSI, RDI, RBP, R8, R9, R10, R11, R12, R13, R14, R15]"

text \<open>The syscall instruction has left the return address in RCX and the flags in R11.\<close>

definition syscall_entry :: "(X86Reg \<Rightarrow> u64) \<Rightarrow> u64 list" where
  "syscall_entry cpu = push_all ([USER_SS, cpu RSP, cpu R11, USER_CS, cpu RCX] @ map cpu x86_gpr_pushes)"

text \<open>An interrupt: the CPU pushes the five words of the return frame, the stub the registers.\<close>

definition timer_isr :: "(X86Reg \<Rightarrow> u64) \<Rightarrow> u64 list" where
  "timer_isr cpu = push_all (map cpu [SS, RSP, RFLAGS, CS, RIP] @ map cpu x86_gpr_pushes)"

definition x86_pops :: "X86Reg list" where
  "x86_pops = [R15, R14, R13, R12, R11, R10, R9, R8, RBP, RDI, RSI, RDX, RCX, RBX, RAX]"

text \<open>The return path: pop the registers, then iretq takes the last five words.\<close>

definition x86_resume :: "u64 list \<Rightarrow> (X86Reg \<Rightarrow> u64) \<Rightarrow> X86Reg \<Rightarrow> u64" where
  "x86_resume ws cpu = fold (\<lambda>(r, w) cpu. cpu(r := w)) (zip (x86_pops @ [RIP, CS, RFLAGS, RSP, SS]) ws) cpu"

section \<open>x86-64: exceptions and descriptors\<close>

text \<open>Where a trap is taken: to one of the kernel's entry points, or to the dump that ends the guest.\<close>

datatype TrapTo = ToSyscall "u64 list" | ToTimer "u64 list" | ToDevice "u64 list" | ToFault string u64 | ToDump

definition vector_name :: "u64 \<Rightarrow> string" where
  "vector_name v = (
     if v = 0 then ''divide error'' else if v = 1 then ''debug'' else if v = 2 then ''NMI''
     else if v = 3 then ''breakpoint'' else if v = 4 then ''overflow'' else if v = 5 then ''bound range exceeded''
     else if v = 6 then ''invalid opcode'' else if v = 7 then ''device not available'' else if v = 8 then ''double fault''
     else if v = 10 then ''invalid TSS'' else if v = 11 then ''segment not present'' else if v = 12 then ''stack-segment fault''
     else if v = 13 then ''general protection fault'' else if v = 14 then ''page fault'' else if v = 16 then ''x87 floating point''
     else if v = 17 then ''alignment check'' else if v = 18 then ''machine check'' else if v = 19 then ''SIMD floating point''
     else if v = 20 then ''virtualization'' else if v = 21 then ''control protection'' else ''reserved/other'')"

definition exception_dispatch :: "u64 \<Rightarrow> u64 \<Rightarrow> u64 \<Rightarrow> u64 \<Rightarrow> TrapTo" where
  "exception_dispatch vector cs rip cr2 =
     (let attributable = vector \<noteq> 2 \<and> vector \<noteq> 8 \<and> vector \<noteq> 18
      in if attributable \<and> cs AND 3 = 3
         then ToFault (vector_name vector) (if vector = 14 then cr2 else rip)
         else ToDump)"

text \<open>
  The exception stubs: the processor pushes its five words and, for some vectors, an error code; the stub
  of a vector pushes a dummy one unless it is one of those made for vectors with a code, then the vector,
  then the registers in an order of their own.
\<close>

definition cpu_error_vectors :: "nat list" where
  "cpu_error_vectors = [8, 10, 11, 12, 13, 14, 17, 21, 29, 30]"

definition isr_err_stubs :: "nat list" where
  "isr_err_stubs = [8, 10, 11, 12, 13, 14, 17, 21, 29, 30]"

definition isr_pushes :: "X86Reg list" where
  "isr_pushes = [RAX, RCX, RDX, RBX, RBP, RSI, RDI, R8, R9, R10, R11, R12, R13, R14, R15]"

definition exception_entry :: "(X86Reg \<Rightarrow> u64) \<Rightarrow> nat \<Rightarrow> u64 \<Rightarrow> u64 list" where
  "exception_entry cpu v err =
     push_all (map cpu [SS, RSP, RFLAGS, CS, RIP] @ (if v \<in> set cpu_error_vectors then [err] else [])
       @ (if v \<in> set isr_err_stubs then [] else [0]) @ [of_nat v] @ map cpu isr_pushes)"

text \<open>The fields of the dispatcher's frame by position, and the dispatcher applied to what the stub left.\<close>

definition ExceptionFrame_regs :: "X86Reg list" where
  "ExceptionFrame_regs = [R15, R14, R13, R12, R11, R10, R9, R8, RDI, RSI, RBP, RBX, RDX, RCX, RAX]"

definition exception_at :: "u64 list \<Rightarrow> u64 \<Rightarrow> TrapTo" where
  "exception_at fr cr2 = exception_dispatch (fr ! 15) (fr ! 18) (fr ! 17) cr2"

record IdtEntry =
  offset_low :: u16
  selector :: u16
  ist :: u8
  type_attr :: u8
  offset_mid :: u16
  offset_high :: u32
  reserved :: u32

definition set_handler :: "u64 \<Rightarrow> IdtEntry" where
  "set_handler handler = \<lparr>offset_low = ucast handler, selector = 0x08, ist = 0, type_attr = 0x8E,
     offset_mid = ucast (drop_bit 16 handler), offset_high = ucast (drop_bit 32 handler), reserved = 0\<rparr>"

text \<open>The processor's reading of a gate.\<close>

definition gate_target :: "IdtEntry \<Rightarrow> u64" where
  "gate_target e = ucast (offset_low e) OR push_bit 16 (ucast (offset_mid e)) OR push_bit 32 (ucast (offset_high e))"

definition TSS_SIZE :: u64 where "TSS_SIZE = 104"

definition tss_low :: "u64 \<Rightarrow> u64" where
  "tss_low base = (let limit = TSS_SIZE - 1 in
     (limit AND 0xFFFF) OR push_bit 16 (base AND 0xFFFFFF) OR push_bit 40 0x89
     OR push_bit 48 (drop_bit 16 limit AND 0xF) OR push_bit 56 (drop_bit 24 base AND 0xFF))"

definition tss_high :: "u64 \<Rightarrow> u64" where
  "tss_high base = drop_bit 32 base AND 0xFFFFFFFF"

definition descriptor_base :: "u64 \<Rightarrow> u64 \<Rightarrow> u64" where
  "descriptor_base low high = (drop_bit 16 low AND 0xFFFFFF) OR push_bit 24 (drop_bit 56 low AND 0xFF) OR push_bit 32 high"

section \<open>RISC-V: the frame\<close>

text \<open>Registers by number: \<open>x0\<close> to \<open>x31\<close>, then sepc (32) and sstatus (33), as the frame has them.\<close>

definition RV_WORDS :: usize where "RV_WORDS = 34"
definition SEPC :: nat where "SEPC = 32"
definition SSTATUS :: nat where "SSTATUS = 33"
definition SSTATUS_SPP :: u64 where "SSTATUS_SPP = push_bit 8 1"
definition SSTATUS_SPIE :: u64 where "SSTATUS_SPIE = push_bit 5 1"
definition SSTATUS_SUM :: u64 where "SSTATUS_SUM = push_bit 18 1"

definition rv_frame_init :: "u64 \<Rightarrow> u64 \<Rightarrow> u64 \<Rightarrow> UserFrame" where
  "rv_frame_init entry sp arg0 =
     UserFrame_ZERO[2 := sp, 10 := arg0, SEPC := entry, SSTATUS := SSTATUS_SPIE OR SSTATUS_SUM]"

definition rv_frame_num :: "UserFrame \<Rightarrow> u64" where
  "rv_frame_num f = f ! 17"

definition rv_frame_arg :: "UserFrame \<Rightarrow> nat \<Rightarrow> u64" where
  "rv_frame_arg f i = (if 10 + i < 32 then f ! (10 + i) else 0)"

definition rv_set_ret :: "u64 \<Rightarrow> UserFrame \<Rightarrow> UserFrame" where
  "rv_set_ret v f = f[10 := v]"

definition rv_set_ret2 :: "u64 \<Rightarrow> UserFrame \<Rightarrow> UserFrame" where
  "rv_set_ret2 v f = f[11 := v]"

definition rv_set_ret3 :: "u64 \<Rightarrow> UserFrame \<Rightarrow> UserFrame" where
  "rv_set_ret3 v f = f[13 := v]"

section \<open>RISC-V: entry and return\<close>

text \<open>The registers the vector stores at their own offset; \<open>x2\<close> comes from sscratch, \<open>x0\<close> is stored as zero.\<close>

definition rv_stored :: "nat list" where
  "rv_stored = [1, 3, 4, 5, 6, 7, 8, 9, 10, 11, 12, 13, 14, 15, 16, 17, 18, 19, 20, 21, 22, 23, 24, 25, 26, 27, 28, 29, 30, 31]"

text \<open>\<open>stale\<close> is what the trap stack held; the interrupted \<open>x2\<close> was swapped into sscratch on entry.\<close>

definition rv_trap_vector :: "(nat \<Rightarrow> u64) \<Rightarrow> u64 list \<Rightarrow> u64 list" where
  "rv_trap_vector cpu stale =
     (let sscratch = cpu 2;
          fr = fold (\<lambda>i fr. fr[i := cpu i]) rv_stored stale;
          fr = fr[2 := sscratch];
          fr = fr[0 := 0];
          fr = fr[32 := cpu SEPC]
      in fr[33 := cpu SSTATUS])"

definition rv_loaded :: "nat list" where
  "rv_loaded = [33, 32, 1, 3, 4, 5, 6, 7, 8, 9, 10, 11, 12, 13, 14, 15, 16, 17, 18, 19, 20, 21, 22, 23, 24, 25, 26, 27, 28, 29, 30, 31, 2]"

definition rv_resume :: "u64 list \<Rightarrow> (nat \<Rightarrow> u64) \<Rightarrow> nat \<Rightarrow> u64" where
  "rv_resume ws cpu = fold (\<lambda>i cpu. cpu(i := ws ! i)) rv_loaded cpu"

section \<open>RISC-V: dispatch\<close>

definition exception_name :: "u64 \<Rightarrow> string" where
  "exception_name code = (
     if code = 0 then ''instruction address misaligned'' else if code = 1 then ''instruction access fault''
     else if code = 2 then ''illegal instruction'' else if code = 3 then ''breakpoint''
     else if code = 4 then ''load address misaligned'' else if code = 5 then ''load access fault''
     else if code = 6 then ''store/AMO address misaligned'' else if code = 7 then ''store/AMO access fault''
     else if code = 8 then ''ecall from U-mode'' else if code = 9 then ''ecall from S-mode''
     else if code = 12 then ''instruction page fault'' else if code = 13 then ''load page fault''
     else if code = 15 then ''store/AMO page fault'' else ''reserved/other'')"

definition INTR_S_TIMER :: u64 where "INTR_S_TIMER = 5"
definition INTR_S_EXTERNAL :: u64 where "INTR_S_EXTERNAL = 9"

definition trap_dispatch :: "u64 \<Rightarrow> u64 \<Rightarrow> u64 list \<Rightarrow> TrapTo" where
  "trap_dispatch scause stval f =
     (let is_interrupt = drop_bit 63 scause \<noteq> 0; code = scause AND NOT (push_bit 63 1)
      in if \<not> is_interrupt \<and> code = 8 then ToSyscall (f[SEPC := f ! SEPC + 4])
         else if is_interrupt \<and> code = INTR_S_TIMER then ToTimer f
         else if is_interrupt \<and> code = INTR_S_EXTERNAL then ToDevice f
         else if \<not> is_interrupt \<and> f ! SSTATUS AND SSTATUS_SPP = 0 then ToFault (exception_name code) stval
         else ToDump)"

section \<open>Frames as lists\<close>

definition x86_frames :: "'m Arch \<Rightarrow> bool" where
  "x86_frames A \<longleftrightarrow> a_frame_words A = X86_WORDS \<and> a_frame_init A = x86_frame_init \<and> a_frame_num A = x86_frame_num
     \<and> a_frame_arg A = x86_frame_arg \<and> a_set_ret A = x86_set_ret \<and> a_set_ret2 A = x86_set_ret2 \<and> a_set_ret3 A = x86_set_ret3"

definition rv_frames :: "'m Arch \<Rightarrow> bool" where
  "rv_frames A \<longleftrightarrow> a_frame_words A = RV_WORDS \<and> a_frame_init A = rv_frame_init \<and> a_frame_num A = rv_frame_num
     \<and> a_frame_arg A = rv_frame_arg \<and> a_set_ret A = rv_set_ret \<and> a_set_ret2 A = rv_set_ret2 \<and> a_set_ret3 A = rv_set_ret3"

lemma syscall_entry_words:
  "syscall_entry cpu = map (cpu(RIP := cpu RCX, CS := USER_CS, RFLAGS := cpu R11, SS := USER_SS)) x86_fields"
  by (simp add: syscall_entry_def push_all_def x86_gpr_pushes_def x86_fields_def)

lemma timer_isr_words: "timer_isr cpu = map cpu x86_fields"
  by (simp add: timer_isr_def push_all_def x86_gpr_pushes_def x86_fields_def)

lemma x86_resume_words: "x86_resume (map g x86_fields @ rest) cpu = g"
  by (rule ext, case_tac x) (simp_all add: x86_resume_def x86_pops_def x86_fields_def)

lemma x86_fields_length: "length x86_fields = X86_WORDS"
  by (simp add: x86_fields_def X86_WORDS_def)

lemma x86_slot_field: "x86_slot r < X86_WORDS \<and> x86_fields ! x86_slot r = r"
  by (cases r) (simp_all add: x86_fields_def X86_WORDS_def)

lemma x86_slot_inj: "x86_slot r = x86_slot r' \<longleftrightarrow> r = r'"
  using x86_slot_field by metis

lemma x86_write_field: "(map g x86_fields @ rest)[x86_slot r := v] = map (g(r := v)) x86_fields @ rest"
proof (rule nth_equalityI)
  fix i assume i: "i < length ((map g x86_fields @ rest)[x86_slot r := v])"
  have f: "x86_fields ! i = r \<longleftrightarrow> i = x86_slot r" if "i < X86_WORDS"
  proof -
    have "distinct x86_fields" by (simp add: x86_fields_def)
    then show ?thesis using that x86_slot_field [of r] x86_fields_length nth_eq_iff_index_eq by metis
  qed
  show "(map g x86_fields @ rest)[x86_slot r := v] ! i = (map (g(r := v)) x86_fields @ rest) ! i"
    using i f x86_slot_field [of r] by (auto simp: nth_list_update nth_append x86_fields_length)
qed simp

lemma x86_read_field: "(map g x86_fields @ rest) ! x86_slot r = g r"
  using x86_slot_field [of r] by (simp add: nth_append x86_fields_length)

lemma x86_snapshot: "x86_frames A \<Longrightarrow> snapshot A (map g x86_fields) f = map g x86_fields @ drop X86_WORDS f"
  using x86_fields_length by (simp add: snapshot_def x86_frames_def)

lemma rv_stored_set: "set rv_stored = {i. i < 32 \<and> i \<noteq> 0 \<and> i \<noteq> 2}"
  unfolding rv_stored_def by auto presburger

lemma stores:
  "length (fold (\<lambda>i fr. fr[i := g i]) is fr) = length fr
   \<and> (\<forall>j < length fr. fold (\<lambda>i fr. fr[i := g i]) is fr ! j = (if j \<in> set is then g j else fr ! j))"
  by (induction "is" arbitrary: fr) (auto simp: nth_list_update)

lemma rv_vector_words:
  assumes "length stale = RV_WORDS"
  shows "length (rv_trap_vector cpu stale) = RV_WORDS
    \<and> (\<forall>i < RV_WORDS. rv_trap_vector cpu stale ! i = (if i = 0 then 0 else cpu i))"
  using assms stores [of cpu rv_stored stale] unfolding rv_trap_vector_def Let_def rv_stored_set RV_WORDS_def SEPC_def SSTATUS_def
  by (auto simp: nth_list_update)

lemma loads: "fold (\<lambda>i cpu. cpu(i := ws ! i)) is cpu j = (if j \<in> set is then ws ! j else cpu j)"
  by (induction "is" arbitrary: cpu) auto

lemma rv_resume_reg: "rv_resume ws cpu i = (if 0 < i \<and> i < RV_WORDS then ws ! i else cpu i)"
proof -
  have "set rv_loaded = {i. 0 < i \<and> i < RV_WORDS}" 
    unfolding rv_loaded_def RV_WORDS_def by auto presburger
  then show ?thesis by (simp add: rv_resume_def loads)
qed

lemma rv_snapshot: "rv_frames A \<Longrightarrow> length ws = RV_WORDS \<Longrightarrow> i < RV_WORDS \<Longrightarrow> snapshot A ws f ! i = ws ! i"
  by (simp add: snapshot_def rv_frames_def nth_append)

section \<open>Descriptors\<close>

lemma gate_handler: "gate_target (set_handler handler) = handler"
proof (rule bit_word_eqI)
  fix n :: nat assume n: "n < LENGTH(64)"
  consider "n < 16" | "16 \<le> n" "n < 32" | "32 \<le> n" by linarith
  then show "bit (gate_target (set_handler handler)) n = bit handler n"
  proof cases
    case 2
    then have "n - 16 < 16" by linarith
    with 2 n show ?thesis by (simp add: gate_target_def set_handler_def bit_simps)
  next
    case 3
    then have "n - 32 < 32" using n by simp
    with 3 n show ?thesis by (auto simp: gate_target_def set_handler_def bit_simps)
  qed (use n in \<open>simp add: gate_target_def set_handler_def bit_simps\<close>)
qed

text \<open>The constant bits of the descriptor lie outside the base field.\<close>

definition tss_constant :: u64 where "tss_constant = 0x890000000067"

lemma tss_low_base:
  "tss_low base = tss_constant OR push_bit 16 (base AND mask 24) OR push_bit 56 (drop_bit 24 base AND mask 8)"
proof -
  have m: "(0xFFFFFF :: u64) = mask 24" "(0xFF :: u64) = mask 8" by (simp_all add: mask_eq_exp_minus_1)
  have c: "(TSS_SIZE - 1) AND 0xFFFF = 0x67" "drop_bit 16 (TSS_SIZE - 1) AND 0xF = 0" "push_bit 40 (0x89 :: u64) = 0x890000000000"
    "tss_constant = 0x67 OR 0x890000000000"
    by (simp_all add: TSS_SIZE_def tss_constant_def)
  show ?thesis
    unfolding tss_low_def Let_def c m push_bit_of_0 by (simp only: ac_simps or.left_neutral or.right_neutral)
qed

lemma tss_constant_bits: "i < 24 \<Longrightarrow> \<not> bit tss_constant (16 + i)" "\<not> bit tss_constant (56 + i)"
proof -
  have z: "take_bit 24 (drop_bit 16 tss_constant) = 0" "drop_bit 56 tss_constant = 0" by (simp_all add: tss_constant_def)
  show "i < 24 \<Longrightarrow> \<not> bit tss_constant (16 + i)"
    using arg_cong [OF z(1), of "\<lambda>w. bit w i"] by (simp add: bit_take_bit_iff bit_drop_bit_eq)
  show "\<not> bit tss_constant (56 + i)"
    using arg_cong [OF z(2), of "\<lambda>w. bit w i"] by (simp add: bit_drop_bit_eq)
qed

lemma tss_base: "descriptor_base (tss_low base) (tss_high base) = base"
proof (rule bit_word_eqI)
  have m: "(0xFFFFFF :: u64) = mask 24" "(0xFF :: u64) = mask 8" "(0xFFFFFFFF :: u64) = mask 32"
    by (simp_all add: mask_eq_exp_minus_1)
  fix n :: nat assume n: "n < LENGTH(64)"
  consider "n < 24" | "24 \<le> n" "n < 32" | "32 \<le> n" by linarith
  then show "bit (descriptor_base (tss_low base) (tss_high base)) n = bit base n"
  proof cases
    case 1
    then show ?thesis
      using tss_constant_bits(1) [of n] unfolding descriptor_base_def tss_low_base tss_high_def m
      by (simp add: bit_simps)
  next
    case 2
    then have i: "n - 24 < 8" "n - 24 < 64" by linarith+
    then show ?thesis
      using 2 i tss_constant_bits(2) [of "n - 24"] unfolding descriptor_base_def tss_low_base tss_high_def m
      by (simp add: bit_simps)
  next
    case 3
    then have "n - 32 < 32" using n by simp
    moreover have "\<not> n - 24 < 8" using 3 by linarith
    ultimately show ?thesis
      using 3 n unfolding descriptor_base_def tss_low_base tss_high_def m by (simp add: bit_simps)
  qed
qed

section \<open>Properties\<close>

text \<open>
  (C24) An interrupt is transparent: the words the x86-64 stub saves, copied into the process table and
  loaded again by the return path, restore every register of the interrupted process, whatever the
  registers held in between, and so do the words of the RISC-V vector, whose \<open>x0\<close> has no state.
\<close>

theorem interrupt_restores_every_register:
  assumes "x86_frames A" and "rv_frames B" and "length stale = RV_WORDS"
  shows "x86_resume (snapshot A (timer_isr cpu) f) any = cpu
    \<and> rv_resume (snapshot B (rv_trap_vector regs stale) f) other = (\<lambda>i. if 0 < i \<and> i < RV_WORDS then regs i else other i)"
proof
  show "x86_resume (snapshot A (timer_isr cpu) f) any = cpu"
    by (simp add: timer_isr_words x86_snapshot [OF assms(1)] x86_resume_words)
  show "rv_resume (snapshot B (rv_trap_vector regs stale) f) other = (\<lambda>i. if 0 < i \<and> i < RV_WORDS then regs i else other i)"
    using rv_vector_words [OF assms(3), of regs] by (simp add: fun_eq_iff rv_resume_reg rv_snapshot [OF assms(2)])
qed

text \<open>
  (C25) A system call on x86-64 reads its number and arguments from the registers the convention names, and
  returns with its three results in RAX, RDX and R10, at the instruction after the call, with the flags
  of the caller, in the user segments, and with every other register as the caller left it.
\<close>

theorem x86_call_convention:
  assumes "x86_frames A"
  shows "let f = snapshot A (syscall_entry cpu) UserFrame_ZERO
    in a_frame_num A f = cpu RAX \<and> map (a_frame_arg A f) [0, 1, 2, 3, 4] = [cpu RDI, cpu RSI, cpu RDX, cpu R10, cpu R8]
    \<and> x86_resume (set_rets A r1 r2 r3 f) any = cpu(RIP := cpu RCX, CS := USER_CS, RFLAGS := cpu R11, SS := USER_SS,
        RAX := r1, RDX := r2, R10 := r3)"
proof -
  let ?g = "cpu(RIP := cpu RCX, CS := USER_CS, RFLAGS := cpu R11, SS := USER_SS)"
  define f where "f = snapshot A (syscall_entry cpu) UserFrame_ZERO"
  have f: "f = map ?g x86_fields @ drop X86_WORDS UserFrame_ZERO"
    unfolding f_def syscall_entry_words by (rule x86_snapshot [OF assms(1)])
  have "set_rets A r1 r2 r3 f = map (?g(RAX := r1, RDX := r2, R10 := r3)) x86_fields @ drop X86_WORDS UserFrame_ZERO"
    using assms(1) unfolding f by (simp only: set_rets_def x86_frames_def x86_set_ret_def x86_set_ret2_def x86_set_ret3_def x86_write_field)
  then have "x86_resume (set_rets A r1 r2 r3 f) any = ?g(RAX := r1, RDX := r2, R10 := r3)" by (simp only: x86_resume_words)
  moreover have "a_frame_num A f = cpu RAX"
    using assms(1) unfolding f by (simp only: x86_frames_def x86_frame_num_def x86_read_field) simp
  moreover have "map (a_frame_arg A f) [0, 1, 2, 3, 4] = [cpu RDI, cpu RSI, cpu RDX, cpu R10, cpu R8]"
    using assms(1) unfolding f
    by (simp add: x86_frames_def x86_frame_arg_def x86_read_field eval_nat_numeral del: x86_slot.simps)
  ultimately show ?thesis by (simp add: f_def [symmetric] Let_def)
qed

text \<open>
  (C26) A system call on RISC-V is dispatched to the call handler with the frame moved past the instruction,
  reads number and arguments from a7 and a0 to a4, and returns there with its results in a0, a1 and a3,
  in user mode as it was, and with every other register as the caller left it.
\<close>

theorem rv_call_convention:
  assumes "rv_frames A" and "length stale = RV_WORDS"
  shows "case trap_dispatch 8 stval (rv_trap_vector cpu stale) of
    ToSyscall ws \<Rightarrow> (let f = snapshot A ws UserFrame_ZERO
      in a_frame_num A f = cpu 17 \<and> map (a_frame_arg A f) [0, 1, 2, 3, 4] = map cpu [10, 11, 12, 13, 14]
         \<and> rv_resume (set_rets A r1 r2 r3 f) any
            = (\<lambda>i. if 0 < i \<and> i < RV_WORDS then (cpu(SEPC := cpu SEPC + 4, 10 := r1, 11 := r2, 13 := r3)) i else any i))
  | _ \<Rightarrow> False"
proof -
  let ?v = "rv_trap_vector cpu stale"
  have v: "length ?v = RV_WORDS" "\<And>i. i < RV_WORDS \<Longrightarrow> ?v ! i = (if i = 0 then 0 else cpu i)"
    using rv_vector_words [OF assms(2)] by blast+
  define ws where "ws = ?v[SEPC := ?v ! SEPC + 4]"
  define f where "f = snapshot A ws UserFrame_ZERO"
  have d: "trap_dispatch 8 stval ?v = ToSyscall ws" by (simp add: trap_dispatch_def ws_def)
  have f: "length f = 40" "\<And>i. 0 < i \<Longrightarrow> i < RV_WORDS \<Longrightarrow> f ! i = (cpu(SEPC := cpu SEPC + 4)) i"
  proof -
    show "length f = 40"
      using v(1) assms(1) by (simp add: f_def ws_def snapshot_def rv_frames_def RV_WORDS_def UserFrame_ZERO_def)
    show "f ! i = (cpu(SEPC := cpu SEPC + 4)) i" if "0 < i" "i < RV_WORDS" for i
      using that v rv_snapshot [OF assms(1), of ws i] by (auto simp: f_def ws_def nth_list_update SEPC_def RV_WORDS_def)
  qed
  have "rv_resume (set_rets A r1 r2 r3 f) any
      = (\<lambda>i. if 0 < i \<and> i < RV_WORDS then (cpu(SEPC := cpu SEPC + 4, 10 := r1, 11 := r2, 13 := r3)) i else any i)"
    using assms(1) f
    by (auto simp: fun_eq_iff rv_resume_reg set_rets_def rv_frames_def rv_set_ret_def rv_set_ret2_def rv_set_ret3_def nth_list_update RV_WORDS_def)
  moreover have "a_frame_num A f = cpu 17 \<and> map (a_frame_arg A f) [0, 1, 2, 3, 4] = map cpu [10, 11, 12, 13, 14]"
    using assms(1) f by (simp add: rv_frames_def rv_frame_num_def rv_frame_arg_def RV_WORDS_def SEPC_def)
  ultimately show ?thesis by (simp add: d f_def [symmetric] Let_def)
qed

text \<open>An interface with the frame functions of an architecture.\<close>

definition x86_framed :: "'m Arch \<Rightarrow> 'm Arch" where
  "x86_framed A = A\<lparr>a_frame_words := X86_WORDS, a_frame_init := x86_frame_init, a_frame_num := x86_frame_num,
     a_frame_arg := x86_frame_arg, a_set_ret := x86_set_ret, a_set_ret2 := x86_set_ret2, a_set_ret3 := x86_set_ret3\<rparr>"

definition rv_framed :: "'m Arch \<Rightarrow> 'm Arch" where
  "rv_framed A = A\<lparr>a_frame_words := RV_WORDS, a_frame_init := rv_frame_init, a_frame_num := rv_frame_num,
     a_frame_arg := rv_frame_arg, a_set_ret := rv_set_ret, a_set_ret2 := rv_set_ret2, a_set_ret3 := rv_set_ret3\<rparr>"

lemma framed [simp]: "x86_frames (x86_framed A)" "rv_frames (rv_framed A)"
  by (simp_all add: x86_frames_def x86_framed_def rv_frames_def rv_framed_def)

theorem interrupt_restores_every_register_witness:
  "x86_resume (snapshot (x86_framed null_arch) (timer_isr (\<lambda>r. of_nat (x86_slot r) + 7)) UserFrame_ZERO) (\<lambda>_. 0) RBX = 20
   \<and> rv_resume (snapshot (rv_framed null_arch) (rv_trap_vector of_nat (replicate 34 0)) UserFrame_ZERO) (\<lambda>_. 0) 9 = 9"
proof -
  have l: "length (replicate 34 0 :: u64 list) = RV_WORDS" by (simp add: RV_WORDS_def)
  note t = interrupt_restores_every_register [OF framed(1) framed(2) l, of null_arch "\<lambda>r. of_nat (x86_slot r) + 7" UserFrame_ZERO "\<lambda>_. 0"
      null_arch of_nat "\<lambda>_. 0"]
  then show ?thesis by (simp add: RV_WORDS_def)
qed

theorem x86_call_convention_witness:
  "x86_resume (set_rets (x86_framed null_arch) 5 6 7 (snapshot (x86_framed null_arch) (syscall_entry (\<lambda>r. of_nat (x86_slot r))) UserFrame_ZERO))
     (\<lambda>_. 0) R10 = 7"
  using x86_call_convention [OF framed(1), of null_arch "\<lambda>r. of_nat (x86_slot r)" 5 6 7] by (simp add: Let_def)

theorem rv_call_convention_witness:
  "\<exists>ws. trap_dispatch 8 0 (rv_trap_vector of_nat (replicate 34 0)) = ToSyscall ws
     \<and> rv_resume (set_rets (rv_framed null_arch) 5 6 7 (snapshot (rv_framed null_arch) ws UserFrame_ZERO)) (\<lambda>_. 0) SEPC = 36"
proof -
  have l: "length (replicate 34 0 :: u64 list) = RV_WORDS" by (simp add: RV_WORDS_def)
  show ?thesis
    using rv_call_convention [OF framed(2) l, of null_arch of_nat 5 6 7 "\<lambda>_. 0" 0]
    by (auto simp: Let_def SEPC_def RV_WORDS_def split: TrapTo.splits)
qed

text \<open>
  (C27) A fault is blamed on the right party: whatever vector is taken, the stub leaves a frame of one shape with
  every register in its field, the vector and the error code the processor gave (or zero), and the
  dispatcher kills the running process exactly when the interrupted code was in ring 3 and the vector is
  neither the NMI, nor the double fault, nor the machine check; otherwise it is the kernel's own failure.
\<close>

theorem exceptions_are_attributed:
  assumes "v < 32"
  shows "exception_entry cpu v err = map cpu ExceptionFrame_regs @ [of_nat v, if v \<in> set cpu_error_vectors then err else 0]
      @ map cpu [RIP, CS, RFLAGS, RSP, SS]
    \<and> exception_at (exception_entry cpu v err) cr2 =
      (if cpu CS AND 3 = 3 \<and> v \<notin> {2, 8, 18} then ToFault (vector_name (of_nat v)) (if v = 14 then cr2 else cpu RIP) else ToDump)"
proof -
  have e: "exception_entry cpu v err = map cpu ExceptionFrame_regs @ [of_nat v, if v \<in> set cpu_error_vectors then err else 0]
      @ map cpu [RIP, CS, RFLAGS, RSP, SS]"
    by (simp add: exception_entry_def push_all_def isr_pushes_def ExceptionFrame_regs_def cpu_error_vectors_def isr_err_stubs_def)
  have inj: "of_nat v = (of_nat n :: u64) \<longleftrightarrow> v = n" if "n < 32" for n
  proof -
    have "v < 2 ^ 20" "n < 2 ^ 20" using assms that by simp_all
    then have "unat (of_nat v :: u64) = v" "unat (of_nat n :: u64) = n"
      by (simp_all only: unat_of_nat) (simp_all add: take_bit_nat_eq_self)
    then show ?thesis by metis
  qed
  have "of_nat v = (2 :: u64) \<longleftrightarrow> v = 2" "of_nat v = (8 :: u64) \<longleftrightarrow> v = 8" "of_nat v = (18 :: u64) \<longleftrightarrow> v = 18"
    "of_nat v = (14 :: u64) \<longleftrightarrow> v = 14"
    using inj [of 2] inj [of 8] inj [of 18] inj [of 14] by simp_all
  then show ?thesis
    unfolding e exception_at_def exception_dispatch_def by (simp add: ExceptionFrame_regs_def)
qed

theorem exceptions_are_attributed_witness:
  "exception_at (exception_entry (\<lambda>r. if r = CS then 0x2B else 1) 14 4) 0x1234 = ToFault ''page fault'' 0x1234"
  using conjunct2 [OF exceptions_are_attributed [of 14 "\<lambda>r. if r = CS then 0x2B else 1" 4 "0x1234"]]
  by (simp add: vector_name_def)

text \<open>
  Installed descriptors read back: the processor finds at a gate the handler that was put there and in
  the two words of the task descriptor the address of the segment.
\<close>

theorem descriptors_read_back: "gate_target (set_handler handler) = handler \<and> descriptor_base (tss_low base) (tss_high base) = base"
proof
  show "gate_target (set_handler handler) = handler"
    by (rule gate_handler)
  show "descriptor_base (tss_low base) (tss_high base) = base"
    by (rule tss_base)
qed

end
