(* ===== verification/Kuser.thy ===== *)
theory Kuser
  imports Kauth Kframes Uframe
begin

text \<open>
  The kernel and the trap code of an architecture put together: what the processor does between a
  resume and the next trap (src/crates/arch-x86_64/src/syscall.rs and interrupts.rs,
  src/crates/arch-riscv64/src/interrupts.rs), as a step relation over the handlers of the nucleus. The
  only assumption on user code is what the processor guarantees of it: in ring 3 or U-mode it cannot
  change its privilege, nor its interrupt flag and I/O privilege.
\<close>

section \<open>x86-64\<close>

text \<open>The flags a process must not get: I/O privilege (bits 12 and 13), and interrupts off (bit 9).\<close>

definition RFLAGS_GUARDED :: u64 where "RFLAGS_GUARDED = 0x3200"
definition RFLAGS_IF :: u64 where "RFLAGS_IF = 0x200"

definition ring3 :: "(X86Reg \<Rightarrow> u64) \<Rightarrow> bool" where
  "ring3 cpu \<longleftrightarrow> cpu CS AND 3 = 3 \<and> cpu RFLAGS AND RFLAGS_GUARDED = RFLAGS_IF"

definition x86_saved :: "UserFrame \<Rightarrow> X86Reg \<Rightarrow> u64" where
  "x86_saved f r = f ! x86_slot r"

text \<open>Code entered in ring 3 is still in ring 3 at its next trap, with those flags unchanged.\<close>

definition x86_ran :: "UserFrame \<Rightarrow> (X86Reg \<Rightarrow> u64) \<Rightarrow> bool" where
  "x86_ran f cpu \<longleftrightarrow> (ring3 (x86_saved f) \<longrightarrow> ring3 cpu)"

text \<open>The SYSCALL instruction under the registers the kernel programs: the flags it masks, the segments it loads.\<close>

definition IA32_FMASK :: u64 where "IA32_FMASK = 0x200 OR 0x400 OR 0x100 OR 0x4000 OR 0x40000"
definition IA32_STAR :: u64 where "IA32_STAR = push_bit 48 0x18 OR push_bit 32 0x08"

definition syscall_insn :: "(X86Reg \<Rightarrow> u64) \<Rightarrow> X86Reg \<Rightarrow> u64" where
  "syscall_insn cpu = cpu(RCX := cpu RIP, R11 := cpu RFLAGS, RFLAGS := cpu RFLAGS AND NOT IA32_FMASK,
     CS := drop_bit 32 IA32_STAR AND 0xFFFC, SS := (drop_bit 32 IA32_STAR AND 0xFFFF) + 8)"

definition console_isr :: "(X86Reg \<Rightarrow> u64) \<Rightarrow> u64 list" where
  "console_isr cpu = push_all (map cpu [SS, RSP, RFLAGS, CS, RIP] @ map cpu x86_gpr_pushes)"

inductive x86_step :: "'m Arch \<Rightarrow> Stop \<times> 'm Kernel \<Rightarrow> Stop \<times> 'm Kernel \<Rightarrow> bool" for A where
  x86_compute: "x86_step A (Resumed n, k) (Resumed n, k\<lparr>k_mach := m\<rparr>)"
| x86_syscall: "x86_step A (Resumed n, k) (syscall_trap A (syscall_entry (syscall_insn cpu)) k)"
    if "x86_ran (pr_frame (proc_at k n)) cpu"
| x86_timer: "x86_step A (Resumed n, k) (preempt_trap A (timer_isr cpu) k)" if "x86_ran (pr_frame (proc_at k n)) cpu"
| x86_console: "x86_step A (Resumed n, k) (device_trap A (console_isr cpu) k)" if "x86_ran (pr_frame (proc_at k n)) cpu"
| x86_exception: "x86_step A (Resumed n, k) (fault_trap A k)"
    if "x86_ran (pr_frame (proc_at k n)) cpu" and "exception_at (exception_entry cpu v err) cr2 = ToFault what at"
| x86_idle_timer: "x86_step A (Parked, k) (preempt_trap A (timer_isr cpu) k)"
| x86_idle_console: "x86_step A (Parked, k) (device_trap A (console_isr cpu) k)"

lemma x86_kstep: "x86_step A s s' \<Longrightarrow> kstep A s s'"
  by (induction rule: x86_step.induct) (rule kstep.intros)+

section \<open>RISC-V\<close>

definition rv_user :: "(nat \<Rightarrow> u64) \<Rightarrow> bool" where
  "rv_user cpu \<longleftrightarrow> cpu SSTATUS AND SSTATUS_SPP = 0"

definition rv_ran :: "UserFrame \<Rightarrow> (nat \<Rightarrow> u64) \<Rightarrow> bool" where
  "rv_ran f cpu \<longleftrightarrow> (rv_user (nth f) \<longrightarrow> rv_user cpu)"

text \<open>The entry point a trap is taken to; a dump ends the guest and has no next state.\<close>

fun take_trap :: "'m Arch \<Rightarrow> TrapTo \<Rightarrow> 'm Kernel \<Rightarrow> (Stop \<times> 'm Kernel) option" where
  "take_trap A (ToSyscall ws) k = Some (syscall_trap A ws k)"
| "take_trap A (ToTimer ws) k = Some (preempt_trap A ws k)"
| "take_trap A (ToDevice ws) k = Some (device_trap A ws k)"
| "take_trap A (ToFault what at) k = Some (fault_trap A k)"
| "take_trap A ToDump k = None"

text \<open>A parked kernel is in S-mode with nothing that faults: it takes interrupts only.\<close>

inductive rv_step :: "'m Arch \<Rightarrow> Stop \<times> 'm Kernel \<Rightarrow> Stop \<times> 'm Kernel \<Rightarrow> bool" for A where
  rv_compute: "rv_step A (Resumed n, k) (Resumed n, k\<lparr>k_mach := m\<rparr>)"
| rv_trap: "rv_step A (Resumed n, k) s"
    if "rv_ran (pr_frame (proc_at k n)) cpu" and "length stale = RV_WORDS"
      and "take_trap A (trap_dispatch scause stval (rv_trap_vector cpu stale)) k = Some s"
| rv_idle: "rv_step A (Parked, k) s"
    if "drop_bit 63 scause \<noteq> 0" and "take_trap A (trap_dispatch scause stval (rv_trap_vector cpu stale)) k = Some s"

lemma interrupt_dispatch:
  "drop_bit 63 scause \<noteq> 0 \<Longrightarrow> trap_dispatch scause stval ws \<in> {ToTimer ws, ToDevice ws, ToDump}"
  by (auto simp: trap_dispatch_def Let_def)

lemma rv_kstep: "rv_step A s s' \<Longrightarrow> kstep A s s'"
proof (induction rule: rv_step.induct)
  case (rv_trap k n cpu stale scause stval s)
  then show ?case
    by (cases "trap_dispatch scause stval (rv_trap_vector cpu stale)") (auto intro: kstep.intros)
next
  case (rv_idle scause stval cpu stale k s)
  then show ?case using interrupt_dispatch [of scause stval "rv_trap_vector cpu stale"] by (auto intro: kstep.intros)
qed (rule kstep.compute)

section \<open>Processes stay in user mode\<close>

lemma reached_frames:
  assumes "S\<^sup>*\<^sup>* (launch A start fa kt elf k0) s" and "cold k0"
    and "fst (launch A start fa kt elf k0) = Panicked \<or> frames_ok P (snd (launch A start fa kt elf k0))"
    and "\<And>s s'. S s s' \<Longrightarrow> kstep A s s'"
    and "\<And>s s'. S s s' \<Longrightarrow> good_end s \<Longrightarrow> frames_ok P (snd s) \<Longrightarrow> frames_ok P (snd s')"
  shows "good_end s \<and> (fst s = Panicked \<or> frames_ok P (snd s))"
  using assms(1)
proof (induction rule: rtranclp_induct)
  case base
  then show ?case using launch_good [OF assms(2)] assms(3) by blast
next
  case (step s s')
  have "fst s \<noteq> Panicked" using assms(4) [OF step.hyps(2)] by (cases s) (auto elim: kstep_stopped(2))
  then show ?case using step assms(4,5) kstep_good by blast
qed

definition x86_user_mode :: "UserFrame \<Rightarrow> bool" where
  "x86_user_mode f \<longleftrightarrow> X86_WORDS \<le> length f \<and> ring3 (x86_saved f)"

lemma x86_saved_write: "r \<noteq> r' \<Longrightarrow> x86_saved (f[x86_slot r := v]) r' = x86_saved f r'"
  by (simp add: x86_saved_def x86_slot_inj)

lemma x86_saved_snapshot: "x86_saved (map g x86_fields @ rest) = g"
  by (simp add: fun_eq_iff x86_saved_def x86_read_field)

lemma x86_mode_words: "ring3 g \<Longrightarrow> x86_user_mode (snapshot (x86_framed A) (map g x86_fields) f)"
  by (simp add: x86_user_mode_def x86_snapshot x86_saved_snapshot x86_fields_length)

lemma x86_mode_init: "x86_user_mode (a_frame_init (x86_framed A) entry sp arg)"
  by (simp add: x86_framed_def x86_frame_init_def x86_user_mode_def x86_saved_snapshot x86_fields_length ring3_def new_user_def
      USER_CS_def RFLAGS_GUARDED_def RFLAGS_IF_def)

interpretation x86_mode: result_frames "x86_framed A" "\<lambda>_. x86_user_mode" for A
  by unfold_locales (auto simp: x86_framed_def x86_user_mode_def x86_set_ret_def x86_set_ret2_def x86_set_ret3_def ring3_def x86_saved_write simp del: x86_slot.simps)

lemma x86_step_mode:
  assumes "x86_step (x86_framed A) s s'" and "good_end s" and "frames_ok (\<lambda>_. x86_user_mode) (snd s)"
  shows "frames_ok (\<lambda>_. x86_user_mode) (snd s')"
proof -
  have run: "length (k_procs k) = MAX_PROCS" "alive k (k_current k)" "ring3 cpu" "k_current k = n"
    if "s = (Resumed n, k)" "x86_ran (pr_frame (proc_at k n)) cpu" for n k cpu
  proof -
    have live: "live_inv n k" using assms(2) that by simp
    then show n: "k_current k = n" and len: "length (k_procs k) = MAX_PROCS" by (simp_all add: live_current live_len(1))
    show "alive k (k_current k)" using live_parts [OF live] n by simp
    have "x86_user_mode (pr_frame (proc_at k n))"
      using assms(3) that(1) live_parts [OF live] len by (simp add: frames_ok_def)
    then show "ring3 cpu" using that(2) by (simp add: x86_user_mode_def x86_ran_def)
  qed
  have sys: "syscall_entry (syscall_insn cpu) = map ((syscall_insn cpu)(RIP := cpu RIP, CS := USER_CS, RFLAGS := cpu RFLAGS, SS := USER_SS)) x86_fields" for cpu
    by (simp add: syscall_entry_words syscall_insn_def)
  have isr: "console_isr cpu = timer_isr cpu" for cpu by (simp add: console_isr_def timer_isr_def)
  have int: "frames_ok (\<lambda>_. x86_user_mode) (snd (preempt_trap (x86_framed A) (timer_isr cpu) k))"
       "frames_ok (\<lambda>_. x86_user_mode) (snd (device_trap (x86_framed A) (console_isr cpu) k))"
    if "frames_ok (\<lambda>_. x86_user_mode) k" "\<not> k_idling k \<Longrightarrow> ring3 cpu" for k cpu
    by (rule frames_keeps [OF that(1)], rule x86_mode.interrupts, simp add: isr timer_isr_words x86_mode_words that(2))+
  show ?thesis
    using assms(1)
  proof (cases rule: x86_step.cases)
    case (x86_compute n k m)
    then show ?thesis using frames_keeps [OF assms(3)] by simp
  next
    case (x86_syscall k n cpu)
    have "ring3 ((syscall_insn cpu)(RIP := cpu RIP, CS := USER_CS, RFLAGS := cpu RFLAGS, SS := USER_SS))"
      using run(3) [OF x86_syscall(1,3)] by (simp add: ring3_def USER_CS_def)
    then show ?thesis
      using x86_syscall x86_mode.syscall [OF run(1,2) [OF x86_syscall(1,3)], of A "syscall_entry (syscall_insn cpu)"] assms(3)
      by (simp add: sys x86_mode_words x86_mode_init)
  next
    case (x86_timer k n cpu)
    then show ?thesis using int(1) [of k cpu] run(3) [OF x86_timer(1,3)] assms(3) by simp
  next
    case (x86_console k n cpu)
    then show ?thesis using int(2) [of k cpu] run(3) [OF x86_console(1,3)] assms(3) by simp
  next
    case (x86_exception k n cpu v err cr2 what at)
    then show ?thesis
      using frames_keeps [OF assms(3) x86_mode.interrupts(3)] run(3) [OF x86_exception(1,3)] x86_mode_words timer_isr_words by fastforce
  next
    case (x86_idle_timer k cpu)
    then show ?thesis using int(1) [of k cpu] assms(2,3) by (simp add: parked_def)
  next
    case (x86_idle_console k cpu)
    then show ?thesis using int(2) [of k cpu] assms(2,3) by (simp add: parked_def)
  qed
qed

definition rv_user_mode :: "UserFrame \<Rightarrow> bool" where
  "rv_user_mode f \<longleftrightarrow> RV_WORDS \<le> length f \<and> rv_user (nth f)"

lemma rv_mode_words: "length ws = RV_WORDS \<Longrightarrow> rv_user (nth ws) \<Longrightarrow> rv_user_mode (snapshot (rv_framed A) ws f)"
  using rv_snapshot [OF framed(2), of ws SSTATUS A f]
  by (simp add: rv_user_mode_def rv_user_def snapshot_def rv_framed_def RV_WORDS_def SSTATUS_def)

lemma rv_mode_init: "rv_user_mode (a_frame_init (rv_framed A) entry sp arg)"
  by (simp add: rv_framed_def rv_frame_init_def rv_user_mode_def rv_user_def UserFrame_ZERO_def RV_WORDS_def SSTATUS_def
      SSTATUS_SPIE_def SSTATUS_SUM_def SSTATUS_SPP_def)

interpretation rv_mode: result_frames "rv_framed A" "\<lambda>_. rv_user_mode" for A
  by unfold_locales (auto simp: rv_framed_def rv_user_mode_def rv_set_ret_def rv_set_ret2_def rv_set_ret3_def rv_user_def SSTATUS_def)

lemma rv_trap_mode:
  assumes "take_trap (rv_framed A) (trap_dispatch scause stval ws) k = Some s" and "length ws = RV_WORDS"
    and "\<not> k_idling k \<Longrightarrow> rv_user (nth ws)" and "frames_ok (\<lambda>_. rv_user_mode) k"
    and "drop_bit 63 scause = 0 \<Longrightarrow> \<not> k_idling k \<and> length (k_procs k) = MAX_PROCS \<and> alive k (k_current k)"
  shows "frames_ok (\<lambda>_. rv_user_mode) (snd s)"
proof -
  have int: "frames_ok (\<lambda>_. rv_user_mode) (snd (preempt_trap (rv_framed A) ws k))"
      "frames_ok (\<lambda>_. rv_user_mode) (snd (device_trap (rv_framed A) ws k))"
      "frames_ok (\<lambda>_. rv_user_mode) (snd (fault_trap (rv_framed A) k))"
    by (rule frames_keeps [OF assms(4)], rule rv_mode.interrupts [where words = ws], simp add: rv_mode_words assms(2,3))+
  have sys: "frames_ok (\<lambda>_. rv_user_mode) (snd (syscall_trap (rv_framed A) (ws[SEPC := w]) k))" if "drop_bit 63 scause = 0" for w
  proof (rule rv_mode.syscall [OF _ _ assms(4)])
    show "length (k_procs k) = MAX_PROCS" "alive k (k_current k)" using assms(5) [OF that] by simp_all
    have "rv_user (nth (ws[SEPC := w]))"
      using assms(3) assms(5) [OF that] by (simp add: rv_user_def SEPC_def SSTATUS_def)
    then show "rv_user_mode (snapshot (rv_framed A) (ws[SEPC := w]) UserFrame_ZERO)" by (simp add: rv_mode_words assms(2))
  qed (rule rv_mode_init)
  show ?thesis
    using assms(1) int sys by (auto simp: trap_dispatch_def Let_def split: if_splits)
qed

lemma rv_step_mode:
  assumes "rv_step (rv_framed A) s s'" and "good_end s" and "frames_ok (\<lambda>_. rv_user_mode) (snd s)"
  shows "frames_ok (\<lambda>_. rv_user_mode) (snd s')"
  using assms(1)
proof (cases rule: rv_step.cases)
  case (rv_compute n k m)
  then show ?thesis using frames_keeps [OF assms(3)] by simp
next
  case (rv_trap k n cpu stale scause stval)
  have live: "live_inv n k" using assms(2) rv_trap(1) by simp
  then have len: "length (k_procs k) = MAX_PROCS" and n: "k_current k = n" by (simp_all add: live_current live_len(1))
  have "rv_user_mode (pr_frame (proc_at k n))"
    using assms(3) rv_trap(1) live_parts [OF live] len by (simp add: frames_ok_def)
  then have "rv_user cpu" using rv_trap(2) by (simp add: rv_user_mode_def rv_ran_def)
  then have "rv_user (nth (rv_trap_vector cpu stale))"
    using rv_vector_words [OF rv_trap(3), of cpu] by (simp add: rv_user_def SSTATUS_def RV_WORDS_def)
  then show ?thesis
    using rv_trap_mode [OF rv_trap(4)] rv_vector_words [OF rv_trap(3), of cpu] assms(3) rv_trap(1) live_parts [OF live] len n by simp
next
  case (rv_idle scause stval cpu stale k)
  have "k_idling k" using assms(2) rv_idle(1) by (simp add: parked_def)
  then have "frames_ok (\<lambda>_. rv_user_mode) (snd (preempt_trap (rv_framed A) ws k))"
      "frames_ok (\<lambda>_. rv_user_mode) (snd (device_trap (rv_framed A) ws k))" for ws
    using rv_idle(1) assms(3) by (auto intro!: frames_keeps [of _ k] rv_mode.interrupts)
  then show ?thesis
    using rv_idle(3) interrupt_dispatch [OF rv_idle(2), of stval "rv_trap_vector cpu stale"] by auto
qed

section \<open>Registers of waiting processes\<close>

definition steady :: "nat set \<Rightarrow> 'm Kernel \<Rightarrow> usize \<Rightarrow> usize \<Rightarrow> UserFrame \<Rightarrow> bool" where
  "steady W k n i f \<longleftrightarrow> i \<noteq> n \<and> alive k i \<longrightarrow> (\<forall>w. w \<notin> W \<longrightarrow> f ! w = pr_frame (proc_at k i) ! w)"

interpretation x86_waiting: result_frames "x86_framed A" "steady (x86_slot ` {RAX, RDX, R10}) k n" for A k n
  by unfold_locales (auto simp: x86_framed_def x86_set_ret_def x86_set_ret2_def x86_set_ret3_def steady_def)

interpretation rv_waiting: result_frames "rv_framed A" "steady {10, 11, 13} k n" for A k n
  by unfold_locales (auto simp: rv_framed_def rv_set_ret_def rv_set_ret2_def rv_set_ret3_def steady_def)

lemma steady_start: "frames_ok (steady W k n) k"
  by (simp add: frames_ok_def steady_def)

lemma x86_resume_saved:
  assumes "X86_WORDS \<le> length f"
  shows "x86_resume f any = x86_saved f"
proof -
  have "map x86_slot x86_fields = [0..<X86_WORDS]" by code_simp
  moreover have saved: "x86_saved f = (\<lambda>r. f ! x86_slot r)" by (simp add: fun_eq_iff x86_saved_def)
  ultimately have "map (nth f) (map x86_slot x86_fields) = map (nth f) [0..<X86_WORDS]" by (simp only:)
  then have "map (x86_saved f) x86_fields = map (nth f) [0..<X86_WORDS]" by (simp add: comp_def saved)
  also have "\<dots> = take X86_WORDS f" by (rule nth_equalityI) (use assms in simp_all)
  finally have "f = map (x86_saved f) x86_fields @ drop X86_WORDS f" by simp
  then show ?thesis using x86_resume_words by metis
qed

section \<open>Small runs\<close>

text \<open>The initial processes with the frames of each architecture; the first one yields.\<close>

definition x86_demo :: "Stop \<times> unit Kernel" where
  "x86_demo = launch (x86_framed null_arch) (\<lambda>m. m) demo_fa 0 [] (Kernel_statics ())"

definition x86_demo_cpu :: "X86Reg \<Rightarrow> u64" where
  "x86_demo_cpu = (x86_saved (pr_frame (proc_at (snd x86_demo) 0)))(RAX := sys_YIELD)"

definition x86_demo_call :: "Stop \<times> unit Kernel" where
  "x86_demo_call = syscall_trap (x86_framed null_arch) (syscall_entry (syscall_insn x86_demo_cpu)) (snd x86_demo)"

definition rv_demo :: "Stop \<times> unit Kernel" where
  "rv_demo = launch (rv_framed null_arch) (\<lambda>m. m) demo_fa 0 [] (Kernel_statics ())"

definition rv_demo_call :: "(Stop \<times> unit Kernel) option" where
  "rv_demo_call = take_trap (rv_framed null_arch)
     (trap_dispatch 8 0 (rv_trap_vector ((nth (pr_frame (proc_at (snd rv_demo) 0)))(17 := sys_YIELD)) (replicate 34 0))) (snd rv_demo)"

lemma x86_demo_runs: "fst x86_demo = Resumed 0" "fst x86_demo_call = Resumed 1" "ring3 x86_demo_cpu"
  by code_simp+

lemma rv_demo_runs: "fst rv_demo = Resumed 0" "map_option fst rv_demo_call = Some (Resumed 1)"
  by code_simp+

lemma x86_demo_step: "x86_step (x86_framed null_arch) x86_demo (Resumed 1, snd x86_demo_call)"
proof -
  have "x86_ran (pr_frame (proc_at (snd x86_demo) 0)) x86_demo_cpu" using x86_demo_runs(3) by (simp add: x86_ran_def)
  from x86_syscall [OF this, of "x86_framed null_arch"] have "x86_step (x86_framed null_arch) (Resumed 0, snd x86_demo) x86_demo_call"
    by (simp add: x86_demo_call_def)
  then show ?thesis using x86_demo_runs(1,2) by (metis prod.collapse)
qed

lemma rv_demo_step: "rv_step (rv_framed null_arch) rv_demo (Resumed 1, snd (the rv_demo_call))"
proof -
  let ?f = "pr_frame (proc_at (snd rv_demo) 0)"
  have ran: "rv_ran ?f ((nth ?f)(17 := sys_YIELD))" by (simp add: rv_ran_def rv_user_def SSTATUS_def)
  have "rv_demo_call = Some (Resumed 1, snd (the rv_demo_call))"
    using rv_demo_runs(2) by (metis map_option_eq_Some option.sel prod.collapse)
  then have "take_trap (rv_framed null_arch) (trap_dispatch 8 0 (rv_trap_vector ((nth ?f)(17 := sys_YIELD)) (replicate 34 0))) (snd rv_demo)
      = Some (Resumed 1, snd (the rv_demo_call))"
    by (simp add: rv_demo_call_def)
  from rv_trap [OF ran _ this] have "rv_step (rv_framed null_arch) (Resumed 0, snd rv_demo) (Resumed 1, snd (the rv_demo_call))"
    by (simp add: RV_WORDS_def)
  then show ?thesis using rv_demo_runs(1) by (metis prod.collapse)
qed

section \<open>Properties\<close>

text \<open>
  (C3) On x86-64 the kernel only ever returns to ring 3: in every state a launched machine reaches, whatever
  the processes compute, call and raise, the frame it resumes has user privilege in its code segment, no
  I/O privilege and interrupts on, so no process can escape preemption or the user segments. The processor
  is assumed to keep these for code in ring 3.
\<close>

theorem x86_resumes_in_ring3:
  assumes "cold k0" and "(x86_step (x86_framed A))\<^sup>*\<^sup>* (launch (x86_framed A) start fa kt elf k0) (Resumed n, k)"
  shows "x86_resume (pr_frame (proc_at k n)) any CS AND 3 = 3
    \<and> x86_resume (pr_frame (proc_at k n)) any RFLAGS AND RFLAGS_GUARDED = RFLAGS_IF"
proof -
  have "good_end (Resumed n, k) \<and> (fst (Resumed n, k) = Panicked \<or> frames_ok (\<lambda>_. x86_user_mode) (snd (Resumed n, k)))"
    by (rule reached_frames [OF assms(2,1) x86_mode.launch [OF assms(1) x86_mode_init] x86_kstep x86_step_mode])
  then have "live_inv n k" "frames_ok (\<lambda>_. x86_user_mode) k" by simp_all
  then have "x86_user_mode (pr_frame (proc_at k n))"
    using live_parts [of n k] live_len(1) [of n k] by (simp add: frames_ok_def)
  then show ?thesis by (simp add: x86_user_mode_def x86_resume_saved ring3_def)
qed

text \<open>
  (C12) On RISC-V the kernel only ever returns to U-mode: in every state a launched machine reaches, the
  status word it resumes from has the previous-privilege bit clear. The processor is assumed to clear it
  on a trap from U-mode.
\<close>

theorem rv_resumes_in_user_mode:
  assumes "cold k0" and "(rv_step (rv_framed A))\<^sup>*\<^sup>* (launch (rv_framed A) start fa kt elf k0) (Resumed n, k)"
  shows "rv_resume (pr_frame (proc_at k n)) any SSTATUS AND SSTATUS_SPP = 0"
proof -
  have "good_end (Resumed n, k) \<and> (fst (Resumed n, k) = Panicked \<or> frames_ok (\<lambda>_. rv_user_mode) (snd (Resumed n, k)))"
    by (rule reached_frames [OF assms(2,1) rv_mode.launch [OF assms(1) rv_mode_init] rv_kstep rv_step_mode])
  then have "live_inv n k" "frames_ok (\<lambda>_. rv_user_mode) k" by simp_all
  then have "rv_user_mode (pr_frame (proc_at k n))"
    using live_parts [of n k] live_len(1) [of n k] by (simp add: frames_ok_def)
  then show ?thesis by (simp add: rv_user_mode_def rv_user_def rv_resume_reg SSTATUS_def RV_WORDS_def)
qed

text \<open>
  (C13) A process that waits keeps its registers: whatever another process does in one trap, and whatever
  interrupt arrives, every word of the frame of a process that is not running stays as it was, but for the
  three result registers, so the kernel never moves the program counter or the stack of a waiting process.
\<close>

theorem waiting_registers_are_kept:
  assumes "cold k0" and "(kstep B)\<^sup>*\<^sup>* (launch B start fa kt elf k0) (Resumed n, k)" and "kstep B (Resumed n, k) (s, k')"
    and "B = x86_framed A \<and> W = x86_slot ` {RAX, RDX, R10} \<or> B = rv_framed A \<and> W = {10, 11, 13}"
    and "i < MAX_PROCS" and "i \<noteq> n" and "pr_state (proc_at k i) \<noteq> PFree" and "pr_state (proc_at k' i) \<noteq> PFree" and "w \<notin> W"
  shows "pr_frame (proc_at k' i) ! w = pr_frame (proc_at k i) ! w"
proof -
  have live: "live_inv n k" using reached_good [OF assms(1,2)] by simp
  have any: "steady W k n n f" "\<not> alive k slot \<Longrightarrow> steady W k n slot f" for f slot by (simp_all add: steady_def)
  have "frames_ok (steady W k n) k'"
    using assms(4)
  proof
    assume b: "B = x86_framed A \<and> W = x86_slot ` {RAX, RDX, R10}"
    show ?thesis
      using x86_waiting.step [of A n k "(s, k')" k n] assms(3) live any steady_start [of W k n] b by simp
  next
    assume b: "B = rv_framed A \<and> W = {10, 11, 13}"
    show ?thesis
      using rv_waiting.step [of A n k "(s, k')" k n] assms(3) live any steady_start [of W k n] b by simp
  qed
  moreover have "length (k_procs k') = MAX_PROCS"
    using confined_step [OF assms(3)] live_len(1) [OF live] by (simp add: confined_def)
  ultimately show ?thesis using assms(5-9) by (simp add: frames_ok_def steady_def)
qed

theorem x86_resumes_in_ring3_witness:
  "x86_resume (pr_frame (proc_at (snd x86_demo_call) 1)) (\<lambda>_. 0) CS AND 3 = 3"
  using x86_resumes_in_ring3 [OF cold_statics, of null_arch "\<lambda>m. m" demo_fa 0 "[]" "()" 1 "snd x86_demo_call" "\<lambda>_. 0"] x86_demo_step
  by (simp add: x86_demo_def r_into_rtranclp)

theorem rv_resumes_in_user_mode_witness:
  "rv_resume (pr_frame (proc_at (snd (the rv_demo_call)) 1)) (\<lambda>_. 0) SSTATUS AND SSTATUS_SPP = 0"
  using rv_resumes_in_user_mode [OF cold_statics, of null_arch "\<lambda>m. m" demo_fa 0 "[]" "()" 1 "snd (the rv_demo_call)" "\<lambda>_. 0"] rv_demo_step
  by (simp add: rv_demo_def r_into_rtranclp)

theorem waiting_registers_are_kept_witness:
  "pr_frame (proc_at (snd x86_demo_call) 2) ! x86_slot RSP = 0x80000000"
proof -
  have start: "launch (x86_framed null_arch) (\<lambda>m. m) demo_fa 0 [] (Kernel_statics ()) = (Resumed 0, snd x86_demo)"
    using x86_demo_runs(1) by (metis prod.collapse x86_demo_def)
  have step: "kstep (x86_framed null_arch) (Resumed 0, snd x86_demo) (Resumed 1, snd x86_demo_call)"
    using x86_kstep [OF x86_demo_step] start by (simp add: x86_demo_def)
  have facts: "pr_state (proc_at (snd x86_demo) 2) \<noteq> PFree" "pr_state (proc_at (snd x86_demo_call) 2) \<noteq> PFree"
    "pr_frame (proc_at (snd x86_demo) 2) ! x86_slot RSP = 0x80000000"
    by code_simp+
  have reach: "(kstep (x86_framed null_arch))\<^sup>*\<^sup>* (launch (x86_framed null_arch) (\<lambda>m. m) demo_fa 0 [] (Kernel_statics ())) (Resumed 0, snd x86_demo)"
    using start by simp
  have "pr_frame (proc_at (snd x86_demo_call) 2) ! x86_slot RSP = pr_frame (proc_at (snd x86_demo) 2) ! x86_slot RSP"
    by (rule waiting_registers_are_kept [OF cold_statics reach step disjI1 [OF conjI [OF refl refl]] _ _ facts(1,2)])
      (simp_all add: MAX_PROCS_def)
  then show ?thesis using facts(3) by simp
qed

end
