(* ===== verification/Spec2Isabelle.thy ===== *)
theory Spec2Isabelle
  imports Capabilities Deleg Sched Ipc Runstate Regions Iommu Mm Vspace Vspace_Riscv Load_Image Hostcontract Kauth Acpi Amdvi Uspace Kuser
begin

text \<open>
  A verification library for the Rustproof nucleus (src/crates): a capability-secured microkernel
  that runs untrusted drivers behind an IOMMU. Every definition is a translation of Rust code of the
  repository, in the order the code has it, and every theorem is about those definitions.

  \<^bold>\<open>The program and the theories.\<close> The nucleus is a set of small crates without dependencies on each
  other, and one crate that owns the state and calls them.

  \<^item> Prelude: lemmas on lists, counting, positions and words that the components share.
  \<^item> Abi (crates/abi): rights, capability types, memory regions, page constants, error codes. Rights
    are a lattice; intersection is its greatest lower bound.
  \<^item> Capabilities (crates/capabilities): the slot table with insert, lookup, revoke; the locale
    \<open>slot_store\<close> of the prelude and its interpretation state the laws of such a table.
  \<^item> Deleg (crates/deleg): the ledger of delegations as a list of edges. Revocation is proved equal to
    the closure of the edge relation, splicing to the contraction of a vertex; the live edges stay a
    forest.
  \<^item> Sched (crates/sched): the run queue as the array and cursor the code has, a rotation of the order
    of turns that every operation is refined to, with round robin as its fairness theorem.
  \<^item> Ipc (crates/ipc): ring buffers and endpoints, refined to a pair of queues of which one is empty.
  \<^item> Runstate (crates/runstate): the classification of an idle machine and the rendezvous test.
  \<^item> Regions (crates/regions): the plans that tear shared memory down, their order and their bound.
  \<^item> Iommu (crates/iommu): grants and mappings of a device domain, and the containment invariant.
  \<^item> Mm (crates/mm): the bitmap allocator with its two pools.
  \<^item> Radix, Pages, Vspace, Vspace_Riscv (crates/vspace, crates/vspace-riscv): page tables in memory as
    a function from addresses to words; a shared theory of table trees, and one instance for each
    architecture.
  \<^item> Loader, Load_Image (crates/loader, crates/loader-riscv): the ELF loaders, over a locale of address
    spaces that both page-table theories interpret.
  \<^item> Hostcontract (crates/hostcontract): the dispatcher of the host contract and its three calls; one of
    them, MAP_BAR, is gated by a capability.
  \<^item> Kstate, Kdma, Kregions, Kproc, Ktrap (crates/kernel/src/lib.rs): the statics of the kernel as one
    record; then one definition for each kernel function, up to one for each system call and each
    trap entry.
  \<^item> Kquiet, Kinv, Klaunch, Kauth: the theory of the running kernel. \<open>kstep\<close> relates a kernel state to
    the state after any trap (a system call with any registers, a timer tick, a device interrupt, a
    fault), and \<open>launch\<close> is the end of \<open>run\<close> that starts userland; what is proved holds in every state
    reached so.
  \<^item> Bootinfo, Acpi, Pci (crates/kernel/src/pvh.rs, multiboot.rs, acpi.rs, pci.rs): what the machine says
    of itself at boot, none of it trusted: memory maps clipped to the identity-mapped window, tables
    believed only with their checksum, an enumeration of every PCI function.
  \<^item> Amdvi (\<open>program_dte\<close> in crates/kernel/src/lib.rs): the device table and the page tables of the IOMMU.
    \<open>unit_dma\<close> and \<open>dma_reach\<close> are the unit's side: it finds the table through its registers and a
    device's entry by requester id, which behind a bridge may be the bridge's. By them every DMA of
    every function is refused when the first domain is published.
  \<^item> Uframe (crates/arch-x86_64, arch-riscv64, kernel/src/arch_x86.rs, arch_riscv.rs): what the entry stubs
    save and the return paths load, the frame functions of both Arch implementations, where a trap goes.
  \<^item> Uaccess (the same two files): the check of a user range and the copies in and out, against the
    processor's own walk; a locale of what both architectures promise, interpreted on each.
  \<^item> Kframes, Kuser: what the kernel does to saved registers, a locale of the predicates on frames that
    writing results keeps, and the machine with its trap code: \<open>x86_step\<close> and \<open>rv_step\<close> run a process
    until its next trap and hand the words the stub saves to the kernel. Processes stay in user mode,
    and a waiting process keeps its registers.
  \<^item> Uspace: map_page, tokens and the sharing of the kernel's mappings; that a map grants reading, writing
    and execution as its permissions say, why the spaces of a running kernel, which share tables, stay
    isolated, and that the links above their user pages are open, as Uaccess wants them on x86-64.

  \<^bold>\<open>How state and effects are modelled.\<close> A struct is a record, an enum a datatype, a machine integer a
  word of its width with wrapping, checked or saturating arithmetic as in the code; a \<open>usize\<close> that only
  counts or indexes is a natural number. Arrays of fixed length are lists whose length is part of the
  invariants (\<open>sized\<close> in Kinv). A kernel function takes the state and returns it; one that may not
  return to its caller has the type \<open>kres\<close>, whose left values say why: an assertion failed, the guest
  was shut down with a verdict, the CPU was parked until an interrupt, a process was resumed. The
  traits \<open>Arch\<close> and \<open>Space\<close> of crates/hal, which every kernel function is generic in, are the record
  \<open>Arch\<close> of functions over a machine state of any type; the kernel theorems hold for all of them. The
  I/O page tables the IOMMU walks are memory of their own, \<open>k_io\<close>, since the kernel reads them back.
  Loops are recursion or folds over the ranges of the code; none needs fuel, except that the
  revocation loop of the ledger recurses as long as a pass makes progress, with a proof that it ends;
  the walks over tables from outside (memory maps, IVRS blocks, capability lists, buses) each have the
  bound the code gives them as their measure.

  \<^bold>\<open>What the lemmas show.\<close> Each component theory has its invariant, the behaviour of every operation on
  every branch, and a refinement of an abstract specification where the component has one. For the
  kernel: authority is only ever attenuated and the name of a region never used again (Kauth); the run queue is the set of ready processes,
  nobody waits without the authority to be woken, a rendezvous is never missed, the machine only parks
  when an interrupt will resume it, and its verdict on exit is justified (Klaunch); DMA mappings are
  made whole or not at all, withdrawing one clears every table entry of the page, and the command ring
  of the unit is exhausted after a known number of flushes (Kdma); teardown ends (Klaunch).

  The memory of page tables and the bytes of all other frames are separate in Uaccess and Uspace: that a
  frame is never a table and data at once is the allocator's promise (Mm).

  \<^bold>\<open>Not modelled.\<close> Console output. The registers of the interrupt controllers, the timers and the serial
  ports, and the privileged instructions around them (the arch crates), for which the record \<open>Arch\<close> stands. The demonstrations and
  self tests that \<open>run\<close> performs and prints before userland starts, and the first user programs, which
  only call the kernel: the theorems hold for any program. The kernel theories follow the x86-64
  configuration where the code has two.
\<close>

end
